(* ===== verification/Prelude.thy ===== *)
theory Prelude
  imports Main "HOL-Library.AList" "HOL-Library.Char_ord" "HOL-Library.List_Lexorder"
begin

section \<open>Shared notions: Go maps, strings, clocks\<close>

text \<open>
  What every component model shares. A Go map is an association list without duplicate
  keys (the list order is one of the orders in which Go may range over it); the locale
  \<open>go_map\<close> states the laws the components use and is interpreted on the list
  operations. A Go string is a list of bytes (\<open>string\<close>); comparison of strings is the
  lexicographic order of their bytes, as in Go. A \<open>time.Time\<close> is the number of
  nanoseconds since a fixed origin (\<open>int\<close>), \<open>0\<close> standing for the zero time; the
  clock is read by the caller and passed in. A freshly generated identifier is an argument
  of the operation that draws it.
\<close>

named_theorems session_simps \<open>unfolding rules of the session store\<close>
named_theorems inv_intros \<open>preservation of invariants\<close>

type_synonym time = int
type_synonym id = string

subsection \<open>Go maps\<close>

type_synonym ('k, 'v) gomap = "('k \<times> 'v) list"

definition mget :: "('k, 'v) gomap \<Rightarrow> 'k \<Rightarrow> 'v option" where
  "mget m k = map_of m k"

definition mput :: "'k \<Rightarrow> 'v \<Rightarrow> ('k, 'v) gomap \<Rightarrow> ('k, 'v) gomap" where
  "mput k v m = AList.update k v m"

definition mdel :: "'k \<Rightarrow> ('k, 'v) gomap \<Rightarrow> ('k, 'v) gomap" where
  "mdel k m = filter (\<lambda>kv. fst kv \<noteq> k) m"

definition mkeys :: "('k, 'v) gomap \<Rightarrow> 'k list" where
  "mkeys m = map fst m"

definition mvals :: "('k, 'v) gomap \<Rightarrow> 'v list" where
  "mvals m = map snd m"

definition mok :: "('k, 'v) gomap \<Rightarrow> bool" where
  "mok m = distinct (map fst m)"

text \<open>Reading a missing key of a map whose values are slices gives the empty slice.\<close>

definition mlist :: "('k, 'v list) gomap \<Rightarrow> 'k \<Rightarrow> 'v list" where
  "mlist m k = (case mget m k of None \<Rightarrow> [] | Some xs \<Rightarrow> xs)"

lemma mget_empty [simp]: "mget [] k = None"
  by (simp add: mget_def)

lemma mget_mput [simp]: "mget (mput k v m) j = (if j = k then Some v else mget m j)"
  by (simp add: mget_def mput_def update_conv')

lemma mget_mdel [simp]: "mget (mdel k m) j = (if j = k then None else mget m j)"
  by (induction m) (auto simp: mget_def mdel_def)

lemma mok_empty [simp]: "mok []"
  by (simp add: mok_def)

lemma mok_mput [simp]: "mok m \<Longrightarrow> mok (mput k v m)"
  by (simp add: mok_def mput_def distinct_update)

lemma mok_mdel [simp]: "mok m \<Longrightarrow> mok (mdel k m)"
  by (induction m) (auto simp: mok_def mdel_def)

lemma mlist_mput [simp]: "mlist (mput k v m) j = (if j = k then v else mlist m j)"
  by (simp add: mlist_def)

lemma mlist_mdel [simp]: "mlist (mdel k m) j = (if j = k then [] else mlist m j)"
  by (simp add: mlist_def)

lemma mlist_empty [simp]: "mlist [] k = []"
  by (simp add: mlist_def)

lemma set_mkeys: "set (mkeys m) = {k. mget m k \<noteq> None}"
  by (auto simp: mkeys_def mget_def map_of_eq_None_iff)

lemma mget_None_empty: "(\<And>k. mget m k = None) \<Longrightarrow> m = []"
  using set_mkeys [of m] by (auto simp: mkeys_def)

lemma mget_snoc:
  "mget (m @ [(k, v)]) i = (case mget m i of None \<Rightarrow> if i = k then Some v else None | Some w \<Rightarrow> Some w)"
  by (simp add: mget_def map_of_append map_add_def split: option.split)

lemma mget_in_set: "mget m k = Some v \<Longrightarrow> (k, v) \<in> set m"
  by (simp add: mget_def map_of_SomeD)

lemma in_set_mget: "mok m \<Longrightarrow> (k, v) \<in> set m \<Longrightarrow> mget m k = Some v"
  by (simp add: mok_def mget_def)

lemma set_mvals: "mok m \<Longrightarrow> set (mvals m) = {v. \<exists>k. mget m k = Some v}"
  by (force simp: mvals_def mok_def mget_def dest: map_of_SomeD)

lemma length_mput: "length (mput k v m) = (if mget m k = None then Suc (length m) else length m)"
  by (induction m) (auto simp: mput_def mget_def)

lemma set_map_fst_mput: "set (map fst (mput k v m)) = insert k (set (map fst m))"
  by (simp add: mput_def dom_update)

lemma mput_fresh: "mget m k = None \<Longrightarrow> mput k v m = m @ [(k, v)]"
  by (induction m) (auto simp: mput_def mget_def split: if_splits)

lemma mput_subset: "set (mput k v m) \<subseteq> insert (k, v) (set m)"
  by (induction m) (auto simp: mput_def)

lemma mvals_mput: "set (mvals (mput k v m)) \<subseteq> insert v (set (mvals m))"
  using mput_subset [of k v m] by (fastforce simp: mvals_def)

lemma mvals_mdel: "set (mvals (mdel k m)) \<subseteq> set (mvals m)"
  by (auto simp: mvals_def mdel_def)

lemma mget_filter:
  "mok m \<Longrightarrow> mget (filter P m) k = (case mget m k of None \<Rightarrow> None | Some v \<Rightarrow> if P (k, v) then Some v else None)"
proof (induction m)
  case (Cons x m)
  then have "mget m (fst x) = None" by (auto simp: mok_def mget_def map_of_eq_None_iff)
  with Cons show ?case by (cases x) (auto simp: mok_def mget_def)
qed simp

lemma mok_filter [simp]: "mok m \<Longrightarrow> mok (filter P m)"
  by (simp add: mok_def distinct_map_filter)

lemma mget_map: "mget (map (\<lambda>(i, x). (i, f x)) m) k = map_option f (mget m k)"
  by (induction m) (auto simp: mget_def)

lemma mok_map [simp]: "mok (map (\<lambda>(i, x). (i, f x)) m) = mok m"
  by (simp add: mok_def comp_def split_beta)

lemma mvals_map [simp]: "mvals (map (\<lambda>(i, x). (i, f x)) m) = map f (mvals m)"
  by (simp add: mvals_def comp_def split_beta)

text \<open>A map whose entries carry their own key.\<close>

definition keyed :: "('v \<Rightarrow> 'k) \<Rightarrow> ('k, 'v) gomap \<Rightarrow> bool" where
  "keyed f m = (mok m \<and> (\<forall>(k, v) \<in> set m. f v = k))"

lemma keyed_mok: "keyed f m \<Longrightarrow> mok m"
  by (simp add: keyed_def)

lemma keyed_empty [simp]: "keyed f []"
  by (simp add: keyed_def)

lemma keyed_mput [simp]: "keyed f m \<Longrightarrow> f v = k \<Longrightarrow> keyed f (mput k v m)"
  using mput_subset [of k v m] by (auto simp: keyed_def)

lemma keyed_mdel [simp]: "keyed f m \<Longrightarrow> keyed f (mdel k m)"
  by (auto simp: keyed_def mdel_def)

lemma keyed_map [simp]: "keyed f m \<Longrightarrow> (\<And>v. f (g v) = f v) \<Longrightarrow> keyed f (map (\<lambda>(i, x). (i, g x)) m)"
  by (auto simp: keyed_def)

lemma keyed_get: "keyed f m \<Longrightarrow> mget m k = Some v \<longleftrightarrow> f v = k \<and> v \<in> set (mvals m)"
proof -
  assume k: "keyed f m"
  have "mget m k = Some v \<longleftrightarrow> (k, v) \<in> set m"
    using k mget_in_set [of m k v] in_set_mget [of m k v] unfolding keyed_def by blast
  also have "\<dots> \<longleftrightarrow> f v = k \<and> v \<in> set (mvals m)"
    using k by (force simp: keyed_def mvals_def)
  finally show ?thesis .
qed

lemma keyed_distinct: "keyed f m \<Longrightarrow> distinct (map f (mvals m))"
proof -
  assume k: "keyed f m"
  then have "map f (mvals m) = map fst m" by (auto simp: keyed_def mvals_def)
  with k show ?thesis by (simp add: keyed_def mok_def)
qed

text \<open>The interface: what a client of a Go map relies on.\<close>

locale go_map =
  fixes get :: "'m \<Rightarrow> 'k \<Rightarrow> 'v option"
    and put :: "'k \<Rightarrow> 'v \<Rightarrow> 'm \<Rightarrow> 'm"
    and del :: "'k \<Rightarrow> 'm \<Rightarrow> 'm"
    and ok :: "'m \<Rightarrow> bool"
  assumes get_put: "get (put k v m) j = (if j = k then Some v else get m j)"
    and get_del: "get (del k m) j = (if j = k then None else get m j)"
    and ok_put: "ok m \<Longrightarrow> ok (put k v m)"
    and ok_del: "ok m \<Longrightarrow> ok (del k m)"
begin

lemma get_del_put: "get (del k (put k v m)) = get (del k m)"
  by (rule ext) (simp add: get_put get_del)

lemma get_put_put: "get (put k v (put k w m)) = get (put k v m)"
  by (rule ext) (simp add: get_put)

lemma get_put_swap: "k \<noteq> j \<Longrightarrow> get (put k v (put j w m)) = get (put j w (put k v m))"
  by (rule ext) (simp add: get_put)

end

interpretation gm: go_map mget mput mdel mok
  by unfold_locales simp_all

subsection \<open>Strings and numbers\<close>

definition has_prefix :: "string \<Rightarrow> string \<Rightarrow> bool" where
  "has_prefix s p = (take (length p) s = p)"

lemma has_prefix_append [simp]: "has_prefix (p @ s) p"
  by (simp add: has_prefix_def)

lemma has_prefix_iff: "has_prefix s p \<longleftrightarrow> (\<exists>t. s = p @ t)"
proof
  assume "has_prefix s p"
  then have "s = p @ drop (length p) s"
    by (metis append_take_drop_id has_prefix_def)
  then show "\<exists>t. s = p @ t" ..
qed auto

text \<open>\<open>strings.Contains\<close>.\<close>

fun contains_str :: "string \<Rightarrow> string \<Rightarrow> bool" where
  "contains_str [] p = (p = [])"
| "contains_str (c # s) p = (has_prefix (c # s) p \<or> contains_str s p)"

text \<open>\<open>strings.Join\<close>.\<close>

fun join :: "string \<Rightarrow> string list \<Rightarrow> string" where
  "join sep [] = []"
| "join sep [s] = s"
| "join sep (s # t # ts) = s @ sep @ join sep (t # ts)"

text \<open>
  \<open>strings.ToLower\<close> and \<open>strings.TrimSpace\<close> on ASCII text (letters outside ASCII are
  left alone; Go also folds them and also trims the Unicode spaces).
\<close>

definition lower_char :: "char \<Rightarrow> char" where
  "lower_char c = (if 65 \<le> (of_char c :: nat) \<and> (of_char c :: nat) \<le> 90
     then char_of ((of_char c :: nat) + 32) else c)"

definition to_lower :: "string \<Rightarrow> string" where
  "to_lower s = map lower_char s"

definition is_space :: "char \<Rightarrow> bool" where
  "is_space c = ((of_char c :: nat) \<in> {9, 10, 11, 12, 13, 32})"

definition trim_space :: "string \<Rightarrow> string" where
  "trim_space s = rev (dropWhile is_space (rev (dropWhile is_space s)))"

text \<open>Decimal rendering (\<open>%d\<close>).\<close>

definition digit_char :: "nat \<Rightarrow> char" where
  "digit_char d = char_of (48 + d)"

fun nat_digits :: "nat \<Rightarrow> string" where
  "nat_digits n = (if n < 10 then [digit_char n] else nat_digits (n div 10) @ [digit_char (n mod 10)])"

declare nat_digits.simps [simp del]

definition itoa :: "int \<Rightarrow> string" where
  "itoa i = (if i < 0 then ''-'' @ nat_digits (nat (- i)) else nat_digits (nat i))"

text \<open>Go's integer division truncates towards zero.\<close>

definition go_div :: "int \<Rightarrow> int \<Rightarrow> int" where
  "go_div a b = sgn a * sgn b * (\<bar>a\<bar> div \<bar>b\<bar>)"

subsection \<open>UTF-8\<close>

text \<open>
  Ranging over a Go string decodes UTF-8; a byte that starts no valid sequence is one
  replacement character of width 1. \<open>rune_width\<close> is the width of the rune at the head of
  a byte list, by the first-byte and accept-range tables of \<open>unicode/utf8\<close>.
\<close>

definition in_rng :: "nat \<Rightarrow> nat \<Rightarrow> nat \<Rightarrow> bool" where
  "in_rng lo b hi = (lo \<le> b \<and> b \<le> hi)"

definition accept_lo :: "nat \<Rightarrow> nat" where
  "accept_lo b0 = (if b0 = 224 then 160 else if b0 = 240 then 144 else 128)"

definition accept_hi :: "nat \<Rightarrow> nat" where
  "accept_hi b0 = (if b0 = 237 then 159 else if b0 = 244 then 143 else 191)"

fun rune_width :: "nat list \<Rightarrow> nat" where
  "rune_width [] = 0"
| "rune_width (b0 # bs) =
     (if in_rng 194 b0 223 then
        (case bs of b1 # _ \<Rightarrow> if in_rng 128 b1 191 then 2 else 1 | _ \<Rightarrow> 1)
      else if in_rng 224 b0 239 then
        (case bs of b1 # b2 # _ \<Rightarrow>
             if in_rng (accept_lo b0) b1 (accept_hi b0) \<and> in_rng 128 b2 191 then 3 else 1
         | _ \<Rightarrow> 1)
      else if in_rng 240 b0 244 then
        (case bs of b1 # b2 # b3 # _ \<Rightarrow>
             if in_rng (accept_lo b0) b1 (accept_hi b0) \<and> in_rng 128 b2 191 \<and> in_rng 128 b3 191
             then 4 else 1
         | _ \<Rightarrow> 1)
      else 1)"

lemma rune_width_pos: "bs \<noteq> [] \<Longrightarrow> 0 < rune_width bs"
  by (cases bs) (auto split: list.splits if_splits)

text \<open>The counts of ASCII and of other runes of a string.\<close>

function rune_counts :: "nat list \<Rightarrow> nat \<times> nat" where
  "rune_counts bs =
     (case bs of [] \<Rightarrow> (0, 0)
      | b # _ \<Rightarrow>
          (let (a, n) = rune_counts (drop (rune_width bs) bs)
           in if b < 128 then (Suc a, n) else (a, Suc n)))"
  by pat_completeness auto
termination
proof (relation "measure length", goal_cases)
  case 1
  show ?case by simp
next
  case (2 bs b xs)
  then show ?case using rune_width_pos [of bs] by simp
qed

declare rune_counts.simps [simp del]

definition bytes_of :: "string \<Rightarrow> nat list" where
  "bytes_of s = map of_char s"

definition rune_count :: "string \<Rightarrow> nat" where
  "rune_count s = (let (a, n) = rune_counts (bytes_of s) in a + n)"

subsection \<open>Lists\<close>

text \<open>Sorting by a strict comparison on keys: Go's \<open>sort.Slice\<close> on distinct keys.\<close>

lemma sort_key_set [simp]: "set (sort_key f xs) = set xs"
  by simp

lemma sorted_wrt_sort_key_le: "sorted_wrt (\<lambda>x y. f x \<le> f y) (sort_key f xs)"
  using sorted_sort_key [of f xs] by (simp add: sorted_map)

lemma map_insort_key: "map f (insort_key f x xs) = insort (f x) (map f xs)"
  by (induction xs) simp_all

lemma sort_key_strict:
  assumes "distinct (map f xs)"
  shows "sorted_wrt (\<lambda>a b. f a < f b) (sort_key f xs)"
proof -
  have "distinct (map f (sort_key f xs))"
    using assms by (simp add: distinct_map distinct_sort)
  then show ?thesis
    using sorted_sort_key [of f xs] by (simp add: sorted_wrt_map [symmetric] strict_sorted_iff)
qed

lemma find_Some_iff2: "find P xs = Some x \<Longrightarrow> P x \<and> x \<in> set xs"
  by (auto simp: find_Some_iff)

lemma last_find_append: "find P (xs @ [x]) = (case find P xs of Some y \<Rightarrow> Some y | None \<Rightarrow> if P x then Some x else None)"
  by (induction xs) auto

text \<open>The last element that satisfies a predicate (a scan from the tail).\<close>

definition find_last :: "('a \<Rightarrow> bool) \<Rightarrow> 'a list \<Rightarrow> 'a option" where
  "find_last P xs = find P (rev xs)"

lemma find_last_append [simp]:
  "find_last P (xs @ [x]) = (if P x then Some x else find_last P xs)"
  by (simp add: find_last_def)

lemma find_last_Some: "find_last P xs = Some x \<Longrightarrow> P x \<and> x \<in> set xs"
  by (auto simp: find_last_def find_Some_iff rev_nth)

lemma find_last_None: "find_last P xs = None \<longleftrightarrow> (\<forall>x \<in> set xs. \<not> P x)"
  by (auto simp: find_last_def find_None_iff)

text \<open>A Go map filled by ranging over a slice: the last entry of a key stays.\<close>

lemma index_by_get:
  "mget (fold (\<lambda>b bm. mput (f b) b bm) bs bm0) i =
     (case find_last (\<lambda>b. f b = i) bs of None \<Rightarrow> mget bm0 i | Some b \<Rightarrow> Some b)"
  by (induction bs rule: rev_induct) (auto simp: find_last_def split: option.split)

end
