(* ===== verification/GoJson.thy ===== *)
theory GoJson
  imports Prelude
begin

section \<open>JSON values as Go's encoding/json decodes and prints them\<close>

text \<open>
  A decoded JSON value (\<open>any\<close>): \<open>nil\<close>, \<open>bool\<close>, \<open>float64\<close>, \<open>string\<close>,
  \<open>[]any\<close>, \<open>map[string]any\<close>. A \<open>float64\<close> is the shortest decimal that identifies
  it, mantissa times a power of ten with a mantissa not divisible by ten (\<open>num_ok\<close>): this is
  the number Go prints, it is integral exactly when the float is, and it orders like the
  float. An object is a Go map. \<open>marshal\<close> is \<open>json.Marshal\<close> (object keys sorted, HTML
  characters and control characters escaped) on values whose strings are valid UTF-8;
  \<open>fmt_v\<close> is the \<open>%v\<close> verb and \<open>fmt_T\<close> the \<open>%T\<close> verb. The printers show the
  exponent form for the decimal exponents Go uses it for.
\<close>

datatype json =
    JNull
  | JBool bool
  | JNum int int \<comment> \<open>mantissa, decimal exponent\<close>
  | JStr string
  | JArr "json list"
  | JObj "(string \<times> json) list"

type_synonym jobj = "(string, json) gomap"

text \<open>A Go map that may be nil: \<open>None\<close> is the nil map.\<close>

type_synonym jargs = "jobj option"

definition jint :: "int \<Rightarrow> json" where
  "jint n = JNum n 0"

definition jget :: "jobj \<Rightarrow> string \<Rightarrow> json option" where
  "jget m k = mget m k"

fun num_ok :: "int \<Rightarrow> int \<Rightarrow> bool" where
  "num_ok m e = (if m = 0 then e = 0 else m mod 10 \<noteq> 0)"

text \<open>Comparison of decimals at a common exponent.\<close>

fun num_less :: "int \<times> int \<Rightarrow> int \<times> int \<Rightarrow> bool" where
  "num_less (m1, e1) (m2, e2) =
     (let e = min e1 e2 in m1 * 10 ^ nat (e1 - e) < m2 * 10 ^ nat (e2 - e))"

definition num_le :: "int \<times> int \<Rightarrow> int \<times> int \<Rightarrow> bool" where
  "num_le a b = (\<not> num_less b a)"

fun num_integral :: "int \<times> int \<Rightarrow> bool" where
  "num_integral (m, e) = (0 \<le> e \<or> m mod 10 ^ nat (- e) = 0)"

subsection \<open>Printing\<close>

definition hex_digit :: "nat \<Rightarrow> char" where
  "hex_digit d = (if d < 10 then char_of (48 + d) else char_of (87 + d))"

definition u_escape :: "nat \<Rightarrow> string" where
  "u_escape n = [char_of (92::nat), CHR ''u'', CHR ''0'', CHR ''0'', hex_digit (n div 16), hex_digit (n mod 16)]"

definition esc_char :: "char \<Rightarrow> string" where
  "esc_char c =
     (let n = (of_char c :: nat); bs = char_of (92::nat)
      in if n = 34 then [bs, c]
         else if n = 92 then [bs, bs]
         else if n = 8 then [bs, CHR ''b'']
         else if n = 12 then [bs, CHR ''f'']
         else if n = 10 then [bs, CHR ''n'']
         else if n = 13 then [bs, CHR ''r'']
         else if n = 9 then [bs, CHR ''t'']
         else if n < 32 \<or> n = 38 \<or> n = 60 \<or> n = 62 then u_escape n
         else [c])"

definition quote_char :: char where
  "quote_char = char_of (34::nat)"

definition marshal_str :: "string \<Rightarrow> string" where
  "marshal_str s = [quote_char] @ concat (map esc_char s) @ [quote_char]"

text \<open>
  The shortest decimal \<open>d1 d2 ... dk\<close> with decimal point position \<open>p\<close> (the value is
  \<open>0.d1...dk * 10^p\<close>), in plain form and in exponent form.
\<close>

definition plain_form :: "string \<Rightarrow> int \<Rightarrow> string" where
  "plain_form ds p =
     (if p \<le> 0 then ''0.'' @ replicate (nat (- p)) CHR ''0'' @ ds
      else if int (length ds) \<le> p then ds @ replicate (nat p - length ds) CHR ''0''
      else take (nat p) ds @ ''.'' @ drop (nat p) ds)"

definition exp_form :: "bool \<Rightarrow> string \<Rightarrow> int \<Rightarrow> string" where
  \<comment> \<open>\<open>pad\<close>: the exponent has at least two digits (\<open>fmt\<close>); encoding/json drops that zero
     for a negative one-digit exponent\<close>
  "exp_form pad ds p =
     (let x = p - 1; ax = nat_digits (nat \<bar>x\<bar>)
      in take 1 ds @ (if length ds \<le> 1 then '''' else ''.'' @ drop 1 ds) @ ''e'' @
         (if x < 0 then ''-'' else ''+'') @
         (if length ax < 2 \<and> (pad \<or> 0 \<le> x) then ''0'' @ ax else ax))"

fun fmt_num :: "bool \<Rightarrow> int \<Rightarrow> int \<Rightarrow> int \<Rightarrow> string" where
  "fmt_num pad lo m e =
     (if m = 0 then ''0''
      else let ds = nat_digits (nat \<bar>m\<bar>); p = int (length ds) + e
           in (if m < 0 then ''-'' else '''') @
              (if p - 1 < lo \<or> 21 \<le> p - 1 then exp_form pad ds p else plain_form ds p))"

fun marshal :: "json \<Rightarrow> string" where
  "marshal JNull = ''null''"
| "marshal (JBool b) = (if b then ''true'' else ''false'')"
| "marshal (JNum m e) = fmt_num False (-6) m e"
| "marshal (JStr s) = marshal_str s"
| "marshal (JArr xs) = ''['' @ join '','' (map marshal xs) @ '']''"
| "marshal (JObj kvs) = ''{'' @ join '',''
     (map (\<lambda>kv. marshal_str (fst kv) @ '':'' @ snd kv)
        (sort_key fst (map (\<lambda>kv. (fst kv, marshal (snd kv))) kvs))) @ ''}''"

fun fmt_v :: "json \<Rightarrow> string" where
  "fmt_v JNull = ''<nil>''"
| "fmt_v (JBool b) = (if b then ''true'' else ''false'')"
| "fmt_v (JNum m e) = fmt_num True (-4) m e"
| "fmt_v (JStr s) = s"
| "fmt_v (JArr xs) = ''['' @ join '' '' (map fmt_v xs) @ '']''"
| "fmt_v (JObj kvs) = ''map['' @ join '' ''
     (map (\<lambda>kv. fst kv @ '':'' @ snd kv)
        (sort_key fst (map (\<lambda>kv. (fst kv, fmt_v (snd kv))) kvs))) @ '']''"

fun fmt_T :: "json \<Rightarrow> string" where
  "fmt_T JNull = ''<nil>''"
| "fmt_T (JBool b) = ''bool''"
| "fmt_T (JNum m e) = ''float64''"
| "fmt_T (JStr s) = ''string''"
| "fmt_T (JArr xs) = ''[]interface {}''"
| "fmt_T (JObj kvs) = ''map[string]interface {}''"

text \<open>\<open>%q\<close> of printable text: quotes and backslashes are escaped.\<close>

definition fmt_q :: "string \<Rightarrow> string" where
  "fmt_q s = [quote_char] @
     concat (map (\<lambda>c. if (of_char c :: nat) = 34 \<or> (of_char c :: nat) = 92
                      then [char_of (92::nat), c] else [c]) s) @ [quote_char]"

lemma marshal_str_nonempty: "marshal_str s \<noteq> []"
  by (simp add: marshal_str_def)

lemma nat_digits_nonempty: "nat_digits n \<noteq> []"
  by (subst nat_digits.simps) simp

lemma marshal_nonempty: "marshal v \<noteq> []"
proof (cases v)
  case (JNum m e)
  have "exp_form b ds p \<noteq> []" for b ds p
    by (simp add: exp_form_def Let_def)
  moreover have "plain_form ds p \<noteq> []" if "ds \<noteq> []" for ds p
    using that by (auto simp: plain_form_def)
  ultimately show ?thesis
    using JNum nat_digits_nonempty by (simp add: Let_def)
qed (simp_all add: marshal_str_nonempty)

text \<open>
  Equality of decoded values (\<open>reflect.DeepEqual\<close>): objects are equal when they have the
  same keys with equal values, whatever the order in which the maps are listed.
\<close>

fun jsize :: "json \<Rightarrow> nat" where
  "jsize (JArr xs) = Suc (sum_list (map jsize xs))"
| "jsize (JObj kvs) = Suc (sum_list (map (\<lambda>kv. jsize (snd kv)) kvs))"
| "jsize _ = 1"

fun json_equal :: "json \<Rightarrow> json \<Rightarrow> bool" where
  "json_equal JNull JNull = True"
| "json_equal (JBool a) (JBool b) = (a = b)"
| "json_equal (JNum m e) (JNum n f) = (m = n \<and> e = f)"
| "json_equal (JStr s) (JStr t) = (s = t)"
| "json_equal (JArr xs) (JArr ys) = list_all2 json_equal xs ys"
| "json_equal (JObj as) (JObj bs) =
     (length as = length bs \<and>
      list_all (\<lambda>kv. case map_of bs (fst kv) of None \<Rightarrow> False | Some w \<Rightarrow> json_equal (snd kv) w) as)"
| "json_equal _ _ = False"


end
