(* ===== verification/Provider.thy ===== *)
theory Provider
  imports GoJson
begin

section \<open>The provider-neutral message model\<close>

text \<open>
  \<open>internal/provider/types.go\<close>: roles, content blocks, messages, token usage and stop
  reasons. A block carries the fields of every kind of block, as the Go struct does; the
  constructors \<open>text_block\<close>, \<open>tool_use_block\<close>, \<open>tool_result_block\<close> are the composite
  literals the code writes (every field not named is zero).
\<close>

datatype role = RoleUser | RoleAssistant | RoleOther string

datatype block_type = BlockText | BlockToolUse | BlockToolResult | BlockThinking | BlockImage

datatype gui_node = GenerativeUINode
  (guiComponent: string) (guiProps: jargs) (guiChildren: "gui_node list") (guiKey: string)

type_synonym gui_spec = "gui_node list"

datatype block = Block
  (bType: block_type)
  (bText: string)
  (bThinking: string)
  (bSignature: string)
  (bToolUseID: string)
  (bToolName: string)
  (bToolInput: jargs)
  (bArgsError: string)
  (bToolResultID: string)
  (bToolContent: string)
  (bIsError: bool)
  (bToolMessages: "block list")
  (bGenerativeUI: "gui_spec option")
  (bMediaType: string)
  (bImagePath: string)
  (bImageData: string)
  (bCachePoint: bool)

record message =
  mRole :: role
  mContent :: "block list"

definition text_block :: "string \<Rightarrow> block" where
  "text_block t = Block BlockText t '''' '''' '''' '''' None '''' '''' '''' False [] None '''' '''' '''' False"

definition thinking_block :: "string \<Rightarrow> string \<Rightarrow> block" where
  "thinking_block t sig = Block BlockThinking '''' t sig '''' '''' None '''' '''' '''' False [] None '''' '''' '''' False"

definition tool_use_block :: "string \<Rightarrow> string \<Rightarrow> jargs \<Rightarrow> string \<Rightarrow> block" where
  "tool_use_block uid name input argerr =
     Block BlockToolUse '''' '''' '''' uid name input argerr '''' '''' False [] None '''' '''' '''' False"

definition tool_result_block :: "string \<Rightarrow> string \<Rightarrow> bool \<Rightarrow> block list \<Rightarrow> gui_spec option \<Rightarrow> block" where
  "tool_result_block uid content err nested ui =
     Block BlockToolResult '''' '''' '''' '''' '''' None '''' uid content err nested ui '''' '''' '''' False"

definition image_block :: "string \<Rightarrow> string \<Rightarrow> string \<Rightarrow> block" where
  "image_block mt path data =
     Block BlockImage '''' '''' '''' '''' '''' None '''' '''' '''' False [] None mt path data False"

text \<open>Field updates of a block (\<open>b.ToolContent = ...\<close> and the like).\<close>

fun set_text :: "string \<Rightarrow> block \<Rightarrow> block" where
  "set_text v (Block t a b c d e f g h i j k l m n p q) = Block t v b c d e f g h i j k l m n p q"

fun set_thinking :: "string \<Rightarrow> block \<Rightarrow> block" where
  "set_thinking v (Block t a b c d e f g h i j k l m n p q) = Block t a v c d e f g h i j k l m n p q"

fun set_signature :: "string \<Rightarrow> block \<Rightarrow> block" where
  "set_signature v (Block t a b c d e f g h i j k l m n p q) = Block t a b v d e f g h i j k l m n p q"

fun set_tool_input :: "jargs \<Rightarrow> block \<Rightarrow> block" where
  "set_tool_input v (Block t a b c d e f g h i j k l m n p q) = Block t a b c d e v g h i j k l m n p q"

fun set_args_error :: "string \<Rightarrow> block \<Rightarrow> block" where
  "set_args_error v (Block t a b c d e f g h i j k l m n p q) = Block t a b c d e f v h i j k l m n p q"

fun set_tool_content :: "string \<Rightarrow> block \<Rightarrow> block" where
  "set_tool_content v (Block t a b c d e f g h i j k l m n p q) = Block t a b c d e f g h v j k l m n p q"

fun set_tool_messages :: "block list \<Rightarrow> block \<Rightarrow> block" where
  "set_tool_messages v (Block t a b c d e f g h i j k l m n p q) = Block t a b c d e f g h i j v l m n p q"

fun set_image_data :: "string \<Rightarrow> block \<Rightarrow> block" where
  "set_image_data v (Block t a b c d e f g h i j k l m n p q) = Block t a b c d e f g h i j k l m n v q"

lemma block_ctor_sel [simp]:
  "bType (text_block t) = BlockText" "bText (text_block t) = t" "bToolUseID (text_block t) = ''''"
  "bType (thinking_block t s) = BlockThinking"
  "bType (tool_use_block u n a e) = BlockToolUse" "bToolUseID (tool_use_block u n a e) = u"
  "bToolName (tool_use_block u n a e) = n" "bToolInput (tool_use_block u n a e) = a"
  "bArgsError (tool_use_block u n a e) = e"
  "bType (tool_result_block r c er ne ui) = BlockToolResult"
  "bToolResultID (tool_result_block r c er ne ui) = r"
  "bToolContent (tool_result_block r c er ne ui) = c"
  "bIsError (tool_result_block r c er ne ui) = er"
  "bToolMessages (tool_result_block r c er ne ui) = ne"
  "bGenerativeUI (tool_result_block r c er ne ui) = ui"
  "bType (image_block mt p d) = BlockImage"
  by (simp_all add: text_block_def thinking_block_def tool_use_block_def tool_result_block_def
      image_block_def)

lemma block_set_sel [simp]:
  "bType (set_text v b) = bType b" "bText (set_text v b) = v"
  "bType (set_thinking v b) = bType b" "bThinking (set_thinking v b) = v"
  "bType (set_signature v b) = bType b"
  "bType (set_tool_input ai b) = bType b" "bToolInput (set_tool_input ai b) = ai"
  "bToolUseID (set_tool_input ai b) = bToolUseID b" "bToolName (set_tool_input ai b) = bToolName b"
  "bArgsError (set_tool_input ai b) = bArgsError b"
  "bType (set_args_error v b) = bType b" "bArgsError (set_args_error v b) = v"
  "bToolUseID (set_args_error v b) = bToolUseID b" "bToolName (set_args_error v b) = bToolName b"
  "bToolInput (set_args_error v b) = bToolInput b"
  "bType (set_tool_content v b) = bType b" "bToolContent (set_tool_content v b) = v"
  "bToolResultID (set_tool_content v b) = bToolResultID b"
  "bToolUseID (set_tool_content v b) = bToolUseID b"
  "bIsError (set_tool_content v b) = bIsError b"
  "bType (set_tool_messages ms b) = bType b" "bToolMessages (set_tool_messages ms b) = ms"
  "bToolResultID (set_tool_messages ms b) = bToolResultID b"
  "bType (set_image_data v b) = bType b" "bImageData (set_image_data v b) = v"
  "bImagePath (set_image_data v b) = bImagePath b"
  by (cases b; simp)+

definition text_message :: "role \<Rightarrow> string \<Rightarrow> message" where
  "text_message r t = \<lparr>mRole = r, mContent = [text_block t]\<rparr>"

text \<open>
  Token usage. It is added field by field, so it is a commutative monoid and a ledger's total
  is a \<open>sum_list\<close>; \<open>usage_no_reasoning\<close> is the part of it the run accumulators keep.
\<close>

datatype usage = Usage
  (InputTokens: int)
  (OutputTokens: int)
  (CacheReadTokens: int)
  (CacheWriteTokens: int)
  (ReasoningTokens: int)

instantiation usage :: comm_monoid_add
begin

definition zero_usage :: usage where
  "0 = Usage 0 0 0 0 0"

definition plus_usage :: "usage \<Rightarrow> usage \<Rightarrow> usage" where
  "u + v = Usage (InputTokens u + InputTokens v) (OutputTokens u + OutputTokens v)
     (CacheReadTokens u + CacheReadTokens v) (CacheWriteTokens u + CacheWriteTokens v)
     (ReasoningTokens u + ReasoningTokens v)"

instance
  by standard (auto simp: zero_usage_def plus_usage_def algebra_simps)

end

definition usage_no_reasoning :: "usage \<Rightarrow> usage" where
  "usage_no_reasoning u = Usage (InputTokens u) (OutputTokens u) (CacheReadTokens u) (CacheWriteTokens u) 0"

lemma usage_plus_sel [simp]:
  "InputTokens (u + v) = InputTokens u + InputTokens v"
  "OutputTokens (u + v) = OutputTokens u + OutputTokens v"
  "CacheReadTokens (u + v) = CacheReadTokens u + CacheReadTokens v"
  "CacheWriteTokens (u + v) = CacheWriteTokens u + CacheWriteTokens v"
  "ReasoningTokens (u + v) = ReasoningTokens u + ReasoningTokens v"
  by (simp_all add: plus_usage_def)

lemma usage_zero_sel [simp]:
  "InputTokens 0 = 0" "OutputTokens 0 = 0" "CacheReadTokens 0 = 0" "CacheWriteTokens 0 = 0"
  "ReasoningTokens 0 = 0"
  by (simp_all add: zero_usage_def)

lemma usage_no_reasoning_plus [simp]:
  "usage_no_reasoning (u + v) = usage_no_reasoning u + usage_no_reasoning v"
  by (simp add: usage_no_reasoning_def plus_usage_def)

lemma usage_no_reasoning_zero [simp]: "usage_no_reasoning 0 = 0"
  by (simp add: usage_no_reasoning_def zero_usage_def)

lemma usage_no_reasoning_idem [simp]: "usage_no_reasoning (usage_no_reasoning u) = usage_no_reasoning u"
  by (simp add: usage_no_reasoning_def)

datatype stop_reason =
    StopUnknown | StopEndTurn | StopToolUse | StopMaxTokens | StopStopSequence | StopOther string

fun stop_string :: "stop_reason \<Rightarrow> string" where
  "stop_string StopUnknown = ''''"
| "stop_string StopEndTurn = ''end_turn''"
| "stop_string StopToolUse = ''tool_use''"
| "stop_string StopMaxTokens = ''max_tokens''"
| "stop_string StopStopSequence = ''stop_sequence''"
| "stop_string (StopOther s) = s"

record tool_definition =
  tdName :: string
  tdDescription :: string
  tdInputSchema :: jargs

end
