(* ===== verification/Pairing.thy ===== *)
theory Pairing
  imports Provider
begin

section \<open>Tool-use / tool-result pairing\<close>

text \<open>
  \<open>internal/contextmgmt/pairing.go\<close>: the repair \<open>EnsurePairing\<close> applied before a
  conversation is sent. The loop over the messages is the recursion \<open>ep_run\<close> over the
  state (ids of tool uses seen, ids of results seen, ids still pending); the closure
  \<open>flushPending\<close> is \<open>flush_msgs\<close>. \<open>answered\<close> is the contract it establishes (the
  messages up to the next assistant turn answer every tool use once and nothing else), and
  \<open>settled\<close> the stricter form a well-behaved run produces (answered by the very next
  message), on which the repair is the identity.
\<close>

subsection \<open>The code\<close>

definition is_assistant :: "message \<Rightarrow> bool" where
  "is_assistant m = (mRole m = RoleAssistant)"

definition interrupted_block :: "string \<Rightarrow> block" where
  "interrupted_block i = tool_result_block i ''[Tool use interrupted]'' True [] None"

definition flush_msgs :: "string list \<Rightarrow> message list" where
  "flush_msgs pending =
     (if pending = [] then []
      else [\<lparr>mRole = RoleUser, mContent = map interrupted_block pending\<rparr>])"

definition ensure_nonempty :: "block list \<Rightarrow> block list" where
  "ensure_nonempty content =
     (if content = [] then [text_block ''[Orphaned tool result removed]''] else content)"

definition is_pending :: "string list \<Rightarrow> string \<Rightarrow> bool" where
  "is_pending pending i = (i \<in> set pending)"

definition remove_pending :: "string list \<Rightarrow> string \<Rightarrow> string list" where
  "remove_pending pending i = filter (\<lambda>p. p \<noteq> i) pending"

text \<open>The block loop of an assistant message: kept blocks, ids seen, ids pending.\<close>

fun scan_uses :: "block list \<Rightarrow> string set \<Rightarrow> string list \<Rightarrow> block list \<times> string set \<times> string list" where
  "scan_uses [] seen pending = ([], seen, pending)"
| "scan_uses (b # bs) seen pending =
     (if bType b = BlockToolUse then
        if bToolUseID b \<in> seen then scan_uses bs seen pending
        else (let (c, seen', pending') =
                scan_uses bs (insert (bToolUseID b) seen) (pending @ [bToolUseID b])
              in (b # c, seen', pending'))
      else (let (c, seen', pending') = scan_uses bs seen pending in (b # c, seen', pending')))"

text \<open>The block loop of any other message.\<close>

fun scan_results :: "block list \<Rightarrow> string set \<Rightarrow> string list \<Rightarrow> block list \<times> string set \<times> string list" where
  "scan_results [] seen pending = ([], seen, pending)"
| "scan_results (b # bs) seen pending =
     (if bType b = BlockToolResult then
        if bToolResultID b \<in> seen \<or> \<not> is_pending pending (bToolResultID b)
        then scan_results bs seen pending
        else (let (c, seen', pending') =
                scan_results bs (insert (bToolResultID b) seen) (remove_pending pending (bToolResultID b))
              in (b # c, seen', pending'))
      else (let (c, seen', pending') = scan_results bs seen pending in (b # c, seen', pending')))"

fun ep_run :: "string set \<Rightarrow> string set \<Rightarrow> string list \<Rightarrow> message list \<Rightarrow> message list" where
  "ep_run seenUse seenResult pending [] = flush_msgs pending"
| "ep_run seenUse seenResult pending (m # ms) =
     (if is_assistant m then
        (let (c, seenUse', pending') = scan_uses (mContent m) seenUse []
         in flush_msgs pending @
            m\<lparr>mContent := ensure_nonempty c\<rparr> #
            ep_run seenUse' (seenResult \<union> set pending) pending' ms)
      else
        (let (c, seenResult', pending') = scan_results (mContent m) seenResult pending
         in m\<lparr>mContent := ensure_nonempty c\<rparr> #
            flush_msgs pending' @
            ep_run seenUse (seenResult' \<union> set pending') [] ms))"

definition ensure_pairing :: "message list \<Rightarrow> message list" where
  "ensure_pairing msgs = ep_run {} {} [] msgs"

subsection \<open>The contract\<close>

definition use_ids :: "block list \<Rightarrow> string list" where
  "use_ids bs = map bToolUseID (filter (\<lambda>b. bType b = BlockToolUse) bs)"

definition result_ids :: "block list \<Rightarrow> string list" where
  "result_ids bs = map bToolResultID (filter (\<lambda>b. bType b = BlockToolResult) bs)"

fun answered :: "string list \<Rightarrow> message list \<Rightarrow> bool" where
  "answered pend [] = (pend = [])"
| "answered pend (m # ms) =
     (if is_assistant m then pend = [] \<and> answered (use_ids (mContent m)) ms
      else distinct (result_ids (mContent m)) \<and>
           set (result_ids (mContent m)) \<subseteq> set pend \<and>
           answered (filter (\<lambda>i. i \<notin> set (result_ids (mContent m))) pend) ms)"

definition all_uses :: "message list \<Rightarrow> string list" where
  "all_uses ms = concat (map (\<lambda>m. use_ids (mContent m)) (filter is_assistant ms))"

definition pairing_contract :: "message list \<Rightarrow> bool" where
  "pairing_contract ms =
     (answered [] ms \<and> distinct (all_uses ms) \<and> (\<forall>m \<in> set ms. mContent m \<noteq> []))"

fun settled :: "string set \<Rightarrow> message list \<Rightarrow> bool" where
  "settled su [] = True"
| "settled su (m # ms) =
     (mContent m \<noteq> [] \<and>
      (if is_assistant m then
         distinct (use_ids (mContent m)) \<and> '''' \<notin> set (use_ids (mContent m)) \<and>
         set (use_ids (mContent m)) \<inter> su = {} \<and>
         (if use_ids (mContent m) = [] then settled su ms
          else (case ms of [] \<Rightarrow> False
                | r # ms' \<Rightarrow> \<not> is_assistant r \<and> mContent r \<noteq> [] \<and>
                    distinct (result_ids (mContent r)) \<and>
                    set (result_ids (mContent r)) = set (use_ids (mContent m)) \<and>
                    settled (su \<union> set (use_ids (mContent m))) ms'))
       else result_ids (mContent m) = [] \<and> settled su ms))"

subsection \<open>The block loops\<close>

lemma use_ids_simps [simp]:
  "use_ids [] = []"
  "use_ids (b # bs) = (if bType b = BlockToolUse then bToolUseID b # use_ids bs else use_ids bs)"
  by (simp_all add: use_ids_def)

lemma result_ids_simps [simp]:
  "result_ids [] = []"
  "result_ids (b # bs) =
     (if bType b = BlockToolResult then bToolResultID b # result_ids bs else result_ids bs)"
  by (simp_all add: result_ids_def)

lemma result_ids_append [simp]: "result_ids (xs @ ys) = result_ids xs @ result_ids ys"
  by (simp add: result_ids_def)

lemma use_ids_append [simp]: "use_ids (xs @ ys) = use_ids xs @ use_ids ys"
  by (simp add: use_ids_def)

lemma result_ids_interrupted [simp]: "result_ids (map interrupted_block is) = is"
  by (induction "is") (simp_all add: interrupted_block_def)

lemma nonempty_ids [simp]:
  "use_ids (ensure_nonempty bs) = use_ids bs"
  "result_ids (ensure_nonempty bs) = result_ids bs"
  "ensure_nonempty bs \<noteq> []"
  by (simp_all add: ensure_nonempty_def)

lemma scan_uses_spec:
  "scan_uses bs seen pending = (c, seen', pending') \<Longrightarrow>
     pending' = pending @ use_ids c \<and> distinct (use_ids c) \<and>
     set (use_ids c) \<inter> seen = {} \<and> seen' = seen \<union> set (use_ids c)"
proof (induction bs arbitrary: seen pending c seen' pending')
  case Nil
  then show ?case by simp
next
  case (Cons b bs)
  then show ?case
    by (fastforce split: if_splits prod.splits)
qed

lemma scan_results_spec:
  "scan_results bs seen pending = (c, seen', pending') \<Longrightarrow>
     pending' = filter (\<lambda>i. i \<notin> set (result_ids c)) pending \<and> distinct (result_ids c) \<and>
     set (result_ids c) \<subseteq> set pending \<and> seen' = seen \<union> set (result_ids c)"
proof (induction bs arbitrary: seen pending c seen' pending')
  case Nil
  then show ?case by simp
next
  case (Cons b bs)
  then show ?case
    by (force split: if_splits prod.splits simp: remove_pending_def is_pending_def filter_filter
        intro: filter_cong)
qed

lemma scan_uses_id:
  "distinct (use_ids bs) \<Longrightarrow> set (use_ids bs) \<inter> seen = {} \<Longrightarrow>
     scan_uses bs seen pending = (bs, seen \<union> set (use_ids bs), pending @ use_ids bs)"
  by (induction bs arbitrary: seen pending) auto

lemma scan_results_id:
  "distinct (result_ids bs) \<Longrightarrow> set (result_ids bs) \<inter> seen = {} \<Longrightarrow>
     set (result_ids bs) \<subseteq> set pending \<Longrightarrow>
     scan_results bs seen pending =
       (bs, seen \<union> set (result_ids bs), filter (\<lambda>i. i \<notin> set (result_ids bs)) pending)"
proof (induction bs arbitrary: seen pending)
  case Nil
  then show ?case by simp
next
  case (Cons b bs)
  show ?case
  proof (cases "bType b = BlockToolResult")
    case True
    let ?p = "remove_pending pending (bToolResultID b)"
    have "set (result_ids bs) \<subseteq> set ?p"
      using Cons.prems True by (auto simp: remove_pending_def)
    with Cons.prems True
    have "scan_results bs (insert (bToolResultID b) seen) ?p =
        (bs, insert (bToolResultID b) seen \<union> set (result_ids bs),
         filter (\<lambda>i. i \<notin> set (result_ids bs)) ?p)"
      by (intro Cons.IH) auto
    moreover have "filter (\<lambda>i. i \<notin> set (result_ids bs)) ?p =
        filter (\<lambda>i. i \<notin> set (result_ids (b # bs))) pending"
      using True by (auto simp: remove_pending_def intro: filter_cong)
    ultimately show ?thesis
      using Cons.prems True by (auto simp: is_pending_def)
  next
    case False
    with Cons show ?thesis by simp
  qed
qed

subsection \<open>The repair establishes the contract\<close>

lemma answered_flush:
  "distinct pending \<Longrightarrow> answered pending (flush_msgs pending @ ms) = answered [] ms"
  by (auto simp: flush_msgs_def is_assistant_def)

lemma flush_nonassistant: "m \<in> set (flush_msgs pending) \<Longrightarrow> \<not> is_assistant m \<and> mContent m \<noteq> []"
  by (auto simp: flush_msgs_def is_assistant_def split: if_splits)

lemma ep_run_answered:
  "distinct pending \<Longrightarrow> answered pending (ep_run su sr pending ms)"
proof (induction su sr pending ms rule: ep_run.induct)
  case (1 su sr pending)
  then show ?case using answered_flush [of pending "[]"] by simp
next
  case (2 su sr pending m ms)
  show ?case
  proof (cases "is_assistant m")
    case True
    obtain c su' p' where sc: "scan_uses (mContent m) su [] = (c, su', p')"
      by (cases "scan_uses (mContent m) su []") auto
    then have p': "p' = use_ids c" and "distinct p'"
      using scan_uses_spec [OF sc] by auto
    with 2 True sc have "answered p' (ep_run su' (sr \<union> set pending) p' ms)"
      by (metis prod.inject)
    with True sc p' 2 show ?thesis
      by (auto simp: answered_flush is_assistant_def)
  next
    case False
    obtain c sr' p' where sc: "scan_results (mContent m) sr pending = (c, sr', p')"
      by (cases "scan_results (mContent m) sr pending") auto
    note sp = scan_results_spec [OF sc]
    from 2 False sc have "answered [] (ep_run su (sr' \<union> set p') [] ms)"
      by (metis distinct.simps(1))
    with sp 2 have "answered p' (flush_msgs p' @ ep_run su (sr' \<union> set p') [] ms)"
      by (simp add: answered_flush)
    with False sc sp show ?thesis
      by (auto simp: is_assistant_def)
  qed
qed

lemma all_uses_simps [simp]:
  "all_uses [] = []"
  "all_uses (m # ms) = (if is_assistant m then use_ids (mContent m) @ all_uses ms else all_uses ms)"
  "all_uses (ms @ ns) = all_uses ms @ all_uses ns"
  by (simp_all add: all_uses_def)

lemma all_uses_flush [simp]: "all_uses (flush_msgs pending) = []"
  by (simp add: flush_msgs_def is_assistant_def)

lemma ep_run_uses:
  "distinct (all_uses (ep_run su sr pending ms)) \<and> set (all_uses (ep_run su sr pending ms)) \<inter> su = {}"
proof (induction su sr pending ms rule: ep_run.induct)
  case (1 su sr pending)
  then show ?case by simp
next
  case (2 su sr pending m ms)
  show ?case
  proof (cases "is_assistant m")
    case True
    obtain c su' p' where sc: "scan_uses (mContent m) su [] = (c, su', p')"
      by (cases "scan_uses (mContent m) su []") auto
    note sp = scan_uses_spec [OF sc]
    let ?r = "ep_run su' (sr \<union> set pending) p' ms"
    from 2 True sc have "distinct (all_uses ?r) \<and> set (all_uses ?r) \<inter> su' = {}"
      by (metis prod.inject)
    with True sc sp show ?thesis
      by (auto simp: is_assistant_def)
  next
    case False
    obtain c sr' p' where sc: "scan_results (mContent m) sr pending = (c, sr', p')"
      by (cases "scan_results (mContent m) sr pending") auto
    with 2 False show ?thesis by (auto simp: is_assistant_def)
  qed
qed

lemma ep_run_nonempty: "\<forall>m \<in> set (ep_run su sr pending ms). mContent m \<noteq> []"
proof (induction su sr pending ms rule: ep_run.induct)
  case (1 su sr pending)
  then show ?case using flush_nonassistant by auto
next
  case (2 su sr pending m ms)
  show ?case
  proof (cases "is_assistant m")
    case True
    obtain c su' p' where sc: "scan_uses (mContent m) su [] = (c, su', p')"
      by (cases "scan_uses (mContent m) su []") auto
    from 2 True sc have "\<forall>m \<in> set (ep_run su' (sr \<union> set pending) p' ms). mContent m \<noteq> []"
      by (metis prod.inject)
    with True sc show ?thesis by (auto dest: flush_nonassistant)
  next
    case False
    obtain c sr' p' where sc: "scan_results (mContent m) sr pending = (c, sr', p')"
      by (cases "scan_results (mContent m) sr pending") auto
    from 2 False sc have "\<forall>m \<in> set (ep_run su (sr' \<union> set p') [] ms). mContent m \<noteq> []"
      by (metis prod.inject)
    with False sc show ?thesis by (auto dest: flush_nonassistant)
  qed
qed

lemma ensure_pairing_contract: "pairing_contract (ensure_pairing msgs)"
  using ep_run_answered [of "[]"] ep_run_uses [of "{}" "{}" "[]" msgs] ep_run_nonempty
  by (auto simp: pairing_contract_def ensure_pairing_def)

subsection \<open>The repair leaves a settled conversation alone\<close>

text \<open>The three shapes of a settled list, and the induction over them.\<close>

lemma settled_plain:
  "\<not> is_assistant m \<Longrightarrow>
     settled su (m # ms) = (mContent m \<noteq> [] \<and> result_ids (mContent m) = [] \<and> settled su ms)"
  by simp

lemma settled_text:
  "is_assistant m \<Longrightarrow> use_ids (mContent m) = [] \<Longrightarrow>
     settled su (m # ms) = (mContent m \<noteq> [] \<and> settled su ms)"
  by simp

lemma settled_calls:
  assumes "settled su (m # ms)" "is_assistant m" "use_ids (mContent m) \<noteq> []"
  obtains r ms' where "ms = r # ms'" "mContent m \<noteq> []" "distinct (use_ids (mContent m))"
    "'''' \<notin> set (use_ids (mContent m))" "set (use_ids (mContent m)) \<inter> su = {}"
    "\<not> is_assistant r" "mContent r \<noteq> []" "distinct (result_ids (mContent r))"
    "set (result_ids (mContent r)) = set (use_ids (mContent m))"
    "settled (su \<union> set (use_ids (mContent m))) ms'"
  using assms by (cases ms) (simp_all split: if_splits del: settled.simps(2) add: settled.simps(2) [of su m])

declare settled.simps(2) [simp del]

lemma settled_cases [consumes 1, case_names Nil Plain Text Calls]:
  assumes "settled su ms"
    and "\<And>su. P su []"
    and "\<And>su m ms. \<not> is_assistant m \<Longrightarrow> mContent m \<noteq> [] \<Longrightarrow> result_ids (mContent m) = [] \<Longrightarrow>
           settled su ms \<Longrightarrow> P su ms \<Longrightarrow> P su (m # ms)"
    and "\<And>su m ms. is_assistant m \<Longrightarrow> mContent m \<noteq> [] \<Longrightarrow> use_ids (mContent m) = [] \<Longrightarrow>
           settled su ms \<Longrightarrow> P su ms \<Longrightarrow> P su (m # ms)"
    and "\<And>su m r ms. is_assistant m \<Longrightarrow> mContent m \<noteq> [] \<Longrightarrow> use_ids (mContent m) \<noteq> [] \<Longrightarrow>
           distinct (use_ids (mContent m)) \<Longrightarrow> '''' \<notin> set (use_ids (mContent m)) \<Longrightarrow>
           set (use_ids (mContent m)) \<inter> su = {} \<Longrightarrow> \<not> is_assistant r \<Longrightarrow> mContent r \<noteq> [] \<Longrightarrow>
           distinct (result_ids (mContent r)) \<Longrightarrow>
           set (result_ids (mContent r)) = set (use_ids (mContent m)) \<Longrightarrow>
           settled (su \<union> set (use_ids (mContent m))) ms \<Longrightarrow>
           P (su \<union> set (use_ids (mContent m))) ms \<Longrightarrow> P su (m # r # ms)"
  shows "P su ms"
  using assms(1)
proof (induction ms arbitrary: su rule: length_induct)
  case (1 ms)
  show ?case
  proof (cases ms)
    case Nil
    then show ?thesis using assms(2) by simp
  next
    case (Cons m ms1)
    show ?thesis
    proof (cases "is_assistant m")
      case False
      with 1 Cons show ?thesis by (auto simp: settled_plain intro!: assms(3))
    next
      case True
      show ?thesis
      proof (cases "use_ids (mContent m) = []")
        case True
        with \<open>is_assistant m\<close> 1 Cons show ?thesis
          by (auto simp: settled_text intro!: assms(4))
      next
        case False
        from 1(2) True False show ?thesis
          unfolding Cons by (rule settled_calls) (use 1(1) Cons True False in \<open>auto intro!: assms(5)\<close>)
      qed
    qed
  qed
qed

lemma settled_callsI:
  assumes "is_assistant m" "use_ids (mContent m) \<noteq> []" "mContent m \<noteq> []"
    "distinct (use_ids (mContent m))" "'''' \<notin> set (use_ids (mContent m))"
    "set (use_ids (mContent m)) \<inter> su = {}" "\<not> is_assistant r" "mContent r \<noteq> []"
    "distinct (result_ids (mContent r))"
    "set (result_ids (mContent r)) = set (use_ids (mContent m))"
    "settled (su \<union> set (use_ids (mContent m))) ms"
  shows "settled su (m # r # ms)"
  using assms by (simp add: settled.simps(2) [of su m])

lemma settled_mono: "settled su ms \<Longrightarrow> su' \<subseteq> su \<Longrightarrow> settled su' ms"
proof (induction su ms arbitrary: su' rule: settled_cases)
  case (Calls su m r ms)
  then show ?case by (intro settled_callsI) (auto intro!: Calls)
qed (auto simp: settled_plain settled_text)

lemma ensure_nonempty_id [simp]: "bs \<noteq> [] \<Longrightarrow> ensure_nonempty bs = bs"
  by (simp add: ensure_nonempty_def)

lemma flush_msgs_Nil [simp]: "flush_msgs [] = []"
  by (simp add: flush_msgs_def)

lemma ep_run_settled:
  "settled su ms \<Longrightarrow> sr \<subseteq> su \<Longrightarrow> ep_run su sr [] ms = ms"
proof (induction su ms arbitrary: sr rule: settled_cases)
  case (Plain su m ms)
  then show ?case
    using scan_results_id [of "mContent m" sr "[]"] by simp
next
  case (Text su m ms)
  then show ?case
    using scan_uses_id [of "mContent m" su "[]"] by simp
next
  case (Calls su m r ms)
  let ?u = "use_ids (mContent m)"
  have 1: "scan_uses (mContent m) su [] = (mContent m, su \<union> set ?u, ?u)"
    using Calls.hyps by (subst scan_uses_id) auto
  have 2: "scan_results (mContent r) sr ?u =
      (mContent r, sr \<union> set ?u, filter (\<lambda>i. i \<notin> set ?u) ?u)"
    using Calls by (subst scan_results_id) auto
  have 3: "filter (\<lambda>i. i \<notin> set ?u) ?u = []" by simp
  have "ep_run (su \<union> set ?u) (sr \<union> set ?u) [] ms = ms"
    using Calls.IH [of "sr \<union> set ?u"] Calls.prems by auto
  with Calls.hyps 1 2 show ?case by (simp add: 3)
qed simp

lemma ensure_pairing_settled: "settled {} msgs \<Longrightarrow> ensure_pairing msgs = msgs"
  by (simp add: ensure_pairing_def ep_run_settled)

subsection \<open>Properties\<close>

text \<open>C1: whatever conversation it is given, the repair returns one in which every tool use is
  answered exactly once before the next assistant turn, no result answers anything else, no tool
  use id occurs twice and no message is empty.\<close>
theorem repair_establishes_contract: "pairing_contract (ensure_pairing msgs)"
  by (rule ensure_pairing_contract)

text \<open>A conversation in which every tool use is answered by the very next message, once, is
  returned as it is: the repair run before every send does not touch a well-formed history.\<close>
theorem repair_identity_on_settled: "settled {} msgs \<Longrightarrow> ensure_pairing msgs = msgs"
  by (rule ensure_pairing_settled)

definition sample_exchange :: "message list" where
  "sample_exchange =
     [text_message RoleUser ''go'',
      \<lparr>mRole = RoleAssistant, mContent = [text_block ''t'', tool_use_block ''a'' ''f'' None '''']\<rparr>,
      \<lparr>mRole = RoleUser, mContent = [tool_result_block ''a'' ''ok'' False [] None]\<rparr>]"

lemma sample_exchange_settled: "settled {} sample_exchange"
  by (simp add: sample_exchange_def settled.simps(2) is_assistant_def text_message_def)

lemma repair_identity_on_settled_witness: "ensure_pairing sample_exchange = sample_exchange"
  using repair_identity_on_settled [OF sample_exchange_settled] .

text \<open>
  Where the code falls short of its comments: a call left unanswered by a plain user message is
  answered after that message, not immediately after the call, and a second pass then drops that
  answer's message to a placeholder and answers again, so the repair is not idempotent.
\<close>

definition sample_unanswered :: "message list" where
  "sample_unanswered =
     [\<lparr>mRole = RoleAssistant, mContent = [tool_use_block ''a'' ''f'' None '''']\<rparr>,
      text_message RoleUser ''stop'']"

lemma repair_answers_after_user_text:
  "ensure_pairing sample_unanswered =
     sample_unanswered @ [\<lparr>mRole = RoleUser, mContent = [interrupted_block ''a'']\<rparr>]"
  by (simp add: sample_unanswered_def ensure_pairing_def text_message_def is_assistant_def
      flush_msgs_def)

lemma repair_not_idempotent:
  "ensure_pairing (ensure_pairing sample_unanswered) =
     sample_unanswered @
     [\<lparr>mRole = RoleUser, mContent = [interrupted_block ''a'']\<rparr>,
      \<lparr>mRole = RoleUser, mContent = [text_block ''[Orphaned tool result removed]'']\<rparr>]"
  by (simp add: repair_answers_after_user_text)
     (simp add: sample_unanswered_def ensure_pairing_def text_message_def is_assistant_def
      flush_msgs_def interrupted_block_def ensure_nonempty_def is_pending_def)

end
