(* ===== verification/Rounds.thy ===== *)
theory Rounds
  imports Pairing
begin

section \<open>Rounds: the unit in which a conversation is cut\<close>

text \<open>
  \<open>internal/contextmgmt/rounds.go\<close>, with \<open>SummaryMessage\<close> and \<open>IsSummary\<close> of
  \<open>compress.go\<close> that its drop functions consult. A round is a half-open index interval;
  \<open>group_from\<close> is the outer loop of \<open>groupRounds\<close> at index \<open>i\<close> over the messages left, and
  \<open>answer_end\<close> its inner loop. The set \<open>toolUseIDs\<close> returns is the list of its elements.
\<close>

subsection \<open>The code\<close>

record round =
  rStart :: nat
  rEnd :: nat

definition tool_use_ids :: "message \<Rightarrow> string list" where
  "tool_use_ids m = remdups (filter (\<lambda>i. i \<noteq> '''') (use_ids (mContent m)))"

definition is_tool_result_msg :: "message \<Rightarrow> bool" where
  "is_tool_result_msg m = list_ex (\<lambda>b. bType b = BlockToolResult) (mContent m)"

definition count_answered :: "message \<Rightarrow> string list \<Rightarrow> nat" where
  "count_answered m want =
     length (filter (\<lambda>b. bType b = BlockToolResult \<and> bToolResultID b \<in> set want) (mContent m))"

fun answer_end :: "string list \<Rightarrow> nat \<Rightarrow> nat \<Rightarrow> message list \<Rightarrow> nat" where
  "answer_end ids n j [] = j"
| "answer_end ids n j (m # ms) =
     (if n < length ids \<and> is_tool_result_msg m
      then answer_end ids (n + count_answered m ids) (Suc j) ms
      else j)"

definition round_end :: "nat \<Rightarrow> message \<Rightarrow> message list \<Rightarrow> nat" where
  "round_end i m ms =
     (if is_assistant m \<and> tool_use_ids m \<noteq> [] then answer_end (tool_use_ids m) 0 (Suc i) ms
      else Suc i)"

function group_from :: "nat \<Rightarrow> message list \<Rightarrow> round list" where
  "group_from i [] = []"
| "group_from i (m # ms) =
     (let e = round_end i m ms
      in \<lparr>rStart = i, rEnd = e\<rparr> # group_from e (drop (e - Suc i) ms))"
  by pat_completeness auto
termination
  by (relation "measure (\<lambda>(i, ms). length ms)") auto

definition group_rounds :: "message list \<Rightarrow> round list" where
  "group_rounds msgs = group_from 0 msgs"

definition SummaryPrefix :: string where
  "SummaryPrefix = ''[Earlier conversation summarized]'' @ [CHR 0x0A]"

definition summary_message :: "string \<Rightarrow> message" where
  "summary_message s = text_message RoleUser (SummaryPrefix @ s)"

definition is_summary :: "message \<Rightarrow> bool" where
  "is_summary m =
     (mRole m = RoleUser \<and>
      (case mContent m of [] \<Rightarrow> False
       | b # _ \<Rightarrow> bType b = BlockText \<and> has_prefix (bText b) SummaryPrefix))"

definition drop_oldest_round :: "message list \<Rightarrow> message list \<times> bool" where
  "drop_oldest_round msgs =
     (case group_rounds msgs of
        r0 # r1 # rs \<Rightarrow> (ensure_pairing (drop (rEnd r0) msgs), True)
      | _ \<Rightarrow> (msgs, False))"

definition drop_oldest_keeping_summary :: "message list \<Rightarrow> message list \<times> bool" where
  "drop_oldest_keeping_summary msgs =
     (case group_rounds msgs of
        r0 # r1 # rs \<Rightarrow>
          if is_summary (hd msgs)
          then (ensure_pairing (hd msgs # drop (rEnd r1) msgs), True) else (msgs, False)
      | _ \<Rightarrow> (msgs, False))"

definition drop_oldest_round_preserving_summary :: "message list \<Rightarrow> message list \<times> bool" where
  "drop_oldest_round_preserving_summary msgs =
     (case group_rounds msgs of
        r0 # r1 # rs \<Rightarrow>
          if is_summary (hd msgs) then
            (if rs = [] then (msgs, False)
             else (ensure_pairing (hd msgs # drop (rEnd r1) msgs), True))
          else (ensure_pairing (drop (rEnd r0) msgs), True)
      | _ \<Rightarrow> (msgs, False))"

subsection \<open>Rounds partition the conversation\<close>

fun tiles :: "nat \<Rightarrow> nat \<Rightarrow> round list \<Rightarrow> bool" where
  "tiles lo hi [] = (lo = hi)"
| "tiles lo hi (r # rs) = (rStart r = lo \<and> lo < rEnd r \<and> tiles (rEnd r) hi rs)"

lemma answer_end_bounds: "j \<le> answer_end ids a j ms \<and> answer_end ids a j ms \<le> j + length ms"
proof (induction ms arbitrary: a j)
  case (Cons m ms)
  from Cons [of "Suc j" "a + count_answered m ids"] show ?case by simp
qed simp

lemma round_end_bounds: "i < round_end i m ms" "round_end i m ms \<le> Suc (i + length ms)"
  using answer_end_bounds [of "Suc i" "tool_use_ids m" 0 ms] by (auto simp: round_end_def)

lemma group_from_tiles: "tiles i (i + length ms) (group_from i ms)"
proof (induction i ms rule: group_from.induct)
  case (1 i)
  then show ?case by simp
next
  case (2 i m ms)
  have b: "i < round_end i m ms" "round_end i m ms \<le> Suc (i + length ms)"
    by (rule round_end_bounds)+
  have "round_end i m ms + (length ms - (round_end i m ms - Suc i)) = i + length (m # ms)"
    using b by simp
  with 2 [OF refl] b show ?case by (simp add: Let_def add.commute)
qed

lemma group_rounds_tiles: "tiles 0 (length msgs) (group_rounds msgs)"
  using group_from_tiles [of 0 msgs] by (simp add: group_rounds_def)

lemma tiles_bound: "tiles lo hi rs \<Longrightarrow> lo \<le> hi \<and> (\<forall>r \<in> set rs. lo \<le> rStart r \<and> rStart r < rEnd r \<and> rEnd r \<le> hi)"
  by (induction lo hi rs rule: tiles.induct) force+

lemma tiles_append: "tiles lo hi (rs @ ss) \<longleftrightarrow> (\<exists>mid. tiles lo mid rs \<and> tiles mid hi ss)"
  by (induction rs arbitrary: lo) auto

lemma group_rounds_Nil [simp]: "group_rounds [] = []"
  by (simp add: group_rounds_def)

lemma group_rounds_eq_Nil [simp]: "group_rounds msgs = [] \<longleftrightarrow> msgs = []"
  by (cases msgs) (simp_all add: group_rounds_def Let_def)

lemma group_rounds_length: "length (group_rounds msgs) \<le> length msgs"
proof -
  have "tiles lo hi rs \<Longrightarrow> length rs \<le> hi - lo" for lo hi rs
  proof (induction lo hi rs rule: tiles.induct)
    case (2 lo hi r rs)
    then show ?case using tiles_bound [of "rEnd r" hi rs] by auto
  qed simp
  with group_rounds_tiles [of msgs] show ?thesis by fastforce
qed

subsection \<open>Cutting a settled conversation\<close>

text \<open>
  On a settled conversation a round is either one message or an assistant message with the
  one message that answers it, so what is left after any round is settled again and the
  repair that follows every cut changes nothing.
\<close>

lemma count_answered_all:
  "set (result_ids (mContent r)) = set want \<Longrightarrow> distinct (result_ids (mContent r)) \<Longrightarrow>
     distinct want \<Longrightarrow> count_answered r want = length want"
proof -
  assume a: "set (result_ids (mContent r)) = set want" "distinct (result_ids (mContent r))"
    "distinct want"
  have "map bToolResultID
      (filter (\<lambda>b. bType b = BlockToolResult \<and> bToolResultID b \<in> set want) (mContent r)) =
      filter (\<lambda>i. i \<in> set want) (result_ids (mContent r))"
    by (simp add: result_ids_def filter_map comp_def conj_commute)
  also have "\<dots> = result_ids (mContent r)"
    by (rule filter_True) (simp add: a(1))
  finally have "count_answered r want = length (result_ids (mContent r))"
    unfolding count_answered_def by (drule_tac f = length in arg_cong) (simp only: length_map)
  also have "\<dots> = length want"
    using distinct_card [OF a(2)] distinct_card [OF a(3)] a(1) by simp
  finally show ?thesis .
qed

lemma result_msg_iff: "is_tool_result_msg m \<longleftrightarrow> result_ids (mContent m) \<noteq> []"
  by (auto simp: is_tool_result_msg_def result_ids_def list_ex_iff filter_empty_conv)

lemma round_end_plain: "use_ids (mContent m) = [] \<or> \<not> is_assistant m \<Longrightarrow> round_end i m ms = Suc i"
  by (auto simp: round_end_def tool_use_ids_def)

lemma round_end_calls:
  assumes "is_assistant m" "use_ids (mContent m) \<noteq> []" "distinct (use_ids (mContent m))"
    "'''' \<notin> set (use_ids (mContent m))" "distinct (result_ids (mContent r))"
    "set (result_ids (mContent r)) = set (use_ids (mContent m))"
  shows "round_end i m (r # ms) = Suc (Suc i)"
proof -
  have ids: "tool_use_ids m = use_ids (mContent m)"
  proof -
    have "filter (\<lambda>i. i \<noteq> '''') (use_ids (mContent m)) = use_ids (mContent m)"
      using assms(4) by (intro filter_True) auto
    with assms(3) show ?thesis by (simp add: tool_use_ids_def distinct_remdups_id)
  qed
  have "is_tool_result_msg r"
    using assms(2,6) by (auto simp: result_msg_iff)
  moreover have "count_answered r (use_ids (mContent m)) = length (use_ids (mContent m))"
    using assms by (intro count_answered_all) auto
  moreover have "answer_end ids (length ids) j ms = j" for ids j
    by (cases ms) auto
  ultimately show ?thesis
    using assms(1,2) by (simp add: round_end_def ids)
qed

lemma settled_suffix:
  "settled su ms \<Longrightarrow> rd \<in> set (group_from i ms) \<Longrightarrow> settled su (drop (rEnd rd - i) ms)"
proof (induction su ms arbitrary: i rule: settled_cases)
  case (Plain su m ms)
  have e: "round_end i m ms = Suc i" using Plain by (simp add: round_end_plain)
  from Plain.prems consider "rEnd rd = Suc i" | "rd \<in> set (group_from (Suc i) ms)"
    by (auto simp: e)
  then show ?case
  proof cases
    case 2
    with group_from_tiles [of "Suc i" ms] have "Suc i < rEnd rd"
      using tiles_bound by fastforce
    with Plain.IH [OF 2] show ?thesis by (simp add: drop_Cons' Suc_diff_Suc)
  qed (simp add: Plain.hyps)
next
  case (Text su m ms)
  have e: "round_end i m ms = Suc i" using Text by (simp add: round_end_plain)
  from Text.prems consider "rEnd rd = Suc i" | "rd \<in> set (group_from (Suc i) ms)"
    by (auto simp: e)
  then show ?case
  proof cases
    case 2
    with group_from_tiles [of "Suc i" ms] have "Suc i < rEnd rd"
      using tiles_bound by fastforce
    with Text.IH [OF 2] show ?thesis by (simp add: drop_Cons' Suc_diff_Suc)
  qed (simp add: Text.hyps)
next
  case (Calls su m r ms)
  have e: "round_end i m (r # ms) = Suc (Suc i)" using Calls by (intro round_end_calls)
  have s: "settled su (drop n ms)" if "settled (su \<union> set (use_ids (mContent m))) (drop n ms)" for n
    using that by (rule settled_mono) auto
  from Calls.prems consider "rEnd rd = Suc (Suc i)" | "rd \<in> set (group_from (Suc (Suc i)) ms)"
    by (auto simp: e)
  then show ?case
  proof cases
    case 1
    with s [of 0] Calls.hyps show ?thesis by simp
  next
    case 2
    with group_from_tiles [of "Suc (Suc i)" ms] have "Suc (Suc i) < rEnd rd"
      using tiles_bound by fastforce
    with s Calls.IH [OF 2] show ?thesis by (simp add: drop_Cons' Suc_diff_Suc numeral_2_eq_2)
  qed
qed simp

lemma settled_round_end:
  "settled {} msgs \<Longrightarrow> rd \<in> set (group_rounds msgs) \<Longrightarrow> settled {} (drop (rEnd rd) msgs)"
  using settled_suffix [of "{}" msgs rd 0] by (simp add: group_rounds_def)

lemma settled_summary_Cons:
  "is_summary s \<Longrightarrow> settled su (s # ms) = (result_ids (mContent s) = [] \<and> settled su ms)"
  by (subst settled_plain) (auto simp: is_summary_def is_assistant_def split: list.splits)

lemma is_summary_message [simp]: "is_summary (summary_message s)"
  by (simp add: is_summary_def summary_message_def text_message_def)

lemma summary_message_simps [simp]:
  "result_ids (mContent (summary_message s)) = []" "use_ids (mContent (summary_message s)) = []"
  "\<not> is_assistant (summary_message s)" "mContent (summary_message s) \<noteq> []"
  by (simp_all add: summary_message_def text_message_def is_assistant_def)

lemma is_summary_not_assistant: "is_summary m \<Longrightarrow> \<not> is_assistant m"
  by (simp add: is_summary_def is_assistant_def)

subsection \<open>Every cut makes progress\<close>

text \<open>
  The repair may add messages, so the length of the view is no measure. The number of
  assistant messages, then the number of messages before the first of them, is one: the
  repair keeps both.
\<close>

definition cut_measure :: "message list \<Rightarrow> nat \<times> nat" where
  "cut_measure ms =
     (length (filter is_assistant ms), length (takeWhile (\<lambda>m. \<not> is_assistant m) ms))"

lemma is_assistant_upd [simp]: "is_assistant (m\<lparr>mContent := c\<rparr>) = is_assistant m"
  by (simp add: is_assistant_def)

lemma filter_flush [simp]: "filter is_assistant (flush_msgs p) = []"
  by (simp add: flush_msgs_def is_assistant_def)

lemma ep_run_assistants: "length (filter is_assistant (ep_run su sr p ms)) = length (filter is_assistant ms)"
  by (induction su sr p ms rule: ep_run.induct) (auto split: prod.splits)

lemma ep_run_prefix:
  "length (takeWhile (\<lambda>m. \<not> is_assistant m) (ep_run su sr [] ms)) =
     length (takeWhile (\<lambda>m. \<not> is_assistant m) ms)"
proof (induction ms arbitrary: sr)
  case (Cons m ms)
  then show ?case
    using scan_results_spec [of "mContent m" sr "[]"] by (auto split: prod.splits)
qed simp

lemma cut_measure_ensure [simp]: "cut_measure (ensure_pairing ms) = cut_measure ms"
  by (simp add: cut_measure_def ensure_pairing_def ep_run_assistants ep_run_prefix)

definition cut_order :: "(message list \<times> message list) set" where
  "cut_order = inv_image (less_than <*lex*> less_than) cut_measure"

lemma wf_cut_order [simp]: "wf cut_order"
  by (auto simp: cut_order_def)

lemma cut_order_ensure [simp]:
  "(ensure_pairing ms, ns) \<in> cut_order \<longleftrightarrow> (ms, ns) \<in> cut_order"
  by (simp add: cut_order_def)

lemma filter_drop_le: "length (filter P (drop n xs)) \<le> length (filter P xs)"
proof -
  have "length (filter P xs) = length (filter P (take n xs)) + length (filter P (drop n xs))"
    by (metis append_take_drop_id filter_append length_append)
  then show ?thesis by simp
qed

lemma cut_order_drop:
  assumes "group_rounds msgs = rd # rds"
  shows "(drop (rEnd rd) msgs, msgs) \<in> cut_order"
proof -
  from assms obtain m ms where msgs: "msgs = m # ms" by (cases msgs) auto
  with assms have rd: "rEnd rd = round_end 0 m ms" by (auto simp: group_rounds_def Let_def)
  then obtain n where n: "rEnd rd = Suc n"
    using round_end_bounds(1) [of 0 m ms] gr0_implies_Suc by metis
  show ?thesis
  proof (cases "is_assistant m")
    case True
    with filter_drop_le [of is_assistant n ms] show ?thesis
      by (simp add: msgs n cut_order_def cut_measure_def)
  next
    case False
    with rd n have "n = 0" by (simp add: round_end_plain)
    with False show ?thesis
      by (simp add: msgs n cut_order_def cut_measure_def)
  qed
qed

lemma group_rounds_summary:
  "\<not> is_assistant s \<Longrightarrow> group_rounds (s # ms) = \<lparr>rStart = 0, rEnd = 1\<rparr> # group_from 1 ms"
  by (simp add: group_rounds_def round_end_plain)

lemma cut_order_keep:
  assumes "group_rounds msgs = rd # rd' # rds" "is_summary (hd msgs)"
  shows "(hd msgs # drop (rEnd rd') msgs, msgs) \<in> cut_order"
proof -
  from assms obtain s ms where msgs: "msgs = s # ms" by (cases msgs) auto
  with assms have sna: "\<not> is_assistant s" by (simp add: is_summary_not_assistant)
  then have g: "group_from 1 ms = rd' # rds"
    using assms(1) group_rounds_summary [of s ms] msgs by simp
  then obtain m ns where ms: "ms = m # ns" by (cases ms) auto
  with g have rd: "rEnd rd' = round_end 1 m ns" by (auto simp: Let_def)
  have "Suc (Suc 0) \<le> rEnd rd'"
    using round_end_bounds(1) [of 1 m ns] rd by simp
  then obtain n where n: "rEnd rd' = Suc (Suc n)"
    by (auto dest: le_Suc_ex)
  show ?thesis
  proof (cases "is_assistant m")
    case True
    with filter_drop_le [of is_assistant n ns] sna show ?thesis
      by (simp add: msgs ms n cut_order_def cut_measure_def)
  next
    case False
    with rd n have "n = 0" by (simp add: round_end_plain)
    with False sna show ?thesis
      by (simp add: msgs ms n cut_order_def cut_measure_def)
  qed
qed

lemma drop_preserving_order:
  "drop_oldest_round_preserving_summary msgs = (out, True) \<Longrightarrow> (out, msgs) \<in> cut_order"
  by (auto simp: drop_oldest_round_preserving_summary_def cut_order_drop cut_order_keep
      split: list.splits if_splits)

lemma drop_keeping_order:
  "drop_oldest_keeping_summary msgs = (out, True) \<Longrightarrow> (out, msgs) \<in> cut_order"
  by (auto simp: drop_oldest_keeping_summary_def cut_order_keep split: list.splits if_splits)

subsection \<open>What a cut leaves\<close>

text \<open>A summary-led view keeps its summary at the head through the repair.\<close>

lemma scan_results_no_results: "result_ids bs = [] \<Longrightarrow> scan_results bs sr p = (bs, sr, p)"
  by (induction bs) (auto split: if_splits)

lemma ensure_pairing_summary:
  assumes "is_summary s"
  shows "\<exists>s' ms'. ensure_pairing (s # ms) = s' # ms' \<and> is_summary s'"
proof -
  obtain b bs where c: "mContent s = b # bs" and b: "bType b = BlockText"
    using assms by (auto simp: is_summary_def split: list.splits)
  obtain d sr p where "scan_results bs {} [] = (d, sr, p)"
    by (cases "scan_results bs {} []") auto
  with c b have "scan_results (mContent s) {} [] = (b # d, sr, p)" by simp
  with assms c show ?thesis
    by (simp add: ensure_pairing_def is_summary_not_assistant)
       (simp add: is_summary_def)
qed

lemma ensure_pairing_summary_hd: "is_summary s \<Longrightarrow> is_summary (hd (ensure_pairing (s # ms)))"
  using ensure_pairing_summary [of s ms] by auto

lemma drop_preserving_summary:
  "drop_oldest_round_preserving_summary msgs = (out, True) \<Longrightarrow> is_summary (hd msgs) \<Longrightarrow>
     is_summary (hd out)"
  using ensure_pairing_summary_hd
  by (auto simp: drop_oldest_round_preserving_summary_def split: list.splits if_splits)

lemma drop_keeping_summary:
  "drop_oldest_keeping_summary msgs = (out, True) \<Longrightarrow> is_summary (hd out)"
  using ensure_pairing_summary_hd
  by (auto simp: drop_oldest_keeping_summary_def split: list.splits if_splits)

lemma drop_keeping_refuses:
  "drop_oldest_keeping_summary msgs = (out, False) \<Longrightarrow> is_summary (hd msgs) \<Longrightarrow>
     length (group_rounds msgs) \<le> 1"
  by (auto simp: drop_oldest_keeping_summary_def split: list.splits if_splits)

lemma drops_contract:
  "drop_oldest_round_preserving_summary msgs = (o1, True) \<Longrightarrow> pairing_contract o1"
  "drop_oldest_keeping_summary msgs = (o2, True) \<Longrightarrow> pairing_contract o2"
  "drop_oldest_round msgs = (o3, True) \<Longrightarrow> pairing_contract o3"
  by (auto simp: drop_oldest_round_preserving_summary_def drop_oldest_keeping_summary_def
      drop_oldest_round_def ensure_pairing_contract split: list.splits if_splits)

text \<open>The exact result on a settled view: a suffix of it, behind the summary if it has one.\<close>

lemma settled_drop_keep:
  assumes "settled {} (s # ms)" "is_summary s" "group_rounds (s # ms) = rd # rd' # rds"
  shows "1 < rEnd rd'" "rEnd rd' \<le> Suc (length ms)" "settled {} (s # drop (rEnd rd' - 1) ms)"
    "settled {} (drop (rEnd rd' - 1) ms)"
proof -
  from assms(3) have "tiles 0 (length (s # ms)) (rd # rd' # rds)"
    using group_rounds_tiles [of "s # ms"] by simp
  with assms show b: "1 < rEnd rd'" "rEnd rd' \<le> Suc (length ms)"
    using group_rounds_summary [of s ms] is_summary_not_assistant
      tiles_bound [of "rEnd rd'" "Suc (length ms)" rds] by auto
  then show d: "settled {} (drop (rEnd rd' - 1) ms)"
    using settled_round_end [OF assms(1), of rd'] assms(3) by (simp add: drop_Cons')
  then show "settled {} (s # drop (rEnd rd' - 1) ms)"
    using assms(1,2) by (simp add: settled_summary_Cons)
qed

lemma drops_settled_summary:
  assumes "settled {} (s # ms)" "is_summary s"
    "drop_oldest_round_preserving_summary (s # ms) = (out, True) \<or>
     drop_oldest_keeping_summary (s # ms) = (out, True)"
  shows "\<exists>k. 0 < k \<and> k \<le> length ms \<and> out = s # drop k ms \<and> settled {} out \<and> settled {} (drop k ms)"
proof -
  from assms(3) obtain rd rd' rds where g: "group_rounds (s # ms) = rd # rd' # rds"
    by (auto simp: drop_oldest_round_preserving_summary_def drop_oldest_keeping_summary_def
        split: list.splits)
  note k = settled_drop_keep [OF assms(1,2) g]
  have "out = ensure_pairing (s # drop (rEnd rd' - 1) ms)"
    using assms(2,3) g k(1)
    by (auto simp: drop_oldest_round_preserving_summary_def drop_oldest_keeping_summary_def
        drop_Cons' split: if_splits)
  with k show ?thesis
    by (intro exI [of _ "rEnd rd' - 1"]) (auto simp: ensure_pairing_settled)
qed

lemma drop_oldest_settled:
  assumes "settled {} msgs" "drop_oldest_round msgs = (out, True)"
  shows "\<exists>k. 0 < k \<and> k < length msgs \<and> out = drop k msgs \<and> settled {} out"
proof -
  from assms(2) obtain rd rd' rds where g: "group_rounds msgs = rd # rd' # rds"
    and o: "out = ensure_pairing (drop (rEnd rd) msgs)"
    by (auto simp: drop_oldest_round_def split: list.splits)
  from group_rounds_tiles [of msgs] g
  have t: "0 < rEnd rd" "rStart rd' = rEnd rd" "tiles (rEnd rd) (length msgs) (rd' # rds)" by auto
  then have "rEnd rd < length msgs" using tiles_bound [OF t(3)] by auto
  moreover have "settled {} (drop (rEnd rd) msgs)"
    using settled_round_end [OF assms(1), of rd] g by simp
  ultimately show ?thesis using o t(1) by (auto simp: ensure_pairing_settled)
qed

subsection \<open>Properties\<close>

definition round_messages :: "message list \<Rightarrow> round \<Rightarrow> message list" where
  "round_messages msgs r = take (rEnd r - rStart r) (drop (rStart r) msgs)"

lemma tiles_concat:
  "tiles lo (length msgs) rs \<Longrightarrow> concat (map (round_messages msgs) rs) = drop lo msgs"
proof (induction lo "length msgs" rs rule: tiles.induct)
  case (2 lo r rs)
  then have "concat (map (round_messages msgs) rs) = drop (rEnd r) msgs" and lt: "lo < rEnd r"
    and st: "rStart r = lo" by auto
  then have "concat (map (round_messages msgs) (r # rs)) =
      take (rEnd r - lo) (drop lo msgs) @ drop (rEnd r - lo) (drop lo msgs)"
    by (simp add: round_messages_def)
  then show ?case by (simp only: append_take_drop_id)
qed simp

text \<open>Grouping into rounds terminates and partitions any conversation: the rounds are non-empty
  consecutive intervals from the first message to the last, and their messages in order are the
  conversation.\<close>
theorem rounds_partition:
  "tiles 0 (length msgs) (group_rounds msgs) \<and>
   concat (map (round_messages msgs) (group_rounds msgs)) = msgs"
  using group_rounds_tiles [of msgs] tiles_concat [of 0 msgs "group_rounds msgs"] by simp

text \<open>Dropping the oldest round of a settled conversation leaves exactly its messages from the
  end of that round on (a proper, non-empty suffix that is settled again): no tool use is severed
  from its result and the repair that follows the cut has nothing to do.\<close>
theorem drop_oldest_cut_safe:
  assumes "settled {} msgs" "drop_oldest_round msgs = (out, True)"
  shows "\<exists>k. 0 < k \<and> k < length msgs \<and> out = drop k msgs \<and> settled {} out"
  using assms by (rule drop_oldest_settled)

lemma drop_oldest_cut_safe_witness:
  "\<exists>k. 0 < k \<and> k < length sample_exchange \<and> fst (drop_oldest_round sample_exchange) = drop k sample_exchange"
proof -
  have "drop_oldest_round sample_exchange = (tl sample_exchange, True)" by code_simp
  from drop_oldest_cut_safe [OF sample_exchange_settled this] show ?thesis
    by (metis \<open>drop_oldest_round sample_exchange = (tl sample_exchange, True)\<close> fst_conv)
qed

end
