(* ===== verification/Compress.thy ===== *)
theory Compress
  imports Rounds
begin

section \<open>Compression of the working view\<close>

text \<open>
  \<open>internal/contextmgmt/compress.go\<close> and \<open>truncate.go\<close>: the token estimate, the trigger,
  the summary cache, \<open>CompressWithCache\<close> and the post-check \<open>shrinkToBudget\<close>. The
  summarizer is an argument (a model call in the program); its error aborts the compression.
  The trigger multiplies two \<open>float64\<close>: a finite non-negative float is a mantissa below
  \<open>2^53\<close> times a power of two, and the product is rounded to nearest, ties to even
  (overflow and subnormal results are outside the budgets the program uses).
\<close>

subsection \<open>Floats of the trigger\<close>

datatype float64 = F64 (fMan: nat) (fExp: int)

fun bit_len :: "nat \<Rightarrow> nat" where
  "bit_len n = (if n = 0 then 0 else Suc (bit_len (n div 2)))"

declare bit_len.simps [simp del]

definition f64_round :: "nat \<Rightarrow> int \<Rightarrow> float64" where
  "f64_round m e =
     (let k = bit_len m - 53; q = m div 2 ^ k; r = m mod 2 ^ k
      in if k = 0 then F64 m e
         else if 2 ^ k < 2 * r \<or> (2 * r = 2 ^ k \<and> odd q) then F64 (Suc q) (e + int k)
         else F64 q (e + int k))"

definition f64_mul :: "float64 \<Rightarrow> float64 \<Rightarrow> float64" where
  "f64_mul a b = f64_round (fMan a * fMan b) (fExp a + fExp b)"

definition f64_of_int :: "int \<Rightarrow> float64" where
  "f64_of_int n = f64_round (nat n) 0"

definition f64_trunc :: "float64 \<Rightarrow> int" where
  "f64_trunc a = (if 0 \<le> fExp a then int (fMan a) * 2 ^ nat (fExp a)
                  else int (fMan a) div 2 ^ nat (- fExp a))"

subsection \<open>The token estimate\<close>

record policy =
  pMaxTokens :: int
  pThreshold :: float64
  pKeepRecent :: int

record token_counter =
  tcAscii :: int
  tcNonAscii :: int

definition tc_add :: "string \<Rightarrow> token_counter \<Rightarrow> token_counter" where
  "tc_add s c = (let (a, n) = rune_counts (bytes_of s)
     in c\<lparr>tcAscii := tcAscii c + int a, tcNonAscii := tcNonAscii c + int n\<rparr>)"

definition tc_bump :: "int \<Rightarrow> token_counter \<Rightarrow> token_counter" where
  "tc_bump k c = c\<lparr>tcAscii := tcAscii c + k\<rparr>"

definition tc_tokens :: "token_counter \<Rightarrow> int" where
  "tc_tokens c = tcAscii c div 4 + tcNonAscii c"

definition tc_zero :: token_counter where
  "tc_zero = \<lparr>tcAscii = 0, tcNonAscii = 0\<rparr>"

definition imageRefBytes :: int where
  "imageRefBytes = 4000"

definition entries :: "jargs \<Rightarrow> (string \<times> json) list" where
  "entries a = (case a of None \<Rightarrow> [] | Some m \<Rightarrow> m)"

definition image_bytes :: "block \<Rightarrow> int" where
  "image_bytes b =
     (if bType b = BlockImage
      then (if bImageData b \<noteq> [] then int (length (bImageData b)) else imageRefBytes) else 0)"

definition count_block :: "block \<Rightarrow> token_counter \<Rightarrow> token_counter" where
  "count_block b c =
     (let c = tc_add (bText b) c;
          c = tc_add (bThinking b) c;
          c = tc_add (bToolContent b) c;
          c = tc_add (bToolName b) c;
          c = tc_add (bArgsError b) c;
          c = fold (\<lambda>kv c. tc_add (marshal (snd kv)) (tc_bump 8 (tc_add (fst kv) c)))
                (entries (bToolInput b)) c
      in tc_bump (image_bytes b) c)"

definition estimate_tokens :: "message list \<Rightarrow> int" where
  "estimate_tokens msgs = tc_tokens (fold (\<lambda>m. fold count_block (mContent m)) msgs tc_zero)"

definition block_bytes :: "block \<Rightarrow> int" where
  "block_bytes b =
     int (length (bText b) + length (bThinking b) + length (bToolContent b) +
          length (bToolName b) + length (bArgsError b)) +
     sum_list (map (\<lambda>kv. int (length (fst kv)) + 8 + int (length (marshal (snd kv))))
       (entries (bToolInput b))) +
     image_bytes b"

definition content_bytes :: "message list \<Rightarrow> int" where
  "content_bytes msgs = sum_list (map (\<lambda>m. sum_list (map block_bytes (mContent m))) msgs)"

definition marshal_args :: "jargs \<Rightarrow> string" where
  "marshal_args a = (case a of None \<Rightarrow> ''null'' | Some m \<Rightarrow> marshal (JObj m))"

definition estimate_overhead :: "string \<Rightarrow> tool_definition list \<Rightarrow> int" where
  "estimate_overhead system tools =
     tc_tokens (fold (\<lambda>t c. tc_add (marshal_args (tdInputSchema t))
                         (tc_bump 16 (tc_add (tdDescription t) (tc_add (tdName t) c))))
                  tools (tc_add system tc_zero))"

definition should_compress :: "message list \<Rightarrow> policy \<Rightarrow> bool" where
  "should_compress history p =
     (if pMaxTokens p \<le> 0 \<or> fMan (pThreshold p) = 0 then False
      else estimate_tokens history > f64_trunc (f64_mul (f64_of_int (pMaxTokens p)) (pThreshold p)))"

subsection \<open>The cache and the compression\<close>

record compression_cache =
  ccCovered :: nat
  ccCoveredBytes :: int
  ccSummary :: string

definition cache_empty :: compression_cache where
  "cache_empty = \<lparr>ccCovered = 0, ccCoveredBytes = 0, ccSummary = ''''\<rparr>"

definition cache_advance :: "message list \<Rightarrow> compression_cache option \<Rightarrow> compression_cache option" where
  "cache_advance dropped cache =
     (case cache of None \<Rightarrow> None
      | Some c \<Rightarrow> if ccCovered c = 0 then Some c
          else Some (c\<lparr>ccCovered := ccCovered c + length dropped,
                       ccCoveredBytes := ccCoveredBytes c + content_bytes dropped\<rparr>))"

definition cache_invalidate :: "compression_cache \<Rightarrow> compression_cache" where
  "cache_invalidate c = c\<lparr>ccCovered := 0, ccCoveredBytes := 0, ccSummary := ''''\<rparr>"

text \<open>
  One round of the loop of \<open>shrinkToBudget\<close> (\<open>None\<close>: the loop is left), and the loop, which
  ends by \<open>cut_order\<close>.
\<close>

definition shrink_step :: "policy \<Rightarrow> message list \<Rightarrow> message list option" where
  "shrink_step p out =
     (if should_compress out p then
        (let (shrunk, ok) = drop_oldest_round_preserving_summary out
         in if ok then Some shrunk
            else (let (shrunk, ok) = drop_oldest_keeping_summary out
                  in if ok then Some shrunk else None))
      else None)"

lemma shrink_step_cases:
  assumes "shrink_step p out = Some w"
  shows "drop_oldest_round_preserving_summary out = (w, True) \<or> drop_oldest_keeping_summary out = (w, True)"
  using assms by (auto simp: shrink_step_def split: if_splits prod.splits)

function shrink_loop :: "policy \<Rightarrow> message list \<Rightarrow> message list" where
  "shrink_loop p out =
     (case shrink_step p out of None \<Rightarrow> out | Some shrunk \<Rightarrow> shrink_loop p shrunk)"
  by pat_completeness auto
termination
  by (relation "inv_image cut_order snd")
     (auto dest!: shrink_step_cases simp: drop_preserving_order drop_keeping_order)

declare shrink_loop.simps [simp del]

definition shrink_to_budget ::
  "message list \<Rightarrow> message list \<Rightarrow> nat \<Rightarrow> policy \<Rightarrow> compression_cache option \<Rightarrow>
     message list \<times> compression_cache option" where
  "shrink_to_budget out0 history splitIdx p cache =
     (let out = shrink_loop p out0
      in (out,
          (case cache of None \<Rightarrow> None
           | Some c \<Rightarrow>
               if length out < length out0 \<and> splitIdx + (length out0 - length out) \<le> length history
               then (let advance = splitIdx + (length out0 - length out)
                     in Some (c\<lparr>ccCovered := advance, ccCoveredBytes := content_bytes (take advance history)\<rparr>))
               else Some c)))"

datatype compress_result =
    CompressPanic \<comment> \<open>index out of range\<close>
  | CompressErr string "compression_cache option"
  | CompressOk "message list" "compression_cache option"

definition cache_valid :: "compression_cache option \<Rightarrow> message list \<Rightarrow> nat \<Rightarrow> bool" where
  "cache_valid cache history splitIdx =
     (case cache of None \<Rightarrow> False
      | Some c \<Rightarrow> 0 < ccCovered c \<and> ccCovered c \<le> splitIdx \<and>
          ccCoveredBytes c = content_bytes (take (ccCovered c) history))"

definition reuse_candidate :: "compression_cache \<Rightarrow> message list \<Rightarrow> message list" where
  "reuse_candidate c history =
     ensure_pairing (summary_message (ccSummary c) # drop (ccCovered c) history)"

definition summarize_step ::
  "(message list \<Rightarrow> string + string) \<Rightarrow> message list \<Rightarrow> nat \<Rightarrow> compression_cache option \<Rightarrow> string + string" where
  "summarize_step summarize history splitIdx cache =
     (if cache_valid cache history splitIdx then
        (let c = the cache in
         if ccCovered c = splitIdx then Inr (ccSummary c)
         else summarize (summary_message (ccSummary c) #
                         drop (ccCovered c) (take splitIdx history)))
      else summarize (take splitIdx history))"

definition compress_with_cache ::
  "(message list \<Rightarrow> string + string) \<Rightarrow> message list \<Rightarrow> policy \<Rightarrow> compression_cache option \<Rightarrow> compress_result" where
  "compress_with_cache summarize history p cache =
     (if \<not> should_compress history p then CompressOk history cache
      else let keep = nat (pKeepRecent p); rounds = group_rounds history in
        if length rounds \<le> keep then CompressOk history cache
        else if keep = 0 then CompressPanic
        else let splitIdx = rStart (rounds ! (length rounds - keep)) in
          if cache_valid cache history splitIdx \<and>
             estimate_tokens (reuse_candidate (the cache) history) \<le> pMaxTokens p
          then CompressOk (reuse_candidate (the cache) history) cache
          else (case summarize_step summarize history splitIdx cache of
                  Inl e \<Rightarrow> CompressErr e cache
                | Inr summary \<Rightarrow>
                    let cache' = map_option (\<lambda>c. c\<lparr>ccCovered := splitIdx,
                           ccCoveredBytes := content_bytes (take splitIdx history),
                           ccSummary := summary\<rparr>) cache;
                        out = ensure_pairing (summary_message summary # drop splitIdx history);
                        (v, cache'') = shrink_to_budget out history splitIdx p cache'
                    in CompressOk v cache''))"

definition compress :: "(message list \<Rightarrow> string + string) \<Rightarrow> message list \<Rightarrow> policy \<Rightarrow> compress_result" where
  "compress summarize history p = compress_with_cache summarize history p None"

subsection \<open>Truncation before persistence\<close>

definition MaxToolResultChars :: nat where
  "MaxToolResultChars = 20000"

definition truncation_marker :: "nat \<Rightarrow> string" where
  "truncation_marker n =
     [CHR 0x0A, CHR 0x0A] @ ''... ['' @ itoa (int n) @ '' bytes truncated] ...''"

definition truncate_block :: "block \<Rightarrow> block" where
  "truncate_block b =
     (if bType b \<noteq> BlockToolResult then b
      else if length (bToolContent b) \<le> MaxToolResultChars then b
      else set_tool_content
             (take MaxToolResultChars (bToolContent b) @
              truncation_marker (length (bToolContent b) - MaxToolResultChars)) b)"

definition truncate_blocks_for_persistence :: "block list \<Rightarrow> block list" where
  "truncate_blocks_for_persistence bs = map truncate_block bs"

subsection \<open>The post-check loop\<close>

lemma shrink_step_None:
  "shrink_step p out = None \<Longrightarrow> is_summary (hd out) \<Longrightarrow>
     \<not> should_compress out p \<or> length (group_rounds out) \<le> 1"
  using drop_keeping_refuses
  by (fastforce simp: shrink_step_def Let_def split: if_splits prod.splits)

lemma shrink_loop_summary:
  "is_summary (hd out) \<Longrightarrow>
     is_summary (hd (shrink_loop p out)) \<and>
     (\<not> should_compress (shrink_loop p out) p \<or> length (group_rounds (shrink_loop p out)) \<le> 1)"
proof (induction p out rule: shrink_loop.induct)
  case (1 p out)
  show ?case
  proof (cases "shrink_step p out")
    case None
    with 1 shrink_step_None show ?thesis by (simp add: shrink_loop.simps [of p out])
  next
    case (Some w)
    with 1 have "is_summary (hd w)"
      using drop_preserving_summary drop_keeping_summary shrink_step_cases by blast
    with Some 1 show ?thesis by (simp add: shrink_loop.simps [of p out])
  qed
qed

lemma shrink_step_contract: "shrink_step p out = Some w \<Longrightarrow> pairing_contract w"
  by (drule shrink_step_cases) (auto dest: drops_contract)

lemma shrink_loop_contract:
  "pairing_contract out \<Longrightarrow> pairing_contract (shrink_loop p out)"
proof (induction p out rule: shrink_loop.induct)
  case (1 p out)
  then show ?case
    by (subst shrink_loop.simps)
       (auto split: option.split dest: shrink_step_contract)
qed

lemma shrink_loop_settled:
  "out = s # ms \<Longrightarrow> settled {} out \<Longrightarrow> is_summary s \<Longrightarrow>
     \<exists>k \<le> length ms. shrink_loop p out = s # drop k ms \<and> settled {} (drop k ms)"
proof (induction p out arbitrary: ms rule: shrink_loop.induct)
  case (1 p out)
  show ?case
  proof (cases "shrink_step p out")
    case None
    with 1(2-4) show ?thesis
      by (subst shrink_loop.simps) (auto simp: settled_summary_Cons intro: exI [of _ 0])
  next
    case (Some w)
    from shrink_step_cases [OF Some] drops_settled_summary [of s ms w] 1(2-4)
    obtain k where k: "k \<le> length ms" "w = s # drop k ms" "settled {} w" by auto
    from 1(1) [OF Some k(2,3) 1(4)] obtain j where
      "j \<le> length ms - k" "shrink_loop p w = s # drop j (drop k ms)" "settled {} (drop j (drop k ms))"
      by auto
    with k(1) Some show ?thesis
      by (intro exI [of _ "j + k"]) (auto simp: shrink_loop.simps [of p out])
  qed
qed

subsection \<open>The whole compression\<close>

lemma round_start_cut:
  assumes "settled {} msgs" "i < length (group_rounds msgs)"
  shows "settled {} (drop (rStart (group_rounds msgs ! i)) msgs)" (is ?A)
    and "rStart (group_rounds msgs ! i) \<le> length msgs" (is ?B)
proof -
  let ?g = "group_rounds msgs"
  have t: "tiles 0 (length msgs) (take i ?g @ ?g ! i # drop (Suc i) ?g)"
    using assms(2) group_rounds_tiles [of msgs] by (simp add: id_take_nth_drop [symmetric])
  show ?B
    using tiles_bound [OF t] by fastforce
  show ?A
  proof (cases i)
    case 0
    with t assms(1) show ?thesis by (simp del: take_0)
  next
    case (Suc j)
    from t obtain mid where mid: "tiles 0 mid (take i ?g)" "mid = rStart (?g ! i)"
      by (auto simp: tiles_append)
    moreover have "take i ?g = take j ?g @ [?g ! j]"
      using Suc assms(2) by (simp add: take_Suc_conv_app_nth)
    ultimately have "mid = rEnd (?g ! j)" by (auto simp: tiles_append)
    with mid settled_round_end [OF assms(1), of "?g ! j"] Suc assms(2) show ?thesis by simp
  qed
qed

text \<open>A cache whose coverage ends where the conversation may be cut.\<close>

definition cache_ok :: "message list \<Rightarrow> compression_cache \<Rightarrow> bool" where
  "cache_ok history c =
     (ccCovered c \<le> length history \<longrightarrow> settled {} (drop (ccCovered c) history))"

definition view_of :: "message list \<Rightarrow> compression_cache \<Rightarrow> message list" where
  "view_of history c = summary_message (ccSummary c) # drop (ccCovered c) history"

lemma settled_view:
  "settled {} (drop k history) \<Longrightarrow> settled {} (summary_message s # drop k history)"
  by (simp add: settled_summary_Cons)

lemma shrink_to_budget_settled:
  assumes "settled {} (drop k history)" "k \<le> length history"
  shows "\<exists>j. k \<le> j \<and> j \<le> length history \<and> settled {} (drop j history) \<and>
     shrink_to_budget (summary_message s # drop k history) history k p (Some c) =
       (summary_message s # drop j history,
        Some (if j = k then c else c\<lparr>ccCovered := j, ccCoveredBytes := content_bytes (take j history)\<rparr>))"
proof -
  let ?o = "summary_message s # drop k history"
  obtain i where i: "i \<le> length (drop k history)" "shrink_loop p ?o = summary_message s # drop i (drop k history)"
    "settled {} (drop i (drop k history))"
    using shrink_loop_settled [OF refl settled_view [OF assms(1)] is_summary_message] by blast
  have l: "length ?o - length (shrink_loop p ?o) = i"
    using i(1,2) by simp
  have "k + i \<le> length history" using i(1) assms(2) by simp
  then show ?thesis
    using i l by (intro exI [of _ "k + i"]) (auto simp: shrink_to_budget_def Let_def add.commute)
qed

lemma compress_ok_cases:
  assumes "compress_with_cache summarize history p cache = CompressOk v c'"
  obtains (Same) "v = history" "c' = cache"
      "\<not> should_compress history p \<or> length (group_rounds history) \<le> nat (pKeepRecent p)"
    | (Reuse) c where "cache = Some c" "c' = Some c" "0 < ccCovered c" "ccCovered c \<le> length history"
      "v = reuse_candidate c history" "estimate_tokens v \<le> pMaxTokens p"
    | (Fresh) k summary i where "i < length (group_rounds history)"
      "k = rStart (group_rounds history ! i)"
      "summarize_step summarize history k cache = Inr summary"
      "(v, c') = shrink_to_budget (ensure_pairing (summary_message summary # drop k history)) history k p
         (map_option (\<lambda>c. c\<lparr>ccCovered := k, ccCoveredBytes := content_bytes (take k history),
            ccSummary := summary\<rparr>) cache)"
proof -
  let ?r = "group_rounds history"
  define keep where "keep = nat (pKeepRecent p)"
  define i where "i = length ?r - keep"
  define k where "k = rStart (?r ! i)"
  note defs = compress_with_cache_def keep_def [symmetric] i_def [symmetric] k_def [symmetric] Let_def
  show thesis
  proof (cases "\<not> should_compress history p \<or> length ?r \<le> keep")
    case True
    with assms Same show thesis by (auto simp: defs split: if_splits)
  next
    case False
    with assms have keep: "keep \<noteq> 0" by (auto simp: defs split: if_splits)
    with False have i: "i < length ?r" by (auto simp: i_def)
    have kl: "k \<le> length history"
      using tiles_bound [OF group_rounds_tiles, of history] i
      unfolding k_def by (meson less_imp_le nth_mem order_trans)
    show thesis
    proof (cases "cache_valid cache history k \<and>
        estimate_tokens (reuse_candidate (the cache) history) \<le> pMaxTokens p")
      case True
      then obtain c where c: "cache = Some c" "0 < ccCovered c" "ccCovered c \<le> k"
        by (auto simp: cache_valid_def split: option.splits)
      with assms True False keep have "v = reuse_candidate c history" "c' = Some c"
        by (auto simp: defs)
      with c True kl show thesis by (intro Reuse) auto
    next
      case no: False
      with assms False keep obtain summary where
        "summarize_step summarize history k cache = Inr summary"
        by (auto simp: defs split: sum.splits if_splits)
      with assms no False keep i show thesis
        by (intro Fresh [OF i k_def]) (auto simp: defs split: if_splits prod.splits)
    qed
  qed
qed

lemma estimate_Nil [simp]: "estimate_tokens [] = 0"
  by (simp add: estimate_tokens_def tc_tokens_def tc_zero_def)

lemma should_compress_Nil [simp]: "\<not> should_compress [] p"
  by (auto simp: should_compress_def f64_trunc_def not_less pos_imp_zdiv_nonneg_iff)

subsection \<open>Truncation\<close>

lemma truncate_block_sel [simp]:
  "bType (truncate_block b) = bType b" "bToolResultID (truncate_block b) = bToolResultID b"
  "bToolUseID (truncate_block b) = bToolUseID b" "bIsError (truncate_block b) = bIsError b"
  by (simp_all add: truncate_block_def)

lemma truncate_ids [simp]:
  "result_ids (truncate_blocks_for_persistence bs) = result_ids bs"
  "use_ids (truncate_blocks_for_persistence bs) = use_ids bs"
  by (induction bs) (simp_all add: truncate_blocks_for_persistence_def)

lemma compress_ok_view:
  assumes "compress_with_cache summarize history p cache = CompressOk v c'"
  shows "v = history \<and> (\<not> should_compress history p \<or> length (group_rounds history) \<le> nat (pKeepRecent p)) \<or>
     pairing_contract v \<and> is_summary (hd v) \<and>
     (estimate_tokens v \<le> pMaxTokens p \<or> \<not> should_compress v p \<or> length (group_rounds v) \<le> 1)"
  using assms
proof (cases rule: compress_ok_cases)
  case Same
  then show ?thesis by simp
next
  case (Reuse c)
  then show ?thesis
    using ensure_pairing_contract ensure_pairing_summary_hd [OF is_summary_message]
    by (simp add: reuse_candidate_def)
next
  case (Fresh k summary i)
  let ?o = "ensure_pairing (summary_message summary # drop k history)"
  from Fresh(4) have "v = shrink_loop p ?o" by (simp add: shrink_to_budget_def Let_def)
  then show ?thesis
    using shrink_loop_contract [OF ensure_pairing_contract]
      shrink_loop_summary [OF ensure_pairing_summary_hd [OF is_summary_message]] by simp
qed

lemma compress_panic_iff:
  "compress_with_cache summarize history p cache = CompressPanic \<longleftrightarrow>
     should_compress history p \<and> pKeepRecent p \<le> 0"
proof -
  have "should_compress history p \<Longrightarrow> group_rounds history \<noteq> []"
    by (cases history) auto
  then show ?thesis
    by (auto simp: compress_with_cache_def Let_def split: sum.splits prod.splits)
qed

subsection \<open>Properties\<close>

text \<open>C35: whatever the compression returns without an error is the history itself (under the
  trigger, or with no more rounds than it keeps) or a summary-led view that satisfies the pairing
  contract and either fits the budget, is under the trigger, or has nothing left to drop.\<close>
theorem compression_fits:
  assumes "compress_with_cache summarize history p cache = CompressOk v c'"
  shows "v = history \<and> (\<not> should_compress history p \<or> length (group_rounds history) \<le> nat (pKeepRecent p)) \<or>
     pairing_contract v \<and> is_summary (hd v) \<and>
     (estimate_tokens v \<le> pMaxTokens p \<or> \<not> should_compress v p \<or> length (group_rounds v) \<le> 1)"
  using assms by (rule compress_ok_view)

text \<open>Three messages of ten tokens each against a trigger of twelve: compressed to the summary.\<close>

definition sample_history :: "message list" where
  "sample_history = replicate 3 (text_message RoleUser (replicate 8 CHR ''x''))"

definition sample_policy :: policy where
  "sample_policy = \<lparr>pMaxTokens = 5, pThreshold = F64 1 (-1), pKeepRecent = 1\<rparr>"

lemma sample_compressed:
  "compress_with_cache (\<lambda>_. Inr ''S'') sample_history sample_policy (Some cache_empty) =
     CompressOk [summary_message ''S'']
       (Some \<lparr>ccCovered = 3, ccCoveredBytes = 24, ccSummary = ''S''\<rparr>)"
  by code_simp

lemma sample_shrunk: "[summary_message x] \<noteq> sample_history"
  by (simp add: sample_history_def numeral_3_eq_3)

lemma compression_fits_witness:
  "is_summary (hd [summary_message ''S'']) \<and> pairing_contract [summary_message ''S'']"
  using compression_fits [OF sample_compressed] sample_shrunk by blast

text \<open>C2: on a settled history, with a cache whose coverage ends at a cut point, compression either
  leaves history and cache alone or returns exactly the cached summary followed by the part of
  the history the cache does not cover: no kept message is altered, reordered or repaired, the
  cache is honest about what was sent, and its coverage again ends at a cut point.\<close>
theorem compression_exact_on_settled:
  assumes h: "settled {} history" and c: "cache_ok history c"
    and r: "compress_with_cache summarize history p (Some c) = CompressOk v c'"
  shows "v = history \<and> c' = Some c \<or>
     (\<exists>d. c' = Some d \<and> v = view_of history d \<and> cache_ok history d \<and> settled {} v)"
  using r
proof (cases rule: compress_ok_cases)
  case Same
  then show ?thesis by simp
next
  case (Reuse d)
  with c have "settled {} (drop (ccCovered d) history)" by (simp add: cache_ok_def)
  with Reuse c show ?thesis
    by (auto simp: reuse_candidate_def view_of_def ensure_pairing_settled settled_summary_Cons)
next
  case (Fresh k summary i)
  note k = round_start_cut [OF h Fresh(1), folded Fresh(2)]
  let ?c = "c\<lparr>ccCovered := k, ccCoveredBytes := content_bytes (take k history), ccSummary := summary\<rparr>"
  obtain j where j: "j \<le> length history" "settled {} (drop j history)"
    "shrink_to_budget (summary_message summary # drop k history) history k p (Some ?c) =
       (summary_message summary # drop j history,
        Some (if j = k then ?c else ?c\<lparr>ccCovered := j, ccCoveredBytes := content_bytes (take j history)\<rparr>))"
    using shrink_to_budget_settled [OF k] by blast
  let ?d = "if j = k then ?c else ?c\<lparr>ccCovered := j, ccCoveredBytes := content_bytes (take j history)\<rparr>"
  have "ensure_pairing (summary_message summary # drop k history) = summary_message summary # drop k history"
    using k(1) by (intro ensure_pairing_settled) (simp add: settled_summary_Cons)
  with Fresh(4) j(3) have "c' = Some ?d" "v = summary_message summary # drop j history" by simp_all
  with j(1,2) show ?thesis
    by (intro disjI2 exI [of _ ?d]) (auto simp: view_of_def cache_ok_def settled_summary_Cons)
qed

lemma sample_settled: "settled {} sample_history" "cache_ok sample_history cache_empty"
  by (simp_all add: cache_ok_def sample_history_def numeral_3_eq_3 settled_plain is_assistant_def
      text_message_def cache_empty_def)

lemma compression_exact_on_settled_witness:
  "settled {} [summary_message ''S'']"
  using compression_exact_on_settled [OF sample_settled sample_compressed]
  using sample_shrunk by (auto simp: view_of_def)

text \<open>The compression panics (an index out of range) exactly when the history is over the trigger
  and no round is to be kept: the round index is taken before the test for zero.\<close>
theorem compression_panics_iff:
  "compress_with_cache summarize history p cache = CompressPanic \<longleftrightarrow>
     should_compress history p \<and> pKeepRecent p \<le> 0"
  by (rule compress_panic_iff)

end
