(* ===== verification/Messages.thy ===== *)
theory Messages
  imports Provider
begin

section \<open>The message store\<close>

text \<open>
  \<open>internal/session/messages.go\<close> and the in-memory \<open>memmessagestore.go\<close>: the durable
  conversation. \<open>next\<close> is the counter of assigned ids; a message that already carries an id
  (provisioned by a step intent, negative in memory) keeps it.
\<close>

subsection \<open>The code\<close>

record stored_message =
  smID :: int
  smSessionID :: id
  smRunID :: id
  smSeq :: nat
  smRole :: role
  smContent :: "block list"
  smCreatedAt :: time
  smUsage :: "usage option"
  smMetadata :: string

record message_store =
  mmNext :: int
  mmBySess :: "(id, stored_message list) gomap"

definition new_message_store :: message_store where
  "new_message_store = \<lparr>mmNext = 0, mmBySess = []\<rparr>"

definition append_message :: "time \<Rightarrow> stored_message \<Rightarrow> message_store \<Rightarrow> stored_message \<times> message_store" where
  "append_message now msg st =
     (let fresh = (smID msg = 0);
          nxt = (if fresh then mmNext st + 1 else mmNext st);
          old = mlist (mmBySess st) (smSessionID msg);
          msg' = msg\<lparr>smID := (if fresh then nxt else smID msg), smSeq := length old, smCreatedAt := now\<rparr>
      in (msg', \<lparr>mmNext = nxt, mmBySess = mput (smSessionID msg) (old @ [msg']) (mmBySess st)\<rparr>))"

definition messages_for :: "id \<Rightarrow> message_store \<Rightarrow> stored_message list" where
  "messages_for sess st = mlist (mmBySess st) sess"

definition messages_after :: "id \<Rightarrow> int \<Rightarrow> message_store \<Rightarrow> stored_message list" where
  "messages_after sess afterID st = filter (\<lambda>m. smID m > afterID) (mlist (mmBySess st) sess)"

text \<open>The page loop appends before it tests the limit, so a limit below one returns one row.\<close>

definition messages_page :: "id \<Rightarrow> int \<Rightarrow> int \<Rightarrow> message_store \<Rightarrow> stored_message list" where
  "messages_page sess afterID limit st = take (nat (max 1 limit)) (messages_after sess afterID st)"

definition messages_tail :: "id \<Rightarrow> int \<Rightarrow> int \<Rightarrow> message_store \<Rightarrow> stored_message list" where
  "messages_tail sess beforeID limit st =
     (if limit \<le> 0 then []
      else rev (take (nat limit)
             (filter (\<lambda>m. \<not> (0 < beforeID \<and> beforeID \<le> smID m)) (rev (mlist (mmBySess st) sess)))))"

fun update_first :: "('a \<Rightarrow> bool) \<Rightarrow> ('a \<Rightarrow> 'a) \<Rightarrow> 'a list \<Rightarrow> 'a list" where
  "update_first P f [] = []"
| "update_first P f (x # xs) = (if P x then f x # xs else x # update_first P f xs)"

definition set_message_metadata :: "int \<Rightarrow> string \<Rightarrow> message_store \<Rightarrow> message_store" where
  "set_message_metadata i meta st = st\<lparr>mmBySess :=
     update_first (\<lambda>(s, ms). list_ex (\<lambda>m. smID m = i) ms)
       (\<lambda>(s, ms). (s, update_first (\<lambda>m. smID m = i) (\<lambda>m. m\<lparr>smMetadata := meta\<rparr>) ms)) (mmBySess st)\<rparr>"

definition assistant_text :: "block list \<Rightarrow> string" where
  "assistant_text bs = trim_space (concat (map bText (filter (\<lambda>b. bType b = BlockText) bs)))"

text \<open>The backward scan over the session, newest first, over at most \<open>limit\<close> assistant messages.\<close>

fun scan_text :: "int \<Rightarrow> stored_message list \<Rightarrow> string" where
  "scan_text limit [] = ''''"
| "scan_text limit (m # ms) =
     (if limit \<le> 0 then ''''
      else if smRole m \<noteq> RoleAssistant then scan_text limit ms
      else if assistant_text (smContent m) \<noteq> '''' then assistant_text (smContent m)
      else scan_text (limit - 1) ms)"

definition last_assistant_text :: "id \<Rightarrow> int \<Rightarrow> message_store \<Rightarrow> string" where
  "last_assistant_text sess limit st =
     (if limit \<le> 0 then '''' else scan_text limit (rev (mlist (mmBySess st) sess)))"

definition last_assistant_message :: "id \<Rightarrow> id \<Rightarrow> message_store \<Rightarrow> stored_message option" where
  "last_assistant_message sess rid st =
     find_last (\<lambda>m. smRole m = RoleAssistant \<and> smRunID m = rid) (mlist (mmBySess st) sess)"

definition stored_messages_to_provider :: "stored_message list \<Rightarrow> message list" where
  "stored_messages_to_provider ms = map (\<lambda>m. \<lparr>mRole = smRole m, mContent = smContent m\<rparr>) ms"

subsection \<open>The interface of a message store\<close>

text \<open>
  What the run path relies on: an append is seen by the reader of its session at the end, with
  its content, and by no other session.
\<close>

locale message_log =
  fixes append :: "time \<Rightarrow> stored_message \<Rightarrow> 's \<Rightarrow> stored_message \<times> 's"
    and log :: "id \<Rightarrow> 's \<Rightarrow> stored_message list"
  assumes log_append: "log sess (snd (append now m st)) =
      (if sess = smSessionID m then log sess st @ [fst (append now m st)] else log sess st)"
    and append_content: "smRole (fst (append now m st)) = smRole m"
      "smContent (fst (append now m st)) = smContent m"
      "smRunID (fst (append now m st)) = smRunID m"
      "smSessionID (fst (append now m st)) = smSessionID m"
begin

fun append_list :: "time \<Rightarrow> stored_message list \<Rightarrow> 's \<Rightarrow> 's" where
  "append_list now [] st = st"
| "append_list now (m # ms) st = append_list now ms (snd (append now m st))"

lemma log_append_list:
  "map (\<lambda>m. (smRole m, smContent m)) (log sess (append_list now ms st)) =
     map (\<lambda>m. (smRole m, smContent m)) (log sess st @ filter (\<lambda>m. smSessionID m = sess) ms)"
  by (induction ms arbitrary: st) (auto simp: log_append append_content)

end

interpretation mm: message_log append_message messages_for
  by unfold_locales (simp_all add: append_message_def messages_for_def Let_def)

subsection \<open>Sequence numbers and ids\<close>

definition store_ok :: "message_store \<Rightarrow> bool" where
  "store_ok st = (0 \<le> mmNext st \<and>
     (\<forall>sess. (\<forall>i < length (messages_for sess st). smSeq (messages_for sess st ! i) = i) \<and>
             sorted_wrt (\<lambda>a b. 0 < smID a \<longrightarrow> 0 < smID b \<longrightarrow> smID a < smID b) (messages_for sess st) \<and>
             (\<forall>m \<in> set (messages_for sess st). smID m \<le> mmNext st \<and> smSessionID m = sess)))"

lemma store_ok_new: "store_ok new_message_store"
  by (simp add: store_ok_def new_message_store_def messages_for_def)

lemma store_ok_append:
  assumes "store_ok st" "smID msg \<le> 0"
  shows "store_ok (snd (append_message now msg st))"
proof -
  let ?m = "fst (append_message now msg st)" let ?st = "snd (append_message now msg st)"
  have n: "mmNext st \<le> mmNext ?st" "smID ?m \<le> mmNext ?st"
      "0 < smID ?m \<Longrightarrow> smID ?m = mmNext st + 1"
    using assms by (auto simp: append_message_def Let_def store_ok_def split: if_splits)
  have sq: "smSeq ?m = length (messages_for (smSessionID msg) st)"
    by (simp add: append_message_def Let_def messages_for_def)
  have old: "smID a \<le> mmNext ?st" "0 < smID ?m \<longrightarrow> smID a < smID ?m"
    if "a \<in> set (messages_for sess st)" for a sess
    using assms(1) that n unfolding store_ok_def by force+
  show ?thesis
    unfolding store_ok_def
  proof (rule conjI [OF _ allI], goal_cases)
    case 1
    show "0 \<le> mmNext ?st" using assms(1) n(1) by (simp add: store_ok_def)
  next
    case (2 sess)
    show ?case
    proof (intro conjI)
    show "\<forall>i<length (messages_for sess ?st). smSeq (messages_for sess ?st ! i) = i"
      using assms(1) sq by (auto simp: mm.log_append store_ok_def nth_append less_Suc_eq)
    show "sorted_wrt (\<lambda>a b. 0 < smID a \<longrightarrow> 0 < smID b \<longrightarrow> smID a < smID b) (messages_for sess ?st)"
      using assms(1) old(2) by (auto simp: mm.log_append store_ok_def sorted_wrt_append)
    show "\<forall>m\<in>set (messages_for sess ?st). smID m \<le> mmNext ?st \<and> smSessionID m = sess"
      using assms(1) old(1) n(2) by (auto simp: mm.log_append mm.append_content store_ok_def)
    qed
  qed
qed

subsection \<open>Pages\<close>

lemma messages_after_sorted:
  assumes "sorted_wrt (\<lambda>a b. smID a < smID b) (pre @ x # post)"
  shows "filter (\<lambda>m. smID m > smID x) (pre @ x # post) = post"
proof -
  have "filter (\<lambda>m. smID m > smID x) pre = []"
    using assms by (auto simp: sorted_wrt_append filter_empty_conv)
  moreover have "filter (\<lambda>m. smID m > smID x) post = post"
    using assms by (intro filter_True) (auto simp: sorted_wrt_append)
  ultimately show ?thesis by simp
qed

text \<open>Reading a session page by page: the cursor is the id of the last message read.\<close>

fun export_pages :: "nat \<Rightarrow> id \<Rightarrow> int \<Rightarrow> int \<Rightarrow> message_store \<Rightarrow> stored_message list" where
  "export_pages 0 sess afterID limit st = []"
| "export_pages (Suc n) sess afterID limit st =
     (let p = messages_page sess afterID limit st
      in if p = [] then [] else p @ export_pages n sess (smID (last p)) limit st)"

lemma export_pages_all:
  assumes "sorted_wrt (\<lambda>a b. smID a < smID b) (messages_for sess st)" "0 < limit"
    "messages_after sess afterID st = drop k (messages_for sess st)"
    "length (messages_for sess st) - k < fuel"
  shows "export_pages fuel sess afterID limit st = drop k (messages_for sess st)"
  using assms(3,4)
proof (induction fuel arbitrary: k afterID)
  case (Suc n)
  let ?ms = "messages_for sess st" let ?p = "messages_page sess afterID limit st"
  have p: "?p = take (nat limit) (drop k ?ms)"
    using assms(2) Suc.prems(1) by (simp add: messages_page_def)
  show ?case
  proof (cases "?p = []")
    case True
    with p assms(2) have "drop k ?ms = []" by auto
    with True show ?thesis by simp
  next
    case False
    define x where "x = last ?p"
    have ms: "?ms = (take k ?ms @ butlast ?p) @ x # drop (nat limit) (drop k ?ms)"
      using False p unfolding x_def
      by (metis append.assoc append_Cons append_Nil append_butlast_last_id append_take_drop_id)
    have "messages_after sess (smID x) st = drop (nat limit) (drop k ?ms)"
      unfolding messages_after_def messages_for_def [symmetric]
      by (subst ms, rule messages_after_sorted) (use assms(1) ms in simp)
    then have "export_pages n sess (smID x) limit st = drop (nat limit + k) ?ms"
      using Suc.prems(2) assms(2) False p by (intro Suc.IH) auto
    then have "export_pages (Suc n) sess afterID limit st = ?p @ drop (nat limit) (drop k ?ms)"
      using False by (simp add: Let_def x_def)
    then show ?thesis by (simp only: p append_take_drop_id)
  qed
qed simp

subsection \<open>Properties\<close>

text \<open>A conversation stored message by message is rebuilt as it was: the messages a session reads
  back, converted to provider form, are those appended to it, in order and with their blocks
  unchanged, whatever was appended to other sessions between; their sequence numbers count from
  zero and the assigned ids ascend.\<close>
theorem history_rebuild:
  assumes "\<forall>m \<in> set ms. smID m \<le> 0"
  shows "stored_messages_to_provider (messages_for sess (mm.append_list now ms new_message_store)) =
      stored_messages_to_provider (filter (\<lambda>m. smSessionID m = sess) ms) \<and>
    store_ok (mm.append_list now ms new_message_store)"
proof
  have "map (\<lambda>m. (smRole m, smContent m)) (messages_for sess (mm.append_list now ms new_message_store)) =
      map (\<lambda>m. (smRole m, smContent m)) (filter (\<lambda>m. smSessionID m = sess) ms)"
    using mm.log_append_list [of sess now ms new_message_store]
    by (simp add: new_message_store_def messages_for_def)
  then have "map ((\<lambda>(r, c). \<lparr>mRole = r, mContent = c\<rparr>) \<circ> (\<lambda>m. (smRole m, smContent m)))
      (messages_for sess (mm.append_list now ms new_message_store)) =
    map ((\<lambda>(r, c). \<lparr>mRole = r, mContent = c\<rparr>) \<circ> (\<lambda>m. (smRole m, smContent m)))
      (filter (\<lambda>m. smSessionID m = sess) ms)"
    unfolding map_map [symmetric] by simp
  then show "stored_messages_to_provider (messages_for sess (mm.append_list now ms new_message_store)) =
      stored_messages_to_provider (filter (\<lambda>m. smSessionID m = sess) ms)"
    by (simp add: stored_messages_to_provider_def comp_def)
next
  have "store_ok st \<Longrightarrow> \<forall>m \<in> set ms. smID m \<le> 0 \<Longrightarrow> store_ok (mm.append_list now ms st)" for st
    by (induction ms arbitrary: st) (auto simp: store_ok_append)
  with assms show "store_ok (mm.append_list now ms new_message_store)" by (simp add: store_ok_new)
qed

definition sample_stored :: "int \<Rightarrow> id \<Rightarrow> string \<Rightarrow> stored_message" where
  "sample_stored i sess t = \<lparr>smID = i, smSessionID = sess, smRunID = ''r'', smSeq = 0, smRole = RoleUser,
     smContent = [text_block t], smCreatedAt = 0, smUsage = None, smMetadata = ''''\<rparr>"

lemma history_rebuild_witness:
  "stored_messages_to_provider (messages_for ''s'' (mm.append_list 1
      [sample_stored 0 ''s'' ''a'', sample_stored 0 ''x'' ''b'', sample_stored 0 ''s'' ''c''] new_message_store)) =
   [text_message RoleUser ''a'', text_message RoleUser ''c'']"
  by (subst conjunct1 [OF history_rebuild])
     (simp_all add: sample_stored_def stored_messages_to_provider_def text_message_def)

text \<open>Reading a session page by page, each page from the id of the last message read, returns every
  message once and in order, provided ids ascend with the sequence and are positive.\<close>
theorem export_complete:
  assumes "sorted_wrt (\<lambda>a b. smID a < smID b) (messages_for sess st)" "0 < limit"
    "\<forall>m \<in> set (messages_for sess st). 0 < smID m" "length (messages_for sess st) < fuel"
  shows "export_pages fuel sess 0 limit st = messages_for sess st"
proof -
  have "messages_after sess 0 st = drop 0 (messages_for sess st)"
    using assms(3) by (simp add: messages_after_def messages_for_def)
  from export_pages_all [OF assms(1,2) this] assms(4) show ?thesis by simp
qed

lemma export_complete_witness:
  fixes st defines "st \<equiv> mm.append_list 1 [sample_stored 0 ''s'' ''a'', sample_stored 0 ''s'' ''c''] new_message_store"
  shows "export_pages 5 ''s'' 0 1 st = messages_for ''s'' st"
  by (rule export_complete)
     (simp_all add: st_def append_message_def Let_def new_message_store_def sample_stored_def messages_for_def)

text \<open>
  The proviso matters: a message stored under an id provisioned in memory (a negative one) is
  skipped by every page and by the tail beyond any watermark.
\<close>

lemma provisioned_message_not_paged:
  "smID m \<le> 0 \<Longrightarrow> 0 \<le> afterID \<Longrightarrow> m \<notin> set (messages_page sess afterID limit st)"
  by (auto simp: messages_page_def messages_after_def dest: in_set_takeD)

end
