(* ===== verification/Events.thy ===== *)
theory Events
  imports Provider
begin

section \<open>Event kinds\<close>

text \<open>
  \<open>EventKind\<close> of \<open>internal/agent/loop.go\<close>: an open string type with these constants, here a
  datatype with one constructor per constant and one for any other string. The runtime routes
  events by kind; \<open>is_content_kind\<close> is \<open>isContentKind\<close> of \<open>internal/session/runtime.go\<close>.
\<close>

datatype event_kind =
    KindText | KindThinking | KindToolUse | KindToolResult | KindToolArgs | KindError | KindDone
  | KindMessage | KindCancelled | KindUser | KindRunning | KindSubagent | KindUsage | KindInterrupt
  | KindStepStart | KindStepFinish | KindGenerativeUI | KindOverflowRecovery | KindOther string

definition is_content_kind :: "event_kind \<Rightarrow> bool" where
  "is_content_kind k = (k \<in> {KindText, KindThinking, KindToolUse, KindToolArgs, KindToolResult,
     KindSubagent, KindInterrupt, KindUsage, KindStepStart, KindStepFinish, KindGenerativeUI})"

text \<open>The kinds that end a run's stream.\<close>

definition is_terminal_kind :: "event_kind \<Rightarrow> bool" where
  "is_terminal_kind k = (k \<in> {KindDone, KindError, KindCancelled, KindInterrupt})"

lemma content_not_lifecycle:
  "is_content_kind k \<Longrightarrow> k \<notin> {KindRunning, KindUser, KindDone, KindError, KindCancelled, KindMessage}"
  by (auto simp: is_content_kind_def)

end
