(* ===== verification/SessionStore.thy ===== *)
theory SessionStore
  imports Events
begin

section \<open>The session store\<close>

text \<open>
  \<open>internal/session/types.go\<close>, \<open>accounting.go\<close>, the in-memory store \<open>memstore.go\<close>, the
  in-memory halves of \<open>approval.go\<close> and \<open>batch.go\<close>, and \<open>sweep.go\<close>. Every operation runs
  under the store's mutex, so each is one atomic function on the record \<open>mem_store\<close>. The two
  maps that share \<open>*Run\<close> pointers (\<open>runs\<close>, \<open>bySess\<close>) become a map of runs and a map of run
  ids, so that an update through one is seen through the other. Clock readings and generated
  ids are arguments. Raw JSON is its bytes.
\<close>

subsection \<open>Types\<close>

datatype run_status = RunQueued | RunRunning | RunDone | RunFailed | RunCancelled | RunStatusOther string

fun status_valid :: "run_status \<Rightarrow> bool" where
  "status_valid (RunStatusOther _) = False"
| "status_valid _ = True"

fun status_terminal :: "run_status \<Rightarrow> bool" where
  "status_terminal RunDone = True"
| "status_terminal RunFailed = True"
| "status_terminal RunCancelled = True"
| "status_terminal _ = False"

fun status_active :: "run_status \<Rightarrow> bool" where
  "status_active RunQueued = True"
| "status_active RunRunning = True"
| "status_active _ = False"

datatype session_status = SessionActive | SessionEnded

record session =
  sID :: id
  sUserID :: id
  sTitle :: string
  sStatus :: session_status
  sCreatedAt :: time
  sUpdatedAt :: time
  sState :: "(string, string) gomap"

record session_cursor =
  scUpdatedAt :: time
  scID :: id

record session_page =
  spSessions :: "session list"
  spNextCursor :: "session_cursor option"

record run =
  runID :: id
  runSessionID :: id
  runSeq :: nat
  runStatus :: run_status
  runCreatedAt :: time
  runFinishedAt :: "time option"
  runTeamID :: id
  runModel :: string
  runUsage :: "usage option"

record event =
  evRunID :: id
  evSessionID :: id
  evOffset :: int
  evKind :: event_kind
  evPayload :: string
  evCreatedAt :: time

datatype step_kind = StepAssistant | StepTool | StepOverflowCompact

record run_step =
  rsID :: int
  rsRunID :: id
  rsSeq :: nat
  rsKind :: step_kind
  rsAttempt :: nat
  rsResultMessageID :: "int option"
  rsToolCallID :: id
  rsCreatedAt :: time
  rsResultExists :: bool

datatype usage_cause = UsageAssistant | UsageTool | UsageAdjustment | UsageOverflow | UsageRun

record usage_record =
  urID :: int
  urRunID :: id
  urCause :: usage_cause
  urResultMessageID :: "int option"
  urAttempt :: int
  urUsage :: usage
  urCreatedAt :: time

datatype interaction_status =
  InteractionPending | InteractionResolved | InteractionRejected | InteractionExpired

definition KindToolApproval :: string where "KindToolApproval = ''approval''"
definition KindAskUser :: string where "KindAskUser = ''ask_user''"
definition KindClientTool :: string where "KindClientTool = ''client_tool''"

record interaction =
  inID :: id
  inRunID :: id
  inSessionID :: id
  inToolCallID :: id
  inToolName :: string
  inPayload :: string
  inKind :: string
  inStatus :: interaction_status
  inResult :: string
  inCreatedAt :: time
  inDecidedAt :: "time option"
  inSeq :: int

record suspended_batch =
  sbRunID :: id
  sbSessionID :: id
  sbMessageSeq :: "int option"
  sbToolCallIDs :: "string list"
  sbFoldedSeq :: "int option"
  sbCreatedAt :: time

datatype store_error =
    ErrText string | ErrSessionNotFound | ErrNoPendingApproval | ErrNoSuspendedBatch
  | ErrBatchAlreadyFolded

text \<open>
  The order of the conversation list: time of last activity, then id. A linear order of its
  own, so that sorting and the keyset filter share one comparison.
\<close>

datatype session_key = SessionKey (skTime: time) (skID: id)

instantiation session_key :: linorder
begin

definition less_eq_session_key :: "session_key \<Rightarrow> session_key \<Rightarrow> bool" where
  "a \<le> b = (skTime a < skTime b \<or> (skTime a = skTime b \<and> skID a \<le> skID b))"

definition less_session_key :: "session_key \<Rightarrow> session_key \<Rightarrow> bool" where
  "a < b = (skTime a < skTime b \<or> (skTime a = skTime b \<and> skID a < skID b))"

instance
proof
  fix a b c :: session_key
  show "(a < b) = (a \<le> b \<and> \<not> b \<le> a)" "a \<le> a" "a \<le> b \<or> b \<le> a"
    by (auto simp: less_eq_session_key_def less_session_key_def)
  show "a \<le> b \<Longrightarrow> b \<le> c \<Longrightarrow> a \<le> c"
    by (auto simp: less_eq_session_key_def)
  show "a \<le> b \<Longrightarrow> b \<le> a \<Longrightarrow> a = b"
    by (cases a; cases b) (auto simp: less_eq_session_key_def)
qed

end

definition session_key :: "session \<Rightarrow> session_key" where
  "session_key s = SessionKey (sUpdatedAt s) (sID s)"

definition cursor_key :: "session_cursor \<Rightarrow> session_key" where
  "cursor_key c = SessionKey (scUpdatedAt c) (scID c)"

record mem_store =
  msSessions :: "(id, session) gomap"
  msRuns :: "(id, run) gomap"
  msBySess :: "(id, id list) gomap"
  msEvents :: "(id, event list) gomap"
  msDreamedSeq :: "(id, int) gomap"
  msMemoryInjectedAt :: "(id, time) gomap"
  msApprovals :: "(id, interaction) gomap"
  msApprovalSeq :: int
  msBatches :: "(id, suspended_batch) gomap"
  msSteps :: "(id, run_step list) gomap"
  msUsageRecords :: "(id, usage_record list) gomap"

definition new_mem_store :: mem_store where
  "new_mem_store = \<lparr>msSessions = [], msRuns = [], msBySess = [], msEvents = [], msDreamedSeq = [],
     msMemoryInjectedAt = [], msApprovals = [], msApprovalSeq = 0, msBatches = [], msSteps = [],
     msUsageRecords = []\<rparr>"

subsection \<open>Sessions\<close>

definition create_session :: "id \<Rightarrow> time \<Rightarrow> id \<Rightarrow> string \<Rightarrow> mem_store \<Rightarrow> session \<times> mem_store" where
  "create_session fresh now userID title m =
     (let s = \<lparr>sID = fresh, sUserID = userID, sTitle = title, sStatus = SessionActive,
               sCreatedAt = now, sUpdatedAt = now, sState = []\<rparr>
      in (s, m\<lparr>msSessions := mput fresh s (msSessions m)\<rparr>))"

definition get_session :: "id \<Rightarrow> mem_store \<Rightarrow> store_error + session" where
  "get_session i m = (case mget (msSessions m) i of
     None \<Rightarrow> Inl (ErrText ''session not found'') | Some s \<Rightarrow> Inr s)"

definition end_session :: "id \<Rightarrow> mem_store \<Rightarrow> mem_store" where
  "end_session i m = (case mget (msSessions m) i of None \<Rightarrow> m
     | Some s \<Rightarrow> m\<lparr>msSessions := mput i (s\<lparr>sStatus := SessionEnded\<rparr>) (msSessions m)\<rparr>)"

definition list_idle_sessions :: "time \<Rightarrow> mem_store \<Rightarrow> session list" where
  "list_idle_sessions before m =
     filter (\<lambda>s. sStatus s = SessionActive \<and> sUpdatedAt s < before) (mvals (msSessions m))"

text \<open>The cursor loop of the page of ended sessions.\<close>

fun after_cursor :: "id \<Rightarrow> bool \<Rightarrow> id list \<Rightarrow> id list" where
  "after_cursor c started [] = []"
| "after_cursor c started (i # is) =
     (if started then i # after_cursor c True is else after_cursor c (i = c) is)"

definition ended_before :: "time \<Rightarrow> mem_store \<Rightarrow> id list" where
  "ended_before before m =
     map sID (sort_key session_key
       (filter (\<lambda>s. sStatus s = SessionEnded \<and> sUpdatedAt s < before) (mvals (msSessions m))))"

definition list_ended_sessions :: "time \<Rightarrow> id \<Rightarrow> int \<Rightarrow> mem_store \<Rightarrow> id list" where
  "list_ended_sessions before afterID limit m =
     (let ids = after_cursor afterID (afterID = '''') (ended_before before m)
      in if 0 < limit then take (nat limit) ids else ids)"

definition list_undreamed_sessions :: "mem_store \<Rightarrow> store_error + session list" where
  "list_undreamed_sessions m = Inl (ErrText
     ''MemStore.ListUndreamedSessions: not supported (needs the messages join; use PGStore)'')"

definition mget_int :: "(id, int) gomap \<Rightarrow> id \<Rightarrow> int" where
  "mget_int m i = (case mget m i of None \<Rightarrow> 0 | Some x \<Rightarrow> x)"

definition dreamed_seq :: "id \<Rightarrow> mem_store \<Rightarrow> int" where
  "dreamed_seq i m = mget_int (msDreamedSeq m) i"

definition mark_dreamed_seq :: "id \<Rightarrow> int \<Rightarrow> mem_store \<Rightarrow> mem_store" where
  "mark_dreamed_seq i s m =
     (if s > mget_int (msDreamedSeq m) i then m\<lparr>msDreamedSeq := mput i s (msDreamedSeq m)\<rparr> else m)"

definition memory_injected_at :: "id \<Rightarrow> mem_store \<Rightarrow> time" where
  "memory_injected_at i m = mget_int (msMemoryInjectedAt m) i"

definition mark_memory_injected_at :: "id \<Rightarrow> time \<Rightarrow> mem_store \<Rightarrow> mem_store" where
  "mark_memory_injected_at i at m =
     (if at > mget_int (msMemoryInjectedAt m) i
      then m\<lparr>msMemoryInjectedAt := mput i at (msMemoryInjectedAt m)\<rparr> else m)"

definition set_session_state_kv :: "id \<Rightarrow> string \<Rightarrow> string \<Rightarrow> mem_store \<Rightarrow> store_error + mem_store" where
  "set_session_state_kv i k v m = (case mget (msSessions m) i of
     None \<Rightarrow> Inl (ErrText ''session not found'')
   | Some s \<Rightarrow> Inr (m\<lparr>msSessions := mput i (s\<lparr>sState := mput k v (sState s)\<rparr>) (msSessions m)\<rparr>))"

definition session_state_kv :: "id \<Rightarrow> string \<Rightarrow> mem_store \<Rightarrow> store_error + string option" where
  "session_state_kv i k m = (case mget (msSessions m) i of
     None \<Rightarrow> Inl (ErrText ''session not found'') | Some s \<Rightarrow> Inr (mget (sState s) k))"

definition session_state :: "id \<Rightarrow> mem_store \<Rightarrow> store_error + (string, string) gomap" where
  "session_state i m = (case mget (msSessions m) i of
     None \<Rightarrow> Inl (ErrText ''session not found'') | Some s \<Rightarrow> Inr (sState s))"

definition user_sessions :: "id \<Rightarrow> string \<Rightarrow> mem_store \<Rightarrow> session list" where
  "user_sessions userID q m =
     rev (sort_key session_key
       (filter (\<lambda>s. sUserID s = userID \<and> sStatus s = SessionActive \<and>
            (to_lower q = '''' \<or> contains_str (to_lower (sTitle s)) (to_lower q)))
         (mvals (msSessions m))))"

definition list_sessions_by_user ::
  "id \<Rightarrow> string \<Rightarrow> int \<Rightarrow> session_cursor option \<Rightarrow> mem_store \<Rightarrow> session_page" where
  "list_sessions_by_user userID q limit cursor m =
     (let limit = (if limit \<le> 0 then 25 else nat limit);
          out = user_sessions userID q m;
          out = (case cursor of None \<Rightarrow> out
                 | Some c \<Rightarrow> filter (\<lambda>s. session_key s < cursor_key c) out)
      in if limit < length out
         then (let last = out ! (limit - 1)
               in \<lparr>spSessions = take limit out,
                   spNextCursor = Some \<lparr>scUpdatedAt = sUpdatedAt last, scID = sID last\<rparr>\<rparr>)
         else \<lparr>spSessions = out, spNextCursor = None\<rparr>)"

definition delete_session_for_user :: "id \<Rightarrow> id \<Rightarrow> mem_store \<Rightarrow> bool \<times> mem_store" where
  "delete_session_for_user i userID m = (case mget (msSessions m) i of
     None \<Rightarrow> (False, m)
   | Some s \<Rightarrow> if sUserID s \<noteq> userID then (False, m)
       else (True, m\<lparr>msSessions := mput i (s\<lparr>sStatus := SessionEnded\<rparr>) (msSessions m)\<rparr>))"

definition delete_session :: "id \<Rightarrow> mem_store \<Rightarrow> store_error + mem_store" where
  "delete_session i m = (case mget (msSessions m) i of
     None \<Rightarrow> Inl ErrSessionNotFound
   | Some _ \<Rightarrow> Inr (m\<lparr>msSessions := mdel i (msSessions m)\<rparr>))"

definition session_ids_for_user :: "id \<Rightarrow> mem_store \<Rightarrow> id list" where
  "session_ids_for_user userID m =
     map sID (filter (\<lambda>s. sUserID s = userID) (mvals (msSessions m)))"

subsection \<open>Runs, steps, usage, events\<close>

definition create_run :: "id \<Rightarrow> time \<Rightarrow> id \<Rightarrow> nat \<Rightarrow> mem_store \<Rightarrow> run \<times> mem_store" where
  "create_run fresh now sess seqno m =
     (let r = \<lparr>runID = fresh, runSessionID = sess, runSeq = seqno, runStatus = RunQueued,
               runCreatedAt = now, runFinishedAt = None, runTeamID = '''', runModel = '''',
               runUsage = None\<rparr>
      in (r, m\<lparr>msRuns := mput fresh r (msRuns m),
               msBySess := mput sess (mlist (msBySess m) sess @ [fresh]) (msBySess m)\<rparr>))"

definition modify_run :: "id \<Rightarrow> (run \<Rightarrow> run) \<Rightarrow> mem_store \<Rightarrow> mem_store" where
  "modify_run i f m = (case mget (msRuns m) i of None \<Rightarrow> m
     | Some r \<Rightarrow> m\<lparr>msRuns := mput i (f r) (msRuns m)\<rparr>)"

definition set_status :: "run_status \<Rightarrow> time \<Rightarrow> run \<Rightarrow> run" where
  "set_status st now r =
     r\<lparr>runStatus := st, runFinishedAt := (if status_terminal st then Some now else runFinishedAt r)\<rparr>"

definition update_run_status :: "id \<Rightarrow> run_status \<Rightarrow> time \<Rightarrow> mem_store \<Rightarrow> mem_store" where
  "update_run_status i st now m = modify_run i (set_status st now) m"

definition set_run_attribution :: "id \<Rightarrow> id \<Rightarrow> string \<Rightarrow> mem_store \<Rightarrow> mem_store" where
  "set_run_attribution i team model m = modify_run i (\<lambda>r. r\<lparr>runTeamID := team, runModel := model\<rparr>) m"

definition set_run_usage :: "id \<Rightarrow> usage option \<Rightarrow> mem_store \<Rightarrow> mem_store" where
  "set_run_usage i u m = (case u of None \<Rightarrow> m | Some x \<Rightarrow> modify_run i (\<lambda>r. r\<lparr>runUsage := Some x\<rparr>) m)"

text \<open>The runs of a session, in the order they were created (the pointers of \<open>bySess\<close>).\<close>

definition runs_for_session :: "id \<Rightarrow> mem_store \<Rightarrow> run list" where
  "runs_for_session sess m = List.map_filter (mget (msRuns m)) (mlist (msBySess m) sess)"

definition active_run :: "id \<Rightarrow> mem_store \<Rightarrow> run option" where
  "active_run sess m = find (\<lambda>r. status_active (runStatus r)) (runs_for_session sess m)"

definition next_run_seq :: "id \<Rightarrow> mem_store \<Rightarrow> nat" where
  "next_run_seq sess m = length (mlist (msBySess m) sess) + 1"

definition is_stranded :: "run \<Rightarrow> bool" where
  "is_stranded r = (runStatus r = RunQueued \<or> runStatus r = RunRunning)"

definition fail_stranded_runs :: "time \<Rightarrow> mem_store \<Rightarrow> nat \<times> mem_store" where
  "fail_stranded_runs now m =
     (length (filter is_stranded (mvals (msRuns m))),
      m\<lparr>msRuns := map (\<lambda>(i, r). (i, if is_stranded r then set_status RunFailed now r else r)) (msRuns m)\<rparr>)"

definition stranded_runs :: "mem_store \<Rightarrow> run list" where
  "stranded_runs m = sort_key (\<lambda>r. - runCreatedAt r) (filter is_stranded (mvals (msRuns m)))"

definition append_run_step :: "time \<Rightarrow> id \<Rightarrow> step_kind \<Rightarrow> id \<Rightarrow> int option \<Rightarrow> mem_store \<Rightarrow> run_step \<times> mem_store" where
  "append_run_step now rid kind callID resultID m =
     (let steps = mlist (msSteps m) rid;
          st = \<lparr>rsID = int (length steps + 1), rsRunID = rid, rsSeq = length steps + 1, rsKind = kind,
                rsAttempt = length (filter (\<lambda>s. rsKind s = kind) steps) + 1,
                rsResultMessageID =
                  (if kind = StepAssistant \<or> kind = StepTool
                   then (case resultID of Some i \<Rightarrow> Some i
                         | None \<Rightarrow> Some (- int (length (msUsageRecords m) + length steps + 1)))
                   else None),
                rsToolCallID = callID, rsCreatedAt = now, rsResultExists = False\<rparr>
      in (st, m\<lparr>msSteps := mput rid (steps @ [st]) (msSteps m)\<rparr>))"

definition append_usage_record :: "time \<Rightarrow> usage_record \<Rightarrow> mem_store \<Rightarrow> mem_store" where
  "append_usage_record now rec m =
     (let rid = urRunID rec; rows = mlist (msUsageRecords m) rid;
          row = rec\<lparr>urID := int (length rows + 1), urCreatedAt := now\<rparr>
      in m\<lparr>msUsageRecords := mput rid (rows @ [row]) (msUsageRecords m)\<rparr>)"

text \<open>The loop adds four of the five counters.\<close>

definition sum_usage :: "id \<Rightarrow> mem_store \<Rightarrow> usage" where
  "sum_usage rid m = fold (\<lambda>r u. Usage (InputTokens u + InputTokens (urUsage r))
       (OutputTokens u + OutputTokens (urUsage r)) (CacheReadTokens u + CacheReadTokens (urUsage r))
       (CacheWriteTokens u + CacheWriteTokens (urUsage r)) (ReasoningTokens u))
     (mlist (msUsageRecords m) rid) 0"

definition latest_run_steps :: "id \<Rightarrow> int \<Rightarrow> mem_store \<Rightarrow> run_step list" where
  "latest_run_steps rid limit m =
     (let limit = (if limit \<le> 0 then 1 else nat limit)
      in take limit (filter (\<lambda>s. rsKind s \<noteq> StepOverflowCompact) (rev (mlist (msSteps m) rid))))"

definition append_event :: "time \<Rightarrow> event \<Rightarrow> mem_store \<Rightarrow> mem_store" where
  "append_event now e m =
     (let rid = evRunID e
      in m\<lparr>msEvents := mput rid (mlist (msEvents m) rid @ [e\<lparr>evCreatedAt := now\<rparr>]) (msEvents m)\<rparr>)"

definition events_after :: "id \<Rightarrow> int \<Rightarrow> mem_store \<Rightarrow> event list" where
  "events_after rid after m =
     sort_key evOffset (filter (\<lambda>e. evOffset e > after) (mlist (msEvents m) rid))"

subsection \<open>Interactions and suspended batches\<close>

text \<open>
  \<open>sortInteractions\<close>: in this store every interaction carries a positive insertion counter, so
  the comparison is by that counter.
\<close>

definition sort_interactions :: "interaction list \<Rightarrow> interaction list" where
  "sort_interactions is = sort_key inSeq is"

definition create_approval :: "id \<Rightarrow> time \<Rightarrow> interaction \<Rightarrow> mem_store \<Rightarrow> interaction \<times> mem_store" where
  "create_approval fresh now a m =
     (let n = msApprovalSeq m + 1;
          a = a\<lparr>inID := (if inID a = '''' then fresh else inID a), inStatus := InteractionPending,
                inCreatedAt := now, inSeq := n\<rparr>
      in (a, m\<lparr>msApprovalSeq := n, msApprovals := mput (inID a) a (msApprovals m)\<rparr>))"

definition head_before :: "interaction \<Rightarrow> interaction \<Rightarrow> bool" where
  "head_before a h =
     (inCreatedAt a < inCreatedAt h \<or> (inCreatedAt a = inCreatedAt h \<and> inSeq a < inSeq h))"

definition pending_in_session :: "id \<Rightarrow> interaction \<Rightarrow> bool" where
  "pending_in_session sess a = (inSessionID a = sess \<and> inStatus a = InteractionPending)"

definition pending_approval_for_session :: "id \<Rightarrow> mem_store \<Rightarrow> interaction option" where
  "pending_approval_for_session sess m =
     fold (\<lambda>a h. if pending_in_session sess a then
                   (case h of None \<Rightarrow> Some a | Some b \<Rightarrow> if head_before a b then Some a else h)
                 else h) (mvals (msApprovals m)) None"

definition pending_approvals_for_session :: "id \<Rightarrow> mem_store \<Rightarrow> interaction list" where
  "pending_approvals_for_session sess m =
     sort_interactions (filter (pending_in_session sess) (mvals (msApprovals m)))"

definition pending_approvals_for_run :: "id \<Rightarrow> mem_store \<Rightarrow> interaction list" where
  "pending_approvals_for_run rid m =
     sort_interactions (filter (\<lambda>a. inRunID a = rid \<and> inStatus a = InteractionPending) (mvals (msApprovals m)))"

definition approvals_for_run :: "id \<Rightarrow> mem_store \<Rightarrow> interaction list" where
  "approvals_for_run rid m = sort_interactions (filter (\<lambda>a. inRunID a = rid) (mvals (msApprovals m)))"

definition get_approval :: "id \<Rightarrow> mem_store \<Rightarrow> store_error + interaction" where
  "get_approval i m = (case mget (msApprovals m) i of None \<Rightarrow> Inl ErrNoPendingApproval | Some a \<Rightarrow> Inr a)"

definition decide_approval ::
  "id \<Rightarrow> bool \<Rightarrow> string \<Rightarrow> time \<Rightarrow> mem_store \<Rightarrow> store_error + interaction \<times> mem_store" where
  "decide_approval i approve result now m = (case mget (msApprovals m) i of
     None \<Rightarrow> Inl ErrNoPendingApproval
   | Some a \<Rightarrow>
       if inStatus a \<noteq> InteractionPending then Inl ErrNoPendingApproval
       else (let a' = a\<lparr>inDecidedAt := Some now, inResult := result,
                        inStatus := (if approve then InteractionResolved else InteractionRejected)\<rparr>
             in Inr (a', m\<lparr>msApprovals := mput i a' (msApprovals m)\<rparr>)))"

definition expires :: "time \<Rightarrow> interaction \<Rightarrow> bool" where
  "expires cutoff a = (inStatus a = InteractionPending \<and> inCreatedAt a < cutoff)"

definition sweep_expired_interactions :: "time \<Rightarrow> mem_store \<Rightarrow> nat \<times> mem_store" where
  "sweep_expired_interactions cutoff m =
     (length (filter (expires cutoff) (mvals (msApprovals m))),
      m\<lparr>msApprovals := map (\<lambda>(i, a). (i, if expires cutoff a then a\<lparr>inStatus := InteractionExpired\<rparr> else a))
          (msApprovals m)\<rparr>)"

definition create_interaction_batch ::
  "id \<Rightarrow> time \<Rightarrow> suspended_batch \<Rightarrow> interaction \<Rightarrow> mem_store \<Rightarrow> interaction \<times> mem_store" where
  "create_interaction_batch fresh now batch a m =
     (let m1 = (case mget (msBatches m) (sbRunID batch) of
                  Some _ \<Rightarrow> m
                | None \<Rightarrow> m\<lparr>msBatches := mput (sbRunID batch) (batch\<lparr>sbCreatedAt := now\<rparr>) (msBatches m)\<rparr>)
      in create_approval fresh now a m1)"

definition suspended_batch_for_run :: "id \<Rightarrow> mem_store \<Rightarrow> store_error + suspended_batch" where
  "suspended_batch_for_run rid m = (case mget (msBatches m) rid of
     None \<Rightarrow> Inl ErrNoSuspendedBatch | Some b \<Rightarrow> Inr b)"

definition suspended_batches_for_session :: "id \<Rightarrow> mem_store \<Rightarrow> suspended_batch list" where
  "suspended_batches_for_session sess m = filter (\<lambda>b. sbSessionID b = sess) (mvals (msBatches m))"

definition mark_batch_folded :: "id \<Rightarrow> int \<Rightarrow> mem_store \<Rightarrow> store_error + mem_store" where
  "mark_batch_folded rid foldedSeq m = (case mget (msBatches m) rid of
     None \<Rightarrow> Inl ErrNoSuspendedBatch
   | Some b \<Rightarrow> Inr (m\<lparr>msBatches := mput rid (b\<lparr>sbFoldedSeq := Some foldedSeq\<rparr>) (msBatches m)\<rparr>))"

subsection \<open>The retention sweep\<close>

text \<open>
  \<open>SweepEndedConversations\<close> on this store: the inner loop deletes a page (a failed delete is
  skipped; the removed ids are returned in place of their count, each is also handed to
  \<open>cleanup\<close>), the outer loop pages. \<open>fuel\<close> bounds the pages.
\<close>

fun delete_page :: "id list \<Rightarrow> mem_store \<Rightarrow> id list \<times> mem_store" where
  "delete_page [] m = ([], m)"
| "delete_page (i # is) m = (case delete_session i m of
     Inl _ \<Rightarrow> delete_page is m
   | Inr m' \<Rightarrow> (let (removed, m'') = delete_page is m' in (i # removed, m'')))"

fun sweep_pages :: "nat \<Rightarrow> time \<Rightarrow> id \<Rightarrow> int \<Rightarrow> mem_store \<Rightarrow> (id list \<times> mem_store) option" where
  "sweep_pages 0 cutoff cursor limit m = None"
| "sweep_pages (Suc n) cutoff cursor limit m =
     (let ids = list_ended_sessions cutoff cursor limit m
      in if ids = [] then Some ([], m)
         else if last ids = cursor then Some ([], m)
         else (let (removed, m') = delete_page ids m
               in if int (length ids) < limit then Some (removed, m')
                  else (case sweep_pages n cutoff (last ids) limit m' of
                          None \<Rightarrow> None | Some (rest, m'') \<Rightarrow> Some (removed @ rest, m''))))"

definition sweep_ended_conversations :: "nat \<Rightarrow> time \<Rightarrow> int \<Rightarrow> mem_store \<Rightarrow> (id list \<times> mem_store) option" where
  "sweep_ended_conversations fuel cutoff limit m =
     sweep_pages fuel cutoff '''' (if limit \<le> 0 then 50 else limit) m"

subsection \<open>Well-formed sessions and the two listings\<close>

definition sessions_ok :: "mem_store \<Rightarrow> bool" where
  "sessions_ok m = (keyed sID (msSessions m) \<and> (\<forall>s \<in> set (mvals (msSessions m)). sID s \<noteq> ''''))"

lemma sessions_ok_create [inv_intros]:
  "sessions_ok m \<Longrightarrow> fresh \<noteq> '''' \<Longrightarrow> sessions_ok (snd (create_session fresh now u t m))"
  using mvals_mput [of fresh _ "msSessions m"]
  by (fastforce simp: sessions_ok_def create_session_def Let_def)

lemma distinct_session_keys:
  assumes "distinct (map sID xs)"
  shows "distinct (map session_key xs)"
proof -
  have "map sID xs = map skID (map session_key xs)" by (simp add: session_key_def comp_def)
  with assms show ?thesis by (metis distinct_map)
qed

lemma user_sessions_strict:
  assumes "sessions_ok m"
  shows "sorted_wrt (\<lambda>a b. session_key b < session_key a) (user_sessions userID q m)"
proof -
  have "distinct (map session_key (filter P (mvals (msSessions m))))" for P
    using assms by (intro distinct_session_keys distinct_map_filter keyed_distinct)
      (simp add: sessions_ok_def)
  then show ?thesis
    unfolding user_sessions_def by (simp add: sorted_wrt_rev sort_key_strict)
qed

text \<open>Following the cursors: the concatenation of at most \<open>fuel\<close> pages.\<close>

fun follow_pages :: "nat \<Rightarrow> id \<Rightarrow> string \<Rightarrow> int \<Rightarrow> session_cursor option \<Rightarrow> mem_store \<Rightarrow> session list" where
  "follow_pages 0 userID q limit cursor m = []"
| "follow_pages (Suc n) userID q limit cursor m =
     (let p = list_sessions_by_user userID q limit cursor m
      in spSessions p @ (case spNextCursor p of None \<Rightarrow> []
           | Some c \<Rightarrow> follow_pages n userID q limit (Some c) m))"

lemma filter_below:
  assumes "sorted_wrt (\<lambda>a b. session_key b < session_key a) xs" "k < length xs"
  shows "filter (\<lambda>s. session_key s < session_key (xs ! k)) xs = drop (Suc k) xs"
  using assms
proof (induction xs arbitrary: k)
  case (Cons x xs)
  show ?case
  proof (cases k)
    case 0
    with Cons.prems show ?thesis by (auto intro: filter_True)
  next
    case (Suc j)
    with Cons.prems have "session_key (xs ! j) < session_key x" by simp
    then have "\<not> session_key x < session_key (xs ! j)" by simp
    with Suc Cons show ?thesis by auto
  qed
qed simp

lemma page_at:
  fixes l :: nat
  assumes s: "sorted_wrt (\<lambda>a b. session_key b < session_key a) xs" "xs = user_sessions userID q m"
    and l: "l = (if limit \<le> 0 then 25 else nat limit)"
    and c: "(case cursor of None \<Rightarrow> k = 0 | Some c \<Rightarrow> 0 < k \<and> k \<le> length xs \<and> cursor_key c = session_key (xs ! (k - 1)))"
  shows "list_sessions_by_user userID q limit cursor m =
    (if l < length (drop k xs)
     then \<lparr>spSessions = take l (drop k xs), spNextCursor = Some
            \<lparr>scUpdatedAt = sUpdatedAt (drop k xs ! (l - 1)), scID = sID (drop k xs ! (l - 1))\<rparr>\<rparr>
     else \<lparr>spSessions = drop k xs, spNextCursor = None\<rparr>)"
proof -
  have "(case cursor of None \<Rightarrow> xs | Some c \<Rightarrow> filter (\<lambda>s. session_key s < cursor_key c) xs) = drop k xs"
    using c s(1) by (cases cursor) (auto simp: filter_below)
  then show ?thesis
    unfolding list_sessions_by_user_def Let_def s(2) [symmetric] l [symmetric] by simp
qed

lemma follow_pages_all:
  fixes l :: nat
  assumes s: "sorted_wrt (\<lambda>a b. session_key b < session_key a) xs" "xs = user_sessions userID q m"
    and l: "l = (if limit \<le> 0 then 25 else nat limit)"
    and c: "(case cursor of None \<Rightarrow> k = 0 | Some c \<Rightarrow> 0 < k \<and> k \<le> length xs \<and> cursor_key c = session_key (xs ! (k - 1)))"
    and fuel: "length xs - k < fuel"
  shows "follow_pages fuel userID q limit cursor m = drop k xs"
  using c fuel
proof (induction fuel arbitrary: k cursor)
  case (Suc n)
  have lpos: "0 < l" using l by auto
  note p = page_at [OF s l Suc.prems(1)]
  show ?case
  proof (cases "l < length (drop k xs)")
    case False
    with p show ?thesis by simp
  next
    case True
    let ?c = "\<lparr>scUpdatedAt = sUpdatedAt (drop k xs ! (l - 1)), scID = sID (drop k xs ! (l - 1))\<rparr>"
    have kl: "0 < k + l" "k + l \<le> length xs" using True lpos by auto
    have "cursor_key ?c = session_key (xs ! (k + l - 1))"
      using True lpos by (simp add: cursor_key_def session_key_def)
    with kl Suc.prems(2) lpos True
    have "follow_pages n userID q limit (Some ?c) m = drop (k + l) xs"
      by (intro Suc.IH) auto
    then have "follow_pages (Suc n) userID q limit cursor m = take l (drop k xs) @ drop l (drop k xs)"
      using p True by (simp add: add.commute)
    then show ?thesis by (simp only: append_take_drop_id)
  qed
qed simp

subsection \<open>The sweep\<close>

lemma after_cursor_True [simp]: "after_cursor c True is = is"
  by (induction "is") auto

lemma after_cursor_absent [simp]: "c \<notin> set is \<Longrightarrow> after_cursor c False is = []"
  by (induction "is") auto

lemma ended_before_ids:
  assumes "sessions_ok m"
  shows "distinct (ended_before cutoff m)" "'''' \<notin> set (ended_before cutoff m)"
    "i \<in> set (ended_before cutoff m) \<Longrightarrow> mget (msSessions m) i \<noteq> None"
proof -
  have d: "distinct (map sID (filter P (mvals (msSessions m))))" for P
    using assms by (intro distinct_map_filter keyed_distinct) (simp add: sessions_ok_def)
  show "distinct (ended_before cutoff m)"
    using d unfolding ended_before_def by (simp add: distinct_map distinct_sort)
  show "'''' \<notin> set (ended_before cutoff m)"
    using assms by (auto simp: ended_before_def sessions_ok_def)
  assume "i \<in> set (ended_before cutoff m)"
  then obtain s where "s \<in> set (mvals (msSessions m))" "sID s = i"
    by (auto simp: ended_before_def)
  then have "mget (msSessions m) i = Some s"
    using assms keyed_get [of sID "msSessions m" i s] by (simp add: sessions_ok_def)
  then show "mget (msSessions m) i \<noteq> None" by simp
qed

lemma delete_page_all:
  "distinct is \<Longrightarrow> (\<forall>i \<in> set is. mget (msSessions m) i \<noteq> None) \<Longrightarrow>
     fst (delete_page is m) = is \<and>
     msSessions (snd (delete_page is m)) = filter (\<lambda>(i, s). i \<notin> set is) (msSessions m)"
proof (induction "is" arbitrary: m)
  case (Cons i "is")
  then obtain s where s: "mget (msSessions m) i = Some s" by auto
  let ?m = "m\<lparr>msSessions := mdel i (msSessions m)\<rparr>"
  have "fst (delete_page is ?m) = is \<and>
      msSessions (snd (delete_page is ?m)) = filter (\<lambda>(i, s). i \<notin> set is) (msSessions ?m)"
    using Cons.prems by (intro Cons.IH) auto
  with s show ?case
    by (auto simp: delete_session_def Let_def split_beta mdel_def conj_commute intro!: filter_cong)
qed simp

lemma list_ended_first:
  "0 < limit \<Longrightarrow> list_ended_sessions cutoff '''' limit m = take (nat limit) (ended_before cutoff m)"
  by (simp add: list_ended_sessions_def)

text \<open>After a full first page has been deleted its last id, the cursor, is no longer listed.\<close>

lemma sweep_stops:
  assumes ok: "sessions_ok m" and l: "0 < limit" "nat limit \<le> length (ended_before cutoff m)"
  shows "sweep_pages (Suc (Suc n)) cutoff '''' limit m =
    Some (take (nat limit) (ended_before cutoff m),
          snd (delete_page (take (nat limit) (ended_before cutoff m)) m))"
proof -
  let ?e = "ended_before cutoff m" let ?p = "take (nat limit) ?e"
  note e = ended_before_ids [OF ok, where cutoff = cutoff]
  have len: "length ?p = nat limit" and ne: "?p \<noteq> []" using l by auto
  have lastin: "last ?p \<in> set ?p" using ne last_in_set by blast
  have sub: "set ?p \<subseteq> set ?e" by (rule set_take_subset)
  from subsetD [OF sub lastin] e(2) have l0: "last ?p \<noteq> ''''" by metis
  have dp: "fst (delete_page ?p m) = ?p \<and>
      msSessions (snd (delete_page ?p m)) = filter (\<lambda>(i, s). i \<notin> set ?p) (msSessions m)"
  proof (rule delete_page_all)
    show "distinct ?p" using e(1) by (rule distinct_take)
    show "\<forall>i \<in> set ?p. mget (msSessions m) i \<noteq> None" using sub e(3) by blast
  qed
  let ?m = "snd (delete_page ?p m)"
  have "last ?p \<notin> set (ended_before cutoff ?m)"
  proof
    assume "last ?p \<in> set (ended_before cutoff ?m)"
    then obtain k s where "(k, s) \<in> set (msSessions m)" "k \<notin> set ?p" "sID s = last ?p"
      using dp by (auto simp: ended_before_def mvals_def)
    moreover have "sID s = k" using calculation(1) ok by (auto simp: sessions_ok_def keyed_def)
    ultimately show False using lastin by simp
  qed
  then have "list_ended_sessions cutoff (last ?p) limit ?m = []"
    using l0 by (simp add: list_ended_sessions_def)
  then have rest: "sweep_pages (Suc n) cutoff (last ?p) limit ?m = Some ([], ?m)"
    by simp
  show ?thesis
    using l(1) len ne l0 dp rest
    by (subst sweep_pages.simps(2))
       (simp only: list_ended_first Let_def split_beta rest if_False option.case fst_conv snd_conv
          append_Nil2 int_nat_eq less_irrefl simp_thms conjunct1 [OF dp], simp)
qed

subsection \<open>The interaction queue\<close>

text \<open>The operations that change an interaction, in the order the store performs them.\<close>

datatype approval_op =
    OpCreate id interaction
  | OpCreateBatch id suspended_batch interaction
  | OpDecide id bool string
  | OpExpire time

fun approval_do :: "time \<Rightarrow> approval_op \<Rightarrow> mem_store \<Rightarrow> mem_store" where
  "approval_do now (OpCreate fresh a) m = snd (create_approval fresh now a m)"
| "approval_do now (OpCreateBatch fresh b a) m = snd (create_interaction_batch fresh now b a m)"
| "approval_do now (OpDecide i ok res) m =
     (case decide_approval i ok res now m of Inl _ \<Rightarrow> m | Inr (_, m') \<Rightarrow> m')"
| "approval_do now (OpExpire cutoff) m = snd (sweep_expired_interactions cutoff m)"

fun approval_ops :: "(time \<times> approval_op) list \<Rightarrow> mem_store \<Rightarrow> mem_store" where
  "approval_ops [] m = m"
| "approval_ops ((now, x) # xs) m = approval_ops xs (approval_do now x m)"

definition queue_ok :: "time \<Rightarrow> mem_store \<Rightarrow> bool" where
  "queue_ok t m =
     (keyed inID (msApprovals m) \<and> 0 \<le> msApprovalSeq m \<and>
      (\<forall>a \<in> set (mvals (msApprovals m)).
         0 < inSeq a \<and> inSeq a \<le> msApprovalSeq m \<and> inCreatedAt a \<le> t) \<and>
      (\<forall>a \<in> set (mvals (msApprovals m)). \<forall>b \<in> set (mvals (msApprovals m)).
         (inSeq a = inSeq b \<longrightarrow> a = b) \<and> (inSeq a \<le> inSeq b \<longrightarrow> inCreatedAt a \<le> inCreatedAt b)))"

lemma queue_ok_new: "queue_ok t new_mem_store"
  by (simp add: queue_ok_def new_mem_store_def mvals_def)

lemma queue_ok_create:
  assumes "queue_ok t m" "t \<le> now"
  shows "queue_ok now (snd (create_approval fresh now a m))"
proof -
  define a' where "a' = a\<lparr>inID := (if inID a = '''' then fresh else inID a),
    inStatus := InteractionPending, inCreatedAt := now, inSeq := msApprovalSeq m + 1\<rparr>"
  have s: "snd (create_approval fresh now a m) =
      m\<lparr>msApprovalSeq := msApprovalSeq m + 1, msApprovals := mput (inID a') a' (msApprovals m)\<rparr>"
    by (simp add: create_approval_def Let_def a'_def)
  have f: "inSeq a' = msApprovalSeq m + 1" "inCreatedAt a' = now" by (simp_all add: a'_def)
  have sub: "set (mvals (mput (inID a') a' (msApprovals m))) \<subseteq> insert a' (set (mvals (msApprovals m)))"
    by (rule mvals_mput)
  have old: "inSeq b \<le> msApprovalSeq m \<and> 0 < inSeq b \<and> inCreatedAt b \<le> now"
    if "b \<in> set (mvals (msApprovals m))" for b
    using assms that unfolding queue_ok_def by (meson order_trans)
  have k: "keyed inID (mput (inID a') a' (msApprovals m))"
    using assms(1) unfolding queue_ok_def by (intro keyed_mput) auto
  show ?thesis
    unfolding s queue_ok_def
  proof (simp, intro conjI k ballI)
    show "0 \<le> msApprovalSeq m + 1" using assms(1) by (simp add: queue_ok_def)
  next
    fix b assume "b \<in> set (mvals (mput (inID a') a' (msApprovals m)))"
    with sub consider "b = a'" | "b \<in> set (mvals (msApprovals m))" by blast
    then show "0 < inSeq b" "inSeq b \<le> msApprovalSeq m + 1" "inCreatedAt b \<le> now"
      using f old assms(1) by (cases; force simp: queue_ok_def)+
  next
    fix b c assume "b \<in> set (mvals (mput (inID a') a' (msApprovals m)))"
      "c \<in> set (mvals (mput (inID a') a' (msApprovals m)))"
    with sub have "b = a' \<or> b \<in> set (mvals (msApprovals m))" "c = a' \<or> c \<in> set (mvals (msApprovals m))"
      by blast+
    then show "inSeq b = inSeq c \<longrightarrow> b = c" "inSeq b \<le> inSeq c \<longrightarrow> inCreatedAt b \<le> inCreatedAt c"
      using f old [of b] old [of c] assms(1) unfolding queue_ok_def by auto
  qed
qed

lemma queue_ok_later: "queue_ok t m \<Longrightarrow> t \<le> now \<Longrightarrow> queue_ok now m"
  unfolding queue_ok_def by (meson order_trans)

lemma queue_ok_map:
  assumes "queue_ok t m" "\<And>a. inID (f a) = inID a \<and> inSeq (f a) = inSeq a \<and> inCreatedAt (f a) = inCreatedAt a"
  shows "queue_ok t (m\<lparr>msApprovals := map (\<lambda>(i, a). (i, f a)) (msApprovals m)\<rparr>)"
  using assms unfolding queue_ok_def by (auto simp: keyed_map)

lemma queue_ok_update:
  assumes "queue_ok t m" "mget (msApprovals m) i = Some a" "inID a' = inID a" "inSeq a' = inSeq a"
    "inCreatedAt a' = inCreatedAt a"
  shows "queue_ok t (m\<lparr>msApprovals := mput i a' (msApprovals m)\<rparr>)"
proof -
  let ?v = "set (mvals (msApprovals m))"
  have k: "keyed inID (msApprovals m)" using assms(1) by (simp add: queue_ok_def)
  have a: "a \<in> ?v" "inID a = i" using keyed_get [OF k] assms(2) by auto
  have v: "set (mvals (mput i a' (msApprovals m))) \<subseteq> insert a' (?v - {a})"
  proof
    fix b assume "b \<in> set (mvals (mput i a' (msApprovals m)))"
    then obtain j where j: "mget (mput i a' (msApprovals m)) j = Some b"
      using k by (auto simp: set_mvals keyed_mok)
    show "b \<in> insert a' (?v - {a})"
    proof (cases "j = i")
      case False
      with j keyed_get [OF k] a show ?thesis by auto
    qed (use j in simp)
  qed
  have "keyed inID (mput i a' (msApprovals m))" using k a assms(3) by simp
  with assms(1) v a(1) assms(4,5) show ?thesis
    unfolding queue_ok_def by (auto simp: subset_iff) metis+
qed

lemma queue_ok_do: "queue_ok t m \<Longrightarrow> t \<le> now \<Longrightarrow> queue_ok now (approval_do now x m)"
proof (induction now x m rule: approval_do.induct)
  case (1 now fresh a m)
  then show ?case by (simp add: queue_ok_create)
next
  case (2 now fresh b a m)
  have "queue_ok t (m\<lparr>msBatches := B\<rparr>)" for B
    using 2(1) by (simp add: queue_ok_def)
  then have "queue_ok now (snd (create_approval fresh now a (m\<lparr>msBatches := B\<rparr>)))" for B
    using 2(2) by (rule queue_ok_create)
  with 2 show ?case
    by (auto simp: create_interaction_batch_def Let_def queue_ok_create split: option.split)
next
  case (3 now i ok res m)
  then show ?case
    by (auto simp: decide_approval_def Let_def split: option.split
        intro!: queue_ok_update intro: queue_ok_later)
next
  case (4 now cutoff m)
  then have "queue_ok now m" by (rule queue_ok_later)
  then show ?case
    unfolding approval_do.simps sweep_expired_interactions_def snd_conv
    by (rule queue_ok_map) simp
qed

lemma queue_ok_ops:
  "queue_ok t m \<Longrightarrow> sorted (t # map fst ops) \<Longrightarrow> \<exists>t'. queue_ok t' (approval_ops ops m)"
proof (induction ops arbitrary: t m)
  case (Cons x ops)
  then show ?case by (cases x) (auto dest: queue_ok_do)
qed auto

text \<open>The scan for the head keeps the minimum of a total order on the pending ones.\<close>

definition head_fold :: "id \<Rightarrow> interaction list \<Rightarrow> interaction option \<Rightarrow> interaction option" where
  "head_fold sess as h = fold (\<lambda>a h. if pending_in_session sess a then
      (case h of None \<Rightarrow> Some a | Some b \<Rightarrow> if head_before a b then Some a else h) else h) as h"

lemma head_fold_Some:
  "(\<forall>a \<in> set as. \<forall>b \<in> set (h # as). head_before a b = (inSeq a < inSeq b)) \<Longrightarrow>
     \<exists>x. head_fold sess as (Some h) = Some x \<and>
         x \<in> insert h (set (filter (pending_in_session sess) as)) \<and>
         inSeq x \<le> inSeq h \<and> (\<forall>a \<in> set as. pending_in_session sess a \<longrightarrow> inSeq x \<le> inSeq a)"
proof (induction as arbitrary: h)
  case Nil
  then show ?case by (simp add: head_fold_def)
next
  case (Cons a as)
  define h' where "h' = (if pending_in_session sess a \<and> head_before a h then a else h)"
  have e: "head_fold sess (a # as) (Some h) = head_fold sess as (Some h')"
    by (simp add: head_fold_def h'_def)
  have hb: "head_before a h = (inSeq a < inSeq h)" using Cons.prems by simp
  from Cons.prems have "\<forall>b \<in> set as. \<forall>c \<in> set (h' # as). head_before b c = (inSeq b < inSeq c)"
    by (auto simp: h'_def)
  from Cons.IH [OF this] obtain x where x: "head_fold sess as (Some h') = Some x"
    "x \<in> insert h' (set (filter (pending_in_session sess) as))" "inSeq x \<le> inSeq h'"
    "\<forall>a \<in> set as. pending_in_session sess a \<longrightarrow> inSeq x \<le> inSeq a" by blast
  show ?case
    unfolding e using x hb by (intro exI [of _ x]) (auto simp: h'_def split: if_splits)
qed

lemma head_fold_None:
  assumes "\<forall>a \<in> set as. \<forall>b \<in> set as. head_before a b = (inSeq a < inSeq b)"
  shows "case head_fold sess as None of
     None \<Rightarrow> filter (pending_in_session sess) as = []
   | Some x \<Rightarrow> x \<in> set (filter (pending_in_session sess) as) \<and>
       (\<forall>a \<in> set as. pending_in_session sess a \<longrightarrow> inSeq x \<le> inSeq a)"
  using assms
proof (induction as)
  case Nil
  then show ?case by (simp add: head_fold_def)
next
  case (Cons a as)
  show ?case
  proof (cases "pending_in_session sess a")
    case False
    then have "head_fold sess (a # as) None = head_fold sess as None" by (simp add: head_fold_def)
    with Cons False show ?thesis by (auto split: option.splits)
  next
    case True
    then have e: "head_fold sess (a # as) None = head_fold sess as (Some a)" by (simp add: head_fold_def)
    have "\<forall>b \<in> set as. \<forall>c \<in> set (a # as). head_before b c = (inSeq b < inSeq c)"
      using Cons.prems by auto
    from head_fold_Some [OF this, of sess] obtain x where
      "head_fold sess as (Some a) = Some x" "x \<in> insert a (set (filter (pending_in_session sess) as))"
      "inSeq x \<le> inSeq a" "\<forall>a \<in> set as. pending_in_session sess a \<longrightarrow> inSeq x \<le> inSeq a" by blast
    with True show ?thesis unfolding e by auto
  qed
qed

lemma queue_head:
  assumes "queue_ok t m"
  shows "pending_approval_for_session sess m =
    (case pending_approvals_for_session sess m of [] \<Rightarrow> None | a # _ \<Rightarrow> Some a)"
proof -
  let ?v = "mvals (msApprovals m)" let ?q = "pending_approvals_for_session sess m"
  have hb: "\<forall>a \<in> set ?v. \<forall>b \<in> set ?v. head_before a b = (inSeq a < inSeq b)"
  proof (intro ballI)
    fix a b assume ab: "a \<in> set ?v" "b \<in> set ?v"
    then have m: "inSeq a \<le> inSeq b \<Longrightarrow> inCreatedAt a \<le> inCreatedAt b"
      "inSeq b \<le> inSeq a \<Longrightarrow> inCreatedAt b \<le> inCreatedAt a"
      using assms unfolding queue_ok_def by blast+
    then show "head_before a b = (inSeq a < inSeq b)"
      unfolding head_before_def by linarith
  qed
  have uniq: "\<And>a b. a \<in> set ?v \<Longrightarrow> b \<in> set ?v \<Longrightarrow> inSeq a = inSeq b \<Longrightarrow> a = b"
    using assms unfolding queue_ok_def by blast
  have e: "pending_approval_for_session sess m = head_fold sess ?v None"
    by (simp add: pending_approval_for_session_def head_fold_def)
  have setq: "set ?q = set (filter (pending_in_session sess) ?v)"
    by (simp add: pending_approvals_for_session_def sort_interactions_def)
  have sq: "sorted (map inSeq ?q)"
    by (simp add: pending_approvals_for_session_def sort_interactions_def)
  note h = head_fold_None [OF hb, of sess]
  show ?thesis
  proof (cases ?q)
    case Nil
    with setq have "filter (pending_in_session sess) ?v = []" by simp
    with h Nil e show ?thesis by (auto split: option.splits)
  next
    case (Cons a as)
    with setq h obtain x where x: "head_fold sess ?v None = Some x"
      "x \<in> set ?q" "\<forall>b \<in> set ?q. inSeq x \<le> inSeq b"
    proof (cases "head_fold sess ?v None")
      case None
      with h have "filter (pending_in_session sess) ?v = []" by simp
      with setq have "set ?q = {}" by simp
      with Cons show ?thesis by simp
    qed auto
    from sq Cons x(2) have "inSeq a \<le> inSeq x" by auto
    with x(3) Cons have "inSeq a = inSeq x" by force
    moreover have "a \<in> set ?v" "x \<in> set ?v" using setq Cons x(2) by auto
    ultimately have "a = x" using uniq by blast
    with Cons e x(1) show ?thesis by simp
  qed
qed

text \<open>A decided or expired interaction never changes again, unless its id is created anew.\<close>

fun creates :: "approval_op \<Rightarrow> id \<Rightarrow> bool" where
  "creates (OpCreate fresh a) i = ((if inID a = '''' then fresh else inID a) = i)"
| "creates (OpCreateBatch fresh b a) i = ((if inID a = '''' then fresh else inID a) = i)"
| "creates _ i = False"

lemma msApprovals_create:
  "msApprovals (snd (create_approval fresh now a m)) =
     mput (if inID a = '''' then fresh else inID a)
       (a\<lparr>inID := (if inID a = '''' then fresh else inID a), inStatus := InteractionPending,
          inCreatedAt := now, inSeq := msApprovalSeq m + 1\<rparr>) (msApprovals m)"
  by (simp add: create_approval_def Let_def)

lemma decided_stable_do:
  assumes "mget (msApprovals m) i = Some a" "inStatus a \<noteq> InteractionPending" "\<not> creates x i"
  shows "mget (msApprovals (approval_do now x m)) i = Some a"
  using assms
proof (cases x)
  case (OpExpire c)
  with assms show ?thesis
    by (simp add: sweep_expired_interactions_def mget_map expires_def)
next
  case (OpCreateBatch f b c)
  with assms show ?thesis
    by (simp add: create_interaction_batch_def Let_def msApprovals_create split: option.split)
qed (auto simp: msApprovals_create decide_approval_def Let_def split: option.split)

lemma decided_stable:
  "mget (msApprovals m) i = Some a \<Longrightarrow> inStatus a \<noteq> InteractionPending \<Longrightarrow>
     \<forall>(t, x) \<in> set ops. \<not> creates x i \<Longrightarrow> mget (msApprovals (approval_ops ops m)) i = Some a"
proof (induction ops arbitrary: m)
  case (Cons y ops)
  then show ?case using decided_stable_do by (cases y) auto
qed simp

subsection \<open>Runs and usage\<close>

lemma find_map_filter_active:
  "active_run sess m = None \<longleftrightarrow> (\<forall>r \<in> set (runs_for_session sess m). \<not> status_active (runStatus r))"
  by (auto simp: active_run_def find_None_iff)

lemma set_runs_for_session:
  "set (runs_for_session sess m) = {r. \<exists>i \<in> set (mlist (msBySess m) sess). mget (msRuns m) i = Some r}"
  by (force simp: runs_for_session_def map_filter_def)

lemma is_stranded_active: "is_stranded r = status_active (runStatus r)"
  by (cases "runStatus r") (simp_all add: is_stranded_def)

lemma set_status_sel [simp]:
  "runStatus (set_status st now r) = st" "runID (set_status st now r) = runID r"
  "runSessionID (set_status st now r) = runSessionID r" "runSeq (set_status st now r) = runSeq r"
  by (simp_all add: set_status_def)

lemma sum_usage_eq:
  "sum_usage rid m = usage_no_reasoning (sum_list (map urUsage (mlist (msUsageRecords m) rid)))"
proof -
  have "fold (\<lambda>r u. Usage (InputTokens u + InputTokens (urUsage r))
       (OutputTokens u + OutputTokens (urUsage r)) (CacheReadTokens u + CacheReadTokens (urUsage r))
       (CacheWriteTokens u + CacheWriteTokens (urUsage r)) (ReasoningTokens u)) rs u =
     u + usage_no_reasoning (sum_list (map urUsage rs))" for rs :: "usage_record list" and u
    by (induction rs arbitrary: u)
       (simp_all add: usage_no_reasoning_def zero_usage_def plus_usage_def algebra_simps usage.expand)
  then show ?thesis by (simp add: sum_usage_def)
qed

subsection \<open>Properties\<close>

text \<open>Following the cursors of the conversation list on an unchanging store returns every matching
  session of the user exactly once, most recently active first, whatever the page size: no row
  straddles a page boundary and none is skipped.\<close>
theorem session_pages_partition:
  assumes "sessions_ok m" "length (user_sessions userID q m) < fuel"
  shows "follow_pages fuel userID q limit None m = user_sessions userID q m \<and>
    sorted_wrt (\<lambda>a b. session_key b < session_key a) (user_sessions userID q m)"
  using follow_pages_all [OF user_sessions_strict [OF assms(1)] refl refl, where cursor = None and k = 0 and fuel = fuel and limit = limit and userID = userID and q = q]
    user_sessions_strict [OF assms(1)] assms(2) by simp

definition sample_store :: mem_store where
  "sample_store = snd (create_session ''c'' 5 ''u'' ''three''
     (snd (create_session ''b'' 5 ''u'' ''two'' (snd (create_session ''a'' 1 ''u'' ''one'' new_mem_store)))))"

lemma sample_store_ok: "sessions_ok sample_store"
  unfolding sample_store_def
  by (intro sessions_ok_create) (simp_all add: sessions_ok_def new_mem_store_def mvals_def)

lemma session_pages_partition_witness:
  "map sID (follow_pages 4 ''u'' '''' 1 None sample_store) = [''c'', ''b'', ''a'']"
proof -
  have l: "length (user_sessions ''u'' '''' sample_store) < 4"
    and ids: "map sID (user_sessions ''u'' '''' sample_store) = [''c'', ''b'', ''a'']" by code_simp+
  from session_pages_partition [OF sample_store_ok l] ids show ?thesis by simp
qed

text \<open>The retention sweep stops after its first full page: it deletes the sessions it lists, so the
  cursor of the next page is a row that no longer exists and the listing behind it is empty.
  With at least a page of eligible sessions exactly the first page is removed.\<close>
theorem sweep_removes_one_page:
  assumes "sessions_ok m" "0 < limit" "nat limit \<le> length (ended_before cutoff m)"
  shows "\<exists>m'. sweep_ended_conversations (Suc (Suc n)) cutoff limit m =
    Some (take (nat limit) (ended_before cutoff m), m')"
  unfolding sweep_ended_conversations_def using sweep_stops [OF assms] assms(2) by simp

definition sample_ended :: mem_store where
  "sample_ended = end_session ''a'' (end_session ''b'' (end_session ''c'' sample_store))"

lemma sample_ended_ok: "sessions_ok sample_ended"
  by (simp add: sample_ended_def sample_store_def end_session_def create_session_def new_mem_store_def
      sessions_ok_def Let_def) (simp add: mput_def mvals_def)

lemma sweep_removes_one_page_witness:
  "\<exists>m'. sweep_ended_conversations 9 100 1 sample_ended = Some ([''a''], m')"
proof -
  have e: "take (nat 1) (ended_before 100 sample_ended) = [''a'']"
    and l: "nat 1 \<le> length (ended_before 100 sample_ended)" by code_simp+
  from sweep_removes_one_page [OF sample_ended_ok _ l, of 7] e show ?thesis
    by (simp add: numeral_eq_Suc)
qed

text \<open>As long as the clock does not run backwards, whatever interactions are created, decided and
  expired, the head the server prompts for is the first of the pending queue the client shows.\<close>
theorem queue_head_is_first:
  assumes "sorted (map fst ops)" "m = approval_ops ops new_mem_store"
  shows "pending_approval_for_session sess m =
    (case pending_approvals_for_session sess m of [] \<Rightarrow> None | a # _ \<Rightarrow> Some a)"
proof (cases ops)
  case Nil
  with assms queue_head [OF queue_ok_new] show ?thesis by simp
next
  case (Cons x xs)
  with assms(1) have "sorted (fst x # map fst ops)" by auto
  from queue_ok_ops [OF queue_ok_new this] assms(2) queue_head show ?thesis by blast
qed

definition sample_interaction :: "id \<Rightarrow> id \<Rightarrow> interaction" where
  "sample_interaction i c = \<lparr>inID = i, inRunID = ''r'', inSessionID = ''s'', inToolCallID = c,
     inToolName = ''t'', inPayload = '''', inKind = KindToolApproval, inStatus = InteractionPending,
     inResult = '''', inCreatedAt = 0, inDecidedAt = None, inSeq = 0\<rparr>"

definition sample_ops :: "(time \<times> approval_op) list" where
  "sample_ops = [(1, OpCreate ''x'' (sample_interaction ''1'' ''a'')),
     (1, OpCreate ''x'' (sample_interaction ''2'' ''b'')), (2, OpDecide ''1'' True '''')]"

lemma queue_head_is_first_witness:
  "map_option inID (pending_approval_for_session ''s'' (approval_ops sample_ops new_mem_store)) = Some ''2''"
proof -
  have s: "sorted (map fst sample_ops)" by (simp add: sample_ops_def)
  have "map inID (pending_approvals_for_session ''s'' (approval_ops sample_ops new_mem_store)) = [''2'']"
    by code_simp
  with queue_head_is_first [OF s refl, of "''s''"] show ?thesis by (auto split: list.splits)
qed

text \<open>C37: an interaction is decided at most once: a pending one takes the verdict, its result and the
  status the verdict asks for; one that is not pending, decided or expired, refuses every verdict,
  and no sequence of store operations that does not create its id anew changes it or makes it take
  one later.\<close>
theorem interaction_decided_once:
  assumes "mget (msApprovals m) i = Some a" "\<forall>(t, x) \<in> set ops. \<not> creates x i"
  shows "if inStatus a = InteractionPending
    then \<exists>m'. decide_approval i ok res now m = Inr (a\<lparr>inStatus := (if ok then InteractionResolved else InteractionRejected),
             inResult := res, inDecidedAt := Some now\<rparr>, m') \<and>
           mget (msApprovals m') i = Some (a\<lparr>inStatus := (if ok then InteractionResolved else InteractionRejected),
             inResult := res, inDecidedAt := Some now\<rparr>)
    else decide_approval i ok res now m = Inl ErrNoPendingApproval \<and>
      mget (msApprovals (approval_ops ops m)) i = Some a \<and>
      decide_approval i ok' res' now' (approval_ops ops m) = Inl ErrNoPendingApproval"
proof (cases "inStatus a = InteractionPending")
  case True
  with assms(1) show ?thesis by (simp add: decide_approval_def Let_def)
next
  case False
  with assms have "mget (msApprovals (approval_ops ops m)) i = Some a" by (intro decided_stable) auto
  with False assms(1) show ?thesis by (simp add: decide_approval_def)
qed

lemma interaction_decided_once_witness:
  "\<exists>a. mget (msApprovals (approval_ops [(9, OpDecide ''2'' True '''')] (approval_ops (take 2 sample_ops @ [(5, OpExpire 3)]) new_mem_store))) ''2'' = Some a \<and>
     inStatus a = InteractionExpired"
proof -
  let ?m = "approval_ops (take 2 sample_ops @ [(5, OpExpire 3)]) new_mem_store"
  obtain a where a: "mget (msApprovals ?m) ''2'' = Some a" "inStatus a = InteractionExpired"
    by (simp add: sample_ops_def msApprovals_create sample_interaction_def sweep_expired_interactions_def mget_map expires_def)
  from interaction_decided_once [OF a(1), of "[(9, OpDecide ''2'' True '''')]"] a show ?thesis by simp
qed

end
