(* ===== verification/Broker.thy ===== *)
theory Broker
  imports SessionStore
begin

section \<open>Live delivery: the stream broker and the event bus\<close>

text \<open>
  \<open>internal/session/streambroker.go\<close> (\<open>memBroker\<close>) and \<open>bus.go\<close> (\<open>memBus\<close>). A buffered
  Go channel is a queue with a capacity, kept in a map of channels; a send to a full one is
  dropped and counted. \<open>broker_publish\<close> appends under the lock and then offers the frame to
  the subscribers it saw. \<open>Subscribe\<close> takes the channel's identity as an argument.
\<close>

subsection \<open>Channels\<close>

type_synonym chan = nat

record 'e channel =
  chCap :: nat
  chQueue :: "'e list"

type_synonym 'e channels = "(chan, 'e channel) gomap"

text \<open>The non-blocking send (\<open>select\<close> with a default): the new channels and the drops.\<close>

definition try_send :: "'e \<Rightarrow> chan \<Rightarrow> 'e channels \<Rightarrow> 'e channels \<times> nat" where
  "try_send e c cs = (case mget cs c of
     None \<Rightarrow> (cs, 0)
   | Some ch \<Rightarrow> if length (chQueue ch) < chCap ch
       then (mput c (ch\<lparr>chQueue := chQueue ch @ [e]\<rparr>) cs, 0) else (cs, 1))"

fun send_all :: "'e \<Rightarrow> chan list \<Rightarrow> 'e channels \<Rightarrow> 'e channels \<times> nat" where
  "send_all e [] cs = (cs, 0)"
| "send_all e (c # rest) cs =
     (let (cs', d) = try_send e c cs; (cs'', d') = send_all e rest cs' in (cs'', d + d'))"

definition receive :: "chan \<Rightarrow> 'e channels \<Rightarrow> ('e \<times> 'e channels) option" where
  "receive c cs = (case mget cs c of
     None \<Rightarrow> None
   | Some ch \<Rightarrow> (case chQueue ch of [] \<Rightarrow> None | e # q \<Rightarrow> Some (e, mput c (ch\<lparr>chQueue := q\<rparr>) cs)))"

subsection \<open>The broker\<close>

record stream_event =
  seOffset :: int
  seRunID :: id
  seKind :: event_kind
  sePayload :: string

record live_stream =
  lsNext :: int
  lsFrames :: "stream_event list"
  lsSubs :: "chan list"

record mem_broker =
  mbStreams :: "(id, live_stream) gomap"
  mbCapacity :: nat
  mbDropped :: nat
  mbChannels :: "stream_event channels"

definition new_mem_broker :: "int \<Rightarrow> mem_broker" where
  "new_mem_broker capacity = \<lparr>mbStreams = [],
     mbCapacity = (if capacity \<le> 0 then 1024 else nat capacity), mbDropped = 0, mbChannels = []\<rparr>"

definition empty_stream :: live_stream where
  "empty_stream = \<lparr>lsNext = 0, lsFrames = [], lsSubs = []\<rparr>"

definition stream_of :: "id \<Rightarrow> mem_broker \<Rightarrow> live_stream" where
  "stream_of sess b = (case mget (mbStreams b) sess of None \<Rightarrow> empty_stream | Some ls \<Rightarrow> ls)"

definition push_frame :: "nat \<Rightarrow> stream_event \<Rightarrow> live_stream \<Rightarrow> live_stream" where
  "push_frame capacity ev ls =
     (let nxt = lsNext ls + 1; fs = lsFrames ls @ [ev\<lparr>seOffset := nxt\<rparr>];
          fs = (if length fs > capacity then drop (length fs - capacity) fs else fs)
      in ls\<lparr>lsNext := nxt, lsFrames := fs\<rparr>)"

definition broker_publish :: "id \<Rightarrow> stream_event \<Rightarrow> mem_broker \<Rightarrow> int \<times> mem_broker" where
  "broker_publish sess ev b =
     (let ls = push_frame (mbCapacity b) ev (stream_of sess b);
          (cs, d) = send_all (ev\<lparr>seOffset := lsNext ls\<rparr>) (lsSubs ls) (mbChannels b)
      in (lsNext ls, b\<lparr>mbStreams := mput sess ls (mbStreams b), mbChannels := cs, mbDropped := mbDropped b + d\<rparr>))"

definition broker_read :: "id \<Rightarrow> int \<Rightarrow> mem_broker \<Rightarrow> stream_event list" where
  "broker_read sess after b = (case mget (mbStreams b) sess of
     None \<Rightarrow> [] | Some ls \<Rightarrow> filter (\<lambda>ev. seOffset ev > after) (lsFrames ls))"

definition broker_subscribe :: "chan \<Rightarrow> id \<Rightarrow> nat \<Rightarrow> mem_broker \<Rightarrow> mem_broker" where
  "broker_subscribe c sess buffer b =
     (let ls = stream_of sess b
      in b\<lparr>mbStreams := mput sess (ls\<lparr>lsSubs := lsSubs ls @ [c]\<rparr>) (mbStreams b),
           mbChannels := mput c \<lparr>chCap = buffer, chQueue = []\<rparr> (mbChannels b)\<rparr>)"

definition broker_unsubscribe :: "chan \<Rightarrow> id \<Rightarrow> mem_broker \<Rightarrow> mem_broker" where
  "broker_unsubscribe c sess b = (case mget (mbStreams b) sess of
     None \<Rightarrow> b
   | Some ls \<Rightarrow>
       (let subs = filter (\<lambda>x. x \<noteq> c) (lsSubs ls)
        in if subs = [] \<and> lsFrames ls = [] then b\<lparr>mbStreams := mdel sess (mbStreams b)\<rparr>
           else b\<lparr>mbStreams := mput sess (ls\<lparr>lsSubs := subs\<rparr>) (mbStreams b)\<rparr>))"

definition broker_settle :: "id \<Rightarrow> mem_broker \<Rightarrow> mem_broker" where
  "broker_settle sess b = (case mget (mbStreams b) sess of
     None \<Rightarrow> b
   | Some ls \<Rightarrow>
       if lsSubs ls = [] then b\<lparr>mbStreams := mdel sess (mbStreams b)\<rparr>
       else b\<lparr>mbStreams := mput sess (ls\<lparr>lsFrames := []\<rparr>) (mbStreams b)\<rparr>)"

subsection \<open>The bus\<close>

record mem_bus =
  buSubs :: "(id, chan list) gomap"
  buDropped :: nat
  buChannels :: "event channels"

definition new_mem_bus :: mem_bus where
  "new_mem_bus = \<lparr>buSubs = [], buDropped = 0, buChannels = []\<rparr>"

definition bus_publish :: "id \<Rightarrow> event \<Rightarrow> mem_bus \<Rightarrow> mem_bus" where
  "bus_publish sess e b =
     (let (cs, d) = send_all e (mlist (buSubs b) sess) (buChannels b)
      in b\<lparr>buChannels := cs, buDropped := buDropped b + d\<rparr>)"

definition bus_subscribe :: "chan \<Rightarrow> id \<Rightarrow> nat \<Rightarrow> mem_bus \<Rightarrow> mem_bus" where
  "bus_subscribe c sess buffer b =
     b\<lparr>buSubs := mput sess (mlist (buSubs b) sess @ [c]) (buSubs b),
       buChannels := mput c \<lparr>chCap = buffer, chQueue = []\<rparr> (buChannels b)\<rparr>"

definition bus_unsubscribe :: "chan \<Rightarrow> id \<Rightarrow> mem_bus \<Rightarrow> mem_bus" where
  "bus_unsubscribe c sess b = (case mget (buSubs b) sess of
     None \<Rightarrow> b | Some cs \<Rightarrow> b\<lparr>buSubs := mput sess (filter (\<lambda>x. x \<noteq> c) cs) (buSubs b)\<rparr>)"

subsection \<open>The ring invariant\<close>

definition ring_ok :: "nat \<Rightarrow> live_stream \<Rightarrow> bool" where
  "ring_ok capacity ls =
     (length (lsFrames ls) \<le> capacity \<and> int (length (lsFrames ls)) \<le> lsNext ls \<and>
      map seOffset (lsFrames ls) =
        map (\<lambda>i. lsNext ls - int (length (lsFrames ls)) + 1 + int i) [0..<length (lsFrames ls)])"

definition broker_ok :: "mem_broker \<Rightarrow> bool" where
  "broker_ok b = (0 < mbCapacity b \<and> (\<forall>sess. ring_ok (mbCapacity b) (stream_of sess b)))"

lemma ring_ok_empty [simp]: "ring_ok capacity empty_stream"
  by (simp add: ring_ok_def empty_stream_def)

lemma ring_nth:
  "ring_ok capacity ls \<Longrightarrow> i < length (lsFrames ls) \<Longrightarrow>
     seOffset (lsFrames ls ! i) = lsNext ls - int (length (lsFrames ls)) + 1 + int i"
proof -
  assume r: "ring_ok capacity ls" and i: "i < length (lsFrames ls)"
  have "seOffset (lsFrames ls ! i) = map seOffset (lsFrames ls) ! i" using i by simp
  also have "\<dots> = lsNext ls - int (length (lsFrames ls)) + 1 + int i"
    using r i by (simp add: ring_ok_def)
  finally show ?thesis .
qed

lemma ring_ok_push:
  assumes "ring_ok capacity ls" "0 < capacity"
  shows "ring_ok capacity (push_frame capacity ev ls)"
proof -
  let ?n = "length (lsFrames ls)"
  define fs where "fs = lsFrames ls @ [ev\<lparr>seOffset := lsNext ls + 1\<rparr>]"
  have len: "length fs = Suc ?n" by (simp add: fs_def)
  have off: "seOffset (fs ! i) = lsNext ls - int ?n + 1 + int i" if "i < Suc ?n" for i
    using that ring_nth [OF assms(1), of i] by (auto simp: fs_def nth_append less_Suc_eq)
  have le: "?n \<le> capacity" "int ?n \<le> lsNext ls" using assms(1) by (auto simp: ring_ok_def)
  define k where "k = Suc ?n - capacity"
  have p: "push_frame capacity ev ls = ls\<lparr>lsNext := lsNext ls + 1, lsFrames := drop k fs\<rparr>"
    using len by (auto simp: push_frame_def Let_def k_def fs_def [symmetric] not_less)
  have k: "k \<le> 1" "Suc ?n - k \<le> capacity" using le assms(2) by (auto simp: k_def)
  have "map seOffset (drop k fs) =
      map (\<lambda>i. lsNext ls + 1 - int (Suc ?n - k) + 1 + int i) [0..<Suc ?n - k]"
  proof (rule nth_equalityI)
    fix i assume "i < length (map seOffset (drop k fs))"
    then have i: "k + i < Suc ?n" using len by simp
    with off [of "k + i"] k(1) len
    show "map seOffset (drop k fs) ! i =
        map (\<lambda>i. lsNext ls + 1 - int (Suc ?n - k) + 1 + int i) [0..<Suc ?n - k] ! i"
      by (simp add: nth_map_upt of_nat_diff del: upt_Suc)
  qed (simp add: len)
  with k le len show ?thesis unfolding p by (simp add: ring_ok_def)
qed

lemma push_frame_next [simp]: "lsNext (push_frame c ev ls) = lsNext ls + 1"
  by (simp add: push_frame_def Let_def)

lemma publish_sel:
  "fst (broker_publish sess ev b) = lsNext (stream_of sess b) + 1"
  "mbStreams (snd (broker_publish sess ev b)) =
     mput sess (push_frame (mbCapacity b) ev (stream_of sess b)) (mbStreams b)"
  "mbCapacity (snd (broker_publish sess ev b)) = mbCapacity b"
  by (simp_all add: broker_publish_def Let_def split_beta)

lemma stream_of_publish [simp]:
  "stream_of s (snd (broker_publish sess ev b)) =
     (if s = sess then push_frame (mbCapacity b) ev (stream_of sess b) else stream_of s b)"
  by (simp add: stream_of_def publish_sel)

lemma stream_of_mput [simp]:
  "stream_of s (b\<lparr>mbStreams := mput sess ls (mbStreams b)\<rparr>) = (if s = sess then ls else stream_of s b)"
  "stream_of s (b\<lparr>mbStreams := mput sess ls (mbStreams b), mbChannels := cs\<rparr>) = (if s = sess then ls else stream_of s b)"
  "stream_of s (b\<lparr>mbStreams := mput sess ls (mbStreams b), mbDropped := d, mbChannels := cs\<rparr>) = (if s = sess then ls else stream_of s b)"
  "stream_of s (b\<lparr>mbStreams := mdel sess (mbStreams b)\<rparr>) = (if s = sess then empty_stream else stream_of s b)"
  by (simp_all add: stream_of_def)

lemma broker_ok_new: "broker_ok (new_mem_broker c)"
  by (simp add: broker_ok_def new_mem_broker_def stream_of_def)

lemma broker_ok_publish [inv_intros]: "broker_ok b \<Longrightarrow> broker_ok (snd (broker_publish sess ev b))"
  by (simp add: broker_ok_def ring_ok_push publish_sel)

lemma ring_ok_subs [simp]: "ring_ok c (ls\<lparr>lsSubs := x\<rparr>) = ring_ok c ls"
  by (simp add: ring_ok_def)

lemma broker_ok_subscribe [inv_intros]: "broker_ok b \<Longrightarrow> broker_ok (broker_subscribe c sess buf b)"
  by (simp add: broker_ok_def broker_subscribe_def Let_def)

lemma stream_of_Some: "mget (mbStreams b) sess = Some ls \<Longrightarrow> stream_of sess b = ls"
  by (simp add: stream_of_def)

lemma broker_ok_unsubscribe [inv_intros]: "broker_ok b \<Longrightarrow> broker_ok (broker_unsubscribe c sess b)"
  unfolding broker_ok_def broker_unsubscribe_def
  by (auto simp: Let_def split: option.split dest: stream_of_Some)

lemma broker_ok_settle [inv_intros]: "broker_ok b \<Longrightarrow> broker_ok (broker_settle sess b)"
proof -
  assume ok: "broker_ok b"
  have "ring_ok (mbCapacity b) (ls\<lparr>lsFrames := []\<rparr>)" if "mget (mbStreams b) sess = Some ls" for ls
  proof -
    have "ring_ok (mbCapacity b) ls" using ok stream_of_Some [OF that] by (auto simp: broker_ok_def)
    then show ?thesis by (simp add: ring_ok_def)
  qed
  with ok show ?thesis
    by (auto simp: broker_ok_def broker_settle_def split: option.split)
qed

subsection \<open>Catch-up\<close>

datatype broker_op =
    BPublish id stream_event | BSubscribe chan id nat | BUnsubscribe chan id | BSettle id

fun broker_do :: "broker_op \<Rightarrow> mem_broker \<Rightarrow> mem_broker" where
  "broker_do (BPublish s ev) b = snd (broker_publish s ev b)"
| "broker_do (BSubscribe c s n) b = broker_subscribe c s n b"
| "broker_do (BUnsubscribe c s) b = broker_unsubscribe c s b"
| "broker_do (BSettle s) b = broker_settle s b"

fun op_session :: "broker_op \<Rightarrow> id" where
  "op_session (BPublish s ev) = s"
| "op_session (BSubscribe c s n) = s"
| "op_session (BUnsubscribe c s) = s"
| "op_session (BSettle s) = s"

fun published :: "id \<Rightarrow> broker_op list \<Rightarrow> stream_event list" where
  "published s [] = []"
| "published s (BPublish s' ev # xs) = (if s' = s then ev # published s xs else published s xs)"
| "published s (_ # xs) = published s xs"

text \<open>The operations while a session's run streams: any but the settling of this session.\<close>

fun streaming :: "id \<Rightarrow> broker_op \<Rightarrow> bool" where
  "streaming s (BSettle s') = (s' \<noteq> s)"
| "streaming s _ = True"

lemma broker_ok_do: "broker_ok b \<Longrightarrow> broker_ok (broker_do x b)"
  by (cases x) (auto intro: inv_intros)

lemma broker_ok_run: "broker_ok b \<Longrightarrow> broker_ok (fold broker_do xs b)"
  by (induction xs arbitrary: b) (auto simp: broker_ok_do)

lemma capacity_do [simp]: "mbCapacity (broker_do x b) = mbCapacity b"
  by (cases x) (auto simp: publish_sel broker_subscribe_def broker_unsubscribe_def broker_settle_def Let_def
      split: option.split)

lemma capacity_run [simp]: "mbCapacity (fold broker_do xs b) = mbCapacity b"
  by (induction xs arbitrary: b) auto

lemma stream_other: "op_session x \<noteq> s \<Longrightarrow> stream_of s (broker_do x b) = stream_of s b"
  by (cases x)
     (auto simp: broker_subscribe_def broker_unsubscribe_def broker_settle_def Let_def split: option.split)

lemma read_stream: "broker_read s k b = filter (\<lambda>ev. seOffset ev > k) (lsFrames (stream_of s b))"
  by (auto simp: broker_read_def stream_of_def empty_stream_def split: option.split)

definition numbered :: "int \<Rightarrow> stream_event list \<Rightarrow> stream_event list" where
  "numbered k evs = map (\<lambda>(i, ev). ev\<lparr>seOffset := k + 1 + int i\<rparr>) (enumerate 0 evs)"

lemma numbered_snoc: "numbered k (evs @ [ev]) = numbered k evs @ [ev\<lparr>seOffset := k + 1 + int (length evs)\<rparr>]"
  by (simp add: numbered_def enumerate_append_eq)

lemma published_snoc: "published s (xs @ [x]) = published s xs @ published s [x]"
  by (induction xs rule: published.induct) auto

lemma ring_drop:
  assumes "d \<le> length xs - c"
  shows "drop (length (drop d xs @ [e]) - c) (drop d xs @ [e]) = drop (length (xs @ [e]) - c) (xs @ [e])"
proof -
  have "drop d xs @ [e] = drop d (xs @ [e])" using assms by simp
  moreover have "length (drop d (xs @ [e])) - c + d = length (xs @ [e]) - c" using assms by simp
  ultimately show ?thesis by (simp only: drop_drop)
qed

lemma frames_kept:
  assumes "\<forall>x \<in> set xs. streaming s x" "lsFrames (stream_of s b) \<noteq> []" "0 < mbCapacity b"
  shows "lsFrames (stream_of s (fold broker_do xs b)) \<noteq> []"
  using assms
proof (induction xs rule: rev_induct)
  case (snoc x xs)
  then have ne: "lsFrames (stream_of s (fold broker_do xs b)) \<noteq> []" by simp
  then show ?case
  proof (cases "op_session x = s")
    case True
    with ne snoc.prems show ?thesis
      by (cases x) (auto simp: broker_subscribe_def broker_unsubscribe_def push_frame_def Let_def dest: stream_of_Some split: option.split)
  qed (simp add: stream_other)
qed simp

lemma stream_run:
  assumes "\<forall>x \<in> set xs. streaming s x" "lsFrames (stream_of s b) \<noteq> []" "0 < mbCapacity b"
  shows "lsNext (stream_of s (fold broker_do xs b)) = lsNext (stream_of s b) + int (length (published s xs)) \<and>
    lsFrames (stream_of s (fold broker_do xs b)) =
      (let fs = lsFrames (stream_of s b) @ numbered (lsNext (stream_of s b)) (published s xs)
       in if published s xs = [] then lsFrames (stream_of s b) else drop (length fs - mbCapacity b) fs)"
  using assms
proof (induction xs rule: rev_induct)
  case Nil
  then show ?case by simp
next
  case (snoc x xs)
  let ?b = "fold broker_do xs b"
  show ?case
  proof (cases "op_session x = s \<and> (\<exists>ev. x = BPublish s ev)")
    case False
    then have p: "published s [x] = []" by (cases x) auto
    have "lsNext (stream_of s (broker_do x ?b)) = lsNext (stream_of s ?b) \<and>
        lsFrames (stream_of s (broker_do x ?b)) = lsFrames (stream_of s ?b)"
    proof (cases "op_session x = s")
      case True
      with False snoc.prems obtain c n where "x = BSubscribe c s n \<or> x = BUnsubscribe c s" by (cases x) auto
      moreover have "lsFrames (stream_of s ?b) \<noteq> []" using frames_kept snoc.prems by simp
      ultimately show ?thesis
        by (auto simp: broker_subscribe_def broker_unsubscribe_def Let_def dest: stream_of_Some split: option.split)
    qed (simp add: stream_other)
    with snoc p show ?thesis by (simp add: published_snoc)
  next
    case True
    then obtain ev where x: "x = BPublish s ev" by blast
    then have p: "published s [x] = [ev]" by simp
    let ?fs = "lsFrames (stream_of s b) @ numbered (lsNext (stream_of s b)) (published s xs)"
    let ?e = "ev\<lparr>seOffset := lsNext (stream_of s b) + int (length (published s xs)) + 1\<rparr>"
    have IH: "lsNext (stream_of s ?b) = lsNext (stream_of s b) + int (length (published s xs))"
      "lsFrames (stream_of s ?b) = (if published s xs = [] then lsFrames (stream_of s b) else drop (length ?fs - mbCapacity b) ?fs)"
      using snoc by (auto simp: Let_def)
    have "\<exists>d. lsFrames (stream_of s ?b) = drop d ?fs \<and> d \<le> length ?fs - mbCapacity b"
    proof (cases "published s xs = []")
      case True
      with IH show ?thesis by (intro exI [of _ 0]) (simp add: numbered_def)
    next
      case False
      with IH show ?thesis by (intro exI [of _ "length ?fs - mbCapacity b"]) simp
    qed
    then obtain d where d: "lsFrames (stream_of s ?b) = drop d ?fs" "d \<le> length ?fs - mbCapacity b" by blast
    have "lsFrames (stream_of s (broker_do x ?b)) =
        drop (length (drop d ?fs @ [?e]) - mbCapacity b) (drop d ?fs @ [?e])"
      using x d(1) IH(1) by (auto simp: push_frame_def Let_def)
    also have "\<dots> = drop (length (?fs @ [?e]) - mbCapacity b) (?fs @ [?e])"
      using d(2) by (rule ring_drop)
    finally show ?thesis
      using x p IH(1) by (simp add: published_snoc numbered_snoc Let_def add.commute add.left_commute)
  qed
qed

lemma numbered_filter: "filter (\<lambda>ev. seOffset ev > k) (numbered k evs) = numbered k evs"
  by (rule filter_True) (auto simp: numbered_def)

lemma numbered_length [simp]: "length (numbered k evs) = length evs"
  by (simp add: numbered_def)

lemma ring_old:
  assumes "ring_ok c ls" "ev \<in> set (lsFrames ls)"
  shows "seOffset ev \<le> lsNext ls"
proof -
  from assms(2) obtain i where "i < length (lsFrames ls)" "ev = lsFrames ls ! i"
    by (auto simp: in_set_conv_nth)
  with ring_nth [OF assms(1), of i] show ?thesis by simp
qed

subsection \<open>Properties\<close>

text \<open>C38: of a broker as its operations leave it: a client that had the last frame published to a
  session, which the broker still holds, reads back exactly the frames published to the session since, complete, in order and under consecutive
  offsets, as long as no more than the ring's capacity were published and the session was not
  settled meanwhile; whatever happens on other sessions and whichever clients attach and detach.\<close>
theorem reconnect_reads_missed_frames:
  assumes "broker_ok b" "lsFrames (stream_of s b) \<noteq> []" "\<forall>x \<in> set xs. streaming s x"
    and "length (published s xs) \<le> mbCapacity b"
  shows "broker_read s (lsNext (stream_of s b)) (fold broker_do xs b) =
    numbered (lsNext (stream_of s b)) (published s xs)"
proof -
  let ?k = "lsNext (stream_of s b)" let ?old = "lsFrames (stream_of s b)"
  let ?new = "numbered ?k (published s xs)"
  have cap: "0 < mbCapacity b" using assms(1,2) by (auto simp: broker_ok_def ring_ok_def dest: spec [of _ s])
  have old: "filter (\<lambda>ev. seOffset ev > ?k) (drop n ?old) = []" for n
    using assms(1) ring_old [of "mbCapacity b" "stream_of s b"]
    by (auto simp: broker_ok_def filter_empty_conv dest!: in_set_dropD) force
  have "lsFrames (stream_of s (fold broker_do xs b)) =
      drop (length (?old @ ?new) - mbCapacity b) ?old @ ?new \<or>
    published s xs = [] \<and> lsFrames (stream_of s (fold broker_do xs b)) = ?old"
    using stream_run [OF assms(3,2) cap] assms(4) by (auto simp: Let_def)
  then show ?thesis
    using old [of 0] old numbered_filter [of ?k "published s xs"]
    by (auto simp: read_stream numbered_def)
qed

definition sample_frame :: "string \<Rightarrow> stream_event" where
  "sample_frame t = \<lparr>seOffset = 0, seRunID = ''r'', seKind = KindText, sePayload = t\<rparr>"

lemma reconnect_reads_missed_frames_witness:
  "map sePayload (broker_read ''s'' 1 (fold broker_do
      [BUnsubscribe 1 ''s'', BPublish ''s'' (sample_frame ''b''), BSubscribe 1 ''s'' 4, BPublish ''s'' (sample_frame ''c'')]
      (snd (broker_publish ''s'' (sample_frame ''a'') (new_mem_broker 2))))) = [''b'', ''c'']"
proof -
  let ?b = "snd (broker_publish ''s'' (sample_frame ''a'') (new_mem_broker 2))"
  have b: "broker_ok ?b" "mbCapacity ?b = 2" "lsNext (stream_of ''s'' ?b) = 1" "lsFrames (stream_of ''s'' ?b) \<noteq> []"
    by (auto intro: inv_intros simp: broker_ok_new publish_sel)
       (simp_all add: new_mem_broker_def stream_of_def empty_stream_def push_frame_def Let_def)
  show ?thesis
    using reconnect_reads_missed_frames [OF b(1), of
        "''s''" "[BUnsubscribe 1 ''s'', BPublish ''s'' (sample_frame ''b''), BSubscribe 1 ''s'' 4, BPublish ''s'' (sample_frame ''c'')]"] b
    by (simp add: numbered_def sample_frame_def)
qed

text \<open>Whatever sequence of operations the broker performs, every session's ring holds at most the
  configured number of frames and their offsets are consecutive up to the last one assigned.\<close>
theorem ring_bounded_consecutive:
  "ring_ok (mbCapacity (new_mem_broker c)) (stream_of s (fold broker_do xs (new_mem_broker c)))"
  using broker_ok_run [OF broker_ok_new, of xs c] by (simp add: broker_ok_def)

end
