(* ===== verification/Runtime.thy ===== *)
theory Runtime
  imports Broker
begin

section \<open>The session runtime\<close>

text \<open>
  \<open>internal/session/runtime.go\<close>: the run lifecycle over a store, the broker and the bus.
  \<open>runtime\<close> is one process: its in-memory lock map \<open>rtRuns\<close> beside the parts it shares. Each
  method is a function here; the interleavings of \<open>StartRun\<close>, whose check and creation are not
  one critical section, are the step relation of the theory \<open>RuntimeSteps\<close>. A cancel function
  is a number. The compaction \<open>encoding/json\<close> applies to a raw value is an argument.
\<close>

record run_state =
  rtRun :: run
  rtOffset :: int
  rtCancel :: "nat option"

record runtime =
  rtStore :: mem_store
  rtBus :: mem_bus
  rtBroker :: mem_broker
  rtRuns :: "(id, run_state) gomap"

datatype runtime_error =
    RtStoreError store_error | ErrRunActive | ErrNoActiveRun | ErrSessionEnded
  | ErrNotTerminal | ErrBadJSON

definition new_runtime :: "mem_store \<Rightarrow> runtime" where
  "new_runtime st = \<lparr>rtStore = st, rtBus = new_mem_bus, rtBroker = new_mem_broker 0, rtRuns = []\<rparr>"

definition start_run :: "id \<Rightarrow> time \<Rightarrow> id \<Rightarrow> runtime \<Rightarrow> (runtime_error + run) \<times> runtime" where
  "start_run fresh now sess rt =
     (case get_session sess (rtStore rt) of
        Inl e \<Rightarrow> (Inl (RtStoreError e), rt)
      | Inr s \<Rightarrow>
          if sStatus s = SessionEnded then (Inl ErrSessionEnded, rt)
          else if mget (rtRuns rt) sess \<noteq> None then (Inl ErrRunActive, rt)
          else if active_run sess (rtStore rt) \<noteq> None then (Inl ErrRunActive, rt)
          else (let (r, st1) = create_run fresh now sess (next_run_seq sess (rtStore rt)) (rtStore rt);
                    st2 = update_run_status (runID r) RunRunning now st1;
                    r' = r\<lparr>runStatus := RunRunning\<rparr>
                in (Inr r', rt\<lparr>rtStore := st2,
                       rtRuns := mput sess \<lparr>rtRun = r', rtOffset = 0, rtCancel = None\<rparr> (rtRuns rt)\<rparr>)))"

definition rt_append_event :: "time \<Rightarrow> event \<Rightarrow> runtime \<Rightarrow> runtime" where
  "rt_append_event now e rt =
     (if is_content_kind (evKind e) then
        rt\<lparr>rtBroker := snd (broker_publish (evSessionID e)
             \<lparr>seOffset = 0, seRunID = evRunID e, seKind = evKind e, sePayload = evPayload e\<rparr> (rtBroker rt))\<rparr>
      else
        (case mget (rtRuns rt) (evSessionID e) of
           Some rs \<Rightarrow>
             (let off = rtOffset rs + 1; e' = e\<lparr>evOffset := off\<rparr>
              in rt\<lparr>rtRuns := mput (evSessionID e) (rs\<lparr>rtOffset := off\<rparr>) (rtRuns rt),
                    rtStore := append_event now e' (rtStore rt),
                    rtBus := bus_publish (evSessionID e) e' (rtBus rt)\<rparr>)
         | None \<Rightarrow>
             (let events = events_after (evRunID e) 0 (rtStore rt);
                  e' = (if events = [] then e else e\<lparr>evOffset := evOffset (last events) + 1\<rparr>)
              in rt\<lparr>rtStore := append_event now e' (rtStore rt),
                    rtBus := bus_publish (evSessionID e) e' (rtBus rt)\<rparr>)))"

definition complete_run_for_run ::
  "time \<Rightarrow> id \<Rightarrow> id \<Rightarrow> run_status \<Rightarrow> runtime \<Rightarrow> runtime_error option \<times> runtime" where
  "complete_run_for_run now sess rid status rt =
     (if \<not> status_terminal status then (Some ErrNotTerminal, rt)
      else (case mget (rtRuns rt) sess of
              None \<Rightarrow> (Some ErrNoActiveRun, rt)
            | Some rs \<Rightarrow>
                if runID (rtRun rs) \<noteq> rid then (Some ErrNoActiveRun, rt)
                else (None, rt\<lparr>rtRuns := mdel sess (rtRuns rt),
                               rtBroker := broker_settle sess (rtBroker rt),
                               rtStore := update_run_status rid status now (rtStore rt)\<rparr>)))"

definition complete_run :: "time \<Rightarrow> id \<Rightarrow> run_status \<Rightarrow> runtime \<Rightarrow> runtime_error option \<times> runtime" where
  "complete_run now sess status rt =
     (case mget (rtRuns rt) sess of
        None \<Rightarrow> (Some ErrNoActiveRun, rt)
      | Some rs \<Rightarrow> complete_run_for_run now sess (runID (rtRun rs)) status rt)"

definition rt_active_run :: "id \<Rightarrow> runtime \<Rightarrow> run option" where
  "rt_active_run sess rt =
     (case mget (rtRuns rt) sess of Some rs \<Rightarrow> Some (rtRun rs) | None \<Rightarrow> active_run sess (rtStore rt))"

definition state_payload :: "string \<Rightarrow> string \<Rightarrow> string" where
  "state_payload key value = ''{'' @ marshal_str ''key'' @ '':'' @ marshal_str key @ '','' @
     marshal_str ''value'' @ '':'' @ value @ ''}''"

definition rt_set_session_state_kv ::
  "(string \<Rightarrow> string option) \<Rightarrow> id \<Rightarrow> string \<Rightarrow> string \<Rightarrow> runtime \<Rightarrow> runtime_error option \<times> runtime" where
  "rt_set_session_state_kv compact sess key value rt =
     (case set_session_state_kv sess key value (rtStore rt) of
        Inl e \<Rightarrow> (Some (RtStoreError e), rt)
      | Inr st \<Rightarrow>
          (let rt1 = rt\<lparr>rtStore := st\<rparr>
           in case compact value of
                None \<Rightarrow> (Some ErrBadJSON, rt1)
              | Some v \<Rightarrow>
                  (let rid = (case rt_active_run sess rt1 of None \<Rightarrow> '''' | Some r \<Rightarrow> runID r)
                   in (None, rt1\<lparr>rtBroker := snd (broker_publish sess
                        \<lparr>seOffset = 0, seRunID = rid, seKind = KindOther ''session_state'',
                         sePayload = state_payload key v\<rparr> (rtBroker rt1))\<rparr>))))"

text \<open>
  The inspection of the step intents only writes log lines; its findings are returned beside
  the count of runs reconciled.
\<close>

definition recover_stranded_runs :: "time \<Rightarrow> runtime \<Rightarrow> (nat \<times> (id \<times> run_step option) list) \<times> runtime" where
  "recover_stranded_runs now rt =
     (let seen = map (\<lambda>r. (runID r, (case latest_run_steps (runID r) 1 (rtStore rt) of
                                      [] \<Rightarrow> None | s # _ \<Rightarrow> Some s))) (stranded_runs (rtStore rt));
          (n, st) = fail_stranded_runs now (rtStore rt)
      in ((n, seen), rt\<lparr>rtStore := st\<rparr>))"

definition register_cancel :: "id \<Rightarrow> nat \<Rightarrow> runtime \<Rightarrow> runtime" where
  "register_cancel sess c rt =
     (case mget (rtRuns rt) sess of
        None \<Rightarrow> rt
      | Some rs \<Rightarrow> rt\<lparr>rtRuns := mput sess (rs\<lparr>rtCancel := Some c\<rparr>) (rtRuns rt)\<rparr>)"

text \<open>
  \<open>CancelRun\<close>: \<open>polls\<close> are the run states the wait for a registration sees, one per
  millisecond (at most 100), when the first look finds no cancel function; the wait stops when
  one is registered or the run is gone. The result is whether a run was cancelled, the cancel
  function that was called, an error, and the state settled in \<open>rt\<close>, the state after the wait.
\<close>

fun wait_cancel :: "id \<Rightarrow> run_state option list \<Rightarrow> nat option" where
  "wait_cancel rid [] = None"
| "wait_cancel rid (p # ps) =
     (case p of
        None \<Rightarrow> None
      | Some rs \<Rightarrow> if runID (rtRun rs) \<noteq> rid then None
          else (case rtCancel rs of Some c \<Rightarrow> Some c | None \<Rightarrow> wait_cancel rid ps))"

definition cancel_run ::
  "time \<Rightarrow> id \<Rightarrow> run_state option \<Rightarrow> run_state option list \<Rightarrow> runtime \<Rightarrow>
     (bool \<times> nat option \<times> runtime_error option) \<times> runtime" where
  "cancel_run now sess seen polls rt =
     (case seen of
        None \<Rightarrow> ((False, None, None), rt)
      | Some rs \<Rightarrow>
          (let rid = runID (rtRun rs);
               c = (case rtCancel rs of Some c \<Rightarrow> Some c | None \<Rightarrow> wait_cancel rid (take 100 polls))
           in case complete_run_for_run now sess rid RunCancelled rt of
                (None, rt') \<Rightarrow> ((True, c, None), rt')
              | (Some ErrNoActiveRun, rt') \<Rightarrow> ((True, c, None), rt')
              | (Some e, rt') \<Rightarrow> ((False, c, Some e), rt')))"

subsection \<open>The event log of a run\<close>

definition run_log :: "id \<Rightarrow> runtime \<Rightarrow> event list" where
  "run_log rid rt = mlist (msEvents (rtStore rt)) rid"

definition counted :: "event list \<Rightarrow> bool" where
  "counted es = (map evOffset es = map (\<lambda>i. 1 + int i) [0..<length es])"

lemma counted_snoc: "counted (es @ [e]) \<longleftrightarrow> counted es \<and> evOffset e = 1 + int (length es)"
  by (auto simp: counted_def)

lemma counted_nth: "counted es \<Longrightarrow> i < length es \<Longrightarrow> evOffset (es ! i) = 1 + int i"
proof -
  assume "counted es" "i < length es"
  then have "map evOffset es ! i = 1 + int i" by (simp add: counted_def)
  with \<open>i < length es\<close> show ?thesis by simp
qed

lemma counted_sorted: "counted es \<Longrightarrow> sort_key evOffset es = es"
proof (rule sort_key_id_if_sorted)
  assume "counted es"
  then have "map evOffset es = map (\<lambda>i. 1 + int i) [0..<length es]" by (simp add: counted_def)
  moreover have "sorted (map (\<lambda>i. 1 + int i) [0..<n])" for n by (induction n) (auto simp: sorted_append)
  ultimately show "sorted (map evOffset es)" by simp
qed

lemma counted_after: "counted es \<Longrightarrow> 0 \<le> k \<Longrightarrow> filter (\<lambda>e. evOffset e > k) es = drop (nat k) es"
proof (induction es rule: rev_induct)
  case (snoc e es)
  then have "counted es" "evOffset e = 1 + int (length es)" by (auto simp: counted_snoc)
  with snoc show ?case by auto
qed simp

lemma events_after_counted:
  assumes "counted (run_log rid rt)" "0 \<le> k"
  shows "events_after rid k (rtStore rt) = drop (nat k) (run_log rid rt)"
proof -
  have "filter (\<lambda>e. evOffset e > k) (run_log rid rt) = drop (nat k) (run_log rid rt)"
    using assms by (rule counted_after)
  moreover have "sort_key evOffset (drop (nat k) (run_log rid rt)) = drop (nat k) (run_log rid rt)"
    using counted_sorted [OF assms(1)]
    by (metis sorted_sort_key drop_map sorted_wrt_drop sort_key_id_if_sorted)
  ultimately show ?thesis by (simp add: events_after_def run_log_def)
qed

text \<open>The events of one run: written while it holds the lock, and after it has settled.\<close>

definition logs :: "id \<Rightarrow> id \<Rightarrow> event \<Rightarrow> bool" where
  "logs sess rid e = (evSessionID e = sess \<and> evRunID e = rid \<and> \<not> is_content_kind (evKind e))"

lemma append_locked:
  assumes "logs sess rid e" "mget (rtRuns rt) sess = Some rs" "counted (run_log rid rt)"
    "rtOffset rs = int (length (run_log rid rt))"
  shows "counted (run_log rid (rt_append_event now e rt)) \<and>
    length (run_log rid (rt_append_event now e rt)) = Suc (length (run_log rid rt)) \<and>
    (\<exists>rs'. mget (rtRuns (rt_append_event now e rt)) sess = Some rs' \<and> rtRun rs' = rtRun rs \<and>
       rtOffset rs' = int (length (run_log rid (rt_append_event now e rt))))"
  using assms
  by (simp add: logs_def rt_append_event_def Let_def append_event_def run_log_def counted_snoc)

lemma append_settled:
  assumes "logs sess rid e" "mget (rtRuns rt) sess = None" "counted (run_log rid rt)" "run_log rid rt \<noteq> []"
  shows "counted (run_log rid (rt_append_event now e rt)) \<and>
    length (run_log rid (rt_append_event now e rt)) = Suc (length (run_log rid rt)) \<and>
    mget (rtRuns (rt_append_event now e rt)) sess = None"
proof -
  have "evOffset (last (run_log rid rt)) = int (length (run_log rid rt))"
    using counted_nth [OF assms(3), of "length (run_log rid rt) - 1"] assms(4)
    by (simp add: last_conv_nth) (metis One_nat_def Suc_pred length_greater_0_conv of_nat_Suc add.commute)
  then show ?thesis
    using assms events_after_counted [OF assms(3), of 0]
    by (simp add: logs_def rt_append_event_def Let_def append_event_def counted_snoc)
       (simp add: run_log_def counted_snoc)
qed

lemma append_run_locked:
  assumes "\<forall>e \<in> set es. logs sess rid e" "mget (rtRuns rt) sess = Some rs" "counted (run_log rid rt)"
    "rtOffset rs = int (length (run_log rid rt))"
  shows "counted (run_log rid (fold (rt_append_event now) es rt)) \<and>
    length (run_log rid (fold (rt_append_event now) es rt)) = length (run_log rid rt) + length es \<and>
    (\<exists>rs'. mget (rtRuns (fold (rt_append_event now) es rt)) sess = Some rs' \<and> rtRun rs' = rtRun rs)"
  using assms
proof (induction es arbitrary: rt rs)
  case (Cons e es)
  from Cons.prems append_locked [of sess rid e rt rs now] obtain rs' where
    a: "counted (run_log rid (rt_append_event now e rt))"
    "length (run_log rid (rt_append_event now e rt)) = Suc (length (run_log rid rt))"
    "mget (rtRuns (rt_append_event now e rt)) sess = Some rs'" "rtRun rs' = rtRun rs"
    "rtOffset rs' = int (length (run_log rid (rt_append_event now e rt)))" by auto
  from Cons.IH [OF _ a(3,1,5)] Cons.prems(1) a show ?case by auto
qed simp

lemma append_run_settled:
  assumes "\<forall>e \<in> set es. logs sess rid e" "mget (rtRuns rt) sess = None" "counted (run_log rid rt)"
    "run_log rid rt \<noteq> []"
  shows "counted (run_log rid (fold (rt_append_event now) es rt)) \<and>
    length (run_log rid (fold (rt_append_event now) es rt)) = length (run_log rid rt) + length es"
  using assms
proof (induction es arbitrary: rt)
  case (Cons e es)
  note a = append_settled [of sess rid e rt now]
  from Cons.prems a have "run_log rid (rt_append_event now e rt) \<noteq> []" by auto
  with Cons a show ?case by auto
qed simp

lemma complete_ok:
  assumes "mget (rtRuns rt) sess = Some rs" "runID (rtRun rs) = rid" "status_terminal st"
  shows "fst (complete_run_for_run now sess rid st rt) = None"
    "mget (rtRuns (snd (complete_run_for_run now sess rid st rt))) sess = None"
    "run_log r (snd (complete_run_for_run now sess rid st rt)) = run_log r rt"
  using assms
  by (simp_all add: complete_run_for_run_def run_log_def update_run_status_def modify_run_def split: option.split)

subsection \<open>Recovery\<close>

definition index_ok :: "mem_store \<Rightarrow> bool" where
  "index_ok m =
     (keyed runID (msRuns m) \<and>
      (\<forall>s. \<forall>i \<in> set (mlist (msBySess m) s). \<exists>r. mget (msRuns m) i = Some r \<and> runSessionID r = s) \<and>
      (\<forall>i r. mget (msRuns m) i = Some r \<longrightarrow> i \<in> set (mlist (msBySess m) (runSessionID r))))"

lemma fail_stranded_get:
  "mget (msRuns (snd (fail_stranded_runs now m))) i =
     map_option (\<lambda>r. if is_stranded r then set_status RunFailed now r else r) (mget (msRuns m) i)"
  by (simp add: fail_stranded_runs_def mget_map)

lemma fail_stranded_none_active: "active_run sess (snd (fail_stranded_runs now m)) = None"
proof -
  have "\<not> status_active (runStatus r)" if "r \<in> set (runs_for_session sess (snd (fail_stranded_runs now m)))" for r
  proof -
    from that obtain i r' where "mget (msRuns m) i = Some r'"
      "r = (if is_stranded r' then set_status RunFailed now r' else r')"
      by (auto simp: set_runs_for_session fail_stranded_get)
    then show ?thesis by (cases "is_stranded r'") (simp_all add: is_stranded_active)
  qed
  then show ?thesis by (simp add: find_map_filter_active)
qed

subsection \<open>Properties\<close>

text \<open>C36: a run that holds its session's lock with nothing logged yet logs at least one lifecycle
  event, settles, and logs more events while its worker unwinds, no other run of the session being
  started in between: its events are logged under the offsets 1, 2, 3 and so on without a break, and
  a replay from any offset returns exactly the events after it, in order. (Once a newer run has taken
  the lock, a late event is numbered by that run's counter: stale_event_takes_newer_offset.)\<close>
theorem replay_exact:
  assumes "mget (rtRuns rt) sess = Some rs" "runID (rtRun rs) = rid" "rtOffset rs = 0" "run_log rid rt = []"
    and "\<forall>e \<in> set (es @ late). logs sess rid e" "es \<noteq> []" "status_terminal st" "0 \<le> k"
    and "rt1 = fold (rt_append_event now) es rt" "rt2 = snd (complete_run_for_run now sess rid st rt1)"
      "rt3 = fold (rt_append_event now) late rt2"
  shows "map evOffset (run_log rid rt3) = map (\<lambda>i. 1 + int i) [0..<length es + length late] \<and>
    events_after rid k (rtStore rt3) = drop (nat k) (run_log rid rt3)"
proof -
  have c0: "counted (run_log rid rt)" using assms(4) by (simp add: counted_def)
  obtain rs1 where 1: "counted (run_log rid rt1)" "length (run_log rid rt1) = length es"
    "mget (rtRuns rt1) sess = Some rs1" "rtRun rs1 = rtRun rs"
    using append_run_locked [of es sess rid rt rs now] assms c0 by auto
  note c = complete_ok [OF 1(3), where rid = rid and st = st and now = now]
  have 2: "mget (rtRuns rt2) sess = None" "run_log rid rt2 = run_log rid rt1"
    using c 1(4) assms(2,7,10) by auto
  have "run_log rid rt2 \<noteq> []" using 2(2) 1(2) assms(6) by auto
  then have 3: "counted (run_log rid rt3)" "length (run_log rid rt3) = length es + length late"
    using append_run_settled [of late sess rid rt2 now] assms(5,11) 1(1,2) 2 by auto
  then show ?thesis
    using events_after_counted [OF 3(1) assms(8)] by (simp add: counted_def)
qed

definition sample_event :: "event_kind \<Rightarrow> event" where
  "sample_event k = \<lparr>evRunID = ''r'', evSessionID = ''a'', evOffset = 0, evKind = k, evPayload = ''null'',
     evCreatedAt = 0\<rparr>"

definition sample_runtime :: runtime where
  "sample_runtime = snd (start_run ''r'' 9 ''a'' (new_runtime sample_store))"

lemma sample_runtime_facts:
  "mget (rtRuns sample_runtime) ''a'' = Some \<lparr>rtRun = \<lparr>runID = ''r'', runSessionID = ''a'', runSeq = 1,
     runStatus = RunRunning, runCreatedAt = 9, runFinishedAt = None, runTeamID = '''', runModel = '''',
     runUsage = None\<rparr>, rtOffset = 0, rtCancel = None\<rparr>"
  "run_log ''r'' sample_runtime = []"
  by code_simp+

lemma replay_exact_witness:
  "map evKind (events_after ''r'' 1 (rtStore (fold (rt_append_event 9) [sample_event KindCancelled]
     (snd (complete_run_for_run 9 ''a'' ''r'' RunCancelled
       (fold (rt_append_event 9) [sample_event KindRunning] sample_runtime)))))) = [KindCancelled]"
proof -
  let ?rt1 = "fold (rt_append_event 9) [sample_event KindRunning] sample_runtime"
  let ?rt3 = "fold (rt_append_event 9) [sample_event KindCancelled]
    (snd (complete_run_for_run 9 ''a'' ''r'' RunCancelled ?rt1))"
  have l: "\<forall>e \<in> set ([sample_event KindRunning] @ [sample_event KindCancelled]). logs ''a'' ''r'' e"
    by (simp add: logs_def sample_event_def is_content_kind_def)
  have "map evKind (run_log ''r'' ?rt3) = [KindRunning, KindCancelled]" by code_simp
  moreover have "events_after ''r'' 1 (rtStore ?rt3) = drop (nat 1) (run_log ''r'' ?rt3)"
    using replay_exact [OF sample_runtime_facts(1) _ _ sample_runtime_facts(2) l, of RunCancelled 1] by simp
  ultimately show ?thesis by (simp add: drop_map [symmetric])
qed

text \<open>
  The proviso matters: when the first event of a run arrives after the run has settled, it keeps
  the offset the caller passed (zero), and no replay from the start returns it; so does the next.
\<close>

lemma first_late_event_not_replayed:
  assumes "mget (rtRuns rt) sess = None" "run_log rid rt = []" "logs sess rid e" "evOffset e = 0"
  shows "events_after rid 0 (rtStore (rt_append_event now e rt)) = [] \<and>
    map evOffset (run_log rid (rt_append_event now e rt)) = [0]"
  using assms
  by (simp add: logs_def rt_append_event_def Let_def append_event_def run_log_def events_after_def)

text \<open>
  An event of a run that has lost the lock to a newer run of the session is numbered by the
  newer run's counter, and moves it.
\<close>

lemma stale_event_takes_newer_offset:
  assumes "mget (rtRuns rt) sess = Some rs" "evSessionID e = sess" "\<not> is_content_kind (evKind e)"
    "evRunID e \<noteq> runID (rtRun rs)"
  shows "evOffset (last (run_log (evRunID e) (rt_append_event now e rt))) = rtOffset rs + 1 \<and>
    (\<exists>rs'. mget (rtRuns (rt_append_event now e rt)) sess = Some rs' \<and> rtOffset rs' = rtOffset rs + 1)"
  using assms by (simp add: rt_append_event_def Let_def append_event_def run_log_def)

text \<open>A completion by the worker of a run that no longer holds the session's lock (a newer run took
  it) changes nothing: neither the newer run's lock nor any run's status, nor the live stream.\<close>
theorem stale_completion_is_noop:
  assumes "\<forall>rs. mget (rtRuns rt) sess = Some rs \<longrightarrow> runID (rtRun rs) \<noteq> rid" "status_terminal st"
  shows "complete_run_for_run now sess rid st rt = (Some ErrNoActiveRun, rt)"
  using assms by (auto simp: complete_run_for_run_def split: option.split)

lemma stale_completion_is_noop_witness:
  "complete_run_for_run 9 ''a'' ''old'' RunCancelled sample_runtime = (Some ErrNoActiveRun, sample_runtime)"
  by (rule stale_completion_is_noop) (simp_all add: sample_runtime_facts)

text \<open>After startup recovery no session has an active run, every run that was queued or running is
  failed with a finish time, every other run is as it was, and the count returned is the number
  of runs failed.\<close>
theorem recovery_settles_stranded:
  assumes "keyed runID (msRuns (rtStore rt))"
  shows "active_run sess (rtStore (snd (recover_stranded_runs now rt))) = None \<and>
    (\<forall>i r. mget (msRuns (rtStore rt)) i = Some r \<longrightarrow>
       mget (msRuns (rtStore (snd (recover_stranded_runs now rt)))) i =
         Some (if status_active (runStatus r) then r\<lparr>runStatus := RunFailed, runFinishedAt := Some now\<rparr> else r)) \<and>
    fst (fst (recover_stranded_runs now rt)) =
      card {i. \<exists>r. mget (msRuns (rtStore rt)) i = Some r \<and> status_active (runStatus r)}"
proof -
  let ?m = "rtStore rt"
  let ?f = "filter (\<lambda>r. status_active (runStatus r)) (mvals (msRuns ?m))"
  have st: "rtStore (snd (recover_stranded_runs now rt)) = snd (fail_stranded_runs now ?m)"
    "fst (fst (recover_stranded_runs now rt)) = length ?f"
    by (simp_all add: recover_stranded_runs_def Let_def split_beta fail_stranded_runs_def is_stranded_active
        cong: filter_cong)
  have "{i. \<exists>r. mget (msRuns ?m) i = Some r \<and> status_active (runStatus r)} = set (map runID ?f)"
    using keyed_get [OF assms] by (auto simp: image_iff)
  moreover have "distinct (map runID ?f)"
    by (intro distinct_map_filter keyed_distinct assms)
  ultimately have "card {i. \<exists>r. mget (msRuns ?m) i = Some r \<and> status_active (runStatus r)} = length ?f"
    using distinct_card [of "map runID ?f"] by (simp only: length_map)
  then show ?thesis
    by (simp add: st fail_stranded_none_active fail_stranded_get is_stranded_active set_status_def)
qed

lemma recovery_settles_stranded_witness:
  "active_run ''a'' (rtStore (snd (recover_stranded_runs 20 sample_runtime))) = None"
proof -
  have "keyed runID (msRuns (rtStore sample_runtime))"
    by (simp add: keyed_def mok_def) code_simp
  from recovery_settles_stranded [OF this] show ?thesis by blast
qed

end
