(* ===== verification/RuntimeSteps.thy ===== *)
theory RuntimeSteps
  imports Runtime
begin

section \<open>Starting and completing runs concurrently\<close>

text \<open>
  \<open>StartRun\<close> of \<open>internal/session/runtime.go\<close> in small steps. Several processes, each with its
  own lock map, share one store; each start looks at its process's lock, then at the store, then
  creates the run, marks it running and takes the lock, and other starts and completions may run
  in between. \<open>backstop\<close> says whether the store refuses a second active run of a session (the
  partial unique index of the Postgres schema does, the in-memory store does not).
\<close>

subsection \<open>The interface of a run store\<close>

text \<open>
  What the argument needs of a store: the runs it holds by id, that creation adds one queued run
  under a fresh id, that a status update changes the status of that run only, and that the
  active-run query finds an active run of the session if there is one.
\<close>

locale run_store =
  fixes lookup :: "'s \<Rightarrow> id \<Rightarrow> run option"
    and create :: "id \<Rightarrow> time \<Rightarrow> id \<Rightarrow> nat \<Rightarrow> 's \<Rightarrow> run \<times> 's"
    and update :: "id \<Rightarrow> run_status \<Rightarrow> time \<Rightarrow> 's \<Rightarrow> 's"
    and active :: "id \<Rightarrow> 's \<Rightarrow> run option"
    and wf :: "'s \<Rightarrow> bool"
  assumes lookup_create: "lookup (snd (create f t s q st)) j =
      (if j = f then Some (fst (create f t s q st)) else lookup st j)"
    and created: "runID (fst (create f t s q st)) = f" "runSessionID (fst (create f t s q st)) = s"
      "runStatus (fst (create f t s q st)) = RunQueued"
    and lookup_update: "lookup (update i stat t st) j =
      (if j = i then map_option (set_status stat t) (lookup st i) else lookup st j)"
    and active_None: "wf st \<Longrightarrow> active s st = None \<longleftrightarrow>
      (\<forall>i r. lookup st i = Some r \<longrightarrow> runSessionID r = s \<longrightarrow> \<not> status_active (runStatus r))"
    and wf_create: "wf st \<Longrightarrow> lookup st f = None \<Longrightarrow> wf (snd (create f t s q st))"
    and wf_update: "wf st \<Longrightarrow> wf (update i stat t st)"
begin

definition holds :: "'s \<Rightarrow> id \<Rightarrow> id \<Rightarrow> bool" where
  "holds st s i = (\<exists>r. lookup st i = Some r \<and> runSessionID r = s \<and> status_active (runStatus r))"

definition single :: "'s \<Rightarrow> bool" where
  "single st = (\<forall>s i j. holds st s i \<longrightarrow> holds st s j \<longrightarrow> i = j)"

lemma active_None_holds: "wf st \<Longrightarrow> active s st = None \<longleftrightarrow> (\<forall>i. \<not> holds st s i)"
  by (auto simp: active_None holds_def)

lemma holds_create:
  "lookup st f = None \<Longrightarrow>
     holds (snd (create f t s q st)) s' i = (if i = f then s' = s else holds st s' i)"
  by (auto simp: holds_def lookup_create created)

lemma holds_update:
  "holds (update i stat t st) s j =
     (if j = i then (\<exists>r. lookup st i = Some r \<and> runSessionID r = s \<and> status_active stat) else holds st s j)"
  by (auto simp: holds_def lookup_update)

lemma single_create:
  "wf st \<Longrightarrow> single st \<Longrightarrow> active s st = None \<Longrightarrow> lookup st f = None \<Longrightarrow>
     single (snd (create f t s q st))"
  by (auto simp: single_def holds_create active_None_holds split: if_splits)

lemma single_settle: "single st \<Longrightarrow> \<not> status_active stat \<Longrightarrow> single (update i stat t st)"
  by (auto simp: single_def holds_update)

lemma single_activate:
  assumes "single st" "holds st s i"
  shows "single (update i stat t st)"
proof -
  have "holds st s' j" if h: "holds (update i stat t st) s' j" for s' j
  proof (cases "j = i")
    case True
    with h obtain r where "lookup st i = Some r" "runSessionID r = s'"
      by (auto simp: holds_update)
    with assms(2) True show ?thesis by (auto simp: holds_def)
  next
    case False
    with h show ?thesis by (simp add: holds_update)
  qed
  with assms(1) show ?thesis unfolding single_def by blast
qed

end

definition find_run :: "mem_store \<Rightarrow> id \<Rightarrow> run option" where
  "find_run m i = mget (msRuns m) i"

lemma active_run_None:
  assumes "index_ok m"
  shows "active_run s m = None \<longleftrightarrow>
    (\<forall>i r. find_run m i = Some r \<longrightarrow> runSessionID r = s \<longrightarrow> \<not> status_active (runStatus r))"
  using assms unfolding find_map_filter_active set_runs_for_session index_ok_def find_run_def
  by (auto; metis option.inject)

lemma index_ok_create:
  assumes "index_ok m" "find_run m f = None"
  shows "index_ok (snd (create_run f t s q m))"
  using assms
  by (auto simp: index_ok_def create_run_def Let_def find_run_def; fastforce)

lemma index_ok_update: "index_ok m \<Longrightarrow> index_ok (update_run_status i stat t m)"
proof -
  assume ok: "index_ok m"
  show ?thesis
  proof (cases "mget (msRuns m) i")
    case None
    with ok show ?thesis by (simp add: update_run_status_def modify_run_def)
  next
    case (Some r)
    then have "runID r = i"
      using ok keyed_get [of runID "msRuns m" i r] by (simp add: index_ok_def)
    with ok Some show ?thesis
      unfolding index_ok_def update_run_status_def modify_run_def
      by (auto; metis option.inject)
  qed
qed

interpretation rs: run_store find_run create_run update_run_status active_run index_ok
proof (unfold_locales, goal_cases)
  case (1 f t s q st j)
  show ?case by (simp add: find_run_def create_run_def Let_def)
next
  case (5 i stat t st j)
  show ?case by (simp add: find_run_def update_run_status_def modify_run_def split: option.split)
next
  case (6 st s)
  then show ?case by (rule active_run_None)
next
  case (7 st f t s q)
  then show ?case by (rule index_ok_create)
next
  case (8 st i stat t)
  then show ?case by (rule index_ok_update)
qed (simp_all add: create_run_def Let_def)

subsection \<open>The step relation\<close>

datatype start_pc =
    PcStart
  | PcLocalFree \<comment> \<open>the process's lock map had no run of the session\<close>
  | PcStoreFree nat \<comment> \<open>the store had no active run; the sequence number read\<close>
  | PcCreated id
  | PcRunning id
  | PcStarted id
  | PcRefused

record starter =
  thProc :: nat
  thSess :: id
  thPc :: start_pc

record world =
  wStore :: mem_store
  wLocks :: "nat \<Rightarrow> (id, id) gomap" \<comment> \<open>the run id of each process's \<open>runState\<close> per session\<close>
  wSettling :: "(id \<times> run_status) list" \<comment> \<open>completed runs whose status is not written yet\<close>
  wStarts :: "starter list"

definition set_pc :: "nat \<Rightarrow> start_pc \<Rightarrow> world \<Rightarrow> world" where
  "set_pc k pc w = w\<lparr>wStarts := (wStarts w)[k := (wStarts w ! k)\<lparr>thPc := pc\<rparr>]\<rparr>"

definition at_pc :: "nat \<Rightarrow> start_pc \<Rightarrow> world \<Rightarrow> bool" where
  "at_pc k pc w = (k < length (wStarts w) \<and> thPc (wStarts w ! k) = pc)"

abbreviation th_sess :: "nat \<Rightarrow> world \<Rightarrow> id" where
  "th_sess k w \<equiv> thSess (wStarts w ! k)"

abbreviation th_locks :: "nat \<Rightarrow> world \<Rightarrow> (id, id) gomap" where
  "th_locks k w \<equiv> wLocks w (thProc (wStarts w ! k))"

inductive start_step :: "bool \<Rightarrow> world \<Rightarrow> world \<Rightarrow> bool" for backstop :: bool where
  LocalFree: "at_pc k PcStart w \<Longrightarrow> mget (th_locks k w) (th_sess k w) = None \<Longrightarrow>
    get_session (th_sess k w) (wStore w) = Inr s \<Longrightarrow> sStatus s \<noteq> SessionEnded \<Longrightarrow>
    start_step backstop w (set_pc k PcLocalFree w)"
| LocalHeld: "at_pc k PcStart w \<Longrightarrow> mget (th_locks k w) (th_sess k w) \<noteq> None \<Longrightarrow>
    start_step backstop w (set_pc k PcRefused w)"
| StoreFree: "at_pc k PcLocalFree w \<Longrightarrow> active_run (th_sess k w) (wStore w) = None \<Longrightarrow>
    start_step backstop w (set_pc k (PcStoreFree (next_run_seq (th_sess k w) (wStore w))) w)"
| StoreHeld: "at_pc k PcLocalFree w \<Longrightarrow> active_run (th_sess k w) (wStore w) \<noteq> None \<Longrightarrow>
    start_step backstop w (set_pc k PcRefused w)"
| Create: "at_pc k (PcStoreFree q) w \<Longrightarrow> find_run (wStore w) f = None \<Longrightarrow>
    (backstop \<longrightarrow> active_run (th_sess k w) (wStore w) = None) \<Longrightarrow>
    start_step backstop w
      (set_pc k (PcCreated f) (w\<lparr>wStore := snd (create_run f now (th_sess k w) q (wStore w))\<rparr>))"
| Conflict: "at_pc k (PcStoreFree q) w \<Longrightarrow> backstop \<Longrightarrow> active_run (th_sess k w) (wStore w) \<noteq> None \<Longrightarrow>
    start_step backstop w (set_pc k PcRefused w)"
| MarkRunning: "at_pc k (PcCreated f) w \<Longrightarrow>
    start_step backstop w
      (set_pc k (PcRunning f) (w\<lparr>wStore := update_run_status f RunRunning now (wStore w)\<rparr>))"
| TakeLock: "at_pc k (PcRunning f) w \<Longrightarrow>
    start_step backstop w
      (set_pc k (PcStarted f)
        (w\<lparr>wLocks := (wLocks w)(thProc (wStarts w ! k) := mput (th_sess k w) f (th_locks k w))\<rparr>))"
| Release: "mget (wLocks w p) s = Some f \<Longrightarrow> status_terminal st \<Longrightarrow>
    start_step backstop w
      (w\<lparr>wLocks := (wLocks w)(p := mdel s (wLocks w p)), wSettling := (f, st) # wSettling w\<rparr>)"
| Settle: "(f, st) \<in> set (wSettling w) \<Longrightarrow>
    start_step backstop w
      (w\<lparr>wSettling := remove1 (f, st) (wSettling w), wStore := update_run_status f st now (wStore w)\<rparr>)"

inductive_cases start_stepE: "start_step backstop w w'"

definition start_world :: "mem_store \<Rightarrow> (nat \<times> id) list \<Rightarrow> world" where
  "start_world m starts = \<lparr>wStore = m, wLocks = (\<lambda>_. []), wSettling = [],
     wStarts = map (\<lambda>(p, s). \<lparr>thProc = p, thSess = s, thPc = PcStart\<rparr>) starts\<rparr>"

subsection \<open>The invariant\<close>

text \<open>A run that is created but not yet marked running is queued and known to its starter only.\<close>

definition known :: "world \<Rightarrow> id set" where
  "known w = {f. \<exists>p s. mget (wLocks w p) s = Some f} \<union> fst ` set (wSettling w)
     \<union> {f. \<exists>k. at_pc k (PcRunning f) w}"

definition starts_inv :: "world \<Rightarrow> bool" where
  "starts_inv w =
     (index_ok (wStore w) \<and> rs.single (wStore w) \<and>
      (\<forall>k f. at_pc k (PcCreated f) w \<longrightarrow>
         rs.holds (wStore w) (th_sess k w) f \<and> f \<notin> known w \<and> (\<forall>j. at_pc j (PcCreated f) w \<longrightarrow> j = k)) \<and>
      (\<forall>f \<in> known w. find_run (wStore w) f \<noteq> None) \<and>
      (\<forall>(f, st) \<in> set (wSettling w). status_terminal st))"

lemma terminal_not_active: "status_terminal st \<Longrightarrow> \<not> status_active st"
  by (cases st) auto

lemma at_pc_set: "at_pc j pc (set_pc k pc' w) = (if j = k then k < length (wStarts w) \<and> pc = pc' else at_pc j pc w)"
  by (auto simp: at_pc_def set_pc_def nth_list_update)

lemma set_pc_sel [simp]:
  "wStore (set_pc k pc w) = wStore w" "wLocks (set_pc k pc w) = wLocks w"
  "wSettling (set_pc k pc w) = wSettling w"
  by (simp_all add: set_pc_def)

lemma th_sess_set [simp]: "th_sess j (set_pc k pc w) = th_sess j w"
  by (cases "j = k"; cases "k < length (wStarts w)") (auto simp: set_pc_def list_update_beyond)

lemma at_pc_upd [simp]:
  "at_pc k pc (w\<lparr>wStore := m\<rparr>) = at_pc k pc w"
  "at_pc k pc (w\<lparr>wSettling := y\<rparr>) = at_pc k pc w"
  "at_pc k pc (w\<lparr>wLocks := l\<rparr>) = at_pc k pc w"
  "at_pc k pc (w\<lparr>wLocks := l, wSettling := x\<rparr>) = at_pc k pc w"
  "at_pc k pc (w\<lparr>wStore := m, wSettling := x\<rparr>) = at_pc k pc w"
  by (simp_all add: at_pc_def)

text \<open>
  A step keeps the invariant when the store it leaves keeps the runs, stays single and keeps the
  created runs that remain, and no new run becomes known except the one just marked running.
\<close>

lemma starts_invI:
  assumes "index_ok (wStore w)" "rs.single (wStore w)"
    and "\<And>k f. at_pc k (PcCreated f) w \<Longrightarrow> rs.holds (wStore w) (th_sess k w) f"
    and "\<And>k f. at_pc k (PcCreated f) w \<Longrightarrow> f \<notin> known w"
    and "\<And>k j f. at_pc k (PcCreated f) w \<Longrightarrow> at_pc j (PcCreated f) w \<Longrightarrow> j = k"
    and "\<And>f. f \<in> known w \<Longrightarrow> find_run (wStore w) f \<noteq> None"
    and "\<And>f st. (f, st) \<in> set (wSettling w) \<Longrightarrow> status_terminal st"
  shows "starts_inv w"
  using assms unfolding starts_inv_def by blast

lemma starts_invD:
  assumes "starts_inv w"
  shows "index_ok (wStore w)" "rs.single (wStore w)"
    and "at_pc k (PcCreated f) w \<Longrightarrow> rs.holds (wStore w) (th_sess k w) f"
    and "at_pc k (PcCreated f) w \<Longrightarrow> f \<notin> known w"
    and "at_pc k (PcCreated f) w \<Longrightarrow> at_pc j (PcCreated f) w \<Longrightarrow> j = k"
    and "f \<in> known w \<Longrightarrow> find_run (wStore w) f \<noteq> None"
    and "(f, st) \<in> set (wSettling w) \<Longrightarrow> status_terminal st"
  using assms unfolding starts_inv_def by blast+

definition idle_pc :: "start_pc \<Rightarrow> bool" where
  "idle_pc pc = (case pc of PcCreated _ \<Rightarrow> False | PcRunning _ \<Rightarrow> False | _ \<Rightarrow> True)"

lemma inv_idle:
  assumes "starts_inv w" "at_pc k pc0 w" "idle_pc pc0" "idle_pc pc"
  shows "starts_inv (set_pc k pc w)"
proof -
  have c: "at_pc j (PcCreated f) (set_pc k pc w) \<longleftrightarrow> at_pc j (PcCreated f) w"
    "at_pc j (PcRunning f) (set_pc k pc w) \<longleftrightarrow> at_pc j (PcRunning f) w" for j f
    using assms(2-4) by (auto simp: at_pc_set idle_pc_def) (auto simp: at_pc_def)
  then have k: "known (set_pc k pc w) = known w" by (simp add: known_def)
  show ?thesis
    using assms(1) by (intro starts_invI) (simp_all add: c k starts_invD)
qed

lemma inv_create:
  assumes inv: "starts_inv w" and pc: "at_pc k (PcStoreFree q) w" and f: "find_run (wStore w) f = None"
    and free: "active_run (th_sess k w) (wStore w) = None"
  shows "starts_inv (set_pc k (PcCreated f) (w\<lparr>wStore := snd (create_run f now (th_sess k w) q (wStore w))\<rparr>))"
    (is "starts_inv ?w")
proof -
  let ?m = "snd (create_run f now (th_sess k w) q (wStore w))"
  have other: "at_pc j (PcCreated g) ?w \<longleftrightarrow> (if j = k then g = f else at_pc j (PcCreated g) w)"
    "at_pc j (PcRunning g) ?w \<longleftrightarrow> at_pc j (PcRunning g) w" for j g
    using pc by (auto simp: at_pc_set) (auto simp: at_pc_def)
  then have kn: "known ?w = known w" by (simp add: known_def)
  have fresh: "f \<notin> known w" using starts_invD(6) [OF inv, of f] f by blast
  have old: "\<not> at_pc j (PcCreated f) w" for j
    using starts_invD(3) [OF inv, of j f] f by (auto simp: rs.holds_def)
  show ?thesis
  proof (rule starts_invI, goal_cases)
    case 1
    show ?case using starts_invD(1) [OF inv] f by (simp add: index_ok_create)
  next
    case 2
    show ?case using starts_invD(1,2) [OF inv] f free by (simp add: rs.single_create)
  next
    case (3 j g)
    then show ?case
      using starts_invD(3) [OF inv] f old by (auto simp: other rs.holds_create split: if_splits)
  next
    case (4 j g)
    then show ?case using starts_invD(4) [OF inv] fresh by (auto simp: other kn split: if_splits)
  next
    case (5 i j g)
    then show ?case using starts_invD(5) [OF inv] old by (auto simp: other split: if_splits)
  next
    case (6 g)
    then show ?case using starts_invD(6) [OF inv] by (auto simp: kn rs.lookup_create)
  next
    case (7 g st)
    then show ?case using starts_invD(7) [OF inv] by simp
  qed
qed

lemma inv_mark:
  assumes inv: "starts_inv w" and pc: "at_pc k (PcCreated f) w"
  shows "starts_inv (set_pc k (PcRunning f) (w\<lparr>wStore := update_run_status f RunRunning now (wStore w)\<rparr>))"
    (is "starts_inv ?w")
proof -
  have other: "at_pc j (PcCreated g) ?w \<longleftrightarrow> j \<noteq> k \<and> at_pc j (PcCreated g) w"
    "at_pc j (PcRunning g) ?w \<longleftrightarrow> (j = k \<and> g = f) \<or> at_pc j (PcRunning g) w" for j g
    using pc by (auto simp: at_pc_set) (auto simp: at_pc_def)
  then have kn: "known ?w = insert f (known w)" by (auto simp: known_def)
  have ne: "\<not> at_pc j (PcCreated f) w" if "j \<noteq> k" for j
    using starts_invD(5) [OF inv pc] that by blast
  note h = starts_invD(3) [OF inv pc]
  show ?thesis
  proof (rule starts_invI, goal_cases)
    case 1
    show ?case using starts_invD(1) [OF inv] by (simp add: index_ok_update)
  next
    case 2
    show ?case using rs.single_activate [OF starts_invD(2) [OF inv] h] by simp
  next
    case (3 j g)
    then show ?case using starts_invD(3) [OF inv] ne by (auto simp: other rs.holds_update)
  next
    case (4 j g)
    then show ?case using starts_invD(4) [OF inv] ne by (auto simp: other kn)
  next
    case (5 i j g)
    then show ?case using starts_invD(5) [OF inv] by (auto simp: other)
  next
    case (6 g)
    then show ?case using starts_invD(6) [OF inv] h by (auto simp: kn rs.lookup_update rs.holds_def)
  next
    case (7 g st)
    then show ?case using starts_invD(7) [OF inv] by simp
  qed
qed

lemma inv_fewer_known:
  assumes inv: "starts_inv w" and "wStore w' = wStore w"
    and "\<And>j g. at_pc j (PcCreated g) w' \<longleftrightarrow> at_pc j (PcCreated g) w" "\<And>j. th_sess j w' = th_sess j w"
    and "known w' \<subseteq> known w" "\<And>f st. (f, st) \<in> set (wSettling w') \<Longrightarrow> status_terminal st"
  shows "starts_inv w'"
  using assms(2-) starts_invD [OF inv] by (intro starts_invI) (auto simp: subset_iff)

lemma inv_settle:
  assumes inv: "starts_inv w" and f: "(f, st) \<in> set (wSettling w)"
  shows "starts_inv (w\<lparr>wSettling := remove1 (f, st) (wSettling w), wStore := update_run_status f st now (wStore w)\<rparr>)"
    (is "starts_inv ?w")
proof -
  have at: "at_pc j pc ?w = at_pc j pc w" for j pc by (simp add: at_pc_def)
  have "set (remove1 (f, st) (wSettling w)) \<subseteq> set (wSettling w)" by (rule set_remove1_subset)
  then have kn: "known ?w \<subseteq> known w" by (auto simp: known_def at)
  have fk: "f \<in> known w" using f by (force simp: known_def)
  have t: "\<not> status_active st" using starts_invD(7) [OF inv f] by (rule terminal_not_active)
  show ?thesis
  proof (rule starts_invI, goal_cases)
    case 1
    show ?case using starts_invD(1) [OF inv] by (simp add: index_ok_update)
  next
    case 2
    show ?case using rs.single_settle [OF starts_invD(2) [OF inv] t] by simp
  next
    case (3 j g)
    then have "at_pc j (PcCreated g) w" by (simp add: at)
    with starts_invD(3,4) [OF inv] fk show ?case by (auto simp: rs.holds_update)
  next
    case (4 j g)
    then show ?case using starts_invD(4) [OF inv] kn by (auto simp: at)
  next
    case (5 i j g)
    then show ?case using starts_invD(5) [OF inv] by (auto simp: at)
  next
    case (6 g)
    then show ?case using starts_invD(6) [OF inv] kn by (auto simp: rs.lookup_update)
  next
    case (7 g st')
    then show ?case using starts_invD(7) [OF inv] by (auto dest: notin_set_remove1)
  qed
qed

lemma starts_inv_step: "start_step True w w' \<Longrightarrow> starts_inv w \<Longrightarrow> starts_inv w'"
proof (induction rule: start_step.induct)
  case (LocalFree k w s)
  then show ?case by (intro inv_idle) (auto simp: idle_pc_def)
next
  case (LocalHeld k w)
  then show ?case by (intro inv_idle) (auto simp: idle_pc_def)
next
  case (StoreFree k w)
  then show ?case by (intro inv_idle) (auto simp: idle_pc_def)
next
  case (StoreHeld k w)
  then show ?case by (intro inv_idle) (auto simp: idle_pc_def)
next
  case (Create k q w f now)
  then show ?case by (intro inv_create) auto
next
  case (Conflict k q w)
  then show ?case by (intro inv_idle) (auto simp: idle_pc_def)
next
  case (MarkRunning k f w now)
  then show ?case by (intro inv_mark)
next
  case (TakeLock k f w)
  let ?w = "w\<lparr>wLocks := (wLocks w)(thProc (wStarts w ! k) := mput (th_sess k w) f (th_locks k w))\<rparr>"
  show ?case
  proof (rule inv_fewer_known [OF TakeLock(2)])
    fix j g show "at_pc j (PcCreated g) (set_pc k (PcStarted f) ?w) = at_pc j (PcCreated g) w"
      using TakeLock(1) by (auto simp: at_pc_set) (auto simp: at_pc_def)
  next
    have "f \<in> known w" using TakeLock(1) by (auto simp: known_def)
    then show "known (set_pc k (PcStarted f) ?w) \<subseteq> known w"
      by (auto simp: known_def at_pc_set split: if_splits)
  next
    fix g st assume "(g, st) \<in> set (wSettling (set_pc k (PcStarted f) ?w))"
    then show "status_terminal st" using starts_invD(7) [OF TakeLock(2)] by simp
  qed simp_all
next
  case (Release w p s f st)
  show ?case
  proof (rule inv_fewer_known [OF Release(3)])
    have "f \<in> known w" using Release(1) by (auto simp: known_def)
    then show "known (w\<lparr>wLocks := (wLocks w)(p := mdel s (wLocks w p)), wSettling := (f, st) # wSettling w\<rparr>)
        \<subseteq> known w"
      by (auto simp: known_def split: if_splits)
  next
    fix g st' assume "(g, st') \<in> set (wSettling
      (w\<lparr>wLocks := (wLocks w)(p := mdel s (wLocks w p)), wSettling := (f, st) # wSettling w\<rparr>))"
    then show "status_terminal st'" using starts_invD(7) [OF Release(3)] Release(2) by auto
  qed simp_all
next
  case (Settle f st w now)
  then show ?case by (intro inv_settle)
qed

lemma starts_inv_steps: "(start_step True)\<^sup>*\<^sup>* w w' \<Longrightarrow> starts_inv w \<Longrightarrow> starts_inv w'"
  by (induction rule: rtranclp_induct) (auto intro: starts_inv_step)

lemma starts_inv_world: "index_ok m \<Longrightarrow> rs.single m \<Longrightarrow> starts_inv (start_world m starts)"
  by (rule starts_invI)
     (auto simp: start_world_def at_pc_def known_def split: prod.splits)

subsection \<open>Runs of the relation\<close>

lemma set_pc_set_pc [simp]: "set_pc k a (set_pc k b w) = set_pc k a w"
  by (cases "k < length (wStarts w)") (simp_all add: set_pc_def list_update_beyond)

lemma check_steps:
  assumes "at_pc k PcStart w" "mget (th_locks k w) (th_sess k w) = None"
    "get_session (th_sess k w) (wStore w) = Inr s" "sStatus s \<noteq> SessionEnded"
    "active_run (th_sess k w) (wStore w) = None"
  shows "(start_step b)\<^sup>*\<^sup>* w (set_pc k (PcStoreFree (next_run_seq (th_sess k w) (wStore w))) w)"
proof -
  have 1: "start_step b w (set_pc k PcLocalFree w)"
    using assms(1-4) by (rule start_step.LocalFree)
  have "at_pc k PcLocalFree (set_pc k PcLocalFree w)"
    using assms(1) by (simp add: at_pc_set) (simp add: at_pc_def)
  then have "start_step b (set_pc k PcLocalFree w)
      (set_pc k (PcStoreFree (next_run_seq (th_sess k (set_pc k PcLocalFree w)) (wStore (set_pc k PcLocalFree w))))
        (set_pc k PcLocalFree w))"
    by (rule start_step.StoreFree) (use assms(5) in simp)
  then have "start_step b (set_pc k PcLocalFree w)
      (set_pc k (PcStoreFree (next_run_seq (th_sess k w) (wStore w))) w)"
    by simp
  with 1 show ?thesis by (meson converse_rtranclp_into_rtranclp r_into_rtranclp)
qed

definition race_world :: world where
  "race_world = start_world sample_store [(0, ''a''), (1, ''a'')]"

definition race_checked :: world where
  "race_checked = set_pc 1 (PcStoreFree 1) (set_pc 0 (PcStoreFree 1) race_world)"

definition race_one :: world where
  "race_one = set_pc 0 (PcCreated ''x'')
     (race_checked\<lparr>wStore := snd (create_run ''x'' 9 ''a'' 1 (wStore race_checked))\<rparr>)"

definition race_two :: world where
  "race_two = set_pc 1 (PcCreated ''y'') (race_one\<lparr>wStore := snd (create_run ''y'' 9 ''a'' 1 (wStore race_one))\<rparr>)"

lemma race_checked_reached: "(start_step b)\<^sup>*\<^sup>* race_world race_checked"
proof -
  have g: "get_session ''a'' sample_store = Inr (the (mget (msSessions sample_store) ''a''))"
    and st: "sStatus (the (mget (msSessions sample_store) ''a'')) \<noteq> SessionEnded"
    and n: "active_run ''a'' sample_store = None" "next_run_seq ''a'' sample_store = 1"
    by code_simp+
  let ?w = "set_pc 0 (PcStoreFree 1) race_world"
  have w0: "wStore race_world = sample_store" "th_sess 0 race_world = ''a''" "th_sess 1 race_world = ''a''"
    "th_locks 0 race_world = []" "at_pc 0 PcStart race_world" "at_pc 1 PcStart race_world"
    "\<And>p. wLocks race_world p = []"
    by (simp_all add: race_world_def start_world_def at_pc_def)
  have 1: "(start_step b)\<^sup>*\<^sup>* race_world ?w"
    using check_steps [of 0 race_world _ b] w0 g st n by simp
  have "(start_step b)\<^sup>*\<^sup>* ?w (set_pc 1 (PcStoreFree (next_run_seq (th_sess 1 ?w) (wStore ?w))) ?w)"
    by (rule check_steps) (use w0 g st n in \<open>simp_all add: at_pc_set\<close>)
  then have "(start_step b)\<^sup>*\<^sup>* ?w race_checked"
    using w0 n by (simp add: race_checked_def)
  with 1 show ?thesis by (rule rtranclp_trans)
qed

lemma race_one_step: "start_step b race_checked race_one"
proof -
  have f: "wStore race_checked = sample_store" "th_sess 0 race_checked = ''a''"
    "at_pc 0 (PcStoreFree 1) race_checked"
    by (simp_all add: race_checked_def race_world_def start_world_def at_pc_set)
  have n: "active_run ''a'' sample_store = None" "find_run sample_store ''x'' = None" by code_simp+
  show ?thesis
    unfolding race_one_def
    using start_step.Create [OF f(3), of "''x''" b 9] f n by simp
qed

text \<open>Without the backstop (the in-memory store has none) the race is real.\<close>

lemma race_two_step: "start_step False race_one race_two"
proof -
  have f: "th_sess 1 race_one = ''a''" "at_pc 1 (PcStoreFree 1) race_one"
    by (simp_all add: race_one_def race_checked_def race_world_def start_world_def at_pc_set)
      (simp_all add: set_pc_def)
  have n: "find_run (wStore race_one) ''y'' = None" by code_simp
  show ?thesis
    unfolding race_two_def
    using start_step.Create [OF f(2), of "''y''" False 9] f n by simp
qed

lemma two_active_without_backstop:
  "(start_step False)\<^sup>*\<^sup>* race_world race_two \<and>
   rs.holds (wStore race_two) ''a'' ''x'' \<and> rs.holds (wStore race_two) ''a'' ''y''"
proof (intro conjI)
  show "(start_step False)\<^sup>*\<^sup>* race_world race_two"
    using race_checked_reached race_one_step race_two_step by (meson rtranclp.rtrancl_into_rtrancl)
  show "rs.holds (wStore race_two) ''a'' ''x''" "rs.holds (wStore race_two) ''a'' ''y''"
    by (simp_all add: rs.holds_def race_two_def race_one_def find_run_def create_run_def Let_def)
qed

subsection \<open>Properties\<close>

text \<open>C31: over a store whose unique index refuses a second active run of a session, however many
  processes start and complete runs of it and however their steps interleave, no session ever has
  two active runs, though the check and the creation of a run are not one critical section.\<close>
theorem single_active_run:
  assumes "index_ok m" "rs.single m" "(start_step True)\<^sup>*\<^sup>* (start_world m starts) w"
  shows "\<forall>i j r q. find_run (wStore w) i = Some r \<longrightarrow> find_run (wStore w) j = Some q \<longrightarrow>
    runSessionID r = runSessionID q \<longrightarrow> status_active (runStatus r) \<longrightarrow> status_active (runStatus q) \<longrightarrow> i = j"
proof -
  have "starts_inv w"
    using assms(3) starts_inv_world [OF assms(1,2)] by (rule starts_inv_steps)
  from starts_invD(2) [OF this] show ?thesis
    unfolding rs.single_def rs.holds_def by metis
qed

lemma sample_store_index: "index_ok sample_store" "rs.single sample_store"
proof -
  have "msRuns sample_store = []" "msBySess sample_store = []" by code_simp+
  then show "index_ok sample_store" "rs.single sample_store"
    by (simp_all add: index_ok_def rs.single_def rs.holds_def find_run_def)
qed

lemma single_active_run_witness:
  "{j. \<exists>q. find_run (wStore race_one) j = Some q \<and> runSessionID q = ''a'' \<and> status_active (runStatus q)} = {''x''}"
proof -
  have "(start_step True)\<^sup>*\<^sup>* race_world race_one"
    using race_checked_reached race_one_step by (meson rtranclp.rtrancl_into_rtrancl)
  then have r: "(start_step True)\<^sup>*\<^sup>* (start_world sample_store [(0, ''a''), (1, ''a'')]) race_one"
    by (simp add: race_world_def)
  obtain x where x: "find_run (wStore race_one) ''x'' = Some x" "runSessionID x = ''a''"
    "status_active (runStatus x)"
    by (simp add: race_one_def find_run_def create_run_def Let_def)
  note one = single_active_run [OF sample_store_index r]
  show ?thesis (is "?S = _")
  proof
    show "{''x''} \<subseteq> ?S" using x by simp
    show "?S \<subseteq> {''x''}"
    proof
      fix j
      assume "j \<in> ?S"
      then obtain q where q: "find_run (wStore race_one) j = Some q" "runSessionID q = ''a''"
        "status_active (runStatus q)" by blast
      have "''x'' = j"
        using one [rule_format, of "''x''" x j q] x q by (simp only: simp_thms)
      then show "j \<in> {''x''}" by (rule subst) (rule singletonI)
    qed
  qed
qed

end
