(* ===== verification/Schema.thy ===== *)
theory Schema
  imports Provider
begin

section \<open>The JSON-schema screen of tool arguments and client output\<close>

text \<open>
  \<open>internal/toolruntime/schema.go\<close>. A schema is a decoded JSON object; Go-native literals in
  it (\<open>int\<close>, \<open>[]string\<close>) are taken in the form \<open>normalizeJSON\<close> gives them, so the
  normalisation is the identity here. \<open>None\<close> is acceptance, \<open>Some\<close> the error text. The loops
  over an object's fields and an array's elements are \<open>validate_props\<close> and
  \<open>validate_items\<close>. The regular-expression engine is an argument: a pattern either does not
  compile or has a matcher.
\<close>

type_synonym regex_engine = "string \<Rightarrow> (string \<Rightarrow> bool) option"

subsection \<open>The code\<close>

definition to_number :: "json option \<Rightarrow> (int \<times> int) option" where
  "to_number x = (case x of Some (JNum m e) \<Rightarrow> Some (m, e) | _ \<Rightarrow> None)"

definition to_string_slice :: "json option \<Rightarrow> string list" where
  "to_string_slice x =
     (case x of Some (JArr xs) \<Rightarrow> List.map_filter (\<lambda>v. case v of JStr s \<Rightarrow> Some s | _ \<Rightarrow> None) xs
      | _ \<Rightarrow> [])"

definition enum_values :: "json option \<Rightarrow> json list" where
  "enum_values x = (case x of Some (JArr xs) \<Rightarrow> xs | _ \<Rightarrow> [])"

definition in_enum :: "json list \<Rightarrow> json \<Rightarrow> bool" where
  "in_enum enum v = list_ex (\<lambda>e. json_equal e v) enum"

definition str_field :: "json option \<Rightarrow> string" where
  "str_field x = (case x of Some (JStr s) \<Rightarrow> s | _ \<Rightarrow> '''')"

definition bool_field :: "json option \<Rightarrow> bool" where
  "bool_field x = (case x of Some (JBool b) \<Rightarrow> b | _ \<Rightarrow> False)"

definition obj_field :: "json option \<Rightarrow> jobj option" where
  "obj_field x = (case x of Some (JObj m) \<Rightarrow> Some m | _ \<Rightarrow> None)"

definition fmt_f :: "int \<times> int \<Rightarrow> string" where
  "fmt_f f = fmt_v (JNum (fst f) (snd f))"

text \<open>One test of \<open>validateRange\<close> and of the length checks: a bound that is present and violated.\<close>

definition bound_fails :: "(int \<times> int) option \<Rightarrow> (int \<times> int \<Rightarrow> bool) \<Rightarrow> bool" where
  "bound_fails b bad = (case b of None \<Rightarrow> False | Some x \<Rightarrow> bad x)"

definition validate_range :: "jobj \<Rightarrow> int \<times> int \<Rightarrow> string \<Rightarrow> string option" where
  "validate_range schema f path =
     (let lo = to_number (jget schema ''minimum''); hi = to_number (jget schema ''maximum'');
          xlo = to_number (jget schema ''exclusiveMinimum'');
          xhi = to_number (jget schema ''exclusiveMaximum'')
      in if bound_fails lo (\<lambda>b. num_less f b)
         then Some (path @ '': '' @ fmt_f f @ '' below minimum '' @ fmt_f (the lo))
         else if bound_fails hi (\<lambda>b. num_less b f)
         then Some (path @ '': '' @ fmt_f f @ '' above maximum '' @ fmt_f (the hi))
         else if bound_fails xlo (\<lambda>b. num_le f b)
         then Some (path @ '': '' @ fmt_f f @ '' not above exclusiveMinimum '' @ fmt_f (the xlo))
         else if bound_fails xhi (\<lambda>b. num_le b f)
         then Some (path @ '': '' @ fmt_f f @ '' not below exclusiveMaximum '' @ fmt_f (the xhi))
         else None)"

text \<open>The case of a string value.\<close>

definition validate_string :: "regex_engine \<Rightarrow> jobj \<Rightarrow> string \<Rightarrow> string \<Rightarrow> string option" where
  "validate_string re schema s path =
     (let n = (int (rune_count s), 0); lo = to_number (jget schema ''minLength'');
          hi = to_number (jget schema ''maxLength'')
      in if bound_fails lo (\<lambda>b. num_less n b)
         then Some (path @ '': string length '' @ fmt_f n @ '' below minLength '' @ fmt_f (the lo))
         else if bound_fails hi (\<lambda>b. num_less b n)
         then Some (path @ '': string length '' @ fmt_f n @ '' above maxLength '' @ fmt_f (the hi))
         else (case jget schema ''pattern'' of
                 Some (JStr p) \<Rightarrow>
                   (case re p of
                      None \<Rightarrow> None
                    | Some match \<Rightarrow>
                        if match s then None
                        else Some (path @ '': string '' @ fmt_q s @ '' does not match pattern '' @ fmt_q p))
               | _ \<Rightarrow> None))"

text \<open>The size checks of an array.\<close>

definition validate_size :: "jobj \<Rightarrow> nat \<Rightarrow> string \<Rightarrow> string option" where
  "validate_size schema len path =
     (let n = (int len, 0); lo = to_number (jget schema ''minItems'');
          hi = to_number (jget schema ''maxItems'')
      in if bound_fails lo (\<lambda>b. num_less n b)
         then Some (path @ '': array length '' @ itoa (int len) @ '' below minItems '' @ fmt_f (the lo))
         else if bound_fails hi (\<lambda>b. num_less b n)
         then Some (path @ '': array length '' @ itoa (int len) @ '' above maxItems '' @ fmt_f (the hi))
         else None)"

definition missing_required :: "jobj \<Rightarrow> jobj \<Rightarrow> string option" where
  "missing_required schema obj =
     find (\<lambda>req. jget obj req = None) (to_string_slice (jget schema ''required''))"

text \<open>The \<open>const\<close> and \<open>enum\<close> checks every node starts with.\<close>

definition const_enum :: "jobj \<Rightarrow> json \<Rightarrow> string \<Rightarrow> string option" where
  "const_enum schema v path =
     (case jget schema ''const'' of
        Some c \<Rightarrow>
          if \<not> json_equal c v
          then Some (path @ '': value '' @ fmt_v v @ '' does not equal const '' @ fmt_v c)
          else if enum_values (jget schema ''enum'') \<noteq> [] \<and> \<not> in_enum (enum_values (jget schema ''enum'')) v
          then Some (path @ '': value '' @ fmt_v v @ '' not in enum'') else None
      | None \<Rightarrow>
          if enum_values (jget schema ''enum'') \<noteq> [] \<and> \<not> in_enum (enum_values (jget schema ''enum'')) v
          then Some (path @ '': value '' @ fmt_v v @ '' not in enum'') else None)"

definition want :: "string \<Rightarrow> string \<Rightarrow> string \<Rightarrow> string option" where
  "want path t got = Some (path @ '': want '' @ t @ '', got '' @ got)"

function (sequential) validate :: "regex_engine \<Rightarrow> jobj option \<Rightarrow> json \<Rightarrow> string \<Rightarrow> string option"
  and validate_props :: "regex_engine \<Rightarrow> jobj option \<Rightarrow> bool \<Rightarrow> (string \<times> json) list \<Rightarrow> string \<Rightarrow> string option"
  and validate_items :: "regex_engine \<Rightarrow> jobj \<Rightarrow> nat \<Rightarrow> json list \<Rightarrow> string \<Rightarrow> string option" where
  "validate re None v path = None"
| "validate re (Some schema) v path =
     (case const_enum schema v path of
        Some e \<Rightarrow> Some e
      | None \<Rightarrow>
          (let typ = str_field (jget schema ''type'') in
           if typ = '''' then None
           else if typ = ''object'' then
             (case v of
                JObj obj \<Rightarrow>
                  (case missing_required schema obj of
                     Some req \<Rightarrow> Some (path @ '': missing required property '' @ fmt_q req)
                   | None \<Rightarrow>
                       validate_props re (obj_field (jget schema ''properties''))
                         (bool_field (jget schema ''additionalProperties'')) obj path)
              | _ \<Rightarrow> want path ''object'' (fmt_T v))
           else if typ = ''array'' then
             (case v of
                JArr arr \<Rightarrow>
                  (case validate_size schema (length arr) path of
                     Some e \<Rightarrow> Some e
                   | None \<Rightarrow>
                       (case obj_field (jget schema ''items'') of
                          None \<Rightarrow> None
                        | Some items \<Rightarrow> validate_items re items 0 arr path))
              | _ \<Rightarrow> want path ''array'' (fmt_T v))
           else if typ = ''string'' then
             (case v of JStr s \<Rightarrow> validate_string re schema s path
              | _ \<Rightarrow> want path ''string'' (fmt_T v))
           else if typ = ''boolean'' then
             (case v of JBool b \<Rightarrow> None | _ \<Rightarrow> want path ''boolean'' (fmt_T v))
           else if typ = ''integer'' then
             (case v of
                JNum m e \<Rightarrow> if num_integral (m, e) then validate_range schema (m, e) path
                  else want path ''integer'' (fmt_v v)
              | _ \<Rightarrow> want path ''integer'' (fmt_v v))
           else if typ = ''number'' then
             (case v of JNum m e \<Rightarrow> validate_range schema (m, e) path
              | _ \<Rightarrow> want path ''number'' (fmt_T v))
           else if typ = ''null'' then
             (case v of JNull \<Rightarrow> None | _ \<Rightarrow> want path ''null'' (fmt_T v))
           else Some (path @ '': unsupported schema type '' @ fmt_q typ)))"
| "validate_props re props addl [] path = None"
| "validate_props re props addl ((k, v) # kvs) path =
     (case (case props of None \<Rightarrow> None | Some ps \<Rightarrow> jget ps k) of
        None \<Rightarrow>
          if props \<noteq> None \<and> \<not> addl
          then Some (path @ '': unexpected property '' @ fmt_q k)
          else validate_props re props addl kvs path
      | Some sub \<Rightarrow>
          (case obj_field (Some sub) of
             None \<Rightarrow> validate_props re props addl kvs path
           | Some sch \<Rightarrow>
               (case validate re (Some sch) v (path @ ''.'' @ k) of
                  Some e \<Rightarrow> Some e
                | None \<Rightarrow> validate_props re props addl kvs path)))"
| "validate_items re items i [] path = None"
| "validate_items re items i (v # vs) path =
     (case validate re (Some items) v (path @ ''['' @ itoa (int i) @ '']'') of
        Some e \<Rightarrow> Some e
      | None \<Rightarrow> validate_items re items (Suc i) vs path)"
  by pat_completeness auto
termination
  by (relation "measure (\<lambda>x. case x of Inl (re, s, v, p) \<Rightarrow> size v
       | Inr (Inl (re, ps, a, kvs, p)) \<Rightarrow> size_list (size_prod (\<lambda>_. 0) size) kvs
       | Inr (Inr (re, it, i, vs, p)) \<Rightarrow> size_list size vs)") auto

definition validate_output :: "regex_engine \<Rightarrow> jargs \<Rightarrow> json \<Rightarrow> string option" where
  "validate_output re schema v = validate re schema v ''$''"

definition validate_args :: "regex_engine \<Rightarrow> jargs \<Rightarrow> jargs \<Rightarrow> string option" where
  "validate_args re schema args =
     validate re schema (JObj (case args of None \<Rightarrow> [] | Some m \<Rightarrow> m)) ''$''"

subsection \<open>The verdict does not depend on the path or on the order of the fields\<close>

definition const_ok :: "jobj \<Rightarrow> json \<Rightarrow> bool" where
  "const_ok schema v =
     ((case jget schema ''const'' of None \<Rightarrow> True | Some c \<Rightarrow> json_equal c v) \<and>
      (enum_values (jget schema ''enum'') = [] \<or> in_enum (enum_values (jget schema ''enum'')) v))"

lemma const_enum_None: "const_enum schema v path = None \<longleftrightarrow> const_ok schema v"
  by (auto simp: const_enum_def const_ok_def split: option.splits)

definition range_ok :: "jobj \<Rightarrow> int \<times> int \<Rightarrow> bool" where
  "range_ok schema f =
     (\<not> bound_fails (to_number (jget schema ''minimum'')) (\<lambda>b. num_less f b) \<and>
      \<not> bound_fails (to_number (jget schema ''maximum'')) (\<lambda>b. num_less b f) \<and>
      \<not> bound_fails (to_number (jget schema ''exclusiveMinimum'')) (\<lambda>b. num_le f b) \<and>
      \<not> bound_fails (to_number (jget schema ''exclusiveMaximum'')) (\<lambda>b. num_le b f))"

lemma validate_range_None: "validate_range schema f path = None \<longleftrightarrow> range_ok schema f"
  by (simp add: validate_range_def range_ok_def Let_def)

lemma validate_string_path:
  "validate_string re schema s p = None \<longleftrightarrow> validate_string re schema s q = None"
  by (simp add: validate_string_def Let_def split: option.splits json.splits)

lemma validate_size_path: "validate_size schema n p = None \<longleftrightarrow> validate_size schema n q = None"
  by (simp add: validate_size_def Let_def)

lemma want_not_None [simp]: "(want p t g = None) = False"
  by (simp add: want_def)

lemma option_case_None:
  "(case x of None \<Rightarrow> None | Some e \<Rightarrow> Some (f e)) = None \<longleftrightarrow> x = None"
  by (simp split: option.split)

definition sub_schema :: "jobj option \<Rightarrow> string \<Rightarrow> json option" where
  "sub_schema props k = (case props of None \<Rightarrow> None | Some ps \<Rightarrow> jget ps k)"

text \<open>What one field of an object must satisfy.\<close>

definition field_ok :: "regex_engine \<Rightarrow> jobj option \<Rightarrow> bool \<Rightarrow> string \<Rightarrow> json \<Rightarrow> bool" where
  "field_ok re props addl k v =
     (case sub_schema props k of
        None \<Rightarrow> props = None \<or> addl
      | Some sub \<Rightarrow> validate re (obj_field (Some sub)) v ''$'' = None)"

lemma validate_cases:
  "validate re (Some schema) v path = None \<longleftrightarrow>
     const_ok schema v \<and>
     (let typ = str_field (jget schema ''type'') in
      typ = '''' \<or>
      typ = ''object'' \<and> (\<exists>obj. v = JObj obj \<and> missing_required schema obj = None \<and>
        validate_props re (obj_field (jget schema ''properties''))
          (bool_field (jget schema ''additionalProperties'')) obj path = None) \<or>
      typ = ''array'' \<and> (\<exists>arr. v = JArr arr \<and> validate_size schema (length arr) path = None \<and>
        (\<forall>items. obj_field (jget schema ''items'') = Some items \<longrightarrow>
           validate_items re items 0 arr path = None)) \<or>
      typ = ''string'' \<and> (\<exists>s. v = JStr s \<and> validate_string re schema s path = None) \<or>
      typ = ''boolean'' \<and> (\<exists>b. v = JBool b) \<or>
      typ = ''integer'' \<and> (\<exists>m e. v = JNum m e \<and> num_integral (m, e) \<and> range_ok schema (m, e)) \<or>
      typ = ''number'' \<and> (\<exists>m e. v = JNum m e \<and> range_ok schema (m, e)) \<or>
      typ = ''null'' \<and> v = JNull)"
proof (cases "const_ok schema v")
  case False
  then obtain e where "const_enum schema v path = Some e"
    using const_enum_None by fastforce
  with False show ?thesis by simp
next
  case True
  then have "const_enum schema v path = None" by (simp add: const_enum_None)
  with True show ?thesis
    by (cases v) (auto simp: Let_def validate_range_None option_case_None want_def split: option.split)
qed

declare validate.simps(2) [simp del]

definition path_free :: "json \<Rightarrow> bool" where
  "path_free v = (\<forall>re s p q. (validate re s v p = None) = (validate re s v q = None))"

lemma validate_None_schema [simp]: "validate re None v p = None"
  by simp

lemma validate_props_aux:
  "\<forall>kv \<in> set kvs. path_free (snd kv) \<Longrightarrow>
     (validate_props re props addl kvs p = None) = (\<forall>kv \<in> set kvs. field_ok re props addl (fst kv) (snd kv))"
proof (induction kvs)
  case (Cons kv kvs)
  obtain k v where kv: "kv = (k, v)" by (cases kv)
  have pf: "(validate re sch v q = None) = (validate re sch v ''$'' = None)" for sch q
    using Cons.prems kv by (auto simp: path_free_def)
  show ?case
  proof (cases "sub_schema props k")
    case None
    with kv have "(validate_props re props addl (kv # kvs) p = None) =
        ((props = None \<or> addl) \<and> validate_props re props addl kvs p = None)"
      by (simp add: sub_schema_def split: option.splits)
    with Cons kv None show ?thesis by (auto simp: field_ok_def)
  next
    case (Some sub)
    show ?thesis
    proof (cases "obj_field (Some sub)")
      case None
      with Some kv have "(validate_props re props addl (kv # kvs) p = None) =
          (validate_props re props addl kvs p = None)"
        by (simp add: sub_schema_def split: option.splits)
      with Cons kv Some None show ?thesis by (auto simp: field_ok_def)
    next
      case sch: (Some sch)
      have "(validate_props re props addl (kv # kvs) p = None) =
          (validate re (Some sch) v (p @ ''.'' @ k) = None \<and> validate_props re props addl kvs p = None)"
        using Some sch kv by (simp add: sub_schema_def split: option.splits)
      with Cons kv Some sch pf show ?thesis by (auto simp: field_ok_def)
    qed
  qed
qed simp

lemma validate_items_aux:
  "\<forall>v \<in> set vs. path_free v \<Longrightarrow>
     (validate_items re it i vs p = None) = (\<forall>v \<in> set vs. validate re (Some it) v ''$'' = None)"
proof (induction vs arbitrary: i)
  case (Cons v vs)
  have "(validate_items re it i (v # vs) p = None) =
      (validate re (Some it) v (p @ ''['' @ itoa (int i) @ '']'') = None \<and>
       validate_items re it (Suc i) vs p = None)"
    by (simp split: option.splits)
  moreover have "(validate re (Some it) v (p @ ''['' @ itoa (int i) @ '']'') = None) =
      (validate re (Some it) v ''$'' = None)"
    using Cons.prems unfolding path_free_def by (meson list.set_intros(1))
  ultimately show ?case using Cons by simp
qed simp

lemma validate_path_free: "path_free v"
proof (induction v)
  case (JArr vs)
  then have i: "(validate_items re it i vs p = None) = (validate_items re it i vs q = None)" for re it i p q
    by (simp add: validate_items_aux)
  have "(validate re (Some sch) (JArr vs) p = None) = (validate re (Some sch) (JArr vs) q = None)"
    for re sch p q
    using i [of re _ 0 p q] validate_size_path [of sch "length vs" p q]
    by (simp add: validate_cases Let_def)
  then show ?case by (simp add: path_free_def) (metis not_Some_eq validate_None_schema)
next
  case (JObj kvs)
  then have "\<forall>kv \<in> set kvs. path_free (snd kv)" by (auto simp: snds.simps)
  then have i: "(validate_props re ps a kvs p = None) = (validate_props re ps a kvs q = None)" for re ps a p q
    by (simp add: validate_props_aux)
  have "(validate re (Some sch) (JObj kvs) p = None) = (validate re (Some sch) (JObj kvs) q = None)"
    for re sch p q
    using i [of re _ _ p q] by (simp add: validate_cases Let_def)
  then show ?case by (simp add: path_free_def) (metis not_Some_eq validate_None_schema)
next
  case (JStr s)
  have "(validate re (Some sch) (JStr s) p = None) = (validate re (Some sch) (JStr s) q = None)"
    for re sch p q
    using validate_string_path [of re sch s p q] by (simp add: validate_cases Let_def)
  then show ?case by (simp add: path_free_def) (metis not_Some_eq validate_None_schema)
next
  case (JNum m e)
  show ?case unfolding path_free_def
  proof (intro allI)
    fix re s p q show "(validate re s (JNum m e) p = None) = (validate re s (JNum m e) q = None)"
      by (cases s) (simp_all add: validate_cases Let_def)
  qed
next
  case JNull
  show ?case unfolding path_free_def
  proof (intro allI)
    fix re s p q show "(validate re s JNull p = None) = (validate re s JNull q = None)"
      by (cases s) (simp_all add: validate_cases Let_def)
  qed
next
  case (JBool b)
  show ?case unfolding path_free_def
  proof (intro allI)
    fix re s p q show "(validate re s (JBool b) p = None) = (validate re s (JBool b) q = None)"
      by (cases s) (simp_all add: validate_cases Let_def)
  qed
qed

lemma validate_props_iff:
  "(validate_props re props addl kvs p = None) = (\<forall>kv \<in> set kvs. field_ok re props addl (fst kv) (snd kv))"
  by (simp add: validate_props_aux validate_path_free)

lemma validate_items_iff:
  "(validate_items re it i vs p = None) = (\<forall>v \<in> set vs. validate re (Some it) v ''$'' = None)"
  by (simp add: validate_items_aux validate_path_free)

lemma missing_required_None:
  "missing_required schema obj = None \<longleftrightarrow>
     (\<forall>req \<in> set (to_string_slice (jget schema ''required'')). jget obj req \<noteq> None)"
  by (auto simp: missing_required_def find_None_iff)

lemma validate_args_object_iff:
  assumes "jget schema ''type'' = Some (JStr ''object'')"
  shows "validate_args re (Some schema) (Some args) = None \<longleftrightarrow>
    const_ok schema (JObj args) \<and>
    (\<forall>req \<in> set (to_string_slice (jget schema ''required'')). jget args req \<noteq> None) \<and>
    (\<forall>(k, v) \<in> set args.
       case sub_schema (obj_field (jget schema ''properties'')) k of
         None \<Rightarrow> obj_field (jget schema ''properties'') = None \<or>
                 bool_field (jget schema ''additionalProperties'')
       | Some sub \<Rightarrow> validate_output re (obj_field (Some sub)) v = None)"
  using assms
  by (simp add: validate_args_def validate_cases Let_def str_field_def
      missing_required_None validate_props_iff field_ok_def split_beta validate_output_def
      cong: option.case_cong)

subsection \<open>Properties\<close>

text \<open>For an object schema the argument screen accepts exactly the objects that carry every
  required property, no undeclared one unless additional properties are allowed, and under every
  declared one a value its own schema accepts, beside the node's const and enum; in whatever
  order the fields are ranged over.\<close>
theorem validate_args_object:
  assumes "jget schema ''type'' = Some (JStr ''object'')"
  shows "validate_args re (Some schema) (Some args) = None \<longleftrightarrow>
    const_ok schema (JObj args) \<and>
    (\<forall>req \<in> set (to_string_slice (jget schema ''required'')). jget args req \<noteq> None) \<and>
    (\<forall>(k, v) \<in> set args.
       case sub_schema (obj_field (jget schema ''properties'')) k of
         None \<Rightarrow> obj_field (jget schema ''properties'') = None \<or>
                 bool_field (jget schema ''additionalProperties'')
       | Some sub \<Rightarrow> validate_output re (obj_field (Some sub)) v = None)"
  using assms by (rule validate_args_object_iff)

definition sample_schema :: jobj where
  "sample_schema =
     [(''type'', JStr ''object''), (''required'', JArr [JStr ''path'']),
      (''properties'', JObj [(''path'', JObj [(''type'', JStr ''string''), (''minLength'', jint 1)]),
                             (''limit'', JObj [(''type'', JStr ''integer''), (''minimum'', jint 1)])])]"

lemma validate_args_object_witness:
  "validate_args (\<lambda>_. None) (Some sample_schema) (Some [(''limit'', jint 5), (''path'', JStr ''a'')]) = None \<and>
   validate_args (\<lambda>_. None) (Some sample_schema) (Some [(''limit'', jint 5)]) \<noteq> None"
proof -
  have t: "jget sample_schema ''type'' = Some (JStr ''object'')" by code_simp
  have "jget [(''limit'', jint 5)] ''path'' = None" "''path'' \<in> set (to_string_slice (jget sample_schema ''required''))"
    by code_simp+
  with validate_args_object [OF t, of "\<lambda>_. None" "[(''limit'', jint 5)]"]
  have "validate_args (\<lambda>_. None) (Some sample_schema) (Some [(''limit'', jint 5)]) \<noteq> None" by blast
  moreover have "validate_args (\<lambda>_. None) (Some sample_schema) (Some [(''limit'', jint 5), (''path'', JStr ''a'')]) = None"
    by code_simp
  ultimately show ?thesis by simp
qed

end
