(* ===== verification/Toolruntime.thy ===== *)
theory Toolruntime
  imports Schema
begin

section \<open>Tools, the registry and its concurrency cap\<close>

text \<open>
  \<open>internal/toolruntime/tool.go\<close>, \<open>registry.go\<close> and \<open>scoped.go\<close>. A tool is a record of what
  its methods return; its \<open>Call\<close> is a function from the arguments to what the call does
  (returns, fails, panics), since the tools themselves are not part of the runtime. A registry
  is a Go map from names to tools. \<open>CallAll\<close> runs the calls on goroutines behind a counting
  semaphore: \<open>call_all\<close> is its result and \<open>pool_step\<close> the interleavings by which it is
  reached.
\<close>

subsection \<open>The code\<close>

datatype risk = RiskReadOnly | RiskSandboxWrite | RiskNetwork | RiskExternalWrite | RiskOther string

record tool_result =
  trContent :: string
  trIsError :: bool
  trNested :: "block list"
  trGenerativeUI :: "gui_spec option"

definition error_result :: "string \<Rightarrow> tool_result" where
  "error_result c = \<lparr>trContent = c, trIsError = True, trNested = [], trGenerativeUI = None\<rparr>"

datatype tool_outcome = ToolReturns tool_result | ToolFails string | ToolPanics string

record tool =
  tName :: string
  tDescription :: string
  tSchema :: jargs
  tRisk :: risk
  tTimeout :: int
  tClientSide :: "bool option" \<comment> \<open>\<open>None\<close>: not a \<open>ClientTool\<close>\<close>
  tOutputSchema :: jargs
  tCall :: "jargs \<Rightarrow> tool_outcome"

definition is_client_tool :: "tool \<Rightarrow> bool" where
  "is_client_tool t = (tClientSide t = Some True)"

record call =
  cID :: string
  cName :: string
  cArgs :: jargs
  cArgsError :: string

definition defaultTimeout :: int where
  "defaultTimeout = 30 * 1000000000"

definition defaultMaxConcurrent :: nat where
  "defaultMaxConcurrent = 8"

record registry =
  rTools :: "(string, tool) gomap"
  rSem :: "nat option"

definition new_registry :: registry where
  "new_registry = \<lparr>rTools = [], rSem = Some defaultMaxConcurrent\<rparr>"

definition set_max_concurrent :: "int \<Rightarrow> registry \<Rightarrow> registry" where
  "set_max_concurrent n r = r\<lparr>rSem := (if n \<le> 0 then None else Some (nat n))\<rparr>"

definition register :: "tool \<Rightarrow> registry \<Rightarrow> registry" where
  "register t r = r\<lparr>rTools := mput (tName t) t (rTools r)\<rparr>"

definition reg_get :: "registry \<Rightarrow> string \<Rightarrow> tool option" where
  "reg_get r n = mget (rTools r) n"

definition reg_all :: "registry \<Rightarrow> tool list" where
  "reg_all r = sort_key tName (mvals (rTools r))"

definition reg_names :: "registry \<Rightarrow> string list" where
  "reg_names r = sort (mkeys (rTools r))"

definition effective_timeout :: "tool \<Rightarrow> int" where
  "effective_timeout t = (if tTimeout t = 0 then defaultTimeout else tTimeout t)"

definition unknown_tool :: "registry \<Rightarrow> string \<Rightarrow> tool_result" where
  "unknown_tool r n = error_result
     (''unknown tool: '' @ n @ '' (available tools: '' @ join '', '' (reg_names r) @ '')'')"

text \<open>
  One call. \<open>queued\<close> is the error of a context that is cancelled while the call waits for a
  slot (only consulted when there is a cap).
\<close>

definition reg_call :: "registry \<Rightarrow> string option \<Rightarrow> string \<Rightarrow> jargs \<Rightarrow> tool_result" where
  "reg_call r queued n args =
     (case reg_get r n of
        None \<Rightarrow> unknown_tool r n
      | Some t \<Rightarrow>
          (case (rSem r, queued) of
             (Some _, Some err) \<Rightarrow> error_result (''tool '' @ n @ '' failed: '' @ err)
           | _ \<Rightarrow>
               (case tCall t args of
                  ToolReturns res \<Rightarrow> res
                | ToolFails err \<Rightarrow> error_result (''tool '' @ n @ '' failed: '' @ err)
                | ToolPanics p \<Rightarrow> error_result (''tool '' @ n @ '' panicked: '' @ p))))"

definition call_all :: "registry \<Rightarrow> call list \<Rightarrow> tool_result list" where
  "call_all r calls = map (\<lambda>c. reg_call r None (cName c) (cArgs c)) calls"

definition scoped :: "registry \<Rightarrow> string list \<Rightarrow> string list \<Rightarrow> string list \<Rightarrow> registry" where
  "scoped r allow deny exclude =
     (let wildcard = (allow = [] \<or> ''*'' \<in> set allow);
          denySet = set deny \<union> set exclude
      in new_registry\<lparr>rTools :=
           filter (\<lambda>(n, t). (wildcard \<or> n \<in> set allow) \<and> n \<notin> denySet) (rTools r)\<rparr>)"

subsection \<open>The registry invariant\<close>

definition reg_ok :: "registry \<Rightarrow> bool" where
  "reg_ok r = (mok (rTools r) \<and> (\<forall>(n, t) \<in> set (rTools r). tName t = n))"

lemma reg_ok_new [simp]: "reg_ok new_registry"
  by (simp add: reg_ok_def new_registry_def)

lemma reg_ok_register [simp]: "reg_ok r \<Longrightarrow> reg_ok (register t r)"
  using mput_subset [of "tName t" t "rTools r"] by (auto simp: reg_ok_def register_def)

lemma reg_ok_set_max [simp]: "reg_ok r \<Longrightarrow> reg_ok (set_max_concurrent n r)"
  by (simp add: reg_ok_def set_max_concurrent_def)

lemma reg_ok_scoped: "reg_ok r \<Longrightarrow> reg_ok (scoped r allow deny exclude)"
  by (auto simp: reg_ok_def scoped_def new_registry_def Let_def)

lemma reg_get_name: "reg_ok r \<Longrightarrow> reg_get r n = Some t \<Longrightarrow> tName t = n"
  by (auto simp: reg_ok_def reg_get_def dest: mget_in_set)

text \<open>The sorted listing is determined by the mapping.\<close>

lemma reg_all_names: "reg_ok r \<Longrightarrow> map tName (reg_all r) = reg_names r"
proof -
  assume "reg_ok r"
  then have "map tName (mvals (rTools r)) = mkeys (rTools r)"
    by (auto simp: reg_ok_def mvals_def mkeys_def comp_def)
  moreover have "map f (sort_key f xs) = sort (map f xs)" for f :: "tool \<Rightarrow> string" and xs
    by (induction xs) (simp_all add: map_insort_key)
  ultimately show ?thesis by (simp add: reg_all_def reg_names_def)
qed

lemma reg_get_Some: "reg_ok r \<Longrightarrow> reg_get r k = Some t \<longleftrightarrow> k = tName t \<and> t \<in> set (mvals (rTools r))"
proof -
  assume ok: "reg_ok r"
  have "reg_get r k = Some t \<longleftrightarrow> (k, t) \<in> set (rTools r)"
    using ok mget_in_set [of "rTools r" k t] in_set_mget [of "rTools r" k t]
    unfolding reg_get_def reg_ok_def by blast
  also have "\<dots> \<longleftrightarrow> k = tName t \<and> t \<in> set (mvals (rTools r))"
    using ok by (force simp: reg_ok_def mvals_def)
  finally show ?thesis .
qed

lemma set_reg_all: "reg_ok r \<Longrightarrow> set (reg_all r) = {t. reg_get r (tName t) = Some t}"
  by (auto simp: reg_all_def reg_get_Some)

lemma sorted_by_key_unique:
  assumes "map f xs = map f ys" "set xs = set ys" "inj_on f (set xs)"
  shows "xs = ys"
proof (rule map_inj_on)
  show "map f xs = map f ys" by fact
  show "inj_on f (set xs \<union> set ys)" using assms by simp
qed

lemma reg_all_determined:
  assumes "reg_ok r" "reg_ok r'" "reg_get r = reg_get r'"
  shows "reg_all r = reg_all r'"
proof (rule sorted_by_key_unique [where f = tName])
  have "set (mkeys (rTools r)) = set (mkeys (rTools r'))"
    unfolding set_mkeys using assms(3) by (metis reg_get_def)
  moreover have "distinct (mkeys (rTools r))" "distinct (mkeys (rTools r'))"
    using assms(1,2) by (auto simp: reg_ok_def mok_def mkeys_def)
  ultimately have "reg_names r = reg_names r'"
    unfolding reg_names_def by (metis distinct_remdups_id sorted_list_of_set_sort_remdups)
  then show "map tName (reg_all r) = map tName (reg_all r')"
    using assms by (simp add: reg_all_names)
  show "set (reg_all r) = set (reg_all r')"
    using assms by (simp add: set_reg_all)
  show "inj_on tName (set (reg_all r))"
  proof (rule inj_onI)
    fix t u assume "t \<in> set (reg_all r)" "u \<in> set (reg_all r)" and n: "tName t = tName u"
    then have "reg_get r (tName t) = Some t" "reg_get r (tName u) = Some u"
      using assms(1) by (simp_all add: set_reg_all)
    with n show "t = u" by (metis option.inject)
  qed
qed

subsection \<open>Scoping\<close>

lemma scoped_get:
  assumes "reg_ok r"
  shows "reg_get (scoped r allow deny exclude) n =
    (if (allow = [] \<or> ''*'' \<in> set allow \<or> n \<in> set allow) \<and> n \<notin> set deny \<and> n \<notin> set exclude
     then reg_get r n else None)"
  using assms
  by (auto simp: reg_get_def scoped_def Let_def new_registry_def mget_filter reg_ok_def split: option.splits)

subsection \<open>The semaphore\<close>

text \<open>
  The goroutines of \<open>CallAll\<close>: a call waits (\<open>pQueued\<close>), takes a slot if there is one
  (\<open>Start\<close>), runs and stores its result at its own index (\<open>Finish\<close>); a context cancelled
  while it waits makes it fail in place (\<open>Refuse\<close>).
\<close>

record pool =
  pQueued :: "nat list"
  pRunning :: "nat list"
  pResults :: "tool_result option list"

definition pool_init :: "call list \<Rightarrow> pool" where
  "pool_init calls = \<lparr>pQueued = [0..<length calls], pRunning = [], pResults = replicate (length calls) None\<rparr>"

definition has_slot :: "nat option \<Rightarrow> pool \<Rightarrow> bool" where
  "has_slot cap p = (case cap of None \<Rightarrow> True | Some c \<Rightarrow> length (pRunning p) < c)"

inductive pool_step :: "registry \<Rightarrow> call list \<Rightarrow> pool \<Rightarrow> pool \<Rightarrow> bool"
  for r :: registry and calls :: "call list" where
  Start: "i \<in> set (pQueued p) \<Longrightarrow> has_slot (rSem r) p \<Longrightarrow>
    pool_step r calls p (p\<lparr>pQueued := remove1 i (pQueued p), pRunning := i # pRunning p\<rparr>)"
| Finish: "i \<in> set (pRunning p) \<Longrightarrow>
    pool_step r calls p (p\<lparr>pRunning := remove1 i (pRunning p),
      pResults := (pResults p)[i := Some (reg_call r None (cName (calls ! i)) (cArgs (calls ! i)))]\<rparr>)"
| Refuse: "i \<in> set (pQueued p) \<Longrightarrow> rSem r \<noteq> None \<Longrightarrow> reg_get r (cName (calls ! i)) \<noteq> None \<Longrightarrow>
    pool_step r calls p (p\<lparr>pQueued := remove1 i (pQueued p),
      pResults := (pResults p)[i := Some (reg_call r (Some err) (cName (calls ! i)) (cArgs (calls ! i)))]\<rparr>)"

inductive_cases pool_stepE: "pool_step r calls p q"

definition slot_result :: "registry \<Rightarrow> call \<Rightarrow> tool_result \<Rightarrow> bool" where
  "slot_result r c x = (\<exists>q. x = reg_call r q (cName c) (cArgs c))"

definition pool_inv :: "registry \<Rightarrow> call list \<Rightarrow> pool \<Rightarrow> bool" where
  "pool_inv r calls p =
     (length (pResults p) = length calls \<and>
      (\<forall>i < length calls. (case pResults p ! i of
           None \<Rightarrow> i \<in> set (pQueued p) \<union> set (pRunning p)
         | Some x \<Rightarrow> slot_result r (calls ! i) x)) \<and>
      (case rSem r of None \<Rightarrow> True | Some c \<Rightarrow> length (pRunning p) \<le> c))"

lemma pool_inv_init: "pool_inv r calls (pool_init calls)"
  by (simp add: pool_inv_def pool_init_def split: option.split)

lemma in_remove1: "x \<in> set xs \<Longrightarrow> x \<noteq> y \<Longrightarrow> x \<in> set (remove1 y xs)"
  by (induction xs) auto

lemma slot_resultI [simp]: "slot_result r c (reg_call r q (cName c) (cArgs c))"
  unfolding slot_result_def by blast

lemma remove1_sub: "set xs - {i} \<subseteq> set (remove1 i xs)"
  by (induction xs) auto

lemma pool_inv_settle:
  assumes p: "pool_inv r calls p" and x: "slot_result r (calls ! i) x"
    and q: "pResults q = (pResults p)[i := Some x]" "length (pRunning q) \<le> length (pRunning p)"
    and sub: "(set (pQueued p) \<union> set (pRunning p)) - {i} \<subseteq> set (pQueued q) \<union> set (pRunning q)"
  shows "pool_inv r calls q"
proof -
  have "case pResults q ! j of None \<Rightarrow> j \<in> set (pQueued q) \<union> set (pRunning q)
      | Some y \<Rightarrow> slot_result r (calls ! j) y" if j: "j < length calls" for j
  proof (cases "j = i")
    case True
    with p x q j show ?thesis by (simp add: pool_inv_def)
  next
    case False
    then have e: "pResults q ! j = pResults p ! j" using q by simp
    show ?thesis
    proof (cases "pResults p ! j")
      case None
      with p j have "j \<in> set (pQueued p) \<union> set (pRunning p)"
        by (auto simp: pool_inv_def split: option.splits)
      with None sub False e show ?thesis by auto
    next
      case (Some y)
      with p j e show ?thesis by (auto simp: pool_inv_def split: option.splits)
    qed
  qed
  moreover have "length (pResults q) = length calls" using p q by (simp add: pool_inv_def)
  moreover have "case rSem r of None \<Rightarrow> True | Some c \<Rightarrow> length (pRunning q) \<le> c"
    using p q(2) by (auto simp: pool_inv_def split: option.splits)
  ultimately show ?thesis by (simp add: pool_inv_def)
qed

lemma pool_inv_step: "pool_step r calls p q \<Longrightarrow> pool_inv r calls p \<Longrightarrow> pool_inv r calls q"
proof (induction rule: pool_step.induct)
  case (Start i p)
  then show ?case
    by (auto simp: pool_inv_def has_slot_def in_remove1 split: option.splits)
next
  case (Finish i p)
  show ?case
    by (rule pool_inv_settle [where p = p and i = i
          and x = "reg_call r None (cName (calls ! i)) (cArgs (calls ! i))"])
       (use Finish remove1_sub [of "pRunning p" i] in \<open>auto simp: length_remove1\<close>)
next
  case (Refuse i p err)
  show ?case
    by (rule pool_inv_settle [where p = p and i = i
          and x = "reg_call r (Some err) (cName (calls ! i)) (cArgs (calls ! i))"])
       (use Refuse remove1_sub [of "pQueued p" i] in auto)
qed

lemma pool_inv_steps: "(pool_step r calls)\<^sup>*\<^sup>* p q \<Longrightarrow> pool_inv r calls p \<Longrightarrow> pool_inv r calls q"
  by (induction rule: rtranclp_induct) (auto intro: pool_inv_step)

subsection \<open>Properties\<close>

text \<open>The tool listing sent to the model is sorted by name without duplicates, holds exactly the
  registered tools, and is the same list for two registries that map the same names to the same
  tools, whatever order their maps are ranged over in: the serialized prefix is stable.\<close>
theorem tool_listing_stable:
  assumes "reg_ok r" "reg_ok r'" "reg_get r = reg_get r'"
  shows "reg_all r = reg_all r' \<and> map tName (reg_all r) = reg_names r \<and>
    sorted (reg_names r) \<and> distinct (reg_names r) \<and>
    set (reg_all r) = {t. reg_get r (tName t) = Some t}"
proof -
  have "sorted (reg_names r)" "distinct (reg_names r)"
    using assms(1) by (simp_all add: reg_names_def reg_ok_def mok_def mkeys_def)
  with reg_all_names [OF assms(1)] set_reg_all [OF assms(1)] reg_all_determined [OF assms]
  show ?thesis by simp
qed

definition sample_tool :: "string \<Rightarrow> tool" where
  "sample_tool n = \<lparr>tName = n, tDescription = '''', tSchema = Some sample_schema, tRisk = RiskReadOnly,
     tTimeout = 0, tClientSide = None, tOutputSchema = None,
     tCall = (\<lambda>a. ToolReturns \<lparr>trContent = n, trIsError = False, trNested = [], trGenerativeUI = None\<rparr>)\<rparr>"

lemma tool_listing_stable_witness:
  "reg_all (register (sample_tool ''b'') (register (sample_tool ''a'') new_registry)) =
   reg_all (register (sample_tool ''a'') (register (sample_tool ''b'') new_registry))"
proof -
  have "reg_get (register (sample_tool ''b'') (register (sample_tool ''a'') new_registry)) =
      reg_get (register (sample_tool ''a'') (register (sample_tool ''b'') new_registry))"
    by (simp add: reg_get_def register_def new_registry_def sample_tool_def fun_eq_iff)
  from conjunct1 [OF tool_listing_stable [OF _ _ this]] show ?thesis by simp
qed

text \<open>However the calls of a batch are interleaved, never more of them run than the registry's cap
  allows, and once all have finished there is one result per call, at the call's own index, equal
  to that of dispatching the call alone (or to its refusal when the context was cancelled while
  it waited); a tool that fails or panics yields an error result.\<close>
theorem batch_dispatch_bounded:
  assumes "(pool_step r calls)\<^sup>*\<^sup>* (pool_init calls) p"
  shows "(\<forall>c. rSem r = Some c \<longrightarrow> length (pRunning p) \<le> c) \<and>
    (pQueued p = [] \<and> pRunning p = [] \<longrightarrow>
       length (pResults p) = length calls \<and>
       (\<forall>i < length calls. \<exists>q. pResults p ! i = Some (reg_call r q (cName (calls ! i)) (cArgs (calls ! i)))))"
proof -
  have inv: "pool_inv r calls p"
    using assms pool_inv_init by (rule pool_inv_steps)
  have "\<exists>q. pResults p ! i = Some (reg_call r q (cName (calls ! i)) (cArgs (calls ! i)))"
    if "pQueued p = []" "pRunning p = []" "i < length calls" for i
  proof (cases "pResults p ! i")
    case None
    with inv that show ?thesis by (auto simp: pool_inv_def split: option.splits)
  next
    case (Some x)
    with inv that(3) have "slot_result r (calls ! i) x"
      by (auto simp: pool_inv_def split: option.splits)
    with Some show ?thesis by (auto simp: slot_result_def)
  qed
  with inv show ?thesis by (auto simp: pool_inv_def)
qed

lemma batch_dispatch_bounded_witness:
  fixes r defines "r \<equiv> set_max_concurrent 1 (register (sample_tool ''a'') new_registry)"
  shows "length (pRunning (pool_init [\<lparr>cID = ''1'', cName = ''a'', cArgs = None, cArgsError = ''''\<rparr>])) \<le> 1"
  using batch_dispatch_bounded [of r "[\<lparr>cID = ''1'', cName = ''a'', cArgs = None, cArgsError = ''''\<rparr>]"]
  by (simp add: r_def set_max_concurrent_def register_def new_registry_def)

text \<open>A scoped registry offers exactly the parent's tools that are allowed (all of them under an
  empty list or a star), not denied and not excluded, each as the parent's own instance.\<close>
theorem scoped_registry_exact:
  assumes "reg_ok r"
  shows "reg_ok (scoped r allow deny exclude) \<and>
    (\<forall>n t. reg_get (scoped r allow deny exclude) n = Some t \<longleftrightarrow>
       reg_get r n = Some t \<and> n \<notin> set deny \<and> n \<notin> set exclude \<and>
       (allow = [] \<or> ''*'' \<in> set allow \<or> n \<in> set allow))"
  using assms by (auto simp: scoped_get reg_ok_scoped)

lemma scoped_registry_exact_witness:
  "reg_get (scoped (register (sample_tool ''a'') new_registry) [''*''] [''a''] []) ''a'' = None"
  using scoped_registry_exact [of "register (sample_tool ''a'') new_registry" "[''*'']" "[''a'']" "[]"]
  by (metis list.set_intros(1) not_None_eq reg_ok_new reg_ok_register)

end
