(* ===== verification/AgentState.thy ===== *)
theory AgentState
  imports Events Toolruntime Compress
begin

section \<open>The agent loop's state, frames and surroundings\<close>

text \<open>
  What the loop of \<open>internal/agent/loop.go\<close> reads and writes. Its state is \<open>lstate\<close>: the
  \<open>RunState\<close> of \<open>middleware.go\<close>, the pending interactions of the \<open>Loop\<close>, the shared
  circuit breaker, the frames offered to the emitter so far (each with whether the emitter took
  it) and the tool calls handed to the tool chain so far. Everything the loop does not decide
  itself is a field of \<open>env\<close>: whether the context is cancelled, whether the emitter fails,
  what the provider streams, what a tool does, the JSON decoder, the regular-expression engine
  and fresh identifiers. Each consultation advances \<open>sClock\<close> and is answered for that moment,
  so that an answer may differ from the one before.
\<close>

subsection \<open>Errors\<close>

text \<open>
  A Go error, by what the loop asks of it: its text, and whether \<open>errors.As\<close> or \<open>errors.Is\<close>
  finds in its chain a \<open>ContextOverflowError\<close>, a \<open>midStreamError\<close>, or \<open>ErrAbortRun\<close>.
\<close>

record lerr =
  leText :: string
  leOverflow :: bool
  leMid :: bool
  leAbort :: bool

definition errorf :: "string \<Rightarrow> lerr" where
  "errorf t = \<lparr>leText = t, leOverflow = False, leMid = False, leAbort = False\<rparr>"

definition wrap_text :: "string \<Rightarrow> lerr \<Rightarrow> lerr" where
  "wrap_text p e = e\<lparr>leText := p @ leText e\<rparr>"

definition mid_stream_error :: "lerr \<Rightarrow> lerr" where
  "mid_stream_error e = e\<lparr>leMid := True\<rparr>"

subsection \<open>Interactions and frames\<close>

record loop_interaction =
  iID :: string
  iKind :: string
  iToolCallID :: string
  iToolName :: string
  iInput :: jargs
  iBatch :: "call list"

datatype frame =
    FText string
  | FThinking string
  | FToolArgs string string string
  | FToolUse string string jargs
  | FToolResult string string string bool
  | FGenerativeUI "gui_spec option"
  | FError string
  | FDone
  | FAssistant message "usage option"
  | FMessage message
  | FCancelled
  | FUsage usage
  | FInterrupt loop_interaction
  | FStepStart
  | FStepFinish string "usage option" bool
  | FOverflowRecovery "usage option"

fun frame_kind :: "frame \<Rightarrow> event_kind" where
  "frame_kind (FText _) = KindText"
| "frame_kind (FThinking _) = KindThinking"
| "frame_kind (FToolArgs _ _ _) = KindToolArgs"
| "frame_kind (FToolUse _ _ _) = KindToolUse"
| "frame_kind (FToolResult _ _ _ _) = KindToolResult"
| "frame_kind (FGenerativeUI _) = KindGenerativeUI"
| "frame_kind (FError _) = KindError"
| "frame_kind FDone = KindDone"
| "frame_kind (FAssistant _ _) = KindMessage"
| "frame_kind (FMessage _) = KindMessage"
| "frame_kind FCancelled = KindCancelled"
| "frame_kind (FUsage _) = KindUsage"
| "frame_kind (FInterrupt _) = KindInterrupt"
| "frame_kind FStepStart = KindStepStart"
| "frame_kind (FStepFinish _ _ _) = KindStepFinish"
| "frame_kind (FOverflowRecovery _) = KindOverflowRecovery"

text \<open>The three frames that end a run.\<close>

definition ends_run :: "frame \<Rightarrow> bool" where
  "ends_run f = (frame_kind f \<in> {KindDone, KindError, KindCancelled})"

subsection \<open>Requests and results of a model call\<close>

record request =
  rqModel :: string
  rqSystem :: string
  rqMessages :: "message list"
  rqTools :: "tool_definition list"
  rqMaxTokens :: int
  rqCacheablePrefix :: bool
  rqTemperature :: "float64 option"
  rqTopP :: "float64 option"
  rqStopSequences :: "string list"
  rqThinking :: "int option"

record model_call =
  mcRequest :: request
  mcView :: "message list"

record model_result =
  mrAssistant :: message
  mrCalls :: "call list"
  mrStop :: stop_reason
  mrUsage :: "usage option"

definition empty_result :: model_result where
  "empty_result = \<lparr>mrAssistant = \<lparr>mRole = RoleOther '''', mContent = []\<rparr>, mrCalls = [],
     mrStop = StopUnknown, mrUsage = None\<rparr>"

text \<open>One event of a provider stream; an absent block (\<open>nil\<close>) of a start is \<open>None\<close>.\<close>

datatype provider_event =
    EvMessageStart
  | EvError lerr
  | EvBlockStart int "block option"
  | EvBlockDelta int string string
  | EvBlockStop int
  | EvMessageStop stop_reason "usage option"

subsection \<open>The surroundings and the state\<close>

record env =
  eSelect :: "nat \<Rightarrow> lerr option"
    \<comment> \<open>a \<open>select\<close> at this moment takes \<open>ctx.Done()\<close>, with this \<open>ctx.Err()\<close>\<close>
  eCtxErr :: "nat \<Rightarrow> lerr option"
  eEmit :: "nat \<Rightarrow> bool \<Rightarrow> frame \<Rightarrow> lerr option"
    \<comment> \<open>the emitter's answer; the flag says that the context is detached from cancellation\<close>
  eStream :: "nat \<Rightarrow> request \<Rightarrow> lerr + provider_event list"
  eParse :: "string \<Rightarrow> string + jargs"
    \<comment> \<open>\<open>json.Unmarshal\<close> into a map: the error's text or the map\<close>
  eRegex :: regex_engine
  eFresh :: "nat \<Rightarrow> string"
  eQueueErr :: "nat \<Rightarrow> string \<Rightarrow> string option"
    \<comment> \<open>the context is cancelled while the call of this id waits for a slot\<close>
  eCallTool :: "nat \<Rightarrow> string \<Rightarrow> jargs \<Rightarrow> tool_outcome"

record lstate =
  sView :: "message list"
  sProduced :: "message list"
  sUsage :: usage
  sIteration :: nat
  sCache :: "compression_cache option"
  sViewDropped :: int
  sOverflowRecovered :: bool
  sPending :: "loop_interaction list"
  sFailures :: nat
  sLog :: "(frame \<times> bool) list"
  sLive :: "call list"
  sClock :: nat

definition init_lstate :: "nat \<Rightarrow> lstate" where
  "init_lstate failures = \<lparr>sView = [], sProduced = [], sUsage = 0, sIteration = 0, sCache = None,
     sViewDropped = 0, sOverflowRecovered = False, sPending = [], sFailures = failures, sLog = [],
     sLive = [], sClock = 0\<rparr>"

definition emit :: "env \<Rightarrow> bool \<Rightarrow> frame \<Rightarrow> lstate \<Rightarrow> lerr option \<times> lstate" where
  "emit en detached f s =
     (let r = eEmit en (sClock s) detached f
      in (r, s\<lparr>sLog := sLog s @ [(f, r = None)], sClock := Suc (sClock s)\<rparr>))"

text \<open>\<open>_ = emit.Emit(...)\<close>: the answer is dropped.\<close>

definition emit_ignored :: "env \<Rightarrow> bool \<Rightarrow> frame \<Rightarrow> lstate \<Rightarrow> lstate" where
  "emit_ignored en detached f s = snd (emit en detached f s)"

definition ctx_err :: "env \<Rightarrow> lstate \<Rightarrow> lerr option \<times> lstate" where
  "ctx_err en s = (eCtxErr en (sClock s), s\<lparr>sClock := Suc (sClock s)\<rparr>)"

definition ctx_select :: "env \<Rightarrow> lstate \<Rightarrow> lerr option \<times> lstate" where
  "ctx_select en s = (eSelect en (sClock s), s\<lparr>sClock := Suc (sClock s)\<rparr>)"

definition frames :: "lstate \<Rightarrow> frame list" where
  "frames s = map fst (sLog s)"

lemma emit_simps [simp]:
  "sView (emit_ignored en d f s) = sView s" "sProduced (emit_ignored en d f s) = sProduced s"
  "sUsage (emit_ignored en d f s) = sUsage s" "sIteration (emit_ignored en d f s) = sIteration s"
  "sCache (emit_ignored en d f s) = sCache s" "sViewDropped (emit_ignored en d f s) = sViewDropped s"
  "sOverflowRecovered (emit_ignored en d f s) = sOverflowRecovered s"
  "sPending (emit_ignored en d f s) = sPending s" "sFailures (emit_ignored en d f s) = sFailures s"
  "sLive (emit_ignored en d f s) = sLive s"
  "frames (emit_ignored en d f s) = frames s @ [f]"
  by (simp_all add: emit_ignored_def emit_def Let_def frames_def)

lemma emit_log: "sLog (emit_ignored en d f s) = sLog s @ [(f, eEmit en (sClock s) d f = None)]"
  by (simp add: emit_ignored_def emit_def Let_def)

lemma emit_snd [simp]: "snd (emit en d f s) = emit_ignored en d f s"
  by (simp add: emit_ignored_def)

lemma emit_pair: "emit en d f s = (r, s') \<Longrightarrow> s' = emit_ignored en d f s \<and> r = eEmit en (sClock s) d f"
  by (auto simp: emit_ignored_def emit_def Let_def)

definition tick :: "lstate \<Rightarrow> lstate" where
  "tick s = s\<lparr>sClock := Suc (sClock s)\<rparr>"

lemma tick_simps [simp]:
  "sView (tick s) = sView s" "sProduced (tick s) = sProduced s" "sUsage (tick s) = sUsage s"
  "sIteration (tick s) = sIteration s" "sCache (tick s) = sCache s"
  "sViewDropped (tick s) = sViewDropped s" "sOverflowRecovered (tick s) = sOverflowRecovered s"
  "sPending (tick s) = sPending s" "sFailures (tick s) = sFailures s" "sLive (tick s) = sLive s"
  "sLog (tick s) = sLog s" "frames (tick s) = frames s"
  by (simp_all add: tick_def frames_def)

lemma ctx_pair: "ctx_err en s = (eCtxErr en (sClock s), tick s)"
  "ctx_select en s = (eSelect en (sClock s), tick s)"
  by (simp_all add: ctx_err_def ctx_select_def tick_def)

subsection \<open>What a stage may do to the state\<close>

text \<open>
  \<open>extends P s s'\<close>: from \<open>s\<close> to \<open>s'\<close> nothing durable of the run changed and only frames
  satisfying \<open>P\<close> were offered. The stages of a model call and the hooks promise it.
\<close>

definition extends :: "(frame \<Rightarrow> bool) \<Rightarrow> lstate \<Rightarrow> lstate \<Rightarrow> bool" where
  "extends P s s' =
     (sProduced s' = sProduced s \<and> sUsage s' = sUsage s \<and> sIteration s' = sIteration s \<and>
      sOverflowRecovered s' = sOverflowRecovered s \<and> sPending s' = sPending s \<and> sLive s' = sLive s \<and>
      (\<exists>xs. sLog s' = sLog s @ xs \<and> list_all (\<lambda>x. P (fst x)) xs))"

lemma extends_refl [simp, intro]: "extends P s s"
  by (auto simp: extends_def)

lemma extends_trans [trans]: "extends P s t \<Longrightarrow> extends P t u \<Longrightarrow> extends P s u"
  by (auto simp: extends_def)

lemma extends_tick [simp]: "extends P s (tick t) = extends P s t"
  by (auto simp: extends_def)

lemma extends_emit: "extends P s t \<Longrightarrow> P f \<Longrightarrow> extends P s (emit_ignored en d f t)"
  by (auto simp: extends_def emit_log)

lemma extends_frames: "extends P s s' \<Longrightarrow> \<exists>fs. frames s' = frames s @ fs \<and> list_all P fs"
  by (auto simp: extends_def frames_def list_all_iff)

lemma extends_weaken: "extends P s t \<Longrightarrow> (\<And>f. P f \<Longrightarrow> Q f) \<Longrightarrow> extends Q s t"
  unfolding extends_def by (metis (no_types, lifting) list.pred_mono_strong)

lemma extends_upd [simp]:
  "extends P s (t\<lparr>sView := v\<rparr>) = extends P s t"
  "extends P s (t\<lparr>sCache := c\<rparr>) = extends P s t"
  "extends P s (t\<lparr>sViewDropped := n\<rparr>) = extends P s t"
  "extends P s (t\<lparr>sFailures := m\<rparr>) = extends P s t"
  by (simp_all add: extends_def frames_def)

lemma extends_fields:
  "extends P s s' \<Longrightarrow> sProduced s' = sProduced s" "extends P s s' \<Longrightarrow> sLive s' = sLive s"
  "extends P s s' \<Longrightarrow> sUsage s' = sUsage s" "extends P s s' \<Longrightarrow> sPending s' = sPending s"
  "extends P s s' \<Longrightarrow> sOverflowRecovered s' = sOverflowRecovered s"
  by (simp_all add: extends_def)

text \<open>The frames a model call streams.\<close>

definition content_frame :: "frame \<Rightarrow> bool" where
  "content_frame f = (frame_kind f \<in> {KindText, KindThinking, KindToolArgs, KindToolUse})"

text \<open>What a hook may send: nothing that ends the run or that the loop alone sends.\<close>

definition progress_frame :: "frame \<Rightarrow> bool" where
  "progress_frame f = (\<not> ends_run f \<and>
     frame_kind f \<notin> {KindMessage, KindInterrupt, KindStepStart, KindStepFinish, KindOverflowRecovery})"

lemma content_progress: "content_frame f \<Longrightarrow> progress_frame f"
  by (auto simp: content_frame_def progress_frame_def ends_run_def)

end
