(* ===== verification/AgentStream.thy ===== *)
theory AgentStream
  imports AgentState
begin

section \<open>Consuming a provider stream\<close>

text \<open>
  \<open>consume\<close>, \<open>appendFinalized\<close> and \<open>accumulator\<close> of \<open>internal/agent/loop.go\<close>, and
  \<open>realAttempt\<close>, the innermost handler of the model-call chain. The state of one turn is
  \<open>turn\<close>: the assembled blocks and calls, the terminal metadata, the blocks still open (by
  provider index) and whether a frame reached the client. The stream is the list of its events
  followed by the closing of its channel.
\<close>

subsection \<open>The code\<close>

record accumulator =
  acBlock :: block
  acText :: string
  acJson :: string
  acSignature :: string

definition acc_append :: "string \<Rightarrow> accumulator \<Rightarrow> accumulator" where
  "acc_append delta a =
     (if bType (acBlock a) = BlockText \<or> bType (acBlock a) = BlockThinking
      then a\<lparr>acText := acText a @ delta\<rparr>
      else if bType (acBlock a) = BlockToolUse then a\<lparr>acJson := acJson a @ delta\<rparr> else a)"

definition acc_append_signature :: "string \<Rightarrow> accumulator \<Rightarrow> accumulator" where
  "acc_append_signature sig a = a\<lparr>acSignature := acSignature a @ sig\<rparr>"

text \<open>The finalized block and the text of the argument error (\<open>nil\<close> is \<open>None\<close>).\<close>

definition acc_finalize :: "(string \<Rightarrow> string + jargs) \<Rightarrow> accumulator \<Rightarrow> block \<times> string option" where
  "acc_finalize parse a =
     (case bType (acBlock a) of
        BlockText \<Rightarrow> (set_text (acText a) (acBlock a), None)
      | BlockThinking \<Rightarrow>
          (let b = set_thinking (acText a) (acBlock a)
           in (if acSignature a \<noteq> '''' then set_signature (acSignature a) b else b, None))
      | BlockToolUse \<Rightarrow>
          if acJson a \<noteq> '''' then
            (case parse (acJson a) of
               Inl e \<Rightarrow> (acBlock a, Some (''tool arguments are not valid JSON: '' @ e))
             | Inr input \<Rightarrow> (set_tool_input input (acBlock a), None))
          else (acBlock a, None)
      | _ \<Rightarrow> (acBlock a, None))"

record turn =
  tuContent :: "block list"
  tuCalls :: "call list"
  tuStop :: stop_reason
  tuUsage :: "usage option"
  tuOpen :: "(int, accumulator) gomap"
  tuEmitted :: bool

definition turn_start :: turn where
  "turn_start = \<lparr>tuContent = [], tuCalls = [], tuStop = StopUnknown, tuUsage = None, tuOpen = [],
     tuEmitted = False\<rparr>"

text \<open>\<open>emissionTracker.Emit\<close>.\<close>

definition emit_tracked :: "env \<Rightarrow> frame \<Rightarrow> turn \<Rightarrow> lstate \<Rightarrow> lerr option \<times> turn \<times> lstate" where
  "emit_tracked en f t s =
     (let (err, s') = emit en False f s
      in (err, t\<lparr>tuEmitted := tuEmitted t \<or> err = None\<rparr>, s'))"

definition append_finalized :: "env \<Rightarrow> accumulator \<Rightarrow> turn \<Rightarrow> lstate \<Rightarrow> turn \<times> lstate" where
  "append_finalized en a t s =
     (let (b, argErr) = acc_finalize (eParse en) a;
          blk = (case argErr of None \<Rightarrow> b | Some e \<Rightarrow> set_args_error e b);
          t1 = t\<lparr>tuContent := tuContent t @ [blk]\<rparr>
      in if bType blk \<noteq> BlockToolUse then (t1, s)
         else let c = \<lparr>cID = bToolUseID blk, cName = bToolName blk, cArgs = bToolInput blk,
                       cArgsError = (case argErr of None \<Rightarrow> '''' | Some e \<Rightarrow> e)\<rparr>
              in snd (emit_tracked en (FToolUse (bToolUseID blk) (bToolName blk) (bToolInput blk))
                        (t1\<lparr>tuCalls := tuCalls t1 @ [c]\<rparr>) s))"

definition merge_usage :: "usage option \<Rightarrow> usage option \<Rightarrow> usage option" where
  "merge_usage old new =
     (case old of None \<Rightarrow> new
      | Some u \<Rightarrow>
          (case new of None \<Rightarrow> old
           | Some v \<Rightarrow> Some (Usage (max (InputTokens u) (InputTokens v))
               (max (OutputTokens u) (OutputTokens v))
               (max (CacheReadTokens u) (CacheReadTokens v))
               (max (CacheWriteTokens u) (CacheWriteTokens v))
               (max (ReasoningTokens u) (ReasoningTokens v)))))"

definition dup_start_error :: "int \<Rightarrow> lerr" where
  "dup_start_error i = errorf
     (''provider stream contract violation: duplicate block start at index '' @ itoa i)"

definition unopened_delta_error :: "int \<Rightarrow> lerr" where
  "unopened_delta_error i = errorf
     (''provider stream contract violation: block delta at unopened index '' @ itoa i)"

text \<open>The frame of one delta (\<open>None\<close>: nothing is sent).\<close>

definition delta_frame :: "accumulator \<Rightarrow> string \<Rightarrow> frame option" where
  "delta_frame a delta =
     (case bType (acBlock a) of
        BlockText \<Rightarrow> Some (FText delta)
      | BlockThinking \<Rightarrow> Some (FThinking delta)
      | BlockToolUse \<Rightarrow>
          if delta \<noteq> '''' then Some (FToolArgs (bToolUseID (acBlock a)) (bToolName (acBlock a)) delta)
          else None
      | _ \<Rightarrow> None)"

text \<open>One event; an error ends the turn.\<close>

fun consume_event :: "env \<Rightarrow> provider_event \<Rightarrow> turn \<Rightarrow> lstate \<Rightarrow> lerr option \<times> turn \<times> lstate" where
  "consume_event en EvMessageStart t s = (None, t, s)"
| "consume_event en (EvError e) t s = (Some e, t, s)"
| "consume_event en (EvBlockStart i b) t s =
     (case b of None \<Rightarrow> (None, t, s)
      | Some blk \<Rightarrow>
          if mget (tuOpen t) i \<noteq> None then (Some (dup_start_error i), t, s)
          else let t1 = t\<lparr>tuOpen := mput i \<lparr>acBlock = blk, acText = '''', acJson = '''',
                          acSignature = ''''\<rparr> (tuOpen t)\<rparr>
               in if bType blk = BlockToolUse
                  then emit_tracked en (FToolArgs (bToolUseID blk) (bToolName blk) '''') t1 s
                  else (None, t1, s))"
| "consume_event en (EvBlockDelta i delta sig) t s =
     (case mget (tuOpen t) i of
        None \<Rightarrow> (Some (unopened_delta_error i), t, s)
      | Some a \<Rightarrow>
          let a1 = acc_append_signature sig (acc_append delta a);
              t1 = t\<lparr>tuOpen := mput i a1 (tuOpen t)\<rparr>
          in (case delta_frame a1 delta of
                None \<Rightarrow> (None, t1, s)
              | Some f \<Rightarrow> emit_tracked en f t1 s))"
| "consume_event en (EvBlockStop i) t s =
     (case mget (tuOpen t) i of
        None \<Rightarrow> (None, t, s)
      | Some a \<Rightarrow>
          let (t1, s1) = append_finalized en a t s
          in (None, t1\<lparr>tuOpen := mdel i (tuOpen t1)\<rparr>, s1))"
| "consume_event en (EvMessageStop stop u) t s =
     (None, t\<lparr>tuStop := (if stop \<noteq> StopUnknown then stop else tuStop t),
              tuUsage := (if u \<noteq> None then merge_usage (tuUsage t) u else tuUsage t)\<rparr>, s)"

text \<open>The blocks still open when the channel closes, in index order.\<close>

fun finalize_open :: "env \<Rightarrow> int list \<Rightarrow> turn \<Rightarrow> lstate \<Rightarrow> turn \<times> lstate" where
  "finalize_open en [] t s = (t, s)"
| "finalize_open en (i # is) t s =
     (case mget (tuOpen t) i of
        None \<Rightarrow> finalize_open en is t s
      | Some a \<Rightarrow>
          let (t1, s1) = append_finalized en a t s
          in finalize_open en is (t1\<lparr>tuOpen := mdel i (tuOpen t1)\<rparr>) s1)"

fun consume :: "env \<Rightarrow> provider_event list \<Rightarrow> turn \<Rightarrow> lstate \<Rightarrow> lerr option \<times> turn \<times> lstate" where
  "consume en [] t s =
     (let (sel, s1) = ctx_select en s
      in case sel of
           Some e \<Rightarrow> (Some e, t, s1)
         | None \<Rightarrow>
             (let (ce, s2) = ctx_err en s1
              in case ce of
                   Some e \<Rightarrow> (Some e, t, s2)
                 | None \<Rightarrow>
                     let (t1, s3) = finalize_open en (sort (mkeys (tuOpen t))) t s2
                     in (None, t1, s3)))"
| "consume en (ev # evs) t s =
     (let (sel, s1) = ctx_select en s
      in case sel of
           Some e \<Rightarrow> (Some e, t, s1)
         | None \<Rightarrow>
             (let (err, t1, s2) = consume_event en ev t s1
              in case err of Some e \<Rightarrow> (Some e, t1, s2) | None \<Rightarrow> consume en evs t1 s2))"

definition turn_result :: "turn \<Rightarrow> model_result" where
  "turn_result t = \<lparr>mrAssistant = \<lparr>mRole = RoleAssistant, mContent = tuContent t\<rparr>,
     mrCalls = tuCalls t, mrStop = tuStop t, mrUsage = tuUsage t\<rparr>"

definition real_attempt :: "env \<Rightarrow> model_call \<Rightarrow> lstate \<Rightarrow> (model_result \<times> lerr option) \<times> model_call \<times> lstate" where
  "real_attempt en c s =
     (case eStream en (sClock s) (mcRequest c) of
        Inl e \<Rightarrow> ((empty_result, Some (wrap_text ''stream: '' e)), c, tick s)
      | Inr evs \<Rightarrow>
          let (err, t, s1) = consume en evs turn_start (tick s)
          in case err of
               Some e \<Rightarrow> ((empty_result, Some (if tuEmitted t then mid_stream_error e else e)), c, s1)
             | None \<Rightarrow> ((turn_result t, None), c, s1))"

subsection \<open>The calls of a turn are its tool-use blocks\<close>

definition tool_uses :: "block list \<Rightarrow> block list" where
  "tool_uses bs = filter (\<lambda>b. bType b = BlockToolUse) bs"

definition calls_match :: "block list \<Rightarrow> call list \<Rightarrow> bool" where
  "calls_match bs cs =
     (map (\<lambda>c. (cID c, cName c, cArgs c)) cs =
      map (\<lambda>b. (bToolUseID b, bToolName b, bToolInput b)) (tool_uses bs))"

lemma calls_match_Nil [simp]: "calls_match [] []"
  by (simp add: calls_match_def tool_uses_def)

lemma calls_match_ids: "calls_match bs cs \<Longrightarrow> map cID cs = use_ids bs"
  unfolding calls_match_def use_ids_def tool_uses_def [symmetric]
  by (drule arg_cong [of _ _ "map fst"]) (simp add: comp_def)

lemma calls_match_empty: "calls_match bs cs \<Longrightarrow> cs = [] \<longleftrightarrow> use_ids bs = []"
  by (metis calls_match_ids map_is_Nil_conv)

lemma acc_finalize_type: "acc_finalize parse a = (b, e) \<Longrightarrow> bType b = bType (acBlock a)"
  by (auto simp: acc_finalize_def Let_def split: block_type.splits if_splits sum.splits)

lemma emit_tracked_eq:
  "emit_tracked en f t s = (err, t', s') \<Longrightarrow>
     t' = t\<lparr>tuEmitted := tuEmitted t'\<rparr> \<and> s' = emit_ignored en False f s"
  by (auto simp: emit_tracked_def split: prod.splits dest!: emit_pair)

lemma append_finalized_spec:
  assumes "append_finalized en a t s = (t', s')" "calls_match (tuContent t) (tuCalls t)"
  shows "calls_match (tuContent t') (tuCalls t') \<and> extends content_frame s s' \<and>
    tuOpen t' = tuOpen t"
proof -
  obtain b e where f: "acc_finalize (eParse en) a = (b, e)" by force
  let ?b = "case e of None \<Rightarrow> b | Some x \<Rightarrow> set_args_error x b"
  show ?thesis
  proof (cases "bType ?b = BlockToolUse")
    case True
    let ?f = "FToolUse (bToolUseID ?b) (bToolName ?b) (bToolInput ?b)"
    let ?t = "t\<lparr>tuContent := tuContent t @ [?b], tuCalls := tuCalls t @
        [\<lparr>cID = bToolUseID ?b, cName = bToolName ?b, cArgs = bToolInput ?b,
          cArgsError = (case e of None \<Rightarrow> '''' | Some e \<Rightarrow> e)\<rparr>]\<rparr>"
    obtain er t1 s1 where k: "emit_tracked en ?f ?t s = (er, t1, s1)" by (metis prod_cases3)
    then have "t' = t1" "s' = s1"
      using assms(1) f True by (simp_all add: append_finalized_def Let_def)
    with emit_tracked_eq [OF k] have t: "t' = ?t\<lparr>tuEmitted := tuEmitted t'\<rparr>"
      and s: "s' = emit_ignored en False ?f s" by simp_all
    have "extends content_frame s s'"
      unfolding s by (rule extends_emit) (simp_all add: content_frame_def)
    moreover have "calls_match (tuContent t') (tuCalls t')"
      by (subst t, subst (2) t) (use assms(2) True in \<open>simp add: calls_match_def tool_uses_def\<close>)
    moreover have "tuOpen t' = tuOpen t" by (subst t) simp
    ultimately show ?thesis by simp
  next
    case False
    then have "t' = t\<lparr>tuContent := tuContent t @ [?b]\<rparr>" "s' = s"
      using assms(1) f by (simp_all add: append_finalized_def Let_def)
    with False assms(2) show ?thesis by (simp add: calls_match_def tool_uses_def)
  qed
qed


text \<open>What one turn keeps: the calls match the blocks, and only content frames are sent.\<close>

definition turn_inv :: "lstate \<Rightarrow> turn \<Rightarrow> lstate \<Rightarrow> bool" where
  "turn_inv s0 t s = (calls_match (tuContent t) (tuCalls t) \<and> extends content_frame s0 s)"

lemma turn_inv_upd [simp]:
  "turn_inv s0 (t\<lparr>tuOpen := op\<rparr>) s = turn_inv s0 t s"
  "turn_inv s0 (t\<lparr>tuEmitted := e\<rparr>) s = turn_inv s0 t s"
  "turn_inv s0 (t\<lparr>tuStop := st, tuUsage := u\<rparr>) s = turn_inv s0 t s"
  "turn_inv s0 t (tick s) = turn_inv s0 t s"
  by (simp_all add: turn_inv_def)

lemma turn_inv_tracked:
  assumes "emit_tracked en f t s = (err, t', s')" "content_frame f" "turn_inv s0 t s"
  shows "turn_inv s0 t' s'"
proof -
  from emit_tracked_eq [OF assms(1)] have e: "t' = t\<lparr>tuEmitted := tuEmitted t'\<rparr>"
    "s' = emit_ignored en False f s" by auto
  have "turn_inv s0 t s'"
    using assms(2,3) unfolding turn_inv_def e(2) by (auto intro: extends_emit)
  then show ?thesis by (subst e(1)) simp
qed

lemma turn_inv_append:
  assumes "append_finalized en a t s = (t', s')" "turn_inv s0 t s"
  shows "turn_inv s0 t' s'"
  using append_finalized_spec [OF assms(1)] assms(2)
  by (auto simp: turn_inv_def intro: extends_trans)

lemma delta_frame_content: "delta_frame a d = Some f \<Longrightarrow> content_frame f"
  by (auto simp: delta_frame_def content_frame_def split: block_type.splits if_splits)

lemma turn_inv_event:
  assumes "consume_event en ev t s = (err, t', s')" "turn_inv s0 t s"
  shows "turn_inv s0 t' s'"
proof (cases ev)
  case (EvBlockStart i b)
  show ?thesis
    using assms EvBlockStart
    by (auto simp: Let_def content_frame_def split: option.splits if_splits elim!: turn_inv_tracked)
next
  case (EvBlockDelta i d sig)
  show ?thesis
    using assms EvBlockDelta
    by (auto simp: Let_def split: option.splits elim!: turn_inv_tracked dest: delta_frame_content)
next
  case (EvBlockStop i)
  show ?thesis
    using assms EvBlockStop
    by (auto simp: Let_def split: option.splits prod.splits dest!: turn_inv_append)
qed (use assms in auto)

lemma turn_inv_finalize:
  "finalize_open en is t s = (t', s') \<Longrightarrow> turn_inv s0 t s \<Longrightarrow> turn_inv s0 t' s'"
proof (induction "is" arbitrary: t s)
  case (Cons i "is")
  show ?case
  proof (cases "mget (tuOpen t) i")
    case None
    with Cons show ?thesis by simp
  next
    case (Some a)
    obtain t1 s1 where a: "append_finalized en a t s = (t1, s1)" by force
    with turn_inv_append [OF a Cons.prems(2)] Some Cons show ?thesis by simp
  qed
qed simp

lemma turn_inv_consume:
  "consume en evs t s = (err, t', s') \<Longrightarrow> turn_inv s0 t s \<Longrightarrow> turn_inv s0 t' s'"
proof (induction evs arbitrary: t s)
  case Nil
  obtain t1 s1 where "finalize_open en (sort (mkeys (tuOpen t))) t (tick (tick s)) = (t1, s1)" by force
  with Nil turn_inv_finalize [OF this, of s0] show ?case
    by (auto simp: ctx_pair split: option.splits)
next
  case (Cons ev evs)
  obtain er t1 s1 where e: "consume_event en ev t (tick s) = (er, t1, s1)" by (metis prod_cases3)
  have i: "turn_inv s0 t1 s1" using turn_inv_event [OF e] Cons.prems(2) by simp
  show ?case
    using Cons.prems(1) e i Cons.IH [of t1 s1] Cons.prems(2)
    by (auto simp: ctx_pair split: option.splits)
qed

text \<open>The contract of a model-call handler, which the innermost one meets.\<close>

definition result_ok :: "model_result \<Rightarrow> bool" where
  "result_ok r = (mRole (mrAssistant r) = RoleAssistant \<and> calls_match (mContent (mrAssistant r)) (mrCalls r))"

type_synonym model_handler = "model_call \<Rightarrow> lstate \<Rightarrow> (model_result \<times> lerr option) \<times> model_call \<times> lstate"

definition handler_ok :: "model_handler \<Rightarrow> bool" where
  "handler_ok h = (\<forall>c s r err c' s'. h c s = ((r, err), c', s') \<longrightarrow>
     extends content_frame s s' \<and> (err = None \<longrightarrow> result_ok r))"

lemma handler_okD:
  "handler_ok h \<Longrightarrow> h c s = ((r, err), c', s') \<Longrightarrow>
     extends content_frame s s' \<and> (err = None \<longrightarrow> result_ok r)"
  unfolding handler_ok_def by blast

lemma real_attempt_ok: "handler_ok (real_attempt en)"
  unfolding handler_ok_def
proof (intro allI impI)
  fix c s r err c' s'
  assume a: "real_attempt en c s = ((r, err), c', s')"
  show "extends content_frame s s' \<and> (err = None \<longrightarrow> result_ok r)"
  proof (cases "eStream en (sClock s) (mcRequest c)")
    case (Inl e)
    with a show ?thesis by (auto simp: real_attempt_def)
  next
    case (Inr evs)
    obtain er t s1 where k: "consume en evs turn_start (tick s) = (er, t, s1)" by (metis prod_cases3)
    have "turn_inv s t s1"
      by (rule turn_inv_consume [OF k]) (simp add: turn_inv_def turn_start_def)
    with a Inr k show ?thesis
      by (auto simp: real_attempt_def turn_inv_def turn_result_def result_ok_def split: option.splits)
  qed
qed

subsection \<open>What a stream of complete blocks assembles to\<close>

text \<open>A block as an adapter streams it: its start, its deltas, its stop.\<close>

record piece =
  pcIndex :: int
  pcBlock :: block
  pcDeltas :: "(string \<times> string) list"

definition piece_text :: "piece \<Rightarrow> string" where
  "piece_text p = concat (map fst (pcDeltas p))"

definition delta_events :: "int \<Rightarrow> (string \<times> string) list \<Rightarrow> provider_event list" where
  "delta_events i ds = map (\<lambda>(d, g). EvBlockDelta i d g) ds"

definition piece_events :: "piece \<Rightarrow> provider_event list" where
  "piece_events p = EvBlockStart (pcIndex p) (Some (pcBlock p)) #
     delta_events (pcIndex p) (pcDeltas p) @ [EvBlockStop (pcIndex p)]"

text \<open>The block it stands for and the call it makes, if it makes one.\<close>

definition piece_error :: "(string \<Rightarrow> string + jargs) \<Rightarrow> piece \<Rightarrow> string option" where
  "piece_error parse p =
     (if bType (pcBlock p) = BlockToolUse \<and> piece_text p \<noteq> '''' then
        (case parse (piece_text p) of
           Inl e \<Rightarrow> Some (''tool arguments are not valid JSON: '' @ e) | Inr _ \<Rightarrow> None)
      else None)"

definition assemble :: "(string \<Rightarrow> string + jargs) \<Rightarrow> piece \<Rightarrow> block" where
  "assemble parse p =
     (let b = pcBlock p; sig = concat (map snd (pcDeltas p)) in
      case bType b of
        BlockText \<Rightarrow> set_text (piece_text p) b
      | BlockThinking \<Rightarrow>
          (if sig = '''' then set_thinking (piece_text p) b
           else set_signature sig (set_thinking (piece_text p) b))
      | BlockToolUse \<Rightarrow>
          (if piece_text p = '''' then b
           else case parse (piece_text p) of
                  Inl e \<Rightarrow> set_args_error (''tool arguments are not valid JSON: '' @ e) b
                | Inr input \<Rightarrow> set_tool_input input b)
      | _ \<Rightarrow> b)"

definition piece_call :: "(string \<Rightarrow> string + jargs) \<Rightarrow> piece \<Rightarrow> call list" where
  "piece_call parse p =
     (let b = assemble parse p in
      if bType b = BlockToolUse
      then [\<lparr>cID = bToolUseID b, cName = bToolName b, cArgs = bToolInput b,
             cArgsError = (case piece_error parse p of None \<Rightarrow> '''' | Some e \<Rightarrow> e)\<rparr>]
      else [])"

text \<open>Surroundings in which nothing fails and nothing is cancelled.\<close>

definition quiet :: "env \<Rightarrow> bool" where
  "quiet en = ((\<forall>n. eSelect en n = None) \<and> (\<forall>n. eCtxErr en n = None) \<and> (\<forall>n d f. eEmit en n d f = None))"

lemma quiet_tracked:
  assumes "quiet en"
  shows "\<exists>s'. emit_tracked en f t s = (None, t\<lparr>tuEmitted := True\<rparr>, s')"
  using assms by (simp add: emit_tracked_def emit_def quiet_def Let_def)

lemma quiet_consume_step:
  assumes "quiet en" "consume_event en ev t (tick s) = (None, t1, s1)"
  shows "consume en (ev # evs) t s = consume en evs t1 s1"
  using assms by (simp add: ctx_pair quiet_def)

definition acc_fold :: "(string \<times> string) list \<Rightarrow> accumulator \<Rightarrow> accumulator" where
  "acc_fold ds a = fold (\<lambda>(d, g) a. acc_append_signature g (acc_append d a)) ds a"

lemma acc_fold_simps [simp]:
  "acc_fold [] a = a"
  "acc_fold ((d, g) # ds) a = acc_fold ds (acc_append_signature g (acc_append d a))"
  by (simp_all add: acc_fold_def)

lemma acc_fold_spec:
  "acBlock (acc_fold ds a) = acBlock a"
  "acSignature (acc_fold ds a) = acSignature a @ concat (map snd ds)"
  "bType (acBlock a) \<in> {BlockText, BlockThinking} \<Longrightarrow>
     acText (acc_fold ds a) = acText a @ concat (map fst ds)"
  "bType (acBlock a) = BlockToolUse \<Longrightarrow> acJson (acc_fold ds a) = acJson a @ concat (map fst ds)"
  by (induction ds arbitrary: a) (auto simp: acc_append_def acc_append_signature_def)

lemma quiet_deltas:
  assumes "quiet en" "tuOpen t = [(i, a)]"
  shows "\<exists>e s'. consume en (delta_events i ds @ evs) t s =
    consume en evs (t\<lparr>tuOpen := [(i, acc_fold ds a)], tuEmitted := e\<rparr>) s'"
  using assms(2)
proof (induction ds arbitrary: a t s)
  case Nil
  have "t\<lparr>tuOpen := [(i, a)]\<rparr> = t\<lparr>tuOpen := tuOpen t\<rparr>" by (simp only: Nil)
  then have "t\<lparr>tuOpen := [(i, a)]\<rparr> = t" by simp
  then show ?case
    by (intro exI [of _ "tuEmitted t"] exI [of _ s]) (simp add: delta_events_def)
next
  case (Cons dg ds)
  obtain d g where dg: "dg = (d, g)" by force
  let ?a = "acc_append_signature g (acc_append d a)"
  let ?t = "t\<lparr>tuOpen := [(i, ?a)]\<rparr>"
  have op: "mput i ?a (tuOpen t) = [(i, ?a)]" "mget (tuOpen t) i = Some a"
    using Cons.prems by (simp_all add: mput_def mget_def)
  have "\<exists>e s1. consume_event en (EvBlockDelta i d g) t (tick s) = (None, ?t\<lparr>tuEmitted := e\<rparr>, s1)"
  proof (cases "delta_frame ?a d")
    case None
    then show ?thesis
      using op by (intro exI [of _ "tuEmitted t"] exI [of _ "tick s"]) simp
  next
    case (Some f)
    then show ?thesis
      using op quiet_tracked [OF assms(1), of f ?t "tick s"] by (auto intro!: exI [of _ True])
  qed
  then obtain e s1 where 1: "consume_event en (EvBlockDelta i d g) t (tick s) = (None, ?t\<lparr>tuEmitted := e\<rparr>, s1)"
    by blast
  have "consume en (delta_events i (dg # ds) @ evs) t s =
      consume en (delta_events i ds @ evs) (?t\<lparr>tuEmitted := e\<rparr>) s1"
    using quiet_consume_step [OF assms(1) 1] by (simp add: delta_events_def dg)
  with Cons.IH [of "?t\<lparr>tuEmitted := e\<rparr>" ?a s1] show ?case by (simp add: dg)
qed

lemma finalize_assemble:
  assumes "acc_finalize parse (acc_fold (pcDeltas p)
      \<lparr>acBlock = pcBlock p, acText = '''', acJson = '''', acSignature = ''''\<rparr>) = (blk, err)"
  shows "(case err of None \<Rightarrow> blk | Some e \<Rightarrow> set_args_error e blk) = assemble parse p"
    and "err = piece_error parse p"
  using assms
  by (auto simp: acc_finalize_def assemble_def piece_error_def piece_text_def acc_fold_spec Let_def
      split: block_type.splits if_splits sum.splits)

lemma assemble_type: "bType (assemble parse p) = bType (pcBlock p)"
  by (auto simp: assemble_def Let_def split: block_type.splits sum.splits)

lemma quiet_piece:
  assumes "quiet en" "tuOpen t = []"
  shows "\<exists>t' s'. consume en (piece_events p @ evs) t s = consume en evs t' s' \<and>
    tuContent t' = tuContent t @ [assemble (eParse en) p] \<and>
    tuCalls t' = tuCalls t @ piece_call (eParse en) p \<and> tuOpen t' = [] \<and>
    tuStop t' = tuStop t \<and> tuUsage t' = tuUsage t"
proof -
  let ?i = "pcIndex p"
  let ?a = "\<lparr>acBlock = pcBlock p, acText = '''', acJson = '''', acSignature = ''''\<rparr>"
  let ?t = "t\<lparr>tuOpen := [(?i, ?a)]\<rparr>"
  have op: "mput ?i ?a (tuOpen t) = [(?i, ?a)]" using assms(2) by (simp add: mput_def)
  have "\<exists>e s1. consume_event en (EvBlockStart ?i (Some (pcBlock p))) t (tick s) =
      (None, ?t\<lparr>tuEmitted := e\<rparr>, s1)"
  proof (cases "bType (pcBlock p) = BlockToolUse")
    case True
    then show ?thesis
      using op assms(2)
        quiet_tracked [OF assms(1), of "FToolArgs (bToolUseID (pcBlock p)) (bToolName (pcBlock p)) ''''" ?t "tick s"]
      by (auto intro!: exI [of _ True])
  next
    case False
    then show ?thesis
      using op assms(2) by (intro exI [of _ "tuEmitted t"] exI [of _ "tick s"]) simp
  qed
  then obtain e s1 where 1: "consume_event en (EvBlockStart ?i (Some (pcBlock p))) t (tick s) =
      (None, ?t\<lparr>tuEmitted := e\<rparr>, s1)" by blast
  obtain e2 s2 where 2: "consume en (delta_events ?i (pcDeltas p) @ EvBlockStop ?i # evs) (?t\<lparr>tuEmitted := e\<rparr>) s1 =
      consume en (EvBlockStop ?i # evs) (?t\<lparr>tuOpen := [(?i, acc_fold (pcDeltas p) ?a)], tuEmitted := e2\<rparr>) s2"
    using quiet_deltas [OF assms(1), of "?t\<lparr>tuEmitted := e\<rparr>" ?i ?a "pcDeltas p" "EvBlockStop ?i # evs" s1] by auto
  let ?t2 = "t\<lparr>tuOpen := [(?i, acc_fold (pcDeltas p) ?a)], tuEmitted := e2\<rparr>"
  obtain blk err where f: "acc_finalize (eParse en) (acc_fold (pcDeltas p) ?a) = (blk, err)" by force
  note b = finalize_assemble(1) [OF f] and err = finalize_assemble(2) [OF f]
  have "\<exists>t3 s3. append_finalized en (acc_fold (pcDeltas p) ?a) ?t2 (tick s2) = (t3, s3) \<and>
      tuContent t3 = tuContent t @ [assemble (eParse en) p] \<and>
      tuCalls t3 = tuCalls t @ piece_call (eParse en) p \<and>
      tuOpen t3 = tuOpen ?t2 \<and> tuStop t3 = tuStop t \<and> tuUsage t3 = tuUsage t"
    unfolding append_finalized_def f
    using assms(1) b err
    by (simp add: piece_call_def Let_def emit_tracked_def emit_def quiet_def)
  then obtain t3 s3 where 3: "append_finalized en (acc_fold (pcDeltas p) ?a) ?t2 (tick s2) = (t3, s3)"
    "tuContent t3 = tuContent t @ [assemble (eParse en) p]"
    "tuCalls t3 = tuCalls t @ piece_call (eParse en) p"
    "tuOpen t3 = tuOpen ?t2" "tuStop t3 = tuStop t" "tuUsage t3 = tuUsage t" by blast
  have 4: "consume_event en (EvBlockStop ?i) ?t2 (tick s2) = (None, t3\<lparr>tuOpen := []\<rparr>, s3)"
    using 3 by (simp add: mget_def mdel_def)
  have "consume en (piece_events p @ evs) t s = consume en evs (t3\<lparr>tuOpen := []\<rparr>) s3"
    using quiet_consume_step [OF assms(1) 1] 2 quiet_consume_step [OF assms(1) 4]
    by (simp add: piece_events_def)
  with 3 show ?thesis by (intro exI [of _ "t3\<lparr>tuOpen := []\<rparr>"] exI [of _ s3]) simp
qed

lemma quiet_pieces:
  assumes "quiet en" "tuOpen t = []"
  shows "\<exists>t' s'. consume en (concat (map piece_events ps) @ evs) t s = consume en evs t' s' \<and>
    tuContent t' = tuContent t @ map (assemble (eParse en)) ps \<and>
    tuCalls t' = tuCalls t @ concat (map (piece_call (eParse en)) ps) \<and> tuOpen t' = [] \<and>
    tuStop t' = tuStop t \<and> tuUsage t' = tuUsage t"
  using assms(2)
proof (induction ps arbitrary: t s)
  case Nil
  then show ?case by (intro exI [of _ t] exI [of _ s]) simp
next
  case (Cons p ps)
  obtain t1 s1 where 1: "consume en (piece_events p @ concat (map piece_events ps) @ evs) t s =
      consume en (concat (map piece_events ps) @ evs) t1 s1"
    "tuContent t1 = tuContent t @ [assemble (eParse en) p]"
    "tuCalls t1 = tuCalls t @ piece_call (eParse en) p" "tuOpen t1 = []"
    "tuStop t1 = tuStop t" "tuUsage t1 = tuUsage t"
    using quiet_piece [OF assms(1) Cons.prems, of p "concat (map piece_events ps) @ evs" s] by blast
  from Cons.IH [OF 1(4), of s1] 1 show ?case by auto
qed

subsection \<open>Properties\<close>

text \<open>C33: a stream of complete blocks, whatever the sizes of their fragments, followed by a stop
  reason, is assembled to exactly those blocks in order: each text and thinking block with the
  concatenation of its fragments, each tool use with its arguments decoded from the concatenated
  JSON or carrying the decoding error, and with exactly the calls of its tool-use blocks.\<close>
theorem stream_reassembly:
  assumes "quiet en"
    and "eStream en (sClock s) (mcRequest c) =
           Inr (concat (map piece_events ps) @ [EvMessageStop stop u])"
  shows "\<exists>r s'. real_attempt en c s = ((r, None), c, s') \<and>
    mrAssistant r = \<lparr>mRole = RoleAssistant, mContent = map (assemble (eParse en)) ps\<rparr> \<and>
    mrCalls r = concat (map (piece_call (eParse en)) ps) \<and> mrStop r = stop \<and> mrUsage r = u"
proof -
  obtain t1 s1 where 1: "consume en (concat (map piece_events ps) @ [EvMessageStop stop u]) turn_start (tick s) =
      consume en [EvMessageStop stop u] t1 s1"
    "tuContent t1 = map (assemble (eParse en)) ps"
    "tuCalls t1 = concat (map (piece_call (eParse en)) ps)" "tuOpen t1 = []"
    "tuStop t1 = StopUnknown" "tuUsage t1 = None"
    using quiet_pieces [OF assms(1), of turn_start ps "[EvMessageStop stop u]" "tick s"]
    by (auto simp: turn_start_def)
  have "consume en [EvMessageStop stop u] t1 s1 =
      (None, t1\<lparr>tuStop := stop, tuUsage := u\<rparr>, tick (tick (tick s1)))"
    using 1 assms(1) by (simp add: ctx_pair quiet_def mkeys_def merge_usage_def split: option.split)
  with 1 have "real_attempt en c s =
      ((turn_result (t1\<lparr>tuStop := stop, tuUsage := u\<rparr>), None), c, tick (tick (tick s1)))"
    using assms(2) by (simp add: real_attempt_def)
  with 1 show ?thesis by (simp add: turn_result_def)
qed


definition sample_env :: "(nat \<Rightarrow> provider_event list) \<Rightarrow> env" where
  "sample_env evs = \<lparr>eSelect = (\<lambda>_. None), eCtxErr = (\<lambda>_. None), eEmit = (\<lambda>_ _ _. None),
     eStream = (\<lambda>n _. Inr (evs n)),
     eParse = (\<lambda>s. if s = ''{}'' then Inr (Some []) else Inl ''unexpected end of JSON input''),
     eRegex = (\<lambda>_. None), eFresh = nat_digits, eQueueErr = (\<lambda>_ _. None),
     eCallTool = (\<lambda>_ n _. ToolReturns \<lparr>trContent = n, trIsError = False, trNested = [], trGenerativeUI = None\<rparr>)\<rparr>"

definition sample_request :: request where
  "sample_request = \<lparr>rqModel = ''m'', rqSystem = '''', rqMessages = [], rqTools = [], rqMaxTokens = 100,
     rqCacheablePrefix = False, rqTemperature = None, rqTopP = None, rqStopSequences = [],
     rqThinking = None\<rparr>"

definition sample_pieces :: "piece list" where
  "sample_pieces =
     [\<lparr>pcIndex = 0, pcBlock = text_block '''', pcDeltas = [(''he'', ''''), (''llo'', '''')]\<rparr>,
      \<lparr>pcIndex = 1, pcBlock = tool_use_block ''t1'' ''ls'' None '''', pcDeltas = [(''{'', ''''), (''}'', '''')]\<rparr>]"

lemma stream_reassembly_witness:
  "\<exists>r s'. real_attempt (sample_env (\<lambda>_. concat (map piece_events sample_pieces) @ [EvMessageStop StopToolUse None]))
      \<lparr>mcRequest = sample_request, mcView = []\<rparr> (init_lstate 0) =
      ((r, None), \<lparr>mcRequest = sample_request, mcView = []\<rparr>, s') \<and>
    map bText (mContent (mrAssistant r)) = [''hello'', ''''] \<and>
    mrCalls r = [\<lparr>cID = ''t1'', cName = ''ls'', cArgs = Some [], cArgsError = ''''\<rparr>]"
proof -
  let ?e = "sample_env (\<lambda>_. concat (map piece_events sample_pieces) @ [EvMessageStop StopToolUse None])"
  let ?c = "\<lparr>mcRequest = sample_request, mcView = []\<rparr>"
  have q: "quiet ?e" by (simp add: quiet_def sample_env_def)
  have st: "eStream ?e (sClock (init_lstate 0)) (mcRequest ?c) =
      Inr (concat (map piece_events sample_pieces) @ [EvMessageStop StopToolUse None])"
    by (simp add: sample_env_def)
  have p: "eParse ?e = (\<lambda>s. if s = ''{}'' then Inr (Some []) else Inl ''unexpected end of JSON input'')"
    by (simp add: sample_env_def)
  have m: "map bText (map (assemble (eParse ?e)) sample_pieces) = [''hello'', '''']"
    "concat (map (piece_call (eParse ?e)) sample_pieces) =
      [\<lparr>cID = ''t1'', cName = ''ls'', cArgs = Some [], cArgsError = ''''\<rparr>]"
    unfolding p by code_simp+
  obtain r s' where k: "real_attempt ?e ?c (init_lstate 0) = ((r, None), ?c, s')"
    and c: "mrAssistant r = \<lparr>mRole = RoleAssistant, mContent = map (assemble (eParse ?e)) sample_pieces\<rparr>"
      "mrCalls r = concat (map (piece_call (eParse ?e)) sample_pieces)"
    using stream_reassembly [OF q st] by blast
  show ?thesis
    by (rule exI [of _ r], rule exI [of _ s'], intro conjI)
      (use k in assumption, simp only: c m message.simps, simp only: c m)
qed


end
