(* ===== verification/LoopTools.thy ===== *)
theory LoopTools
  imports AgentStream
begin

section \<open>The tool half of the agent loop\<close>

text \<open>
  The \<open>Loop\<close> record with its registration functions and the part of
  \<open>internal/agent/loop.go\<close> that deals with a batch of tool calls: the schema with the
  injected \<open>description\<close>, the interaction gate, the sequential screen and the fan-out of
  \<open>dispatch\<close>, \<open>ToolExecutor\<close>, the synthetic results of a batch that is not dispatched and
  \<open>recordToolResults\<close>; \<open>gategroup.go\<close>; and of \<open>middleware.go\<close> the tool chain and
  \<open>RedactMW\<close>. A tool layer may panic; a panicking layer becomes an error result.
\<close>

subsection \<open>The loop and its middleware\<close>

datatype 'a layer_out = LayerReturns 'a | LayerPanics string

type_synonym tool_call = "call \<times> tool"
type_synonym tool_handler = "tool_call \<Rightarrow> tool_result"
type_synonym gate_func = "nat \<Rightarrow> tool \<Rightarrow> bool \<times> string"
  \<comment> \<open>the first argument is the moment at which the context is read\<close>
type_synonym hook = "lstate \<Rightarrow> lerr option \<times> lstate"

record tool_layer =
  tlName :: string
  tlWrap :: "tool_handler \<Rightarrow> tool_call \<Rightarrow> tool_result layer_out"

record model_layer =
  mlName :: string
  mlWrap :: "model_handler \<Rightarrow> model_call \<Rightarrow> lstate \<Rightarrow>
    (model_result \<times> lerr option) layer_out \<times> model_call \<times> lstate"

record loop_config =
  cfgModel :: string
  cfgSystem :: string
  cfgMaxTokens :: int
  cfgMaxIterations :: int
  cfgCacheablePrefix :: bool
  cfgTemperature :: "float64 option"
  cfgTopP :: "float64 option"
  cfgStopSequences :: "string list"
  cfgThinkingBudget :: int

record agent_loop =
  lConfig :: loop_config
  lTools :: registry
  lBefore :: "hook list"
  lAfterModel :: "hook list"
  lAfterRun :: "(bool \<Rightarrow> hook) list" \<comment> \<open>the flag: a context detached from cancellation\<close>
  lModelWrap :: "model_layer list"
  lToolWrap :: "tool_layer list"
  lGateInteraction :: "gate_func option"
  lGateExecute :: "gate_func option"

text \<open>A middleware, by the hooks it implements.\<close>

record middleware =
  mwBefore :: "hook option"
  mwAfterModel :: "hook option"
  mwAfterRun :: "(bool \<Rightarrow> hook) option"
  mwModel :: "model_layer option"
  mwTool :: "tool_layer option"
  mwGate :: "gate_func option option" \<comment> \<open>outer \<open>None\<close>: no \<open>GateFuncProvider\<close>; inner: \<open>nil\<close> gate\<close>

definition opt_list :: "'a option \<Rightarrow> 'a list" where
  "opt_list x = (case x of None \<Rightarrow> [] | Some y \<Rightarrow> [y])"

definition use_one :: "middleware \<Rightarrow> agent_loop \<Rightarrow> agent_loop" where
  "use_one m l =
     (let l1 = l\<lparr>lBefore := lBefore l @ opt_list (mwBefore m),
                 lAfterModel := lAfterModel l @ opt_list (mwAfterModel m),
                 lAfterRun := lAfterRun l @ opt_list (mwAfterRun m),
                 lModelWrap := lModelWrap l @ opt_list (mwModel m),
                 lToolWrap := lToolWrap l @ opt_list (mwTool m)\<rparr>
      in case mwGate m of
           None \<Rightarrow> l1
         | Some gate \<Rightarrow>
             if lGateInteraction l1 \<noteq> None then l1
             else l1\<lparr>lGateInteraction := gate, lGateExecute := gate\<rparr>)"

definition use_all :: "middleware list \<Rightarrow> agent_loop \<Rightarrow> agent_loop" where
  "use_all ms l = fold use_one ms l"

definition with_tools :: "registry option \<Rightarrow> agent_loop \<Rightarrow> agent_loop" where
  "with_tools reg l = (case reg of None \<Rightarrow> l | Some r \<Rightarrow> l\<lparr>lTools := r\<rparr>)"

definition register_tool :: "tool \<Rightarrow> agent_loop \<Rightarrow> agent_loop" where
  "register_tool t l = l\<lparr>lTools := register t (lTools l)\<rparr>"

subsection \<open>The gate group\<close>

text \<open>\<open>GateGroup.eval\<close>: a \<open>nil\<close> gate is skipped, the first deny wins.\<close>

fun gate_group :: "gate_func option list \<Rightarrow> gate_func" where
  "gate_group [] n t = (False, '''')"
| "gate_group (g # gs) n t =
     (case g of None \<Rightarrow> gate_group gs n t
      | Some gate \<Rightarrow>
          let (deny, reason) = gate n t
          in if deny then (True, reason) else gate_group gs n t)"

lemma gate_group_denies:
  "fst (gate_group gs n t) \<longleftrightarrow> (\<exists>g. Some g \<in> set gs \<and> fst (g n t))"
  by (induction gs n t rule: gate_group.induct) (auto split: option.splits prod.splits)

lemma gate_group_reason:
  "gate_group (pre @ Some g # post) n t = g n t"
  if "\<forall>h. Some h \<in> set pre \<longrightarrow> \<not> fst (h n t)" "fst (g n t)"
  using that by (induction pre) (auto split: option.splits prod.splits)

subsection \<open>The injected description\<close>

definition description_key :: string where
  "description_key = ''description''"

definition with_description_prop :: "jargs \<Rightarrow> jargs" where
  "with_description_prop schema =
     (case schema of None \<Rightarrow> None
      | Some m \<Rightarrow>
          (case obj_field (jget m ''properties'') of
             None \<Rightarrow> Some m
           | Some props \<Rightarrow>
               if jget props description_key \<noteq> None then Some m
               else Some (mput ''properties''
                      (JObj (mput description_key (JObj [(''type'', JStr ''string'')]) props)) m)))"

definition strip_description :: "jargs \<Rightarrow> jargs" where
  "strip_description args =
     (case args of None \<Rightarrow> None
      | Some m \<Rightarrow> if jget m description_key = None then Some m else Some (mdel description_key m))"

definition schema_for_validation :: "tool \<Rightarrow> jargs" where
  "schema_for_validation t = with_description_prop (tSchema t)"

definition tool_defs :: "agent_loop \<Rightarrow> tool_definition list" where
  "tool_defs l = map (\<lambda>t. \<lparr>tdName = tName t, tdDescription = tDescription t,
     tdInputSchema = with_description_prop (tSchema t)\<rparr>) (reg_all (lTools l))"

text \<open>The schema screen that the interaction gate and the dispatch share.\<close>

definition args_violation :: "env \<Rightarrow> tool \<Rightarrow> jargs \<Rightarrow> string option" where
  "args_violation en t args = validate_args (eRegex en) (schema_for_validation t) (strip_description args)"

subsection \<open>The interaction gate\<close>

definition ApprovalReasonPrefix :: string where
  "ApprovalReasonPrefix = ''approval required: ''"

definition is_approval_reason :: "string \<Rightarrow> bool" where
  "is_approval_reason reason = has_prefix reason ApprovalReasonPrefix"

definition AskUserToolName :: string where
  "AskUserToolName = ''ask_user''"

text \<open>The kind of interaction a call needs (\<open>None\<close>: none).\<close>

definition gate_kind :: "env \<Rightarrow> agent_loop \<Rightarrow> nat \<Rightarrow> call \<Rightarrow> string option" where
  "gate_kind en l n c =
     (if cArgsError c \<noteq> '''' then None
      else let tl = reg_get (lTools l) (cName c) in
        if (case tl of None \<Rightarrow> False | Some t \<Rightarrow> args_violation en t (cArgs c) \<noteq> None) then None
        else if cName c = AskUserToolName then Some ''ask_user''
        else (case tl of
                None \<Rightarrow> None
              | Some t \<Rightarrow>
                  if is_client_tool t then Some ''client_tool''
                  else (case lGateInteraction l of
                          None \<Rightarrow> None
                        | Some gate \<Rightarrow>
                            let (deny, reason) = gate n t
                            in if deny \<and> is_approval_reason reason then Some ''approval'' else None)))"

fun gate_scan :: "env \<Rightarrow> agent_loop \<Rightarrow> nat \<Rightarrow> call list \<Rightarrow> nat \<Rightarrow> call list \<Rightarrow> loop_interaction list" where
  "gate_scan en l n batch k [] = []"
| "gate_scan en l n batch k (c # cs) =
     (case gate_kind en l n c of
        None \<Rightarrow> gate_scan en l n batch k cs
      | Some kd \<Rightarrow>
          \<lparr>iID = eFresh en (n + k), iKind = kd, iToolCallID = cID c, iToolName = cName c,
           iInput = cArgs c, iBatch = batch\<rparr> # gate_scan en l n batch (Suc k) cs)"

definition interaction_gate :: "env \<Rightarrow> agent_loop \<Rightarrow> nat \<Rightarrow> call list \<Rightarrow> loop_interaction list" where
  "interaction_gate en l n calls = gate_scan en l n calls 0 calls"

subsection \<open>The tool chain\<close>

definition guard_layer :: "tool_layer \<Rightarrow> tool_handler \<Rightarrow> tool_handler" where
  "guard_layer m next tc =
     (case tlWrap m next tc of
        LayerReturns r \<Rightarrow> r
      | LayerPanics p \<Rightarrow> error_result
          (''tool middleware '' @ fmt_q (tlName m) @ '' panicked: '' @ p))"

definition chain_tool :: "tool_layer list \<Rightarrow> tool_handler \<Rightarrow> tool_handler" where
  "chain_tool mw inner = foldr guard_layer mw inner"

text \<open>The registry with the behaviour its tools have at moment \<open>n\<close>.\<close>

definition reg_at :: "env \<Rightarrow> nat \<Rightarrow> registry \<Rightarrow> registry" where
  "reg_at en n r = r\<lparr>rTools := map (\<lambda>(k, t). (k, t\<lparr>tCall := eCallTool en n (tName t)\<rparr>)) (rTools r)\<rparr>"

definition real_tool_call :: "env \<Rightarrow> nat \<Rightarrow> agent_loop \<Rightarrow> tool_handler" where
  "real_tool_call en n l tc =
     reg_call (reg_at en n (lTools l)) (eQueueErr en n (cID (fst tc))) (cName (fst tc)) (cArgs (fst tc))"

definition run_chained_calls :: "env \<Rightarrow> nat \<Rightarrow> agent_loop \<Rightarrow> tool_call list \<Rightarrow> tool_result list" where
  "run_chained_calls en n l calls =
     (let handler = chain_tool (lToolWrap l) (real_tool_call en n l) in map handler calls)"

subsection \<open>Dispatch\<close>

definition invalid_args :: "string \<Rightarrow> tool_result" where
  "invalid_args e = error_result (''invalid tool arguments: '' @ e)"

text \<open>The screen of one call: its result, or the live call handed to the chain.\<close>

definition screen :: "env \<Rightarrow> agent_loop \<Rightarrow> nat \<Rightarrow> call \<Rightarrow> tool_result + tool_call" where
  "screen en l n c =
     (if cArgsError c \<noteq> '''' then Inl (invalid_args (cArgsError c))
      else case reg_get (lTools l) (cName c) of
          None \<Rightarrow> Inl (unknown_tool (lTools l) (cName c))
        | Some t \<Rightarrow>
            (case args_violation en t (cArgs c) of
               Some v \<Rightarrow> Inl (invalid_args v)
             | None \<Rightarrow>
                 let c1 = c\<lparr>cArgs := strip_description (cArgs c)\<rparr> in
                 (case lGateExecute l of
                    None \<Rightarrow> Inr (c1, t)
                  | Some gate \<Rightarrow>
                      let (deny, reason) = gate n t
                      in if deny then Inl (error_result (''permission denied: '' @ reason))
                         else Inr (c1, t))))"

fun live_calls :: "('r + 'c) list \<Rightarrow> 'c list" where
  "live_calls [] = []"
| "live_calls (Inl r # xs) = live_calls xs"
| "live_calls (Inr tc # xs) = tc # live_calls xs"

text \<open>\<open>results[liveIdx[j]] = got[j]\<close>: the screened slots keep their result, the live ones are
  filled in order.\<close>

fun fill :: "(tool_result + 'c) list \<Rightarrow> tool_result list \<Rightarrow> tool_result list" where
  "fill [] got = []"
| "fill (Inl r # xs) got = r # fill xs got"
| "fill (Inr tc # xs) [] = error_result '''' # fill xs []"
| "fill (Inr tc # xs) (g # got) = g # fill xs got"

definition dispatch :: "env \<Rightarrow> agent_loop \<Rightarrow> call list \<Rightarrow> lstate \<Rightarrow> tool_result list \<times> lstate" where
  "dispatch en l calls s =
     (let n = sClock s; sc = map (screen en l n) calls; live = live_calls sc
      in (fill sc (run_chained_calls en n l live),
          (tick s)\<lparr>sLive := sLive s @ map fst live\<rparr>))"

text \<open>\<open>ToolExecutor\<close>: only the unknown-tool screen.\<close>

definition executor_screen :: "agent_loop \<Rightarrow> call \<Rightarrow> tool_result + tool_call" where
  "executor_screen l c =
     (case reg_get (lTools l) (cName c) of
        None \<Rightarrow> Inl (unknown_tool (lTools l) (cName c))
      | Some t \<Rightarrow> Inr (c\<lparr>cArgs := strip_description (cArgs c)\<rparr>, t))"

definition tool_executor :: "env \<Rightarrow> agent_loop \<Rightarrow> nat \<Rightarrow> call list \<Rightarrow> tool_result list" where
  "tool_executor en l n calls =
     (let sc = map (executor_screen l) calls
      in fill sc (run_chained_calls en n l (live_calls sc)))"

subsection \<open>A batch that is not dispatched\<close>

definition fail_all :: "string \<Rightarrow> call list \<Rightarrow> tool_result list" where
  "fail_all content calls = map (\<lambda>_. error_result content) calls"

definition cancelled_call_results :: "call list \<Rightarrow> tool_result list" where
  "cancelled_call_results calls = fail_all
     ''not executed: the run was cancelled before this tool call could be dispatched'' calls"

definition max_tokens_limit_text :: "int \<Rightarrow> string" where
  "max_tokens_limit_text n =
     (if n \<le> 0 then ''the max_tokens limit'' else ''the max_tokens limit ('' @ itoa n @ '')'')"

definition truncated_call_results :: "call list \<Rightarrow> int \<Rightarrow> tool_result list" where
  "truncated_call_results calls maxTokens = fail_all
     (''not executed: the response hit '' @ max_tokens_limit_text maxTokens @
      '' while this tool call was being written, so its arguments may be incomplete. Re-issue the call with complete arguments, keeping the response shorter.'') calls"

definition unknown_stop_call_results :: "call list \<Rightarrow> tool_result list" where
  "unknown_stop_call_results calls = fail_all
     ''not executed: the provider closed the stream without reporting a finish reason, so this tool call may be incomplete. Re-issue the call with complete arguments.'' calls"

definition stop_reason_text :: "stop_reason \<Rightarrow> string" where
  "stop_reason_text stop = (if stop = StopUnknown then ''none reported'' else stop_string stop)"

definition early_stop_call_results :: "call list \<Rightarrow> stop_reason \<Rightarrow> tool_result list" where
  "early_stop_call_results calls stop = fail_all
     (''not executed: the response ended early (stop reason: '' @ stop_reason_text stop @
      '') while these tool calls were being written, so the batch may be incomplete. Re-issue the call with complete arguments.'') calls"

definition interrupt_failed_call_results :: "call list \<Rightarrow> tool_result list" where
  "interrupt_failed_call_results calls = fail_all
     ''not executed: the run ended abnormally while requesting client input for this tool call. Re-issue the call to try again.'' calls"

definition aborted_call_results :: "call list \<Rightarrow> tool_result list" where
  "aborted_call_results calls = fail_all
     ''not executed: the run was aborted by middleware before this tool call could be dispatched'' calls"

subsection \<open>Recording the results of a batch\<close>

definition emptyToolResultPlaceholder :: string where
  "emptyToolResultPlaceholder = ''(no output)''"

definition result_block :: "call \<Rightarrow> tool_result \<Rightarrow> block" where
  "result_block c r = tool_result_block (cID c)
     (if trContent r = '''' then emptyToolResultPlaceholder else trContent r)
     (trIsError r) (trNested r) (trGenerativeUI r)"

definition tool_result_message :: "call list \<Rightarrow> tool_result list \<Rightarrow> message" where
  "tool_result_message calls results =
     \<lparr>mRole = RoleUser, mContent = map (\<lambda>(c, r). result_block c r) (zip calls results)\<rparr>"

fun emit_results :: "env \<Rightarrow> (call \<times> tool_result) list \<Rightarrow> lstate \<Rightarrow> lstate" where
  "emit_results en [] s = s"
| "emit_results en ((c, r) # xs) s =
     (let s1 = emit_ignored en True (FToolResult (cID c) (cName c) (trContent r) (trIsError r)) s;
          s2 = (if trGenerativeUI r \<noteq> None then emit_ignored en True (FGenerativeUI (trGenerativeUI r)) s1 else s1)
      in emit_results en xs s2)"

definition record_tool_results :: "env \<Rightarrow> call list \<Rightarrow> tool_result list \<Rightarrow> lstate \<Rightarrow> lstate" where
  "record_tool_results en calls results s =
     (let s1 = emit_results en (zip calls results) s;
          msg = tool_result_message calls results
      in emit_ignored en True (FMessage msg) (s1\<lparr>sProduced := sProduced s1 @ [msg]\<rparr>))"

definition empty_block :: "block \<Rightarrow> bool" where
  "empty_block b =
     (\<not> bCachePoint b \<and>
      (bType b = BlockText \<and> bText b = '''' \<or>
       bType b = BlockThinking \<and> bThinking b = '''' \<and> bSignature b = ''''))"

definition drop_empty_blocks :: "block list \<Rightarrow> block list" where
  "drop_empty_blocks blocks = filter (\<lambda>b. \<not> empty_block b) blocks"

subsection \<open>Redaction of tool results\<close>

text \<open>The redactor is an argument; a tree of nested blocks is redacted at every depth.\<close>

fun redact_fields :: "(string \<Rightarrow> string) \<Rightarrow> block \<Rightarrow> block" where
  "redact_fields red b =
     (case bType b of
        BlockText \<Rightarrow> set_text (red (bText b)) b
      | BlockThinking \<Rightarrow> set_thinking (red (bThinking b)) b
      | BlockToolResult \<Rightarrow> set_tool_content (red (bToolContent b)) b
      | _ \<Rightarrow> b)"

primrec redact_block :: "(string \<Rightarrow> string) \<Rightarrow> block \<Rightarrow> block" where
  "redact_block red (Block ty tx th sg ui nm inp ae ri ct er nested gu mt ip im cp) =
     redact_fields red (Block ty tx th sg ui nm inp ae ri ct er (map (redact_block red) nested) gu mt ip im cp)"

definition redact_blocks :: "(string \<Rightarrow> string) \<Rightarrow> block list \<Rightarrow> block list" where
  "redact_blocks red blocks = map (redact_block red) blocks"

definition redact_result :: "(string \<Rightarrow> string) option \<Rightarrow> tool_result \<Rightarrow> tool_result" where
  "redact_result redactor res =
     (case redactor of None \<Rightarrow> res
      | Some red \<Rightarrow>
          let r1 = (if trContent res \<noteq> '''' then res\<lparr>trContent := red (trContent res)\<rparr> else res)
          in (if trNested r1 \<noteq> [] then r1\<lparr>trNested := redact_blocks red (trNested r1)\<rparr> else r1))"

definition redact_layer :: "(string \<Rightarrow> string) option \<Rightarrow> tool_layer" where
  "redact_layer redactor = \<lparr>tlName = ''redact'',
     tlWrap = (\<lambda>next tc. LayerReturns (redact_result redactor (next tc)))\<rparr>"

subsection \<open>Facts about a batch\<close>

lemma fill_map: "fill sc (map h (live_calls sc)) = map (\<lambda>x. case x of Inl r \<Rightarrow> r | Inr tc \<Rightarrow> h tc) sc"
  by (induction sc rule: live_calls.induct) simp_all

lemma dispatch_results:
  "fst (dispatch en l calls s) =
     map (\<lambda>c. case screen en l (sClock s) c of Inl r \<Rightarrow> r
       | Inr tc \<Rightarrow> chain_tool (lToolWrap l) (real_tool_call en (sClock s) l) tc) calls"
  by (simp add: dispatch_def Let_def run_chained_calls_def fill_map comp_def)

lemma executor_results:
  "tool_executor en l n calls =
     map (\<lambda>c. case executor_screen l c of Inl r \<Rightarrow> r
       | Inr tc \<Rightarrow> chain_tool (lToolWrap l) (real_tool_call en n l) tc) calls"
  by (simp add: tool_executor_def Let_def run_chained_calls_def fill_map comp_def)

lemma dispatch_length [simp]: "length (fst (dispatch en l calls s)) = length calls"
  by (simp add: dispatch_results)

lemma dispatch_state:
  "snd (dispatch en l calls s) =
     (tick s)\<lparr>sLive := sLive s @ map fst (live_calls (map (screen en l (sClock s)) calls))\<rparr>"
  by (simp add: dispatch_def Let_def)

lemma in_live_calls: "tc \<in> set (live_calls xs) \<longleftrightarrow> Inr tc \<in> set xs"
  by (induction xs rule: live_calls.induct) auto

lemma screen_Inr:
  "screen en l n c = Inr (c1, t) \<longleftrightarrow>
     cArgsError c = '''' \<and> reg_get (lTools l) (cName c) = Some t \<and>
     args_violation en t (cArgs c) = None \<and>
     (\<forall>gate. lGateExecute l = Some gate \<longrightarrow> \<not> fst (gate n t)) \<and>
     c1 = c\<lparr>cArgs := strip_description (cArgs c)\<rparr>"
  by (auto simp: screen_def Let_def split: option.splits prod.splits)

lemma fail_all_length [simp]: "length (fail_all x calls) = length calls"
  by (simp add: fail_all_def)

lemmas batch_results_defs =
  cancelled_call_results_def truncated_call_results_def unknown_stop_call_results_def
  early_stop_call_results_def interrupt_failed_call_results_def aborted_call_results_def

lemma batch_results_length [simp]:
  "length (cancelled_call_results calls) = length calls"
  "length (truncated_call_results calls n) = length calls"
  "length (unknown_stop_call_results calls) = length calls"
  "length (early_stop_call_results calls st) = length calls"
  "length (interrupt_failed_call_results calls) = length calls"
  "length (aborted_call_results calls) = length calls"
  by (simp_all add: batch_results_defs)

lemma tool_result_message_ids:
  "length results = length calls \<Longrightarrow>
     result_ids (mContent (tool_result_message calls results)) = map cID calls"
  unfolding tool_result_message_def
  by (induction calls results rule: list_induct2') (simp_all add: result_block_def)

lemma tool_result_message_role [simp]: "mRole (tool_result_message calls results) = RoleUser"
  by (simp add: tool_result_message_def)

lemma tool_result_message_content:
  "b \<in> set (mContent (tool_result_message calls results)) \<Longrightarrow>
     bType b = BlockToolResult \<and> bToolContent b \<noteq> ''''"
proof -
  have *: "bType (result_block c r) = BlockToolResult \<and> bToolContent (result_block c r) \<noteq> ''''" for c r
    by (simp add: result_block_def emptyToolResultPlaceholder_def)
  assume "b \<in> set (mContent (tool_result_message calls results))"
  then obtain x where "b = (case x of (c, r) \<Rightarrow> result_block c r)"
    unfolding tool_result_message_def by (simp only: message.simps set_map) blast
  with * show ?thesis by (cases x) simp
qed

lemma emit_results_spec:
  "extends progress_frame s (emit_results en xs s) \<and> sView (emit_results en xs s) = sView s \<and>
   sViewDropped (emit_results en xs s) = sViewDropped s"
proof (induction xs arbitrary: s)
  case Nil
  then show ?case by simp
next
  case (Cons x xs)
  obtain c r where x: "x = (c, r)" by force
  let ?s1 = "emit_ignored en True (FToolResult (cID c) (cName c) (trContent r) (trIsError r)) s"
  let ?s2 = "if trGenerativeUI r \<noteq> None then emit_ignored en True (FGenerativeUI (trGenerativeUI r)) ?s1 else ?s1"
  have p: "progress_frame (FToolResult i n t e)" "progress_frame (FGenerativeUI g)" for i n t e g
    by (simp_all add: progress_frame_def ends_run_def)
  have s1: "extends progress_frame s ?s1" using extends_refl p(1) by (rule extends_emit)
  have s2: "extends progress_frame s ?s2"
    by (cases "trGenerativeUI r \<noteq> None")
      (simp_all only: if_True if_False not_False_eq_True simp_thms s1 extends_emit [OF s1 p(2)])
  have v: "sView ?s2 = sView s" "sViewDropped ?s2 = sViewDropped s" by simp_all
  have e: "emit_results en (x # xs) s = emit_results en xs ?s2" by (simp add: x Let_def)
  have IH: "extends progress_frame ?s2 (emit_results en xs ?s2)"
    "sView (emit_results en xs ?s2) = sView ?s2" "sViewDropped (emit_results en xs ?s2) = sViewDropped ?s2"
    using Cons [of ?s2] by blast+
  show ?case unfolding e using extends_trans [OF s2 IH(1)] IH(2,3) v by (intro conjI) (simp_all only:)
qed

lemma drop_empty_ids: "use_ids (drop_empty_blocks bs) = use_ids bs"
  by (induction bs) (auto simp: drop_empty_blocks_def empty_block_def)

lemma drop_empty_match: "calls_match (drop_empty_blocks bs) cs = calls_match bs cs"
proof -
  have "tool_uses (drop_empty_blocks bs) = tool_uses bs"
    by (induction bs) (auto simp: drop_empty_blocks_def empty_block_def tool_uses_def)
  then show ?thesis by (simp add: calls_match_def)
qed

lemma gate_scan_spec:
  "map (\<lambda>i. (iKind i, iToolCallID i, iToolName i, iInput i, iBatch i)) (gate_scan en l n batch k calls) =
   map (\<lambda>c. (the (gate_kind en l n c), cID c, cName c, cArgs c, batch))
     (filter (\<lambda>c. gate_kind en l n c \<noteq> None) calls)"
  by (induction calls arbitrary: k) (auto split: option.splits)

lemma gate_scan_ids:
  "map iID (gate_scan en l n batch k calls) =
   map (\<lambda>j. eFresh en (n + j)) [k..<k + length (filter (\<lambda>c. gate_kind en l n c \<noteq> None) calls)]"
proof (induction calls arbitrary: k)
  case (Cons c cs)
  have "[k..<k + Suc m] = k # [Suc k..<Suc k + m]" for m
    by (simp add: upt_conv_Cons del: upt_Suc)
  with Cons [of k] Cons [of "Suc k"] show ?case
    by (cases "gate_kind en l n c") (simp_all del: upt_Suc)
qed simp


subsection \<open>The injected description decides nothing\<close>

lemma description_injected:
  assumes "jget schema ''type'' = Some (JStr ''object'')"
    and "obj_field (jget schema ''properties'') = Some props"
    and "jget props description_key = None"
  shows "validate_args re (with_description_prop (Some schema)) (strip_description (Some args)) = None \<longleftrightarrow>
    validate_args re (Some schema) (strip_description (Some args)) = None"
proof -
  let ?desc = "JObj [(''type'', JStr ''string'')]"
  let ?m = "mput ''properties'' (JObj (mput description_key ?desc props)) schema"
  obtain a where a: "strip_description (Some args) = Some a" "jget a description_key = None"
    by (cases "jget args description_key") (auto simp: strip_description_def jget_def)
  have m: "jget ?m k = (if k = ''properties'' then Some (JObj (mput description_key ?desc props)) else jget schema k)" for k
    by (simp add: jget_def)
  have d: "k \<noteq> description_key" if "(k, v) \<in> set a" for k v
    using a(2) that by (auto simp: jget_def mget_def map_of_eq_None_iff image_iff)
  have sub: "sub_schema (Some (mput description_key ?desc props)) k = sub_schema (Some props) k"
    if "k \<noteq> description_key" for k
    using that by (simp add: sub_schema_def jget_def)
  have 1: "with_description_prop (Some schema) = Some ?m"
    using assms by (simp add: with_description_prop_def)
  have t: "jget ?m ''type'' = Some (JStr ''object'')" using assms(1) by (simp add: m)
  have c: "const_ok ?m v = const_ok schema v" for v
    by (simp add: const_ok_def m)
  have ob: "obj_field (jget ?m ''properties'') = Some (mput description_key ?desc props)"
    by (simp add: m obj_field_def)
  have rest: "jget ?m ''additionalProperties'' = jget schema ''additionalProperties''"
    "jget ?m ''required'' = jget schema ''required''" by (simp_all add: m)
  have "(\<forall>x \<in> set a. case x of (k, v) \<Rightarrow>
      (case sub_schema (Some (mput description_key ?desc props)) k of None \<Rightarrow> X | Some sub \<Rightarrow> Y sub v)) =
    (\<forall>x \<in> set a. case x of (k, v) \<Rightarrow>
      (case sub_schema (Some props) k of None \<Rightarrow> X | Some sub \<Rightarrow> Y sub v))" for X Y
    by (rule ball_cong [OF refl]) (auto simp: sub dest: d)
  then show ?thesis
    unfolding a 1 validate_args_object_iff [OF t] validate_args_object_iff [OF assms(1)] c ob rest assms(2)
    by (simp only: option.distinct simp_thms)
qed

lemma description_neutral:
  assumes "jget schema ''type'' = Some (JStr ''object'')"
  shows "validate_args re (with_description_prop (Some schema)) (strip_description args) = None \<longleftrightarrow>
    validate_args re (Some schema) (strip_description args) = None"
proof (cases "with_description_prop (Some schema) = Some schema")
  case False
  then obtain props where p: "obj_field (jget schema ''properties'') = Some props" "jget props description_key = None"
    by (auto simp: with_description_prop_def split: option.splits if_splits)
  show ?thesis
  proof (cases args)
    case None
    have "strip_description None = None" "strip_description (Some []) = Some []"
      by (simp_all add: strip_description_def jget_def)
    with description_injected [OF assms p, of re "[]"] None show ?thesis
      by (simp add: validate_args_def)
  next
    case (Some a)
    then show ?thesis using description_injected [OF assms p] by simp
  qed
qed simp

subsection \<open>Properties\<close>

text \<open>C32: in a dispatched batch every result stands at the index of its own call; the calls that run
  are, in order, exactly those whose arguments decoded and satisfy the schema of a registered tool
  and whose tool the execution gate does not deny, and they run without the display-only
  description; each of the other calls gets an error result.\<close>
theorem dispatch_screened:
  fixes en l calls s
  defines "res \<equiv> fst (dispatch en l calls s)" and "s' \<equiv> snd (dispatch en l calls s)"
    and "runs \<equiv> \<lambda>c. cArgsError c = '''' \<and> (\<exists>t. reg_get (lTools l) (cName c) = Some t \<and>
          args_violation en t (cArgs c) = None \<and>
          (\<forall>gate. lGateExecute l = Some gate \<longrightarrow> \<not> fst (gate (sClock s) t)))"
  shows "length res = length calls \<and>
    sLive s' = sLive s @ map (\<lambda>c. c\<lparr>cArgs := strip_description (cArgs c)\<rparr>) (filter runs calls) \<and>
    (\<forall>i < length calls.
       if runs (calls ! i)
       then res ! i = chain_tool (lToolWrap l) (real_tool_call en (sClock s) l)
              ((calls ! i)\<lparr>cArgs := strip_description (cArgs (calls ! i))\<rparr>,
               the (reg_get (lTools l) (cName (calls ! i))))
       else trIsError (res ! i))"
proof (intro conjI allI impI)
  let ?n = "sClock s"
  have runs: "runs c \<longleftrightarrow> screen en l ?n c =
      Inr (c\<lparr>cArgs := strip_description (cArgs c)\<rparr>, the (reg_get (lTools l) (cName c)))" for c
    unfolding screen_Inr runs_def by force
  have Inl: "\<exists>r. screen en l ?n c = Inl r \<and> trIsError r" if "\<not> runs c" for c
    using that unfolding runs_def
    by (auto simp: screen_def Let_def invalid_args_def error_result_def unknown_tool_def
        split: option.splits prod.splits)
  show "length res = length calls" by (simp add: res_def)
  have "map fst (live_calls (map (screen en l ?n) calls)) =
      map (\<lambda>c. c\<lparr>cArgs := strip_description (cArgs c)\<rparr>) (filter runs calls)"
  proof (induction calls)
    case (Cons c cs)
    then show ?case using Inl [of c] by (cases "runs c") (auto simp: runs)
  qed simp
  then show "sLive s' = sLive s @ map (\<lambda>c. c\<lparr>cArgs := strip_description (cArgs c)\<rparr>) (filter runs calls)"
    by (simp add: s'_def dispatch_state)
  fix i assume i: "i < length calls"
  show "if runs (calls ! i)
       then res ! i = chain_tool (lToolWrap l) (real_tool_call en ?n l)
              ((calls ! i)\<lparr>cArgs := strip_description (cArgs (calls ! i))\<rparr>,
               the (reg_get (lTools l) (cName (calls ! i))))
       else trIsError (res ! i)"
    using i Inl [of "calls ! i"] runs [of "calls ! i"] by (auto simp: res_def dispatch_results)
qed

text \<open>Executing calls outside a run gives the results the dispatch of a run would give, as long as
  the caller has screened malformed arguments, schema violations and denied tools as the dispatch does.\<close>
theorem executor_agrees_with_dispatch:
  assumes "\<forall>c \<in> set calls. cArgsError c = '''' \<and>
    (\<forall>t. reg_get (lTools l) (cName c) = Some t \<longrightarrow> args_violation en t (cArgs c) = None \<and>
       (\<forall>gate. lGateExecute l = Some gate \<longrightarrow> \<not> fst (gate (sClock s) t)))"
  shows "tool_executor en l (sClock s) calls = fst (dispatch en l calls s)"
proof -
  have "executor_screen l c = screen en l (sClock s) c" if "c \<in> set calls" for c
    using assms that
    by (fastforce simp: executor_screen_def screen_def Let_def split: option.splits prod.splits)
  then show ?thesis
    unfolding executor_results dispatch_results by (simp cong: map_cong)
qed

text \<open>The display-only description that is offered with every tool never decides whether a call is
  valid: for an object schema that does not declare one, the screen accepts a call with it exactly
  when the tool's own schema accepts the call without it.\<close>
theorem description_transparent:
  assumes "jget schema ''type'' = Some (JStr ''object'')"
    and "obj_field (jget schema ''properties'') = Some props"
    and "jget props description_key = None"
  shows "validate_args re (with_description_prop (Some schema)) (strip_description (Some args)) = None \<longleftrightarrow>
    validate_args re (Some schema) (strip_description (Some args)) = None"
  using assms by (rule description_injected)

text \<open>A tool whose schema requires an argument named description can never be called: the loop
  strips the argument before it validates the call, so the screen refuses every call of it.\<close>
theorem required_description_unusable:
  assumes "jget schema ''type'' = Some (JStr ''object'')"
    and "description_key \<in> set (to_string_slice (jget schema ''required''))"
    and "obj_field (jget schema ''properties'') = Some props" "jget props description_key \<noteq> None"
  shows "validate_args re (with_description_prop (Some schema)) (strip_description (Some args)) \<noteq> None"
proof -
  obtain a where a: "strip_description (Some args) = Some a" "jget a description_key = None"
    by (cases "jget args description_key") (auto simp: strip_description_def jget_def)
  have 1: "with_description_prop (Some schema) = Some schema"
    using assms(3,4) by (simp add: with_description_prop_def)
  show ?thesis
    unfolding 1 a using validate_args_object_iff [OF assms(1), of re a] a(2) assms(2) by blast
qed


definition sample_config :: loop_config where
  "sample_config = \<lparr>cfgModel = ''m'', cfgSystem = '''', cfgMaxTokens = 100, cfgMaxIterations = 3,
     cfgCacheablePrefix = False, cfgTemperature = None, cfgTopP = None, cfgStopSequences = [],
     cfgThinkingBudget = 0\<rparr>"

definition sample_loop :: agent_loop where
  "sample_loop = \<lparr>lConfig = sample_config,
     lTools = register (sample_tool ''a'') (register (sample_tool ''b'') new_registry),
     lBefore = [], lAfterModel = [], lAfterRun = [], lModelWrap = [],
     lToolWrap = [redact_layer (Some (\<lambda>_. ''x''))],
     lGateInteraction = Some (\<lambda>_ t. (tName t = ''b'', ''approval required: b'')),
     lGateExecute = Some (\<lambda>_ t. (tName t = ''b'', ''approval required: b''))\<rparr>"

definition sample_calls :: "call list" where
  "sample_calls =
     [\<lparr>cID = ''1'', cName = ''a'', cArgs = Some [(''path'', JStr ''p''), (''description'', JStr ''d'')], cArgsError = ''''\<rparr>,
      \<lparr>cID = ''2'', cName = ''b'', cArgs = Some [(''path'', JStr ''p'')], cArgsError = ''''\<rparr>,
      \<lparr>cID = ''3'', cName = ''a'', cArgs = None, cArgsError = ''bad''\<rparr>]"

lemma sample_screens:
  "args_violation (sample_env e) (sample_tool n) (Some [(''path'', JStr ''p'')]) = None"
  "args_violation (sample_env e) (sample_tool n) (Some [(''path'', JStr ''p''), (''description'', JStr ''d'')]) = None"
proof -
  have "validate_args (\<lambda>_. None) (with_description_prop (Some sample_schema))
      (strip_description (Some [(''path'', JStr ''p'')])) = None"
    "validate_args (\<lambda>_. None) (with_description_prop (Some sample_schema))
      (strip_description (Some [(''path'', JStr ''p''), (''description'', JStr ''d'')])) = None"
    by code_simp+
  then show "args_violation (sample_env e) (sample_tool n) (Some [(''path'', JStr ''p'')]) = None"
    "args_violation (sample_env e) (sample_tool n) (Some [(''path'', JStr ''p''), (''description'', JStr ''d'')]) = None"
    by (simp_all add: args_violation_def sample_env_def schema_for_validation_def sample_tool_def)
qed

lemma sample_get:
  "reg_get (lTools sample_loop) ''a'' = Some (sample_tool ''a'')"
  "reg_get (lTools sample_loop) ''b'' = Some (sample_tool ''b'')"
  by (simp_all add: sample_loop_def reg_get_def register_def sample_tool_def)

lemma dispatch_screened_witness:
  "map cID (sLive (snd (dispatch (sample_env (\<lambda>_. [])) sample_loop sample_calls (init_lstate 0)))) = [''1''] \<and>
   trIsError (fst (dispatch (sample_env (\<lambda>_. [])) sample_loop sample_calls (init_lstate 0)) ! 1)"
proof -
  let ?e = "sample_env (\<lambda>_. [])"
  have g: "lGateExecute sample_loop = Some (\<lambda>_ t. (tName t = ''b'', ''approval required: b''))"
    by (simp add: sample_loop_def)
  note d = dispatch_screened [of ?e sample_loop sample_calls "init_lstate 0"]
  have "sLive (snd (dispatch ?e sample_loop sample_calls (init_lstate 0))) =
      [\<lparr>cID = ''1'', cName = ''a'', cArgs = strip_description (Some [(''path'', JStr ''p''), (''description'', JStr ''d'')]), cArgsError = ''''\<rparr>]"
    using conjunct1 [OF conjunct2 [OF d]] unfolding g
    by (simp add: sample_calls_def sample_get sample_screens init_lstate_def) (simp add: sample_tool_def)
  moreover have "trIsError (fst (dispatch ?e sample_loop sample_calls (init_lstate 0)) ! 1)"
  proof -
    have c: "1 < length sample_calls" "cName (sample_calls ! 1) = ''b''" by (simp_all add: sample_calls_def)
    have "tName (sample_tool ''b'') = ''b''" by (simp add: sample_tool_def)
    with conjunct2 [OF conjunct2 [OF d], rule_format, OF c(1)] show ?thesis
      unfolding g c(2) sample_get by (simp split: if_splits)
  qed
  ultimately show ?thesis by simp
qed

lemma executor_agrees_with_dispatch_witness:
  "tool_executor (sample_env (\<lambda>_. [])) sample_loop (sClock (init_lstate 0)) (take 1 sample_calls) =
   fst (dispatch (sample_env (\<lambda>_. [])) sample_loop (take 1 sample_calls) (init_lstate 0))"
  by (rule executor_agrees_with_dispatch)
    (simp add: sample_calls_def sample_get sample_screens, simp add: sample_loop_def sample_tool_def)

lemma description_transparent_witness:
  "validate_args (\<lambda>_. None) (with_description_prop (Some sample_schema))
     (strip_description (Some [(''path'', JStr ''p''), (''description'', JStr ''d'')])) = None"
proof -
  obtain props where "obj_field (jget sample_schema ''properties'') = Some props" "jget props description_key = None"
    by (simp add: sample_schema_def jget_def mget_def obj_field_def description_key_def)
  moreover have "jget sample_schema ''type'' = Some (JStr ''object'')" by code_simp
  moreover have "validate_args (\<lambda>_. None) (Some sample_schema)
     (strip_description (Some [(''path'', JStr ''p''), (''description'', JStr ''d'')])) = None" by code_simp
  ultimately show ?thesis using description_transparent by blast
qed

definition describing_schema :: jobj where
  "describing_schema =
     [(''type'', JStr ''object''), (''required'', JArr [JStr ''description'']),
      (''properties'', JObj [(''description'', JObj [(''type'', JStr ''string'')])])]"

lemma required_description_unusable_witness:
  "validate_args (\<lambda>_. None) (with_description_prop (Some describing_schema))
     (strip_description (Some [(''description'', JStr ''d'')])) \<noteq> None \<and>
   validate_args (\<lambda>_. None) (Some describing_schema) (Some [(''description'', JStr ''d'')]) = None"
proof -
  obtain props where "obj_field (jget describing_schema ''properties'') = Some props" "jget props description_key \<noteq> None"
    by (simp add: describing_schema_def jget_def mget_def obj_field_def description_key_def)
  moreover have "jget describing_schema ''type'' = Some (JStr ''object'')"
    "description_key \<in> set (to_string_slice (jget describing_schema ''required''))" by code_simp+
  moreover have "validate_args (\<lambda>_. None) (Some describing_schema) (Some [(''description'', JStr ''d'')]) = None"
    by code_simp
  ultimately show ?thesis using required_description_unusable by blast
qed


end
