(* ===== verification/Profiles.thy ===== *)
theory Profiles
  imports Provider
begin

section \<open>The model capability table\<close>

text \<open>
  \<open>internal/provider/profiles.go\<close>: the table and its lookup by the longest known prefix of the
  lower-cased model name.
\<close>

record model_profile =
  ContextWindow :: int
  MaxOutputTokens :: int
  Reasoning :: bool
  ToolCalling :: bool
  ImageInput :: bool
  Sampling :: bool

record profile_entry =
  peProvider :: string
  pePrefix :: string
  peProfile :: model_profile

definition entry :: "string \<Rightarrow> string \<Rightarrow> int \<Rightarrow> int \<Rightarrow> bool \<Rightarrow> bool \<Rightarrow> bool \<Rightarrow> bool \<Rightarrow> profile_entry" where
  "entry prov prefix window out reasoning tools images sampling =
     \<lparr>peProvider = prov, pePrefix = prefix,
      peProfile = \<lparr>ContextWindow = window, MaxOutputTokens = out, Reasoning = reasoning,
        ToolCalling = tools, ImageInput = images, Sampling = sampling\<rparr>\<rparr>"

definition modelProfiles :: "profile_entry list" where
  "modelProfiles =
    [entry ''anthropic'' ''claude-opus-4'' 200000 32000 True True True True,
     entry ''anthropic'' ''claude-sonnet-4'' 200000 64000 True True True True,
     entry ''anthropic'' ''claude-3-7-sonnet'' 200000 64000 True True True True,
     entry ''anthropic'' ''claude-3-5-sonnet'' 200000 8192 False True True True,
     entry ''anthropic'' ''claude-3-5-haiku'' 200000 8192 False True True True,
     entry ''anthropic'' ''claude-3-opus'' 200000 4096 False True True True,
     entry ''anthropic'' ''claude-3-haiku'' 200000 4096 False True True True,
     entry ''openai'' ''o1-mini'' 128000 65536 True False False False,
     entry ''openai'' ''o1'' 200000 100000 True True True False,
     entry ''openai'' ''o3-mini'' 200000 100000 True True False False,
     entry ''openai'' ''o3'' 200000 100000 True True True False,
     entry ''openai'' ''o4-mini'' 200000 100000 True True True False,
     entry ''openai'' ''gpt-5'' 400000 128000 True True True False,
     entry ''openai'' ''gpt-4o-mini'' 128000 16384 False True True True,
     entry ''openai'' ''gpt-4o'' 128000 16384 False True True True,
     entry ''openai'' ''gpt-4-turbo'' 128000 4096 False True True True,
     entry ''openai'' ''gpt-4'' 8192 4096 False True False True,
     entry ''openai'' ''gpt-3.5'' 16385 4096 False True False True,
     entry ''openai'' ''deepseek-reasoner'' 65536 8192 True True False False,
     entry ''openai'' ''deepseek-chat'' 65536 8192 False True False True,
     entry ''openai'' ''deepseek-v3'' 65536 8192 False True False True,
     entry ''openai'' ''deepseek-v3.1'' 131072 16384 True True False True,
     entry ''openai'' ''deepseek-v3.2'' 131072 16384 True True False True,
     entry ''openai'' ''deepseek-r1'' 131072 16384 True True False False,
     entry ''openai'' ''kimi-k2'' 131072 8192 False True False True,
     entry ''openai'' ''kimi-k2.5'' 262144 16384 False True False True,
     entry ''openai'' ''kimi-thinking'' 131072 8192 True True False False,
     entry ''openai'' ''moonshot-v1-8k'' 8192 4096 False True False True,
     entry ''openai'' ''moonshot-v1-32k'' 32768 8192 False True False True,
     entry ''openai'' ''moonshot-v1-128k'' 131072 8192 False True False True,
     entry ''openai'' ''qwen3-max'' 131072 16384 True True False True,
     entry ''openai'' ''qwen3'' 131072 16384 True True False True,
     entry ''openai'' ''qwq'' 131072 16384 True True False False,
     entry ''openai'' ''qwen-turbo'' 131072 8192 False True False True,
     entry ''openai'' ''qwen-plus'' 131072 8192 False True False True,
     entry ''openai'' ''qwen-max'' 32768 8192 False True False True,
     entry ''openai'' ''glm-4.6'' 204800 16384 True True False True,
     entry ''openai'' ''glm-4.5-air'' 204800 16384 True True False True,
     entry ''openai'' ''glm-4.5'' 204800 16384 True True False True,
     entry ''openai'' ''glm-4-plus'' 131072 8192 False True False True,
     entry ''openai'' ''glm-4-air'' 131072 8192 False True False True,
     entry ''openai'' ''glm-4'' 131072 8192 False True False True,
     entry ''openai'' ''doubao-seed'' 262144 16384 True True False True,
     entry ''openai'' ''doubao-1.5'' 262144 16384 True True False True,
     entry ''openai'' ''doubao'' 131072 8192 False True False True,
     entry ''openai'' ''ernie-4.5'' 131072 8192 False True False True,
     entry ''openai'' ''ernie-3.5'' 32768 8192 False True False True,
     entry ''openai'' ''ernie-x1'' 131072 8192 True True False False,
     entry ''openai'' ''minimax'' 262144 16384 False True False True,
     entry ''openai'' ''abab'' 131072 8192 False True False True,
     entry ''openai'' ''yi-'' 131072 8192 False True False True,
     entry ''openai'' ''yi-lightning'' 65536 8192 False True False True,
     entry ''openai'' ''baichuan'' 131072 8192 False True False True]"

definition entry_matches :: "string \<Rightarrow> string \<Rightarrow> profile_entry \<Rightarrow> bool" where
  "entry_matches prov model e = (peProvider e = prov \<and> has_prefix model (pePrefix e))"

definition best_entry :: "string \<Rightarrow> string \<Rightarrow> profile_entry list \<Rightarrow> profile_entry option" where
  "best_entry prov model table =
     fold (\<lambda>e best.
         if entry_matches prov model e \<and>
            (case best of None \<Rightarrow> True | Some b \<Rightarrow> length (pePrefix b) < length (pePrefix e))
         then Some e else best) table None"

definition lookup_profile :: "string \<Rightarrow> string \<Rightarrow> model_profile option" where
  "lookup_profile prov model =
     map_option peProfile (best_entry prov (to_lower model) modelProfiles)"

subsection \<open>The longest prefix wins\<close>

lemma best_entry_append:
  "best_entry p m (xs @ [e]) =
     (if entry_matches p m e \<and>
         (case best_entry p m xs of None \<Rightarrow> True | Some b \<Rightarrow> length (pePrefix b) < length (pePrefix e))
      then Some e else best_entry p m xs)"
  by (simp add: best_entry_def)

lemma best_entry_None: "best_entry p m xs = None \<longleftrightarrow> (\<forall>e \<in> set xs. \<not> entry_matches p m e)"
proof (induction xs rule: rev_induct)
  case Nil
  then show ?case by (simp add: best_entry_def)
next
  case (snoc e xs)
  then show ?case by (auto simp: best_entry_append)
qed

lemma best_entry_Some:
  "best_entry p m xs = Some b \<Longrightarrow>
     b \<in> set xs \<and> entry_matches p m b \<and>
     (\<forall>e \<in> set xs. entry_matches p m e \<longrightarrow> length (pePrefix e) \<le> length (pePrefix b))"
proof (induction xs arbitrary: b rule: rev_induct)
  case Nil
  then show ?case by (simp add: best_entry_def)
next
  case (snoc e xs)
  show ?case
  proof (cases "best_entry p m xs")
    case None
    with snoc.prems best_entry_None [of p m xs] show ?thesis
      by (auto simp: best_entry_append split: if_splits)
  next
    case (Some b')
    with snoc show ?thesis
      by (fastforce simp: best_entry_append split: if_splits)
  qed
qed

lemma table_distinct: "distinct (map (\<lambda>e. (peProvider e, pePrefix e)) modelProfiles)"
  by code_simp

lemma prefixes_same_length: "has_prefix m p \<Longrightarrow> has_prefix m q \<Longrightarrow> length p = length q \<Longrightarrow> p = q"
  by (simp add: has_prefix_def)

lemma table_entry_unique:
  assumes "e \<in> set modelProfiles" "f \<in> set modelProfiles" "entry_matches p m e" "entry_matches p m f"
    "length (pePrefix e) = length (pePrefix f)"
  shows "e = f"
proof -
  have "pePrefix e = pePrefix f"
    using assms(3-5) unfolding entry_matches_def by (blast intro: prefixes_same_length)
  moreover have "peProvider e = peProvider f" using assms(3,4) by (simp add: entry_matches_def)
  ultimately show ?thesis
    using table_distinct assms(1,2) by (auto simp: distinct_map dest: inj_onD)
qed

subsection \<open>Properties\<close>

text \<open>A model resolves to a profile exactly when it is that of the entry of its provider with the
  longest prefix of the lower-cased model name, whatever the order of the table, and to none
  exactly when no entry of its provider is a prefix of the name.\<close>
theorem profile_longest_prefix:
  "(lookup_profile prov model = Some pr \<longleftrightarrow>
      (\<exists>e \<in> set modelProfiles. peProfile e = pr \<and> entry_matches prov (to_lower model) e \<and>
         (\<forall>f \<in> set modelProfiles. entry_matches prov (to_lower model) f \<longrightarrow>
            length (pePrefix f) \<le> length (pePrefix e)))) \<and>
   (lookup_profile prov model = None \<longleftrightarrow>
      (\<forall>e \<in> set modelProfiles. \<not> entry_matches prov (to_lower model) e))"
proof (intro conjI iffI)
  let ?m = "to_lower model"
  assume "lookup_profile prov model = Some pr"
  then obtain b where "best_entry prov ?m modelProfiles = Some b" "peProfile b = pr"
    by (auto simp: lookup_profile_def)
  with best_entry_Some [OF this(1)] show
    "\<exists>e \<in> set modelProfiles. peProfile e = pr \<and> entry_matches prov ?m e \<and>
       (\<forall>f \<in> set modelProfiles. entry_matches prov ?m f \<longrightarrow> length (pePrefix f) \<le> length (pePrefix e))"
    by blast
next
  let ?m = "to_lower model"
  assume "\<exists>e \<in> set modelProfiles. peProfile e = pr \<and> entry_matches prov ?m e \<and>
       (\<forall>f \<in> set modelProfiles. entry_matches prov ?m f \<longrightarrow> length (pePrefix f) \<le> length (pePrefix e))"
  then obtain e where e: "e \<in> set modelProfiles" "peProfile e = pr" "entry_matches prov ?m e"
    "\<forall>f \<in> set modelProfiles. entry_matches prov ?m f \<longrightarrow> length (pePrefix f) \<le> length (pePrefix e)"
    by blast
  with best_entry_None [of prov ?m modelProfiles]
  obtain b where b: "best_entry prov ?m modelProfiles = Some b" by blast
  from best_entry_Some [OF b] e have "b = e"
    by (intro table_entry_unique [of b e prov ?m]) (auto intro: le_antisym)
  with b e show "lookup_profile prov model = Some pr" by (simp add: lookup_profile_def)
qed (simp_all add: lookup_profile_def best_entry_None)

lemma profile_longest_prefix_witness:
  "lookup_profile ''openai'' ''GPT-4o-mini-2024'' = Some (peProfile (entry ''openai'' ''gpt-4o-mini'' 128000 16384 False True True True)) \<and>
   lookup_profile ''openai'' ''claude'' = None"
proof
  let ?e = "entry ''openai'' ''gpt-4o-mini'' 128000 16384 False True True True"
  have "?e \<in> set modelProfiles" "entry_matches ''openai'' (to_lower ''GPT-4o-mini-2024'') ?e"
    by code_simp+
  moreover have "\<forall>f \<in> set modelProfiles. entry_matches ''openai'' (to_lower ''GPT-4o-mini-2024'') f \<longrightarrow>
      length (pePrefix f) \<le> length (pePrefix ?e)"
    by code_simp
  ultimately show "lookup_profile ''openai'' ''GPT-4o-mini-2024'' = Some (peProfile ?e)"
    using profile_longest_prefix [of "''openai''" "''GPT-4o-mini-2024''" "peProfile ?e"] by blast
  have "\<forall>e \<in> set modelProfiles. \<not> entry_matches ''openai'' (to_lower ''claude'') e" by code_simp
  with profile_longest_prefix [of "''openai''" "''claude''"] show "lookup_profile ''openai'' ''claude'' = None"
    by blast
qed

end
