(* ===== verification/Middleware.thy ===== *)
theory Middleware
  imports LoopTools Profiles
begin

section \<open>The model-call chain and the built-in middleware\<close>

text \<open>
  \<open>internal/agent/middleware.go\<close> without its tool half, and \<open>usagescope.go\<close>: the chain of
  model-call middleware with its panic isolation, compression with its circuit breaker, the
  reactive overflow fallback, memory injection, the vision gate, image materialization
  (\<open>internal/provider/image.go\<close>) and the usage report. A layer receives the call it may
  rewrite, the next handler and the run's state. The locale \<open>model_layer_ok\<close> is the contract of
  a layer (it leaves the run's durable record alone and streams only content frames); every
  built-in layer is an interpretation of it, and so is their chain.
\<close>

subsection \<open>The chain\<close>

definition guard_wrap ::
  "string \<Rightarrow> (model_handler \<Rightarrow> model_call \<Rightarrow> lstate \<Rightarrow>
     (model_result \<times> lerr option) layer_out \<times> model_call \<times> lstate) \<Rightarrow> model_handler \<Rightarrow> model_handler" where
  "guard_wrap name wrap next c s =
     (let (out, c', s') = wrap next c s
      in case out of
           LayerReturns r \<Rightarrow> (r, c', s')
         | LayerPanics p \<Rightarrow>
             ((empty_result, Some (errorf (''agent: model-call middleware '' @ fmt_q name @ '' panicked: '' @ p))),
              c', s'))"

definition guard_model :: "model_layer \<Rightarrow> model_handler \<Rightarrow> model_handler" where
  "guard_model m next = guard_wrap (mlName m) (mlWrap m) next"

definition chain_model :: "model_layer list \<Rightarrow> model_handler \<Rightarrow> model_handler" where
  "chain_model mw inner = foldr guard_model mw inner"

text \<open>\<open>return next(ctx, c)\<close>.\<close>

definition pass :: "model_handler \<Rightarrow> model_call \<Rightarrow> lstate \<Rightarrow>
    (model_result \<times> lerr option) layer_out \<times> model_call \<times> lstate" where
  "pass next c s = (let (r, c', s') = next c s in (LayerReturns r, c', s'))"

locale model_layer_ok =
  fixes wrap :: "model_handler \<Rightarrow> model_call \<Rightarrow> lstate \<Rightarrow>
    (model_result \<times> lerr option) layer_out \<times> model_call \<times> lstate"
  assumes returns: "handler_ok next \<Longrightarrow> wrap next c s = (LayerReturns (r, err), c', s') \<Longrightarrow>
      extends content_frame s s' \<and> (err = None \<longrightarrow> result_ok r)"
    and panics: "handler_ok next \<Longrightarrow> wrap next c s = (LayerPanics p, c', s') \<Longrightarrow>
      extends content_frame s s'"
begin

lemma guarded: "handler_ok next \<Longrightarrow> handler_ok (guard_wrap name wrap next)"
  unfolding handler_ok_def
proof (intro allI impI)
  fix c s r err c' s'
  assume h: "\<forall>c s r err c' s'. next c s = ((r, err), c', s') \<longrightarrow>
      extends content_frame s s' \<and> (err = None \<longrightarrow> result_ok r)"
    and g: "guard_wrap name wrap next c s = ((r, err), c', s')"
  then have ok: "handler_ok next" by (simp add: handler_ok_def)
  obtain out c1 s1 where w: "wrap next c s = (out, c1, s1)" by (metis prod_cases3)
  show "extends content_frame s s' \<and> (err = None \<longrightarrow> result_ok r)"
  proof (cases out)
    case (LayerReturns x)
    with g w have "x = (r, err)" "s1 = s'" by (simp_all add: guard_wrap_def)
    with returns [OF ok] w LayerReturns show ?thesis by blast
  next
    case (LayerPanics p)
    with g w have "s1 = s'" "err \<noteq> None" by (auto simp: guard_wrap_def)
    with panics [OF ok] w LayerPanics show ?thesis by blast
  qed
qed

end

lemma chain_ok:
  "\<forall>m \<in> set mw. model_layer_ok (mlWrap m) \<Longrightarrow> handler_ok inner \<Longrightarrow> handler_ok (chain_model mw inner)"
  by (induction mw) (simp_all add: chain_model_def guard_model_def model_layer_ok.guarded)

lemma pass_ok:
  assumes "handler_ok next" "extends content_frame s0 s" "pass next c s = (out, c', s')"
  shows "(\<exists>r err. out = LayerReturns (r, err) \<and> (err = None \<longrightarrow> result_ok r)) \<and> extends content_frame s0 s'"
proof -
  obtain r err c1 s1 where n: "next c s = ((r, err), c1, s1)" by (metis prod.exhaust)
  with assms(3) have "out = LayerReturns (r, err)" "s' = s1" by (simp_all add: pass_def)
  with handler_okD [OF assms(1) n] assms(2) show ?thesis by (auto intro: extends_trans)
qed

subsection \<open>Compression\<close>

definition breaker_tripped :: "int \<Rightarrow> lstate \<Rightarrow> bool" where
  "breaker_tripped maxf s = (maxf \<le> int (sFailures s))"

definition breaker_record :: "bool \<Rightarrow> lstate \<Rightarrow> lstate" where
  "breaker_record failed s = s\<lparr>sFailures := (if failed then Suc (sFailures s) else 0)\<rparr>"

record compress_mw =
  cmCompressor :: "(nat \<Rightarrow> message list \<Rightarrow> string + string) option" \<comment> \<open>at a moment\<close>
  cmWindow :: int
  cmMaxTokens :: int
  cmThreshold :: float64
  cmKeepRecent :: int
  cmMaxFailures :: int

definition max_failures :: "compress_mw \<Rightarrow> int" where
  "max_failures cm = (if cmMaxFailures cm \<le> 0 then 3 else cmMaxFailures cm)"

definition default_threshold :: float64 where
  "default_threshold = F64 7205759403792794 (-53)" \<comment> \<open>the float64 nearest 0.8\<close>

definition compress_budget :: "compress_mw \<Rightarrow> model_call \<Rightarrow> int" where
  "compress_budget cm c =
     (let b0 = cmWindow cm - cmMaxTokens cm;
          b1 = (if b0 \<le> 0 then cmWindow cm else b0);
          overhead = estimate_overhead (rqSystem (mcRequest c)) (rqTools (mcRequest c))
      in if overhead < b1 then b1 - overhead else b1)"

definition compress_policy :: "compress_mw \<Rightarrow> model_call \<Rightarrow> policy" where
  "compress_policy cm c =
     \<lparr>pMaxTokens = compress_budget cm c,
      pThreshold = (if fMan (cmThreshold cm) = 0 then default_threshold else cmThreshold cm),
      pKeepRecent = (if cmKeepRecent cm \<le> 0 then 2 else cmKeepRecent cm)\<rparr>"

definition set_view :: "message list \<Rightarrow> model_call \<Rightarrow> model_call" where
  "set_view v c = c\<lparr>mcView := v, mcRequest := (mcRequest c)\<lparr>rqMessages := v\<rparr>\<rparr>"

definition compress_wrap :: "compress_mw \<Rightarrow> model_handler \<Rightarrow> model_call \<Rightarrow> lstate \<Rightarrow>
    (model_result \<times> lerr option) layer_out \<times> model_call \<times> lstate" where
  "compress_wrap cm next c s =
     (case cmCompressor cm of
        None \<Rightarrow> pass next c s
      | Some summarizer \<Rightarrow>
          if cmWindow cm \<le> 0 then pass next c s
          else if breaker_tripped (max_failures cm) s
          then pass next c s
          else let cache = (case sCache s of None \<Rightarrow> cache_empty | Some cc \<Rightarrow> cc) in
            (case compress_with_cache (summarizer (sClock s)) (mcView c) (compress_policy cm c) (Some cache) of
               CompressPanic \<Rightarrow> (LayerPanics ''runtime error: index out of range'', c, s\<lparr>sCache := Some cache\<rparr>)
             | CompressErr e cache' \<Rightarrow> pass next c (breaker_record True (tick (s\<lparr>sCache := cache'\<rparr>)))
             | CompressOk v cache' \<Rightarrow>
                 pass next (set_view v c) (breaker_record False (tick (s\<lparr>sCache := cache'\<rparr>)))))"

definition compress_layer :: "compress_mw \<Rightarrow> model_layer" where
  "compress_layer cm = \<lparr>mlName = ''compress'', mlWrap = compress_wrap cm\<rparr>"

lemma extends_breaker [simp]: "extends P s (breaker_record b t) = extends P s t"
  by (simp add: breaker_record_def)

lemma compress_keeps:
  assumes "handler_ok next" "compress_wrap cm next c s = (out, c', s')"
  shows "(case out of LayerReturns (r, err) \<Rightarrow> err = None \<longrightarrow> result_ok r | LayerPanics p \<Rightarrow> True) \<and>
    extends content_frame s s'"
proof -
  have p: "pass next d t = (out, c', s') \<Longrightarrow> extends content_frame s t \<Longrightarrow> ?thesis" for d t
    using pass_ok [OF assms(1), of s t d out c' s'] by auto
  show ?thesis
    using assms(2) p
    by (auto simp: compress_wrap_def Let_def split: option.splits if_splits compress_result.splits)
qed

interpretation compress: model_layer_ok "compress_wrap cm" for cm
proof
  fix "next" c s r err c' s'
  assume "handler_ok next" "compress_wrap cm next c s = (LayerReturns (r, err), c', s')"
  from compress_keeps [OF this] show "extends content_frame s s' \<and> (err = None \<longrightarrow> result_ok r)" by simp
next
  fix "next" c s p c' s'
  assume "handler_ok next" "compress_wrap cm next c s = (LayerPanics p, c', s')"
  from compress_keeps [OF this] show "extends content_frame s s'" by simp
qed

subsection \<open>The overflow fallback\<close>

definition drop_for_overflow :: "message list \<Rightarrow> message list option" where
  "drop_for_overflow view =
     (let (shrunk, ok) = drop_oldest_round_preserving_summary view
      in if ok then Some shrunk
         else (let (shrunk, ok) = drop_oldest_round view in if ok then Some shrunk else None))"

text \<open>The test and the branch that keep the compression cache aligned with a shrunk view.\<close>

definition summary_cached :: "message list \<Rightarrow> lstate \<Rightarrow> bool" where
  "summary_cached view s =
     (case sCache s of None \<Rightarrow> False
      | Some cc \<Rightarrow> 0 < ccCovered cc \<and> view \<noteq> [] \<and> is_summary (hd view))"

definition align_cache :: "message list \<Rightarrow> message list \<Rightarrow> lstate \<Rightarrow> lstate" where
  "align_cache view shrunk s =
     (if shrunk \<noteq> [] \<and> is_summary (hd shrunk) then
        (let n = length view - length shrunk
         in if 0 < n then s\<lparr>sCache := cache_advance (take n (drop 1 view)) (sCache s)\<rparr> else s)
      else s\<lparr>sCache := map_option cache_invalidate (sCache s)\<rparr>)"

definition overflow_state :: "message list \<Rightarrow> message list \<Rightarrow> lstate \<Rightarrow> lstate" where
  "overflow_state view shrunk s =
     (let s1 = (if summary_cached view s then align_cache view shrunk s else s)
      in if sCache s1 = None
         then s1\<lparr>sViewDropped := sViewDropped s1 + (int (length view) - int (length shrunk))\<rparr> else s1)"

fun overflow_retry :: "nat \<Rightarrow> model_handler \<Rightarrow> model_result \<times> lerr option \<Rightarrow> model_call \<Rightarrow> lstate \<Rightarrow>
    (model_result \<times> lerr option) \<times> model_call \<times> lstate" where
  "overflow_retry 0 next res c s = (res, c, s)"
| "overflow_retry (Suc k) next res c s =
     (case snd res of
        None \<Rightarrow> (res, c, s)
      | Some e \<Rightarrow>
          if \<not> leOverflow e \<or> leMid e then (res, c, s)
          else (case drop_for_overflow (mcView c) of
                  None \<Rightarrow> (res, c, s)
                | Some shrunk \<Rightarrow>
                    let (res', c', s') = next (set_view shrunk c) (overflow_state (mcView c) shrunk s)
                    in overflow_retry k next res' c' s'))"

definition overflow_retries :: "int \<Rightarrow> nat" where
  "overflow_retries n = (if n \<le> 0 then 3 else nat n)"

definition overflow_wrap :: "int \<Rightarrow> model_handler \<Rightarrow> model_call \<Rightarrow> lstate \<Rightarrow>
    (model_result \<times> lerr option) layer_out \<times> model_call \<times> lstate" where
  "overflow_wrap maxRetries next c s =
     (let (res, c1, s1) = next c s;
          (res', c2, s2) = overflow_retry (overflow_retries maxRetries) next res c1 s1
      in (LayerReturns res', c2, s2))"

definition overflow_layer :: "int \<Rightarrow> model_layer" where
  "overflow_layer n = \<lparr>mlName = ''overflow'', mlWrap = overflow_wrap n\<rparr>"

lemma extends_overflow_state [simp]: "extends P s (overflow_state v w t) = extends P s t"
  by (simp add: overflow_state_def align_cache_def Let_def)

lemma overflow_retry_keeps:
  assumes "handler_ok next" "extends content_frame s0 s" "snd res = None \<longrightarrow> result_ok (fst res)"
    "overflow_retry k next res c s = (res', c', s')"
  shows "extends content_frame s0 s' \<and> (snd res' = None \<longrightarrow> result_ok (fst res'))"
  using assms
proof (induction k arbitrary: res c s)
  case (Suc k)
  show ?case
  proof (cases "\<exists>e shrunk. snd res = Some e \<and> leOverflow e \<and> \<not> leMid e \<and> drop_for_overflow (mcView c) = Some shrunk")
    case False
    then have "overflow_retry (Suc k) next res c s = (res, c, s)"
      by (auto split: option.splits)
    with Suc.prems show ?thesis by auto
  next
    case True
    then obtain e shrunk where e: "snd res = Some e" "leOverflow e" "\<not> leMid e"
      "drop_for_overflow (mcView c) = Some shrunk" by blast
    let ?s = "overflow_state (mcView c) shrunk s"
    obtain r1 err1 c1 s1 where n: "next (set_view shrunk c) ?s = ((r1, err1), c1, s1)" by (metis prod.exhaust)
    from handler_okD [OF Suc.prems(1) n] have "extends content_frame ?s s1" "err1 = None \<longrightarrow> result_ok r1"
      by blast+
    moreover have "extends content_frame s0 ?s" using Suc.prems(2) by simp
    ultimately have "extends content_frame s0 s1" by (blast intro: extends_trans)
    moreover have "overflow_retry k next (r1, err1) c1 s1 = (res', c', s')"
      using Suc.prems(4) e n by simp
    ultimately show ?thesis
      using Suc.IH [OF Suc.prems(1), of s1 "(r1, err1)" c1] \<open>err1 = None \<longrightarrow> result_ok r1\<close> by simp
  qed
qed auto

interpretation overflow: model_layer_ok "overflow_wrap n" for n
proof
  fix "next" c s r err c' s'
  assume h: "handler_ok next" and w: "overflow_wrap n next c s = (LayerReturns (r, err), c', s')"
  obtain r1 e1 c1 s1 where n: "next c s = ((r1, e1), c1, s1)" by (metis prod.exhaust)
  obtain res c2 s2 where o: "overflow_retry (overflow_retries n) next (r1, e1) c1 s1 = (res, c2, s2)"
    by (metis prod_cases3)
  have "res = (r, err)" "s2 = s'" using w n o by (simp_all add: overflow_wrap_def)
  with overflow_retry_keeps [OF h _ _ o, of s] handler_okD [OF h n]
  show "extends content_frame s s' \<and> (err = None \<longrightarrow> result_ok r)" by simp
next
  fix "next" c s p c' s'
  assume "overflow_wrap n next c s = (LayerPanics p, c', s')"
  then show "extends content_frame s s'" by (auto simp: overflow_wrap_def split: prod.splits)
qed

subsection \<open>Images\<close>

definition bytes_string :: "nat list \<Rightarrow> string" where
  "bytes_string ns = map char_of ns"

text \<open>The hint that stands for an image, in UTF-8.\<close>

definition image_hint :: "string \<Rightarrow> string" where
  "image_hint path =
     bytes_string [91, 229, 183, 178, 233, 153, 132, 229, 138, 160, 229, 155, 190, 231, 137, 135, 58, 32] @
     path @
     bytes_string [32, 226, 128, 148, 32, 229, 166, 130, 233, 156, 128, 230, 159, 165, 231, 156, 139, 229,
       155, 190, 231, 137, 135, 229, 134, 133, 229, 174, 185, 44, 232, 175, 183, 232, 176, 131, 231, 148,
       168, 32] @ ''view_image'' @
     bytes_string [32, 229, 183, 165, 229, 133, 183, 228, 188, 160, 229, 133, 165, 230, 173, 164, 232, 183,
       175, 229, 190, 132, 93]"

definition map_blocks :: "(block \<Rightarrow> block) \<Rightarrow> message list \<Rightarrow> message list" where
  "map_blocks f msgs = map (\<lambda>m. m\<lparr>mContent := map f (mContent m)\<rparr>) msgs"

definition hint_block :: "block \<Rightarrow> block" where
  "hint_block b = (if bType b = BlockImage then text_block (image_hint (bImagePath b)) else b)"

definition native_images :: "string \<Rightarrow> string \<Rightarrow> bool" where
  "native_images prov model =
     (case lookup_profile prov model of None \<Rightarrow> False | Some p \<Rightarrow> ImageInput p)"

definition vision_wrap :: "string \<Rightarrow> model_handler \<Rightarrow> model_call \<Rightarrow> lstate \<Rightarrow>
    (model_result \<times> lerr option) layer_out \<times> model_call \<times> lstate" where
  "vision_wrap prov next c s =
     (if prov = '''' \<or> native_images prov (rqModel (mcRequest c)) then pass next c s
      else pass next (set_view (map_blocks hint_block (rqMessages (mcRequest c))) c) s)"

definition vision_layer :: "string \<Rightarrow> model_layer" where
  "vision_layer prov = \<lparr>mlName = ''vision-gate'', mlWrap = vision_wrap prov\<rparr>"

text \<open>\<open>base64.StdEncoding.EncodeToString\<close>.\<close>

definition b64_char :: "nat \<Rightarrow> char" where
  "b64_char n = (if n < 26 then char_of (65 + n) else if n < 52 then char_of (71 + n)
     else if n < 62 then char_of (n - 4) else if n = 62 then CHR ''+'' else CHR ''/'')"

fun base64_encode :: "nat list \<Rightarrow> string" where
  "base64_encode [] = []"
| "base64_encode [a] = [b64_char (a div 4), b64_char (a mod 4 * 16), CHR ''='', CHR ''='']"
| "base64_encode [a, b] =
     [b64_char (a div 4), b64_char (a mod 4 * 16 + b div 16), b64_char (b mod 16 * 4), CHR ''='']"
| "base64_encode (a # b # c # xs) =
     b64_char (a div 4) # b64_char (a mod 4 * 16 + b div 16) #
     b64_char (b mod 16 * 4 + c div 64) # b64_char (c mod 64) # base64_encode xs"

type_synonym image_resolver = "nat \<Rightarrow> string \<Rightarrow> nat list option"
  \<comment> \<open>the bytes of an image at a moment, \<open>None\<close> when it is not available\<close>

definition materialize_block :: "(string \<Rightarrow> nat list option) \<Rightarrow> block \<Rightarrow> block" where
  "materialize_block res b =
     (if bType b \<noteq> BlockImage \<or> bImageData b \<noteq> '''' then b
      else case res (bImagePath b) of
             None \<Rightarrow> b
           | Some bytes \<Rightarrow> set_image_data (base64_encode bytes) b)"

definition materialize_images :: "(string \<Rightarrow> nat list option) option \<Rightarrow> request \<Rightarrow> request" where
  "materialize_images res rq =
     (case res of None \<Rightarrow> rq
      | Some f \<Rightarrow> rq\<lparr>rqMessages := map_blocks (materialize_block f) (rqMessages rq)\<rparr>)"

definition image_wrap :: "image_resolver option \<Rightarrow> model_handler \<Rightarrow> model_call \<Rightarrow> lstate \<Rightarrow>
    (model_result \<times> lerr option) layer_out \<times> model_call \<times> lstate" where
  "image_wrap resolver next c s =
     (case resolver of None \<Rightarrow> pass next c s
      | Some f \<Rightarrow>
          let rq = materialize_images (Some (f (sClock s))) (mcRequest c)
          in pass next (c\<lparr>mcRequest := rq, mcView := rqMessages rq\<rparr>) (tick s))"

definition image_layer :: "image_resolver option \<Rightarrow> model_layer" where
  "image_layer r = \<lparr>mlName = ''image'', mlWrap = image_wrap r\<rparr>"

interpretation vision: model_layer_ok "vision_wrap prov" for prov
proof
  fix "next" c s r err c' s'
  assume h: "handler_ok next" and "vision_wrap prov next c s = (LayerReturns (r, err), c', s')"
  then obtain d where "pass next d s = (LayerReturns (r, err), c', s')"
    by (auto simp: vision_wrap_def split: if_splits)
  from pass_ok [OF h extends_refl this]
  show "extends content_frame s s' \<and> (err = None \<longrightarrow> result_ok r)" by simp
next
  fix "next" c s p c' s'
  assume h: "handler_ok next" and "vision_wrap prov next c s = (LayerPanics p, c', s')"
  then obtain d where "pass next d s = (LayerPanics p, c', s')"
    by (auto simp: vision_wrap_def split: if_splits)
  from pass_ok [OF h extends_refl this] show "extends content_frame s s'" by simp
qed

lemma image_pass:
  "\<exists>d t. image_wrap r next c s = pass next d t \<and> extends content_frame s t"
proof (cases r)
  case None
  then show ?thesis by (auto simp: image_wrap_def)
next
  case (Some f)
  then show ?thesis
    unfolding image_wrap_def by (auto simp: Let_def intro!: exI)
qed

interpretation image: model_layer_ok "image_wrap res" for res
proof
  fix "next" c s r err c' s'
  assume h: "handler_ok next" and w: "image_wrap res next c s = (LayerReturns (r, err), c', s')"
  obtain d t where p: "pass next d t = (LayerReturns (r, err), c', s')" "extends content_frame s t"
    using image_pass [of res "next" c s] w by auto
  from pass_ok [OF h p(2,1)] show "extends content_frame s s' \<and> (err = None \<longrightarrow> result_ok r)" by simp
next
  fix "next" c s p c' s'
  assume h: "handler_ok next" and w: "image_wrap res next c s = (LayerPanics p, c', s')"
  obtain d t where q: "pass next d t = (LayerPanics p, c', s')" "extends content_frame s t"
    using image_pass [of res "next" c s] w by auto
  from pass_ok [OF h q(2,1)] show "extends content_frame s s'" by simp
qed

subsection \<open>Memory injection and the usage report\<close>

definition memory_inject :: "(nat \<Rightarrow> message list \<Rightarrow> string + message list) option \<Rightarrow> hook" where
  "memory_inject injector s =
     (case injector of None \<Rightarrow> (None, s)
      | Some f \<Rightarrow>
          (case f (sClock s) (sView s) of
             Inl e \<Rightarrow> (None, tick s)
           | Inr extra \<Rightarrow> (None, (tick s)\<lparr>sView := sView s @ extra\<rparr>)))"

record usage_scope =
  usChild :: usage
  usRoot :: bool

definition scope_add :: "usage \<Rightarrow> usage_scope \<Rightarrow> usage_scope" where
  "scope_add u sc = sc\<lparr>usChild := usChild sc + u\<rparr>"

definition scope_total :: "usage_scope \<Rightarrow> usage" where
  "scope_total sc = usChild sc"

text \<open>The scope the context carries, at a moment.\<close>

definition usage_report :: "env \<Rightarrow> (nat \<Rightarrow> usage_scope option) \<Rightarrow> bool \<Rightarrow> hook" where
  "usage_report en scope detached s =
     (let total = sUsage s + (case scope (sClock s) of
            None \<Rightarrow> 0 | Some sc \<Rightarrow> if usRoot sc then scope_total sc else 0)
      in if total = 0 then (None, s) else (None, emit_ignored en detached (FUsage total) s))"

text \<open>The contract of a hook: it leaves the durable record alone and ends no run.\<close>

locale hook_contract =
  fixes h :: hook
  assumes keeps: "h s = (r, s') \<Longrightarrow> extends progress_frame s s'"

interpretation memory: hook_contract "memory_inject inj" for inj
  by unfold_locales (auto simp: memory_inject_def split: option.splits sum.splits)

interpretation usage_hook: hook_contract "usage_report en scope d" for en scope d
  by unfold_locales
    (auto simp: usage_report_def Let_def progress_frame_def ends_run_def intro!: extends_emit split: if_splits)

lemma builtin_layers_ok:
  "model_layer_ok (mlWrap (compress_layer cm))" "model_layer_ok (mlWrap (overflow_layer n))"
  "model_layer_ok (mlWrap (vision_layer prov))" "model_layer_ok (mlWrap (image_layer res))"
  by (simp_all add: compress_layer_def overflow_layer_def vision_layer_def image_layer_def
      compress.model_layer_ok_axioms overflow.model_layer_ok_axioms vision.model_layer_ok_axioms
      image.model_layer_ok_axioms)


lemma drop_for_overflow_cases:
  "drop_for_overflow v = Some w \<Longrightarrow>
     drop_oldest_round_preserving_summary v = (w, True) \<or> drop_oldest_round v = (w, True)"
  by (auto simp: drop_for_overflow_def split: prod.splits if_splits)

text \<open>The view after \<open>k\<close> drops.\<close>

fun dropped_view :: "nat \<Rightarrow> message list \<Rightarrow> message list option" where
  "dropped_view 0 v = Some v"
| "dropped_view (Suc k) v =
     (case drop_for_overflow v of None \<Rightarrow> None | Some w \<Rightarrow> dropped_view k w)"

lemma dropped_view_contract:
  "dropped_view k v = Some w \<Longrightarrow> k = 0 \<or> pairing_contract w"
proof (induction k arbitrary: v)
  case (Suc k)
  then obtain u where u: "drop_for_overflow v = Some u" "dropped_view k u = Some w"
    by (auto split: option.splits)
  from drop_for_overflow_cases [OF u(1)] have "pairing_contract u" by (auto dest: drops_contract)
  with Suc.IH [OF u(2)] u(2) show ?case by (cases k) auto
qed simp

definition retriable :: "lerr option \<Rightarrow> bool" where
  "retriable err = (case err of None \<Rightarrow> False | Some e \<Rightarrow> leOverflow e \<and> \<not> leMid e)"

text \<open>A handler that does not rewrite its call, as the innermost one.\<close>

definition leaves_call :: "model_handler \<Rightarrow> bool" where
  "leaves_call h = (\<forall>c s r c' s'. h c s = (r, c', s') \<longrightarrow> c' = c)"

lemma leaves_callD: "leaves_call h \<Longrightarrow> h c s = (r, c', s') \<Longrightarrow> c' = c"
  unfolding leaves_call_def by blast

lemma real_attempt_leaves: "leaves_call (real_attempt en)"
  by (auto simp: leaves_call_def real_attempt_def split: sum.splits prod.splits option.splits)

text \<open>The call with the view after \<open>i\<close> drops.\<close>

definition after_drops :: "model_call \<Rightarrow> nat \<Rightarrow> model_call" where
  "after_drops c i = (if i = 0 then c else set_view (the (dropped_view i (mcView c))) c)"

lemma after_drops_0 [simp]: "after_drops c 0 = c"
  by (simp add: after_drops_def set_view_def)

lemma after_drops_Suc:
  "drop_for_overflow (mcView c) = Some w \<Longrightarrow> after_drops c (Suc i) = after_drops (set_view w c) i"
  by (simp add: after_drops_def set_view_def)

text \<open>
  The attempts of the fallback: \<open>ts i\<close> and \<open>us i\<close> are the states before and after attempt \<open>i\<close>, \<open>rs i\<close>
  is what it returned; the first attempt was made before the retries.
\<close>

definition fallback_steps :: "model_handler \<Rightarrow> model_call \<Rightarrow> nat \<Rightarrow> (nat \<Rightarrow> lstate) \<Rightarrow> (nat \<Rightarrow> model_result \<times> lerr option) \<Rightarrow> (nat \<Rightarrow> lstate) \<Rightarrow> bool" where
  "fallback_steps next c j ts rs us =
     (\<forall>i < j. retriable (snd (rs i)) \<and> drop_for_overflow (mcView (after_drops c i)) = Some (mcView (after_drops c (Suc i))) \<and>
        ts (Suc i) = overflow_state (mcView (after_drops c i)) (mcView (after_drops c (Suc i))) (us i) \<and>
        next (after_drops c (Suc i)) (ts (Suc i)) = (rs (Suc i), after_drops c (Suc i), us (Suc i)))"

lemma fallback_steps_Suc:
  assumes "fallback_steps next (set_view w c) j ts rs us" "drop_for_overflow (mcView c) = Some w" "retriable (snd r)"
    and "ts 0 = overflow_state (mcView c) w s" "next (set_view w c) (ts 0) = (rs 0, set_view w c, us 0)"
  shows "fallback_steps next c (Suc j) (case_nat t ts) (case_nat r rs) (case_nat s us)"
  unfolding fallback_steps_def
proof (intro allI impI)
  fix i assume "i < Suc j"
  show "retriable (snd (case_nat r rs i)) \<and> drop_for_overflow (mcView (after_drops c i)) = Some (mcView (after_drops c (Suc i))) \<and>
        case_nat t ts (Suc i) = overflow_state (mcView (after_drops c i)) (mcView (after_drops c (Suc i))) (case_nat s us i) \<and>
        next (after_drops c (Suc i)) (case_nat t ts (Suc i)) = (case_nat r rs (Suc i), after_drops c (Suc i), case_nat s us (Suc i))"
  proof (cases i)
    case 0
    with assms show ?thesis by (simp add: after_drops_Suc [OF assms(2)]) (simp add: set_view_def)
  next
    case (Suc i')
    with \<open>i < Suc j\<close> have "i' < j" by simp
    from assms(1) [unfolded fallback_steps_def, rule_format, OF this] show ?thesis
      unfolding Suc nat.case after_drops_Suc [OF assms(2)] .
  qed
qed

lemma overflow_retry_runs:
  assumes keep: "leaves_call next"
    and "overflow_retry k next res c s = (res', c', s')"
  shows "\<exists>j ts rs us. j \<le> k \<and> fallback_steps next c j ts rs us \<and> ts 0 = t \<and> rs 0 = res \<and> us 0 = s \<and>
    rs j = res' \<and> us j = s' \<and> c' = after_drops c j \<and>
    (retriable (snd res') \<longrightarrow> j = k \<or> drop_for_overflow (mcView c') = None)"
  using assms(2)
proof (induction k arbitrary: res c s t)
  case 0
  then show ?case
    by (intro exI [of _ 0] exI [of _ "\<lambda>_. t"] exI [of _ "\<lambda>_. res"] exI [of _ "\<lambda>_. s"]) (simp add: fallback_steps_def)
next
  case (Suc k)
  show ?case
  proof (cases "\<exists>shrunk. retriable (snd res) \<and> drop_for_overflow (mcView c) = Some shrunk")
    case False
    then have "overflow_retry (Suc k) next res c s = (res, c, s)"
      by (auto simp: retriable_def split: option.splits)
    with Suc.prems False show ?thesis
      by (intro exI [of _ 0] exI [of _ "\<lambda>_. t"] exI [of _ "\<lambda>_. res"] exI [of _ "\<lambda>_. s"]) (auto simp: fallback_steps_def)
  next
    case True
    then obtain e shrunk where e: "snd res = Some e" "leOverflow e" "\<not> leMid e" "retriable (snd res)"
      "drop_for_overflow (mcView c) = Some shrunk" by (auto simp: retriable_def split: option.splits)
    let ?s = "overflow_state (mcView c) shrunk s"
    obtain r1 c1 s1 where n: "next (set_view shrunk c) ?s = (r1, c1, s1)" by (metis prod_cases3)
    from leaves_callD [OF keep n] have c1: "c1 = set_view shrunk c" .
    have "overflow_retry k next r1 (set_view shrunk c) s1 = (res', c', s')" using Suc.prems e n by (simp add: c1)
    from Suc.IH [OF this, of ?s] obtain j ts rs us where j: "j \<le> k" "fallback_steps next (set_view shrunk c) j ts rs us" "ts 0 = ?s"
      "rs 0 = r1" "us 0 = s1" "rs j = res'" "us j = s'" "c' = after_drops (set_view shrunk c) j"
      "retriable (snd res') \<longrightarrow> j = k \<or> drop_for_overflow (mcView c') = None" by blast
    have "next (set_view shrunk c) (ts 0) = (rs 0, set_view shrunk c, us 0)" using n by (simp add: j(3-5) c1)
    from fallback_steps_Suc [OF j(2) e(5,4) j(3) this, of t]
    have "fallback_steps next c (Suc j) (case_nat t ts) (case_nat res rs) (case_nat s us)" .
    with j show ?thesis
      by (intro exI [of _ "Suc j"] exI [of _ "case_nat t ts"] exI [of _ "case_nat res rs"] exI [of _ "case_nat s us"])
        (simp add: after_drops_Suc [OF e(5)])
  qed
qed

text \<open>With a compression cache that covers nothing yet, a drop of the fallback leaves no trace.\<close>

lemma overflow_drop_forgotten:
  "sCache s = Some cc \<Longrightarrow> ccCovered cc = 0 \<Longrightarrow> overflow_state view shrunk s = s"
  by (simp add: overflow_state_def summary_cached_def)

subsection \<open>Properties\<close>

text \<open>C34: for a model call that leaves its request as it is, the overflow fallback calls the model once,
  and again only after an overflow that came before anything was streamed, each time on the view with one more
  unit dropped and the state told of the drop, at most as often as configured; it returns what the
  last call returned; every retried view satisfies the pairing contract; and it gives up on such an
  overflow only when the retries are used up or nothing safe is left to drop.\<close>
theorem overflow_fallback:
  assumes "leaves_call next"
    and "overflow_wrap n next c s = (LayerReturns (r, err), c', s')"
  shows "\<exists>k ts rs us. k \<le> overflow_retries n \<and> ts 0 = s \<and> next c s = (rs 0, c, us 0) \<and>
    fallback_steps next c k ts rs us \<and> rs k = (r, err) \<and> us k = s' \<and> c' = after_drops c k \<and>
    (\<forall>i < k. pairing_contract (mcView (after_drops c (Suc i)))) \<and>
    (retriable err \<longrightarrow> k = overflow_retries n \<or> drop_for_overflow (mcView c') = None)"
proof -
  obtain res c1 s1 where n: "next c s = (res, c1, s1)" by (metis prod_cases3)
  from leaves_callD [OF assms(1) n] have c1: "c1 = c" .
  have "overflow_retry (overflow_retries n) next res c s1 = ((r, err), c', s')"
    using assms(2) n c1 by (auto simp: overflow_wrap_def split: prod.splits)
  from overflow_retry_runs [OF assms(1) this, of s] obtain j ts rs us where
    j: "j \<le> overflow_retries n" "fallback_steps next c j ts rs us" "ts 0 = s" "rs 0 = res" "us 0 = s1" "rs j = (r, err)"
      "us j = s'" "c' = after_drops c j" "retriable err \<longrightarrow> j = overflow_retries n \<or> drop_for_overflow (mcView c') = None"
    by auto
  have "pairing_contract (mcView (after_drops c (Suc i)))" if "i < j" for i
  proof -
    have "drop_for_overflow (mcView (after_drops c i)) = Some (mcView (after_drops c (Suc i)))"
      using j(2) that by (simp add: fallback_steps_def)
    then show ?thesis using dropped_view_contract [of 1 "mcView (after_drops c i)"] by simp
  qed
  with j n c1 show ?thesis by blast
qed

definition overflow_error :: lerr where
  "overflow_error = (errorf ''context overflow'')\<lparr>leOverflow := True\<rparr>"

definition overflowing :: model_handler where
  "overflowing c s = (if length (mcView c) \<le> 1 then (empty_result, None) else (empty_result, Some overflow_error), c, tick s)"

definition long_call :: model_call where
  "long_call = \<lparr>mcRequest = sample_request, mcView = [text_message RoleUser ''a'', text_message RoleUser ''b'']\<rparr>"

lemma overflow_fallback_witness:
  "\<exists>k ts rs us. k \<noteq> 0 \<and> fallback_steps overflowing long_call k ts rs us \<and> ts 0 = init_lstate 0 \<and> rs k = (empty_result, None) \<and>
     after_drops long_call k = set_view [text_message RoleUser ''b''] long_call"
proof -
  have v: "overflow_wrap 0 overflowing long_call (init_lstate 0) =
      (LayerReturns (empty_result, None), set_view [text_message RoleUser ''b''] long_call,
       snd (snd (overflow_wrap 0 overflowing long_call (init_lstate 0))))"
    by code_simp
  have "leaves_call overflowing" by (simp add: leaves_call_def overflowing_def)
  from overflow_fallback [OF this v] obtain k ts rs us where
    k: "ts 0 = init_lstate 0" "fallback_steps overflowing long_call k ts rs us" "rs k = (empty_result, None)"
      "set_view [text_message RoleUser ''b''] long_call = after_drops long_call k" by blast
  have "k \<noteq> 0" using k(4) by (cases k) (simp_all add: long_call_def text_message_def set_view_def)
  with k show ?thesis by metis
qed

text \<open>The compression layer never panics and calls the model exactly once, with the view it was
  given or, when that is over the trigger, with one that satisfies the pairing contract, starts
  with a summary and fits the budget unless it is under the trigger or nothing is left to drop;
  while the breaker is tripped it always passes the call through unchanged.\<close>
theorem compression_layer_total:
  "\<exists>d t. compress_wrap cm next c s = pass next d t \<and>
     (d = c \<or> d = set_view (mcView d) c) \<and>
     (mcView d = mcView c \<or>
      pairing_contract (mcView d) \<and> is_summary (hd (mcView d)) \<and>
      (estimate_tokens (mcView d) \<le> compress_budget cm c \<or>
       \<not> should_compress (mcView d) (compress_policy cm c) \<or> length (group_rounds (mcView d)) \<le> 1)) \<and>
     (breaker_tripped (max_failures cm) s \<longrightarrow> d = c \<and> t = s)"
proof (cases "\<exists>f. cmCompressor cm = Some f \<and> 0 < cmWindow cm \<and>
    \<not> breaker_tripped (max_failures cm) s")
  case False
  then have "cmCompressor cm = None \<or> cmWindow cm \<le> 0 \<or>
      breaker_tripped (max_failures cm) s" by fastforce
  then have "compress_wrap cm next c s = pass next c s"
    unfolding compress_wrap_def by (elim disjE) (simp_all split: option.split)
  then show ?thesis by blast
next
  case True
  then obtain f where f: "cmCompressor cm = Some f" "0 < cmWindow cm"
    "\<not> breaker_tripped (max_failures cm) s" by blast
  let ?cache = "case sCache s of None \<Rightarrow> cache_empty | Some cc \<Rightarrow> cc"
  let ?r = "compress_with_cache (f (sClock s)) (mcView c) (compress_policy cm c) (Some ?cache)"
  have "0 < pKeepRecent (compress_policy cm c)" by (simp add: compress_policy_def)
  then have np: "?r \<noteq> CompressPanic" by (simp add: compress_panic_iff)
  show ?thesis
  proof (cases ?r)
    case CompressPanic
    with np show ?thesis by simp
  next
    case (CompressErr e cache')
    with f have "compress_wrap cm next c s =
        pass next c (breaker_record True (tick (s\<lparr>sCache := cache'\<rparr>)))"
      by (simp add: compress_wrap_def Let_def)
    with f show ?thesis by blast
  next
    case (CompressOk v cache')
    with f have "compress_wrap cm next c s =
        pass next (set_view v c) (breaker_record False (tick (s\<lparr>sCache := cache'\<rparr>)))"
      by (simp add: compress_wrap_def Let_def)
    moreover have "mcView (set_view v c) = v" by (simp add: set_view_def)
    moreover have "pMaxTokens (compress_policy cm c) = compress_budget cm c"
      by (simp add: compress_policy_def)
    ultimately show ?thesis
      using f compress_ok_view [OF CompressOk]
      by (intro exI [of _ "set_view v c"] exI [of _ "breaker_record False (tick (s\<lparr>sCache := cache'\<rparr>))"]) auto
  qed
qed

text \<open>A model without native image input is never sent an image block: each is replaced by a text
  that names its path, and every other block, the messages and their order stay as they are.\<close>
theorem vision_gate_hides_images:
  assumes "prov \<noteq> ''''" "\<not> native_images prov (rqModel (mcRequest c))"
  shows "\<exists>d. vision_wrap prov next c s = pass next d s \<and> mcView d = rqMessages (mcRequest d) \<and>
    list_all2 (\<lambda>m m'. mRole m' = mRole m \<and>
        list_all2 (\<lambda>b b'. bType b' \<noteq> BlockImage \<and>
            (if bType b = BlockImage then bText b' = image_hint (bImagePath b) else b' = b))
          (mContent m) (mContent m'))
      (rqMessages (mcRequest c)) (rqMessages (mcRequest d))"
proof (intro exI conjI)
  let ?d = "set_view (map_blocks hint_block (rqMessages (mcRequest c))) c"
  show "vision_wrap prov next c s = pass next ?d s" using assms by (simp add: vision_wrap_def)
  show "mcView ?d = rqMessages (mcRequest ?d)" by (simp add: set_view_def)
  show "list_all2 (\<lambda>m m'. mRole m' = mRole m \<and>
        list_all2 (\<lambda>b b'. bType b' \<noteq> BlockImage \<and>
            (if bType b = BlockImage then bText b' = image_hint (bImagePath b) else b' = b))
          (mContent m) (mContent m'))
      (rqMessages (mcRequest c)) (rqMessages (mcRequest ?d))"
    by (simp add: set_view_def map_blocks_def list_all2_map2 list_all2_same hint_block_def)
qed

lemma vision_gate_hides_images_witness:
  "\<exists>d. vision_wrap ''openai'' overflowing
       (set_view [\<lparr>mRole = RoleUser, mContent = [image_block ''image/png'' ''p.png'' '''']\<rparr>] long_call) (init_lstate 0) =
     pass overflowing d (init_lstate 0) \<and> mcView d = rqMessages (mcRequest d)"
proof -
  have "\<not> native_images ''openai'' ''m''" by code_simp
  then have "\<not> native_images ''openai'' (rqModel (mcRequest (set_view v long_call)))" for v
    by (simp add: set_view_def long_call_def sample_request_def)
  from vision_gate_hides_images [OF _ this, of overflowing _ "init_lstate 0"] show ?thesis
    by blast
qed

lemma compression_layer_total_witness:
  "\<exists>d t. compress_wrap \<lparr>cmCompressor = None, cmWindow = 0, cmMaxTokens = 0, cmThreshold = F64 0 0,
       cmKeepRecent = 0, cmMaxFailures = 0\<rparr> overflowing long_call (init_lstate 3) = pass overflowing d t \<and>
     d = long_call \<and> t = init_lstate 3"
proof -
  let ?cm = "\<lparr>cmCompressor = None, cmWindow = 0, cmMaxTokens = 0, cmThreshold = F64 0 0,
       cmKeepRecent = 0, cmMaxFailures = 0\<rparr>"
  have "breaker_tripped (max_failures ?cm) (init_lstate 3)"
    by (simp add: breaker_tripped_def init_lstate_def max_failures_def)
  with compression_layer_total [of ?cm overflowing long_call "init_lstate 3"] show ?thesis by blast
qed


end
