(* ===== verification/AgentLoop.thy ===== *)
theory AgentLoop
  imports Middleware
begin

section \<open>The agent loop\<close>

text \<open>
  \<open>Loop.Run\<close> of \<open>internal/agent/loop.go\<close> with its terminal sequences, and \<open>overflow.go\<close>. One
  pass of the loop body is \<open>iteration\<close>, cut at its stages: the working view, the hooks, the
  attempt, \<open>after_attempt\<close> for a response, \<open>finish_text\<close> for one without calls and
  \<open>handle_batch\<close> for one with calls. A step either continues with a state or returns; the
  messages produced are in the state. \<open>run_loop\<close> recurses on the iterations left, which
  \<open>MaxIterations\<close> bounds, so a run always returns.
\<close>

subsection \<open>The code\<close>

definition is_recoverable_length :: "usage option \<Rightarrow> int \<Rightarrow> bool" where
  "is_recoverable_length u desired =
     (0 < desired \<and> (case u of None \<Rightarrow> False | Some x \<Rightarrow> OutputTokens x < desired))"

definition cache_hit_pct :: "usage \<Rightarrow> int" where
  "cache_hit_pct u =
     (if InputTokens u = 0 then 0
      else let pct = go_div (CacheReadTokens u * 100) (InputTokens u) in if 100 < pct then 100 else pct)"

definition emit_step_finish :: "env \<Rightarrow> bool \<Rightarrow> model_result \<Rightarrow> string \<Rightarrow> bool \<Rightarrow> lstate \<Rightarrow> lstate" where
  "emit_step_finish en detached res reason continued s =
     emit_ignored en detached (FStepFinish reason (mrUsage res) continued) s"

fun after_hooks :: "bool \<Rightarrow> (bool \<Rightarrow> hook) list \<Rightarrow> lstate \<Rightarrow> lstate" where
  "after_hooks detached [] s = s"
| "after_hooks detached (h # hs) s =
     (let (r, s1) = h detached s
      in case r of
           None \<Rightarrow> after_hooks detached hs s1
         | Some e \<Rightarrow> if leAbort e then s1 else after_hooks detached hs s1)"

definition run_after_run :: "agent_loop \<Rightarrow> bool \<Rightarrow> lstate \<Rightarrow> lstate" where
  "run_after_run l detached s = after_hooks detached (rev (lAfterRun l)) s"

definition report_terminal :: "agent_loop \<Rightarrow> lstate \<Rightarrow> lstate" where
  "report_terminal l s = run_after_run l True s"

definition emit_cancelled :: "env \<Rightarrow> lstate \<Rightarrow> lstate" where
  "emit_cancelled en s = emit_ignored en True FCancelled s"

definition fail_run :: "env \<Rightarrow> agent_loop \<Rightarrow> lstate \<Rightarrow> model_result \<Rightarrow> string \<Rightarrow> lerr \<Rightarrow> lerr option \<times> lstate" where
  "fail_run en l s res reason err =
     (let s1 = emit_step_finish en False res reason False s;
          s2 = run_after_run l False s1
      in (Some err, emit_ignored en False (FError (leText err)) s2))"

definition loop_cancel_run :: "env \<Rightarrow> agent_loop \<Rightarrow> lstate \<Rightarrow> model_result \<Rightarrow> lerr \<Rightarrow> lerr option \<times> lstate" where
  "loop_cancel_run en l s res err =
     (let s1 = emit_step_finish en True res ''other'' False s;
          s2 = report_terminal l s1
      in (Some err, emit_cancelled en s2))"

definition succeed_run :: "env \<Rightarrow> agent_loop \<Rightarrow> lstate \<Rightarrow> model_result \<Rightarrow> string \<Rightarrow> lerr option \<times> lstate" where
  "succeed_run en l s res reason =
     (let s1 = emit_step_finish en False res reason False s;
          s2 = run_after_run l False s1
      in (None, emit_ignored en False FDone s2))"

definition drop_oldest_round_for_overflow :: "lstate \<Rightarrow> bool \<times> lstate" where
  "drop_oldest_round_for_overflow s =
     (case drop_for_overflow (sView s) of
        None \<Rightarrow> (False, s)
      | Some shrunk \<Rightarrow>
          (True, if summary_cached (sView s) s then align_cache (sView s) shrunk s
                 else s\<lparr>sViewDropped := sViewDropped s + (int (length (sView s)) - int (length shrunk))\<rparr>))"

definition attempt_request :: "agent_loop \<Rightarrow> lstate \<Rightarrow> request" where
  "attempt_request l s =
     (let cfg = lConfig l in
      \<lparr>rqModel = cfgModel cfg, rqSystem = cfgSystem cfg, rqMessages = sView s, rqTools = tool_defs l,
       rqMaxTokens = cfgMaxTokens cfg, rqCacheablePrefix = cfgCacheablePrefix cfg,
       rqTemperature = cfgTemperature cfg, rqTopP = cfgTopP cfg, rqStopSequences = cfgStopSequences cfg,
       rqThinking = (if 0 < cfgThinkingBudget cfg then Some (cfgThinkingBudget cfg) else None)\<rparr>)"

definition attempt :: "env \<Rightarrow> agent_loop \<Rightarrow> lstate \<Rightarrow> (model_result \<times> lerr option) \<times> model_call \<times> lstate" where
  "attempt en l s =
     chain_model (lModelWrap l) (real_attempt en)
       \<lparr>mcRequest = attempt_request l s, mcView = sView s\<rparr> s"

text \<open>Hooks run until one aborts the run.\<close>

fun node_hooks :: "hook list \<Rightarrow> lstate \<Rightarrow> lerr option \<times> lstate" where
  "node_hooks [] s = (None, s)"
| "node_hooks (h # hs) s =
     (let (r, s1) = h s
      in case r of
           None \<Rightarrow> node_hooks hs s1
         | Some e \<Rightarrow> if leAbort e then (Some e, s1) else node_hooks hs s1)"

datatype step_out = Continue lstate | Return "lerr option" lstate

definition returning :: "lerr option \<times> lstate \<Rightarrow> step_out" where
  "returning x = Return (fst x) (snd x)"

definition truncated_error :: lerr where
  "truncated_error = errorf ''response was truncated before completion''"

text \<open>A response without tool calls.\<close>

definition genuine_length :: "agent_loop \<Rightarrow> model_result \<Rightarrow> bool" where
  "genuine_length l res =
     (mrCalls res = [] \<and> mrStop res = StopMaxTokens \<and> 0 < cfgMaxTokens (lConfig l) \<and>
      (case mrUsage res of None \<Rightarrow> False | Some u \<Rightarrow> cfgMaxTokens (lConfig l) \<le> OutputTokens u))"

definition finish_text :: "env \<Rightarrow> agent_loop \<Rightarrow> model_result \<Rightarrow> lstate \<Rightarrow> lerr option \<times> lstate" where
  "finish_text en l res s =
     (if mrStop res = StopMaxTokens \<and> \<not> genuine_length l res
      then fail_run en l s res ''length'' truncated_error
      else if mrStop res = StopUnknown
      then fail_run en l s res ''error''
        (errorf ''provider closed the stream without a finish reason; the response may be incomplete'')
      else if mrStop res \<noteq> StopEndTurn \<and> \<not> genuine_length l res
      then fail_run en l s res ''error''
        (errorf (''response ended early (stop reason: '' @ stop_string (mrStop res) @
          ''); the output may be incomplete''))
      else let (ce, s1) = ctx_err en s
           in case ce of
                Some e \<Rightarrow> loop_cancel_run en l s1 res e
              | None \<Rightarrow> succeed_run en l s1 res ''stop'')"

fun emit_interrupts :: "env \<Rightarrow> loop_interaction list \<Rightarrow> lstate \<Rightarrow> lerr option \<times> lstate" where
  "emit_interrupts en [] s = (None, s)"
| "emit_interrupts en (g # gs) s =
     (let (err, s1) = emit en False (FInterrupt g) s
      in case err of Some e \<Rightarrow> (Some e, s1) | None \<Rightarrow> emit_interrupts en gs s1)"

text \<open>A batch that is answered without being dispatched, and the loop goes on.\<close>

definition fail_batch :: "env \<Rightarrow> model_result \<Rightarrow> tool_result list \<Rightarrow> string \<Rightarrow> lstate \<Rightarrow> step_out" where
  "fail_batch en res results reason s =
     Continue (emit_step_finish en False res reason True (record_tool_results en (mrCalls res) results s))"

text \<open>The gated batch ends the run, unless one of its frames cannot be emitted.\<close>

definition suspend_batch :: "env \<Rightarrow> agent_loop \<Rightarrow> model_result \<Rightarrow> loop_interaction list \<Rightarrow> lstate \<Rightarrow> lerr option \<times> lstate" where
  "suspend_batch en l res gated s =
     (let (err, s1) = emit_interrupts en gated (s\<lparr>sPending := gated\<rparr>)
      in case err of
           Some e \<Rightarrow>
             fail_run en l (record_tool_results en (mrCalls res) (interrupt_failed_call_results (mrCalls res)) s1)
               res ''error'' e
         | None \<Rightarrow> succeed_run en l s1 res ''tool-calls'')"

definition handle_batch :: "env \<Rightarrow> agent_loop \<Rightarrow> model_result \<Rightarrow> lstate \<Rightarrow> step_out" where
  "handle_batch en l res s =
     (let calls = mrCalls res; (ce, s1) = ctx_err en s in
      case ce of
        Some e \<Rightarrow>
          returning (loop_cancel_run en l (record_tool_results en calls (cancelled_call_results calls) s1) res e)
      | None \<Rightarrow>
          if mrStop res = StopMaxTokens
          then fail_batch en res (truncated_call_results calls (cfgMaxTokens (lConfig l))) ''length'' s1
          else if mrStop res = StopUnknown
          then fail_batch en res (unknown_stop_call_results calls) ''error'' s1
          else if mrStop res \<noteq> StopEndTurn \<and> mrStop res \<noteq> StopToolUse
          then fail_batch en res (early_stop_call_results calls (mrStop res)) ''error'' s1
          else let gated = interaction_gate en l (sClock s1) calls;
                   s2 = s1\<lparr>sClock := Suc (sClock s1 + length gated)\<rparr>
               in if gated \<noteq> [] then returning (suspend_batch en l res gated s2)
                  else let (results, s3) = dispatch en l calls s2
                       in fail_batch en res results ''tool-calls'' s3)"

definition empty_response_error :: "stop_reason \<Rightarrow> lerr" where
  "empty_response_error stop = errorf
     (''provider returned an empty response: no content, no tool calls (stop reason: '' @
      stop_reason_text stop @ '')'')"

text \<open>A response of the model.\<close>

definition add_usage :: "model_result \<Rightarrow> lstate \<Rightarrow> lstate" where
  "add_usage res s =
     (case mrUsage res of None \<Rightarrow> s | Some u \<Rightarrow> s\<lparr>sUsage := sUsage s + usage_no_reasoning u\<rparr>)"

definition after_attempt :: "env \<Rightarrow> agent_loop \<Rightarrow> model_result \<Rightarrow> lstate \<Rightarrow> step_out" where
  "after_attempt en l res0 s =
     (let s1 = add_usage res0 s;
          asst = (mrAssistant res0)\<lparr>mContent := drop_empty_blocks (mContent (mrAssistant res0))\<rparr>;
          res = res0\<lparr>mrAssistant := asst\<rparr>
      in if mrCalls res = [] \<and> mContent asst = [] then
           returning (fail_run en l s1 res ''error'' (empty_response_error (mrStop res)))
         else if mrCalls res = [] \<and> mrStop res = StopMaxTokens \<and>
                 is_recoverable_length (mrUsage res) (cfgMaxTokens (lConfig l)) then
           (let (ok, s2) = (if sOverflowRecovered s1 then (False, s1) else drop_oldest_round_for_overflow s1)
            in if \<not> ok then returning (fail_run en l s2 res ''error'' truncated_error)
               else Continue (emit_step_finish en False res ''length'' True
                      (emit_ignored en False (FOverflowRecovery (mrUsage res))
                        (s2\<lparr>sOverflowRecovered := True\<rparr>))))
         else
           let s2 = emit_ignored en True (FAssistant asst (mrUsage res))
                      (s1\<lparr>sProduced := sProduced s1 @ [asst]\<rparr>);
               (abort, s3) = node_hooks (rev (lAfterModel l)) s2
           in case abort of
                Some e \<Rightarrow>
                  returning (fail_run en l
                    (if mrCalls res \<noteq> []
                     then record_tool_results en (mrCalls res) (aborted_call_results (mrCalls res)) s3
                     else s3) res ''error'' e)
              | None \<Rightarrow>
                  if mrCalls res = [] then returning (finish_text en l res s3)
                  else handle_batch en l res s3)"

text \<open>The working view: the repaired history and the messages produced, less the dropped prefix.\<close>

definition working_view :: "message list \<Rightarrow> lstate \<Rightarrow> message list" where
  "working_view base s =
     (let view = base @ sProduced s
      in if 0 < sViewDropped s \<and> sViewDropped s < int (length view) then drop (nat (sViewDropped s)) view
         else view)"

definition iteration :: "env \<Rightarrow> agent_loop \<Rightarrow> message list \<Rightarrow> nat \<Rightarrow> lstate \<Rightarrow> step_out" where
  "iteration en l base iter s =
     (let (ce, s1) = ctx_err en (s\<lparr>sIteration := iter\<rparr>) in
      case ce of
        Some e \<Rightarrow> Return (Some e) (emit_cancelled en (report_terminal l s1))
      | None \<Rightarrow>
          let s2 = (if 0 < iter then emit_ignored en False FStepStart s1 else s1);
              s3 = s2\<lparr>sView := working_view base s2\<rparr>;
              (abort, s4) = node_hooks (lBefore l) s3
          in case abort of
               Some e \<Rightarrow> returning (fail_run en l s4 empty_result ''error'' e)
             | None \<Rightarrow>
                 let ((res, err), c, s5) = attempt en l s4
                 in case err of
                      None \<Rightarrow> after_attempt en l res s5
                    | Some e \<Rightarrow>
                        let (ce2, s6) = ctx_err en s5
                        in case ce2 of
                             Some e2 \<Rightarrow> returning (loop_cancel_run en l s6 res e2)
                           | None \<Rightarrow> returning (fail_run en l s6 res ''error'' e))"

definition max_iterations_error :: "agent_loop \<Rightarrow> lerr" where
  "max_iterations_error l = errorf (''max iterations ('' @ itoa (cfgMaxIterations (lConfig l)) @ '') exceeded'')"

fun run_loop :: "env \<Rightarrow> agent_loop \<Rightarrow> message list \<Rightarrow> nat \<Rightarrow> nat \<Rightarrow> lstate \<Rightarrow> lerr option \<times> lstate" where
  "run_loop en l base 0 iter s = fail_run en l s empty_result ''error'' (max_iterations_error l)"
| "run_loop en l base (Suc k) iter s =
     (case iteration en l base iter s of
        Return err s' \<Rightarrow> (err, s')
      | Continue s' \<Rightarrow> run_loop en l base k (Suc iter) s')"

definition loop_run :: "env \<Rightarrow> agent_loop \<Rightarrow> message list \<Rightarrow> nat \<Rightarrow> lerr option \<times> lstate" where
  "loop_run en l history failures =
     run_loop en l (ensure_pairing history) (nat (cfgMaxIterations (lConfig l))) 0 (init_lstate failures)"

definition usage_mw :: "env \<Rightarrow> (nat \<Rightarrow> usage_scope option) \<Rightarrow> middleware" where
  "usage_mw en scope = \<lparr>mwBefore = None, mwAfterModel = None, mwAfterRun = Some (usage_report en scope),
     mwModel = None, mwTool = None, mwGate = None\<rparr>"

definition new_loop :: "env \<Rightarrow> (nat \<Rightarrow> usage_scope option) \<Rightarrow> registry \<Rightarrow> loop_config \<Rightarrow> agent_loop" where
  "new_loop en scope tools cfg =
     use_all [usage_mw en scope]
       \<lparr>lConfig = (if cfgMaxIterations cfg = 0 then cfg\<lparr>cfgMaxIterations := 25\<rparr> else cfg),
        lTools = tools, lBefore = [], lAfterModel = [], lAfterRun = [], lModelWrap = [], lToolWrap = [],
        lGateInteraction = None, lGateExecute = None\<rparr>"

subsection \<open>Stages only add\<close>

definition quiet_frame :: "frame \<Rightarrow> bool" where
  "quiet_frame f = (\<not> ends_run f \<and> frame_kind f \<noteq> KindOverflowRecovery)"

text \<open>From \<open>s\<close> to \<open>s'\<close> the run produced \<open>ms\<close>, executed \<open>cs\<close> and sent only quiet frames.\<close>

definition adds :: "message list \<Rightarrow> call list \<Rightarrow> lstate \<Rightarrow> lstate \<Rightarrow> bool" where
  "adds ms cs s s' =
     (sProduced s' = sProduced s @ ms \<and> sLive s' = sLive s @ cs \<and>
      sOverflowRecovered s' = sOverflowRecovered s \<and>
      (\<exists>fs. frames s' = frames s @ fs \<and> list_all quiet_frame fs))"

lemma adds_refl [simp]: "adds [] [] s s"
  by (simp add: adds_def)

lemma adds_trans: "adds ms cs s t \<Longrightarrow> adds ns ds t u \<Longrightarrow> adds (ms @ ns) (cs @ ds) s u"
  by (auto simp: adds_def)

lemma adds_trans0: "adds ms cs s t \<Longrightarrow> adds [] [] t u \<Longrightarrow> adds ms cs s u"
  using adds_trans [of ms cs s t "[]" "[]" u] by simp

lemma adds_0trans: "adds [] [] s t \<Longrightarrow> adds ms cs t u \<Longrightarrow> adds ms cs s u"
  using adds_trans [of "[]" "[]" s t ms cs u] by simp

lemma progress_quiet: "progress_frame f \<Longrightarrow> quiet_frame f"
  by (simp add: progress_frame_def quiet_frame_def)

lemma extends_adds: "extends progress_frame s s' \<Longrightarrow> adds [] [] s s'"
  unfolding adds_def using extends_fields [of progress_frame s s'] extends_frames [of progress_frame s s']
  by (auto simp: list_all_iff progress_quiet)

lemma adds_emit [simp]: "quiet_frame f \<Longrightarrow> adds [] [] s (emit_ignored en d f s)"
  by (simp add: adds_def)

lemma adds_upd [simp]:
  "adds ms cs s (t\<lparr>sView := v\<rparr>) = adds ms cs s t"
  "adds ms cs s (t\<lparr>sIteration := i\<rparr>) = adds ms cs s t"
  "adds ms cs s (t\<lparr>sUsage := u\<rparr>) = adds ms cs s t"
  "adds ms cs s (t\<lparr>sPending := p\<rparr>) = adds ms cs s t"
  "adds ms cs s (t\<lparr>sClock := n\<rparr>) = adds ms cs s t"
  "adds ms cs s (tick t) = adds ms cs s t"
  by (simp_all add: adds_def frames_def)

lemma adds_produced: "adds [m] [] s (s\<lparr>sProduced := sProduced s @ [m]\<rparr>)"
  by (simp add: adds_def frames_def)

lemma adds_emit_trans: "adds ms cs s t \<Longrightarrow> quiet_frame f \<Longrightarrow> adds ms cs s (emit_ignored en d f t)"
  by (erule adds_trans0) (erule adds_emit)

lemma record_adds: "adds [tool_result_message calls results] [] s (record_tool_results en calls results s)"
proof -
  let ?s = "emit_results en (zip calls results) s"
  have "adds [] [] s ?s" using emit_results_spec extends_adds by blast
  then have "adds [tool_result_message calls results] [] s
      (?s\<lparr>sProduced := sProduced ?s @ [tool_result_message calls results]\<rparr>)"
    using adds_0trans adds_produced by blast
  then show ?thesis
    unfolding record_tool_results_def Let_def
    by (rule adds_emit_trans) (simp add: quiet_frame_def ends_run_def)
qed

lemma step_finish_adds [simp]: "adds [] [] s (emit_step_finish en d res reason c s)"
  by (simp add: emit_step_finish_def quiet_frame_def ends_run_def)

subsection \<open>The contract of what is plugged in\<close>

definition loop_ok :: "agent_loop \<Rightarrow> bool" where
  "loop_ok l =
     ((\<forall>m \<in> set (lModelWrap l). model_layer_ok (mlWrap m)) \<and>
      (\<forall>h \<in> set (lBefore l). hook_contract h) \<and> (\<forall>h \<in> set (lAfterModel l). hook_contract h) \<and>
      (\<forall>h \<in> set (lAfterRun l). \<forall>d. hook_contract (h d)))"

lemma node_hooks_keeps:
  "\<forall>h \<in> set hs. hook_contract h \<Longrightarrow> node_hooks hs s = (r, s') \<Longrightarrow> extends progress_frame s s'"
proof (induction hs arbitrary: s)
  case (Cons h hs)
  obtain r1 s1 where h: "h s = (r1, s1)" by force
  have "hook_contract h" using Cons.prems(1) by simp
  from hook_contract.keeps [OF this h] have 1: "extends progress_frame s s1" .
  show ?case
  proof (cases "\<exists>e. r1 = Some e \<and> leAbort e")
    case True
    with Cons.prems(2) h 1 show ?thesis by auto
  next
    case False
    then have "node_hooks hs s1 = (r, s')" using Cons.prems(2) h by (auto split: option.splits)
    with Cons.IH [of s1] Cons.prems(1) 1 show ?thesis by (auto intro: extends_trans)
  qed
qed simp

lemma after_hooks_keeps:
  "\<forall>h \<in> set hs. hook_contract (h d) \<Longrightarrow> extends progress_frame s (after_hooks d hs s)"
proof (induction hs arbitrary: s)
  case (Cons h hs)
  obtain r1 s1 where h: "h d s = (r1, s1)" by force
  have "hook_contract (h d)" using Cons.prems(1) by simp
  from hook_contract.keeps [OF this h] have 1: "extends progress_frame s s1" .
  have 2: "extends progress_frame s1 (after_hooks d hs s1)" using Cons by simp
  show ?case
    using h 1 extends_trans [OF 1 2] by (simp split: option.split)
qed simp

lemma run_after_keeps: "loop_ok l \<Longrightarrow> extends progress_frame s (run_after_run l d s)"
  unfolding run_after_run_def by (rule after_hooks_keeps) (simp add: loop_ok_def)

lemma attempt_keeps:
  assumes "loop_ok l" "attempt en l s = ((res, err), c, s')"
  shows "extends progress_frame s s' \<and> (err = None \<longrightarrow> result_ok res)"
proof -
  have "handler_ok (chain_model (lModelWrap l) (real_attempt en))"
    by (rule chain_ok) (use assms(1) real_attempt_ok in \<open>auto simp: loop_ok_def\<close>)
  from handler_okD [OF this] assms(2) show ?thesis
    unfolding attempt_def using extends_weaken content_progress by blast
qed

subsection \<open>How a run ends\<close>

text \<open>The run is closed by one last frame after a state that only added.\<close>

definition closes :: "frame \<Rightarrow> lstate \<Rightarrow> lstate \<Rightarrow> bool" where
  "closes f s s' =
     (\<exists>t en d. adds [] [] s t \<and> sPending t = sPending s \<and> s' = emit_ignored en d f t)"

lemma closesD:
  assumes "closes f s s'"
  shows "sProduced s' = sProduced s" "sLive s' = sLive s" "sPending s' = sPending s"
    "sOverflowRecovered s' = sOverflowRecovered s"
    "\<exists>fs. frames s' = frames s @ fs @ [f] \<and> list_all quiet_frame fs"
  using assms by (auto simp: closes_def adds_def)

lemma after_step_finish:
  assumes "loop_ok l"
  shows "adds [] [] s (run_after_run l d (emit_step_finish en d' res reason False s)) \<and>
    sPending (run_after_run l d (emit_step_finish en d' res reason False s)) = sPending s"
proof -
  let ?s = "emit_step_finish en d' res reason False s"
  have x: "extends progress_frame ?s (run_after_run l d ?s)" by (rule run_after_keeps [OF assms])
  have "sPending ?s = sPending s" by (simp add: emit_step_finish_def)
  with extends_fields(4) [OF x] adds_trans0 [OF step_finish_adds extends_adds [OF x]] show ?thesis
    by simp
qed

lemma fail_run_closes:
  "loop_ok l \<Longrightarrow> fail_run en l s res reason e = (err, s') \<Longrightarrow>
     err = Some e \<and> closes (FError (leText e)) s s'"
  using after_step_finish [of l s False en False res reason]
  unfolding fail_run_def Let_def closes_def by auto

lemma cancel_run_closes:
  "loop_ok l \<Longrightarrow> loop_cancel_run en l s res e = (err, s') \<Longrightarrow> err = Some e \<and> closes FCancelled s s'"
  using after_step_finish [of l s True en True res "''other''"]
  unfolding loop_cancel_run_def Let_def closes_def report_terminal_def emit_cancelled_def by auto

lemma succeed_run_closes:
  "loop_ok l \<Longrightarrow> succeed_run en l s res reason = (err, s') \<Longrightarrow> err = None \<and> closes FDone s s'"
  using after_step_finish [of l s False en False res reason]
  unfolding succeed_run_def Let_def closes_def by auto

lemma adds_closes:
  assumes "adds ms cs s t" "closes f t s'"
  shows "sProduced s' = sProduced s @ ms \<and> sLive s' = sLive s @ cs \<and>
    (\<exists>fs. frames s' = frames s @ fs @ [f] \<and> list_all quiet_frame fs)"
proof -
  obtain fs gs where "frames t = frames s @ fs" "list_all quiet_frame fs"
    "frames s' = frames t @ gs @ [f]" "list_all quiet_frame gs"
    using assms(1) closesD(5) [OF assms(2)] unfolding adds_def by blast
  then have "\<exists>fs. frames s' = frames s @ fs @ [f] \<and> list_all quiet_frame fs"
    by (intro exI [of _ "fs @ gs"]) simp
  with assms(1) closesD(1,2) [OF assms(2)] show ?thesis by (simp add: adds_def)
qed


subsection \<open>What a run produces is paired\<close>

text \<open>
  Assistant messages, each with calls answered by the next message: one result per call, in the
  order of the calls.
\<close>

fun paired_tail :: "message list \<Rightarrow> bool" where
  "paired_tail [] = True"
| "paired_tail (a # ms) =
     (is_assistant a \<and> mContent a \<noteq> [] \<and>
      (if use_ids (mContent a) = [] then paired_tail ms
       else (case ms of [] \<Rightarrow> False
             | r # ms' \<Rightarrow> \<not> is_assistant r \<and> result_ids (mContent r) = use_ids (mContent a) \<and>
                 paired_tail ms')))"

lemma paired_tail_append: "paired_tail xs \<Longrightarrow> paired_tail ys \<Longrightarrow> paired_tail (xs @ ys)"
proof (induction xs rule: paired_tail.induct)
  case (2 a ms)
  then show ?case by (cases ms) (auto split: if_splits)
qed simp

definition suspended :: "lerr option \<Rightarrow> lstate \<Rightarrow> message list \<Rightarrow> bool" where
  "suspended err s ms =
     (err = None \<and> sPending s \<noteq> [] \<and>
      (\<exists>a. ms = [a] \<and> is_assistant a \<and> use_ids (mContent a) \<noteq> [] \<and>
         (\<forall>i \<in> set (sPending s). map cID (iBatch i) = use_ids (mContent a))))"

definition end_frame :: "lerr option \<Rightarrow> frame \<Rightarrow> bool" where
  "end_frame err f =
     (case err of None \<Rightarrow> f = FDone | Some e \<Rightarrow> f = FCancelled \<or> f = FError (leText e))"

lemma end_frame_simps [simp]:
  "end_frame None FDone" "end_frame (Some e) FCancelled" "end_frame (Some e) (FError (leText e))"
  by (simp_all add: end_frame_def)

lemma end_frame_ends: "end_frame err f \<Longrightarrow> ends_run f"
  by (auto simp: end_frame_def ends_run_def split: option.splits)

text \<open>A return from \<open>s\<close>: one end frame, and a paired tail unless the run is suspended.\<close>

definition finishes :: "lstate \<Rightarrow> lerr option \<Rightarrow> lstate \<Rightarrow> bool" where
  "finishes s err s' =
     (\<exists>f fs ms cs. end_frame err f \<and> frames s' = frames s @ fs @ [f] \<and> list_all quiet_frame fs \<and>
        sProduced s' = sProduced s @ ms \<and> sLive s' = sLive s @ cs \<and>
        length (filter is_assistant ms) \<le> 1 \<and> (paired_tail ms \<or> suspended err s' ms))"

definition ends :: "lstate \<Rightarrow> lerr option \<Rightarrow> lstate \<Rightarrow> bool" where
  "ends s err s' = (\<exists>f t. end_frame err f \<and> adds [] [] s t \<and> closes f t s')"

lemma finishesI:
  assumes "adds ms cs s t" "closes f t s'" "end_frame err f" "paired_tail ms \<or> suspended err s' ms"
    "length (filter is_assistant ms) \<le> 1"
  shows "finishes s err s'"
  using adds_closes [OF assms(1,2)] assms(3-5) unfolding finishes_def by blast

lemma ends_finishes:
  assumes "adds ms cs s t" "ends t err s'" "paired_tail ms" "length (filter is_assistant ms) \<le> 1"
  shows "finishes s err s'"
proof -
  obtain f u where "end_frame err f" "adds [] [] t u" "closes f u s'" using assms(2) by (auto simp: ends_def)
  with finishesI [OF adds_trans0 [OF assms(1)]] assms(3,4) show ?thesis by blast
qed

lemma ends_after: "adds [] [] s t \<Longrightarrow> ends t err s' \<Longrightarrow> ends s err s'"
  unfolding ends_def using adds_trans0 by blast

lemma fail_ends: "loop_ok l \<Longrightarrow> fail_run en l s res reason e = (err, s') \<Longrightarrow> ends s err s'"
  unfolding ends_def by (drule (1) fail_run_closes) (metis adds_refl end_frame_simps(3))

lemma cancel_ends: "loop_ok l \<Longrightarrow> loop_cancel_run en l s res e = (err, s') \<Longrightarrow> ends s err s'"
  unfolding ends_def by (drule (1) cancel_run_closes) (metis adds_refl end_frame_simps(2))

lemma succeed_ends: "loop_ok l \<Longrightarrow> succeed_run en l s res reason = (err, s') \<Longrightarrow> ends s err s'"
  unfolding ends_def by (drule (1) succeed_run_closes) (metis adds_refl end_frame_simps(1))

lemma finish_text_ends:
  assumes "loop_ok l" "finish_text en l res s = (err, s')"
  shows "ends s err s'"
proof -
  have t: "adds [] [] s (tick s)" by simp
  show ?thesis
    using assms(2) fail_ends [OF assms(1)] ends_after [OF t cancel_ends [OF assms(1)]]
      ends_after [OF t succeed_ends [OF assms(1)]]
    unfolding finish_text_def ctx_pair Let_def by (auto split: if_splits option.splits)
qed

subsection \<open>A batch\<close>

text \<open>After \<open>a\<close> was produced, the batch is answered in full, or suspended.\<close>

definition answers :: "model_result \<Rightarrow> lstate \<Rightarrow> step_out \<Rightarrow> bool" where
  "answers res s out =
     (case out of
        Continue s' \<Rightarrow>
          (\<exists>rs cs. length rs = length (mrCalls res) \<and> adds [tool_result_message (mrCalls res) rs] cs s s')
      | Return err s' \<Rightarrow>
          (\<exists>f t. end_frame err f \<and> closes f t s' \<and>
             ((\<exists>rs. length rs = length (mrCalls res) \<and> adds [tool_result_message (mrCalls res) rs] [] s t) \<or>
              adds [] [] s t \<and> err = None \<and> sPending s' \<noteq> [] \<and>
              (\<forall>i \<in> set (sPending s'). iBatch i = mrCalls res))))"

lemma fail_batch_answers:
  assumes "length rs = length (mrCalls res)" "adds [] cs s t"
  shows "answers res s (fail_batch en res rs reason t)"
proof -
  have "adds [tool_result_message (mrCalls res) rs] cs s (record_tool_results en (mrCalls res) rs t)"
    using adds_trans [OF assms(2) record_adds] by simp
  then have "adds [tool_result_message (mrCalls res) rs] cs s
      (emit_step_finish en False res reason True (record_tool_results en (mrCalls res) rs t))"
    by (rule adds_trans0) (rule step_finish_adds)
  then show ?thesis
    unfolding answers_def fail_batch_def using assms(1) by auto
qed

lemma answered_return:
  assumes "closes f (record_tool_results en (mrCalls res) rs t) s'" "end_frame err f"
    "length rs = length (mrCalls res)" "adds [] [] s t"
  shows "answers res s (Return err s')"
proof -
  have "adds [tool_result_message (mrCalls res) rs] [] s (record_tool_results en (mrCalls res) rs t)"
    using adds_0trans [OF assms(4) record_adds] .
  then show ?thesis unfolding answers_def using assms by auto
qed

lemma emit_interrupts_adds:
  "emit_interrupts en gs s = (err, s') \<Longrightarrow> adds [] [] s s' \<and> sPending s' = sPending s"
proof (induction gs arbitrary: s)
  case (Cons g gs)
  obtain r s1 where e: "emit en False (FInterrupt g) s = (r, s1)" by force
  have q: "adds [] [] s s1" "sPending s1 = sPending s"
    using emit_pair [OF e] by (simp_all add: quiet_frame_def ends_run_def)
  with Cons e show ?case
    by (cases r) (auto intro: adds_trans0)
qed simp

lemma gate_batches: "i \<in> set (interaction_gate en l n calls) \<Longrightarrow> iBatch i = calls"
proof -
  have "i \<in> set (gate_scan en l n b k cs) \<Longrightarrow> iBatch i = b" for b k cs
    by (induction cs arbitrary: k) (auto split: option.splits)
  then show "i \<in> set (interaction_gate en l n calls) \<Longrightarrow> iBatch i = calls"
    by (auto simp: interaction_gate_def)
qed

lemma suspend_answers:
  assumes ok: "loop_ok l" and s: "adds [] [] s0 s" and g: "gated \<noteq> []" "\<forall>i \<in> set gated. iBatch i = mrCalls res"
  shows "answers res s0 (returning (suspend_batch en l res gated s))"
proof -
  obtain r s1 where e: "emit_interrupts en gated (s\<lparr>sPending := gated\<rparr>) = (r, s1)" by force
  from emit_interrupts_adds [OF e] have "adds [] [] (s\<lparr>sPending := gated\<rparr>) s1" and p: "sPending s1 = gated"
    by simp_all
  then have s1: "adds [] [] s0 s1" using s adds_trans0 [of "[]" "[]" s0 "s\<lparr>sPending := gated\<rparr>" s1] by simp
  show ?thesis
  proof (cases r)
    case (Some x)
    obtain err s' where f: "fail_run en l (record_tool_results en (mrCalls res)
        (interrupt_failed_call_results (mrCalls res)) s1) res ''error'' x = (err, s')" by force
    from fail_run_closes [OF ok f] have "err = Some x" "closes (FError (leText x))
        (record_tool_results en (mrCalls res) (interrupt_failed_call_results (mrCalls res)) s1) s'"
      by simp_all
    with answered_return [OF this(2) _ _ s1, of "Some x"] e f Some show ?thesis
      by (simp add: suspend_batch_def returning_def)
  next
    case None
    obtain err s' where f: "succeed_run en l s1 res ''tool-calls'' = (err, s')" by force
    with e None have "suspend_batch en l res gated s = (err, s')" by (simp add: suspend_batch_def)
    with succeed_run_closes [OF ok f] closesD(3) p s1 g show ?thesis
      unfolding answers_def returning_def end_frame_def by fastforce
  qed
qed

lemma handle_batch_answers:
  assumes ok: "loop_ok l"
  shows "answers res s (handle_batch en l res s)"
proof (cases "eCtxErr en (sClock s)")
  case (Some e)
  obtain err s' where c: "loop_cancel_run en l (record_tool_results en (mrCalls res)
      (cancelled_call_results (mrCalls res)) (tick s)) res e = (err, s')" by force
  from cancel_run_closes [OF ok c] have "err = Some e" "closes FCancelled
      (record_tool_results en (mrCalls res) (cancelled_call_results (mrCalls res)) (tick s)) s'"
    by simp_all
  with answered_return [OF this(2), of "Some e" s] c Some show ?thesis
    by (simp add: handle_batch_def ctx_pair returning_def)
next
  case None
  let ?n = "sClock (tick s)" and ?calls = "mrCalls res"
  let ?g = "interaction_gate en l ?n ?calls"
  let ?s2 = "(tick s)\<lparr>sClock := Suc (?n + length ?g)\<rparr>"
  have 1: "answers res s (fail_batch en res rs reason (tick s))" if "length rs = length ?calls" for rs reason
    using fail_batch_answers [OF that, of "[]" s "tick s"] by simp
  have 2: "answers res s (returning (suspend_batch en l res ?g ?s2))" if "?g \<noteq> []"
    by (rule suspend_answers [OF ok _ that]) (simp_all add: gate_batches)
  have 3: "answers res s (fail_batch en res (fst (dispatch en l ?calls t)) reason (snd (dispatch en l ?calls t)))"
    if "t = (tick s)\<lparr>sClock := m\<rparr>" for reason t m
    by (rule fail_batch_answers [where cs = "map fst (live_calls (map (screen en l (sClock t)) ?calls))"])
      (simp, simp only: dispatch_state, simp add: that adds_def frames_def)
  show ?thesis
    using 1 2 3 by (simp add: handle_batch_def ctx_pair None Let_def split_beta)
qed


subsection \<open>One pass of the loop\<close>

definition recovers :: "lstate \<Rightarrow> lstate \<Rightarrow> bool" where
  "recovers s s' =
     (\<not> sOverflowRecovered s \<and> sOverflowRecovered s' \<and> sProduced s' = sProduced s \<and> sLive s' = sLive s \<and>
      (\<exists>fs u gs. frames s' = frames s @ fs @ [FOverflowRecovery u] @ gs \<and>
         list_all quiet_frame fs \<and> list_all quiet_frame gs))"

definition step_ok :: "lstate \<Rightarrow> step_out \<Rightarrow> bool" where
  "step_ok s out =
     (case out of
        Continue s' \<Rightarrow>
          (\<exists>ms cs. paired_tail ms \<and> length (filter is_assistant ms) \<le> 1 \<and> adds ms cs s s') \<or> recovers s s'
      | Return err s' \<Rightarrow> finishes s err s')"

lemma returning_ok: "ends s (fst x) (snd x) \<Longrightarrow> step_ok s (returning x)"
  using ends_finishes [OF adds_refl, of s "fst x" "snd x"] by (simp add: step_ok_def returning_def)

lemma step_ok_after: "adds [] [] s t \<Longrightarrow> step_ok t out \<Longrightarrow> step_ok s out"
proof -
  assume a: "adds [] [] s t" and o: "step_ok t out"
  then obtain fs where fs: "frames t = frames s @ fs" "list_all quiet_frame fs"
    "sProduced t = sProduced s" "sLive t = sLive s" "sOverflowRecovered t = sOverflowRecovered s"
    by (auto simp: adds_def)
  have r: "recovers s u" if "recovers t u" for u
  proof -
    from that obtain gs u1 hs where "frames u = frames t @ gs @ [FOverflowRecovery u1] @ hs"
      "list_all quiet_frame gs" "list_all quiet_frame hs" unfolding recovers_def by blast
    with fs that show ?thesis
      unfolding recovers_def
      by (intro conjI exI [where x = "fs @ gs"] exI [where x = u1] exI [where x = hs]) simp_all
  qed
  have f: "finishes s err u" if "finishes t err u" for err u
  proof -
    from that obtain f gs ms cs where "end_frame err f" "frames u = frames t @ gs @ [f]"
      "list_all quiet_frame gs" "sProduced u = sProduced t @ ms" "sLive u = sLive t @ cs"
      "length (filter is_assistant ms) \<le> 1" "paired_tail ms \<or> suspended err u ms"
      unfolding finishes_def by blast
    with fs show ?thesis
      unfolding finishes_def
      by (intro exI [of _ f] exI [of _ "fs @ gs"] exI [of _ ms] exI [of _ cs]) simp
  qed
  show ?thesis
  proof (cases out)
    case (Continue u)
    with o have "(\<exists>ms cs. paired_tail ms \<and> length (filter is_assistant ms) \<le> 1 \<and> adds ms cs t u) \<or> recovers t u"
      by (simp add: step_ok_def)
    with r [of u] adds_0trans [OF a] have
      "(\<exists>ms cs. paired_tail ms \<and> length (filter is_assistant ms) \<le> 1 \<and> adds ms cs s u) \<or> recovers s u" by blast
    with Continue show ?thesis by (simp add: step_ok_def)
  next
    case (Return err u)
    with o f show ?thesis by (simp add: step_ok_def)
  qed
qed

lemma batch_tail:
  assumes "is_assistant a" "mContent a \<noteq> []" "map cID calls = use_ids (mContent a)" "calls \<noteq> []"
    "length rs = length calls"
  shows "paired_tail [a, tool_result_message calls rs]"
    "length (filter is_assistant [a, tool_result_message calls rs]) \<le> 1"
  using assms by (auto simp: tool_result_message_ids is_assistant_def)

lemma answers_step:
  assumes "answers res t out" "adds [a] [] s t" "is_assistant a" "mContent a \<noteq> []"
    "map cID (mrCalls res) = use_ids (mContent a)" "mrCalls res \<noteq> []"
  shows "step_ok s out"
proof (cases out)
  case (Continue s')
  with assms(1) obtain rs cs where rs: "length rs = length (mrCalls res)"
    "adds [tool_result_message (mrCalls res) rs] cs t s'" by (auto simp: answers_def)
  have "adds [a, tool_result_message (mrCalls res) rs] cs s s'"
    using adds_trans [OF assms(2) rs(2)] by simp
  with batch_tail [OF assms(3-6) rs(1)]
  have "\<exists>ms cs. paired_tail ms \<and> length (filter is_assistant ms) \<le> 1 \<and> adds ms cs s s'" by blast
  with Continue show ?thesis by (simp add: step_ok_def)
next
  case (Return err s')
  with assms(1) obtain f u where f: "end_frame err f" "closes f u s'"
    and d: "(\<exists>rs. length rs = length (mrCalls res) \<and> adds [tool_result_message (mrCalls res) rs] [] t u) \<or>
      adds [] [] t u \<and> err = None \<and> sPending s' \<noteq> [] \<and> (\<forall>i \<in> set (sPending s'). iBatch i = mrCalls res)"
    unfolding answers_def by auto
  from d show ?thesis
  proof (elim disjE exE conjE)
    fix rs
    assume rs: "length rs = length (mrCalls res)" "adds [tool_result_message (mrCalls res) rs] [] t u"
    have "adds [a, tool_result_message (mrCalls res) rs] [] s u" using adds_trans [OF assms(2) rs(2)] by simp
    from finishesI [OF this f(2,1)] batch_tail [OF assms(3-6) rs(1)] have "finishes s err s'" by blast
    with Return show ?thesis by (simp add: step_ok_def)
  next
    assume u: "adds [] [] t u" "err = None" "sPending s' \<noteq> []" "\<forall>i \<in> set (sPending s'). iBatch i = mrCalls res"
    then have "suspended err s' [a]"
      unfolding suspended_def using assms(3,5,6) by auto
    with finishesI [OF adds_trans0 [OF assms(2) u(1)] f(2,1)] Return show ?thesis
      by (simp add: step_ok_def)
  qed
qed

lemma add_usage_adds [simp]: "adds [] [] s (add_usage res s)"
  by (simp add: add_usage_def split: option.split)

lemma drop_overflow_adds:
  "drop_oldest_round_for_overflow s = (ok, s') \<Longrightarrow> adds [] [] s s'"
  by (auto simp: drop_oldest_round_for_overflow_def align_cache_def adds_def frames_def Let_def
      split: option.splits if_splits)

lemma recovery_step:
  assumes a: "adds [] [] s t" and n: "\<not> sOverflowRecovered t"
  shows "recovers s (emit_step_finish en False res reason True
    (emit_ignored en False (FOverflowRecovery u) (t\<lparr>sOverflowRecovered := True\<rparr>)))"
proof -
  obtain fs where "frames t = frames s @ fs" "list_all quiet_frame fs" using a by (auto simp: adds_def)
  moreover have "frames (t\<lparr>sOverflowRecovered := True\<rparr>) = frames t" by (simp add: frames_def)
  moreover have "quiet_frame (FStepFinish reason (mrUsage res) True)" by (simp add: quiet_frame_def ends_run_def)
  ultimately show ?thesis
    using a n unfolding recovers_def adds_def emit_step_finish_def
    by (intro conjI exI [where x = fs] exI [where x = u]
        exI [where x = "[FStepFinish reason (mrUsage res) True]"]) simp_all
qed

lemma after_attempt_ok:
  assumes ok: "loop_ok l" and r: "result_ok res0"
  shows "step_ok s (after_attempt en l res0 s)"
proof -
  define s1 where "s1 = add_usage res0 s"
  define a where "a = (mrAssistant res0)\<lparr>mContent := drop_empty_blocks (mContent (mrAssistant res0))\<rparr>"
  define res where "res = res0\<lparr>mrAssistant := a\<rparr>"
  have s1: "adds [] [] s s1" by (simp add: s1_def)
  have asst: "is_assistant a" and ids: "map cID (mrCalls res) = use_ids (mContent a)"
    using r calls_match_ids by (simp_all add: result_ok_def a_def is_assistant_def res_def drop_empty_ids)
  define s2 where "s2 = emit_ignored en True (FAssistant a (mrUsage res)) (s1\<lparr>sProduced := sProduced s1 @ [a]\<rparr>)"
  have s2: "adds [a] [] s s2"
    unfolding s2_def by (intro adds_emit_trans adds_0trans [OF s1] adds_produced)
      (simp add: quiet_frame_def ends_run_def)
  obtain abort s3 where h: "node_hooks (rev (lAfterModel l)) s2 = (abort, s3)" by force
  have "extends progress_frame s2 s3"
    by (rule node_hooks_keeps [OF _ h]) (use ok in \<open>simp add: loop_ok_def\<close>)
  then have s3: "adds [a] [] s s3" using adds_trans0 [OF s2] extends_adds by blast
  have one: "length (filter is_assistant [a]) \<le> 1" by simp
  consider (Empty) "mrCalls res = []" "mContent a = []"
    | (Length) "mContent a \<noteq> []" "mrCalls res = []" "mrStop res = StopMaxTokens"
        "is_recoverable_length (mrUsage res) (cfgMaxTokens (lConfig l))"
    | (Other) "mrCalls res = [] \<longrightarrow> mContent a \<noteq> []"
        "\<not> (mrCalls res = [] \<and> mrStop res = StopMaxTokens \<and>
           is_recoverable_length (mrUsage res) (cfgMaxTokens (lConfig l)))" by blast
  then show ?thesis
  proof cases
    case Empty
    obtain err s' where f: "fail_run en l s1 res ''error'' (empty_response_error (mrStop res)) = (err, s')" by force
    have "after_attempt en l res0 s = returning (err, s')"
      using Empty f by (simp add: after_attempt_def Let_def a_def s1_def res_def)
    then show ?thesis using step_ok_after [OF s1] returning_ok [of s1 "(err, s')"] fail_ends [OF ok f] by simp
  next
    case Length
    obtain b s4 where d: "(if sOverflowRecovered s1 then (False, s1) else drop_oldest_round_for_overflow s1) = (b, s4)"
      by force
    have s4: "adds [] [] s s4"
      using d s1 drop_overflow_adds [of s1 b s4] adds_trans0 [of "[]" "[]" s s1 s4] by (auto split: if_splits)
    have eq: "after_attempt en l res0 s =
        (if \<not> b then returning (fail_run en l s4 res ''error'' truncated_error)
         else Continue (emit_step_finish en False res ''length'' True
                (emit_ignored en False (FOverflowRecovery (mrUsage res)) (s4\<lparr>sOverflowRecovered := True\<rparr>))))"
      using Length d unfolding after_attempt_def Let_def
        a_def [symmetric] res_def [symmetric] s1_def [symmetric]
      by (simp add: res_def)
    show ?thesis
    proof (cases b)
      case True
      then have "\<not> sOverflowRecovered s1" "drop_oldest_round_for_overflow s1 = (b, s4)"
        using d by (auto split: if_splits)
      with drop_overflow_adds [of s1 b s4] have "\<not> sOverflowRecovered s4" by (simp add: adds_def)
      from recovery_step [OF s4 this, of en res "''length''" "mrUsage res"] eq True show ?thesis
        by (simp add: step_ok_def)
    next
      case False
      obtain err s' where f: "fail_run en l s4 res ''error'' truncated_error = (err, s')" by force
      then show ?thesis
        using eq False step_ok_after [OF s4] returning_ok [of s4 "(err, s')"] fail_ends [OF ok f] by simp
    qed
  next
    case Other
    have ne: "mContent a \<noteq> []" using Other(1) ids by (cases "mrCalls res") auto
    have eq: "after_attempt en l res0 s =
        (case abort of
           Some e \<Rightarrow> returning (fail_run en l
             (if mrCalls res \<noteq> []
              then record_tool_results en (mrCalls res) (aborted_call_results (mrCalls res)) s3 else s3) res ''error'' e)
         | None \<Rightarrow> if mrCalls res = [] then returning (finish_text en l res s3) else handle_batch en l res s3)"
    proof -
      have c: "(mrCalls res = [] \<and> mContent a = []) = False"
        "(mrCalls res = [] \<and> mrStop res = StopMaxTokens \<and>
           is_recoverable_length (mrUsage res) (cfgMaxTokens (lConfig l))) = False"
        using Other by blast+
      show ?thesis
        unfolding after_attempt_def Let_def a_def [symmetric] res_def [symmetric] s1_def [symmetric]
        by (simp only: c if_False s2_def [symmetric] h prod.case)
    qed
    show ?thesis
    proof (cases "mrCalls res = []")
      case True
      then have p: "paired_tail [a]" using asst ne ids by simp
      show ?thesis
      proof (cases abort)
        case None
        obtain err s' where f: "finish_text en l res s3 = (err, s')" by force
        from ends_finishes [OF s3 finish_text_ends [OF ok f] p one] eq True None f show ?thesis
          by (simp add: step_ok_def returning_def)
      next
        case (Some e)
        obtain err s' where f: "fail_run en l s3 res ''error'' e = (err, s')" by force
        from ends_finishes [OF s3 fail_ends [OF ok f] p one] eq True Some f show ?thesis
          by (simp add: step_ok_def returning_def)
      qed
    next
      case False
      show ?thesis
      proof (cases abort)
        case None
        from answers_step [OF handle_batch_answers [OF ok] s3 asst ne ids False] eq None False show ?thesis
          by simp
      next
        case (Some e)
        let ?rs = "aborted_call_results (mrCalls res)"
        let ?s4 = "record_tool_results en (mrCalls res) ?rs s3"
        obtain err s' where f: "fail_run en l ?s4 res ''error'' e = (err, s')" by force
        have "adds [a, tool_result_message (mrCalls res) ?rs] [] s ?s4"
          using adds_trans [OF s3 record_adds] by simp
        from ends_finishes [OF this fail_ends [OF ok f]] batch_tail [OF asst ne ids False batch_results_length(6)]
        have "finishes s err s'" by blast
        with eq False Some f show ?thesis by (simp add: step_ok_def returning_def)
      qed
    qed
  qed
qed


lemma iteration_ok:
  assumes ok: "loop_ok l"
  shows "step_ok s (iteration en l base iter s)"
proof (cases "eCtxErr en (sClock s)")
  case (Some e)
  let ?s1 = "tick (s\<lparr>sIteration := iter\<rparr>)"
  have x: "extends progress_frame ?s1 (report_terminal l ?s1)"
    unfolding report_terminal_def by (rule run_after_keeps [OF ok])
  have "adds [] [] s (report_terminal l ?s1)"
    using adds_trans0 [OF _ extends_adds [OF x], of "[]" "[]" s] by simp
  then have "ends s (Some e) (emit_cancelled en (report_terminal l ?s1))"
    unfolding ends_def closes_def emit_cancelled_def
    by (intro exI [of _ FCancelled] exI [of _ "report_terminal l ?s1"])
      (auto intro!: exI [of _ "report_terminal l ?s1"])
  from returning_ok [of s "(Some e, emit_cancelled en (report_terminal l ?s1))"] this Some
  show ?thesis by (simp add: iteration_def ctx_pair returning_def)
next
  case None
  define s2 where "s2 = (if 0 < iter then emit_ignored en False FStepStart (tick (s\<lparr>sIteration := iter\<rparr>))
     else tick (s\<lparr>sIteration := iter\<rparr>))"
  have "quiet_frame FStepStart" by (simp add: quiet_frame_def ends_run_def)
  then have s2: "adds [] [] s s2"
    unfolding s2_def by (auto intro: adds_emit_trans)
  obtain abort s4 where h: "node_hooks (lBefore l) (s2\<lparr>sView := working_view base s2\<rparr>) = (abort, s4)" by force
  have "extends progress_frame (s2\<lparr>sView := working_view base s2\<rparr>) s4"
    by (rule node_hooks_keeps [OF _ h]) (use ok in \<open>simp add: loop_ok_def\<close>)
  from adds_trans0 [OF _ extends_adds [OF this], of "[]" "[]" s] s2
  have s4: "adds [] [] s s4" by simp
  have eq: "iteration en l base iter s =
      (case abort of
         Some e \<Rightarrow> returning (fail_run en l s4 empty_result ''error'' e)
       | None \<Rightarrow>
           let ((res, err), c, s5) = attempt en l s4
           in case err of
                None \<Rightarrow> after_attempt en l res s5
              | Some e \<Rightarrow>
                  let (ce2, s6) = ctx_err en s5
                  in case ce2 of
                       Some e2 \<Rightarrow> returning (loop_cancel_run en l s6 res e2)
                     | None \<Rightarrow> returning (fail_run en l s6 res ''error'' e))"
    using None h unfolding iteration_def ctx_pair Let_def s2_def by (simp add: ctx_pair)
  show ?thesis
  proof (cases abort)
    case (Some e)
    obtain err s' where f: "fail_run en l s4 empty_result ''error'' e = (err, s')" by force
    from step_ok_after [OF s4] returning_ok [of s4 "(err, s')"] fail_ends [OF ok f] eq Some f show ?thesis
      by simp
  next
    case none: None
    obtain res err c s5 where a: "attempt en l s4 = ((res, err), c, s5)" by (metis prod.exhaust)
    from attempt_keeps [OF ok a] have x: "extends progress_frame s4 s5"
      and r: "err = None \<longrightarrow> result_ok res" by simp_all
    have s5: "adds [] [] s s5" by (rule adds_trans0 [OF s4 extends_adds [OF x]])
    then have s6: "adds [] [] s (tick s5)" by simp
    show ?thesis
    proof (cases err)
      case None
      from step_ok_after [OF s5 after_attempt_ok [OF ok]] r None eq none a show ?thesis by simp
    next
      case (Some e)
      obtain e1 t1 where c: "loop_cancel_run en l (tick s5) res (the (eCtxErr en (sClock s5))) = (e1, t1)" by force
      obtain e2 t2 where f: "fail_run en l (tick s5) res ''error'' e = (e2, t2)" by force
      have "iteration en l base iter s = returning (e1, t1) \<or> iteration en l base iter s = returning (e2, t2)"
        using eq none a Some c f by (cases "eCtxErr en (sClock s5)") (simp_all add: ctx_pair)
      then show ?thesis
        using step_ok_after [OF s6] returning_ok [of "tick s5" "(e1, t1)"] returning_ok [of "tick s5" "(e2, t2)"]
          cancel_ends [OF ok c] fail_ends [OF ok f] by auto
    qed
  qed
qed

subsection \<open>The whole run\<close>

definition recoveries :: "lstate \<Rightarrow> nat" where
  "recoveries s = length (filter (\<lambda>f. frame_kind f = KindOverflowRecovery) (frames s))"

text \<open>What holds between the iterations.\<close>

definition loop_inv :: "nat \<Rightarrow> lstate \<Rightarrow> bool" where
  "loop_inv iter s =
     (list_all (\<lambda>f. \<not> ends_run f) (frames s) \<and> paired_tail (sProduced s) \<and>
      length (filter is_assistant (sProduced s)) \<le> iter \<and>
      recoveries s = (if sOverflowRecovered s then 1 else 0))"

definition run_done :: "nat \<Rightarrow> lerr option \<Rightarrow> lstate \<Rightarrow> bool" where
  "run_done n err s =
     ((\<exists>fs f. frames s = fs @ [f] \<and> end_frame err f \<and> list_all (\<lambda>f. \<not> ends_run f) fs) \<and>
      (\<exists>pre tail. sProduced s = pre @ tail \<and> paired_tail pre \<and> (tail = [] \<or> suspended err s tail)) \<and>
      length (filter is_assistant (sProduced s)) \<le> n \<and> recoveries s \<le> 1)"

lemma quiet_recoveries: "list_all quiet_frame fs \<Longrightarrow> filter (\<lambda>f. frame_kind f = KindOverflowRecovery) fs = []"
  by (induction fs) (auto simp: quiet_frame_def)

lemma quiet_not_end: "list_all quiet_frame fs \<Longrightarrow> list_all (\<lambda>f. \<not> ends_run f) fs"
  by (induction fs) (auto simp: quiet_frame_def)

lemma loop_inv_step:
  assumes "loop_inv iter s" "step_ok s (Continue s')"
  shows "loop_inv (Suc iter) s'"
proof -
  from assms(2) consider (Adds) ms cs where "paired_tail ms" "length (filter is_assistant ms) \<le> 1" "adds ms cs s s'"
    | (Recovers) "recovers s s'" unfolding step_ok_def by auto
  then show ?thesis
  proof cases
    case Adds
    then obtain fs where "frames s' = frames s @ fs" "list_all quiet_frame fs" "sProduced s' = sProduced s @ ms"
      "sOverflowRecovered s' = sOverflowRecovered s" by (auto simp: adds_def)
    with Adds assms(1) quiet_recoveries [of fs] quiet_not_end [of fs] show ?thesis
      by (auto simp: loop_inv_def recoveries_def paired_tail_append)
  next
    case Recovers
    then obtain fs u gs where "frames s' = frames s @ fs @ [FOverflowRecovery u] @ gs" "list_all quiet_frame fs"
      "list_all quiet_frame gs" by (auto simp: recovers_def)
    moreover have "\<not> ends_run (FOverflowRecovery u)" by (simp add: ends_run_def)
    ultimately show ?thesis
      using Recovers assms(1) quiet_recoveries [of fs] quiet_not_end [of fs] quiet_recoveries [of gs]
        quiet_not_end [of gs]
      by (auto simp: loop_inv_def recoveries_def recovers_def)
  qed
qed

lemma finishes_done:
  assumes "loop_inv iter s" "finishes s err s'" "iter < n \<or> sProduced s' = sProduced s \<and> iter \<le> n"
  shows "run_done n err s'"
proof -
  from assms(2) obtain f fs ms cs where f: "end_frame err f" "frames s' = frames s @ fs @ [f]"
    "list_all quiet_frame fs" "sProduced s' = sProduced s @ ms" "length (filter is_assistant ms) \<le> 1"
    "paired_tail ms \<or> suspended err s' ms" unfolding finishes_def by blast
  have "\<exists>pre tail. sProduced s' = pre @ tail \<and> paired_tail pre \<and> (tail = [] \<or> suspended err s' tail)"
  proof (cases "paired_tail ms")
    case True
    with f(4) assms(1) show ?thesis
      by (intro exI [of _ "sProduced s @ ms"] exI [of _ "[]"]) (simp add: paired_tail_append loop_inv_def)
  next
    case False
    with f(4,6) assms(1) show ?thesis
      by (intro exI [of _ "sProduced s"] exI [of _ ms]) (simp add: loop_inv_def)
  qed
  moreover have "length (filter is_assistant (sProduced s')) \<le> n"
    using f(4,5) assms(1,3) by (auto simp: loop_inv_def)
  moreover have "frame_kind f \<noteq> KindOverflowRecovery"
    using f(1) by (auto simp: end_frame_def split: option.splits)
  then have "recoveries s' \<le> 1"
    using f(2) quiet_recoveries [OF f(3)] assms(1) by (simp add: loop_inv_def recoveries_def split: if_splits)
  moreover have "\<exists>gs g. frames s' = gs @ [g] \<and> end_frame err g \<and> list_all (\<lambda>f. \<not> ends_run f) gs"
    using f(1,2) quiet_not_end [OF f(3)] assms(1)
    by (intro exI [of _ "frames s @ fs"] exI [of _ f]) (simp add: loop_inv_def)
  ultimately show ?thesis by (simp add: run_done_def)
qed

lemma run_loop_done:
  assumes ok: "loop_ok l"
  shows "loop_inv iter s \<Longrightarrow> run_loop en l base k iter s = (err, s') \<Longrightarrow> run_done (iter + k) err s'"
proof (induction k arbitrary: iter s)
  case 0
  then have f: "fail_run en l s empty_result ''error'' (max_iterations_error l) = (err, s')" by simp
  from ends_finishes [OF adds_refl fail_ends [OF ok f]] have "finishes s err s'" by simp
  moreover have "sProduced s' = sProduced s" using fail_run_closes [OF ok f] closesD(1) by blast
  ultimately show ?case using finishes_done [OF 0(1)] by simp
next
  case (Suc k)
  show ?case
  proof (cases "iteration en l base iter s")
    case (Continue t)
    with iteration_ok [OF ok, of s en base iter] have "loop_inv (Suc iter) t"
      using loop_inv_step [OF Suc.prems(1)] by simp
    from Suc.IH [OF this] Suc.prems(2) Continue show ?thesis by simp
  next
    case (Return e t)
    with iteration_ok [OF ok, of s en base iter] have "finishes s e t" by (simp add: step_ok_def)
    from finishes_done [OF Suc.prems(1) this, of "iter + Suc k"] Suc.prems(2) Return show ?thesis by simp
  qed
qed

lemma loop_inv_init: "loop_inv 0 (init_lstate f)"
  by (simp add: loop_inv_def init_lstate_def frames_def recoveries_def)

lemma run_done_all:
  assumes "loop_ok l" "loop_run en l history failures = (err, s)"
  shows "run_done (nat (cfgMaxIterations (lConfig l))) err s"
  using run_loop_done [OF assms(1) loop_inv_init] assms(2) unfolding loop_run_def by fastforce


subsection \<open>The tail needs no repair\<close>

lemma settled_append:
  "settled su xs \<Longrightarrow> settled (su \<union> set (all_uses xs)) ys \<Longrightarrow> settled su (xs @ ys)"
proof (induction su xs rule: settled_cases)
  case (Plain su m ms)
  then show ?case by (simp add: settled_plain all_uses_def)
next
  case (Text su m ms)
  then show ?case by (simp add: settled_text all_uses_def)
next
  case (Calls su m r ms)
  have "settled (su \<union> set (use_ids (mContent m))) (ms @ ys)"
    by (rule Calls.IH) (use Calls in \<open>simp add: all_uses_def Un_assoc\<close>)
  with Calls.hyps show ?case by (simp add: settled_callsI)
qed simp

lemma paired_tail_settled:
  "paired_tail ps \<Longrightarrow> distinct (all_uses ps) \<Longrightarrow> set (all_uses ps) \<inter> su = {} \<Longrightarrow>
     '''' \<notin> set (all_uses ps) \<Longrightarrow> settled su ps"
proof (induction ps arbitrary: su rule: paired_tail.induct)
  case 1
  then show ?case by simp
next
  case (2 a ms)
  show ?case
  proof (cases "use_ids (mContent a) = []")
    case True
    with 2 show ?thesis by (auto simp: settled_text all_uses_def)
  next
    case False
    with 2(3) obtain r ms' where ms: "ms = r # ms'" "\<not> is_assistant r"
      "result_ids (mContent r) = use_ids (mContent a)" "paired_tail ms'"
      by (auto split: list.splits)
    have u: "all_uses (a # ms) = use_ids (mContent a) @ all_uses ms'"
      using 2(3) ms by (simp add: all_uses_def)
    have ne: "mContent r \<noteq> []" using ms(3) False by (cases "mContent r") auto
    have "settled (su \<union> set (use_ids (mContent a))) ms'"
      by (rule 2(2) [OF False ms(1,4)]) (use 2(4-6) u in auto)
    with 2(3-6) ms False u ne show ?thesis
      by (auto intro!: settled_callsI)
  qed
qed

subsection \<open>Properties\<close>

text \<open>C3: however the model answers and whatever fails, a run whose middleware keeps its contract returns,
  and the frames it sends end with exactly one end frame: done when it returns without an error,
  and the error's frame or the cancelled frame when it returns with one; no end frame comes before.\<close>
theorem run_one_end_frame:
  assumes "loop_ok l" "loop_run en l history failures = (err, s)"
  shows "\<exists>fs f. frames s = fs @ [f] \<and> end_frame err f \<and> ends_run f \<and> list_all (\<lambda>g. \<not> ends_run g) fs"
  using run_done_all [OF assms] end_frame_ends unfolding run_done_def by blast

text \<open>C4: on every exit the messages a run produced are paired by construction: each assistant message
  with tool calls is followed by one message that answers exactly these calls in their order; the
  only exception is the last message of a run that ended without an error to wait for the client,
  whose calls are the batch of every pending interaction.\<close>
theorem run_tail_paired:
  assumes "loop_ok l" "loop_run en l history failures = (err, s)"
  shows "\<exists>pre tail. sProduced s = pre @ tail \<and> paired_tail pre \<and> (tail = [] \<or> suspended err s tail)"
  using run_done_all [OF assms] unfolding run_done_def by blast

text \<open>A run answers at most as often as its iterations allow and recovers from a truncated response
  at most once.\<close>
theorem run_bounds:
  assumes "loop_ok l" "loop_run en l history failures = (err, s)"
  shows "length (filter is_assistant (sProduced s)) \<le> nat (cfgMaxIterations (lConfig l)) \<and> recoveries s \<le> 1"
  using run_done_all [OF assms] unfolding run_done_def by blast

text \<open>C5: for a run over a settled history that does not end waiting for its client, and whose call
  ids are non-empty and differ from each other and from those of the history, repairing the pairing
  once, before the loop, is enough: the history followed by what the run produced is a fixed point of
  the repair. (A run that ends waiting leaves its batch unanswered; folding the batch answers it.)\<close>
theorem repair_once_is_enough:
  assumes "loop_ok l" "loop_run en l history failures = (err, s)" "settled {} history"
    and "sPending s = []"
    and "distinct (all_uses (history @ sProduced s))" "'''' \<notin> set (all_uses (sProduced s))"
  shows "ensure_pairing (history @ sProduced s) = history @ sProduced s"
proof -
  obtain pre tail where "sProduced s = pre @ tail" "paired_tail pre" "tail = [] \<or> suspended err s tail"
    using run_done_all [OF assms(1,2)] unfolding run_done_def by blast
  with assms(4) have "paired_tail (sProduced s)" by (auto simp: suspended_def)
  moreover have "all_uses (history @ sProduced s) = all_uses history @ all_uses (sProduced s)"
    by (simp add: all_uses_def)
  ultimately have "settled {} (history @ sProduced s)"
    using assms(5,6) by (intro settled_append [OF assms(3)] paired_tail_settled) auto
  then show ?thesis by (rule ensure_pairing_settled)
qed

text \<open>C6: a batch of calls that arrives on a truncated, unexplained or early-ended response, or after the
  run was cancelled, is never executed and never put before the user: no call runs, no interaction
  is opened, and every call is answered by an error result.\<close>
theorem untrusted_batch_not_executed:
  assumes "loop_ok l"
    and "eCtxErr en (sClock s) \<noteq> None \<or> mrStop res \<notin> {StopEndTurn, StopToolUse}"
    and "handle_batch en l res s = Continue s' \<or> handle_batch en l res s = Return err s'"
  shows "sLive s' = sLive s \<and> sPending s' = sPending s \<and>
    (\<exists>rs. length rs = length (mrCalls res) \<and> (\<forall>r \<in> set rs. trIsError r) \<and>
       sProduced s' = sProduced s @ [tool_result_message (mrCalls res) rs])"
proof -
  have err: "\<forall>r \<in> set (fail_all x cs). trIsError r" for x cs
    by (auto simp: fail_all_def error_result_def)
  have rec: "sLive (record_tool_results en (mrCalls res) rs t) = sLive t \<and>
      sPending (record_tool_results en (mrCalls res) rs t) = sPending t \<and>
      sProduced (record_tool_results en (mrCalls res) rs t) = sProduced t @ [tool_result_message (mrCalls res) rs]" for rs t
    using emit_results_spec [of t en "zip (mrCalls res) rs"] extends_fields
    by (simp add: record_tool_results_def Let_def) (metis extends_fields(1,2,4))
  show ?thesis
  proof (cases "eCtxErr en (sClock s)")
    case (Some e)
    let ?rs = "cancelled_call_results (mrCalls res)"
    obtain er t where c: "loop_cancel_run en l (record_tool_results en (mrCalls res) ?rs (tick s)) res e = (er, t)" by force
    with assms(3) Some have "t = s'" by (auto simp: handle_batch_def ctx_pair returning_def)
    with cancel_run_closes [OF assms(1) c] closesD(1-3) rec [of ?rs "tick s"] have
      "sLive s' = sLive s" "sPending s' = sPending s"
      "sProduced s' = sProduced s @ [tool_result_message (mrCalls res) ?rs]" by (metis tick_simps)+
    then show ?thesis
      using err by (intro conjI exI [of _ ?rs]) (simp_all add: batch_results_defs)
  next
    case None
    have "\<exists>rs reason. length rs = length (mrCalls res) \<and> (\<forall>r \<in> set rs. trIsError r) \<and>
        handle_batch en l res s = fail_batch en res rs reason (tick s)"
    proof -
      consider "mrStop res = StopMaxTokens" | "mrStop res = StopUnknown"
        | "mrStop res \<noteq> StopMaxTokens" "mrStop res \<noteq> StopUnknown" by blast
      then show ?thesis
      proof cases
        case 1
        then show ?thesis
          using None err
          by (intro exI [of _ "truncated_call_results (mrCalls res) (cfgMaxTokens (lConfig l))"] exI [of _ "''length''"])
            (simp add: handle_batch_def ctx_pair truncated_call_results_def)
      next
        case 2
        then show ?thesis
          using None err
          by (intro exI [of _ "unknown_stop_call_results (mrCalls res)"] exI [of _ "''error''"])
            (simp add: handle_batch_def ctx_pair unknown_stop_call_results_def)
      next
        case 3
        then show ?thesis
          using None err assms(2)
          by (intro exI [of _ "early_stop_call_results (mrCalls res) (mrStop res)"] exI [of _ "''error''"])
            (simp add: handle_batch_def ctx_pair early_stop_call_results_def)
      qed
    qed
    then obtain rs reason where "length rs = length (mrCalls res)" "\<forall>r \<in> set rs. trIsError r"
      "s' = emit_step_finish en False res reason True (record_tool_results en (mrCalls res) rs (tick s))"
      using assms(3) by (auto simp: fail_batch_def)
    then show ?thesis
      using rec [of rs "tick s"] by (intro conjI exI [of _ rs]) (simp_all add: emit_step_finish_def)
  qed
qed


lemma drop_for_overflow_settled:
  assumes "settled {} v" "v = [] \<or> \<not> is_summary (hd v)" "2 \<le> length (group_rounds v)"
  shows "\<exists>k. 0 < k \<and> k < length v \<and> drop_for_overflow v = Some (drop k v) \<and> settled {} (drop k v)"
proof -
  obtain r0 r1 rs where g: "group_rounds v = r0 # r1 # rs"
    using assms(3) by (metis Suc_1 Suc_le_length_iff numeral_2_eq_2)
  with assms(2) have "v \<noteq> []" "\<not> is_summary (hd v)" by auto
  with g have d: "drop_oldest_round v = (ensure_pairing (drop (rEnd r0) v), True)"
    "drop_for_overflow v = Some (ensure_pairing (drop (rEnd r0) v))"
    by (simp_all add: drop_oldest_round_def drop_for_overflow_def drop_oldest_round_preserving_summary_def)
  from drop_oldest_settled [OF assms(1) d(1)] d(2) show ?thesis by auto
qed

lemma working_view_drop:
  "0 \<le> sViewDropped s \<Longrightarrow> sViewDropped s < int (length (base @ sProduced s)) \<Longrightarrow>
     working_view base s = drop (nat (sViewDropped s)) (base @ sProduced s)"
  by (simp add: working_view_def Let_def)

text \<open>A response cut off below the intended output cap is discarded, its usage still counted: the
  loop goes on with nothing produced, and because the drop is remembered, the next working view is
  the settled rest of the view after its oldest round, so the same rounds cannot overflow again.\<close>
theorem truncation_recovery:
  assumes "mrCalls res = []" "drop_empty_blocks (mContent (mrAssistant res)) \<noteq> []"
    and "mrStop res = StopMaxTokens" "is_recoverable_length (mrUsage res) (cfgMaxTokens (lConfig l))"
    and "\<not> sOverflowRecovered s" "sView s = working_view base s" "0 \<le> sViewDropped s" "sViewDropped s < int (length (base @ sProduced s))"
    and "settled {} (sView s)" "sView s = [] \<or> \<not> is_summary (hd (sView s))"
    and "2 \<le> length (group_rounds (sView s))"
  shows "\<exists>s' k. after_attempt en l res s = Continue s' \<and> sProduced s' = sProduced s \<and>
    sUsage s' = sUsage s + (case mrUsage res of None \<Rightarrow> 0 | Some u \<Rightarrow> usage_no_reasoning u) \<and>
    sOverflowRecovered s' \<and> 0 < k \<and> k < length (sView s) \<and>
    working_view base s' = drop k (sView s) \<and> settled {} (working_view base s')"
proof -
  let ?s1 = "add_usage res s"
  have s1: "sView ?s1 = sView s" "sProduced ?s1 = sProduced s" "sViewDropped ?s1 = sViewDropped s"
    "\<not> sOverflowRecovered ?s1" "sUsage ?s1 = sUsage s + (case mrUsage res of None \<Rightarrow> 0 | Some u \<Rightarrow> usage_no_reasoning u)"
    "sCache ?s1 = sCache s"
    using assms(5) by (simp_all add: add_usage_def split: option.split)
  obtain k where k: "0 < k" "k < length (sView s)" "drop_for_overflow (sView s) = Some (drop k (sView s))"
    "settled {} (drop k (sView s))" using drop_for_overflow_settled assms(9-11) by blast
  have nc: "\<not> summary_cached (sView s) ?s1"
    using assms(10) by (auto simp: summary_cached_def split: option.split)
  let ?s2 = "?s1\<lparr>sViewDropped := sViewDropped s + int k\<rparr>"
  have d: "drop_oldest_round_for_overflow ?s1 = (True, ?s2)"
    using k nc by (simp add: drop_oldest_round_for_overflow_def s1)
  let ?res = "res\<lparr>mrAssistant := (mrAssistant res)\<lparr>mContent := drop_empty_blocks (mContent (mrAssistant res))\<rparr>\<rparr>"
  let ?s' = "emit_step_finish en False ?res ''length'' True
      (emit_ignored en False (FOverflowRecovery (mrUsage res)) (?s2\<lparr>sOverflowRecovered := True\<rparr>))"
  have eq: "after_attempt en l res s = Continue ?s'"
    using assms(1-4) s1(4) d by (simp add: after_attempt_def Let_def)
  have wv: "working_view base ?s' = drop k (sView s)"
  proof -
    have v: "sView s = drop (nat (sViewDropped s)) (base @ sProduced s)"
      using assms(6) working_view_drop [OF assms(7,8)] by simp
    have f: "sProduced ?s' = sProduced s" "sViewDropped ?s' = sViewDropped s + int k"
      by (simp_all add: emit_step_finish_def s1)
    have "sViewDropped s + int k < int (length (base @ sProduced s))"
      using k(2) assms(7,8) v by (simp del: drop_append)
    then have "working_view base ?s' = drop (nat (sViewDropped s + int k)) (base @ sProduced s)"
      using working_view_drop [of ?s' base] assms(7) unfolding f by simp
    then show ?thesis
      using assms(7) unfolding v by (simp del: drop_append add: nat_add_distrib add.commute)
  qed
  have "sUsage ?s' = sUsage ?s1" "sProduced ?s' = sProduced s" by (simp_all add: emit_step_finish_def s1)
  with eq wv k s1(5) show ?thesis
    by (intro exI [of _ ?s'] exI [of _ k] conjI) (simp_all add: emit_step_finish_def)
qed


subsection \<open>A run with the built-in middleware\<close>

definition text_turn :: "provider_event list" where
  "text_turn = [EvBlockStart 0 (Some (text_block '''')), EvBlockDelta 0 ''done'' '''',
     EvMessageStop StopEndTurn (Some (Usage 5 7 0 0 0))]"

definition sample_world :: env where
  "sample_world = (sample_env (\<lambda>_. []))
     \<lparr>eStream := (\<lambda>_ rq. Inr text_turn)\<rparr>"

definition builtin_loop :: agent_loop where
  "builtin_loop = sample_loop
     \<lparr>lModelWrap := [overflow_layer 0, vision_layer ''openai'', image_layer None],
      lBefore := [memory_inject None], lAfterRun := [usage_report sample_world (\<lambda>_. None)]\<rparr>"

definition sample_question :: "message list" where
  "sample_question = [text_message RoleUser ''hi'']"

lemma builtin_loop_ok: "loop_ok builtin_loop"
proof -
  have "hook_contract (memory_inject None)" "\<And>d. hook_contract (usage_report sample_world (\<lambda>_. None) d)"
    by (rule memory.hook_contract_axioms usage_hook.hook_contract_axioms)+
  then show ?thesis
    using builtin_layers_ok by (simp add: loop_ok_def builtin_loop_def sample_loop_def)
qed

lemma sample_run:
  "loop_run sample_world builtin_loop sample_question 0 =
     (fst (loop_run sample_world builtin_loop sample_question 0), snd (loop_run sample_world builtin_loop sample_question 0))"
  by simp

definition plain_loop :: agent_loop where
  "plain_loop = \<lparr>lConfig = sample_config\<lparr>cfgMaxIterations := 1\<rparr>, lTools = new_registry,
     lBefore = [], lAfterModel = [], lAfterRun = [], lModelWrap = [], lToolWrap = [],
     lGateInteraction = None, lGateExecute = None\<rparr>"

definition text_result :: model_result where
  "text_result = \<lparr>mrAssistant = text_message RoleAssistant ''done'', mrCalls = [], mrStop = StopEndTurn,
     mrUsage = Some (Usage 5 7 0 0 0)\<rparr>"

lemma plain_attempt:
  "\<exists>c s'. attempt sample_world plain_loop s = ((text_result, None), c, s') \<and> extends progress_frame s s'"
proof -
  let ?c = "\<lparr>mcRequest = attempt_request plain_loop s, mcView = sView s\<rparr>"
  have st: "eStream sample_world n rq = Inr text_turn" for n rq by (simp add: sample_world_def)
  have q: "quiet sample_world" by (simp add: quiet_def sample_world_def sample_env_def)
  have p: "attempt sample_world plain_loop s = real_attempt sample_world ?c s"
    by (simp add: attempt_def chain_model_def plain_loop_def)
  have ok: "loop_ok plain_loop" by (simp add: loop_ok_def plain_loop_def)
  let ?t = "\<lparr>tuContent = [], tuCalls = [], tuStop = StopUnknown, tuUsage = None,
      tuOpen = [(0, \<lparr>acBlock = text_block '''', acText = ''done'', acJson = '''', acSignature = ''''\<rparr>)],
      tuEmitted = True\<rparr>"
  have "\<exists>s'. consume sample_world text_turn turn_start (tick s) =
      (None, \<lparr>tuContent = [set_text ''done'' (text_block '''')], tuCalls = [], tuStop = StopEndTurn,
        tuUsage = Some (Usage 5 7 0 0 0), tuOpen = [], tuEmitted = True\<rparr>, s')"
    using q
    by (simp add: text_turn_def quiet_def ctx_pair turn_start_def mget_def mput_def mkeys_def mdel_def
        acc_append_def acc_append_signature_def delta_frame_def emit_tracked_def emit_def Let_def
        append_finalized_def acc_finalize_def merge_usage_def)
  then obtain s' where "attempt sample_world plain_loop s = ((text_result, None), ?c, s')"
    unfolding p real_attempt_def st by (auto simp: turn_result_def text_result_def text_message_def text_block_def)
  with attempt_keeps [OF ok this] show ?thesis by blast
qed

lemma plain_run:
  "\<exists>s. loop_run sample_world plain_loop sample_question 0 = (None, s) \<and>
     sProduced s = [text_message RoleAssistant ''done''] \<and> sPending s = []"
proof -
  let ?s = "(tick ((init_lstate 0)\<lparr>sIteration := 0\<rparr>))"
  let ?s3 = "?s\<lparr>sView := working_view (ensure_pairing sample_question) ?s\<rparr>"
  obtain c s5 where a: "attempt sample_world plain_loop ?s3 = ((text_result, None), c, s5)"
    "extends progress_frame ?s3 s5" using plain_attempt by blast
  have f: "sProduced s5 = []" "sPending s5 = []"
    using extends_fields(1,4) [OF a(2)] by (simp_all add: init_lstate_def)
  have n: "eCtxErr sample_world n = None" for n by (simp add: sample_world_def sample_env_def)
  have l: "lBefore plain_loop = []" "lAfterModel plain_loop = []" "lAfterRun plain_loop = []"
    "nat (cfgMaxIterations (lConfig plain_loop)) = Suc 0"
    by (simp_all add: plain_loop_def)
  have d: "drop_empty_blocks (mContent (mrAssistant text_result)) = [text_block ''done'']"
    "mrCalls text_result = []" "mrStop text_result = StopEndTurn"
    by (simp_all add: text_result_def text_message_def drop_empty_blocks_def empty_block_def)
  have "loop_run sample_world plain_loop sample_question 0 =
      (case after_attempt sample_world plain_loop text_result s5 of
         Return err s' \<Rightarrow> (err, s') | Continue s' \<Rightarrow> run_loop sample_world plain_loop (ensure_pairing sample_question) 0 (Suc 0) s')"
    using a(1) by (simp add: loop_run_def l iteration_def ctx_pair n)
  also have "after_attempt sample_world plain_loop text_result s5 =
      returning (finish_text sample_world plain_loop text_result
        (emit_ignored sample_world True (FAssistant (text_message RoleAssistant ''done'') (mrUsage text_result))
          ((add_usage text_result s5)\<lparr>sProduced := [text_message RoleAssistant ''done'']\<rparr>)))"
    by (simp add: after_attempt_def d l Let_def add_usage_def f text_result_def text_message_def
        drop_empty_blocks_def empty_block_def)
  finally show ?thesis
    using f by (simp add: returning_def finish_text_def d ctx_pair n succeed_run_def run_after_run_def l
        emit_step_finish_def Let_def add_usage_def text_result_def)
qed

lemma run_one_end_frame_witness:
  "\<exists>fs f. frames (snd (loop_run sample_world builtin_loop sample_question 0)) = fs @ [f] \<and> ends_run f"
  using run_one_end_frame [OF builtin_loop_ok sample_run] by blast

lemma run_tail_paired_witness:
  "\<exists>pre tail. sProduced (snd (loop_run sample_world builtin_loop sample_question 0)) = pre @ tail \<and> paired_tail pre"
  using run_tail_paired [OF builtin_loop_ok sample_run] by blast

lemma run_bounds_witness:
  "length (filter is_assistant (sProduced (snd (loop_run sample_world builtin_loop sample_question 0)))) \<le> 3"
  using run_bounds [OF builtin_loop_ok sample_run]
  by (simp add: builtin_loop_def sample_loop_def sample_config_def)

lemma repair_once_is_enough_witness:
  "ensure_pairing (sample_question @ [text_message RoleAssistant ''done'']) =
     sample_question @ [text_message RoleAssistant ''done'']"
proof -
  obtain s where s: "loop_run sample_world plain_loop sample_question 0 = (None, s)"
    "sProduced s = [text_message RoleAssistant ''done'']" "sPending s = []" using plain_run by blast
  have "loop_ok plain_loop" by (simp add: loop_ok_def plain_loop_def)
  moreover have "settled {} sample_question"
    by (simp add: sample_question_def text_message_def settled_plain is_assistant_def)
  moreover have "all_uses sample_question = []" "all_uses (sProduced s) = []"
    "all_uses (sample_question @ sProduced s) = []"
    by (simp_all add: s(2) sample_question_def all_uses_def text_message_def is_assistant_def)
  ultimately show ?thesis
    using repair_once_is_enough [OF _ s(1)] s(2,3) by simp
qed

definition truncated_result :: model_result where
  "truncated_result = \<lparr>mrAssistant = \<lparr>mRole = RoleAssistant, mContent = [tool_use_block ''1'' ''a'' None '''']\<rparr>,
     mrCalls = [\<lparr>cID = ''1'', cName = ''a'', cArgs = None, cArgsError = ''''\<rparr>],
     mrStop = StopMaxTokens, mrUsage = None\<rparr>"

lemma untrusted_batch_not_executed_witness:
  "\<exists>s'. handle_batch sample_world plain_loop truncated_result (init_lstate 0) = Continue s' \<and>
     sLive s' = [] \<and> length (sProduced s') = 1"
proof -
  have "eCtxErr sample_world n = None" for n by (simp add: sample_world_def sample_env_def)
  then obtain s' where h: "handle_batch sample_world plain_loop truncated_result (init_lstate 0) = Continue s'"
    by (simp add: handle_batch_def ctx_pair truncated_result_def fail_batch_def)
  have "loop_ok plain_loop" by (simp add: loop_ok_def plain_loop_def)
  from untrusted_batch_not_executed [OF this, of sample_world "init_lstate 0" truncated_result s' None] h
  show ?thesis by (auto simp: truncated_result_def init_lstate_def)
qed

lemma truncation_recovery_witness:
  fixes s res
  defines "s \<equiv> (init_lstate 0)\<lparr>sView := sample_question @ sample_question\<rparr>"
    and "res \<equiv> text_result\<lparr>mrStop := StopMaxTokens\<rparr>"
  shows "\<exists>s'. after_attempt sample_world plain_loop res s = Continue s' \<and>
    working_view (sample_question @ sample_question) s' = sample_question"
proof -
  let ?v = "sample_question @ sample_question"
  have g: "2 \<le> length (group_rounds ?v)" "\<not> is_summary (hd ?v)"
    "is_recoverable_length (mrUsage text_result) 100" by code_simp+
  have se: "settled {} ?v"
    by (simp add: sample_question_def text_message_def settled_plain is_assistant_def)
  have d: "drop_empty_blocks (mContent (mrAssistant text_result)) \<noteq> []"
    by (simp add: text_result_def text_message_def drop_empty_blocks_def empty_block_def)
  have f: "mrCalls res = []" "mrStop res = StopMaxTokens" "mrUsage res = mrUsage text_result"
    "mrAssistant res = mrAssistant text_result" "sView s = ?v" "sProduced s = []" "sViewDropped s = 0"
    "\<not> sOverflowRecovered s" "cfgMaxTokens (lConfig plain_loop) = 100"
    by (simp_all add: s_def res_def init_lstate_def text_result_def plain_loop_def sample_config_def)
  have wv: "sView s = working_view ?v s" by (simp add: working_view_def f)
  have "\<exists>s' k. after_attempt sample_world plain_loop res s = Continue s' \<and> 0 < k \<and> k < length ?v \<and>
      working_view ?v s' = drop k ?v"
    using truncation_recovery [of res plain_loop s ?v sample_world] f g se d wv by (auto simp: sample_question_def)
  then obtain s' k where "after_attempt sample_world plain_loop res s = Continue s'"
    "0 < k" "k < length ?v" "working_view ?v s' = drop k ?v" by blast
  moreover from this(2,3) have "k = 1" by (simp add: sample_question_def)
  ultimately show ?thesis by (intro exI [of _ s']) (simp add: sample_question_def)
qed

end
