(* ===== verification/Emitter.thy ===== *)
theory Emitter
  imports Runtime Messages Middleware
begin

section \<open>Recording a run: the emitter and the step intents\<close>

text \<open>
  \<open>internal/session/emitter.go\<close> and \<open>accounting_mw.go\<close>: what becomes durable of the frames a
  loop emits, and the step intents written before each model request and each tool call. The
  state \<open>recorder\<close> is the registry's runtime and message store with the emitter's and the
  middleware's fields of one run. A run is recorded as a sequence of \<open>run_op\<close>s: the intents and
  frames in the order in which the loop's goroutine performs them. \<open>recorder_env\<close> holds the
  session and run of the emitter, the clock, fresh ids, the payload encoding (\<open>encoding/json\<close>)
  and the usage scope the context carries. The in-memory stores do not fail.
\<close>

subsection \<open>State\<close>

record step_intent =
  siKind :: step_kind
  siMessageID :: "int option"
  siAttempt :: int

record recorder =
  rcRt :: runtime
  rcMsgs :: "message_store option"
  rcQueue :: "step_intent list"
  rcBatchID :: "int option"
  rcCancelled :: bool
  rcError :: string

record recorder_env =
  reSess :: id
  reRun :: id
  reNow :: time
  reFresh :: id
  rePayload :: "frame \<Rightarrow> string"
  reScope :: "usage_scope option"

definition upd_store :: "(mem_store \<Rightarrow> mem_store) \<Rightarrow> recorder \<Rightarrow> recorder" where
  "upd_store f st = st\<lparr>rcRt := (rcRt st)\<lparr>rtStore := f (rtStore (rcRt st))\<rparr>\<rparr>"

subsection \<open>The queue of provisioned ids\<close>

definition queue_push :: "step_intent \<Rightarrow> recorder \<Rightarrow> recorder" where
  "queue_push i st = st\<lparr>rcQueue := rcQueue st @ [i]\<rparr>"

definition no_intent :: step_intent where
  "no_intent = \<lparr>siKind = StepAssistant, siMessageID = None, siAttempt = 0\<rparr>"

text \<open>\<open>popAssistant\<close> scans from the newest.\<close>

fun pop_newest :: "step_intent list \<Rightarrow> step_intent \<times> step_intent list" where
  "pop_newest [] = (no_intent, [])"
| "pop_newest (i # is) =
     (if siKind i = StepAssistant then (i, is)
      else (let (x, rest) = pop_newest is in (x, i # rest)))"

definition pop_assistant :: "step_intent list \<Rightarrow> step_intent \<times> step_intent list" where
  "pop_assistant q = (let (x, rest) = pop_newest (rev q) in (x, rev rest))"

text \<open>\<open>popTools\<close>: the first non-nil id of the tool intents; all of them are drained.\<close>

definition pop_tools :: "step_intent list \<Rightarrow> int option \<times> step_intent list" where
  "pop_tools q =
     (fold (\<lambda>i shared. if siKind i = StepTool \<and> shared = None then siMessageID i else shared) q None,
      filter (\<lambda>i. siKind i \<noteq> StepTool) q)"

subsection \<open>The step intents\<close>

definition append_step :: "recorder_env \<Rightarrow> step_kind \<Rightarrow> id \<Rightarrow> int option \<Rightarrow> recorder \<Rightarrow> run_step \<times> recorder" where
  "append_step re kind callID shared st =
     (let (r, m) = append_run_step (reNow re) (reRun re) kind callID shared (rtStore (rcRt st))
      in (r, upd_store (\<lambda>_. m) st))"

definition intent_of :: "run_step \<Rightarrow> step_intent" where
  "intent_of r = \<lparr>siKind = rsKind r, siMessageID = rsResultMessageID r, siAttempt = int (rsAttempt r)\<rparr>"

definition before_model_intent :: "recorder_env \<Rightarrow> recorder \<Rightarrow> recorder" where
  "before_model_intent re st =
     (let (r, st1) = append_step re StepAssistant '''' None st in queue_push (intent_of r) st1)"

definition tool_intent :: "recorder_env \<Rightarrow> id \<Rightarrow> recorder \<Rightarrow> recorder" where
  "tool_intent re callID st =
     (case rcBatchID st of
        None \<Rightarrow>
          (let (r, st1) = append_step re StepTool callID None st
           in queue_push (intent_of r) (st1\<lparr>rcBatchID := rsResultMessageID r\<rparr>))
      | Some shared \<Rightarrow>
          (let (r, st1) = append_step re StepTool callID (Some shared) st in queue_push (intent_of r) st1))"

definition reset_batch :: "recorder \<Rightarrow> recorder" where
  "reset_batch st = st\<lparr>rcBatchID := None\<rparr>"

subsection \<open>The emitter\<close>

definition rg_append :: "recorder_env \<Rightarrow> frame \<Rightarrow> recorder \<Rightarrow> recorder" where
  "rg_append re f st = st\<lparr>rcRt := rt_append_event (reNow re)
     \<lparr>evRunID = reRun re, evSessionID = reSess re, evOffset = 0, evKind = frame_kind f,
      evPayload = rePayload re f, evCreatedAt = 0\<rparr> (rcRt st)\<rparr>"

definition stored_form :: "recorder_env \<Rightarrow> message \<Rightarrow> usage option \<Rightarrow> int option \<Rightarrow> stored_message" where
  "stored_form re m u mid = \<lparr>smID = (case mid of None \<Rightarrow> 0 | Some i \<Rightarrow> i), smSessionID = reSess re, smRunID = reRun re,
     smSeq = 0, smRole = mRole m, smContent = truncate_blocks_for_persistence (mContent m), smCreatedAt = 0,
     smUsage = u, smMetadata = ''''\<rparr>"

definition store_message :: "recorder_env \<Rightarrow> stored_message \<Rightarrow> recorder \<Rightarrow> recorder" where
  "store_message re m st =
     (case rcMsgs st of None \<Rightarrow> st | Some ms \<Rightarrow> st\<lparr>rcMsgs := Some (snd (append_message (reNow re) m ms))\<rparr>)"

definition persist_message :: "recorder_env \<Rightarrow> message \<Rightarrow> usage option \<Rightarrow> recorder \<Rightarrow> recorder" where
  "persist_message re m u st =
     (case rcMsgs st of
        None \<Rightarrow> st
      | Some _ \<Rightarrow>
          if mRole m = RoleAssistant then
            (let (ia, q) = pop_assistant (rcQueue st); st1 = st\<lparr>rcQueue := q\<rparr>;
                 st2 = (case u of None \<Rightarrow> st1
                        | Some x \<Rightarrow> upd_store (append_usage_record (reNow re)
                            \<lparr>urID = 0, urRunID = reRun re, urCause = UsageAssistant, urResultMessageID = siMessageID ia,
                             urAttempt = siAttempt ia, urUsage = x, urCreatedAt = 0\<rparr>) st1)
             in store_message re (stored_form re m u (siMessageID ia)) st2)
          else
            (let (shared, q) = pop_tools (rcQueue st)
             in store_message re (stored_form re m None shared) (reset_batch (st\<lparr>rcQueue := q\<rparr>))))"

definition record_overflow :: "recorder_env \<Rightarrow> usage option \<Rightarrow> recorder \<Rightarrow> recorder" where
  "record_overflow re u st =
     (let (ia, q) = pop_assistant (rcQueue st); st1 = st\<lparr>rcQueue := q\<rparr>;
          st2 = (case u of None \<Rightarrow> st1
                 | Some x \<Rightarrow> upd_store (append_usage_record (reNow re)
                     \<lparr>urID = 0, urRunID = reRun re, urCause = UsageOverflow, urResultMessageID = None,
                      urAttempt = siAttempt ia, urUsage = x, urCreatedAt = 0\<rparr>) st1)
      in snd (append_step re StepOverflowCompact '''' None st2))"

definition batch_ids :: "loop_interaction \<Rightarrow> string list" where
  "batch_ids ia =
     (let ids = filter (\<lambda>x. x \<noteq> '''') (map cID (iBatch ia))
      in if ids = [] \<and> iToolCallID ia \<noteq> '''' then [iToolCallID ia] else ids)"

definition persist_interaction :: "recorder_env \<Rightarrow> loop_interaction \<Rightarrow> recorder \<Rightarrow> recorder" where
  "persist_interaction re ia st = upd_store (\<lambda>m. snd (create_interaction_batch (reFresh re) (reNow re)
     \<lparr>sbRunID = reRun re, sbSessionID = reSess re, sbMessageSeq = None, sbToolCallIDs = batch_ids ia,
      sbFoldedSeq = None, sbCreatedAt = 0\<rparr>
     \<lparr>inID = iID ia, inRunID = reRun re, inSessionID = reSess re, inToolCallID = iToolCallID ia,
      inToolName = iToolName ia, inPayload = marshal_args (iInput ia),
      inKind = (if iKind ia = '''' then ''approval'' else iKind ia), inStatus = InteractionPending,
      inResult = '''', inCreatedAt = 0, inDecidedAt = None, inSeq = 0\<rparr> m)) st"

definition persist_run_usage :: "recorder_env \<Rightarrow> recorder \<Rightarrow> recorder" where
  "persist_run_usage re st =
     upd_store (\<lambda>m. set_run_usage (reRun re) (Some (sum_usage (reRun re) m)) m) st"

definition record_usage :: "recorder_env \<Rightarrow> recorder \<Rightarrow> recorder" where
  "record_usage re st =
     (let st1 = (case reScope re of
            None \<Rightarrow> st
          | Some sc \<Rightarrow>
              if usRoot sc \<and> scope_total sc \<noteq> 0
              then upd_store (append_usage_record (reNow re)
                     \<lparr>urID = 0, urRunID = reRun re, urCause = UsageRun, urResultMessageID = None, urAttempt = 0,
                      urUsage = scope_total sc, urCreatedAt = 0\<rparr>) st
              else st)
      in persist_run_usage re st1)"

text \<open>
  \<open>Emit\<close>: the context's error refuses the frame; message and overflow frames are not events of
  the log; an interaction is durable before its frame is published.
\<close>

definition emitter_emit :: "recorder_env \<Rightarrow> lerr option \<Rightarrow> frame \<Rightarrow> recorder \<Rightarrow> lerr option \<times> recorder" where
  "emitter_emit re ctx f st =
     (case ctx of
        Some e \<Rightarrow> (Some e, st)
      | None \<Rightarrow>
          (None,
           case f of
             FAssistant m u \<Rightarrow> persist_message re m u st
           | FMessage m \<Rightarrow> persist_message re m None st
           | FOverflowRecovery u \<Rightarrow> record_overflow re u st
           | FInterrupt ia \<Rightarrow> rg_append re f (persist_interaction re ia st)
           | FUsage u \<Rightarrow> rg_append re f (record_usage re st)
           | FCancelled \<Rightarrow> (rg_append re f st)\<lparr>rcCancelled := True\<rparr>
           | FError t \<Rightarrow> rg_append re f (if t \<noteq> '''' then st\<lparr>rcError := t\<rparr> else st)
           | _ \<Rightarrow> rg_append re f st))"

subsection \<open>A run as its emitter sees it\<close>

datatype run_op =
    BeforeModel
  | BeforeTool id
  | Emitted "lerr option" frame \<comment> \<open>with the error of the context it was emitted on\<close>

definition do_op :: "recorder_env \<Rightarrow> run_op \<Rightarrow> recorder \<Rightarrow> recorder" where
  "do_op re x st =
     (case x of
        BeforeModel \<Rightarrow> before_model_intent re st
      | BeforeTool callID \<Rightarrow> tool_intent re callID st
      | Emitted ctx f \<Rightarrow> snd (emitter_emit re ctx f st))"

definition do_ops :: "recorder_env \<Rightarrow> run_op list \<Rightarrow> recorder \<Rightarrow> recorder" where
  "do_ops re xs st = fold (do_op re) xs st"

subsection \<open>What the log does not touch\<close>

lemma rt_append_event_store [simp]:
  "msSteps (rtStore (rt_append_event now e rt)) = msSteps (rtStore rt)"
  "msUsageRecords (rtStore (rt_append_event now e rt)) = msUsageRecords (rtStore rt)"
  "msApprovals (rtStore (rt_append_event now e rt)) = msApprovals (rtStore rt)"
  "msBatches (rtStore (rt_append_event now e rt)) = msBatches (rtStore rt)"
  "msRuns (rtStore (rt_append_event now e rt)) = msRuns (rtStore rt)"
  by (simp_all add: rt_append_event_def append_event_def Let_def split: option.split)

lemma upd_store_simps [simp]:
  "rcMsgs (upd_store f st) = rcMsgs st" "rcQueue (upd_store f st) = rcQueue st"
  "rcBatchID (upd_store f st) = rcBatchID st" "rtStore (rcRt (upd_store f st)) = f (rtStore (rcRt st))"
  by (simp_all add: upd_store_def)

lemma rg_append_simps [simp]:
  "rcMsgs (rg_append re f st) = rcMsgs st" "rcQueue (rg_append re f st) = rcQueue st"
  "rcBatchID (rg_append re f st) = rcBatchID st"
  "msSteps (rtStore (rcRt (rg_append re f st))) = msSteps (rtStore (rcRt st))"
  "msUsageRecords (rtStore (rcRt (rg_append re f st))) = msUsageRecords (rtStore (rcRt st))"
  "msApprovals (rtStore (rcRt (rg_append re f st))) = msApprovals (rtStore (rcRt st))"
  "msBatches (rtStore (rcRt (rg_append re f st))) = msBatches (rtStore (rcRt st))"
  by (simp_all add: rg_append_def)

lemma queue_push_simps [simp]:
  "rcMsgs (queue_push i st) = rcMsgs st" "rcQueue (queue_push i st) = rcQueue st @ [i]"
  "rcBatchID (queue_push i st) = rcBatchID st" "rcRt (queue_push i st) = rcRt st"
  by (simp_all add: queue_push_def)

lemma append_step_simps [simp]:
  "rcMsgs (snd (append_step re k c sh st)) = rcMsgs st" "rcQueue (snd (append_step re k c sh st)) = rcQueue st"
  "rcBatchID (snd (append_step re k c sh st)) = rcBatchID st"
  by (simp_all add: append_step_def split_beta)

lemma store_message_simps [simp]:
  "rcRt (store_message re m st) = rcRt st" "rcQueue (store_message re m st) = rcQueue st"
  "rcBatchID (store_message re m st) = rcBatchID st"
  by (simp_all add: store_message_def split: option.split)

subsection \<open>The durable conversation\<close>

text \<open>
  The abstract record of a run is the list of its messages; \<open>conversation\<close> reads it off the
  store, and each operation of the recorder appends to it what \<open>op_messages\<close> says.
\<close>

definition conversation :: "id \<Rightarrow> recorder \<Rightarrow> message list" where
  "conversation sess st = (case rcMsgs st of None \<Rightarrow> [] | Some ms \<Rightarrow> stored_messages_to_provider (messages_for sess ms))"

definition durable_form :: "message \<Rightarrow> message" where
  "durable_form m = m\<lparr>mContent := truncate_blocks_for_persistence (mContent m)\<rparr>"

fun frame_message :: "frame \<Rightarrow> message list" where
  "frame_message (FAssistant m u) = [m]"
| "frame_message (FMessage m) = [m]"
| "frame_message f = []"

fun op_messages :: "run_op \<Rightarrow> message list" where
  "op_messages (Emitted None f) = frame_message f"
| "op_messages x = []"

lemma conversation_store:
  assumes "rcMsgs st \<noteq> None" "smSessionID m = sess"
  shows "conversation sess (store_message re m st) = conversation sess st @ [\<lparr>mRole = smRole m, mContent = smContent m\<rparr>]"
  using assms by (auto simp: conversation_def store_message_def mm.log_append mm.append_content stored_messages_to_provider_def)

lemma conversation_cong: "rcMsgs st = rcMsgs st' \<Longrightarrow> conversation sess st = conversation sess st'"
  by (simp add: conversation_def)

lemma conversation_persist:
  assumes "rcMsgs st \<noteq> None"
  shows "conversation (reSess re) (persist_message re m u st) = conversation (reSess re) st @ [durable_form m] \<and>
    rcMsgs (persist_message re m u st) \<noteq> None"
proof -
  obtain ms where ms: "rcMsgs st = Some ms" using assms by auto
  have d: "\<lparr>mRole = smRole (stored_form re m v i), mContent = smContent (stored_form re m v i)\<rparr> = durable_form m" for v i
    by (simp add: stored_form_def durable_form_def)
  have s1: "conversation (reSess re) (store_message re (stored_form re m v i) t) = conversation (reSess re) st @ [durable_form m]"
    if "rcMsgs t = Some ms" for t v i
    using that conversation_store [of t "stored_form re m v i" "reSess re" re] conversation_cong [of t st "reSess re"]
    by (simp add: ms d) (simp add: stored_form_def)
  have s2: "\<exists>y. rcMsgs (store_message re n t) = Some y" if "rcMsgs t = Some ms" for t n
    using that by (simp add: store_message_def)
  show ?thesis
    by (cases u) (simp_all add: persist_message_def ms Let_def split_beta reset_batch_def s1 s2)
qed

lemma record_msgs [simp]:
  "rcMsgs (record_overflow re u st) = rcMsgs st" "rcMsgs (persist_interaction re ia st) = rcMsgs st"
  "rcMsgs (record_usage re st) = rcMsgs st" "rcMsgs (before_model_intent re st) = rcMsgs st"
  "rcMsgs (tool_intent re c st) = rcMsgs st"
  by (simp_all add: record_overflow_def persist_interaction_def record_usage_def persist_run_usage_def
      before_model_intent_def tool_intent_def split_beta Let_def split: option.split)

lemma emit_other_msgs: "frame_message f = [] \<Longrightarrow> rcMsgs (snd (emitter_emit re ctx f st)) = rcMsgs st"
  by (cases ctx; cases f) (simp_all add: emitter_emit_def)

lemma frame_message_cases:
  "frame_message f \<noteq> [] \<Longrightarrow> \<exists>m. frame_message f = [m] \<and> (f = FMessage m \<or> (\<exists>u. f = FAssistant m u))"
  by (cases f) simp_all

lemma do_op_conversation:
  assumes "rcMsgs st \<noteq> None"
  shows "conversation (reSess re) (do_op re x st) = conversation (reSess re) st @ map durable_form (op_messages x) \<and>
    rcMsgs (do_op re x st) \<noteq> None"
proof (cases "op_messages x = []")
  case True
  then have "rcMsgs (do_op re x st) = rcMsgs st"
  proof (cases x)
    case (Emitted ctx f)
    with True show ?thesis by (cases ctx) (simp_all add: do_op_def emitter_emit_def [of re "Some _"] emit_other_msgs)
  qed (simp_all add: do_op_def)
  with True assms show ?thesis using conversation_cong by fastforce
next
  case False
  then obtain f where x: "x = Emitted None f" "frame_message f \<noteq> []"
    by (cases x rule: op_messages.cases) simp_all
  from frame_message_cases [OF x(2)] obtain m where
    f: "frame_message f = [m]" "f = FMessage m \<or> (\<exists>u. f = FAssistant m u)" by blast
  then obtain u where "do_op re x st = persist_message re m u st"
    by (auto simp: x do_op_def emitter_emit_def)
  moreover have "op_messages x = [m]" by (simp add: x f)
  ultimately show ?thesis using conversation_persist [OF assms] by simp
qed

end
