(* ===== verification/Fold.thy ===== *)
theory Fold
  imports LoopTools Messages SessionStore
begin

section \<open>Resuming a suspended batch\<close>

text \<open>
  \<open>internal/session/fold.go\<close> and \<open>interaction.go\<close>: the verdict of a client on one
  interaction, and the fold of a decided batch into one message of tool results. The stores
  are \<open>fold_stores\<close>; \<open>fold_env\<close> holds what the caller passes (the tools, the gate, the executor)
  and what is not code of the repository (the regular-expression engine, three uses of
  \<open>encoding/json\<close>, the transaction of a store that is a \<open>FoldCommitter\<close>). Calls handed to an
  executor are logged in \<open>fold_state\<close>, whose clock is the moment an executor or gate is asked.
\<close>

subsection \<open>State, surroundings, outcomes\<close>

type_synonym executor = "nat \<Rightarrow> call list \<Rightarrow> tool_result list"

datatype fold_error =
    FoldText string
  | FoldStore store_error
  | FoldMismatch "string list" "string list" id
  | FoldNoBatchMessage id

datatype 'a fold_out = FoldOk 'a | FoldFails fold_error | FoldPanics

record fold_state =
  fClock :: nat
  fHanded :: "call list"

record fold_stores =
  fsStore :: mem_store
  fsMsgs :: "message_store option"

datatype commit_out = Committed | AlreadyFolded | CommitFails string

type_synonym handler =
  "SessionStore.interaction \<Rightarrow> bool \<Rightarrow> registry option \<Rightarrow> executor option \<Rightarrow> fold_state \<Rightarrow>
     tool_result fold_out \<times> fold_state"

record fold_env =
  feTools :: "registry option"
  feGate :: "gate_func option"
  feExec :: "executor option"
  feRegex :: regex_engine
  feHandlers :: "(string, handler) gomap"
  feCommitter :: "(time \<Rightarrow> id \<Rightarrow> stored_message \<Rightarrow> fold_stores \<Rightarrow> commit_out \<times> fold_stores) option"

subsection \<open>Executing a call at fold time\<close>

definition execute_fold_calls ::
  "executor option \<Rightarrow> registry \<Rightarrow> call list \<Rightarrow> fold_state \<Rightarrow> tool_result list \<times> fold_state" where
  "execute_fold_calls exec tools calls s =
     ((case exec of Some f \<Rightarrow> f (fClock s) calls | None \<Rightarrow> call_all tools calls),
      s\<lparr>fClock := Suc (fClock s), fHanded := fHanded s @ calls\<rparr>)"

subsection \<open>The handlers of the three kinds of interaction\<close>

definition plain_result :: "string \<Rightarrow> tool_result" where
  "plain_result c = \<lparr>trContent = c, trIsError = False, trNested = [], trGenerativeUI = None\<rparr>"

text \<open>\<open>parse\<close> is \<open>json.Unmarshal\<close> into a map whose error is ignored (the map then stays nil).\<close>

definition tool_approval_handler :: "(string \<Rightarrow> jargs) \<Rightarrow> handler" where
  "tool_approval_handler parse ia approve tools exec s =
     (if \<not> approve
      then (FoldOk (error_result (''the user denied permission to run '' @ inToolName ia)), s)
      else (case tools of
              None \<Rightarrow> (FoldFails (FoldText ''approved call needs a tool registry to execute''), s)
            | Some reg \<Rightarrow>
                let (rs, s1) = execute_fold_calls exec reg
                      [\<lparr>cID = inToolCallID ia, cName = inToolName ia, cArgs = parse (inPayload ia), cArgsError = ''''\<rparr>] s
                in case rs of [] \<Rightarrow> (FoldPanics, s1) | r # _ \<Rightarrow> (FoldOk r, s1)))"

text \<open>\<open>compact\<close> is \<open>json.Marshal\<close> of a raw value (\<open>None\<close>: it is not valid JSON).\<close>

definition ask_user_handler :: "(string \<Rightarrow> string option) \<Rightarrow> handler" where
  "ask_user_handler compact ia approve tools exec s =
     (if \<not> approve then (FoldOk (plain_result ''the user skipped these questions (no answer given)''), s)
      else case (if inResult ia \<noteq> '''' then compact (inResult ia) else None) of
             Some d \<Rightarrow> (FoldOk (plain_result d), s)
           | None \<Rightarrow> (FoldOk (error_result ''the user answered (unparseable response)''), s))"

definition output_violation :: "regex_engine \<Rightarrow> registry option \<Rightarrow> string \<Rightarrow> json \<Rightarrow> string option" where
  "output_violation re tools name output =
     (case tools of None \<Rightarrow> None
      | Some reg \<Rightarrow>
          (case reg_get reg name of None \<Rightarrow> None
           | Some t \<Rightarrow>
               (case tOutputSchema t of None \<Rightarrow> None
                | Some sch \<Rightarrow> validate_output re (Some sch) output)))"

text \<open>\<open>decode\<close> reads the fields \<open>output\<close> and \<open>error\<close> (\<open>None\<close>: the bytes do not decode).\<close>

definition client_tool_handler :: "regex_engine \<Rightarrow> (string \<Rightarrow> (json \<times> string) option) \<Rightarrow> handler" where
  "client_tool_handler re decode ia approve tools exec s =
     ((case decode (inResult ia) of
         None \<Rightarrow> FoldOk (error_result (''client returned an unparseable result for '' @ inToolName ia))
       | Some (output, err) \<Rightarrow>
           if err \<noteq> ''''
           then FoldOk (error_result (''client-side tool '' @ inToolName ia @ '' failed: '' @ err))
           else case output_violation re tools (inToolName ia) output of
                  Some v \<Rightarrow> FoldOk (error_result (''client output for '' @ inToolName ia @
                    '' does not match its declared output schema: '' @ v))
                | None \<Rightarrow>
                    if marshal output = ''null'' then FoldOk (plain_result ''(no output)'')
                    else FoldOk (plain_result (marshal output))), s)"

definition default_interaction_handlers ::
  "regex_engine \<Rightarrow> (string \<Rightarrow> jargs) \<Rightarrow> (string \<Rightarrow> string option) \<Rightarrow> (string \<Rightarrow> (json \<times> string) option) \<Rightarrow>
     (string, handler) gomap" where
  "default_interaction_handlers re parse compact decode =
     [(KindToolApproval, tool_approval_handler parse), (KindAskUser, ask_user_handler compact),
      (KindClientTool, client_tool_handler re decode)]"

definition register_interaction_handler ::
  "string \<Rightarrow> handler option \<Rightarrow> (string, handler) gomap \<Rightarrow> (string, handler) gomap" where
  "register_interaction_handler kind h hs =
     (case h of None \<Rightarrow> mdel kind hs | Some f \<Rightarrow> mput kind f hs)"

definition fold_interaction ::
  "fold_env \<Rightarrow> SessionStore.interaction \<Rightarrow> bool \<Rightarrow> fold_state \<Rightarrow> tool_result fold_out \<times> fold_state" where
  "fold_interaction fe ia approve s =
     (let kind = (if inKind ia = '''' then KindToolApproval else inKind ia) in
      case mget (feHandlers fe) kind of
        None \<Rightarrow> (FoldFails (FoldText (''no interaction handler registered for kind '' @ fmt_q kind)), s)
      | Some h \<Rightarrow> h ia approve (feTools fe) (feExec fe) s)"

subsection \<open>The suspended batch\<close>

definition stored_calls :: "stored_message \<Rightarrow> call list" where
  "stored_calls m =
     map (\<lambda>b. \<lparr>cID = bToolUseID b, cName = bToolName b, cArgs = bToolInput b, cArgsError = bArgsError b\<rparr>)
       (filter (\<lambda>b. bType b = BlockToolUse \<and> bToolUseID b \<noteq> '''') (smContent m))"

definition suspended_batch_calls ::
  "stored_message list \<Rightarrow> id \<Rightarrow> suspended_batch \<Rightarrow> fold_error + call list" where
  "suspended_batch_calls stored rid snap =
     (case find_last (\<lambda>m. smRole m = RoleAssistant \<and> smRunID m = rid \<and> stored_calls m \<noteq> []) stored of
        None \<Rightarrow> Inl (FoldNoBatchMessage rid)
      | Some m \<Rightarrow>
          if map cID (stored_calls m) \<noteq> sbToolCallIDs snap
          then Inl (FoldMismatch (map cID (stored_calls m)) (sbToolCallIDs snap) rid)
          else Inr (stored_calls m))"

definition foldHistoryLimit :: nat where
  "foldHistoryLimit = 2000"

definition truncated_history_marker :: message where
  "truncated_history_marker = text_message RoleUser
     (''[Earlier conversation truncated '' @ map char_of [226, 128, 148 :: nat] @
      '' the beginning of this conversation was not loaded for this run.]'')"

definition fold_history :: "id \<Rightarrow> message_store \<Rightarrow> stored_message list \<times> message list" where
  "fold_history sess ms =
     (let tail = messages_tail sess 0 (int foldHistoryLimit + 1) ms;
          truncated = (foldHistoryLimit < length tail);
          stored = (if truncated then drop (length tail - foldHistoryLimit) tail else tail);
          history = stored_messages_to_provider stored
      in (stored, if truncated then truncated_history_marker # history else history))"

subsection \<open>The fold\<close>

definition by_call :: "SessionStore.interaction list \<Rightarrow> (id, SessionStore.interaction) gomap" where
  "by_call batch = fold (\<lambda>ap m. mput (inToolCallID ap) ap m) batch []"

text \<open>
  One call of the batch: its result (\<open>Inl\<close>), or the call left for the dispatch of the siblings
  (\<open>Inr\<close>). A nil registry is dereferenced as soon as a sibling with parsed arguments is met.
\<close>

definition sibling_screen :: "fold_env \<Rightarrow> registry \<Rightarrow> nat \<Rightarrow> call \<Rightarrow> tool_result + call" where
  "sibling_screen fe reg n c =
     (let c1 = c\<lparr>cArgs := strip_description (cArgs c)\<rparr> in
      case reg_get reg (cName c) of
        None \<Rightarrow> Inr c1
      | Some t \<Rightarrow>
          (case validate_args (feRegex fe) (tSchema t) (strip_description (cArgs c)) of
             Some v \<Rightarrow> Inl (invalid_args v)
           | None \<Rightarrow>
               (case feGate fe of
                  None \<Rightarrow> Inr c1
                | Some gate \<Rightarrow>
                    let (deny, reason) = gate n t
                    in if deny then Inl (error_result (''permission denied: '' @ reason)) else Inr c1)))"

definition fold_slot ::
  "fold_env \<Rightarrow> (id, SessionStore.interaction) gomap \<Rightarrow> call \<Rightarrow> fold_state \<Rightarrow>
     (tool_result + call) fold_out \<times> fold_state" where
  "fold_slot fe m c s =
     (if cArgsError c \<noteq> '''' then (FoldOk (Inl (invalid_args (cArgsError c))), s)
      else case mget m (cID c) of
        None \<Rightarrow> (case feTools fe of None \<Rightarrow> (FoldPanics, s)
                 | Some reg \<Rightarrow> (FoldOk (sibling_screen fe reg (fClock s) c), s))
      | Some ap \<Rightarrow>
          (case fold_interaction fe ap (inStatus ap = InteractionResolved) s of
             (FoldOk r, s1) \<Rightarrow> (FoldOk (Inl r), s1)
           | (FoldFails e, s1) \<Rightarrow> (FoldFails e, s1)
           | (FoldPanics, s1) \<Rightarrow> (FoldPanics, s1)))"

fun fold_scan ::
  "fold_env \<Rightarrow> (id, SessionStore.interaction) gomap \<Rightarrow> call list \<Rightarrow> fold_state \<Rightarrow>
     (tool_result + call) list fold_out \<times> fold_state" where
  "fold_scan fe m [] s = (FoldOk [], s)"
| "fold_scan fe m (c # cs) s =
     (case fold_slot fe m c s of
        (FoldOk x, s1) \<Rightarrow>
          (case fold_scan fe m cs s1 of
             (FoldOk xs, s2) \<Rightarrow> (FoldOk (x # xs), s2)
           | (FoldFails e, s2) \<Rightarrow> (FoldFails e, s2)
           | (FoldPanics, s2) \<Rightarrow> (FoldPanics, s2))
      | (FoldFails e, s1) \<Rightarrow> (FoldFails e, s1)
      | (FoldPanics, s1) \<Rightarrow> (FoldPanics, s1))"

definition fold_dispatch ::
  "fold_env \<Rightarrow> (tool_result + call) list \<Rightarrow> fold_state \<Rightarrow> tool_result list fold_out \<times> fold_state" where
  "fold_dispatch fe slots s =
     (let calls = live_calls slots in
      if calls = [] then (FoldOk (fill slots []), s)
      else case feTools fe of
             None \<Rightarrow> (FoldFails (FoldText
               ''resuming a suspended batch needs a tool registry to dispatch the un-gated calls''), s)
           | Some reg \<Rightarrow>
               let (got, s1) = execute_fold_calls (feExec fe) reg calls s
               in if length got < length calls then (FoldPanics, s1) else (FoldOk (fill slots got), s1))"

definition fold_block :: "call \<Rightarrow> tool_result \<Rightarrow> block" where
  "fold_block c r = tool_result_block (cID c)
     (if trContent r = '''' then emptyToolResultPlaceholder else trContent r) (trIsError r) (trNested r) None"

definition fold_message :: "call list \<Rightarrow> tool_result list \<Rightarrow> message" where
  "fold_message calls results =
     \<lparr>mRole = RoleUser, mContent = map (\<lambda>(c, r). fold_block c r) (zip calls results)\<rparr>"

definition fold_record :: "id \<Rightarrow> id \<Rightarrow> message \<Rightarrow> stored_message" where
  "fold_record sess rid msg = \<lparr>smID = 0, smSessionID = sess, smRunID = rid, smSeq = 0, smRole = mRole msg,
     smContent = truncate_blocks_for_persistence (mContent msg), smCreatedAt = 0, smUsage = None, smMetadata = ''''\<rparr>"

text \<open>The sequential commit of a store that is no \<open>FoldCommitter\<close>.\<close>

definition commit_sequential ::
  "time \<Rightarrow> id \<Rightarrow> stored_message \<Rightarrow> message_store \<Rightarrow> fold_stores \<Rightarrow> fold_error option \<times> fold_stores" where
  "commit_sequential now rid m ms st =
     (let (appended, ms1) = append_message now m ms; st1 = st\<lparr>fsMsgs := Some ms1\<rparr> in
      case mark_batch_folded rid (int (smSeq appended)) (fsStore st) of
        Inl e \<Rightarrow> (Some (FoldStore e), st1)
      | Inr m1 \<Rightarrow> (None, st1\<lparr>fsStore := m1\<rparr>))"

definition fold_commit ::
  "fold_env \<Rightarrow> time \<Rightarrow> id \<Rightarrow> id \<Rightarrow> message list \<Rightarrow> message \<Rightarrow> message_store \<Rightarrow> fold_stores \<Rightarrow>
     message list fold_out \<times> fold_stores" where
  "fold_commit fe now sess rid history msg ms st =
     (case feCommitter fe of
        Some f \<Rightarrow>
          (case f now rid (fold_record sess rid msg) st of
             (Committed, st1) \<Rightarrow> (FoldOk (history @ [msg]), st1)
           | (AlreadyFolded, st1) \<Rightarrow>
               (case fsMsgs st1 of None \<Rightarrow> (FoldPanics, st1)
                | Some ms1 \<Rightarrow> (FoldOk (snd (fold_history sess ms1)), st1))
           | (CommitFails e, st1) \<Rightarrow> (FoldFails (FoldText (''commit fold: '' @ e)), st1))
      | None \<Rightarrow>
          (case commit_sequential now rid (fold_record sess rid msg) ms st of
             (None, st1) \<Rightarrow> (FoldOk (history @ [msg]), st1)
           | (Some e, st1) \<Rightarrow> (FoldFails e, st1)))"

definition fold_results ::
  "fold_env \<Rightarrow> SessionStore.interaction list \<Rightarrow> call list \<Rightarrow> fold_state \<Rightarrow> tool_result list fold_out \<times> fold_state" where
  "fold_results fe batch calls s =
     (case fold_scan fe (by_call batch) calls s of
        (FoldOk slots, s1) \<Rightarrow> fold_dispatch fe slots s1
      | (FoldFails e, s1) \<Rightarrow> (FoldFails e, s1)
      | (FoldPanics, s1) \<Rightarrow> (FoldPanics, s1))"

definition fold_batch ::
  "fold_env \<Rightarrow> time \<Rightarrow> id \<Rightarrow> id \<Rightarrow> fold_stores \<Rightarrow> fold_state \<Rightarrow>
     message list fold_out \<times> fold_stores \<times> fold_state" where
  "fold_batch fe now sess rid st s =
     (case suspended_batch_for_run rid (fsStore st) of
        Inl e \<Rightarrow> (FoldFails (FoldStore e), st, s)
      | Inr snap \<Rightarrow>
          let batch = approvals_for_run rid (fsStore st) in
          if batch = [] then (FoldFails (FoldText (''no interactions for run '' @ rid)), st, s)
          else case fsMsgs st of
            None \<Rightarrow> (FoldFails (FoldText ''fold batch: a message store is required''), st, s)
          | Some ms \<Rightarrow>
              let (stored, history) = fold_history sess ms in
              if sbFoldedSeq snap \<noteq> None then (FoldOk history, st, s)
              else case suspended_batch_calls stored rid snap of
                Inl e \<Rightarrow> (FoldFails e, st, s)
              | Inr calls \<Rightarrow>
                  (case fold_results fe batch calls s of
                     (FoldFails e, s1) \<Rightarrow> (FoldFails e, st, s1)
                   | (FoldPanics, s1) \<Rightarrow> (FoldPanics, st, s1)
                   | (FoldOk results, s1) \<Rightarrow>
                       let (out, st1) = fold_commit fe now sess rid history (fold_message calls results) ms st
                       in (out, st1, s1)))"

subsection \<open>Verdicts\<close>

definition record_decision ::
  "id \<Rightarrow> bool \<Rightarrow> string \<Rightarrow> time \<Rightarrow> mem_store \<Rightarrow> store_error + (SessionStore.interaction \<times> bool) \<times> mem_store" where
  "record_decision aid approve result now m =
     (case decide_approval aid approve result now m of
        Inl e \<Rightarrow> Inl e
      | Inr (ap, m1) \<Rightarrow> Inr ((ap, pending_approvals_for_run (inRunID ap) m1 = []), m1))"

text \<open>\<open>Decide\<close>: \<open>None\<close> stands for the nil history of a batch that still waits for verdicts.\<close>

definition decide ::
  "fold_env \<Rightarrow> id \<Rightarrow> bool \<Rightarrow> string \<Rightarrow> time \<Rightarrow> fold_stores \<Rightarrow> fold_state \<Rightarrow>
     (SessionStore.interaction \<times> message list option) fold_out \<times> fold_stores \<times> fold_state" where
  "decide fe aid approve result now st s =
     (case record_decision aid approve result now (fsStore st) of
        Inl e \<Rightarrow> (FoldFails (FoldStore e), st, s)
      | Inr ((ap, complete), m1) \<Rightarrow>
          let st1 = st\<lparr>fsStore := m1\<rparr> in
          if \<not> complete then (FoldOk (ap, None), st1, s)
          else (case fold_batch fe now (inSessionID ap) (inRunID ap) st1 s of
                  (FoldOk h, st2, s2) \<Rightarrow> (FoldOk (ap, Some h), st2, s2)
                | (FoldFails e, st2, s2) \<Rightarrow> (FoldFails e, st2, s2)
                | (FoldPanics, st2, s2) \<Rightarrow> (FoldPanics, st2, s2)))"

subsection \<open>The fold as the slots of its calls\<close>

lemma fill_length [simp]: "length (fill slots got) = length slots"
  by (induction slots got rule: fill.induct) simp_all

lemma by_call_get: "mget (by_call batch) i = find_last (\<lambda>ap. inToolCallID ap = i) batch"
  by (simp add: by_call_def index_by_get split: option.split)

lemma by_call_Some: "mget (by_call batch) i = Some ap \<Longrightarrow> ap \<in> set batch \<and> inToolCallID ap = i"
  unfolding by_call_get by (drule find_last_Some) simp

lemma by_call_None: "mget (by_call batch) i = None \<longleftrightarrow> i \<notin> inToolCallID ` set batch"
  unfolding by_call_get find_last_None by auto

text \<open>
  What a fold may run. A call with an interaction runs as the user approved it; a call without one,
  a sibling, runs when its arguments decoded, satisfy the schema of its tool, and the gate lets the
  tool through at the moment the call is reached: the approved calls before it have run by then.
\<close>

definition approved_call :: "(string \<Rightarrow> jargs) \<Rightarrow> SessionStore.interaction \<Rightarrow> call" where
  "approved_call parse ap = \<lparr>cID = inToolCallID ap, cName = inToolName ap, cArgs = parse (inPayload ap), cArgsError = ''''\<rparr>"

definition approved :: "SessionStore.interaction \<Rightarrow> bool" where
  "approved ap = (inStatus ap = InteractionResolved \<and> inKind ap \<in> {'''', KindToolApproval})"

definition slot_runs :: "(string \<Rightarrow> jargs) \<Rightarrow> (id, SessionStore.interaction) gomap \<Rightarrow> call \<Rightarrow> call list" where
  "slot_runs parse m c =
     (if cArgsError c \<noteq> '''' then []
      else case mget m (cID c) of None \<Rightarrow> [] | Some ap \<Rightarrow> if approved ap then [approved_call parse ap] else [])"

definition sibling :: "(id, SessionStore.interaction) gomap \<Rightarrow> call \<Rightarrow> bool" where
  "sibling m c = (cArgsError c = '''' \<and> mget m (cID c) = None)"

definition let_through :: "fold_env \<Rightarrow> nat \<Rightarrow> call \<Rightarrow> bool" where
  "let_through fe n c =
     (\<forall>reg t. feTools fe = Some reg \<longrightarrow> reg_get reg (cName c) = Some t \<longrightarrow>
        validate_args (feRegex fe) (tSchema t) (strip_description (cArgs c)) = None \<and>
        (\<forall>g. feGate fe = Some g \<longrightarrow> \<not> fst (g n t)))"

fun approved_calls :: "(string \<Rightarrow> jargs) \<Rightarrow> (id, SessionStore.interaction) gomap \<Rightarrow> call list \<Rightarrow> call list" where
  "approved_calls parse m [] = []"
| "approved_calls parse m (c # cs) = slot_runs parse m c @ approved_calls parse m cs"

fun sibling_calls :: "fold_env \<Rightarrow> (string \<Rightarrow> jargs) \<Rightarrow> (id, SessionStore.interaction) gomap \<Rightarrow> nat \<Rightarrow> call list \<Rightarrow> call list" where
  "sibling_calls fe parse m n [] = []"
| "sibling_calls fe parse m n (c # cs) =
     (if sibling m c \<and> let_through fe n c then [c\<lparr>cArgs := strip_description (cArgs c)\<rparr>] else []) @
     sibling_calls fe parse m (n + length (slot_runs parse m c)) cs"

lemma kinds_distinct [simp]:
  "KindAskUser \<noteq> KindToolApproval" "KindClientTool \<noteq> KindToolApproval" "KindClientTool \<noteq> KindAskUser"
  "KindToolApproval \<noteq> ''''" "KindAskUser \<noteq> ''''" "KindClientTool \<noteq> ''''"
  by (simp_all add: KindAskUser_def KindToolApproval_def KindClientTool_def)

lemma fold_interaction_handed:
  assumes "feHandlers fe = default_interaction_handlers re parse compact decode"
    and "fold_interaction fe ap approve s = (out, s1)"
  shows "\<exists>cs rest. fHanded s1 = fHanded s @ cs \<and> fClock s1 = fClock s + length cs \<and>
    (if approve \<and> inKind ap \<in> {'''', KindToolApproval} then [approved_call parse ap] else []) = cs @ rest \<and>
    ((\<exists>r. out = FoldOk r) \<longrightarrow> rest = [])"
proof (cases "inKind ap \<in> {'''', KindToolApproval}")
  case True
  have "mget (feHandlers fe) KindToolApproval = Some (tool_approval_handler parse)"
    using assms(1) by (simp add: default_interaction_handlers_def mget_def)
  with assms(2) True have "tool_approval_handler parse ap approve (feTools fe) (feExec fe) s = (out, s1)"
    unfolding fold_interaction_def Let_def by auto
  then show ?thesis
    using True
    by (auto simp: tool_approval_handler_def execute_fold_calls_def approved_call_def Let_def
        split: if_splits option.splits list.splits)
next
  case False
  have "s1 = s"
    using assms False
    by (auto simp: fold_interaction_def Let_def default_interaction_handlers_def mget_def
        ask_user_handler_def client_tool_handler_def split: if_splits option.splits)
  with False show ?thesis by auto
qed

lemma sibling_screen_exact:
  "feTools fe = Some reg \<Longrightarrow>
     if let_through fe n c then sibling_screen fe reg n c = Inr (c\<lparr>cArgs := strip_description (cArgs c)\<rparr>)
     else \<exists>r. sibling_screen fe reg n c = Inl r"
  unfolding sibling_screen_def let_through_def Let_def by (auto split: option.splits prod.splits)

text \<open>What the slots of a scan keep for the dispatch of the siblings.\<close>

lemma fold_slot_handed:
  assumes "feHandlers fe = default_interaction_handlers re parse compact decode"
    and "fold_slot fe m c s = (out, s1)"
  shows "\<exists>cs rest. fHanded s1 = fHanded s @ cs \<and> slot_runs parse m c = cs @ rest \<and>
    (\<forall>x. out = FoldOk x \<longrightarrow> rest = [] \<and> fClock s1 = fClock s + length cs \<and>
       live_calls [x] = (if sibling m c \<and> let_through fe (fClock s) c then [c\<lparr>cArgs := strip_description (cArgs c)\<rparr>] else []))"
proof (cases "cArgsError c = '''' \<and> mget m (cID c) \<noteq> None")
  case False
  then have r: "slot_runs parse m c = []" by (auto simp: slot_runs_def)
  have "s1 = s" using False assms(2) by (auto simp: fold_slot_def split: option.splits if_splits)
  moreover have "live_calls [x] = (if sibling m c \<and> let_through fe (fClock s) c then [c\<lparr>cArgs := strip_description (cArgs c)\<rparr>] else [])"
    if "out = FoldOk x" for x
  proof (cases "feTools fe")
    case None
    with False assms(2) that show ?thesis by (auto simp: fold_slot_def sibling_def split: if_splits)
  next
    case (Some reg)
    with False assms(2) that sibling_screen_exact [OF Some, of "fClock s" c] show ?thesis
      by (auto simp: fold_slot_def sibling_def split: if_splits)
  qed
  ultimately show ?thesis unfolding r by auto
next
  case True
  then obtain ap where ap: "mget m (cID c) = Some ap" "cArgsError c = ''''" by auto
  obtain o1 s2 where f: "fold_interaction fe ap (inStatus ap = InteractionResolved) s = (o1, s2)" by force
  have s2: "s1 = s2" "\<forall>x. out = FoldOk x \<longrightarrow> (\<exists>r. o1 = FoldOk r \<and> x = Inl r)"
    using assms(2) ap f by (auto simp: fold_slot_def split: fold_out.splits)
  have runs: "slot_runs parse m c = (if approved ap then [approved_call parse ap] else [])"
    by (simp add: slot_runs_def ap)
  from fold_interaction_handed [OF assms(1) f] obtain cs rest where
    "fHanded s2 = fHanded s @ cs" "fClock s2 = fClock s + length cs" "slot_runs parse m c = cs @ rest"
    "(\<exists>r. o1 = FoldOk r) \<longrightarrow> rest = []"
    unfolding runs approved_def by auto
  moreover have "\<not> sibling m c" by (simp add: sibling_def ap)
  ultimately show ?thesis using s2 by (intro exI [of _ cs] exI [of _ rest]) auto
qed

lemma live_calls_Cons: "live_calls (x # xs) = live_calls [x] @ live_calls xs"
  by (cases x) simp_all

lemma fold_scan_handed:
  assumes "feHandlers fe = default_interaction_handlers re parse compact decode"
    and "fold_scan fe m calls s = (out, s1)"
  shows "\<exists>cs rest. fHanded s1 = fHanded s @ cs \<and> approved_calls parse m calls = cs @ rest \<and>
    (\<forall>xs. out = FoldOk xs \<longrightarrow> rest = [] \<and> live_calls xs = sibling_calls fe parse m (fClock s) calls)"
  using assms(2)
proof (induction calls arbitrary: s out s1)
  case (Cons c cs)
  obtain o1 s2 where f: "fold_slot fe m c s = (o1, s2)" by force
  from fold_slot_handed [OF assms(1) f] obtain us rest where us:
    "fHanded s2 = fHanded s @ us" "slot_runs parse m c = us @ rest"
    "\<And>x. o1 = FoldOk x \<Longrightarrow> rest = [] \<and> fClock s2 = fClock s + length us \<and>
       live_calls [x] = (if sibling m c \<and> let_through fe (fClock s) c then [c\<lparr>cArgs := strip_description (cArgs c)\<rparr>] else [])"
    by blast
  show ?case
  proof (cases o1)
    case (FoldOk x)
    obtain o2 s3 where g: "fold_scan fe m cs s2 = (o2, s3)" by force
    from Cons.IH [OF g] obtain vs more where vs: "fHanded s3 = fHanded s2 @ vs" "approved_calls parse m cs = vs @ more"
      "\<And>xs. o2 = FoldOk xs \<Longrightarrow> more = [] \<and> live_calls xs = sibling_calls fe parse m (fClock s2) cs" by blast
    have "s1 = s3" and ys: "\<And>ys. out = FoldOk ys \<Longrightarrow> \<exists>xs. o2 = FoldOk xs \<and> ys = x # xs"
      using Cons.prems f g FoldOk by (auto split: fold_out.splits)
    moreover have "live_calls ys = sibling_calls fe parse m (fClock s) (c # cs) \<and> more = []" if o: "out = FoldOk ys" for ys
    proof -
      obtain xs where xs: "o2 = FoldOk xs" "ys = x # xs" using ys [OF o] by blast
      have "live_calls ys = live_calls [x] @ live_calls xs" unfolding xs(2) by (rule live_calls_Cons)
      with us(2) us(3) [OF FoldOk] vs(3) [OF xs(1)] show ?thesis by simp
    qed
    ultimately show ?thesis using us(1,2) us(3) [OF FoldOk] vs(1,2)
      by (intro exI [of _ "us @ vs"] exI [of _ more]) simp
  next
    case (FoldFails e)
    with Cons.prems f us show ?thesis by (intro exI [of _ us] exI [of _ "rest @ approved_calls parse m cs"]) auto
  next
    case FoldPanics
    with Cons.prems f us show ?thesis by (intro exI [of _ us] exI [of _ "rest @ approved_calls parse m cs"]) auto
  qed
qed simp

lemma fold_results_handed:
  assumes "feHandlers fe = default_interaction_handlers re parse compact decode"
    and "fold_results fe batch calls s = (out, s')"
  shows "\<exists>us vs rest. fHanded s' = fHanded s @ us @ vs \<and> approved_calls parse (by_call batch) calls = us @ rest \<and>
    (vs = [] \<or> rest = [] \<and> vs = sibling_calls fe parse (by_call batch) (fClock s) calls) \<and>
    (\<forall>rs. out = FoldOk rs \<longrightarrow> rest = [] \<and> vs = sibling_calls fe parse (by_call batch) (fClock s) calls)"
proof -
  obtain o1 s1 where f: "fold_scan fe (by_call batch) calls s = (o1, s1)" by force
  from fold_scan_handed [OF assms(1) f] obtain us rest where us:
    "fHanded s1 = fHanded s @ us" "approved_calls parse (by_call batch) calls = us @ rest"
    "\<And>xs. o1 = FoldOk xs \<Longrightarrow> rest = [] \<and> live_calls xs = sibling_calls fe parse (by_call batch) (fClock s) calls" by blast
  show ?thesis
  proof (cases o1)
    case (FoldOk xs)
    then have d: "fold_dispatch fe xs s1 = (out, s')" using assms(2) f by (simp add: fold_results_def)
    have "\<exists>vs. fHanded s' = fHanded s1 @ vs \<and> (vs = [] \<or> vs = live_calls xs) \<and> (\<forall>rs. out = FoldOk rs \<longrightarrow> vs = live_calls xs)"
      using d by (auto simp: fold_dispatch_def execute_fold_calls_def Let_def split: if_splits option.splits)
    then obtain vs where "fHanded s' = fHanded s1 @ vs" "vs = [] \<or> vs = live_calls xs" "\<forall>rs. out = FoldOk rs \<longrightarrow> vs = live_calls xs"
      by blast
    with us(1,2) us(3) [OF FoldOk] show ?thesis by (intro exI [of _ us] exI [of _ vs] exI [of _ rest]) simp
  next
    case (FoldFails e)
    with assms(2) f us show ?thesis
      by (intro exI [of _ us] exI [of _ "[]"] exI [of _ rest]) (auto simp: fold_results_def)
  next
    case FoldPanics
    with assms(2) f us show ?thesis
      by (intro exI [of _ us] exI [of _ "[]"] exI [of _ rest]) (auto simp: fold_results_def)
  qed
qed

text \<open>The cases of a fold: it stops before it executes anything, or it gets as far as the results.\<close>

lemma fold_batch_cases [consumes 1, case_names Early Results]:
  assumes "fold_batch fe now sess rid st s = (out, st', s')"
  obtains "st' = st" "s' = s"
      "\<And>h. out = FoldOk h \<Longrightarrow> \<exists>ms snap. fsMsgs st = Some ms \<and> mget (msBatches (fsStore st)) rid = Some snap \<and>
         sbFoldedSeq snap \<noteq> None \<and> h = snd (fold_history sess ms)"
    | ms snap calls o1 where "fsMsgs st = Some ms" "mget (msBatches (fsStore st)) rid = Some snap"
      "approvals_for_run rid (fsStore st) \<noteq> []"
      "sbFoldedSeq snap = None" "suspended_batch_calls (fst (fold_history sess ms)) rid snap = Inr calls"
      "fold_results fe (approvals_for_run rid (fsStore st)) calls s = (o1, s')"
      "\<And>rs. o1 = FoldOk rs \<Longrightarrow>
         fold_commit fe now sess rid (snd (fold_history sess ms)) (fold_message calls rs) ms st = (out, st')"
      "\<not> (\<exists>rs. o1 = FoldOk rs) \<Longrightarrow> st' = st \<and> \<not> (\<exists>h. out = FoldOk h)"
proof -
  show thesis
  proof (cases "mget (msBatches (fsStore st)) rid")
    case None
    with assms show thesis by (intro that(1)) (auto simp: fold_batch_def suspended_batch_for_run_def)
  next
    case (Some snap)
    note snap = this
    show thesis
    proof (cases "approvals_for_run rid (fsStore st) = [] \<or> fsMsgs st = None")
      case True
      with assms snap show thesis
        by (intro that(1)) (auto simp: fold_batch_def suspended_batch_for_run_def Let_def split: if_splits)
    next
      case False
      then obtain ms where ms: "fsMsgs st = Some ms" "approvals_for_run rid (fsStore st) \<noteq> []" by auto
      obtain stored history where h: "fold_history sess ms = (stored, history)" by force
      show thesis
      proof (cases "sbFoldedSeq snap \<noteq> None")
        case True
        with assms snap ms h show thesis
          by (intro that(1)) (auto simp: fold_batch_def suspended_batch_for_run_def Let_def)
      next
        case False
        show thesis
        proof (cases "suspended_batch_calls stored rid snap")
          case (Inl e)
          with assms snap ms h False show thesis
            by (intro that(1)) (auto simp: fold_batch_def suspended_batch_for_run_def Let_def)
        next
          case (Inr calls)
          obtain o1 s1 where r: "fold_results fe (approvals_for_run rid (fsStore st)) calls s = (o1, s1)" by force
          with assms snap ms h False Inr have s1: "s' = s1"
            by (auto simp: fold_batch_def suspended_batch_for_run_def Let_def split: fold_out.splits prod.splits)
          show thesis
          proof (rule that(2) [OF ms(1) snap ms(2) _ _ r [folded s1]])
            show "sbFoldedSeq snap = None" using False by simp
            show "suspended_batch_calls (fst (fold_history sess ms)) rid snap = Inr calls" by (simp add: h Inr)
            show "fold_commit fe now sess rid (snd (fold_history sess ms)) (fold_message calls rs) ms st = (out, st')"
              if "o1 = FoldOk rs" for rs
              using assms snap ms h False Inr r that
              by (auto simp: fold_batch_def suspended_batch_for_run_def Let_def split: prod.splits)
            show "st' = st \<and> \<not> (\<exists>h. out = FoldOk h)" if "\<not> (\<exists>rs. o1 = FoldOk rs)"
              using assms snap ms h False Inr r that
              by (cases o1) (auto simp: fold_batch_def suspended_batch_for_run_def Let_def)
          qed
        qed
      qed
    qed
  qed
qed

lemma fold_scan_length: "fold_scan fe m calls s = (FoldOk xs, s1) \<Longrightarrow> length xs = length calls"
  by (induction calls arbitrary: s xs s1) (auto split: prod.splits fold_out.splits)

lemma fold_results_length: "fold_results fe batch calls s = (FoldOk rs, s1) \<Longrightarrow> length rs = length calls"
  by (auto simp: fold_results_def fold_dispatch_def Let_def fold_scan_length
      split: prod.splits fold_out.splits if_splits option.splits)

lemma fold_message_ids:
  "length rs = length calls \<Longrightarrow> result_ids (mContent (fold_message calls rs)) = map cID calls"
  unfolding fold_message_def by (induction calls rs rule: list_induct2') (simp_all add: fold_block_def)

lemma fold_message_nonempty:
  "b \<in> set (mContent (fold_message calls rs)) \<Longrightarrow> bType b = BlockToolResult \<and> bToolContent b \<noteq> ''''"
proof -
  have *: "bType (fold_block c r) = BlockToolResult \<and> bToolContent (fold_block c r) \<noteq> ''''" for c r
    by (simp add: fold_block_def emptyToolResultPlaceholder_def)
  assume "b \<in> set (mContent (fold_message calls rs))"
  then obtain x where "b = (case x of (c, r) \<Rightarrow> fold_block c r)"
    unfolding fold_message_def by (simp only: message.simps set_map) blast
  with * show ?thesis by (cases x) simp
qed

text \<open>A fold that succeeds on a batch not folded yet, and is not overtaken, answers the batch.\<close>

lemma fold_answers_batch:
  assumes "fold_batch fe now sess rid st s = (FoldOk h, st', s')" "fsMsgs st = Some ms"
    and "mget (msBatches (fsStore st)) rid = Some snap" "sbFoldedSeq snap = None"
    and "\<forall>f m. feCommitter fe = Some f \<longrightarrow> fst (f now rid m st) \<noteq> AlreadyFolded"
  shows "\<exists>calls rs. h = snd (fold_history sess ms) @ [fold_message calls rs] \<and>
    map cID calls = sbToolCallIDs snap \<and> length rs = length calls"
  using assms(1)
proof (cases rule: fold_batch_cases)
  case Early
  with assms(3,4) show ?thesis by auto
next
  case (Results ms' snap' calls o1)
  then have eq: "ms' = ms" "snap' = snap" using assms(2,3) by auto
  obtain rs where rs: "o1 = FoldOk rs" using Results(8) by blast
  have "map cID calls = sbToolCallIDs snap"
    using Results(5) eq by (auto simp: suspended_batch_calls_def split: option.splits if_splits)
  moreover have "length rs = length calls" using Results(6) rs fold_results_length by blast
  moreover have "h = snd (fold_history sess ms) @ [fold_message calls rs]"
    using Results(7) [OF rs] assms(5) eq
    by (auto simp: fold_commit_def split: option.splits prod.splits commit_out.splits) (metis fst_conv)+
  ultimately show ?thesis by blast
qed

text \<open>
  What the fold relies on from the transaction of a store that is a \<open>FoldCommitter\<close>: it writes what
  the sequential commit writes, or finds the batch folded by another fold, or leaves the stores alone.
\<close>

definition fold_committer :: "(time \<Rightarrow> id \<Rightarrow> stored_message \<Rightarrow> fold_stores \<Rightarrow> commit_out \<times> fold_stores) \<Rightarrow> bool" where
  "fold_committer f = (\<forall>now rid m st. case f now rid m st of
     (Committed, st1) \<Rightarrow> (\<exists>ms. fsMsgs st = Some ms \<and> commit_sequential now rid m ms st = (None, st1))
   | (AlreadyFolded, st1) \<Rightarrow> fsMsgs st1 \<noteq> None \<and> approvals_for_run rid (fsStore st1) = approvals_for_run rid (fsStore st) \<and>
       (\<exists>snap. mget (msBatches (fsStore st1)) rid = Some snap \<and> sbFoldedSeq snap \<noteq> None)
   | (CommitFails e, st1) \<Rightarrow> st1 = st)"

text \<open>A fold of a folded batch changes nothing and returns the durable conversation.\<close>

lemma fold_again:
  assumes "mget (msBatches (fsStore st)) rid = Some snap" "sbFoldedSeq snap \<noteq> None" "fsMsgs st = Some ms"
    and "approvals_for_run rid (fsStore st) \<noteq> []"
  shows "fold_batch fe now sess rid st s = (FoldOk (snd (fold_history sess ms)), st, s)"
  using assms by (simp add: fold_batch_def suspended_batch_for_run_def split_beta)

text \<open>What a commit writes.\<close>

lemma committed_fold:
  assumes "commit_sequential now rid (fold_record sess rid msg) ms st = (None, st')"
    and "mget (msBatches (fsStore st)) rid = Some snap" "mRole msg = RoleUser"
  shows "\<exists>a ms'. fsMsgs st' = Some ms' \<and> messages_for sess ms' = messages_for sess ms @ [a] \<and>
    smRole a = RoleUser \<and> smContent a = truncate_blocks_for_persistence (mContent msg) \<and>
    mget (msBatches (fsStore st')) rid = Some (snap\<lparr>sbFoldedSeq := Some (int (smSeq a))\<rparr>) \<and>
    approvals_for_run rid (fsStore st') = approvals_for_run rid (fsStore st)"
proof -
  let ?a = "fst (append_message now (fold_record sess rid msg) ms)" and ?ms = "snd (append_message now (fold_record sess rid msg) ms)"
  have st': "st' = \<lparr>fsStore = (fsStore st)\<lparr>msBatches := mput rid (snap\<lparr>sbFoldedSeq := Some (int (smSeq ?a))\<rparr>) (msBatches (fsStore st))\<rparr>,
      fsMsgs = Some ?ms\<rparr>"
    using assms(1,2) by (auto simp: commit_sequential_def mark_batch_folded_def split_beta Let_def)
  have "messages_for sess ?ms = messages_for sess ms @ [?a]" by (simp add: mm.log_append fold_record_def)
  moreover have "smRole ?a = RoleUser" "smContent ?a = truncate_blocks_for_persistence (mContent msg)"
    using assms(3) by (simp_all add: mm.append_content fold_record_def)
  ultimately show ?thesis by (auto simp: st' approvals_for_run_def)
qed

subsection \<open>Properties\<close>

text \<open>C11: whatever becomes of a fold with the three built-in handlers (success, error or panic), what it
  hands to the executor is a beginning of the approved calls of the suspended batch, in the order of
  the batch and each as the interaction it belongs to records it, then, only when none of these is left out, the
  calls of the batch without an interaction whose arguments decoded and satisfy the schema of their
  tool and which the gate lets through when the fold reaches them, in order; a successful fold hands
  over exactly all of these, and none when the batch was folded before.\<close>
theorem fold_runs_only_authorised:
  assumes "feHandlers fe = default_interaction_handlers re parse compact decode"
    and "fold_batch fe now sess rid st s = (out, st', s')"
  shows "s' = s \<and> (\<forall>h. out = FoldOk h \<longrightarrow>
       (\<exists>snap. mget (msBatches (fsStore st)) rid = Some snap \<and> sbFoldedSeq snap \<noteq> None)) \<or>
    (\<exists>ms snap calls us vs rest. fsMsgs st = Some ms \<and> mget (msBatches (fsStore st)) rid = Some snap \<and>
       sbFoldedSeq snap = None \<and> suspended_batch_calls (fst (fold_history sess ms)) rid snap = Inr calls \<and>
       fHanded s' = fHanded s @ us @ vs \<and>
       (let m = by_call (approvals_for_run rid (fsStore st)); siblings = sibling_calls fe parse m (fClock s) calls
        in approved_calls parse m calls = us @ rest \<and> (vs = [] \<or> rest = [] \<and> vs = siblings) \<and>
           (\<forall>h. out = FoldOk h \<longrightarrow> rest = [] \<and> vs = siblings)))"
  using assms(2)
proof (cases rule: fold_batch_cases)
  case Early
  then show ?thesis by blast
next
  case (Results ms snap calls o1)
  let ?m = "by_call (approvals_for_run rid (fsStore st))"
  from fold_results_handed [OF assms(1) Results(6)] obtain us vs rest where h: "fHanded s' = fHanded s @ us @ vs"
    "approved_calls parse ?m calls = us @ rest" "vs = [] \<or> rest = [] \<and> vs = sibling_calls fe parse ?m (fClock s) calls"
    "\<forall>rs. o1 = FoldOk rs \<longrightarrow> rest = [] \<and> vs = sibling_calls fe parse ?m (fClock s) calls" by blast
  then have "\<forall>h. out = FoldOk h \<longrightarrow> rest = [] \<and> vs = sibling_calls fe parse ?m (fClock s) calls" using Results(8) by blast
  with h(1-3) Results(1,2,4,5) show ?thesis unfolding Let_def by blast
qed

text \<open>C12: over message stores whose writes succeed, or one with a transaction for the fold, a fold
  commits once or not at all: if it fails, no store changes; if it succeeds, the batch is marked as
  folded and any later fold of it executes nothing, changes nothing and returns the durable
  conversation. A batch folded before is left as it is; any other is answered by one message, with
  the results of its calls in order, that is returned and is in the durable conversation with over-long
  results cut, its place recorded in the batch; unless the transaction found that another fold had
  committed meanwhile, whose conversation is returned then.\<close>
theorem fold_commits_once:
  assumes "fold_batch fe now sess rid st s = (out, st', s')" "\<forall>f. feCommitter fe = Some f \<longrightarrow> fold_committer f"
  shows "(\<not> (\<exists>h. out = FoldOk h) \<longrightarrow> st' = st) \<and>
    (\<forall>h. out = FoldOk h \<longrightarrow>
      (\<exists>ms snap ms' snap'. fsMsgs st = Some ms \<and> mget (msBatches (fsStore st)) rid = Some snap \<and>
        fsMsgs st' = Some ms' \<and> mget (msBatches (fsStore st')) rid = Some snap' \<and> sbFoldedSeq snap' \<noteq> None \<and>
        (\<forall>fe2 now2 s2. fold_batch fe2 now2 sess rid st' s2 = (FoldOk (snd (fold_history sess ms')), st', s2)) \<and>
        (if sbFoldedSeq snap \<noteq> None then st' = st \<and> s' = s \<and> h = snd (fold_history sess ms)
         else (\<exists>calls rs a. map cID calls = sbToolCallIDs snap \<and> length rs = length calls \<and>
             h = snd (fold_history sess ms) @ [fold_message calls rs] \<and>
             result_ids (mContent (fold_message calls rs)) = sbToolCallIDs snap \<and>
             messages_for sess ms' = messages_for sess ms @ [a] \<and> smRole a = RoleUser \<and>
             smContent a = truncate_blocks_for_persistence (mContent (fold_message calls rs)) \<and>
             snap' = snap\<lparr>sbFoldedSeq := Some (int (smSeq a))\<rparr>) \<or>
           h = snd (fold_history sess ms') \<and>
             (\<exists>f m. feCommitter fe = Some f \<and> f now rid m st = (AlreadyFolded, st')))))"
  using assms(1)
proof (cases rule: fold_batch_cases)
  case Early
  show ?thesis
  proof (cases "\<exists>h. out = FoldOk h")
    case True
    then obtain h where o: "out = FoldOk h" by blast
    from Early(3) [OF this] obtain ms snap where m: "fsMsgs st = Some ms" "mget (msBatches (fsStore st)) rid = Some snap"
      "sbFoldedSeq snap \<noteq> None" "h = snd (fold_history sess ms)" by blast
    have "approvals_for_run rid (fsStore st) \<noteq> []"
      using assms(1) o m by (auto simp: fold_batch_def suspended_batch_for_run_def Let_def)
    from fold_again [OF m(2,3,1) this] m Early(1,2) o show ?thesis by simp
  qed (use Early(1) in simp)
next
  case (Results ms snap calls o1)
  show ?thesis
  proof (cases "\<exists>rs. o1 = FoldOk rs")
    case False
    with Results(8) show ?thesis by blast
  next
    case True
    then obtain rs where rs: "o1 = FoldOk rs" by blast
    let ?msg = "fold_message calls rs"
    have ids: "map cID calls = sbToolCallIDs snap"
      using Results(5) by (auto simp: suspended_batch_calls_def split: option.splits if_splits)
    have len: "length rs = length calls" using Results(6) rs fold_results_length by blast
    from Results(7) [OF rs] have c: "fold_commit fe now sess rid (snd (fold_history sess ms)) ?msg ms st = (out, st')" .
    consider (failed) "\<not> (\<exists>h. out = FoldOk h)" "st' = st"
      | (committed) "out = FoldOk (snd (fold_history sess ms) @ [?msg])"
          "commit_sequential now rid (fold_record sess rid ?msg) ms st = (None, st')"
      | (overtaken) f ms' snap' where "feCommitter fe = Some f" "f now rid (fold_record sess rid ?msg) st = (AlreadyFolded, st')"
          "fsMsgs st' = Some ms'" "out = FoldOk (snd (fold_history sess ms'))" "approvals_for_run rid (fsStore st') \<noteq> []"
          "mget (msBatches (fsStore st')) rid = Some snap'" "sbFoldedSeq snap' \<noteq> None"
    proof (cases "feCommitter fe")
      case None
      have "fst (commit_sequential now rid (fold_record sess rid ?msg) ms st) = None"
        using Results(2) by (simp add: commit_sequential_def mark_batch_folded_def split_beta Let_def)
      with c None show ?thesis
        by (intro committed) (auto simp: fold_commit_def split: prod.splits option.splits)
    next
      case (Some f)
      obtain co st1 where f: "f now rid (fold_record sess rid ?msg) st = (co, st1)" by force
      from assms(2) Some have "fold_committer f" by blast
      then have k: "case (co, st1) of (Committed, st1) \<Rightarrow> (\<exists>ms. fsMsgs st = Some ms \<and>
            commit_sequential now rid (fold_record sess rid ?msg) ms st = (None, st1))
        | (AlreadyFolded, st1) \<Rightarrow> fsMsgs st1 \<noteq> None \<and> approvals_for_run rid (fsStore st1) = approvals_for_run rid (fsStore st) \<and>
            (\<exists>snap. mget (msBatches (fsStore st1)) rid = Some snap \<and> sbFoldedSeq snap \<noteq> None)
        | (CommitFails e, st1) \<Rightarrow> st1 = st"
        unfolding fold_committer_def f [symmetric] by (elim allE)
      show ?thesis
      proof (cases co)
        case Committed
        with c Some f k Results(1) show ?thesis by (intro committed) (auto simp: fold_commit_def)
      next
        case AlreadyFolded
        with c Some f k Results(3) show ?thesis by (auto simp: fold_commit_def intro!: overtaken)
      next
        case (CommitFails e)
        with c Some f k show ?thesis by (intro failed) (auto simp: fold_commit_def)
      qed
    qed
    then show ?thesis
    proof cases
      case failed
      then show ?thesis by simp
    next
      case committed
      from committed_fold [OF committed(2) Results(2)] obtain a ms' where a: "fsMsgs st' = Some ms'"
        "messages_for sess ms' = messages_for sess ms @ [a]" "smRole a = RoleUser"
        "smContent a = truncate_blocks_for_persistence (mContent ?msg)"
        "mget (msBatches (fsStore st')) rid = Some (snap\<lparr>sbFoldedSeq := Some (int (smSeq a))\<rparr>)"
        "approvals_for_run rid (fsStore st') = approvals_for_run rid (fsStore st)" by (auto simp: fold_message_def)
      have "fold_batch fe2 now2 sess rid st' s2 = (FoldOk (snd (fold_history sess ms')), st', s2)" for fe2 now2 s2
        using Results(3) by (intro fold_again [OF a(5) _ a(1)]) (simp_all add: a(6))
      with a(1-5) committed(1) ids len fold_message_ids [OF len] Results(1,2,4) show ?thesis by auto
    next
      case overtaken
      from fold_again [OF overtaken(6,7,3,5)] overtaken Results(1,2,4) show ?thesis by auto
    qed
  qed
qed

text \<open>The siblings of a suspended batch fare as they would in a live run: with the loop's registry,
  policy and executor, a fold gives each call the result the dispatch gives it (for a call that
  violates its tool's schema both give an error, whose wording may differ).\<close>
theorem fold_siblings_as_dispatch:
  fixes fe en l calls s
  defines "slots \<equiv> map (sibling_screen fe (lTools l) (sClock s)) calls"
  defines "folded \<equiv> fill slots (tool_executor en l (sClock s) (live_calls slots))"
    and "live \<equiv> fst (dispatch en l calls s)"
  assumes "feGate fe = lGateExecute l" "feRegex fe = eRegex en"
    and "\<forall>c \<in> set calls. cArgsError c = ''''"
    and "\<forall>c \<in> set calls. \<forall>t. reg_get (lTools l) (cName c) = Some t \<longrightarrow>
      (\<exists>sch. tSchema t = Some sch \<and> jget sch ''type'' = Some (JStr ''object''))"
  shows "length folded = length calls \<and> (\<forall>i < length calls. folded ! i = live ! i \<or>
    (trIsError (folded ! i) \<and> trIsError (live ! i) \<and>
     (\<exists>t. reg_get (lTools l) (cName (calls ! i)) = Some t \<and> args_violation en t (cArgs (calls ! i)) \<noteq> None)))"
proof (intro conjI allI impI)
  let ?n = "sClock s"
  let ?h = "\<lambda>c. case executor_screen l c of Inl r \<Rightarrow> r
       | Inr tc \<Rightarrow> chain_tool (lToolWrap l) (real_tool_call en ?n l) tc"
  have idem: "strip_description (strip_description a) = strip_description a" for a
    by (cases a) (auto simp: strip_description_def jget_def)
  have f: "folded = map (\<lambda>x. case x of Inl r \<Rightarrow> r | Inr c \<Rightarrow> ?h c) slots"
    unfolding folded_def executor_results by (rule fill_map)
  show "length folded = length calls" by (simp add: f slots_def)
  fix i assume i: "i < length calls"
  let ?c = "calls ! i"
  have e: "cArgsError ?c = ''''" using assms(6) i by simp
  have fi: "folded ! i = (case sibling_screen fe (lTools l) ?n ?c of Inl r \<Rightarrow> r | Inr c \<Rightarrow> ?h c)"
    using i by (simp add: f slots_def)
  have li: "live ! i = (case screen en l ?n ?c of Inl r \<Rightarrow> r
       | Inr tc \<Rightarrow> chain_tool (lToolWrap l) (real_tool_call en ?n l) tc)"
    using i by (simp add: live_def dispatch_results)
  show "folded ! i = live ! i \<or> (trIsError (folded ! i) \<and> trIsError (live ! i) \<and>
     (\<exists>t. reg_get (lTools l) (cName ?c) = Some t \<and> args_violation en t (cArgs ?c) \<noteq> None))"
  proof (cases "reg_get (lTools l) (cName ?c)")
    case None
    then have "folded ! i = live ! i"
      by (simp add: fi li sibling_screen_def screen_def executor_screen_def e)
    then show ?thesis ..
  next
    case (Some t)
    then obtain sch where sch: "tSchema t = Some sch" "jget sch ''type'' = Some (JStr ''object'')"
      using assms(7) i by (meson nth_mem)
    have v: "validate_args (feRegex fe) (tSchema t) (strip_description (cArgs ?c)) = None \<longleftrightarrow>
        args_violation en t (cArgs ?c) = None"
      unfolding args_violation_def schema_for_validation_def sch(1) assms(5)
      using description_neutral [OF sch(2)] by blast
    show ?thesis
    proof (cases "args_violation en t (cArgs ?c)")
      case None
      with v Some e show ?thesis
        unfolding fi li sibling_screen_def screen_def assms(4)
        by (cases "lGateExecute l"; cases "the (lGateExecute l) ?n t"; cases "fst (the (lGateExecute l) ?n t)")
          (simp_all add: executor_screen_def idem Let_def)
    next
      case (Some v1)
      with v obtain v2 where "validate_args (feRegex fe) (tSchema t) (strip_description (cArgs ?c)) = Some v2" by auto
      with Some \<open>reg_get (lTools l) (cName ?c) = Some t\<close> e show ?thesis
        unfolding fi li sibling_screen_def screen_def by (simp add: invalid_args_def error_result_def)
    qed
  qed
qed

subsection \<open>An example\<close>

definition sample_suspended :: stored_message where
  "sample_suspended = \<lparr>smID = 0, smSessionID = ''s'', smRunID = ''r'', smSeq = 0, smRole = RoleAssistant,
     smContent = [tool_use_block ''1'' ''a'' None '''', tool_use_block ''2'' ''b'' None ''''],
     smCreatedAt = 0, smUsage = None, smMetadata = ''''\<rparr>"

definition sample_verdict :: SessionStore.interaction where
  "sample_verdict = (sample_interaction ''i'' ''2'')\<lparr>inToolName := ''b'', inStatus := InteractionResolved, inSeq := 1\<rparr>"

definition sample_snapshot :: suspended_batch where
  "sample_snapshot = \<lparr>sbRunID = ''r'', sbSessionID = ''s'', sbMessageSeq = None, sbToolCallIDs = [''1'', ''2''],
     sbFoldedSeq = None, sbCreatedAt = 0\<rparr>"

definition sample_fold_stores :: fold_stores where
  "sample_fold_stores = \<lparr>fsStore = new_mem_store\<lparr>msApprovals := [(''i'', sample_verdict)], msBatches := [(''r'', sample_snapshot)]\<rparr>,
     fsMsgs = Some (snd (append_message 1 sample_suspended new_message_store))\<rparr>"

definition sample_fold_env :: fold_env where
  "sample_fold_env = \<lparr>feTools = Some new_registry, feGate = None,
     feExec = Some (\<lambda>n. map (\<lambda>c. plain_result (cName c))), feRegex = (\<lambda>_. None),
     feHandlers = default_interaction_handlers (\<lambda>_. None) (\<lambda>_. None) (\<lambda>_. None) (\<lambda>_. None), feCommitter = None\<rparr>"

definition sample_fold_state :: fold_state where
  "sample_fold_state = \<lparr>fClock = 0, fHanded = []\<rparr>"

definition sample_fold_calls :: "call list" where
  "sample_fold_calls = [\<lparr>cID = ''1'', cName = ''a'', cArgs = None, cArgsError = ''''\<rparr>,
     \<lparr>cID = ''2'', cName = ''b'', cArgs = None, cArgsError = ''''\<rparr>]"

lemma sample_fold_facts:
  "suspended_batch_for_run ''r'' (fsStore sample_fold_stores) = Inr sample_snapshot"
  "approvals_for_run ''r'' (fsStore sample_fold_stores) = [sample_verdict]"
  "fold_history ''s'' (snd (append_message 1 sample_suspended new_message_store)) =
     ([fst (append_message 1 sample_suspended new_message_store)],
      [\<lparr>mRole = RoleAssistant, mContent = smContent sample_suspended\<rparr>])"
  "suspended_batch_calls [fst (append_message 1 sample_suspended new_message_store)] ''r'' sample_snapshot =
     Inr sample_fold_calls"
  "sbFoldedSeq sample_snapshot = None"
  by code_simp+

lemma sample_fold_results:
  "fold_results sample_fold_env [sample_verdict] sample_fold_calls sample_fold_state =
     (FoldOk [plain_result ''a'', plain_result ''b''],
      \<lparr>fClock = 2, fHanded = [sample_fold_calls ! 1, sample_fold_calls ! 0]\<rparr>)"
proof -
  have h: "mget (feHandlers sample_fold_env) KindToolApproval = Some (tool_approval_handler (\<lambda>_. None))"
    by (simp add: sample_fold_env_def default_interaction_handlers_def mget_def)
  have e: "feTools sample_fold_env = Some new_registry" "feGate sample_fold_env = None"
    "feExec sample_fold_env = Some (\<lambda>n. map (\<lambda>c. plain_result (cName c)))" by (simp_all add: sample_fold_env_def)
  have b: "mget (by_call [sample_verdict]) ''1'' = None" "mget (by_call [sample_verdict]) ''2'' = Some sample_verdict"
    "inKind sample_verdict = KindToolApproval" "inStatus sample_verdict = InteractionResolved" by code_simp+
  have v: "inToolCallID sample_verdict = ''2''" "inToolName sample_verdict = ''b''" by code_simp+
  have g: "reg_get new_registry n = None" for n by (simp add: reg_get_def new_registry_def)
  show ?thesis
    by (simp add: fold_results_def sample_fold_calls_def fold_slot_def b e sibling_screen_def g
        fold_interaction_def h tool_approval_handler_def execute_fold_calls_def v Let_def
        sample_fold_state_def fold_dispatch_def strip_description_def)
qed

lemma sample_fold_runs:
  obtains h st' where "fold_batch sample_fold_env 9 ''s'' ''r'' sample_fold_stores sample_fold_state =
    (FoldOk h, st', \<lparr>fClock = 2, fHanded = [sample_fold_calls ! 1, sample_fold_calls ! 0]\<rparr>)"
proof -
  have m: "fsMsgs sample_fold_stores = Some (snd (append_message 1 sample_suspended new_message_store))"
    "feCommitter sample_fold_env = None"
    by (simp_all add: sample_fold_stores_def sample_fold_env_def)
  have c: "\<exists>h st'. fold_commit sample_fold_env 9 ''s'' ''r'' history msg ms sample_fold_stores = (FoldOk h, st')" for history msg ms
  proof -
    have "mget (msBatches (fsStore sample_fold_stores)) ''r'' = Some sample_snapshot"
      by (simp add: sample_fold_stores_def mget_def)
    then show ?thesis
      by (simp add: fold_commit_def m commit_sequential_def mark_batch_folded_def split_beta Let_def)
  qed
  show thesis
    using that c unfolding fold_batch_def
    by (simp add: sample_fold_facts m sample_fold_results Let_def split_beta) (metis fst_conv snd_conv prod.collapse)
qed

lemma fold_runs_only_authorised_witness:
  "\<exists>h st' s'. fold_batch sample_fold_env 9 ''s'' ''r'' sample_fold_stores sample_fold_state = (FoldOk h, st', s') \<and>
     map cID (fHanded s') = [''2'', ''1'']"
proof -
  obtain h st' s' where f: "fold_batch sample_fold_env 9 ''s'' ''r'' sample_fold_stores sample_fold_state = (FoldOk h, st', s')"
    using sample_fold_runs by metis
  have hs: "feHandlers sample_fold_env = default_interaction_handlers (\<lambda>_. None) (\<lambda>_. None) (\<lambda>_. None) (\<lambda>_. None)"
    by (simp add: sample_fold_env_def)
  have st: "fsMsgs sample_fold_stores = Some (snd (append_message 1 sample_suspended new_message_store))"
    "mget (msBatches (fsStore sample_fold_stores)) ''r'' = Some sample_snapshot" "fHanded sample_fold_state = []"
    "fClock sample_fold_state = 0"
    by (simp_all add: sample_fold_stores_def mget_def sample_fold_state_def)
  let ?m = "by_call [sample_verdict]"
  from fold_runs_only_authorised [OF hs f] have
    "fHanded s' = approved_calls (\<lambda>_. None) ?m sample_fold_calls @ sibling_calls sample_fold_env (\<lambda>_. None) ?m 0 sample_fold_calls"
    by (auto simp: st sample_fold_facts Let_def)
  moreover have "map cID (approved_calls (\<lambda>_. None) ?m sample_fold_calls) = [''2'']" by code_simp
  moreover have "map cID (sibling_calls sample_fold_env (\<lambda>_. None) ?m 0 sample_fold_calls) = [''1'']"
  proof -
    have b: "mget ?m ''1'' = None" "mget ?m ''2'' = Some sample_verdict" by code_simp+
    show ?thesis by (simp add: sample_fold_calls_def sibling_def b let_through_def sample_fold_env_def reg_get_def new_registry_def)
  qed
  ultimately show ?thesis using f by simp
qed

lemma fold_commits_once_witness:
  "\<exists>h st' s'. fold_batch sample_fold_env 9 ''s'' ''r'' sample_fold_stores sample_fold_state = (FoldOk h, st', s') \<and>
     result_ids (mContent (last h)) = [''1'', ''2''] \<and> snd (snd (fold_batch sample_fold_env 10 ''s'' ''r'' st' s')) = s'"
proof -
  obtain h st' s' where f: "fold_batch sample_fold_env 9 ''s'' ''r'' sample_fold_stores sample_fold_state = (FoldOk h, st', s')"
    using sample_fold_runs by metis
  have n: "feCommitter sample_fold_env = None" by (simp add: sample_fold_env_def)
  then have "\<forall>f. feCommitter sample_fold_env = Some f \<longrightarrow> fold_committer f" by simp
  from conjunct2 [OF fold_commits_once [OF f this], rule_format, OF refl] n
  obtain calls rs ms' ms where "h = snd (fold_history ''s'' ms) @ [fold_message calls rs]"
    "result_ids (mContent (fold_message calls rs)) = [''1'', ''2'']"
    "fold_batch sample_fold_env 10 ''s'' ''r'' st' s' = (FoldOk (snd (fold_history ''s'' ms')), st', s')"
    by (auto simp: sample_fold_stores_def mget_def sample_snapshot_def)
  with f show ?thesis by auto
qed

definition sample_policy_env :: fold_env where
  "sample_policy_env = sample_fold_env\<lparr>feTools := Some (lTools sample_loop), feGate := lGateExecute sample_loop\<rparr>"

lemma fold_siblings_as_dispatch_witness:
  "fill (map (sibling_screen sample_policy_env (lTools sample_loop) (sClock (init_lstate 0))) (take 2 sample_calls))
     (tool_executor (sample_env (\<lambda>_. [])) sample_loop (sClock (init_lstate 0))
       (live_calls (map (sibling_screen sample_policy_env (lTools sample_loop) (sClock (init_lstate 0))) (take 2 sample_calls)))) ! 1 =
   fst (dispatch (sample_env (\<lambda>_. [])) sample_loop (take 2 sample_calls) (init_lstate 0)) ! 1"
proof -
  have 1: "feGate sample_policy_env = lGateExecute sample_loop" "feRegex sample_policy_env = eRegex (sample_env (\<lambda>_. []))"
    by (simp_all add: sample_policy_env_def sample_fold_env_def sample_env_def)
  have 2: "\<forall>c \<in> set (take 2 sample_calls). cArgsError c = ''''" by (simp add: sample_calls_def)
  have t: "\<exists>sch. tSchema (sample_tool n) = Some sch \<and> jget sch ''type'' = Some (JStr ''object'')" for n
    by (simp add: sample_tool_def sample_schema_def jget_def mget_def)
  have 3: "\<forall>c \<in> set (take 2 sample_calls). \<forall>t. reg_get (lTools sample_loop) (cName c) = Some t \<longrightarrow>
      (\<exists>sch. tSchema t = Some sch \<and> jget sch ''type'' = Some (JStr ''object''))"
    using t by (simp add: sample_calls_def sample_get)
  have n: "1 < length (take 2 sample_calls)" "take 2 sample_calls ! 1 = sample_calls ! 1" by (simp_all add: sample_calls_def)
  have v: "args_violation (sample_env (\<lambda>_. [])) (sample_tool ''b'') (cArgs (sample_calls ! 1)) = None"
    "reg_get (lTools sample_loop) (cName (sample_calls ! 1)) = Some (sample_tool ''b'')"
    by (simp_all add: sample_calls_def sample_screens sample_get)
  from conjunct2 [OF fold_siblings_as_dispatch [where s = "init_lstate 0", OF 1 2 3], rule_format, OF n(1)] v show ?thesis
    unfolding n(2) by auto
qed

end
