(* ===== verification/RunRecord.thy ===== *)
theory RunRecord
  imports AgentLoop Emitter Fold
begin

section \<open>From a run to its durable record, and back\<close>

text \<open>
  How the loop, the recorder and the fold fit together. The messages the emitter accepted from a
  run are exactly the messages it produced; hence the durable conversation of the session grows
  by exactly those; and a batch that a run leaves suspended is settled by the message of its fold.
\<close>

named_theorems recorded_intros \<open>stages that keep the accepted messages and the produced ones equal\<close>

definition accepted_messages :: "lstate \<Rightarrow> message list" where
  "accepted_messages s = concat (map (\<lambda>(f, ok). if ok then frame_message f else []) (sLog s))"

definition recorded :: "lstate \<Rightarrow> bool" where
  "recorded s = (accepted_messages s = sProduced s)"

text \<open>
  What the loop relies on of an emitter: a message offered on a context that is detached from
  cancellation is accepted (the emitter of the registry only refuses on the context's error).
\<close>

definition takes_messages :: "env \<Rightarrow> bool" where
  "takes_messages en = (\<forall>n f. frame_kind f = KindMessage \<longrightarrow> eEmit en n True f = None)"

lemma frame_message_kind: "frame_message f = [] \<longleftrightarrow> frame_kind f \<noteq> KindMessage"
  by (cases f) simp_all

lemma accepted_emit:
  "accepted_messages (emit_ignored en d f s) =
     accepted_messages s @ (if eEmit en (sClock s) d f = None then frame_message f else [])"
  by (simp add: accepted_messages_def emit_log)

lemma accepted_upd [simp]:
  "accepted_messages (tick s) = accepted_messages s"
  "accepted_messages (s\<lparr>sView := v\<rparr>) = accepted_messages s"
  "accepted_messages (s\<lparr>sIteration := i\<rparr>) = accepted_messages s"
  "accepted_messages (s\<lparr>sUsage := u\<rparr>) = accepted_messages s"
  "accepted_messages (s\<lparr>sPending := p\<rparr>) = accepted_messages s"
  "accepted_messages (s\<lparr>sClock := n\<rparr>) = accepted_messages s"
  "accepted_messages (s\<lparr>sLive := c\<rparr>) = accepted_messages s"
  "accepted_messages (s\<lparr>sCache := ca\<rparr>) = accepted_messages s"
  "accepted_messages (s\<lparr>sViewDropped := vd\<rparr>) = accepted_messages s"
  "accepted_messages (s\<lparr>sOverflowRecovered := b\<rparr>) = accepted_messages s"
  "accepted_messages (s\<lparr>sProduced := ps\<rparr>) = accepted_messages s"
  by (simp_all add: accepted_messages_def)

lemma recorded_upd [simp]:
  "recorded (tick s) = recorded s" "recorded (s\<lparr>sView := v\<rparr>) = recorded s"
  "recorded (s\<lparr>sIteration := i\<rparr>) = recorded s" "recorded (s\<lparr>sUsage := u\<rparr>) = recorded s"
  "recorded (s\<lparr>sPending := p\<rparr>) = recorded s" "recorded (s\<lparr>sClock := n\<rparr>) = recorded s"
  "recorded (s\<lparr>sLive := c\<rparr>) = recorded s" "recorded (s\<lparr>sCache := ca\<rparr>) = recorded s"
  "recorded (s\<lparr>sViewDropped := vd\<rparr>) = recorded s" "recorded (s\<lparr>sOverflowRecovered := b\<rparr>) = recorded s"
  by (simp_all add: recorded_def)

lemma recorded_other [recorded_intros]:
  "recorded s \<Longrightarrow> frame_kind f \<noteq> KindMessage \<Longrightarrow> recorded (emit_ignored en d f s)"
  by (simp add: recorded_def accepted_emit frame_message_kind [symmetric])

lemma recorded_message:
  "takes_messages en \<Longrightarrow> recorded s \<Longrightarrow> frame_message f = [m] \<Longrightarrow>
     recorded (emit_ignored en True f (s\<lparr>sProduced := sProduced s @ [m]\<rparr>))"
  using frame_message_kind [of f] by (simp add: recorded_def accepted_emit takes_messages_def)

lemma recorded_extends:
  assumes "extends progress_frame s s'" "recorded s"
  shows "recorded s'"
proof -
  obtain xs where xs: "sLog s' = sLog s @ xs" "list_all (\<lambda>x. progress_frame (fst x)) xs"
    "sProduced s' = sProduced s" using assms(1) by (auto simp: extends_def)
  have "concat (map (\<lambda>(f, ok). if ok then frame_message f else []) xs) = []"
    using xs(2) by (auto simp: list_all_iff progress_frame_def frame_message_kind)
  with xs assms(2) show ?thesis by (simp add: recorded_def accepted_messages_def)
qed

lemma recorded_results [recorded_intros]:
  assumes "takes_messages en" "recorded s"
  shows "recorded (record_tool_results en calls results s)"
  unfolding record_tool_results_def Let_def
  using emit_results_spec [of s en "zip calls results"]
  by (intro recorded_message [OF assms(1)] recorded_extends [OF _ assms(2)]) simp_all

lemma recorded_step_finish [recorded_intros]: "recorded s \<Longrightarrow> recorded (emit_step_finish en d res reason c s)"
  unfolding emit_step_finish_def by (rule recorded_other) simp_all

lemma recorded_after_run: "loop_ok l \<Longrightarrow> recorded s \<Longrightarrow> recorded (run_after_run l d s)"
  using recorded_extends run_after_keeps by blast

lemma recorded_ends [recorded_intros]:
  assumes "loop_ok l" "recorded s"
  shows "recorded (snd (fail_run en l s res reason e))" "recorded (snd (loop_cancel_run en l s res e))"
    "recorded (snd (succeed_run en l s res reason))" "recorded (emit_cancelled en (report_terminal l s))"
  unfolding fail_run_def loop_cancel_run_def succeed_run_def report_terminal_def emit_cancelled_def Let_def
  by (simp_all add: recorded_other recorded_step_finish recorded_after_run assms)

fun step_recorded :: "step_out \<Rightarrow> bool" where
  "step_recorded (Continue s) = recorded s"
| "step_recorded (Return e s) = recorded s"

lemma step_recorded_returning [simp]: "step_recorded (returning x) = recorded (snd x)"
  by (simp add: returning_def)

lemma recorded_interrupts:
  "emit_interrupts en gs s = (e, s') \<Longrightarrow> recorded s \<Longrightarrow> recorded s'"
proof (induction gs arbitrary: s)
  case (Cons g gs)
  obtain r s1 where e: "emit en False (FInterrupt g) s = (r, s1)" by force
  then have "recorded s1" using emit_pair [OF e] Cons.prems(2) by (simp add: recorded_other)
  with Cons e show ?case by (auto split: option.splits)
qed simp

lemma recorded_handle:
  assumes "loop_ok l" "takes_messages en" "recorded s"
  shows "step_recorded (handle_batch en l res s)"
proof -
  have d: "recorded t \<Longrightarrow> recorded (snd (dispatch en l calls t))" for calls t
    unfolding dispatch_state by simp
  have su: "recorded t \<Longrightarrow> recorded (snd (suspend_batch en l res gated t))" for gated t
    using recorded_interrupts [of en gated "t\<lparr>sPending := gated\<rparr>"] assms(1,2)
    by (auto simp: suspend_batch_def Let_def split: prod.split option.split intro!: recorded_intros)
  show ?thesis
    unfolding handle_batch_def fail_batch_def Let_def ctx_pair split_beta
    using assms d su by (auto split: option.split intro!: recorded_intros)
qed

lemma recorded_text:
  assumes "loop_ok l" "recorded s"
  shows "recorded (snd (finish_text en l res s))"
  unfolding finish_text_def Let_def ctx_pair split_beta
  using assms by (auto split: option.split intro!: recorded_intros)

lemma recorded_after_attempt:
  assumes "loop_ok l" "takes_messages en" "recorded s"
  shows "step_recorded (after_attempt en l res s)"
proof -
  have u: "recorded (add_usage res t) = recorded t" for t
    by (simp add: add_usage_def split: option.split)
  have dr: "recorded (snd (drop_oldest_round_for_overflow t)) = recorded t" for t
    by (auto simp: drop_oldest_round_for_overflow_def align_cache_def recorded_def accepted_messages_def Let_def
        split: option.split)
  have h: "recorded (snd (node_hooks (rev (lAfterModel l)) t))" if "recorded t" for t
    using node_hooks_keeps [of "rev (lAfterModel l)" t] assms(1) recorded_extends [OF _ that]
    by (metis loop_ok_def prod.collapse set_rev)
  have m: "recorded (emit_ignored en True (FAssistant a v) (t\<lparr>sProduced := sProduced t @ [a]\<rparr>))"
    if "recorded t" for a v t
    by (rule recorded_message [OF assms(2) that]) simp
  show ?thesis
    unfolding after_attempt_def Let_def split_beta
    using assms
    by (auto simp: u dr split: option.split
        intro!: recorded_intros recorded_handle recorded_text h m)
qed

lemma recorded_iteration:
  assumes "loop_ok l" "takes_messages en" "recorded s"
  shows "step_recorded (iteration en l base iter s)"
proof -
  let ?s1 = "tick (s\<lparr>sIteration := iter\<rparr>)"
  let ?s2 = "if 0 < iter then emit_ignored en False FStepStart ?s1 else ?s1"
  let ?s3 = "?s2\<lparr>sView := working_view base ?s2\<rparr>"
  have s3: "recorded ?s3" using assms(3) by (simp add: recorded_other)
  obtain ab s4 where h: "node_hooks (lBefore l) ?s3 = (ab, s4)" by force
  have s4: "recorded s4"
    using recorded_extends [OF node_hooks_keeps [OF _ h] s3] assms(1) by (simp add: loop_ok_def)
  obtain res err c s5 where a: "attempt en l s4 = ((res, err), c, s5)"
    by (metis prod.collapse)
  have s5: "recorded s5" using recorded_extends attempt_keeps [OF assms(1) a] s4 by blast
  show ?thesis
    unfolding iteration_def Let_def ctx_pair prod.case h a
    using assms s4 s5 recorded_after_attempt [OF assms(1,2) s5]
    by (auto split: option.split intro!: recorded_intros)
qed

lemma recorded_loop:
  assumes "loop_ok l" "takes_messages en"
  shows "recorded s \<Longrightarrow> recorded (snd (run_loop en l base k iter s))"
proof (induction k arbitrary: iter s)
  case (Suc k)
  have "step_recorded (iteration en l base iter s)" by (rule recorded_iteration [OF assms Suc.prems])
  with Suc.IH show ?case by (cases "iteration en l base iter s") simp_all
qed (simp add: recorded_ends assms(1))

lemma recorded_run: "loop_ok l \<Longrightarrow> takes_messages en \<Longrightarrow> recorded (snd (loop_run en l history failures))"
  unfolding loop_run_def by (rule recorded_loop) (simp_all add: recorded_def accepted_messages_def init_lstate_def)

subsection \<open>The durable conversation\<close>

lemma do_ops_conversation:
  "rcMsgs st \<noteq> None \<Longrightarrow>
     conversation (reSess re) (do_ops re xs st) =
       conversation (reSess re) st @ map durable_form (concat (map op_messages xs))"
proof (induction xs arbitrary: st)
  case (Cons x xs)
  from do_op_conversation [OF Cons.prems, of re x] Cons.IH [of "do_op re x st"]
  show ?case by (simp add: do_ops_def)
qed (simp add: do_ops_def)

lemma durable_ids [simp]:
  "use_ids (mContent (durable_form m)) = use_ids (mContent m)"
  "result_ids (mContent (durable_form m)) = result_ids (mContent m)"
  "is_assistant (durable_form m) = is_assistant m"
  "mContent (durable_form m) = [] \<longleftrightarrow> mContent m = []"
  by (simp_all add: durable_form_def is_assistant_def) (simp add: truncate_blocks_for_persistence_def)

lemma durable_paired: "paired_tail ms \<Longrightarrow> paired_tail (map durable_form ms)"
proof (induction ms rule: paired_tail.induct)
  case (2 a ms)
  then show ?case by (cases ms) (auto split: if_splits)
qed simp

lemma durable_uses [simp]: "all_uses (map durable_form ms) = all_uses ms"
  by (induction ms) (simp_all add: all_uses_def)

lemma all_uses_append: "all_uses (xs @ ys) = all_uses xs @ all_uses ys"
  by (simp add: all_uses_def)

lemma settled_durable: "settled su ms \<Longrightarrow> settled su (map durable_form ms)"
proof (induction su ms rule: settled_cases)
  case (Calls su m r ms)
  show ?case
    unfolding list.map
    by (rule settled_callsI) (simp_all only: durable_ids Calls.hyps Calls.IH not_False_eq_True)
qed (simp_all add: settled_plain settled_text)

text \<open>The frames a trace carries to the emitter, with whether their context lets them through.\<close>

definition emitted :: "run_op list \<Rightarrow> (frame \<times> bool) list" where
  "emitted xs = concat (map (\<lambda>x. case x of Emitted ctx f \<Rightarrow> [(f, ctx = None)] | _ \<Rightarrow> []) xs)"

lemma emitted_messages:
  "concat (map op_messages xs) = concat (map (\<lambda>(f, ok). if ok then frame_message f else []) (emitted xs))"
proof (induction xs)
  case (Cons x xs)
  have "op_messages x = concat (map (\<lambda>(f, ok). if ok then frame_message f else []) (emitted [x]))"
    by (cases x rule: op_messages.cases) (simp_all add: emitted_def)
  moreover have "emitted (x # xs) = emitted [x] @ emitted xs" by (simp add: emitted_def)
  ultimately show ?case using Cons.IH by simp
qed (simp add: emitted_def)

lemma paired_last: "paired_tail ms \<Longrightarrow> ms \<noteq> [] \<Longrightarrow> is_assistant (last ms) \<Longrightarrow> use_ids (mContent (last ms)) = []"
proof (induction ms rule: paired_tail.induct)
  case (2 a ms)
  show ?case
  proof (cases "use_ids (mContent a) = []")
    case True
    with 2(3) have "paired_tail ms" by simp
    with 2(1) [OF True] 2(5) True show ?thesis by (cases "ms = []") simp_all
  next
    case False
    with 2(3) obtain r ms' where ms: "ms = r # ms'" "\<not> is_assistant r" "paired_tail ms'"
      by (auto split: list.splits)
    with 2(5) have "ms' \<noteq> []" "is_assistant (last ms')" by (auto split: if_splits)
    with 2(2) [OF False ms(1,3)] ms show ?thesis by simp
  qed
qed simp

subsection \<open>Properties\<close>

text \<open>The durable conversation refines the run: over any trace of intents and frames that carries the
  frames of a run to the emitter, the session's stored conversation grows by exactly the messages
  the run produced, in order and in their durable form (over-long tool results cut), whether the
  run succeeded, failed or was cancelled at any moment.\<close>
theorem run_durably_recorded:
  assumes "loop_ok l" "takes_messages en" "loop_run en l history failures = (err, s)"
    and "rcMsgs st \<noteq> None" "emitted xs = sLog s"
  shows "conversation (reSess re) (do_ops re xs st) =
    conversation (reSess re) st @ map durable_form (sProduced s)"
proof -
  have "recorded s" using recorded_run [OF assms(1,2), of history failures] assms(3) by simp
  then have "concat (map op_messages xs) = sProduced s"
    unfolding emitted_messages assms(5) by (simp add: recorded_def accepted_messages_def)
  with do_ops_conversation [OF assms(4)] show ?thesis by simp
qed

text \<open>C10: a run that ends on a batch of calls it has not answered ended cleanly and is waiting for its
  client, and every interaction it opened carries exactly that batch. Once the batch is folded by a
  fold of its own, over a conversation that was recorded and is loaded whole, the history the fold
  returns is that conversation and one message that answers each call of the batch in order, and it
  is well formed, in its durable form as well: the repair before the next run changes nothing. The
  history of the run was settled and the call ids of the conversation are distinct and, in the
  run, not empty.\<close>
theorem suspended_batch_resumes:
  assumes "loop_ok l" "loop_run en l history failures = (err, s)" "settled {} history"
    and "sProduced s \<noteq> []" "is_assistant (last (sProduced s))" "use_ids (mContent (last (sProduced s))) \<noteq> []"
    and "distinct (all_uses (history @ sProduced s))" "'''' \<notin> set (all_uses (sProduced s))"
    and "fsMsgs st = Some ms" "snd (fold_history sess ms) = map durable_form (history @ sProduced s)"
    and "mget (msBatches (fsStore st)) rid = Some snap" "sbFoldedSeq snap = None"
    and "\<exists>i \<in> set (sPending s). sbToolCallIDs snap = batch_ids i"
    and "fold_batch fe now sess rid st fs = (FoldOk h, st', fs')"
    and "\<forall>f m. feCommitter fe = Some f \<longrightarrow> fst (f now rid m st) \<noteq> AlreadyFolded"
  shows "err = None \<and> sPending s \<noteq> [] \<and>
    (\<forall>i \<in> set (sPending s). batch_ids i = use_ids (mContent (last (sProduced s)))) \<and>
    (\<exists>calls rs. h = map durable_form (history @ sProduced s) @ [fold_message calls rs] \<and>
       map cID calls = use_ids (mContent (last (sProduced s))) \<and> length rs = length calls) \<and>
    ensure_pairing h = h \<and> ensure_pairing (map durable_form h) = map durable_form h"
proof -
  obtain pre tail where pt: "sProduced s = pre @ tail" "paired_tail pre" "tail = [] \<or> suspended err s tail"
    using run_done_all [OF assms(1,2)] unfolding run_done_def by blast
  have "tail \<noteq> []" using paired_last [OF pt(2)] pt(1) assms(4-6) by auto
  with pt(3) obtain a where a: "tail = [a]" "err = None" "sPending s \<noteq> []" "is_assistant a"
    "\<forall>i \<in> set (sPending s). map cID (iBatch i) = use_ids (mContent a)"
    unfolding suspended_def by blast
  have last: "last (sProduced s) = a" using pt(1) a(1) by simp
  have ne: "'''' \<notin> set (use_ids (mContent a))" using assms(8) a(4) by (simp add: all_uses_def pt(1) a(1))
  have b: "batch_ids i = use_ids (mContent a)" if "i \<in> set (sPending s)" for i
  proof -
    have m: "map cID (iBatch i) = use_ids (mContent a)" using a(5) that by simp
    moreover have "filter (\<lambda>x. x \<noteq> '''') (use_ids (mContent a)) = use_ids (mContent a)"
      using ne by (intro filter_True) blast
    ultimately show ?thesis using assms(6) last unfolding batch_ids_def Let_def m by simp
  qed
  obtain calls rs where h: "h = map durable_form (history @ sProduced s) @ [fold_message calls rs]"
    "map cID calls = use_ids (mContent a)" "length rs = length calls"
    using fold_answers_batch [OF assms(14,9,11,12,15)] assms(10,13) b by metis
  let ?r = "fold_message calls rs"
  have r: "result_ids (mContent ?r) = use_ids (mContent a)" "\<not> is_assistant ?r"
    using fold_message_ids [OF h(3)] h(2) by (simp_all add: is_assistant_def fold_message_def)
  have "mContent a \<noteq> []" using assms(6) last by auto
  then have "paired_tail [durable_form a, ?r]" using a(4) r assms(6) last by simp
  then have p: "paired_tail (map durable_form (sProduced s) @ [?r])"
    using paired_tail_append [OF durable_paired [OF pt(2)]] pt(1) a(1) by fastforce
  have ur: "all_uses (map durable_form (sProduced s) @ [?r]) = all_uses (sProduced s)" using r(2) by (simp add: all_uses_def [of "[?r]"] all_uses_append)
  have u: "all_uses (history @ sProduced s) = all_uses history @ all_uses (sProduced s)" by (simp add: all_uses_append)
  have "settled (set (all_uses (map durable_form history))) (map durable_form (sProduced s) @ [?r])"
    using assms(7,8) unfolding u durable_uses by (intro paired_tail_settled [OF p]) (simp_all only: ur, auto)
  then have "settled {} (map durable_form history @ map durable_form (sProduced s) @ [?r])"
    using settled_append [OF settled_durable [OF assms(3)]] by simp
  then have "settled {} h" by (simp add: h(1))
  then show ?thesis using ensure_pairing_settled settled_durable a(2,3) b h last by blast
qed

subsection \<open>A recorded run, and one that waits for its user\<close>

lemma emitted_log:
  "emitted (map (\<lambda>(f, ok). Emitted (if ok then None else Some (errorf [])) f) xs) = xs"
  by (induction xs) (auto simp: emitted_def)

definition sample_recorder :: recorder where
  "sample_recorder = \<lparr>rcRt = \<lparr>rtStore = new_mem_store, rtBus = new_mem_bus, rtBroker = new_mem_broker 4, rtRuns = []\<rparr>,
     rcMsgs = Some new_message_store, rcQueue = [], rcBatchID = None, rcCancelled = False, rcError = ''''\<rparr>"

definition sample_recorder_env :: recorder_env where
  "sample_recorder_env = \<lparr>reSess = ''s'', reRun = ''r'', reNow = 1, reFresh = ''i'', rePayload = (\<lambda>_. ''''), reScope = None\<rparr>"

lemma plain_loop_ok: "loop_ok plain_loop"
  by (simp add: loop_ok_def plain_loop_def)

lemma run_durably_recorded_witness:
  "\<exists>xs. conversation ''s'' (do_ops sample_recorder_env xs sample_recorder) = [text_message RoleAssistant ''done'']"
proof -
  obtain s where s: "loop_run sample_world plain_loop sample_question 0 = (None, s)"
    "sProduced s = [text_message RoleAssistant ''done'']" using plain_run by blast
  let ?xs = "map (\<lambda>(f, ok). Emitted (if ok then None else Some (errorf [])) f) (sLog s)"
  have "takes_messages sample_world" by (simp add: takes_messages_def sample_world_def sample_env_def)
  moreover have "rcMsgs sample_recorder \<noteq> None" by (simp add: sample_recorder_def)
  ultimately have "conversation (reSess sample_recorder_env) (do_ops sample_recorder_env ?xs sample_recorder) =
      conversation (reSess sample_recorder_env) sample_recorder @ map durable_form (sProduced s)"
    by (rule run_durably_recorded [OF plain_loop_ok _ s(1) _ emitted_log])
  moreover have "conversation ''s'' sample_recorder = []" "durable_form (text_message RoleAssistant ''done'') = text_message RoleAssistant ''done''"
    by code_simp+
  ultimately show ?thesis
    using s(2) by (intro exI [of _ ?xs]) (simp add: sample_recorder_env_def)
qed

definition asking_result :: model_result where
  "asking_result = \<lparr>mrAssistant = \<lparr>mRole = RoleAssistant, mContent = [tool_use_block ''q1'' ''ask_user'' None '''']\<rparr>,
     mrCalls = [\<lparr>cID = ''q1'', cName = ''ask_user'', cArgs = None, cArgsError = ''''\<rparr>],
     mrStop = StopToolUse, mrUsage = None\<rparr>"

definition answer_layer :: "model_result \<Rightarrow> model_layer" where
  "answer_layer r = \<lparr>mlName = ''answer'', mlWrap = (\<lambda>next c s. (LayerReturns (r, None), c, s))\<rparr>"

definition asking_loop :: agent_loop where
  "asking_loop = plain_loop\<lparr>lModelWrap := [answer_layer asking_result]\<rparr>"

lemma asking_loop_ok: "loop_ok asking_loop"
proof -
  have "result_ok asking_result"
    by (simp add: result_ok_def asking_result_def calls_match_def tool_uses_def)
  then have "model_layer_ok (mlWrap (answer_layer asking_result))"
    by unfold_locales (auto simp: answer_layer_def)
  then show ?thesis by (simp add: loop_ok_def asking_loop_def plain_loop_def)
qed


lemma asking_run:
  "\<exists>s. loop_run sample_world asking_loop sample_question 0 = (None, s) \<and> sProduced s = [mrAssistant asking_result]"
proof -
  have n: "eCtxErr sample_world k = None" "eEmit sample_world k d f = None" for k d f
    by (simp_all add: sample_world_def sample_env_def)
  have l: "lBefore asking_loop = []" "lAfterModel asking_loop = []" "lAfterRun asking_loop = []"
    "nat (cfgMaxIterations (lConfig asking_loop)) = Suc 0" "lTools asking_loop = new_registry"
    by (simp_all add: asking_loop_def plain_loop_def)
  have a: "attempt sample_world asking_loop s =
      ((asking_result, None), \<lparr>mcRequest = attempt_request asking_loop s, mcView = sView s\<rparr>, s)" for s
    by (simp add: attempt_def chain_model_def asking_loop_def answer_layer_def guard_model_def guard_wrap_def)
  have d: "drop_empty_blocks (mContent (mrAssistant asking_result)) = mContent (mrAssistant asking_result)"
    "mrCalls asking_result \<noteq> []" "mrStop asking_result = StopToolUse" "mrUsage asking_result = None"
    by (simp_all add: asking_result_def drop_empty_blocks_def empty_block_def)
  have g: "interaction_gate sample_world asking_loop k (mrCalls asking_result) =
      [\<lparr>iID = eFresh sample_world (k + 0), iKind = ''ask_user'', iToolCallID = ''q1'', iToolName = ''ask_user'',
        iInput = None, iBatch = mrCalls asking_result\<rparr>]" for k
    by (simp add: interaction_gate_def asking_result_def gate_kind_def l AskUserToolName_def reg_get_def new_registry_def)
  have su: "\<exists>t. suspend_batch sample_world asking_loop asking_result gs s = (None, t) \<and> sProduced t = sProduced s" for gs s
  proof -
    have "\<exists>t. emit_interrupts sample_world gs s = (None, t) \<and> sProduced t = sProduced s" for gs s
    proof (induction gs arbitrary: s)
      case (Cons g gs)
      from Cons.IH [of "s\<lparr>sLog := sLog s @ [(FInterrupt g, True)], sClock := Suc (sClock s)\<rparr>"]
      show ?case by (simp add: emit_def n)
    qed simp
    from this [of gs "s\<lparr>sPending := gs\<rparr>"] show ?thesis
      by (auto simp: suspend_batch_def succeed_run_def run_after_run_def l emit_step_finish_def Let_def)
  qed
  have h: "\<exists>t. handle_batch sample_world asking_loop asking_result s = Return None t \<and> sProduced t = sProduced s" for s
  proof -
    let ?gs = "interaction_gate sample_world asking_loop (sClock (tick s)) (mrCalls asking_result)"
    let ?s2 = "(tick s)\<lparr>sClock := Suc (sClock (tick s) + length ?gs)\<rparr>"
    obtain t where t: "suspend_batch sample_world asking_loop asking_result ?gs ?s2 = (None, t)"
      "sProduced t = sProduced ?s2" using su by blast
    have "?gs \<noteq> []" by (simp add: g)
    with t(1) have "handle_batch sample_world asking_loop asking_result s = Return None t"
      by (simp only: handle_batch_def ctx_pair n d Let_def returning_def prod.case option.case if_False if_True
          stop_reason.distinct simp_thms not_False_eq_True fst_conv snd_conv)
    with t(2) show ?thesis by simp
  qed
  have r: "asking_result\<lparr>mrAssistant := mrAssistant asking_result\<rparr> = asking_result" by simp
  have aa: "\<exists>t. after_attempt sample_world asking_loop asking_result s = Return None t \<and>
      sProduced t = sProduced s @ [mrAssistant asking_result]" for s
    using h [of "emit_ignored sample_world True (FAssistant (mrAssistant asking_result) None)
        (s\<lparr>sProduced := sProduced s @ [mrAssistant asking_result]\<rparr>)"]
    by (simp add: after_attempt_def d l Let_def add_usage_def)
  let ?s1 = "tick ((init_lstate 0)\<lparr>sIteration := 0\<rparr>)"
  let ?s3 = "?s1\<lparr>sView := working_view (ensure_pairing sample_question) ?s1\<rparr>"
  obtain t where t: "after_attempt sample_world asking_loop asking_result ?s3 = Return None t"
    "sProduced t = sProduced ?s3 @ [mrAssistant asking_result]" using aa by blast
  then have "loop_run sample_world asking_loop sample_question 0 = (None, t)"
    by (simp add: loop_run_def l iteration_def ctx_pair n a)
  with t(2) show ?thesis by (simp add: init_lstate_def)
qed

lemma asking_pending:
  assumes "loop_run sample_world asking_loop sample_question 0 = (None, s)" "sProduced s = [mrAssistant asking_result]"
  shows "\<exists>i \<in> set (sPending s). [''q1''] = batch_ids i"
proof -
  have q: "use_ids (mContent (mrAssistant asking_result)) = [''q1'']" "is_assistant (mrAssistant asking_result)" by code_simp+
  obtain pre tail where pt: "sProduced s = pre @ tail" "paired_tail pre" "tail = [] \<or> suspended None s tail"
    using run_done_all [OF asking_loop_ok assms(1)] unfolding run_done_def by blast
  have "tail \<noteq> []" using paired_last [OF pt(2)] pt(1) assms(2) q by auto
  with pt(3) obtain a where a: "tail = [a]" "sPending s \<noteq> []" "\<forall>i \<in> set (sPending s). map cID (iBatch i) = use_ids (mContent a)"
    unfolding suspended_def by blast
  have "a = mrAssistant asking_result" using pt(1) a(1) assms(2) by (cases pre) auto
  with a(2,3) q(1) obtain i where "i \<in> set (sPending s)" "map cID (iBatch i) = [''q1'']" by (cases "sPending s") auto
  then show ?thesis by (auto simp: batch_ids_def intro!: bexI [of _ i])
qed

text \<open>The question and the unanswered call as they are stored, and the user's refusal.\<close>

definition asked_message :: "role \<Rightarrow> message \<Rightarrow> stored_message" where
  "asked_message r m = \<lparr>smID = 0, smSessionID = ''s'', smRunID = ''r'', smSeq = 0, smRole = r,
     smContent = mContent m, smCreatedAt = 0, smUsage = None, smMetadata = ''''\<rparr>"

definition asked_messages :: message_store where
  "asked_messages = snd (append_message 2 (asked_message RoleAssistant (mrAssistant asking_result))
     (snd (append_message 1 (asked_message RoleUser (text_message RoleUser ''hi'')) new_message_store)))"

definition asked_snapshot :: suspended_batch where
  "asked_snapshot = sample_snapshot\<lparr>sbToolCallIDs := [''q1'']\<rparr>"

definition asked_stores :: fold_stores where
  "asked_stores = \<lparr>fsStore = new_mem_store\<lparr>msApprovals := [(''i'', (sample_interaction ''i'' ''q1'')\<lparr>inStatus := InteractionRejected, inSeq := 1\<rparr>)],
       msBatches := [(''r'', asked_snapshot)]\<rparr>, fsMsgs = Some asked_messages\<rparr>"

lemma asked_history:
  "snd (fold_history ''s'' asked_messages) = map durable_form (sample_question @ [mrAssistant asking_result])"
  by code_simp

lemma asked_fold: "\<exists>h st' fs'. fold_batch sample_fold_env 9 ''s'' ''r'' asked_stores sample_fold_state = (FoldOk h, st', fs')"
proof -
  have "case fst (fold_batch sample_fold_env 9 ''s'' ''r'' asked_stores sample_fold_state) of FoldOk h \<Rightarrow> True | _ \<Rightarrow> False"
    by code_simp
  then show ?thesis by (cases "fold_batch sample_fold_env 9 ''s'' ''r'' asked_stores sample_fold_state") (auto split: fold_out.splits)
qed

lemma suspended_batch_resumes_witness:
  "\<exists>h st' fs'. fold_batch sample_fold_env 9 ''s'' ''r'' asked_stores sample_fold_state = (FoldOk h, st', fs') \<and>
     ensure_pairing h = h \<and> length h = 3"
proof -
  obtain s where s: "loop_run sample_world asking_loop sample_question 0 = (None, s)"
    "sProduced s = [mrAssistant asking_result]" using asking_run by blast
  have ids: "use_ids (mContent (mrAssistant asking_result)) = [''q1'']" "is_assistant (mrAssistant asking_result)" by code_simp+
  have u: "distinct (all_uses (sample_question @ sProduced s))" "'''' \<notin> set (all_uses (sProduced s))"
    unfolding s(2) by code_simp+
  have se: "settled {} sample_question"
    by (simp add: sample_question_def text_message_def settled_plain is_assistant_def)
  obtain h st' fs' where f: "fold_batch sample_fold_env 9 ''s'' ''r'' asked_stores sample_fold_state = (FoldOk h, st', fs')"
    using asked_fold by blast
  have p: "sProduced s \<noteq> []" "is_assistant (last (sProduced s))" "use_ids (mContent (last (sProduced s))) \<noteq> []"
    "fsMsgs asked_stores = Some asked_messages" "snd (fold_history ''s'' asked_messages) = map durable_form (sample_question @ sProduced s)"
    "mget (msBatches (fsStore asked_stores)) ''r'' = Some asked_snapshot" "sbFoldedSeq asked_snapshot = None"
    "\<exists>i \<in> set (sPending s). sbToolCallIDs asked_snapshot = batch_ids i"
    "\<forall>f m. feCommitter sample_fold_env = Some f \<longrightarrow> fst (f 9 ''r'' m asked_stores) \<noteq> AlreadyFolded"
    using s(2) ids asked_history asking_pending [OF s]
    by (simp_all add: asked_stores_def mget_def asked_snapshot_def sample_snapshot_def sample_fold_env_def)
  from suspended_batch_resumes [OF asking_loop_ok s(1) se p(1-3) u p(4-8) f p(9)] s(2)
  have "ensure_pairing h = h" "length h = 3" by (auto simp: sample_question_def)
  with f show ?thesis by blast
qed

end
