(* ===== verification/Registry.thy ===== *)
theory Registry
  imports RunRecord
begin

section \<open>The run registry\<close>

text \<open>
  \<open>internal/session/registry.go\<close>: a run from its submission to its settlement. The state is the
  runtime and the message store with the map of workers; a worker is known by a token that no
  other worker has (its \<open>cancel\<close> function and \<open>done\<close> channel), and \<open>rgCalled\<close> lists the cancel
  functions that were called. \<open>execute\<close> is the body of the worker's goroutine: what its loop
  did arrives as the trace of intents and frames (\<open>run_op\<close>) with how the loop came back, and the
  completion hooks it notifies are collected in \<open>rgNotified\<close>. The step locks only serialise
  operations that are atomic here. Every store in this model is the in-memory one, whose
  appends do not fail.
\<close>

subsection \<open>State\<close>

record run_worker =
  wkRunID :: id
  wkToken :: nat

record run_registry =
  rgRt :: runtime
  rgMsgs :: "message_store option"
  rgWorkers :: "(id, run_worker) gomap"
  rgNext :: nat
  rgCalled :: "nat list"
  rgHooks :: nat
  rgNotified :: "(nat \<times> id \<times> run \<times> run_status) list"

record run_work =
  wkHistory :: "message list"
  wkUserMessage :: "message option"
  wkTeamID :: id
  wkModel :: string

definition new_run_registry :: "runtime \<Rightarrow> run_registry" where
  "new_run_registry rt = \<lparr>rgRt = rt, rgMsgs = None, rgWorkers = [], rgNext = 0, rgCalled = [],
     rgHooks = 0, rgNotified = []\<rparr>"

definition with_message_store :: "message_store \<Rightarrow> run_registry \<Rightarrow> run_registry" where
  "with_message_store ms rg = rg\<lparr>rgMsgs := Some ms\<rparr>"

definition with_run_done_hook :: "run_registry \<Rightarrow> run_registry" where
  "with_run_done_hook rg = rg\<lparr>rgHooks := rgHooks rg + 1\<rparr>"

text \<open>\<open>marshalPayload\<close> of a nil payload and of a string.\<close>

definition marshal_payload :: "json option \<Rightarrow> string" where
  "marshal_payload p = (case p of None \<Rightarrow> ''null'' | Some v \<Rightarrow> marshal v)"

definition log_event :: "time \<Rightarrow> id \<Rightarrow> id \<Rightarrow> event_kind \<Rightarrow> json option \<Rightarrow> runtime \<Rightarrow> runtime" where
  "log_event now sess rid k p rt = rt_append_event now
     \<lparr>evRunID = rid, evSessionID = sess, evOffset = 0, evKind = k, evPayload = marshal_payload p, evCreatedAt = 0\<rparr> rt"

definition rg_event :: "time \<Rightarrow> id \<Rightarrow> id \<Rightarrow> event_kind \<Rightarrow> json option \<Rightarrow> run_registry \<Rightarrow> run_registry" where
  "rg_event now sess rid k p rg = rg\<lparr>rgRt := log_event now sess rid k p (rgRt rg)\<rparr>"

definition message_text :: "message option \<Rightarrow> string" where
  "message_text m = (case m of None \<Rightarrow> ''''
     | Some msg \<Rightarrow> concat (map bText (filter (\<lambda>b. bType b = BlockText) (mContent msg))))"

subsection \<open>Submission\<close>

definition submit :: "id \<Rightarrow> time \<Rightarrow> id \<Rightarrow> run_work \<Rightarrow> run_registry \<Rightarrow> (runtime_error + run \<times> run_worker) \<times> run_registry" where
  "submit fresh now sess work rg =
     (case start_run fresh now sess (rgRt rg) of
        (Inl e, rt1) \<Rightarrow> (Inl e, rg\<lparr>rgRt := rt1\<rparr>)
      | (Inr r, rt1) \<Rightarrow>
          let stamp = (wkTeamID work \<noteq> '''' \<or> wkModel work \<noteq> '''');
              rt2 = (if stamp then rt1\<lparr>rtStore := set_run_attribution (runID r) (wkTeamID work) (wkModel work) (rtStore rt1)\<rparr>
                     else rt1);
              r2 = (if stamp then r\<lparr>runTeamID := wkTeamID work, runModel := wkModel work\<rparr> else r);
              w = \<lparr>wkRunID = runID r, wkToken = rgNext rg\<rparr>;
              rt3 = log_event now sess (runID r) KindRunning None (register_cancel sess (wkToken w) rt2);
              text = message_text (wkUserMessage work);
              rt4 = (if text \<noteq> '''' then log_event now sess (runID r) KindUser (Some (JStr text)) rt3 else rt3)
          in (Inr (r2, w), rg\<lparr>rgRt := rt4, rgWorkers := mput sess w (rgWorkers rg), rgNext := rgNext rg + 1\<rparr>))"

subsection \<open>Settlement\<close>

definition void_one :: "time \<Rightarrow> SessionStore.interaction \<Rightarrow> mem_store \<Rightarrow> mem_store" where
  "void_one now ia m = (case decide_approval (inID ia) False '''' now m of Inl _ \<Rightarrow> m | Inr (_, m') \<Rightarrow> m')"

definition void_pending_interactions :: "time \<Rightarrow> id \<Rightarrow> mem_store \<Rightarrow> mem_store" where
  "void_pending_interactions now rid m = fold (void_one now) (pending_approvals_for_run rid m) m"

definition void_pending :: "time \<Rightarrow> id \<Rightarrow> run_registry \<Rightarrow> run_registry" where
  "void_pending now rid rg = rg\<lparr>rgRt := (rgRt rg)\<lparr>rtStore := void_pending_interactions now rid (rtStore (rgRt rg))\<rparr>\<rparr>"

definition error_metadata :: "string \<Rightarrow> string" where
  "error_metadata t = marshal (JObj [(''error'', JStr t)])"

definition attach_run_error :: "id \<Rightarrow> id \<Rightarrow> string \<Rightarrow> run_registry \<Rightarrow> run_registry" where
  "attach_run_error sess rid t rg =
     (case rgMsgs rg of
        None \<Rightarrow> rg
      | Some ms \<Rightarrow>
          (case last_assistant_message sess rid ms of
             None \<Rightarrow> rg
           | Some m \<Rightarrow> rg\<lparr>rgMsgs := Some (set_message_metadata (smID m) (error_metadata t) ms)\<rparr>))"

definition settle_run :: "time \<Rightarrow> id \<Rightarrow> id \<Rightarrow> run_status \<Rightarrow> run_registry \<Rightarrow> run_registry" where
  "settle_run now sess rid st rg = rg\<lparr>rgRt := snd (complete_run_for_run now sess rid st (rgRt rg))\<rparr>"

definition notify_hooks :: "id \<Rightarrow> run \<Rightarrow> run_status \<Rightarrow> run_registry \<Rightarrow> run_registry" where
  "notify_hooks sess r st rg = rg\<lparr>rgNotified := rgNotified rg @ map (\<lambda>h. (h, sess, r, st)) [0..<rgHooks rg]\<rparr>"

text \<open>How the loop came back: its error with whether the run's context was cancelled, or a panic.\<close>

datatype run_end = LoopReturned "lerr option" bool | LoopPanicked string

definition end_status :: "lerr option \<Rightarrow> bool \<Rightarrow> run_status" where
  "end_status err canceled =
     (case err of None \<Rightarrow> RunDone | Some _ \<Rightarrow> if canceled then RunCancelled else RunFailed)"

definition settle_return ::
  "time \<Rightarrow> id \<Rightarrow> run \<Rightarrow> lerr option \<Rightarrow> bool \<Rightarrow> bool \<Rightarrow> string \<Rightarrow> run_registry \<Rightarrow> run_registry" where
  "settle_return now sess r err canceled landed errText rg =
     (let rid = runID r; st = end_status err canceled;
          rg1 = (if err \<noteq> None then void_pending now rid rg else rg);
          rg2 = (if st = RunCancelled \<and> \<not> landed then rg_event now sess rid KindCancelled None rg1 else rg1);
          rg3 = (if st = RunFailed \<and> errText \<noteq> '''' then attach_run_error sess rid errText rg2 else rg2)
      in notify_hooks sess r st (settle_run now sess rid st rg3))"

definition settle_panic :: "time \<Rightarrow> id \<Rightarrow> run \<Rightarrow> string \<Rightarrow> run_registry \<Rightarrow> run_registry" where
  "settle_panic now sess r p rg =
     (let rid = runID r; t = ''internal error: '' @ p in
      settle_run now sess rid RunFailed
        (attach_run_error sess rid t
          (rg_event now sess rid KindError (Some (JStr t)) (void_pending now rid rg))))"

definition drop_worker :: "id \<Rightarrow> run_worker \<Rightarrow> run_registry \<Rightarrow> run_registry" where
  "drop_worker sess w rg =
     (if map_option wkToken (mget (rgWorkers rg) sess) = Some (wkToken w)
      then rg\<lparr>rgWorkers := mdel sess (rgWorkers rg)\<rparr> else rg)"

subsection \<open>The worker\<close>

text \<open>The emitter and the intent middleware of one run, over the registry's stores.\<close>

definition worker_env :: "recorder_env \<Rightarrow> id \<Rightarrow> run \<Rightarrow> recorder_env" where
  "worker_env re sess r = re\<lparr>reSess := sess, reRun := runID r\<rparr>"

definition worker_recorder :: "run_registry \<Rightarrow> recorder" where
  "worker_recorder rg = \<lparr>rcRt = rgRt rg, rcMsgs = rgMsgs rg, rcQueue = [], rcBatchID = None,
     rcCancelled = False, rcError = ''''\<rparr>"

definition persist_user :: "recorder_env \<Rightarrow> message option \<Rightarrow> recorder \<Rightarrow> recorder" where
  "persist_user re um st =
     (case um of None \<Rightarrow> st | Some m \<Rightarrow> store_message re (stored_form re m None None) st)"

definition execute :: "recorder_env \<Rightarrow> id \<Rightarrow> run \<Rightarrow> run_worker \<Rightarrow> run_work \<Rightarrow> run_op list \<Rightarrow> run_end \<Rightarrow> run_registry \<Rightarrow> run_registry" where
  "execute re sess r w work xs e rg =
     (let we = worker_env re sess r;
          st = do_ops we xs (persist_user we (wkUserMessage work) (worker_recorder rg));
          rg1 = rg\<lparr>rgRt := rcRt st, rgMsgs := rcMsgs st\<rparr>
      in drop_worker sess w
           (case e of
              LoopReturned err canceled \<Rightarrow> settle_return (reNow re) sess r err canceled (rcCancelled st) (rcError st) rg1
            | LoopPanicked p \<Rightarrow> settle_panic (reNow re) sess r p rg1))"

subsection \<open>Cancelling and asking\<close>

definition cancel :: "id \<Rightarrow> run_registry \<Rightarrow> bool \<times> run_registry" where
  "cancel sess rg =
     (case mget (rgWorkers rg) sess of
        None \<Rightarrow> (False, rg)
      | Some w \<Rightarrow> (True, rg\<lparr>rgCalled := rgCalled rg @ [wkToken w]\<rparr>))"

definition active_worker :: "id \<Rightarrow> run_registry \<Rightarrow> bool" where
  "active_worker sess rg = (mget (rgWorkers rg) sess \<noteq> None)"

definition batch_fold_state :: "id \<Rightarrow> mem_store \<Rightarrow> bool \<times> nat" where
  "batch_fold_state rid m =
     ((case suspended_batch_for_run rid m of Inl _ \<Rightarrow> False | Inr b \<Rightarrow> sbFoldedSeq b \<noteq> None),
      length (pending_approvals_for_run rid m))"

text \<open>\<open>slices.SortFunc\<close> on the run numbers of a session, which are distinct.\<close>

fun newest_unfolded :: "(id, suspended_batch) gomap \<Rightarrow> mem_store \<Rightarrow> run list \<Rightarrow> id" where
  "newest_unfolded m st [] = ''''"
| "newest_unfolded m st (r # rs) =
     (case mget m (runID r) of
        None \<Rightarrow> newest_unfolded m st rs
      | Some b \<Rightarrow>
          if sbFoldedSeq b \<noteq> None then newest_unfolded m st rs
          else if pending_approvals_for_run (runID r) st \<noteq> [] then newest_unfolded m st rs
          else runID r)"

definition decided_but_unfolded_run :: "id \<Rightarrow> mem_store \<Rightarrow> id" where
  "decided_but_unfolded_run sess m =
     newest_unfolded (fold (\<lambda>b bm. mput (sbRunID b) b bm) (suspended_batches_for_session sess m) [])
       m (sort_key (\<lambda>r. - int (runSeq r)) (runs_for_session sess m))"

subsection \<open>What a run leaves alone\<close>

text \<open>
  \<open>steady\<close>: no run is created, settled or unlocked and no session is touched, and the interactions stay
  under their own ids. Everything a worker does before it settles its run is steady.
\<close>

definition run_view :: "runtime \<Rightarrow> id \<Rightarrow> run_status option" where
  "run_view rt i = map_option runStatus (mget (msRuns (rtStore rt)) i)"

definition lock_view :: "runtime \<Rightarrow> id \<Rightarrow> run option" where
  "lock_view rt s = map_option rtRun (mget (rtRuns rt) s)"

definition steady :: "runtime \<Rightarrow> runtime \<Rightarrow> bool" where
  "steady rt rt' =
     (run_view rt' = run_view rt \<and> lock_view rt' = lock_view rt \<and>
      msBySess (rtStore rt') = msBySess (rtStore rt) \<and> msSessions (rtStore rt') = msSessions (rtStore rt) \<and>
      (keyed inID (msApprovals (rtStore rt)) \<longrightarrow> keyed inID (msApprovals (rtStore rt'))))"

lemma steady_refl [simp]: "steady rt rt"
  by (simp add: steady_def)

lemma steady_trans: "steady a b \<Longrightarrow> steady b c \<Longrightarrow> steady a c"
  by (simp add: steady_def)

lemma steady_event [simp]: "steady rt (rt_append_event now e rt)"
  by (auto simp: steady_def rt_append_event_def run_view_def lock_view_def append_event_def Let_def fun_eq_iff
      split: option.split)

lemma steady_upd:
  assumes "msRuns (f (rtStore rt)) = msRuns (rtStore rt)" "msBySess (f (rtStore rt)) = msBySess (rtStore rt)"
    "msSessions (f (rtStore rt)) = msSessions (rtStore rt)"
    "keyed inID (msApprovals (rtStore rt)) \<Longrightarrow> keyed inID (msApprovals (f (rtStore rt)))"
  shows "steady rt (rt\<lparr>rtStore := f (rtStore rt)\<rparr>)"
  using assms by (simp add: steady_def run_view_def lock_view_def fun_eq_iff)

lemma steady_modify_run:
  "(\<And>r. runStatus (f r) = runStatus r) \<Longrightarrow> steady rt (rt\<lparr>rtStore := modify_run i f (rtStore rt)\<rparr>)"
  by (auto simp: steady_def run_view_def lock_view_def modify_run_def fun_eq_iff split: option.split)

lemma decide_keyed:
  "decide_approval i approve res now m = Inr (a, m') \<Longrightarrow> keyed inID (msApprovals m) \<Longrightarrow>
     keyed inID (msApprovals m') \<and> msRuns m' = msRuns m \<and> msBySess m' = msBySess m \<and>
     msSessions m' = msSessions m \<and> msEvents m' = msEvents m \<and> msBatches m' = msBatches m"
  by (auto simp: decide_approval_def Let_def keyed_get split: option.splits if_splits intro!: keyed_mput)

lemma store_ops_frame [simp]:
  "msRuns (snd (append_run_step now rid k c sh m)) = msRuns m"
  "msBySess (snd (append_run_step now rid k c sh m)) = msBySess m"
  "msSessions (snd (append_run_step now rid k c sh m)) = msSessions m"
  "msApprovals (snd (append_run_step now rid k c sh m)) = msApprovals m"
  "msEvents (snd (append_run_step now rid k c sh m)) = msEvents m"
  "msRuns (append_usage_record now u m) = msRuns m"
  "msBySess (append_usage_record now u m) = msBySess m"
  "msSessions (append_usage_record now u m) = msSessions m"
  "msApprovals (append_usage_record now u m) = msApprovals m"
  "msEvents (append_usage_record now u m) = msEvents m"
  "msRuns (snd (create_interaction_batch fresh now b a m)) = msRuns m"
  "msBySess (snd (create_interaction_batch fresh now b a m)) = msBySess m"
  "msSessions (snd (create_interaction_batch fresh now b a m)) = msSessions m"
  "msEvents (snd (create_interaction_batch fresh now b a m)) = msEvents m"
  "msEvents (set_run_usage i v m) = msEvents m"
  by (simp_all add: append_run_step_def append_usage_record_def create_interaction_batch_def create_approval_def
      set_run_usage_def modify_run_def Let_def split: option.split)

lemma keyed_create_interaction:
  "keyed inID (msApprovals m) \<Longrightarrow> keyed inID (msApprovals (snd (create_interaction_batch fresh now b a m)))"
  by (auto simp: create_interaction_batch_def create_approval_def Let_def split: option.split intro!: keyed_mput)

text \<open>What an operation of the recorder may do to the runtime: change its store, and log events.\<close>

lemma steady_store_op:
  "steady (rcRt st) (rcRt (upd_store (append_usage_record now u) st))"
  "steady (rcRt st) (rcRt (upd_store (\<lambda>m. snd (create_interaction_batch fresh now b a m)) st))"
  "steady (rcRt st) (rcRt (upd_store (\<lambda>m. set_run_usage i (Some (sum_usage i m)) m) st))"
  "steady (rcRt st) (rcRt (snd (append_step re k c sh st)))"
proof -
  show "steady (rcRt st) (rcRt (upd_store (\<lambda>m. set_run_usage i (Some (sum_usage i m)) m) st))"
    by (simp add: upd_store_def set_run_usage_def steady_modify_run)
  show "steady (rcRt st) (rcRt (upd_store (append_usage_record now u) st))"
    unfolding upd_store_def by (simp, rule steady_upd) simp_all
  show "steady (rcRt st) (rcRt (upd_store (\<lambda>m. snd (create_interaction_batch fresh now b a m)) st))"
    unfolding upd_store_def
    by (simp, rule steady_upd [of "\<lambda>m. snd (create_interaction_batch fresh now b a m)"])
      (simp_all add: keyed_create_interaction)
  show "steady (rcRt st) (rcRt (snd (append_step re k c sh st)))"
    unfolding append_step_def split_beta upd_store_def Let_def
    by (simp, rule steady_upd [of "\<lambda>m. snd (append_run_step (reNow re) (reRun re) k c sh m)"]) simp_all
qed

lemma steady_queued: "steady (rcRt st) (rcRt (upd_store (append_usage_record now u) (st\<lparr>rcQueue := q\<rparr>)))"
  using steady_store_op(1) [of "st\<lparr>rcQueue := q\<rparr>" now u] by simp

lemma steady_persist: "steady (rcRt st) (rcRt (persist_message re m u st))"
  by (cases u) (simp_all add: persist_message_def Let_def split_beta reset_batch_def steady_queued
      split: option.split)

lemma rt_store_message [simp]: "rcRt (store_message re m st) = rcRt st"
  by (simp add: store_message_def split: option.split)

lemma steady_frames:
  "steady (rcRt st) (rcRt (record_overflow re u st))"
  "steady (rcRt st) (rcRt (persist_interaction re ia st))"
  "steady (rcRt st) (rcRt (record_usage re st))"
  "steady (rcRt st) (rcRt (rg_append re f st))"
  "steady (rcRt st) (rcRt (before_model_intent re st))"
  "steady (rcRt st) (rcRt (tool_intent re c st))"
proof -
  show "steady (rcRt st) (rcRt (persist_interaction re ia st))"
    unfolding persist_interaction_def by (rule steady_store_op)
  show "steady (rcRt st) (rcRt (rg_append re f st))" by (simp add: rg_append_def)
  show "steady (rcRt st) (rcRt (record_usage re st))"
    unfolding record_usage_def persist_run_usage_def Let_def
    by (rule steady_trans [OF _ steady_store_op(3)]) (simp add: steady_store_op split: option.split)
  show "steady (rcRt st) (rcRt (record_overflow re u st))"
    unfolding record_overflow_def Let_def split_beta
    by (rule steady_trans [OF _ steady_store_op(4)]) (simp add: steady_queued split: option.split)
  show "steady (rcRt st) (rcRt (before_model_intent re st))"
    by (simp add: before_model_intent_def split_beta Let_def steady_store_op)
  show "steady (rcRt st) (rcRt (tool_intent re c st))"
    by (simp add: tool_intent_def split_beta Let_def steady_store_op split: option.split)
qed

lemma steady_emit: "steady (rcRt st) (rcRt (snd (emitter_emit re ctx f st)))"
  unfolding emitter_emit_def
  by (cases f) (auto simp: steady_persist steady_frames split: option.split
      intro: steady_trans [OF steady_frames(2) steady_frames(4)] steady_trans [OF steady_frames(3) steady_frames(4)]
        steady_frames(4) [of "st\<lparr>rcError := _\<rparr>", simplified])

lemma steady_do_op: "steady (rcRt st) (rcRt (do_op re x st))"
  unfolding do_op_def by (cases x) (simp_all add: steady_frames steady_emit)

lemma steady_do_ops: "steady (rcRt st) (rcRt (do_ops re xs st))"
  unfolding do_ops_def
  by (induction xs arbitrary: st) (auto intro: steady_trans [OF steady_do_op])

subsection \<open>The durable log of a run\<close>

definition log_kinds :: "id \<Rightarrow> runtime \<Rightarrow> event_kind list" where
  "log_kinds rid rt = map evKind (run_log rid rt)"

lemma log_kinds_event [simp]:
  "log_kinds rid (rt_append_event now e rt) =
     log_kinds rid rt @ (if evRunID e = rid \<and> \<not> is_content_kind (evKind e) then [evKind e] else [])"
  by (simp add: log_kinds_def run_log_def rt_append_event_def append_event_def Let_def split: option.split)

lemma log_kinds_cong: "msEvents (rtStore rt) = msEvents (rtStore rt') \<Longrightarrow> log_kinds rid rt = log_kinds rid rt'"
  by (simp add: log_kinds_def run_log_def)

text \<open>The lifecycle event an operation logs: only a frame that ends the run is one.\<close>

fun op_kinds :: "run_op \<Rightarrow> event_kind list" where
  "op_kinds (Emitted None f) = (if ends_run f then [frame_kind f] else [])"
| "op_kinds x = []"

lemma log_kinds_store_op:
  "log_kinds rid (rcRt (upd_store (append_usage_record now u) st)) = log_kinds rid (rcRt st)"
  "log_kinds rid (rcRt (upd_store (\<lambda>m. snd (create_interaction_batch fresh now b a m)) st)) = log_kinds rid (rcRt st)"
  "log_kinds rid (rcRt (upd_store (\<lambda>m. set_run_usage i (Some (sum_usage i m)) m) st)) = log_kinds rid (rcRt st)"
  "log_kinds rid (rcRt (snd (append_step re k c sh st))) = log_kinds rid (rcRt st)"
  by (rule log_kinds_cong, simp add: append_step_def split_beta Let_def)+

lemma log_kinds_persist [simp]: "log_kinds rid (rcRt (persist_message re m u st)) = log_kinds rid (rcRt st)"
  by (cases u) (simp_all add: persist_message_def Let_def split_beta reset_batch_def log_kinds_store_op
      split: option.split)

lemma log_kinds_frames [simp]:
  "log_kinds rid (rcRt (record_overflow re u st)) = log_kinds rid (rcRt st)"
  "log_kinds rid (rcRt (persist_interaction re ia st)) = log_kinds rid (rcRt st)"
  "log_kinds rid (rcRt (record_usage re st)) = log_kinds rid (rcRt st)"
  "log_kinds rid (rcRt (before_model_intent re st)) = log_kinds rid (rcRt st)"
  "log_kinds rid (rcRt (tool_intent re c st)) = log_kinds rid (rcRt st)"
  "log_kinds rid (rcRt (rg_append re f st)) =
     log_kinds rid (rcRt st) @ (if reRun re = rid \<and> \<not> is_content_kind (frame_kind f) then [frame_kind f] else [])"
  by (simp_all add: record_overflow_def persist_interaction_def record_usage_def persist_run_usage_def
      before_model_intent_def tool_intent_def rg_append_def split_beta Let_def log_kinds_store_op
      split: option.split)

lemma log_kinds_do_op:
  "log_kinds (reRun re) (rcRt (do_op re x st)) = log_kinds (reRun re) (rcRt st) @ op_kinds x"
proof (cases x)
  case (Emitted ctx f)
  then show ?thesis
    by (cases ctx; cases f) (simp_all add: do_op_def emitter_emit_def ends_run_def is_content_kind_def)
qed (simp_all add: do_op_def)

lemma log_kinds_do_ops:
  "log_kinds (reRun re) (rcRt (do_ops re xs st)) = log_kinds (reRun re) (rcRt st) @ concat (map op_kinds xs)"
  unfolding do_ops_def by (induction xs arbitrary: st) (simp_all add: log_kinds_do_op)

lemma cancelled_upd [simp]:
  "rcCancelled (upd_store f st) = rcCancelled st" "rcCancelled (queue_push i st) = rcCancelled st"
  "rcCancelled (store_message re m st) = rcCancelled st" "rcCancelled (rg_append re g st) = rcCancelled st"
  "rcCancelled (snd (append_step re k c sh st)) = rcCancelled st"
  by (simp_all add: upd_store_def queue_push_def store_message_def rg_append_def append_step_def split_beta Let_def
      split: option.split)

lemma cancelled_do_op: "rcCancelled (do_op re x st) \<longleftrightarrow> rcCancelled st \<or> x = Emitted None FCancelled"
proof (cases x)
  case (Emitted ctx f)
  then show ?thesis
    by (cases ctx; cases f) (simp_all add: do_op_def emitter_emit_def persist_message_def record_overflow_def
        persist_interaction_def record_usage_def persist_run_usage_def reset_batch_def split_beta Let_def
        split: option.split)
qed (simp_all add: do_op_def before_model_intent_def tool_intent_def split_beta Let_def split: option.split)

lemma cancelled_do_ops: "rcCancelled (do_ops re xs st) \<longleftrightarrow> rcCancelled st \<or> Emitted None FCancelled \<in> set xs"
  unfolding do_ops_def by (induction xs arbitrary: st) (auto simp: cancelled_do_op)

subsection \<open>Voiding the interactions of a run that ended abnormally\<close>

definition voided :: "time \<Rightarrow> SessionStore.interaction \<Rightarrow> SessionStore.interaction" where
  "voided now a = a\<lparr>inDecidedAt := Some now, inResult := '''', inStatus := InteractionRejected\<rparr>"

lemma void_one_pending:
  "mget (msApprovals m) (inID ia) = Some ia \<Longrightarrow> inStatus ia = InteractionPending \<Longrightarrow>
     void_one now ia m = m\<lparr>msApprovals := mput (inID ia) (voided now ia) (msApprovals m)\<rparr>"
  by (simp add: void_one_def decide_approval_def voided_def Let_def)

lemma void_fold:
  assumes "distinct (map inID ias)"
    "\<forall>ia \<in> set ias. mget (msApprovals m) (inID ia) = Some ia \<and> inStatus ia = InteractionPending"
  shows "\<exists>aps. fold (void_one now) ias m = m\<lparr>msApprovals := aps\<rparr> \<and>
    (keyed inID (msApprovals m) \<longrightarrow> keyed inID aps) \<and>
    (\<forall>i. mget aps i = (if i \<in> inID ` set ias then map_option (voided now) (mget (msApprovals m) i)
                        else mget (msApprovals m) i))"
  using assms
proof (induction ias arbitrary: m)
  case Nil
  then show ?case by (intro exI [of _ "msApprovals m"]) simp
next
  case (Cons ia ias)
  let ?m = "m\<lparr>msApprovals := mput (inID ia) (voided now ia) (msApprovals m)\<rparr>"
  have v: "void_one now ia m = ?m" using Cons.prems(2) by (simp add: void_one_pending)
  have "inID b \<noteq> inID ia" if "b \<in> set ias" for b
    using Cons.prems(1) imageI [OF that, of inID] by (metis distinct.simps(2) list.map(2) list.set_map)
  then have "\<forall>b \<in> set ias. mget (msApprovals ?m) (inID b) = Some b \<and> inStatus b = InteractionPending"
    using Cons.prems(2) by simp
  with Cons.IH [of ?m] Cons.prems(1) obtain aps where a: "fold (void_one now) ias ?m = ?m\<lparr>msApprovals := aps\<rparr>"
    "keyed inID (msApprovals ?m) \<longrightarrow> keyed inID aps"
    "\<forall>i. mget aps i = (if i \<in> inID ` set ias then map_option (voided now) (mget (msApprovals ?m) i)
                        else mget (msApprovals ?m) i)" by auto
  have k: "keyed inID (msApprovals m) \<Longrightarrow> keyed inID (msApprovals ?m)"
    by (simp add: voided_def)
  have n: "inID ia \<notin> inID ` set ias" using Cons.prems(1) by simp
  show ?case
    using a k n v Cons.prems(2) by (intro exI [of _ aps]) auto
qed

lemma pending_keyed:
  assumes "keyed inID (msApprovals m)"
  shows "distinct (map inID (pending_approvals_for_run rid m))"
    "set (pending_approvals_for_run rid m) =
       {a. mget (msApprovals m) (inID a) = Some a \<and> inRunID a = rid \<and> inStatus a = InteractionPending}"
proof -
  have "distinct (map inID (mvals (msApprovals m)))" by (rule keyed_distinct [OF assms])
  then show "distinct (map inID (pending_approvals_for_run rid m))"
    unfolding pending_approvals_for_run_def sort_interactions_def
    by (simp add: distinct_map inj_on_def)
  show "set (pending_approvals_for_run rid m) =
       {a. mget (msApprovals m) (inID a) = Some a \<and> inRunID a = rid \<and> inStatus a = InteractionPending}"
    using keyed_get [OF assms] by (auto simp: pending_approvals_for_run_def sort_interactions_def)
qed

lemma void_spec:
  assumes "keyed inID (msApprovals m)"
  shows "\<exists>aps. void_pending_interactions now rid m = m\<lparr>msApprovals := aps\<rparr> \<and> keyed inID aps \<and>
    (\<forall>i. mget aps i = map_option (\<lambda>a. if inRunID a = rid \<and> inStatus a = InteractionPending then voided now a else a)
                        (mget (msApprovals m) i))"
proof -
  let ?ias = "pending_approvals_for_run rid m"
  have e: "void_pending_interactions now rid m = fold (void_one now) ?ias m"
    by (simp add: void_pending_interactions_def)
  have "\<forall>ia \<in> set ?ias. mget (msApprovals m) (inID ia) = Some ia \<and> inStatus ia = InteractionPending"
    using pending_keyed(2) [OF assms] by auto
  with void_fold [OF pending_keyed(1) [OF assms]] obtain aps where
    a: "fold (void_one now) ?ias m = m\<lparr>msApprovals := aps\<rparr>" "keyed inID aps"
    "\<forall>i. mget aps i = (if i \<in> inID ` set ?ias then map_option (voided now) (mget (msApprovals m) i)
                        else mget (msApprovals m) i)" using assms by blast
  have "i \<in> inID ` set ?ias \<longleftrightarrow>
      (\<exists>a. mget (msApprovals m) i = Some a \<and> inRunID a = rid \<and> inStatus a = InteractionPending)" for i
    using pending_keyed(2) [OF assms] keyed_get [OF assms] by force
  then have "mget aps i = map_option (\<lambda>a. if inRunID a = rid \<and> inStatus a = InteractionPending then voided now a else a)
      (mget (msApprovals m) i)" for i
    using a(3) by (cases "mget (msApprovals m) i") simp_all
  with a(1,2) show ?thesis unfolding e by blast
qed

lemma void_none_pending:
  assumes "keyed inID (msApprovals m)"
  shows "pending_approvals_for_run rid (void_pending_interactions now rid m) = []"
proof -
  obtain aps where v: "void_pending_interactions now rid m = m\<lparr>msApprovals := aps\<rparr>" "keyed inID aps"
    "\<forall>i. mget aps i = map_option (\<lambda>a. if inRunID a = rid \<and> inStatus a = InteractionPending then voided now a else a)
                        (mget (msApprovals m) i)" using void_spec [OF assms] by blast
  have k: "keyed inID (msApprovals (m\<lparr>msApprovals := aps\<rparr>))" using v(2) by simp
  have False if "a \<in> set (pending_approvals_for_run rid (m\<lparr>msApprovals := aps\<rparr>))" for a
  proof -
    from that pending_keyed(2) [OF k, of rid] have a: "mget aps (inID a) = Some a" "inRunID a = rid"
      "inStatus a = InteractionPending" by auto
    from v(3) [rule_format, of "inID a"] a(1) obtain b where
      "a = (if inRunID b = rid \<and> inStatus b = InteractionPending then voided now b else b)"
      by (cases "mget (msApprovals m) (inID a)") simp_all
    with a(2,3) show False by (cases "inRunID b = rid \<and> inStatus b = InteractionPending") (simp_all add: voided_def)
  qed
  then show ?thesis unfolding v(1) by (meson list.set_sel(1))
qed

subsection \<open>Settlement\<close>

lemma steady_void: "steady (rgRt rg) (rgRt (void_pending now rid rg))"
proof -
  have "msRuns (void_pending_interactions now rid m) = msRuns m \<and>
      msBySess (void_pending_interactions now rid m) = msBySess m \<and>
      msSessions (void_pending_interactions now rid m) = msSessions m" for m
  proof -
    have "msRuns (fold (void_one now) ias m) = msRuns m \<and> msBySess (fold (void_one now) ias m) = msBySess m \<and>
        msSessions (fold (void_one now) ias m) = msSessions m" for ias
      by (induction ias arbitrary: m)
        (simp_all add: void_one_def decide_approval_def Let_def split: option.split)
    then show ?thesis by (simp add: void_pending_interactions_def)
  qed
  moreover have "keyed inID (msApprovals m) \<Longrightarrow> keyed inID (msApprovals (void_pending_interactions now rid m))" for m
    using void_spec [of m now rid] by auto
  ultimately show ?thesis
    unfolding void_pending_def by (simp add: steady_upd)
qed

lemma registry_upd [simp]:
  "rgWorkers (void_pending now rid rg) = rgWorkers rg" "rgMsgs (void_pending now rid rg) = rgMsgs rg"
  "rgWorkers (rg_event now sess rid k p rg) = rgWorkers rg" "rgMsgs (rg_event now sess rid k p rg) = rgMsgs rg"
  "rgWorkers (attach_run_error sess rid t rg) = rgWorkers rg" "rgRt (attach_run_error sess rid t rg) = rgRt rg"
  "rgWorkers (settle_run now sess rid st rg) = rgWorkers rg" "rgMsgs (settle_run now sess rid st rg) = rgMsgs rg"
  "rgWorkers (notify_hooks sess r st rg) = rgWorkers rg" "rgRt (notify_hooks sess r st rg) = rgRt rg"
  "rgMsgs (notify_hooks sess r st rg) = rgMsgs rg"
  "rgRt (drop_worker sess w rg) = rgRt rg" "rgMsgs (drop_worker sess w rg) = rgMsgs rg"
  "rgRt (rg_event now sess rid k p rg) = log_event now sess rid k p (rgRt rg)"
  by (simp_all add: void_pending_def rg_event_def attach_run_error_def settle_run_def notify_hooks_def drop_worker_def
      split: option.split)

lemma steady_log [simp]: "steady rt (log_event now sess rid k p rt)"
  by (simp add: log_event_def)

lemma log_kinds_log [simp]:
  "log_kinds rid (log_event now sess rid k p rt) = log_kinds rid rt @ (if is_content_kind k then [] else [k])"
  by (simp add: log_event_def)

lemma log_kinds_void [simp]: "log_kinds rid (rgRt (void_pending now rid' rg)) = log_kinds rid (rgRt rg)"
proof -
  have "msEvents (fold (void_one now) ias m) = msEvents m" for ias m
    by (induction ias arbitrary: m)
      (simp_all add: void_one_def decide_approval_def Let_def split: option.split)
  then show ?thesis
    by (intro log_kinds_cong) (simp add: void_pending_def void_pending_interactions_def)
qed

text \<open>The run a session's lock is held for, when it is this run.\<close>

definition holds_lock :: "id \<Rightarrow> id \<Rightarrow> runtime \<Rightarrow> bool" where
  "holds_lock sess rid rt = (map_option runID (lock_view rt sess) = Some rid \<and> run_view rt rid \<noteq> None)"

lemma holds_lock_steady: "steady rt rt' \<Longrightarrow> holds_lock sess rid rt' = holds_lock sess rid rt"
  by (simp add: steady_def holds_lock_def)

lemma settle_held:
  assumes "holds_lock sess rid rt" "status_terminal st"
  shows "lock_view (snd (complete_run_for_run now sess rid st rt)) = (lock_view rt)(sess := None)"
    "run_view (snd (complete_run_for_run now sess rid st rt)) = (run_view rt)(rid := Some st)"
    "msBySess (rtStore (snd (complete_run_for_run now sess rid st rt))) = msBySess (rtStore rt)"
    "msSessions (rtStore (snd (complete_run_for_run now sess rid st rt))) = msSessions (rtStore rt)"
    "msApprovals (rtStore (snd (complete_run_for_run now sess rid st rt))) = msApprovals (rtStore rt)"
    "log_kinds i (snd (complete_run_for_run now sess rid st rt)) = log_kinds i rt"
  using assms
  by (auto simp: holds_lock_def lock_view_def run_view_def complete_run_for_run_def update_run_status_def
      modify_run_def set_status_def log_kinds_def run_log_def fun_eq_iff split: option.splits)

lemma settle_not_held:
  assumes "map_option runID (lock_view rt sess) \<noteq> Some rid"
  shows "snd (complete_run_for_run now sess rid st rt) = rt"
  using assms by (auto simp: lock_view_def complete_run_for_run_def split: option.split)

subsection \<open>Executing a run\<close>

definition final_status :: "run_end \<Rightarrow> run_status" where
  "final_status e = (case e of LoopReturned err c \<Rightarrow> end_status err c | LoopPanicked _ \<Rightarrow> RunFailed)"

text \<open>The lifecycle event the worker adds to those of its loop.\<close>

definition closing_kinds :: "run_op list \<Rightarrow> run_end \<Rightarrow> event_kind list" where
  "closing_kinds xs e =
     (case e of
        LoopReturned err c \<Rightarrow>
          if end_status err c = RunCancelled \<and> Emitted None FCancelled \<notin> set xs then [KindCancelled] else []
      | LoopPanicked _ \<Rightarrow> [KindError])"

lemma final_status_terminal [simp]: "status_terminal (final_status e)"
  by (simp add: final_status_def end_status_def split: run_end.split option.split)

lemma user_persisted [simp]:
  "rcRt (persist_user re um st) = rcRt st" "rcCancelled (persist_user re um st) = rcCancelled st"
  by (simp_all add: persist_user_def store_message_def split: option.split)

lemma no_pending_event [simp]:
  "pending_approvals_for_run i (rtStore (log_event now sess rid k p rt)) = pending_approvals_for_run i (rtStore rt)"
  by (simp add: log_event_def pending_approvals_for_run_def)

lemma void_pending_none:
  "keyed inID (msApprovals (rtStore (rgRt rg))) \<Longrightarrow>
     pending_approvals_for_run rid (rtStore (rgRt (void_pending now rid rg))) = []"
  by (simp add: void_pending_def void_none_pending)

lemma execute_runtime:
  assumes "rg' = execute re sess r w work xs e rg"
  shows "\<exists>rt. rgRt rg' = snd (complete_run_for_run (reNow re) sess (runID r) (final_status e) rt) \<and>
    steady (rgRt rg) rt \<and>
    log_kinds (runID r) rt = log_kinds (runID r) (rgRt rg) @ concat (map op_kinds xs) @ closing_kinds xs e \<and>
    (keyed inID (msApprovals (rtStore (rgRt rg))) \<longrightarrow> final_status e \<noteq> RunDone \<longrightarrow>
       pending_approvals_for_run (runID r) (rtStore rt) = [])"
proof -
  let ?we = "worker_env re sess r"
  let ?su = "persist_user ?we (wkUserMessage work) (worker_recorder rg)"
  let ?st = "do_ops ?we xs ?su"
  let ?rg1 = "rg\<lparr>rgRt := rcRt ?st, rgMsgs := rcMsgs ?st\<rparr>"
  have s: "steady (rgRt rg) (rgRt ?rg1)"
  proof -
    have "steady (rcRt ?su) (rcRt ?st)" by (rule steady_do_ops)
    then show ?thesis by (simp add: worker_recorder_def)
  qed
  have k: "log_kinds (runID r) (rgRt ?rg1) = log_kinds (runID r) (rgRt rg) @ concat (map op_kinds xs)"
    using log_kinds_do_ops [of ?we xs ?su] by (simp add: worker_recorder_def worker_env_def)
  have c: "rcCancelled ?st \<longleftrightarrow> Emitted None FCancelled \<in> set xs"
    using cancelled_do_ops [of ?we xs ?su] by (simp add: worker_recorder_def)
  have v: "steady (rgRt rg) (rgRt (void_pending (reNow re) (runID r) ?rg1))"
    by (rule steady_trans [OF s steady_void])
  have p: "pending_approvals_for_run (runID r) (rtStore (rgRt (void_pending (reNow re) (runID r) ?rg1))) = []"
    if "keyed inID (msApprovals (rtStore (rgRt rg)))"
    using s that by (intro void_pending_none) (simp add: steady_def)
  show ?thesis
  proof (cases e)
    case (LoopReturned err can)
    let ?rg2 = "if err \<noteq> None then void_pending (reNow re) (runID r) ?rg1 else ?rg1"
    let ?rt = "if end_status err can = RunCancelled \<and> \<not> rcCancelled ?st
      then log_event (reNow re) sess (runID r) KindCancelled None (rgRt ?rg2) else rgRt ?rg2"
    have "rgRt rg' = snd (complete_run_for_run (reNow re) sess (runID r) (final_status e) ?rt)"
      using assms LoopReturned
      by (simp add: execute_def Let_def settle_return_def final_status_def settle_run_def)
    moreover have "steady (rgRt rg) (rgRt ?rg2)" using s v by simp
    then have "steady (rgRt rg) ?rt" using steady_trans [OF _ steady_log] by simp
    moreover have "log_kinds (runID r) ?rt = log_kinds (runID r) (rgRt rg) @ concat (map op_kinds xs) @ closing_kinds xs e"
      using k c by (simp add: closing_kinds_def LoopReturned is_content_kind_def)
    moreover have "pending_approvals_for_run (runID r) (rtStore ?rt) = []"
      if "keyed inID (msApprovals (rtStore (rgRt rg)))" "final_status e \<noteq> RunDone"
      using p [OF that(1)] that(2) LoopReturned by (auto simp: final_status_def end_status_def split: option.splits)
    ultimately show ?thesis by blast
  next
    case (LoopPanicked t)
    let ?rt = "log_event (reNow re) sess (runID r) KindError (Some (JStr (''internal error: '' @ t)))
      (rgRt (void_pending (reNow re) (runID r) ?rg1))"
    have "rgRt rg' = snd (complete_run_for_run (reNow re) sess (runID r) (final_status e) ?rt)"
      using assms LoopPanicked
      by (simp add: execute_def Let_def settle_panic_def final_status_def settle_run_def)
    moreover have "steady (rgRt rg) ?rt" by (rule steady_trans [OF v steady_log])
    moreover have "log_kinds (runID r) ?rt = log_kinds (runID r) (rgRt rg) @ concat (map op_kinds xs) @ closing_kinds xs e"
      using k by (simp add: closing_kinds_def LoopPanicked is_content_kind_def)
    ultimately show ?thesis using p by (intro exI [of _ ?rt]) simp
  qed
qed

lemma settle_workers [simp]:
  "rgWorkers (settle_return now sess r err c landed t rg) = rgWorkers rg"
  "rgWorkers (settle_panic now sess r p rg) = rgWorkers rg"
  by (simp_all add: settle_return_def settle_panic_def Let_def)

lemma execute_workers:
  "rgWorkers (execute re sess r w work xs e rg) =
     (if map_option wkToken (mget (rgWorkers rg) sess) = Some (wkToken w) then mdel sess (rgWorkers rg)
      else rgWorkers rg)"
  by (cases e) (auto simp: execute_def Let_def drop_worker_def)

subsection \<open>The conversation of a session\<close>

definition registry_conversation :: "id \<Rightarrow> run_registry \<Rightarrow> message list" where
  "registry_conversation sess rg =
     (case rgMsgs rg of None \<Rightarrow> [] | Some ms \<Rightarrow> stored_messages_to_provider (messages_for sess ms))"

lemma update_first_map: "(\<And>x. g (f x) = g x) \<Longrightarrow> map g (update_first P f xs) = map g xs"
  by (induction xs) simp_all

lemma metadata_conversation:
  "stored_messages_to_provider (messages_for sess (set_message_metadata i meta ms)) =
     stored_messages_to_provider (messages_for sess ms)"
proof -
  let ?g = "\<lambda>m :: stored_message. \<lparr>mRole = smRole m, mContent = smContent m\<rparr>"
  let ?u = "update_first (\<lambda>m. smID m = i) (\<lambda>m. m\<lparr>smMetadata := meta\<rparr>)"
  have 1: "map ?g (?u xs) = map ?g xs" for xs by (rule update_first_map) simp
  have "map ?g (mlist (update_first P (\<lambda>(s, ms). (s, ?u ms)) kvs) sess) = map ?g (mlist kvs sess)" for P kvs
    by (induction kvs) (auto simp: mlist_def mget_def 1)
  then show ?thesis
    by (simp add: stored_messages_to_provider_def messages_for_def set_message_metadata_def)
qed

lemma settle_conversation [simp]:
  "registry_conversation sess (settle_return now s r err c landed t rg) = registry_conversation sess rg"
  "registry_conversation sess (settle_panic now s r p rg) = registry_conversation sess rg"
  "registry_conversation sess (drop_worker s w rg) = registry_conversation sess rg"
proof -
  have a: "registry_conversation sess (attach_run_error s i t rg) = registry_conversation sess rg" for s i t rg
    by (simp add: attach_run_error_def registry_conversation_def metadata_conversation split: option.split)
  have o: "registry_conversation sess (void_pending now i rg) = registry_conversation sess rg"
    "registry_conversation sess (rg_event now s i k q rg) = registry_conversation sess rg"
    "registry_conversation sess (settle_run now s i st rg) = registry_conversation sess rg"
    "registry_conversation sess (notify_hooks s r st rg) = registry_conversation sess rg" for i k q st rg
    by (simp_all add: registry_conversation_def)
  show "registry_conversation sess (settle_return now s r err c landed t rg) = registry_conversation sess rg"
    "registry_conversation sess (settle_panic now s r p rg) = registry_conversation sess rg"
    by (simp_all add: settle_return_def settle_panic_def Let_def a o)
  show "registry_conversation sess (drop_worker s w rg) = registry_conversation sess rg"
    by (simp add: registry_conversation_def)
qed

lemma registry_recorder:
  "registry_conversation sess (rg\<lparr>rgRt := rt, rgMsgs := rcMsgs st\<rparr>) = conversation sess st"
  by (simp add: registry_conversation_def conversation_def)

lemma execute_conversation:
  assumes "rgMsgs rg \<noteq> None"
  shows "registry_conversation sess (execute re sess r w work xs e rg) =
    registry_conversation sess rg @
      map durable_form ((case wkUserMessage work of None \<Rightarrow> [] | Some m \<Rightarrow> [m]) @ concat (map op_messages xs))"
proof -
  let ?we = "worker_env re sess r"
  let ?su = "persist_user ?we (wkUserMessage work) (worker_recorder rg)"
  have sess: "reSess ?we = sess" by (simp add: worker_env_def)
  have c: "conversation sess (worker_recorder rg) = registry_conversation sess rg"
    by (simp add: conversation_def registry_conversation_def worker_recorder_def)
  have u: "conversation sess ?su = registry_conversation sess rg @
      map durable_form (case wkUserMessage work of None \<Rightarrow> [] | Some m \<Rightarrow> [m])"
    using assms c
    by (auto simp: persist_user_def worker_recorder_def conversation_store stored_form_def worker_env_def durable_form_def
        split: option.split)
  have "rcMsgs ?su \<noteq> None"
    using assms by (auto simp: persist_user_def worker_recorder_def store_message_def split: option.split)
  then have "conversation sess (do_ops ?we xs ?su) = conversation sess ?su @ map durable_form (concat (map op_messages xs))"
    using do_ops_conversation [of ?su ?we xs] unfolding sess by simp
  with u show ?thesis
    by (cases e) (simp_all add: execute_def Let_def registry_recorder)
qed

subsection \<open>Submitting a run\<close>

text \<open>No run of the session is active, as its store has it.\<close>

lemma active_run_view:
  "active_run sess (rtStore rt) = None \<longleftrightarrow>
     (\<forall>i \<in> set (mlist (msBySess (rtStore rt)) sess). \<forall>st. run_view rt i = Some st \<longrightarrow> \<not> status_active st)"
  unfolding find_map_filter_active set_runs_for_session run_view_def by auto

lemma started:
  assumes "start_run fresh now sess rt = (Inr r, rt')" "mget (msRuns (rtStore rt)) fresh = None"
  shows "runID r = fresh" "run_view rt' = (run_view rt)(fresh := Some RunRunning)"
    "map_option runID (lock_view rt' sess) = Some fresh" "msSessions (rtStore rt') = msSessions (rtStore rt)"
    "mlist (msBySess (rtStore rt')) sess = mlist (msBySess (rtStore rt)) sess @ [fresh]"
    "msApprovals (rtStore rt') = msApprovals (rtStore rt)" "log_kinds i rt' = log_kinds i rt"
    "active_run sess (rtStore rt) = None"
    "\<exists>s. get_session sess (rtStore rt) = Inr s \<and> sStatus s \<noteq> SessionEnded"
  using assms
  by (auto simp: start_run_def create_run_def update_run_status_def modify_run_def set_status_def run_view_def
      lock_view_def log_kinds_def run_log_def Let_def fun_eq_iff split: sum.splits if_splits)

lemma start_accepted:
  assumes "get_session sess (rtStore rt) = Inr s" "sStatus s \<noteq> SessionEnded" "lock_view rt sess = None"
    "active_run sess (rtStore rt) = None"
  shows "\<exists>r rt'. start_run fresh now sess rt = (Inr r, rt')"
  using assms by (simp add: start_run_def lock_view_def split_beta Let_def)

lemma submit_accepted:
  "start_run fresh now sess (rgRt rg) = (Inr r, rt') \<Longrightarrow> \<exists>q w rg'. submit fresh now sess work rg = (Inr (q, w), rg')"
  by (simp add: submit_def Let_def)

lemma steady_register [simp]: "steady rt (register_cancel sess c rt)"
  by (auto simp: steady_def register_cancel_def run_view_def lock_view_def fun_eq_iff split: option.split)

lemma log_kinds_register [simp]: "log_kinds i (register_cancel sess c rt) = log_kinds i rt"
  by (rule log_kinds_cong) (simp add: register_cancel_def split: option.split)

definition user_kinds :: "run_work \<Rightarrow> event_kind list" where
  "user_kinds work = (if message_text (wkUserMessage work) \<noteq> '''' then [KindUser] else [])"

lemma submitted:
  assumes "submit fresh now sess work rg = (Inr (r, w), rg')"
  shows "\<exists>q rt'. start_run fresh now sess (rgRt rg) = (Inr q, rt') \<and> runID r = runID q \<and> steady rt' (rgRt rg') \<and>
    log_kinds (runID q) (rgRt rg') = log_kinds (runID q) rt' @ KindRunning # user_kinds work \<and>
    rgMsgs rg' = rgMsgs rg \<and> mget (rgWorkers rg') sess = Some w \<and> wkToken w = rgNext rg"
proof -
  obtain q rt' where s: "start_run fresh now sess (rgRt rg) = (Inr q, rt')"
    using assms by (auto simp: submit_def split: prod.splits sum.splits)
  let ?stamp = "wkTeamID work \<noteq> '''' \<or> wkModel work \<noteq> ''''"
  let ?rt2 = "if ?stamp then rt'\<lparr>rtStore := set_run_attribution (runID q) (wkTeamID work) (wkModel work) (rtStore rt')\<rparr>
    else rt'"
  have 1: "steady rt' ?rt2" by (simp add: set_run_attribution_def steady_modify_run)
  have 2: "log_kinds (runID q) ?rt2 = log_kinds (runID q) rt'"
    by (rule log_kinds_cong) (simp add: set_run_attribution_def modify_run_def split: option.split)
  have 3: "steady ?rt2 (log_event now sess (runID q) KindRunning None (register_cancel sess (rgNext rg) ?rt2))"
    using steady_trans [OF steady_register steady_log] by blast
  from assms s have a: "r = (if ?stamp then q\<lparr>runTeamID := wkTeamID work, runModel := wkModel work\<rparr> else q)"
    "w = \<lparr>wkRunID = runID q, wkToken = rgNext rg\<rparr>"
    "rgRt rg' = (let rt3 = log_event now sess (runID q) KindRunning None (register_cancel sess (rgNext rg) ?rt2)
       in if message_text (wkUserMessage work) \<noteq> ''''
          then log_event now sess (runID q) KindUser (Some (JStr (message_text (wkUserMessage work)))) rt3 else rt3)"
    "rgWorkers rg' = mput sess w (rgWorkers rg)" "rgMsgs rg' = rgMsgs rg"
    by (auto simp: submit_def Let_def)
  have "steady rt' (rgRt rg')"
    unfolding a(3) Let_def using steady_trans [OF steady_trans [OF 1 3] steady_log] steady_trans [OF 1 3] by simp
  moreover have "log_kinds (runID q) (rgRt rg') = log_kinds (runID q) rt' @ KindRunning # user_kinds work"
    unfolding a(3) Let_def using 2 by (simp add: user_kinds_def is_content_kind_def)
  moreover have "runID r = runID q" using a(1) by simp
  ultimately show ?thesis using s a(2,4,5) by (intro exI [of _ q] exI [of _ rt']) simp
qed

subsection \<open>The newest decided batch\<close>

definition needs_fold :: "id \<Rightarrow> mem_store \<Rightarrow> id \<Rightarrow> bool" where
  "needs_fold sess m rid =
     (case mget (msBatches m) rid of
        None \<Rightarrow> False
      | Some b \<Rightarrow> sbSessionID b = sess \<and> sbFoldedSeq b = None \<and> pending_approvals_for_run rid m = [])"

lemma session_batches_get:
  assumes "keyed sbRunID (msBatches m)"
  shows "mget (fold (\<lambda>b bm. mput (sbRunID b) b bm) (suspended_batches_for_session sess m) []) i =
    (case mget (msBatches m) i of None \<Rightarrow> None | Some b \<Rightarrow> if sbSessionID b = sess then Some b else None)"
proof -
  let ?bs = "suspended_batches_for_session sess m"
  have in_bs: "b \<in> set ?bs \<longleftrightarrow> sbSessionID b = sess \<and> mget (msBatches m) (sbRunID b) = Some b" for b
    using keyed_get [OF assms, of "sbRunID b" b] by (auto simp: suspended_batches_for_session_def)
  show ?thesis
  proof (cases "find_last (\<lambda>b. sbRunID b = i) ?bs")
    case None
    then have "\<forall>b \<in> set ?bs. sbRunID b \<noteq> i" by (simp add: find_last_None)
    then have "mget (msBatches m) i = Some b \<Longrightarrow> sbSessionID b \<noteq> sess" for b
      using in_bs keyed_get [OF assms, of i b] by auto
    then show ?thesis using None by (auto simp: index_by_get split: option.split)
  next
    case (Some b)
    from find_last_Some [OF this] in_bs have "mget (msBatches m) i = Some b" "sbSessionID b = sess" by auto
    with Some show ?thesis by (simp add: index_by_get)
  qed
qed

lemma newest_unfolded_spec:
  assumes "\<And>i. mget bm i = (case mget (msBatches m) i of None \<Rightarrow> None
                            | Some b \<Rightarrow> if sbSessionID b = sess then Some b else None)"
  shows "newest_unfolded bm m rs = (case find (\<lambda>r. needs_fold sess m (runID r)) rs of None \<Rightarrow> '''' | Some r \<Rightarrow> runID r)"
  by (induction rs) (auto simp: assms needs_fold_def split: option.split)

lemma find_sorted_min:
  "sorted (map f xs) \<Longrightarrow> find P xs = Some x \<Longrightarrow> y \<in> set xs \<Longrightarrow> P y \<Longrightarrow> f x \<le> f y"
  by (induction xs) (auto split: if_splits)

subsection \<open>Properties\<close>

text \<open>C7: a submitted run always settles, whether its loop returned, failed, was cancelled or panicked: its
  stored status is the one its end calls for, no interaction of a run that did not end cleanly is
  left pending, its durable log is the start, the user's turn, the end frames of the loop and at
  most one event of the worker's own, no worker remains, and the session accepts the next
  submission.\<close>
theorem submitted_run_settles:
  assumes "submit fresh now sess work rg = (Inr (r, w), rg1)" "rg2 = execute re sess r w work xs e rg1"
    and "mget (msRuns (rtStore (rgRt rg))) fresh = None" "run_log fresh (rgRt rg) = []"
    and "keyed inID (msApprovals (rtStore (rgRt rg)))"
  shows "(\<exists>q. mget (msRuns (rtStore (rgRt rg2))) fresh = Some q \<and> runStatus q = final_status e) \<and>
    (final_status e \<noteq> RunDone \<longrightarrow> pending_approvals_for_run fresh (rtStore (rgRt rg2)) = []) \<and>
    log_kinds fresh (rgRt rg2) = KindRunning # user_kinds work @ concat (map op_kinds xs) @ closing_kinds xs e \<and>
    \<not> active_worker sess rg2 \<and>
    (\<exists>r' w' rg3. submit fresh' now' sess work' rg2 = (Inr (r', w'), rg3))"
proof -
  obtain q rt' where s: "start_run fresh now sess (rgRt rg) = (Inr q, rt')" "runID r = runID q"
    "steady rt' (rgRt rg1)" "log_kinds (runID q) (rgRt rg1) = log_kinds (runID q) rt' @ KindRunning # user_kinds work"
    "mget (rgWorkers rg1) sess = Some w" using submitted [OF assms(1)] by blast
  note st = started [OF s(1) assms(3)]
  obtain rt where x: "rgRt rg2 = snd (complete_run_for_run (reNow re) sess (runID r) (final_status e) rt)"
    "steady (rgRt rg1) rt"
    "log_kinds (runID r) rt = log_kinds (runID r) (rgRt rg1) @ concat (map op_kinds xs) @ closing_kinds xs e"
    "keyed inID (msApprovals (rtStore (rgRt rg1))) \<Longrightarrow> final_status e \<noteq> RunDone \<Longrightarrow>
       pending_approvals_for_run (runID r) (rtStore rt) = []" using execute_runtime [OF assms(2)] by blast
  have id: "runID r = fresh" using s(2) st(1) by simp
  have rt: "steady rt' rt" by (rule steady_trans [OF s(3) x(2)])
  then have v: "run_view rt = (run_view (rgRt rg))(fresh := Some RunRunning)"
    "map_option runID (lock_view rt sess) = Some fresh" "msSessions (rtStore rt) = msSessions (rtStore (rgRt rg))"
    "mlist (msBySess (rtStore rt)) sess = mlist (msBySess (rtStore (rgRt rg))) sess @ [fresh]"
    using st(2-5) by (simp_all add: steady_def)
  have h: "holds_lock sess (runID r) rt" by (simp add: holds_lock_def v id)
  note c = settle_held [OF h final_status_terminal [of e], where now = "reNow re", folded x(1)]
  have "keyed inID (msApprovals (rtStore (rgRt rg1)))" using s(3) st(6) assms(5) by (simp add: steady_def)
  then have p: "final_status e \<noteq> RunDone \<Longrightarrow> pending_approvals_for_run fresh (rtStore (rgRt rg2)) = []"
    using x(4) id by (simp add: pending_approvals_for_run_def c(5))
  have "log_kinds fresh (rgRt rg) = []" by (simp add: log_kinds_def assms(4))
  then have l: "log_kinds fresh (rgRt rg2) = KindRunning # user_kinds work @ concat (map op_kinds xs) @ closing_kinds xs e"
    using c(6) x(3) s(4) st(1,7) by (simp add: id)
  have q2: "run_view (rgRt rg2) fresh = Some (final_status e)" using c(2) by (simp add: id)
  have wk: "\<not> active_worker sess rg2" using execute_workers s(5) by (simp add: active_worker_def assms(2))
  have idle: "active_run sess (rtStore (rgRt rg2)) = None"
    using st(8) by (auto simp: active_run_view c(2,3) v id final_status_def end_status_def
        split: run_end.splits option.splits if_splits)
  obtain sn where "get_session sess (rtStore (rgRt rg)) = Inr sn" "sStatus sn \<noteq> SessionEnded" using st(9) by blast
  then have "get_session sess (rtStore (rgRt rg2)) = Inr sn" "sStatus sn \<noteq> SessionEnded"
    by (simp_all add: get_session_def c(4) v(3))
  from start_accepted [OF this _ idle] c(1) have "\<exists>r rt'. start_run fresh' now' sess (rgRt rg2) = (Inr r, rt')"
    by simp
  with submit_accepted have "\<exists>r' w' rg3. submit fresh' now' sess work' rg2 = (Inr (r', w'), rg3)" by blast
  with q2 p l wk show ?thesis by (auto simp: run_view_def)
qed

text \<open>C8: a run of the loop under the registry grows the conversation of its session by the user's turn and
  the messages the loop produced, in their durable form, and by nothing else.\<close>
theorem submitted_run_recorded:
  assumes "submit fresh now sess work rg = (Inr (r, w), rg1)" "rgMsgs rg \<noteq> None"
    and "loop_ok l" "takes_messages en" "loop_run en l (wkHistory work) failures = (err, s)" "emitted xs = sLog s"
  shows "registry_conversation sess (execute re sess r w work xs (LoopReturned err canceled) rg1) =
    registry_conversation sess rg @
      map durable_form ((case wkUserMessage work of None \<Rightarrow> [] | Some m \<Rightarrow> [m]) @ sProduced s)"
proof -
  have m: "rgMsgs rg1 = rgMsgs rg" using submitted [OF assms(1)] by blast
  have "recorded s" using recorded_run [OF assms(3,4), of "wkHistory work" failures] assms(5) by simp
  then have "concat (map op_messages xs) = sProduced s"
    unfolding emitted_messages assms(6) by (simp add: recorded_def accepted_messages_def)
  then show ?thesis
    using execute_conversation [of rg1] assms(2) m by (simp add: registry_conversation_def)
qed

text \<open>C9: a worker that outlives its run cannot harm the next one: when the session's lock and worker slot
  belong to another run, the end of the old worker leaves that lock, that slot, the status of every
  run and the sessions as they are.\<close>
theorem stale_worker_harmless:
  assumes "lock_view (rgRt rg) sess = Some q" "runID q \<noteq> runID r"
    and "mget (rgWorkers rg) sess = Some w'" "wkToken w' \<noteq> wkToken w"
    and "rg2 = execute re sess r w work xs e rg"
  shows "lock_view (rgRt rg2) = lock_view (rgRt rg) \<and> run_view (rgRt rg2) = run_view (rgRt rg) \<and>
    rgWorkers rg2 = rgWorkers rg \<and> msSessions (rtStore (rgRt rg2)) = msSessions (rtStore (rgRt rg))"
proof -
  obtain rt where x: "rgRt rg2 = snd (complete_run_for_run (reNow re) sess (runID r) (final_status e) rt)"
    "steady (rgRt rg) rt" using execute_runtime [OF assms(5)] by blast
  have "map_option runID (lock_view rt sess) \<noteq> Some (runID r)" using x(2) assms(1,2) by (simp add: steady_def)
  then have "rgRt rg2 = rt" unfolding x(1) by (rule settle_not_held)
  moreover have "rgWorkers rg2 = rgWorkers rg" using assms(3-5) by (simp add: execute_workers)
  ultimately show ?thesis using x(2) by (simp add: steady_def)
qed

text \<open>The panic path settles the run but notifies no completion hook.\<close>

lemma panic_notifies_nobody:
  "rgNotified (execute re sess r w work xs (LoopPanicked p) rg) = rgNotified rg"
  by (simp add: execute_def Let_def drop_worker_def settle_panic_def settle_run_def attach_run_error_def rg_event_def
      void_pending_def split: option.split)

text \<open>Before a new turn the session is asked for a batch that was decided and never folded, and the answer
  is the newest run that has one: its snapshot is not folded, no verdict of it is outstanding, and
  every later run of the session is folded, undecided or never suspended; no run is named when
  there is none.\<close>
theorem newest_decided_batch_found:
  assumes "keyed sbRunID (msBatches m)"
  shows "(decided_but_unfolded_run sess m = '''' \<and> (\<forall>r \<in> set (runs_for_session sess m). \<not> needs_fold sess m (runID r))) \<or>
    (\<exists>r \<in> set (runs_for_session sess m). decided_but_unfolded_run sess m = runID r \<and> needs_fold sess m (runID r) \<and>
       (\<forall>r' \<in> set (runs_for_session sess m). runSeq r < runSeq r' \<longrightarrow> \<not> needs_fold sess m (runID r')))"
proof -
  let ?rs = "sort_key (\<lambda>r. - int (runSeq r)) (runs_for_session sess m)"
  let ?P = "\<lambda>r. needs_fold sess m (runID r)"
  have d: "decided_but_unfolded_run sess m = (case find ?P ?rs of None \<Rightarrow> '''' | Some r \<Rightarrow> runID r)"
    unfolding decided_but_unfolded_run_def
    by (rule newest_unfolded_spec [OF session_batches_get [OF assms]])
  show ?thesis
  proof (cases "find ?P ?rs")
    case None
    then have "\<forall>r \<in> set (runs_for_session sess m). \<not> ?P r" by (auto simp: find_None_iff)
    with None show ?thesis by (simp add: d)
  next
    case (Some r)
    have "- int (runSeq r) \<le> - int (runSeq r')" if "r' \<in> set (runs_for_session sess m)" "?P r'" for r'
      using find_sorted_min [OF _ Some, of "\<lambda>r. - int (runSeq r)" r'] that by simp
    then have "\<not> ?P r'" if "r' \<in> set (runs_for_session sess m)" "runSeq r < runSeq r'" for r'
      using that by fastforce
    with find_Some_iff2 [OF Some] Some show ?thesis by (auto simp: d)
  qed
qed

subsection \<open>A submitted run\<close>

definition sample_registry :: run_registry where
  "sample_registry = with_message_store new_message_store (new_run_registry (new_runtime SessionStore.sample_store))"

definition sample_work :: run_work where
  "sample_work = \<lparr>wkHistory = sample_question, wkUserMessage = Some (text_message RoleUser ''hi''),
     wkTeamID = '''', wkModel = ''m''\<rparr>"


lemma sample_submitted:
  obtains r w rg1 where "submit ''r'' 9 ''a'' sample_work sample_registry = (Inr (r, w), rg1)"
proof -
  let ?rt = "rgRt sample_registry"
  have g: "get_session ''a'' (rtStore ?rt) = Inr s \<Longrightarrow> sStatus s \<noteq> SessionEnded" for s
    by (simp add: sample_registry_def with_message_store_def new_run_registry_def new_runtime_def get_session_def
        SessionStore.sample_store_def create_session_def Let_def)
      auto
  have e: "\<exists>s. get_session ''a'' (rtStore ?rt) = Inr s"
    by (simp add: sample_registry_def with_message_store_def new_run_registry_def new_runtime_def get_session_def
        SessionStore.sample_store_def create_session_def Let_def)
  have "lock_view ?rt ''a'' = None" "active_run ''a'' (rtStore ?rt) = None" by code_simp+
  with e g have "\<exists>r rt'. start_run ''r'' 9 ''a'' ?rt = (Inr r, rt')" using start_accepted by blast
  then show ?thesis using submit_accepted that by blast
qed

lemma sample_registry_facts:
  "mget (msRuns (rtStore (rgRt sample_registry))) ''r'' = None" "run_log ''r'' (rgRt sample_registry) = []"
  "keyed inID (msApprovals (rtStore (rgRt sample_registry)))" "rgMsgs sample_registry \<noteq> None"
  "registry_conversation ''a'' sample_registry = []" "user_kinds sample_work = [KindUser]"
  by (simp_all add: sample_registry_def with_message_store_def new_run_registry_def new_runtime_def run_log_def
      SessionStore.sample_store_def create_session_def new_mem_store_def Let_def registry_conversation_def
      new_message_store_def messages_for_def stored_messages_to_provider_def user_kinds_def sample_work_def
      message_text_def text_message_def)

lemma submitted_run_settles_witness:
  "\<exists>r w rg1. submit ''r'' 9 ''a'' sample_work sample_registry = (Inr (r, w), rg1) \<and>
     log_kinds ''r'' (rgRt (execute sample_recorder_env ''a'' r w sample_work
       [BeforeModel, Emitted None FStepStart] (LoopPanicked ''boom'') rg1)) = [KindRunning, KindUser, KindError]"
proof -
  obtain r w rg1 where s: "submit ''r'' 9 ''a'' sample_work sample_registry = (Inr (r, w), rg1)"
    by (rule sample_submitted)
  have "log_kinds ''r'' (rgRt (execute sample_recorder_env ''a'' r w sample_work
      [BeforeModel, Emitted None FStepStart] (LoopPanicked ''boom'') rg1)) = [KindRunning, KindUser, KindError]"
    using submitted_run_settles [OF s refl sample_registry_facts(1-3), of sample_recorder_env
      "[BeforeModel, Emitted None FStepStart]" "LoopPanicked ''boom''" "''r2''" 10 sample_work]
    by (simp add: sample_registry_facts(6) closing_kinds_def ends_run_def)
  with s show ?thesis by blast
qed

lemma submitted_run_recorded_witness:
  "\<exists>r w rg1 xs. submit ''r'' 9 ''a'' sample_work sample_registry = (Inr (r, w), rg1) \<and>
     registry_conversation ''a'' (execute sample_recorder_env ''a'' r w sample_work xs (LoopReturned None False) rg1) =
       [text_message RoleUser ''hi'', text_message RoleAssistant ''done'']"
proof -
  obtain r w rg1 where sub: "submit ''r'' 9 ''a'' sample_work sample_registry = (Inr (r, w), rg1)"
    by (rule sample_submitted)
  obtain s where s: "loop_run sample_world plain_loop (wkHistory sample_work) 0 = (None, s)"
    "sProduced s = [text_message RoleAssistant ''done'']" using plain_run by (auto simp: sample_work_def)
  let ?xs = "map (\<lambda>(f, ok). Emitted (if ok then None else Some (errorf [])) f) (sLog s)"
  have "takes_messages sample_world" by (simp add: takes_messages_def sample_world_def sample_env_def)
  from submitted_run_recorded [OF sub sample_registry_facts(4) plain_loop_ok this s(1) emitted_log,
      of sample_recorder_env False]
  have "registry_conversation ''a'' (execute sample_recorder_env ''a'' r w sample_work ?xs (LoopReturned None False) rg1) =
      map durable_form [text_message RoleUser ''hi'', text_message RoleAssistant ''done'']"
    by (simp add: sample_registry_facts(5) s(2)) (simp add: sample_work_def)
  moreover have "map durable_form [text_message RoleUser ''hi'', text_message RoleAssistant ''done''] =
      [text_message RoleUser ''hi'', text_message RoleAssistant ''done'']" by code_simp
  ultimately show ?thesis using sub by (metis (no_types))
qed

lemma stale_worker_harmless_witness:
  "\<exists>r w rg1. submit ''r'' 9 ''a'' sample_work sample_registry = (Inr (r, w), rg1) \<and>
     rgWorkers (execute sample_recorder_env ''a'' (r\<lparr>runID := ''old''\<rparr>) (w\<lparr>wkToken := 7\<rparr>) sample_work []
       (LoopReturned None False) rg1) = rgWorkers rg1"
proof -
  obtain r w rg1 where s: "submit ''r'' 9 ''a'' sample_work sample_registry = (Inr (r, w), rg1)"
    by (rule sample_submitted)
  obtain q rt' where st: "start_run ''r'' 9 ''a'' (rgRt sample_registry) = (Inr q, rt')" "steady rt' (rgRt rg1)"
    "mget (rgWorkers rg1) ''a'' = Some w" "wkToken w = rgNext sample_registry"
    using submitted [OF s] by blast
  have "map_option runID (lock_view (rgRt rg1) ''a'') = Some ''r''"
    using started(3) [OF st(1) sample_registry_facts(1)] st(2) by (simp add: steady_def)
  then obtain q' where "lock_view (rgRt rg1) ''a'' = Some q'" "runID q' = ''r''" by auto
  moreover have "rgNext sample_registry = 0"
    by (simp add: sample_registry_def with_message_store_def new_run_registry_def)
  ultimately show ?thesis
    using stale_worker_harmless [of rg1 "''a''" q' "r\<lparr>runID := ''old''\<rparr>" w "w\<lparr>wkToken := 7\<rparr>" _ sample_recorder_env
        sample_work "[]" "LoopReturned None False"] st(3,4) s by auto
qed

definition sample_batch_run :: "id \<times> nat \<Rightarrow> run" where
  "sample_batch_run x = \<lparr>runID = fst x, runSessionID = ''s'', runSeq = snd x, runStatus = RunDone, runCreatedAt = 1,
     runFinishedAt = None, runTeamID = '''', runModel = '''', runUsage = None\<rparr>"

definition sample_batches :: mem_store where
  "sample_batches = new_mem_store\<lparr>
     msRuns := map (\<lambda>x. (fst x, sample_batch_run x)) [(''r1'', 1), (''r2'', 2), (''r3'', 3)],
     msBySess := [(''s'', [''r1'', ''r2'', ''r3''])],
     msBatches := map (\<lambda>(i, f). (i, \<lparr>sbRunID = i, sbSessionID = ''s'', sbMessageSeq = None, sbToolCallIDs = [''1''],
       sbFoldedSeq = f, sbCreatedAt = 1\<rparr>)) [(''r1'', None), (''r2'', None), (''r3'', Some 4)]\<rparr>"

lemma newest_decided_batch_found_witness:
  "decided_but_unfolded_run ''s'' sample_batches = ''r2''"
proof -
  have k: "keyed sbRunID (msBatches sample_batches)"
    by (simp add: sample_batches_def keyed_def mok_def)
  have r: "runs_for_session ''s'' sample_batches = map sample_batch_run [(''r1'', 1), (''r2'', 2), (''r3'', 3)]"
    by (simp add: sample_batches_def runs_for_session_def map_filter_def mlist_def mget_def)
  have n: "needs_fold ''s'' sample_batches ''r2''" "\<not> needs_fold ''s'' sample_batches ''r3''" by code_simp+
  show ?thesis
    using newest_decided_batch_found [OF k, of "''s''"] n unfolding r by (auto simp: sample_batch_run_def)
qed

end
