(* ===== verification/ProviderWire.thy ===== *)
theory ProviderWire
  imports AgentStream Profiles
begin

section \<open>What the provider adapters share: error classes and the event stream framing\<close>

text \<open>
  \<open>internal/provider/errors.go\<close> and the reading half of \<open>streamEvents\<close>, which
  \<open>provider/openai/adapter.go\<close> and \<open>provider/anthropic/adapter.go\<close> write alike. A response
  body is the list of its bytes and the error that ended reading it (\<open>None\<close>: end of file). The
  consumer stops reading when its run is cancelled; the events not yet sent are then lost, which
  the loop's \<open>consume\<close> already allows for by its own query of the context.
\<close>

subsection \<open>Error classes\<close>

definition context_overflow_error :: "int \<Rightarrow> string \<Rightarrow> lerr" where
  "context_overflow_error status body =
     (errorf (''context overflow (status '' @ itoa status @ ''): '' @ body))\<lparr>leOverflow := True\<rparr>"

definition overflow_markers :: "string list" where
  "overflow_markers =
     [''context length'', ''context_length'', ''context window'', ''maximum context'',
      ''too many tokens'', ''prompt is too long'', ''prompt_too_long'', ''max_tokens'',
      ''context overflow'', ''reduce the length'', ''exceeds the context'']"

definition match_overflow_marker :: "string \<Rightarrow> bool" where
  "match_overflow_marker body = list_ex (contains_str (to_lower body)) overflow_markers"

definition classify_http_error :: "int \<Rightarrow> string \<Rightarrow> lerr option" where
  "classify_http_error status body =
     (if status = 413 then Some (context_overflow_error status body)
      else if (status = 400 \<or> status = 422) \<and> match_overflow_marker body
        then Some (context_overflow_error status body)
      else None)"

definition classify_stream_error :: "string \<Rightarrow> lerr option" where
  "classify_stream_error msg =
     (if match_overflow_marker msg then Some (context_overflow_error 0 msg) else None)"

lemma classify_http_overflow: "classify_http_error st b = Some e \<Longrightarrow> leOverflow e \<and> st \<in> {400, 413, 422}"
  by (auto simp: classify_http_error_def context_overflow_error_def split: if_splits)

lemma classify_stream_overflow: "classify_stream_error m = Some e \<Longrightarrow> leOverflow e"
  by (auto simp: classify_stream_error_def context_overflow_error_def split: if_splits)

subsection \<open>Lines\<close>

text \<open>
  \<open>bufio.Scanner\<close> with \<open>ScanLines\<close> and a buffer of at most \<open>lim\<close> bytes: the lines without their
  line end, and whether reading stopped at a line that does not fit (\<open>ErrTooLong\<close>). The line
  being read is kept reversed.
\<close>

definition newline :: char where
  "newline = char_of (10::nat)"

definition drop_cr :: "string \<Rightarrow> string" where
  "drop_cr l = (if l \<noteq> [] \<and> last l = char_of (13::nat) then butlast l else l)"

fun scan_lines :: "nat \<Rightarrow> string \<Rightarrow> string \<Rightarrow> string list \<times> bool" where
  "scan_lines lim cur [] = (if cur = [] then [] else [drop_cr (rev cur)], False)"
| "scan_lines lim cur (c # cs) =
     (if c = newline then
        (let (ls, long) = scan_lines lim [] cs in (drop_cr (rev cur) # ls, long))
      else if lim \<le> Suc (length cur) then ([], True)
      else scan_lines lim (c # cur) cs)"

definition max_line :: nat where
  "max_line = 1024 * 1024"

subsection \<open>Payloads\<close>

text \<open>The data buffer: filled by \<open>data: \<close> lines, handed on at an empty line and at the end.\<close>

definition flush_buf :: "string \<Rightarrow> string list" where
  "flush_buf buf = (if buf = [] then [] else [buf])"

fun sse_payloads :: "string \<Rightarrow> string list \<Rightarrow> string list" where
  "sse_payloads buf [] = flush_buf buf"
| "sse_payloads buf (l # ls) =
     (if l = [] then flush_buf buf @ sse_payloads [] ls
      else if has_prefix l ''data: '' then sse_payloads (buf @ drop 6 l) ls
      else sse_payloads buf ls)"

text \<open>The error event that closes the stream, if reading did not reach the end of the body.\<close>

definition scan_error :: "bool \<Rightarrow> lerr option \<Rightarrow> provider_event list" where
  "scan_error long rerr =
     (if long then [EvError (errorf ''bufio.Scanner: token too long'')]
      else (case rerr of None \<Rightarrow> [] | Some e \<Rightarrow> [EvError e]))"

definition stream_body :: "string \<Rightarrow> lerr option \<Rightarrow> string list \<times> provider_event list" where
  "stream_body body rerr =
     (let (ls, long) = scan_lines max_line [] body in (sse_payloads [] ls, scan_error long rerr))"

subsection \<open>What a well-formed body delivers\<close>

text \<open>
  One server-sent event as a provider writes it: lines that carry no data (an \<open>event:\<close> field, a
  comment), the data line, an empty line; every line ends in a line feed, with or without a
  carriage return before it.
\<close>

record sse_event =
  seHeads :: "string list"
  seData :: string

definition sse_lines :: "sse_event \<Rightarrow> string list" where
  "sse_lines e = seHeads e @ [''data: '' @ seData e, '''']"

definition end_line :: "bool \<Rightarrow> string \<Rightarrow> string" where
  "end_line cr l = l @ (if cr then [char_of (13::nat)] else []) @ [newline]"

definition sse_render :: "bool \<Rightarrow> sse_event list \<Rightarrow> string" where
  "sse_render cr es = concat (map (end_line cr) (concat (map sse_lines es)))"

definition plain_line :: "string \<Rightarrow> bool" where
  "plain_line l = (newline \<notin> set l \<and> char_of (13::nat) \<notin> set l \<and> length l + 2 < max_line)"

definition sse_wf :: "sse_event \<Rightarrow> bool" where
  "sse_wf e = (seData e \<noteq> '''' \<and> list_all plain_line (sse_lines e) \<and>
     list_all (\<lambda>l. l \<noteq> '''' \<and> \<not> has_prefix l ''data: '') (seHeads e))"

lemma newline_cr: "newline \<noteq> char_of (13::nat)"
  by (simp add: newline_def)

lemma drop_cr_plain: "char_of (13::nat) \<notin> set l \<Longrightarrow> drop_cr (l @ (if cr then [char_of (13::nat)] else [])) = l"
  by (auto simp: drop_cr_def dest: last_in_set)

lemma scan_line:
  assumes "newline \<notin> set l" "length cur + length l < lim"
  shows "scan_lines lim cur (l @ newline # rest) =
    (let (ls, long) = scan_lines lim [] rest in (drop_cr (rev cur @ l) # ls, long))"
  using assms by (induction l arbitrary: cur) auto

lemma scan_end_line:
  assumes "plain_line l"
  shows "scan_lines max_line [] (end_line cr l @ rest) =
    (let (ls, long) = scan_lines max_line [] rest in (l # ls, long))"
proof -
  let ?l = "l @ (if cr then [char_of (13::nat)] else [])"
  have "scan_lines max_line [] (?l @ newline # rest) =
      (let (ls, long) = scan_lines max_line [] rest in (drop_cr (rev [] @ ?l) # ls, long))"
    by (rule scan_line) (use assms newline_cr in \<open>auto simp: plain_line_def\<close>)
  then show ?thesis
    using assms drop_cr_plain [of l cr] by (simp add: end_line_def plain_line_def)
qed

lemma scan_rendered:
  "list_all plain_line ls \<Longrightarrow> scan_lines max_line [] (concat (map (end_line cr) ls)) = (ls, False)"
  by (induction ls) (simp_all add: scan_end_line)

lemma payloads_heads:
  "list_all (\<lambda>l. l \<noteq> '''' \<and> \<not> has_prefix l ''data: '') hs \<Longrightarrow>
     sse_payloads buf (hs @ ls) = sse_payloads buf ls"
  by (induction hs) auto

lemma data_line: "has_prefix (''data: '' @ d) ''data: ''" "drop 6 (''data: '' @ d) = d"
  by (simp_all add: has_prefix_def)

lemma payloads_event: "sse_wf e \<Longrightarrow> sse_payloads [] (sse_lines e @ ls) = seData e # sse_payloads [] ls"
proof -
  assume e: "sse_wf e"
  then have "sse_payloads [] (sse_lines e @ ls) = sse_payloads [] ((''data: '' @ seData e) # '''' # ls)"
    using payloads_heads [of "seHeads e" "[]"] by (simp add: sse_lines_def sse_wf_def)
  also have "\<dots> = seData e # sse_payloads [] ls"
    using e data_line [of "seData e"] by (simp add: sse_wf_def flush_buf_def)
  finally show ?thesis .
qed

lemma payloads_events:
  "list_all sse_wf es \<Longrightarrow> sse_payloads [] (concat (map sse_lines es)) = map seData es"
proof (induction es)
  case (Cons e es)
  then show ?case by (simp add: payloads_event)
qed (simp add: flush_buf_def)

lemma stream_body_rendered:
  assumes "list_all sse_wf es"
  shows "stream_body (sse_render cr es) rerr = (map seData es, scan_error False rerr)"
proof -
  have "list_all plain_line (concat (map sse_lines es))"
    using assms by (induction es) (auto simp: sse_wf_def)
  from scan_rendered [OF this, of cr] payloads_events [OF assms] show ?thesis
    by (simp add: stream_body_def sse_render_def)
qed

text \<open>A \<open>provider.StopReason\<close> from its text.\<close>

definition stop_reason_of :: "string \<Rightarrow> stop_reason" where
  "stop_reason_of s =
     (if s = '''' then StopUnknown else if s = ''end_turn'' then StopEndTurn
      else if s = ''tool_use'' then StopToolUse else if s = ''max_tokens'' then StopMaxTokens
      else if s = ''stop_sequence'' then StopStopSequence else StopOther s)"

subsection \<open>What an adapter is asked\<close>

text \<open>
  The fields of \<open>provider.Request\<close> that the loop leaves unset: the override of the image flag and
  the forced structured answer. \<open>loop_request\<close> is a request as the loop makes it.
\<close>

record json_response =
  jrName :: string
  jrDescription :: string
  jrSchema :: jargs

record wire_request = request +
  wqImageInput :: "bool option"
  wqJSONResponse :: "json_response option"

definition loop_request :: "request \<Rightarrow> wire_request" where
  "loop_request r = request.extend r \<lparr>wqImageInput = None, wqJSONResponse = None\<rparr>"

fun role_text :: "role \<Rightarrow> string" where
  "role_text RoleUser = ''user''"
| "role_text RoleAssistant = ''assistant''"
| "role_text (RoleOther r) = r"

text \<open>The tools and the forced answer a request may carry: none for a model profiled without tools.\<close>

definition offered_tools :: "string \<Rightarrow> wire_request \<Rightarrow> tool_definition list \<times> json_response option" where
  "offered_tools prov r =
     (case lookup_profile prov (rqModel r) of
        Some p \<Rightarrow> if ToolCalling p then (rqTools r, wqJSONResponse r) else ([], None)
      | None \<Rightarrow> (rqTools r, wqJSONResponse r))"

definition sampling_allowed :: "string \<Rightarrow> wire_request \<Rightarrow> bool" where
  "sampling_allowed prov r =
     (case lookup_profile prov (rqModel r) of Some p \<Rightarrow> Sampling p | None \<Rightarrow> True)"

text \<open>
  The messages the loop works with: their speaker is the user or the assistant, the assistant
  brings no results, and a message with results brings nothing else.
\<close>

definition plain_message :: "message \<Rightarrow> bool" where
  "plain_message m =
     ((mRole m = RoleAssistant \<and> result_ids (mContent m) = []) \<or>
      (mRole m = RoleUser \<and>
        (result_ids (mContent m) \<noteq> [] \<longrightarrow> list_all (\<lambda>b. bType b = BlockToolResult) (mContent m))))"

subsection \<open>Consumption in quiet surroundings\<close>

text \<open>
  What the loop makes of an event when nothing fails around it: the turn after it, or \<open>None\<close>
  for an error. The frames and the emission flag play no part in the assembled answer.
\<close>

definition finalized_turn :: "(string \<Rightarrow> string + jargs) \<Rightarrow> accumulator \<Rightarrow> turn \<Rightarrow> turn" where
  "finalized_turn parse a t =
     (let (b, err) = acc_finalize parse a;
          blk = (case err of None \<Rightarrow> b | Some e \<Rightarrow> set_args_error e b);
          c = \<lparr>cID = bToolUseID blk, cName = bToolName blk, cArgs = bToolInput blk,
               cArgsError = (case err of None \<Rightarrow> '''' | Some e \<Rightarrow> e)\<rparr>
      in t\<lparr>tuContent := tuContent t @ [blk],
           tuCalls := tuCalls t @ (if bType blk = BlockToolUse then [c] else [])\<rparr>)"

definition new_acc :: "block \<Rightarrow> accumulator" where
  "new_acc b = \<lparr>acBlock = b, acText = '''', acJson = '''', acSignature = ''''\<rparr>"

fun turn_event :: "(string \<Rightarrow> string + jargs) \<Rightarrow> provider_event \<Rightarrow> turn \<Rightarrow> turn option" where
  "turn_event parse EvMessageStart t = Some t"
| "turn_event parse (EvError e) t = None"
| "turn_event parse (EvBlockStart i b) t =
     (case b of None \<Rightarrow> Some t
      | Some blk \<Rightarrow> if mget (tuOpen t) i \<noteq> None then None
          else Some (t\<lparr>tuOpen := mput i (new_acc blk) (tuOpen t)\<rparr>))"
| "turn_event parse (EvBlockDelta i d g) t =
     (case mget (tuOpen t) i of None \<Rightarrow> None
      | Some a \<Rightarrow> Some (t\<lparr>tuOpen := mput i (acc_append_signature g (acc_append d a)) (tuOpen t)\<rparr>))"
| "turn_event parse (EvBlockStop i) t =
     (case mget (tuOpen t) i of None \<Rightarrow> Some t
      | Some a \<Rightarrow> Some ((finalized_turn parse a t)\<lparr>tuOpen := mdel i (tuOpen t)\<rparr>))"
| "turn_event parse (EvMessageStop stop u) t =
     Some (t\<lparr>tuStop := (if stop \<noteq> StopUnknown then stop else tuStop t),
             tuUsage := (if u \<noteq> None then merge_usage (tuUsage t) u else tuUsage t)\<rparr>)"

fun turn_events :: "(string \<Rightarrow> string + jargs) \<Rightarrow> provider_event list \<Rightarrow> turn \<Rightarrow> turn option" where
  "turn_events parse [] t = Some t"
| "turn_events parse (ev # evs) t =
     (case turn_event parse ev t of None \<Rightarrow> None | Some t' \<Rightarrow> turn_events parse evs t')"

lemma turn_events_append:
  "turn_events parse (xs @ ys) t =
     (case turn_events parse xs t of None \<Rightarrow> None | Some t' \<Rightarrow> turn_events parse ys t')"
  by (induction xs arbitrary: t) (simp_all split: option.split)

lemma finalized_turn_open [simp]:
  "tuOpen (finalized_turn parse a t) = tuOpen t" "tuStop (finalized_turn parse a t) = tuStop t"
  "tuUsage (finalized_turn parse a t) = tuUsage t"
  "finalized_turn parse a (t\<lparr>tuEmitted := e\<rparr>) = (finalized_turn parse a t)\<lparr>tuEmitted := e\<rparr>"
  by (simp_all add: finalized_turn_def Let_def split: prod.split)

lemma turn_event_emitted:
  "turn_event parse ev (t\<lparr>tuEmitted := e\<rparr>) = map_option (tuEmitted_update (\<lambda>_. e)) (turn_event parse ev t)"
  by (cases ev) (simp_all split: option.split)

lemma quiet_append:
  assumes "quiet en"
  shows "\<exists>e s'. append_finalized en a t s = ((finalized_turn (eParse en) a t)\<lparr>tuEmitted := e\<rparr>, s')"
proof -
  obtain b err where f: "acc_finalize (eParse en) a = (b, err)" by force
  show ?thesis
  proof (cases "bType (case err of None \<Rightarrow> b | Some e \<Rightarrow> set_args_error e b) = BlockToolUse")
    case True
    with assms f show ?thesis
      by (auto simp: append_finalized_def finalized_turn_def Let_def emit_tracked_def emit_def quiet_def)
  next
    case False
    with f show ?thesis
      by (auto simp: append_finalized_def finalized_turn_def Let_def intro!: exI [of _ "tuEmitted t"])
  qed
qed

lemma quiet_event:
  assumes "quiet en" "turn_event (eParse en) ev t = Some t'"
  shows "\<exists>e s'. consume_event en ev t s = (None, t'\<lparr>tuEmitted := e\<rparr>, s')"
proof (cases ev)
  case (EvBlockStart i b)
  show ?thesis
  proof (cases b)
    case None
    with assms EvBlockStart show ?thesis by (auto intro!: exI [of _ "tuEmitted t"])
  next
    case (Some blk)
    with assms EvBlockStart have t': "t' = t\<lparr>tuOpen := mput i (new_acc blk) (tuOpen t)\<rparr>"
      "mget (tuOpen t) i = None" by (auto split: if_splits)
    show ?thesis
    proof (cases "bType blk = BlockToolUse")
      case True
      with Some EvBlockStart t'
        quiet_tracked [OF assms(1), of "FToolArgs (bToolUseID blk) (bToolName blk) ''''" t' s]
      show ?thesis by (auto simp: new_acc_def intro!: exI [of _ True])
    next
      case False
      with Some EvBlockStart t' show ?thesis by (auto simp: new_acc_def intro!: exI [of _ "tuEmitted t"])
    qed
  qed
next
  case (EvBlockDelta i d g)
  with assms(2) obtain a where a: "mget (tuOpen t) i = Some a" by (auto split: option.splits)
  let ?a = "acc_append_signature g (acc_append d a)"
  show ?thesis
  proof (cases "delta_frame ?a d")
    case None
    with a assms EvBlockDelta show ?thesis by (auto intro!: exI [of _ "tuEmitted t"])
  next
    case (Some f)
    with a assms EvBlockDelta quiet_tracked [OF assms(1), of f t' s] show ?thesis
      by (auto intro!: exI [of _ True])
  qed
next
  case (EvBlockStop i)
  show ?thesis
  proof (cases "mget (tuOpen t) i")
    case None
    with assms EvBlockStop show ?thesis by (auto intro!: exI [of _ "tuEmitted t"])
  next
    case (Some a)
    obtain e s' where "append_finalized en a t s = ((finalized_turn (eParse en) a t)\<lparr>tuEmitted := e\<rparr>, s')"
      using quiet_append [OF assms(1)] by blast
    with Some assms EvBlockStop show ?thesis
      by (intro exI [of _ e] exI [of _ s']) auto
  qed
qed (use assms in \<open>auto intro!: exI [of _ "tuEmitted t"]\<close>)

lemma turn_events_emitted:
  "turn_events parse evs (t\<lparr>tuEmitted := e\<rparr>) = map_option (tuEmitted_update (\<lambda>_. e)) (turn_events parse evs t)"
  by (induction evs arbitrary: t) (simp_all add: turn_event_emitted split: option.split)

lemma quiet_events:
  assumes "quiet en" "turn_events (eParse en) evs t = Some t'"
  shows "\<exists>e s'. consume en (evs @ rest) t s = consume en rest (t'\<lparr>tuEmitted := e\<rparr>) s'"
  using assms(2)
proof (induction evs arbitrary: t t' s)
  case Nil
  have "t = t'" using Nil by simp
  then show ?case by (intro exI [of _ "tuEmitted t"] exI [of _ s]) simp
next
  case (Cons ev evs)
  then obtain u where u: "turn_event (eParse en) ev t = Some u" "turn_events (eParse en) evs u = Some t'"
    by (auto split: option.splits)
  obtain e s1 where 1: "consume_event en ev t (tick s) = (None, u\<lparr>tuEmitted := e\<rparr>, s1)"
    using quiet_event [OF assms(1) u(1)] by blast
  have "turn_events (eParse en) evs (u\<lparr>tuEmitted := e\<rparr>) = Some (t'\<lparr>tuEmitted := e\<rparr>)"
    using u(2) by (simp add: turn_events_emitted)
  from Cons.IH [OF this, of s1] quiet_consume_step [OF assms(1) 1] show ?case by auto
qed

lemma quiet_answer:
  assumes "quiet en" "eStream en (sClock s) (mcRequest c) = Inr evs"
    and "turn_events (eParse en) evs turn_start = Some t" "tuOpen t = []"
  shows "\<exists>s'. real_attempt en c s = ((turn_result t, None), c, s')"
proof -
  obtain e s1 where 1: "consume en evs turn_start (tick s) = consume en [] (t\<lparr>tuEmitted := e\<rparr>) s1"
    using quiet_events [OF assms(1,3), of "[]" "tick s"] by auto
  have "consume en [] (t\<lparr>tuEmitted := e\<rparr>) s1 = (None, t\<lparr>tuEmitted := e\<rparr>, tick (tick s1))"
    using assms(1,4) by (simp add: ctx_pair quiet_def mkeys_def)
  with 1 assms(2) show ?thesis by (simp add: real_attempt_def turn_result_def)
qed

lemma finalized_piece:
  "finalized_turn parse (acc_fold (pcDeltas p) (new_acc (pcBlock p))) t =
     t\<lparr>tuContent := tuContent t @ [assemble parse p], tuCalls := tuCalls t @ piece_call parse p\<rparr>"
proof -
  obtain blk err where f: "acc_finalize parse (acc_fold (pcDeltas p) (new_acc (pcBlock p))) = (blk, err)"
    by force
  note b = finalize_assemble [OF f [unfolded new_acc_def]]
  have "(case err of None \<Rightarrow> blk | Some e \<Rightarrow> set_args_error e blk) = assemble parse p" by (rule b(1))
  then show ?thesis
    unfolding finalized_turn_def f piece_call_def b(2) [symmetric] by (simp add: Let_def)
qed

lemma turn_deltas:
  "mget (tuOpen t) i = Some a \<Longrightarrow>
     \<exists>op. turn_events parse (delta_events i ds) t = Some (t\<lparr>tuOpen := op\<rparr>) \<and>
       mget op = (mget (tuOpen t))(i := Some (acc_fold ds a))"
proof (induction ds arbitrary: t a)
  case Nil
  then show ?case by (intro exI [of _ "tuOpen t"]) (auto simp: delta_events_def fun_eq_iff)
next
  case (Cons dg ds)
  obtain d g where dg: "dg = (d, g)" by force
  let ?a = "acc_append_signature g (acc_append d a)"
  from Cons.IH [of "t\<lparr>tuOpen := mput i ?a (tuOpen t)\<rparr>" ?a] Cons.prems show ?case
    by (auto simp: delta_events_def dg fun_eq_iff)
qed

lemma turn_piece:
  assumes "tuOpen t = []"
  shows "turn_events parse (piece_events p) t = Some (t\<lparr>tuContent := tuContent t @ [assemble parse p],
    tuCalls := tuCalls t @ piece_call parse p\<rparr>)"
proof -
  let ?a = "new_acc (pcBlock p)"
  let ?t = "t\<lparr>tuOpen := mput (pcIndex p) ?a (tuOpen t)\<rparr>"
  have "mget (tuOpen ?t) (pcIndex p) = Some ?a" by simp
  from turn_deltas [OF this, of parse "pcDeltas p"] obtain op where op:
    "turn_events parse (delta_events (pcIndex p) (pcDeltas p)) ?t = Some (?t\<lparr>tuOpen := op\<rparr>)"
    "mget op = (mget (tuOpen ?t))(pcIndex p := Some (acc_fold (pcDeltas p) ?a))" by blast
  have "mget (mdel (pcIndex p) op) k = None" for k
    using op(2) assms by simp
  then have "mdel (pcIndex p) op = []" by (rule mget_None_empty)
  with op assms show ?thesis
    by (simp add: piece_events_def turn_events_append finalized_piece)
qed

lemma turn_pieces:
  assumes "tuOpen t = []"
  shows "turn_events parse (concat (map piece_events ps)) t =
    Some (t\<lparr>tuContent := tuContent t @ map (assemble parse) ps,
            tuCalls := tuCalls t @ concat (map (piece_call parse) ps)\<rparr>)"
  using assms by (induction ps arbitrary: t) (simp_all add: turn_events_append turn_piece)

end
