(* ===== verification/OpenAI.thy ===== *)
theory OpenAI
  imports ProviderWire
begin

section \<open>The adapter for OpenAI-compatible gateways\<close>

text \<open>
  \<open>internal/provider/openai\<close>: the stream decoder of \<open>stream.go\<close> (\<open>feed\<close>, \<open>finish\<close>), the stream
  it yields for a response body (\<open>adapter.go\<close>) and the request it sends (\<open>request.go\<close>). A chunk
  is the decoded JSON payload; the decoder of payloads is a parameter, and so is the printer of
  tool arguments. The decoder opens thinking at index 0, text at index 1 and tool calls from
  index 2 on, and closes what is open when the gateway reports a finish reason.
\<close>

subsection \<open>Chunks\<close>

record tool_delta =
  tcIndex :: int
  tcID :: string
  tcName :: string
  tcArguments :: string

record choice =
  chContent :: string
  chReasoningContent :: string
  chReasoning :: string
  chToolCalls :: "tool_delta list"
  chFinishReason :: string

record oa_usage =
  ouPromptTokens :: int
  ouCompletionTokens :: int
  ouPromptCacheHitTokens :: int
  ouCachedTokens :: "int option"
  ouReasoningTokens :: "int option"

record oa_error =
  oeMessage :: string
  oeType :: string
  oeCode :: string

record chunk =
  ckChoices :: "choice list"
  ckUsage :: "oa_usage option"
  ckErr :: "oa_error option"

definition usage_reasoning :: "oa_usage \<Rightarrow> int" where
  "usage_reasoning u = (case ouReasoningTokens u of Some n \<Rightarrow> n | None \<Rightarrow> 0)"

definition usage_cache_read :: "oa_usage \<Rightarrow> int" where
  "usage_cache_read u =
     (if ouPromptCacheHitTokens u \<noteq> 0 then ouPromptCacheHitTokens u
      else case ouCachedTokens u of Some n \<Rightarrow> n | None \<Rightarrow> 0)"

definition map_finish_reason :: "string \<Rightarrow> stop_reason" where
  "map_finish_reason s =
     (if s = ''stop'' then StopEndTurn else if s = ''length'' then StopMaxTokens
      else if s = ''tool_calls'' \<or> s = ''function_call'' then StopToolUse
      else stop_reason_of s)"

subsection \<open>The decoder\<close>

record stream_decoder =
  sdStarted :: bool
  sdThinkingOpen :: bool
  sdTextOpen :: bool
  sdSeenToolIDs :: "(int, string) gomap"
  sdCanonical :: "(int, int) gomap"
  sdNextToolIndex :: int
  sdFinishEmitted :: bool

definition new_stream_decoder :: stream_decoder where
  "new_stream_decoder = \<lparr>sdStarted = False, sdThinkingOpen = False, sdTextOpen = False,
     sdSeenToolIDs = [], sdCanonical = [], sdNextToolIndex = 0, sdFinishEmitted = False\<rparr>"

definition thinkingIndex :: int where "thinkingIndex = 0"
definition textIndex :: int where "textIndex = 1"
definition toolBaseIndex :: int where "toolBaseIndex = 2"

definition finish_stream :: "stream_decoder \<Rightarrow> provider_event list \<times> stream_decoder" where
  "finish_stream d =
     ((if sdThinkingOpen d then [EvBlockStop thinkingIndex] else []) @
      (if sdTextOpen d then [EvBlockStop textIndex] else []) @
      map (\<lambda>i. EvBlockStop (i + toolBaseIndex)) (sort (mkeys (sdSeenToolIDs d))),
      d\<lparr>sdThinkingOpen := False, sdTextOpen := False, sdSeenToolIDs := []\<rparr>)"

definition choice_reasoning :: "choice \<Rightarrow> string" where
  "choice_reasoning ch = (if chReasoningContent ch = '''' then chReasoning ch else chReasoningContent ch)"

definition reasoning_events :: "string \<Rightarrow> stream_decoder \<Rightarrow> provider_event list \<times> stream_decoder" where
  "reasoning_events r d =
     (if r = '''' then ([], d)
      else ((if sdThinkingOpen d then [] else [EvBlockStart thinkingIndex (Some (thinking_block '''' ''''))]) @
            [EvBlockDelta thinkingIndex r ''''], d\<lparr>sdThinkingOpen := True\<rparr>))"

definition content_events :: "string \<Rightarrow> stream_decoder \<Rightarrow> provider_event list \<times> stream_decoder" where
  "content_events x d =
     (if x = '''' then ([], d)
      else ((if sdThinkingOpen d then [EvBlockStop thinkingIndex] else []) @
            (if sdTextOpen d then [] else [EvBlockStart textIndex (Some (text_block ''''))]) @
            [EvBlockDelta textIndex x ''''], d\<lparr>sdThinkingOpen := False, sdTextOpen := True\<rparr>))"

text \<open>A new canonical index for a call that starts.\<close>

definition alloc_call :: "tool_delta \<Rightarrow> stream_decoder \<Rightarrow> (int \<times> provider_event list) \<times> stream_decoder" where
  "alloc_call tc d =
     (let k = sdNextToolIndex d
      in ((k, [EvBlockStart (k + toolBaseIndex) (Some (tool_use_block (tcID tc) (tcName tc) (Some []) ''''))]),
          d\<lparr>sdNextToolIndex := k + 1, sdCanonical := mput (tcIndex tc) k (sdCanonical d),
            sdSeenToolIDs := mput k (tcID tc) (sdSeenToolIDs d)\<rparr>))"

definition known_index :: "tool_delta \<Rightarrow> stream_decoder \<Rightarrow> int" where
  "known_index tc d = (case mget (sdCanonical d) (tcIndex tc) of Some k \<Rightarrow> k | None \<Rightarrow> tcIndex tc)"

definition tool_delta_events :: "tool_delta \<Rightarrow> stream_decoder \<Rightarrow> provider_event list \<times> stream_decoder" where
  "tool_delta_events tc d =
     (let ((k, starts), d1) =
          (if tcID tc \<noteq> '''' then
             (case mget (sdCanonical d) (tcIndex tc) of
                Some k \<Rightarrow> if mget (sdSeenToolIDs d) k = Some (tcID tc) then ((k, []), d) else alloc_call tc d
              | None \<Rightarrow> alloc_call tc d)
           else if tcArguments tc \<noteq> '''' then ((known_index tc d, []), d)
           else ((-1, []), d))
      in (starts @
          (if tcArguments tc \<noteq> ''''
           then [EvBlockDelta ((if k = -1 then known_index tc d1 else k) + toolBaseIndex) (tcArguments tc) '''']
           else []), d1))"

fun tool_events :: "tool_delta list \<Rightarrow> stream_decoder \<Rightarrow> provider_event list \<times> stream_decoder" where
  "tool_events [] d = ([], d)"
| "tool_events (tc # tcs) d =
     (let (evs, d1) = tool_delta_events tc d; (evs', d2) = tool_events tcs d1 in (evs @ evs', d2))"

definition finish_events :: "string \<Rightarrow> stream_decoder \<Rightarrow> provider_event list \<times> stream_decoder" where
  "finish_events fin d =
     (if fin = '''' then ([], d)
      else (let (evs, d1) = finish_stream d
            in (evs @ [EvMessageStop (map_finish_reason fin) None], d1\<lparr>sdFinishEmitted := True\<rparr>)))"

definition choice_events :: "choice \<Rightarrow> stream_decoder \<Rightarrow> provider_event list \<times> stream_decoder" where
  "choice_events ch d =
     (let (e1, d1) = reasoning_events (choice_reasoning ch) d;
          (e2, d2) = content_events (chContent ch) d1;
          (e3, d3) = tool_events (chToolCalls ch) d2;
          (e4, d4) = finish_events (chFinishReason ch) d3
      in (e1 @ e2 @ e3 @ e4, d4))"

definition neutral_usage :: "oa_usage \<Rightarrow> usage" where
  "neutral_usage u = Usage (ouPromptTokens u) (ouCompletionTokens u) (usage_cache_read u) 0 (usage_reasoning u)"

definition usage_events :: "oa_usage option \<Rightarrow> provider_event list" where
  "usage_events u = (case u of None \<Rightarrow> [] | Some v \<Rightarrow> [EvMessageStop StopUnknown (Some (neutral_usage v))])"

definition oa_stream_error :: "oa_error \<Rightarrow> lerr" where
  "oa_stream_error e =
     (case classify_stream_error (oeMessage e) of Some ov \<Rightarrow> ov
      | None \<Rightarrow> errorf (''openai stream error ('' @ oeType e @ ''/'' @ oeCode e @ ''): '' @ oeMessage e))"

definition chunk_events :: "chunk \<Rightarrow> stream_decoder \<Rightarrow> provider_event list \<times> stream_decoder" where
  "chunk_events c d =
     (case ckErr c of
        Some e \<Rightarrow> ([EvError (oa_stream_error e)], d)
      | None \<Rightarrow>
          let e0 = (if sdStarted d then [] else [EvMessageStart]);
              d0 = d\<lparr>sdStarted := True\<rparr>;
              (e1, d1) = (case ckChoices c of [] \<Rightarrow> ([], d0) | ch # _ \<Rightarrow> choice_events ch d0)
          in (e0 @ e1 @ usage_events (ckUsage c), d1))"

definition done_events :: "stream_decoder \<Rightarrow> provider_event list \<times> stream_decoder" where
  "done_events d =
     (let hasTools = (sdSeenToolIDs d \<noteq> []);
          hasContent = (sdThinkingOpen d \<or> sdTextOpen d \<or> hasTools);
          (evs, d1) = finish_stream d
      in (evs @ (if \<not> sdFinishEmitted d1 \<and> hasContent
                 then [EvMessageStop (if hasTools then StopToolUse else StopEndTurn) None] else []), d1))"

definition feed :: "(string \<Rightarrow> string + chunk) \<Rightarrow> string \<Rightarrow> stream_decoder \<Rightarrow> provider_event list \<times> stream_decoder" where
  "feed dec data d =
     (if data = ''[DONE]'' then done_events d
      else case dec data of Inl e \<Rightarrow> ([EvError (errorf e)], d) | Inr c \<Rightarrow> chunk_events c d)"

fun feed_all :: "(string \<Rightarrow> string + chunk) \<Rightarrow> string list \<Rightarrow> stream_decoder \<Rightarrow> provider_event list \<times> stream_decoder" where
  "feed_all dec [] d = ([], d)"
| "feed_all dec (p # ps) d =
     (let (evs, d1) = feed dec p d; (evs', d2) = feed_all dec ps d1 in (evs @ evs', d2))"

text \<open>\<open>streamEvents\<close>: the events of a response body.\<close>

definition oa_stream_events :: "(string \<Rightarrow> string + chunk) \<Rightarrow> string \<Rightarrow> lerr option \<Rightarrow> provider_event list" where
  "oa_stream_events dec body rerr =
     (let (ps, err) = stream_body body rerr in fst (feed_all dec ps new_stream_decoder) @ err)"

subsection \<open>What a response says, and the answer it stands for\<close>

text \<open>
  Declaratively: the reasoning and the text of a response are the concatenations of its
  fragments, its calls are the fragments that first use their provider index, and the arguments
  of a call are the concatenation of the fragments of its index.
\<close>

definition chunk_choices :: "chunk list \<Rightarrow> choice list" where
  "chunk_choices cs = concat (map (\<lambda>c. take 1 (ckChoices c)) cs)"

definition all_reasoning :: "choice list \<Rightarrow> string" where
  "all_reasoning chs = concat (map choice_reasoning chs)"

definition all_content :: "choice list \<Rightarrow> string" where
  "all_content chs = concat (map chContent chs)"

definition all_deltas :: "choice list \<Rightarrow> tool_delta list" where
  "all_deltas chs = concat (map chToolCalls chs)"

definition add_start :: "tool_delta \<Rightarrow> tool_delta list \<Rightarrow> tool_delta list" where
  "add_start tc st = (if tcIndex tc \<in> set (map tcIndex st) then st else st @ [tc])"

definition tool_starts :: "tool_delta list \<Rightarrow> tool_delta list" where
  "tool_starts tcs = fold add_start tcs []"

definition arguments_of :: "int \<Rightarrow> tool_delta list \<Rightarrow> string" where
  "arguments_of i tcs = concat (map tcArguments (filter (\<lambda>tc. tcIndex tc = i) tcs))"

definition answer_pieces :: "string \<Rightarrow> string \<Rightarrow> tool_delta list \<Rightarrow> piece list" where
  "answer_pieces r x tcs =
     (if r = '''' then [] else [\<lparr>pcIndex = 0, pcBlock = thinking_block '''' '''', pcDeltas = [(r, '''')]\<rparr>]) @
     (if x = '''' then [] else [\<lparr>pcIndex = 1, pcBlock = text_block '''', pcDeltas = [(x, '''')]\<rparr>]) @
     map (\<lambda>tc. \<lparr>pcIndex = tcIndex tc, pcBlock = tool_use_block (tcID tc) (tcName tc) (Some []) '''',
                 pcDeltas = [(arguments_of (tcIndex tc) tcs, '''')]\<rparr>) (tool_starts tcs)"

text \<open>
  The order a gateway keeps: reasoning before text; a call is named (its id) by its first
  fragment, and later fragments of its index carry the same id or none.
\<close>

fun reasoning_first :: "bool \<Rightarrow> choice list \<Rightarrow> bool" where
  "reasoning_first texted [] = True"
| "reasoning_first texted (ch # chs) =
     ((texted \<longrightarrow> choice_reasoning ch = '''') \<and> reasoning_first (texted \<or> chContent ch \<noteq> '''') chs)"

definition delta_ok :: "tool_delta list \<Rightarrow> tool_delta \<Rightarrow> bool" where
  "delta_ok st tc =
     (case find (\<lambda>s. tcIndex s = tcIndex tc) st of
        None \<Rightarrow> tcID tc \<noteq> '''' | Some s \<Rightarrow> tcID tc = '''' \<or> tcID tc = tcID s)"

fun deltas_ok :: "tool_delta list \<Rightarrow> tool_delta list \<Rightarrow> bool" where
  "deltas_ok st [] = True"
| "deltas_ok st (tc # tcs) = (delta_ok st tc \<and> deltas_ok (add_start tc st) tcs)"

subsection \<open>The decoder keeps pace with the loop\<close>

definition tool_acc :: "tool_delta list \<Rightarrow> tool_delta \<Rightarrow> accumulator" where
  "tool_acc tcs tc = (new_acc (tool_use_block (tcID tc) (tcName tc) (Some []) ''''))
     \<lparr>acJson := arguments_of (tcIndex tc) tcs\<rparr>"

definition thinking_acc :: "string \<Rightarrow> accumulator" where
  "thinking_acc r = (new_acc (thinking_block '''' ''''))\<lparr>acText := r\<rparr>"

definition text_acc :: "string \<Rightarrow> accumulator" where
  "text_acc x = (new_acc (text_block ''''))\<lparr>acText := x\<rparr>"

definition open_at :: "string \<Rightarrow> string \<Rightarrow> tool_delta list \<Rightarrow> int \<Rightarrow> accumulator option" where
  "open_at r x tcs k =
     (if k = 0 then (if r \<noteq> '''' \<and> x = '''' then Some (thinking_acc r) else None)
      else if k = 1 then (if x \<noteq> '''' then Some (text_acc x) else None)
      else if 2 \<le> k \<and> k - 2 < int (length (tool_starts tcs))
        then Some (tool_acc tcs (tool_starts tcs ! nat (k - 2))) else None)"

definition numbered :: "(int \<Rightarrow> 'a \<Rightarrow> 'k \<times> 'v) \<Rightarrow> 'a list \<Rightarrow> ('k \<times> 'v) list" where
  "numbered f xs = map (\<lambda>k. f (int k) (xs ! k)) [0..<length xs]"

definition decodes :: "string \<Rightarrow> string \<Rightarrow> tool_delta list \<Rightarrow> (string \<Rightarrow> string + jargs) \<Rightarrow>
    stream_decoder \<Rightarrow> turn \<Rightarrow> bool" where
  "decodes r x tcs parse d t =
     (sdThinkingOpen d = (r \<noteq> '''' \<and> x = '''') \<and> sdTextOpen d = (x \<noteq> '''') \<and> \<not> sdFinishEmitted d \<and>
      sdSeenToolIDs d = numbered (\<lambda>k tc. (k, tcID tc)) (tool_starts tcs) \<and>
      sdCanonical d = numbered (\<lambda>k tc. (tcIndex tc, k)) (tool_starts tcs) \<and>
      sdNextToolIndex d = int (length (tool_starts tcs)) \<and>
      mget (tuOpen t) = open_at r x tcs \<and>
      tuContent t = (if r \<noteq> '''' \<and> x \<noteq> '''' then map (assemble parse) (answer_pieces r '''' []) else []) \<and>
      tuCalls t = [])"

lemma tool_starts_snoc: "tool_starts (tcs @ [tc]) = add_start tc (tool_starts tcs)"
  by (simp add: tool_starts_def)

lemma tool_starts_Nil [simp]: "tool_starts [] = []"
  by (simp add: tool_starts_def)

lemma tool_starts_distinct: "distinct (map tcIndex (tool_starts tcs))"
  by (induction tcs rule: rev_induct) (simp_all add: tool_starts_snoc add_start_def)

lemma tool_starts_index: "set (map tcIndex (tool_starts tcs)) = tcIndex ` set tcs"
  by (induction tcs rule: rev_induct) (auto simp: tool_starts_snoc add_start_def)

lemma arguments_snoc:
  "arguments_of i (tcs @ [tc]) = arguments_of i tcs @ (if tcIndex tc = i then tcArguments tc else '''')"
  by (simp add: arguments_of_def)

lemma arguments_fresh: "i \<notin> tcIndex ` set tcs \<Longrightarrow> arguments_of i tcs = ''''"
  by (induction tcs) (auto simp: arguments_of_def)

lemma indexed_snoc: "numbered f (xs @ [x]) = numbered f xs @ [f (int (length xs)) x]"
  by (simp add: numbered_def nth_append)

lemma numbered_Nil [simp]: "numbered f [] = []"
  by (simp add: numbered_def)

lemma numbered_get_index:
  "mget (numbered (\<lambda>k tc. (k, g tc)) xs) i =
     (if 0 \<le> i \<and> i < int (length xs) then Some (g (xs ! nat i)) else None)"
proof (induction xs rule: rev_induct)
  case (snoc x xs)
  then show ?case
    by (auto simp: indexed_snoc mget_snoc nth_append split: option.split)
qed simp

lemma numbered_get_key:
  assumes "distinct (map g xs)"
  shows "mget (numbered (\<lambda>k tc. (g tc, k)) xs) i = Some j \<longleftrightarrow>
    0 \<le> j \<and> j < int (length xs) \<and> g (xs ! nat j) = i"
  using assms
proof (induction xs rule: rev_induct)
  case (snoc x xs)
  have n: "mget (numbered (\<lambda>k tc. (g tc, k)) xs) (g x) = None"
  proof (rule ccontr)
    assume "mget (numbered (\<lambda>k tc. (g tc, k)) xs) (g x) \<noteq> None"
    then have "g x \<in> set (map fst (numbered (\<lambda>k tc. (g tc, k)) xs))"
      by (simp add: mget_def map_of_eq_None_iff)
    then have "g x \<in> g ` set xs" by (auto simp: numbered_def)
    with snoc.prems show False by simp
  qed
  have "mget (numbered (\<lambda>k tc. (g tc, k)) xs @ [(g x, int (length xs))]) i = Some j \<longleftrightarrow>
      mget (numbered (\<lambda>k tc. (g tc, k)) xs) i = Some j \<or> i = g x \<and> j = int (length xs)"
    using n by (auto simp: mget_snoc split: option.split)
  moreover have "j < 1 + int (length xs) \<longleftrightarrow> j < int (length xs) \<or> j = int (length xs)" by auto
  ultimately show ?case
    using snoc by (auto simp: indexed_snoc nth_append)
qed simp

lemma numbered_keys: "mkeys (numbered (\<lambda>k tc. (k, g tc)) xs) = map int [0..<length xs]"
  by (simp add: numbered_def mkeys_def)


lemma acc_pieces:
  "thinking_acc r = acc_fold [(r, '''')] (new_acc (thinking_block '''' ''''))"
  "text_acc x = acc_fold [(x, '''')] (new_acc (text_block ''''))"
  "tool_acc tcs tc = acc_fold [(arguments_of (tcIndex tc) tcs, '''')]
     (new_acc (tool_use_block (tcID tc) (tcName tc) (Some []) ''''))"
  by (simp_all add: thinking_acc_def text_acc_def tool_acc_def new_acc_def acc_append_def
      acc_append_signature_def)

lemma acc_append_more:
  "acc_append_signature '''' (acc_append g (thinking_acc r)) = thinking_acc (r @ g)"
  "acc_append_signature '''' (acc_append g (text_acc x)) = text_acc (x @ g)"
  "acc_append_signature '''' (acc_append g (new_acc (thinking_block '''' ''''))) = thinking_acc g"
  "acc_append_signature '''' (acc_append g (new_acc (text_block ''''))) = text_acc g"
  by (simp_all add: thinking_acc_def text_acc_def new_acc_def acc_append_def
      acc_append_signature_def)

lemma acc_append_tool:
  "acc_append_signature '''' (acc_append (tcArguments tc) (tool_acc tcs s)) =
     (tool_acc tcs s)\<lparr>acJson := arguments_of (tcIndex s) tcs @ tcArguments tc\<rparr>"
  by (simp add: tool_acc_def new_acc_def acc_append_def acc_append_signature_def)

definition same_end :: "turn \<Rightarrow> turn \<Rightarrow> bool" where
  "same_end t t' = (tuStop t' = tuStop t \<and> tuUsage t' = tuUsage t)"

lemma decodes_reasoning:
  assumes "decodes r x tcs parse d t" "g \<noteq> '''' \<longrightarrow> x = ''''" "reasoning_events g d = (evs, d')"
  shows "\<exists>t'. turn_events parse evs t = Some t' \<and> decodes (r @ g) x tcs parse d' t' \<and> same_end t t'"
proof (cases "g = ''''")
  case True
  with assms show ?thesis by (auto simp: reasoning_events_def same_end_def)
next
  case False
  let ?t = "t\<lparr>tuOpen := mput 0 (thinking_acc (r @ g)) (tuOpen t)\<rparr>"
  let ?u = "t\<lparr>tuOpen := mput 0 (thinking_acc (r @ g)) (mput 0 (new_acc (thinking_block '''' '''')) (tuOpen t))\<rparr>"
  have x: "x = ''''" using False assms(2) by simp
  have o: "mget (tuOpen t) = open_at r x tcs" and th: "sdThinkingOpen d = (r \<noteq> '''')"
    using assms(1) x by (simp_all add: decodes_def)
  have d': "d' = d\<lparr>sdThinkingOpen := True\<rparr>" using assms(3) False by (auto simp: reasoning_events_def)
  have n: "open_at (r @ g) x tcs = (open_at r x tcs)(0 := Some (thinking_acc (r @ g)))"
    using False x by (auto simp: open_at_def fun_eq_iff)
  have "decodes (r @ g) x tcs parse d' ?t" "decodes (r @ g) x tcs parse d' ?u"
    using assms(1) False x n by (auto simp: decodes_def d' fun_eq_iff)
  moreover have "turn_events parse evs t = Some (if r = '''' then ?u else ?t)"
    using assms(3) False o x th
    by (auto simp: reasoning_events_def thinkingIndex_def open_at_def acc_append_more)
  ultimately show ?thesis by (auto simp: same_end_def)
qed

lemma decodes_content:
  assumes "decodes r x tcs parse d t" "content_events g d = (evs, d')"
  shows "\<exists>t'. turn_events parse evs t = Some t' \<and> decodes r (x @ g) tcs parse d' t' \<and> same_end t t'"
proof (cases "g = ''''")
  case True
  with assms show ?thesis by (auto simp: content_events_def same_end_def)
next
  case False
  have o: "mget (tuOpen t) = open_at r x tcs" and th: "sdThinkingOpen d = (r \<noteq> '''' \<and> x = '''')"
    and tx: "sdTextOpen d = (x \<noteq> '''')" using assms(1) by (simp_all add: decodes_def)
  have d': "d' = d\<lparr>sdThinkingOpen := False, sdTextOpen := True\<rparr>"
    using assms(2) False by (auto simp: content_events_def)
  let ?e1 = "if sdThinkingOpen d then [EvBlockStop thinkingIndex] else []"
  let ?e2 = "(if sdTextOpen d then [] else [EvBlockStart textIndex (Some (text_block ''''))]) @ [EvBlockDelta textIndex g '''']"
  have evs: "evs = ?e1 @ ?e2" using assms(2) False by (auto simp: content_events_def)
  let ?think = "map (assemble parse) (answer_pieces r '''' [])"
  have "\<exists>t1. turn_events parse ?e1 t = Some t1 \<and> mget (tuOpen t1) = (open_at r x tcs)(0 := None) \<and>
      tuContent t1 = (if r \<noteq> '''' then ?think else []) \<and> tuCalls t1 = [] \<and> same_end t t1"
  proof (cases "sdThinkingOpen d")
    case True
    then have r: "r \<noteq> ''''" "x = ''''" using th by auto
    let ?p = "\<lparr>pcIndex = 0, pcBlock = thinking_block '''' '''', pcDeltas = [(r, '''')]\<rparr>"
    have f: "finalized_turn parse (thinking_acc r) t = t\<lparr>tuContent := tuContent t @ [assemble parse ?p],
        tuCalls := tuCalls t @ piece_call parse ?p\<rparr>"
      using finalized_piece [of parse ?p t] by (simp add: acc_pieces)
    have c: "piece_call parse ?p = []"
      by (simp add: piece_call_def assemble_type)
    have "mget (tuOpen t) 0 = Some (thinking_acc r)" using o r by (simp add: open_at_def)
    with True r f c assms(1) o show ?thesis
      by (simp add: thinkingIndex_def same_end_def decodes_def answer_pieces_def fun_eq_iff)
  next
    case False
    then have "r = '''' \<or> x \<noteq> ''''" using th by auto
    with False assms(1) o show ?thesis
      by (auto simp: same_end_def decodes_def open_at_def fun_eq_iff)
  qed
  then obtain t1 where t1: "turn_events parse ?e1 t = Some t1" "mget (tuOpen t1) = (open_at r x tcs)(0 := None)"
    "tuContent t1 = (if r \<noteq> '''' then ?think else [])" "tuCalls t1 = []" "same_end t t1" by blast
  let ?t = "t1\<lparr>tuOpen := mput 1 (text_acc (x @ g)) (tuOpen t1)\<rparr>"
  let ?u = "t1\<lparr>tuOpen := mput 1 (text_acc (x @ g)) (mput 1 (new_acc (text_block '''')) (tuOpen t1))\<rparr>"
  have n: "open_at r (x @ g) tcs = (open_at r x tcs)(0 := None, 1 := Some (text_acc (x @ g)))"
    using False by (auto simp: open_at_def fun_eq_iff)
  have "decodes r (x @ g) tcs parse d' ?t" "decodes r (x @ g) tcs parse d' ?u"
    using assms(1) False n t1 by (auto simp: decodes_def d' fun_eq_iff)
  moreover have "turn_events parse ?e2 t1 = Some (if x = '''' then ?u else ?t)"
    using t1(2) tx by (auto simp: textIndex_def open_at_def acc_append_more)
  ultimately show ?thesis
    using t1 unfolding evs turn_events_append by (auto simp: same_end_def)
qed


lemma find_start:
  "find (\<lambda>s. tcIndex s = tcIndex tc) st = Some s \<Longrightarrow>
     \<exists>j < length st. st ! j = s \<and> tcIndex s = tcIndex tc"
  by (auto simp: find_Some_iff)

lemma find_no_start:
  "find (\<lambda>s. tcIndex s = i) st = None \<longleftrightarrow> i \<notin> set (map tcIndex st)"
  by (auto simp: find_None_iff)

lemma tool_acc_snoc:
  "tool_acc (tcs @ [tc]) s =
     (if tcIndex s = tcIndex tc
      then (tool_acc tcs s)\<lparr>acJson := arguments_of (tcIndex s) tcs @ tcArguments tc\<rparr>
      else tool_acc tcs s)"
  by (simp add: tool_acc_def arguments_snoc)

lemma start_index: "j < length st \<Longrightarrow> tcIndex (st ! j) \<in> set (map tcIndex st)"
  by simp

lemma start_fresh:
  assumes "i \<notin> set (map tcIndex st)" "0 \<le> j" "j < int (length st)"
  shows "tcIndex (st ! nat j) \<noteq> i"
  using assms start_index [of "nat j" st] by (metis nat_less_iff)

lemma decodes_new_call:
  assumes "decodes r x tcs parse d t" "tcIndex tc \<notin> set (map tcIndex (tool_starts tcs))" "tcID tc \<noteq> ''''"
    "tool_delta_events tc d = (evs, d')"
  shows "\<exists>t'. turn_events parse evs t = Some t' \<and> decodes r x (tcs @ [tc]) parse d' t' \<and> same_end t t'"
proof -
  let ?st = "tool_starts tcs" and ?n = "int (length (tool_starts tcs))"
  let ?b = "tool_use_block (tcID tc) (tcName tc) (Some []) ''''"
  have canon: "sdCanonical d = numbered (\<lambda>k tc. (tcIndex tc, k)) ?st" and nx: "sdNextToolIndex d = ?n"
    and seen: "sdSeenToolIDs d = numbered (\<lambda>k tc. (k, tcID tc)) ?st"
    and o: "mget (tuOpen t) = open_at r x tcs"
    using assms(1) by (simp_all add: decodes_def)
  have "mget (sdCanonical d) (tcIndex tc) \<noteq> Some j" for j
    unfolding canon numbered_get_key [OF tool_starts_distinct]
    using start_fresh [OF assms(2)] by auto
  then have c: "mget (sdCanonical d) (tcIndex tc) = None" by auto
  have s: "mget (sdSeenToolIDs d) ?n = None" unfolding seen numbered_get_index by simp
  have st: "tool_starts (tcs @ [tc]) = ?st @ [tc]" using assms(2) by (simp add: tool_starts_snoc add_start_def)
  let ?a = "tool_acc (tcs @ [tc]) tc"
  have argnil: "arguments_of (tcIndex tc) tcs = ''''"
    using assms(2) arguments_fresh tool_starts_index by metis
  have a: "?a = acc_append_signature '''' (acc_append (tcArguments tc) (new_acc ?b))"
    using argnil by (simp add: tool_acc_def arguments_snoc new_acc_def acc_append_def acc_append_signature_def)
  have d': "d' = d\<lparr>sdNextToolIndex := ?n + 1, sdCanonical := mput (tcIndex tc) ?n (sdCanonical d),
      sdSeenToolIDs := mput ?n (tcID tc) (sdSeenToolIDs d)\<rparr>"
    and evs: "evs = EvBlockStart (?n + 2) (Some ?b) #
      (if tcArguments tc \<noteq> '''' then [EvBlockDelta (?n + 2) (tcArguments tc) ''''] else [])"
    using assms(3,4) c nx by (auto simp: tool_delta_events_def alloc_call_def toolBaseIndex_def Let_def)
  have fresh: "mget (tuOpen t) (?n + 2) = None" using o by (simp add: open_at_def)
  have n: "open_at r x (tcs @ [tc]) = (open_at r x tcs)(?n + 2 := Some ?a)"
  proof
    fix k
    have "tcIndex (?st ! nat (k - 2)) \<noteq> tcIndex tc" if "2 \<le> k" "k - 2 < ?n"
      using that start_fresh [OF assms(2)] by auto
    then show "open_at r x (tcs @ [tc]) k = ((open_at r x tcs)(?n + 2 := Some ?a)) k"
      unfolding open_at_def st by (auto simp: nth_append tool_acc_snoc)
  qed
  have "tool_delta_events tc d = (evs, d')" by (rule assms(4))
  let ?t = "t\<lparr>tuOpen := mput (?n + 2) ?a (mput (?n + 2) (new_acc ?b) (tuOpen t))\<rparr>"
  let ?u = "t\<lparr>tuOpen := mput (?n + 2) (new_acc ?b) (tuOpen t)\<rparr>"
  have u: "?a = new_acc ?b" if "tcArguments tc = ''''"
    using that by (simp add: a acc_append_def acc_append_signature_def new_acc_def)
  have dec: "decodes r x (tcs @ [tc]) parse d' u" if "mget (tuOpen u) = open_at r x (tcs @ [tc])"
    "tuContent u = tuContent t" "tuCalls u = tuCalls t" for u
    using that assms(1) c s by (simp add: decodes_def d' st indexed_snoc canon [symmetric] seen [symmetric] mput_fresh)
  have "turn_events parse evs t = Some (if tcArguments tc = '''' then ?u else ?t)"
    using fresh by (simp add: evs a)
  moreover have "decodes r x (tcs @ [tc]) parse d' ?t"
    by (rule dec) (simp_all add: n o fun_eq_iff)
  moreover have "decodes r x (tcs @ [tc]) parse d' ?u" if "tcArguments tc = ''''"
    by (rule dec) (simp_all add: n o u [OF that] fun_eq_iff)
  ultimately show ?thesis by (auto simp: same_end_def)
qed

lemma decodes_more_arguments:
  assumes "decodes r x tcs parse d t" "find (\<lambda>s. tcIndex s = tcIndex tc) (tool_starts tcs) = Some s"
    "tcID tc = '''' \<or> tcID tc = tcID s" "tool_delta_events tc d = (evs, d')"
  shows "\<exists>t'. turn_events parse evs t = Some t' \<and> decodes r x (tcs @ [tc]) parse d' t' \<and> same_end t t'"
proof -
  let ?st = "tool_starts tcs"
  obtain j where j: "j < length ?st" "?st ! j = s" "tcIndex s = tcIndex tc"
    using find_start [OF assms(2)] by blast
  have canon: "sdCanonical d = numbered (\<lambda>k tc. (tcIndex tc, k)) ?st"
    and seen: "sdSeenToolIDs d = numbered (\<lambda>k tc. (k, tcID tc)) ?st"
    and o: "mget (tuOpen t) = open_at r x tcs"
    using assms(1) by (simp_all add: decodes_def)
  have c: "mget (sdCanonical d) (tcIndex tc) = Some (int j)"
    unfolding canon numbered_get_key [OF tool_starts_distinct] using j by simp
  have s: "mget (sdSeenToolIDs d) (int j) = Some (tcID s)" unfolding seen numbered_get_index using j by simp
  have st: "tool_starts (tcs @ [tc]) = ?st"
    using j start_index [of j ?st] by (auto simp: tool_starts_snoc add_start_def)
  let ?a = "tool_acc (tcs @ [tc]) s"
  have a: "?a = acc_append_signature '''' (acc_append (tcArguments tc) (tool_acc tcs s))"
    unfolding acc_append_tool using j by (simp add: tool_acc_snoc)
  have d': "d' = d" and evs: "evs = (if tcArguments tc \<noteq> ''''
      then [EvBlockDelta (int j + 2) (tcArguments tc) ''''] else [])"
    using assms(3,4) c s by (auto simp: tool_delta_events_def known_index_def toolBaseIndex_def split: if_splits)
  have at: "mget (tuOpen t) (int j + 2) = Some (tool_acc tcs s)" using o j by (simp add: open_at_def)
  have n: "open_at r x (tcs @ [tc]) = (open_at r x tcs)(int j + 2 := Some ?a)"
  proof
    fix k
    have "tcIndex (?st ! nat (k - 2)) \<noteq> tcIndex tc" if "2 \<le> k" "k - 2 < int (length ?st)" "k \<noteq> int j + 2"
    proof
      assume "tcIndex (?st ! nat (k - 2)) = tcIndex tc"
      then have "map tcIndex ?st ! nat (k - 2) = map tcIndex ?st ! j" using j that by simp
      then have "nat (k - 2) = j"
        using nth_eq_iff_index_eq [OF tool_starts_distinct [of tcs], of "nat (k - 2)" j] j that by simp
      with that show False by simp
    qed
    then show "open_at r x (tcs @ [tc]) k = ((open_at r x tcs)(int j + 2 := Some ?a)) k"
      unfolding open_at_def st using j by (auto simp: tool_acc_snoc)
  qed
  have dec: "decodes r x (tcs @ [tc]) parse d' u" if "mget (tuOpen u) = open_at r x (tcs @ [tc])"
    "tuContent u = tuContent t" "tuCalls u = tuCalls t" for u
    using that assms(1) by (simp add: decodes_def d' st)
  show ?thesis
  proof (cases "tcArguments tc = ''''")
    case True
    then have "open_at r x (tcs @ [tc]) = open_at r x tcs"
      using n at o a by (auto simp: acc_append_def acc_append_signature_def tool_acc_def new_acc_def fun_eq_iff)
    then have "decodes r x (tcs @ [tc]) parse d' t" using o by (intro dec) simp_all
    with True show ?thesis by (auto simp: evs same_end_def)
  next
    case False
    let ?t = "t\<lparr>tuOpen := mput (int j + 2) ?a (tuOpen t)\<rparr>"
    have "turn_events parse evs t = Some ?t" using False at by (simp add: evs a)
    moreover have "decodes r x (tcs @ [tc]) parse d' ?t" by (rule dec) (simp_all add: n o fun_eq_iff)
    ultimately show ?thesis by (auto simp: same_end_def)
  qed
qed

lemma decodes_tools:
  assumes "decodes r x tcs parse d t" "deltas_ok (tool_starts tcs) new" "tool_events new d = (evs, d')"
  shows "\<exists>t'. turn_events parse evs t = Some t' \<and> decodes r x (tcs @ new) parse d' t' \<and> same_end t t'"
  using assms
proof (induction new arbitrary: tcs d t evs)
  case Nil
  then show ?case by (auto simp: same_end_def)
next
  case (Cons tc new)
  obtain e1 d1 where 1: "tool_delta_events tc d = (e1, d1)" by force
  obtain e2 where 2: "tool_events new d1 = (e2, d')" "evs = e1 @ e2"
    using Cons.prems(3) 1 by (auto split: prod.splits)
  have ok: "delta_ok (tool_starts tcs) tc" "deltas_ok (tool_starts (tcs @ [tc])) new"
    using Cons.prems(2) by (simp_all add: tool_starts_snoc)
  have "\<exists>t'. turn_events parse e1 t = Some t' \<and> decodes r x (tcs @ [tc]) parse d1 t' \<and> same_end t t'"
  proof (cases "find (\<lambda>s. tcIndex s = tcIndex tc) (tool_starts tcs)")
    case None
    with ok(1) show ?thesis
      by (intro decodes_new_call [OF Cons.prems(1) _ _ 1]) (simp_all add: delta_ok_def find_no_start)
  next
    case (Some s)
    with ok(1) show ?thesis
      by (intro decodes_more_arguments [OF Cons.prems(1) Some _ 1]) (simp add: delta_ok_def)
  qed
  then obtain t1 where t1: "turn_events parse e1 t = Some t1" "decodes r x (tcs @ [tc]) parse d1 t1" "same_end t t1"
    by blast
  from Cons.IH [OF t1(2) ok(2) 2(1)] t1 show ?case
    by (auto simp: 2(2) turn_events_append same_end_def)
qed


lemma turn_stops:
  assumes "distinct (map fst ips)"
    and "\<And>i p. (i, p) \<in> set ips \<Longrightarrow> mget (tuOpen t) i = Some (acc_fold (pcDeltas p) (new_acc (pcBlock p)))"
  shows "\<exists>t'. turn_events parse (map (\<lambda>ip. EvBlockStop (fst ip)) ips) t = Some t' \<and>
    tuContent t' = tuContent t @ map (assemble parse) (map snd ips) \<and>
    tuCalls t' = tuCalls t @ concat (map (piece_call parse) (map snd ips)) \<and>
    (\<forall>i. mget (tuOpen t') i = (if i \<in> set (map fst ips) then None else mget (tuOpen t) i)) \<and> same_end t t'"
  using assms
proof (induction ips arbitrary: t)
  case Nil
  then show ?case by (simp add: same_end_def)
next
  case (Cons ip ips)
  obtain i p where ip: "ip = (i, p)" by force
  let ?t = "t\<lparr>tuContent := tuContent t @ [assemble parse p], tuCalls := tuCalls t @ piece_call parse p,
      tuOpen := mdel i (tuOpen t)\<rparr>"
  have 1: "turn_event parse (EvBlockStop i) t = Some ?t"
    using Cons.prems(2) [of i p] finalized_piece [of parse p t] by (simp add: ip)
  have "mget (tuOpen ?t) j = Some (acc_fold (pcDeltas q) (new_acc (pcBlock q)))" if "(j, q) \<in> set ips" for j q
    using Cons.prems(1) Cons.prems(2) [of j q] that by (force simp: ip)
  from Cons.IH [of ?t, OF _ this] Cons.prems(1) obtain t' where
    "turn_events parse (map (\<lambda>ip. EvBlockStop (fst ip)) ips) ?t = Some t'"
    "tuContent t' = tuContent ?t @ map (assemble parse) (map snd ips)"
    "tuCalls t' = tuCalls ?t @ concat (map (piece_call parse) (map snd ips))"
    "\<forall>i. mget (tuOpen t') i = (if i \<in> set (map fst ips) then None else mget (tuOpen ?t) i)" "same_end ?t t'"
    by auto
  with 1 show ?case by (intro exI [of _ t']) (auto simp: ip same_end_def)
qed

definition tool_piece :: "tool_delta list \<Rightarrow> tool_delta \<Rightarrow> piece" where
  "tool_piece tcs tc = \<lparr>pcIndex = tcIndex tc, pcBlock = tool_use_block (tcID tc) (tcName tc) (Some []) '''',
     pcDeltas = [(arguments_of (tcIndex tc) tcs, '''')]\<rparr>"

lemma answer_pieces_tools:
  "answer_pieces r x tcs = answer_pieces r '''' [] @ answer_pieces '''' x [] @ map (tool_piece tcs) (tool_starts tcs)"
  by (simp add: answer_pieces_def tool_piece_def [abs_def])

lemma numbered_map: "map g (numbered f xs) = numbered (\<lambda>k x. g (f k x)) xs"
  by (simp add: numbered_def)

lemma numbered_forget: "numbered (\<lambda>k x. h x) xs = map h xs"
  by (induction xs rule: rev_induct) (simp_all add: indexed_snoc)

lemma text_piece_calls [simp]:
  "concat (map (piece_call parse) (answer_pieces r x [])) = []"
  by (simp add: answer_pieces_def piece_call_def assemble_type)

definition open_pieces :: "string \<Rightarrow> string \<Rightarrow> tool_delta list \<Rightarrow> (int \<times> piece) list" where
  "open_pieces r x tcs =
     (if r \<noteq> '''' \<and> x = '''' then [(0, hd (answer_pieces r '''' []))] else []) @
     (if x \<noteq> '''' then [(1, hd (answer_pieces '''' x []))] else []) @
     map (\<lambda>k. (int k + 2, tool_piece tcs (tool_starts tcs ! k))) [0..<length (tool_starts tcs)]"

lemma open_pieces_distinct: "distinct (map fst (open_pieces r x tcs))"
  by (auto simp: open_pieces_def distinct_map comp_def inj_on_def)

lemma open_pieces_at:
  assumes "(i, p) \<in> set (open_pieces r x tcs)"
  shows "open_at r x tcs i = Some (acc_fold (pcDeltas p) (new_acc (pcBlock p)))"
proof -
  consider "i = 0" "r \<noteq> ''''" "x = ''''" "p = hd (answer_pieces r '''' [])"
    | "i = 1" "x \<noteq> ''''" "p = hd (answer_pieces '''' x [])"
    | k where "k < length (tool_starts tcs)" "i = int k + 2" "p = tool_piece tcs (tool_starts tcs ! k)"
    using assms by (auto simp: open_pieces_def split: if_splits)
  then show ?thesis
  proof cases
    case 1
    then show ?thesis by (simp add: open_at_def acc_pieces answer_pieces_def del: acc_fold_simps)
  next
    case 2
    then show ?thesis by (simp add: open_at_def acc_pieces answer_pieces_def del: acc_fold_simps)
  next
    case 3
    then show ?thesis by (simp add: open_at_def acc_pieces tool_piece_def del: acc_fold_simps)
  qed
qed

lemma open_pieces_none:
  assumes "i \<notin> set (map fst (open_pieces r x tcs))"
  shows "open_at r x tcs i = None"
proof (rule ccontr)
  assume "open_at r x tcs i \<noteq> None"
  then consider "i = 0" "r \<noteq> ''''" "x = ''''" | "i = 1" "x \<noteq> ''''"
    | "2 \<le> i" "i - 2 < int (length (tool_starts tcs))"
    by (auto simp: open_at_def split: if_splits)
  then show False
  proof cases
    case 3
    then have "i = int (nat (i - 2)) + 2" "nat (i - 2) < length (tool_starts tcs)" by auto
    then have "i \<in> (\<lambda>k. int k + 2) ` set [0..<length (tool_starts tcs)]" by force
    with assms show False by (force simp: open_pieces_def)
  qed (use assms in \<open>auto simp: open_pieces_def\<close>)
qed

lemma open_pieces_snd:
  "map snd (open_pieces r x tcs) =
     (if r \<noteq> '''' \<and> x = '''' then answer_pieces r '''' [] else []) @ answer_pieces '''' x [] @
     map (tool_piece tcs) (tool_starts tcs)"
proof -
  have "map (\<lambda>k. tool_piece tcs (tool_starts tcs ! k)) [0..<length (tool_starts tcs)] =
      map (tool_piece tcs) (tool_starts tcs)"
    using map_map [of "tool_piece tcs" "(!) (tool_starts tcs)" "[0..<length (tool_starts tcs)]"]
    by (simp add: comp_def map_nth)
  then show ?thesis
    by (simp add: open_pieces_def answer_pieces_def comp_def)
qed

definition answered_by :: "(string \<Rightarrow> string + jargs) \<Rightarrow> piece list \<Rightarrow> turn \<Rightarrow> bool" where
  "answered_by parse ps t = (tuOpen t = [] \<and> tuContent t = map (assemble parse) ps \<and>
     tuCalls t = concat (map (piece_call parse) ps))"

lemma decodes_finish:
  assumes "decodes r x tcs parse d t" "finish_stream d = (evs, d')"
  shows "\<exists>t'. turn_events parse evs t = Some t' \<and> answered_by parse (answer_pieces r x tcs) t' \<and> same_end t t'"
proof -
  let ?ips = "open_pieces r x tcs"
  have o: "mget (tuOpen t) = open_at r x tcs"
    and c: "tuContent t = (if r \<noteq> '''' \<and> x \<noteq> '''' then map (assemble parse) (answer_pieces r '''' []) else [])"
    "tuCalls t = []" and k: "mkeys (sdSeenToolIDs d) = map int [0..<length (tool_starts tcs)]"
    using assms(1) by (simp_all add: decodes_def numbered_keys)
  have "sorted (map int [0..<length (tool_starts tcs)])" by (simp add: sorted_iff_nth_mono)
  then have "sort (mkeys (sdSeenToolIDs d)) = map int [0..<length (tool_starts tcs)]"
    unfolding k by (rule sort_key_id_if_sorted [of "\<lambda>x. x", simplified])
  then have evs: "evs = map (\<lambda>ip. EvBlockStop (fst ip)) ?ips"
    using assms by (auto simp: finish_stream_def open_pieces_def decodes_def thinkingIndex_def textIndex_def
        toolBaseIndex_def)
  obtain t' where t': "turn_events parse evs t = Some t'"
    "tuContent t' = tuContent t @ map (assemble parse) (map snd ?ips)"
    "tuCalls t' = tuCalls t @ concat (map (piece_call parse) (map snd ?ips))"
    "\<forall>i. mget (tuOpen t') i = (if i \<in> set (map fst ?ips) then None else mget (tuOpen t) i)" "same_end t t'"
    using turn_stops [of ?ips t parse] open_pieces_distinct open_pieces_at unfolding evs o by blast
  have "tuOpen t' = []"
    by (rule mget_None_empty) (use t'(4) o open_pieces_none in auto)
  moreover have "tuContent t' = map (assemble parse) (answer_pieces r x tcs)"
    using t'(2) c unfolding answer_pieces_tools [of r x tcs] open_pieces_snd
    by (auto simp: answer_pieces_def)
  moreover have "tuCalls t' = concat (map (piece_call parse) (answer_pieces r x tcs))"
    using t'(3) c text_piece_calls [of parse r "''''"]
    unfolding answer_pieces_tools [of r x tcs] open_pieces_snd by (simp split: if_splits del: concat_eq_Nil_conv)
  ultimately show ?thesis using t' by (auto simp: answered_by_def)
qed


lemma same_end_trans: "same_end t u \<Longrightarrow> same_end u v \<Longrightarrow> same_end t v"
  by (simp add: same_end_def)

lemma decodes_choice:
  assumes "decodes r x tcs parse d t" "choice_reasoning ch \<noteq> '''' \<longrightarrow> x = ''''"
    "deltas_ok (tool_starts tcs) (chToolCalls ch)" "choice_events ch d = (evs, d')"
  shows "\<exists>t' d1. turn_events parse (fst (choice_events (ch\<lparr>chFinishReason := ''''\<rparr>) d)) t = Some t' \<and>
      decodes (r @ choice_reasoning ch) (x @ chContent ch) (tcs @ chToolCalls ch) parse d1 t' \<and> same_end t t' \<and>
      evs = fst (choice_events (ch\<lparr>chFinishReason := ''''\<rparr>) d) @ fst (finish_events (chFinishReason ch) d1) \<and>
      d' = snd (finish_events (chFinishReason ch) d1)"
proof -
  obtain e1 d1 where 1: "reasoning_events (choice_reasoning ch) d = (e1, d1)" by force
  obtain e2 d2 where 2: "content_events (chContent ch) d1 = (e2, d2)" by force
  obtain e3 d3 where 3: "tool_events (chToolCalls ch) d2 = (e3, d3)" by force
  obtain t1 where t1: "turn_events parse e1 t = Some t1"
    "decodes (r @ choice_reasoning ch) x tcs parse d1 t1" "same_end t t1"
    using decodes_reasoning [OF assms(1,2) 1] by blast
  obtain t2 where t2: "turn_events parse e2 t1 = Some t2"
    "decodes (r @ choice_reasoning ch) (x @ chContent ch) tcs parse d2 t2" "same_end t1 t2"
    using decodes_content [OF t1(2) 2] by blast
  obtain t3 where t3: "turn_events parse e3 t2 = Some t3"
    "decodes (r @ choice_reasoning ch) (x @ chContent ch) (tcs @ chToolCalls ch) parse d3 t3" "same_end t2 t3"
    using decodes_tools [OF t2(2) assms(3) 3] by blast
  have "choice_reasoning (ch\<lparr>chFinishReason := ''''\<rparr>) = choice_reasoning ch"
    by (simp add: choice_reasoning_def)
  then have "fst (choice_events (ch\<lparr>chFinishReason := ''''\<rparr>) d) = e1 @ e2 @ e3"
    using 1 2 3 by (simp add: choice_events_def finish_events_def)
  moreover have "same_end t t3" using t1(3) t2(3) t3(3) same_end_trans by blast
  ultimately show ?thesis
    using t1 t2 t3 1 2 3 assms(4)
    by (intro exI [of _ t3] exI [of _ d3])
      (auto simp: turn_events_append choice_events_def split: prod.splits)
qed

definition usage_total :: "chunk list \<Rightarrow> usage option \<Rightarrow> usage option" where
  "usage_total cs u0 = fold (\<lambda>c u. case ckUsage c of None \<Rightarrow> u
     | Some v \<Rightarrow> merge_usage u (Some (neutral_usage v))) cs u0"

lemma usage_events_turn:
  "turn_events parse (usage_events (ckUsage c)) t = Some (t\<lparr>tuUsage := usage_total [c] (tuUsage t)\<rparr>)"
  by (simp add: usage_events_def usage_total_def split: option.split)

lemma decodes_upd [simp]:
  "decodes r x tcs parse (d\<lparr>sdStarted := b\<rparr>) t = decodes r x tcs parse d t"
  "decodes r x tcs parse d (t\<lparr>tuUsage := u\<rparr>) = decodes r x tcs parse d t"
  by (simp_all add: decodes_def)

text \<open>One chunk of the body: no error, at most one choice that does not finish.\<close>

definition body_chunk :: "chunk \<Rightarrow> bool" where
  "body_chunk c = (ckErr c = None \<and> list_all (\<lambda>ch. chFinishReason ch = '''') (take 1 (ckChoices c)))"

lemma decodes_chunk:
  assumes "decodes r x tcs parse d t" "body_chunk c"
    and "reasoning_first (x \<noteq> '''') (chunk_choices [c])" "deltas_ok (tool_starts tcs) (all_deltas (chunk_choices [c]))"
    and "chunk_events c d = (evs, d')"
  shows "\<exists>t'. turn_events parse evs t = Some t' \<and>
    decodes (r @ all_reasoning (chunk_choices [c])) (x @ all_content (chunk_choices [c]))
      (tcs @ all_deltas (chunk_choices [c])) parse d' t' \<and>
    tuStop t' = tuStop t \<and> tuUsage t' = usage_total [c] (tuUsage t)"
proof (cases "ckChoices c")
  case Nil
  have d: "d' = d\<lparr>sdStarted := True\<rparr>"
    and evs: "evs = (if sdStarted d then [] else [EvMessageStart]) @ usage_events (ckUsage c)"
    using assms(2,5) Nil by (auto simp: chunk_events_def body_chunk_def)
  show ?thesis
    using assms(1) Nil
    by (simp add: evs d turn_events_append usage_events_turn chunk_choices_def all_reasoning_def
        all_content_def all_deltas_def)
next
  case (Cons ch rest)
  have fin: "chFinishReason ch = ''''" and err: "ckErr c = None" using assms(2) Cons by (auto simp: body_chunk_def)
  have chs: "chunk_choices [c] = [ch]" by (simp add: chunk_choices_def Cons)
  obtain e1 where 1: "choice_events ch (d\<lparr>sdStarted := True\<rparr>) = (e1, d')"
    and evs: "evs = (if sdStarted d then [] else [EvMessageStart]) @ e1 @ usage_events (ckUsage c)"
    using assms(5) err Cons by (auto simp: chunk_events_def split: prod.splits)
  have "decodes r x tcs parse (d\<lparr>sdStarted := True\<rparr>) t" using assms(1) by simp
  from decodes_choice [OF this _ _ 1] assms(3,4) fin obtain t1 where t1: "turn_events parse e1 t = Some t1"
    "decodes (r @ choice_reasoning ch) (x @ chContent ch) (tcs @ chToolCalls ch) parse d' t1" "same_end t t1"
    by (auto simp: chs all_deltas_def finish_events_def)
  show ?thesis
    using t1 by (simp add: evs turn_events_append usage_events_turn chs all_reasoning_def all_content_def
        all_deltas_def same_end_def)
qed

text \<open>A whole response: its body, the chunk that finishes it, chunks after it that only report usage.\<close>

definition gateway_response :: "chunk list \<Rightarrow> chunk \<Rightarrow> chunk list \<Rightarrow> bool" where
  "gateway_response cs fin tail =
     (list_all body_chunk cs \<and> list_all (\<lambda>c. ckErr c = None \<and> ckChoices c = []) tail \<and>
      ckErr fin = None \<and> list_ex (\<lambda>ch. chFinishReason ch \<noteq> '''') (take 1 (ckChoices fin)) \<and>
      reasoning_first False (chunk_choices (cs @ [fin])) \<and>
      deltas_ok [] (all_deltas (chunk_choices (cs @ [fin]))))"

lemma chunk_choices_Cons:
  "chunk_choices (c # cs) = chunk_choices [c] @ chunk_choices cs"
  by (simp add: chunk_choices_def)

lemma reasoning_first_append:
  "reasoning_first b (xs @ ys) = (reasoning_first b xs \<and> reasoning_first (b \<or> all_content xs \<noteq> '''') ys)"
  by (induction xs arbitrary: b) (auto simp: all_content_def)

lemma deltas_ok_append:
  "deltas_ok (tool_starts tcs) (xs @ ys) = (deltas_ok (tool_starts tcs) xs \<and> deltas_ok (tool_starts (tcs @ xs)) ys)"
proof (induction xs arbitrary: tcs)
  case (Cons tc xs)
  from Cons.IH [of "tcs @ [tc]"] show ?case by (simp add: tool_starts_snoc)
qed simp

lemma all_append [simp]:
  "all_reasoning (xs @ ys) = all_reasoning xs @ all_reasoning ys"
  "all_content (xs @ ys) = all_content xs @ all_content ys"
  "all_deltas (xs @ ys) = all_deltas xs @ all_deltas ys"
  by (simp_all add: all_reasoning_def all_content_def all_deltas_def)

fun chunks_events :: "chunk list \<Rightarrow> stream_decoder \<Rightarrow> provider_event list \<times> stream_decoder" where
  "chunks_events [] d = ([], d)"
| "chunks_events (c # cs) d =
     (let (evs, d1) = chunk_events c d; (evs', d2) = chunks_events cs d1 in (evs @ evs', d2))"

lemma chunks_events_append:
  "chunks_events (xs @ ys) d =
     (let (e1, d1) = chunks_events xs d; (e2, d2) = chunks_events ys d1 in (e1 @ e2, d2))"
  by (induction xs arbitrary: d) (auto split: prod.split)

lemma decodes_body:
  assumes "decodes r x tcs parse d t" "list_all body_chunk cs"
    and "reasoning_first (x \<noteq> '''') (chunk_choices cs)" "deltas_ok (tool_starts tcs) (all_deltas (chunk_choices cs))"
    and "chunks_events cs d = (evs, d')"
  shows "\<exists>t'. turn_events parse evs t = Some t' \<and>
    decodes (r @ all_reasoning (chunk_choices cs)) (x @ all_content (chunk_choices cs))
      (tcs @ all_deltas (chunk_choices cs)) parse d' t' \<and>
    tuStop t' = tuStop t \<and> tuUsage t' = usage_total cs (tuUsage t)"
  using assms
proof (induction cs arbitrary: r x tcs d t evs)
  case Nil
  then show ?case
    by (simp add: chunk_choices_def all_reasoning_def all_content_def all_deltas_def usage_total_def)
next
  case (Cons c cs)
  obtain e1 d1 where 1: "chunk_events c d = (e1, d1)" by force
  obtain e2 where 2: "chunks_events cs d1 = (e2, d')" "evs = e1 @ e2"
    using Cons.prems(5) 1 by (auto split: prod.splits)
  have ord: "reasoning_first (x \<noteq> '''') (chunk_choices [c])"
    "reasoning_first (x @ all_content (chunk_choices [c]) \<noteq> '''') (chunk_choices cs)"
    "deltas_ok (tool_starts tcs) (all_deltas (chunk_choices [c]))"
    "deltas_ok (tool_starts (tcs @ all_deltas (chunk_choices [c]))) (all_deltas (chunk_choices cs))"
    using Cons.prems(3,4) unfolding chunk_choices_Cons [of c cs]
    by (simp_all add: reasoning_first_append deltas_ok_append)
  obtain t1 where t1: "turn_events parse e1 t = Some t1"
    "decodes (r @ all_reasoning (chunk_choices [c])) (x @ all_content (chunk_choices [c]))
      (tcs @ all_deltas (chunk_choices [c])) parse d1 t1"
    "tuStop t1 = tuStop t" "tuUsage t1 = usage_total [c] (tuUsage t)"
    using decodes_chunk [OF Cons.prems(1) _ ord(1,3) 1] Cons.prems(2) by auto
  from Cons.IH [OF t1(2) _ ord(2,4) 2(1)] Cons.prems(2) obtain t2 where t2:
    "turn_events parse e2 t1 = Some t2"
    "decodes ((r @ all_reasoning (chunk_choices [c])) @ all_reasoning (chunk_choices cs))
      ((x @ all_content (chunk_choices [c])) @ all_content (chunk_choices cs))
      ((tcs @ all_deltas (chunk_choices [c])) @ all_deltas (chunk_choices cs)) parse d' t2"
    "tuStop t2 = tuStop t1" "tuUsage t2 = usage_total cs (tuUsage t1)" by auto
  show ?case
    unfolding chunk_choices_Cons [of c cs] 2(2)
    using t1 t2 by (simp add: turn_events_append usage_total_def)
qed


definition finished :: "stream_decoder \<Rightarrow> bool" where
  "finished d = (\<not> sdThinkingOpen d \<and> \<not> sdTextOpen d \<and> sdSeenToolIDs d = [] \<and> sdFinishEmitted d)"

lemma finish_stream_closed:
  "finish_stream d = (evs, d') \<Longrightarrow> \<not> sdThinkingOpen d' \<and> \<not> sdTextOpen d' \<and> sdSeenToolIDs d' = []"
  by (auto simp: finish_stream_def)

lemma map_finish_reason_known: "f \<noteq> '''' \<Longrightarrow> map_finish_reason f \<noteq> StopUnknown"
  by (simp add: map_finish_reason_def stop_reason_of_def)

lemma decodes_final:
  assumes "decodes r x tcs parse d t" "ckErr c = None" "ckChoices c = ch # rest" "chFinishReason ch \<noteq> ''''"
    and "reasoning_first (x \<noteq> '''') [ch]" "deltas_ok (tool_starts tcs) (chToolCalls ch)"
    and "chunk_events c d = (evs, d')"
  shows "\<exists>t'. turn_events parse evs t = Some t' \<and> finished d' \<and>
    answered_by parse (answer_pieces (r @ choice_reasoning ch) (x @ chContent ch) (tcs @ chToolCalls ch)) t' \<and>
    tuStop t' = map_finish_reason (chFinishReason ch) \<and> tuUsage t' = usage_total [c] (tuUsage t)"
proof -
  obtain e1 where 1: "choice_events ch (d\<lparr>sdStarted := True\<rparr>) = (e1, d')"
    and evs: "evs = (if sdStarted d then [] else [EvMessageStart]) @ e1 @ usage_events (ckUsage c)"
    using assms(2,3,7) by (auto simp: chunk_events_def split: prod.splits)
  have "decodes r x tcs parse (d\<lparr>sdStarted := True\<rparr>) t" using assms(1) by simp
  from decodes_choice [OF this _ assms(6) 1] assms(5) obtain t1 d1 e0 where t1:
    "turn_events parse e0 t = Some t1"
    "decodes (r @ choice_reasoning ch) (x @ chContent ch) (tcs @ chToolCalls ch) parse d1 t1" "same_end t t1"
    "e1 = e0 @ fst (finish_events (chFinishReason ch) d1)" "d' = snd (finish_events (chFinishReason ch) d1)"
    by auto
  obtain ef df where f: "finish_stream d1 = (ef, df)" by force
  obtain t2 where t2: "turn_events parse ef t1 = Some t2"
    "answered_by parse (answer_pieces (r @ choice_reasoning ch) (x @ chContent ch) (tcs @ chToolCalls ch)) t2"
    "same_end t1 t2" using decodes_finish [OF t1(2) f] by blast
  have fe: "finish_events (chFinishReason ch) d1 =
      (ef @ [EvMessageStop (map_finish_reason (chFinishReason ch)) None], df\<lparr>sdFinishEmitted := True\<rparr>)"
    using assms(4) f by (simp add: finish_events_def)
  let ?t = "t2\<lparr>tuStop := map_finish_reason (chFinishReason ch), tuUsage := usage_total [c] (tuUsage t)\<rparr>"
  have "turn_events parse evs t = Some ?t"
    using t1(1,3) t2(1,3) map_finish_reason_known [OF assms(4)]
    by (simp add: evs t1(4) fe turn_events_append usage_events_turn same_end_def)
  moreover have "finished d'" using finish_stream_closed [OF f] by (simp add: t1(5) fe finished_def)
  moreover have "answered_by parse (answer_pieces (r @ choice_reasoning ch) (x @ chContent ch) (tcs @ chToolCalls ch)) ?t"
    using t2(2) by (simp add: answered_by_def)
  ultimately show ?thesis by (intro exI [of _ ?t]) simp
qed

lemma finished_tail:
  assumes "finished d" "list_all (\<lambda>c. ckErr c = None \<and> ckChoices c = []) cs" "chunks_events cs d = (evs, d')"
  shows "turn_events parse evs t = Some (t\<lparr>tuUsage := usage_total cs (tuUsage t)\<rparr>) \<and> finished d'"
  using assms
proof (induction cs arbitrary: d t evs)
  case Nil
  then show ?case by (simp add: usage_total_def)
next
  case (Cons c cs)
  obtain e2 where e2: "chunks_events cs (d\<lparr>sdStarted := True\<rparr>) = (e2, d')"
    and evs: "evs = ((if sdStarted d then [] else [EvMessageStart]) @ usage_events (ckUsage c)) @ e2"
    using Cons.prems by (auto simp: chunk_events_def split: prod.splits)
  have "finished (d\<lparr>sdStarted := True\<rparr>)" using Cons.prems(1) by (simp add: finished_def)
  from Cons.IH [OF this _ e2, of "t\<lparr>tuUsage := usage_total [c] (tuUsage t)\<rparr>"] Cons.prems(2) show ?case
    by (simp add: evs turn_events_append usage_events_turn) (simp add: usage_total_def)
qed

lemma done_finished: "finished d \<Longrightarrow> fst (done_events d) = []"
  by (simp add: done_events_def finish_stream_def finished_def mkeys_def)

lemma feed_all_chunks:
  "map dec ps = map Inr cs \<Longrightarrow> ''[DONE]'' \<notin> set ps \<Longrightarrow>
     fst (feed_all dec (ps @ [''[DONE]'']) d) =
       (let (evs, d1) = chunks_events cs d in evs @ fst (done_events d1))"
proof (induction ps arbitrary: cs d)
  case Nil
  then show ?case by (simp add: feed_def split: prod.split)
next
  case (Cons p ps)
  then obtain c cs' where "cs = c # cs'" "dec p = Inr c" "map dec ps = map Inr cs'" by (cases cs) auto
  moreover obtain e1 d1 where "chunk_events c d = (e1, d1)" by force
  ultimately show ?case
    using Cons.IH [of cs' d1] Cons.prems
    by (cases "feed_all dec (ps @ [''[DONE]'']) d1"; cases "chunks_events cs' d1") (auto simp: feed_def)
qed

lemma decodes_start: "decodes '''' '''' [] parse new_stream_decoder turn_start"
  by (simp add: decodes_def new_stream_decoder_def turn_start_def open_at_def fun_eq_iff)

lemma response_turn:
  assumes "gateway_response cs fin tail" "chunks_events (cs @ fin # tail) new_stream_decoder = (evs, d')"
  shows "\<exists>t. turn_events parse evs turn_start = Some t \<and> finished d' \<and>
    answered_by parse (answer_pieces (all_reasoning (chunk_choices (cs @ [fin])))
      (all_content (chunk_choices (cs @ [fin]))) (all_deltas (chunk_choices (cs @ [fin])))) t \<and>
    tuStop t = map_finish_reason (chFinishReason (hd (ckChoices fin))) \<and>
    tuUsage t = usage_total (cs @ fin # tail) None"
proof -
  obtain ch rest where ch: "ckChoices fin = ch # rest" "chFinishReason ch \<noteq> ''''"
    using assms(1) by (cases "ckChoices fin") (auto simp: gateway_response_def)
  have chs: "chunk_choices (cs @ [fin]) = chunk_choices cs @ [ch]"
    by (simp add: chunk_choices_def ch)
  have body: "list_all body_chunk cs" "reasoning_first False (chunk_choices cs)"
    "deltas_ok (tool_starts []) (all_deltas (chunk_choices cs))"
    "reasoning_first (all_content (chunk_choices cs) \<noteq> '''') [ch]"
    "deltas_ok (tool_starts (all_deltas (chunk_choices cs))) (chToolCalls ch)"
    "ckErr fin = None" "list_all (\<lambda>c. ckErr c = None \<and> ckChoices c = []) tail"
    using assms(1) deltas_ok_append [of "[]" "all_deltas (chunk_choices cs)" "chToolCalls ch"]
    unfolding gateway_response_def chs
    by (simp_all add: reasoning_first_append all_deltas_def)
  obtain e1 d1 where 1: "chunks_events cs new_stream_decoder = (e1, d1)" by force
  obtain e2 d2 where 2: "chunk_events fin d1 = (e2, d2)" by force
  obtain e3 where 3: "chunks_events tail d2 = (e3, d')" "evs = e1 @ e2 @ e3"
    using assms(2) 1 2 by (auto simp: chunks_events_append split: prod.splits)
  obtain t1 where t1: "turn_events parse e1 turn_start = Some t1"
    "decodes (all_reasoning (chunk_choices cs)) (all_content (chunk_choices cs))
      (all_deltas (chunk_choices cs)) parse d1 t1" "tuUsage t1 = usage_total cs None"
    using decodes_body [OF decodes_start body(1) _ body(3) 1] body(2) by (auto simp: turn_start_def)
  obtain t2 where t2: "turn_events parse e2 t1 = Some t2" "finished d2"
    "answered_by parse (answer_pieces (all_reasoning (chunk_choices cs) @ choice_reasoning ch)
      (all_content (chunk_choices cs) @ chContent ch) (all_deltas (chunk_choices cs) @ chToolCalls ch)) t2"
    "tuStop t2 = map_finish_reason (chFinishReason ch)" "tuUsage t2 = usage_total [fin] (tuUsage t1)"
    using decodes_final [OF t1(2) body(6) ch body(4,5) 2] by blast
  from finished_tail [OF t2(2) body(7) 3(1), of parse t2] t1 t2 show ?thesis
    by (auto simp: 3(2) turn_events_append ch chs answered_by_def all_reasoning_def all_content_def
        all_deltas_def usage_total_def)
qed

subsection \<open>Properties\<close>

text \<open>C13: take a response of an OpenAI-compatible gateway in which one choice is reported, reasoning
  comes before text, every tool call has an index of its own whose first fragment carries the id, and
  a finish reason and usage end it (a gateway that collapses parallel calls onto one index is not
  covered), sent as events whose payload lines start with "data: " (with the space), each payload on
  one line. Whatever the line ends, the other header lines and the fragment sizes, and while the run
  is not cancelled and its emitter accepts the frames, the loop's answer is exactly what the response
  says: one thinking block with its reasoning, one text block with its text, one tool use per call it
  starts, in order, with the arguments decoded from the concatenation of the fragments of its index,
  the stop reason it reports and its usage.\<close>
theorem openai_answer_assembled:
  assumes "quiet en" "eStream en (sClock s) (mcRequest c) = Inr (oa_stream_events dec body None)"
    and "body = sse_render cr es" "list_all sse_wf es" "map seData es = ps @ [''[DONE]'']"
    and "map dec ps = map Inr (cs @ fin # tail)" "''[DONE]'' \<notin> set ps" "gateway_response cs fin tail"
  shows "\<exists>r s'. real_attempt en c s = ((r, None), c, s') \<and>
    (let chs = chunk_choices (cs @ [fin]);
         pieces = answer_pieces (all_reasoning chs) (all_content chs) (all_deltas chs)
     in mContent (mrAssistant r) = map (assemble (eParse en)) pieces \<and>
        mrCalls r = concat (map (piece_call (eParse en)) pieces)) \<and>
    mrStop r = map_finish_reason (chFinishReason (hd (ckChoices fin))) \<and>
    mrUsage r = usage_total (cs @ fin # tail) None"
proof -
  obtain evs d' where k: "chunks_events (cs @ fin # tail) new_stream_decoder = (evs, d')" by force
  obtain t where t: "turn_events (eParse en) evs turn_start = Some t" "finished d'"
    "answered_by (eParse en) (answer_pieces (all_reasoning (chunk_choices (cs @ [fin])))
      (all_content (chunk_choices (cs @ [fin]))) (all_deltas (chunk_choices (cs @ [fin])))) t"
    "tuStop t = map_finish_reason (chFinishReason (hd (ckChoices fin)))"
    "tuUsage t = usage_total (cs @ fin # tail) None"
    using response_turn [OF assms(8) k, of "eParse en"] by blast
  have "oa_stream_events dec body None = evs"
    using stream_body_rendered [OF assms(4), of cr None] feed_all_chunks [OF assms(6,7), of new_stream_decoder]
      k done_finished [OF t(2)] by (simp add: oa_stream_events_def assms(3,5) scan_error_def)
  with quiet_answer [OF assms(1,2)] t show ?thesis
    by (fastforce simp: turn_result_def answered_by_def Let_def)
qed


definition sample_choice :: "string \<Rightarrow> string \<Rightarrow> tool_delta list \<Rightarrow> string \<Rightarrow> chunk" where
  "sample_choice r x tcs fin = \<lparr>ckChoices = [\<lparr>chContent = x, chReasoningContent = '''', chReasoning = r,
     chToolCalls = tcs, chFinishReason = fin\<rparr>], ckUsage = None, ckErr = None\<rparr>"

definition sample_body_chunks :: "chunk list" where
  "sample_body_chunks = [sample_choice ''why'' '''' [] '''', sample_choice '''' ''hi''
     [\<lparr>tcIndex = 0, tcID = ''t1'', tcName = ''ls'', tcArguments = ''{''\<rparr>] '''']"

definition sample_final :: chunk where
  "sample_final = sample_choice '''' '''' [\<lparr>tcIndex = 0, tcID = '''', tcName = '''', tcArguments = ''}''\<rparr>] ''tool_calls''"

definition sample_usage_chunk :: chunk where
  "sample_usage_chunk = \<lparr>ckChoices = [], ckUsage = Some \<lparr>ouPromptTokens = 7, ouCompletionTokens = 3,
     ouPromptCacheHitTokens = 0, ouCachedTokens = Some 4, ouReasoningTokens = None\<rparr>, ckErr = None\<rparr>"

definition sample_decode :: "string \<Rightarrow> string + chunk" where
  "sample_decode p = (if p = ''a'' then Inr (sample_body_chunks ! 0) else if p = ''b'' then Inr (sample_body_chunks ! 1)
     else if p = ''c'' then Inr sample_final else if p = ''d'' then Inr sample_usage_chunk else Inl ''bad'')"

definition sample_sse :: "sse_event list" where
  "sample_sse = map (\<lambda>p. \<lparr>seHeads = [''event: chunk''], seData = p\<rparr>) [''a'', ''b'', ''c'', ''d'', ''[DONE]'']"

lemma sample_sse_wf: "list_all sse_wf sample_sse"
  by (simp add: sample_sse_def sse_wf_def sse_lines_def plain_line_def newline_def max_line_def has_prefix_def
      char_of_eq_iff)

lemma sample_gateway: "gateway_response sample_body_chunks sample_final [sample_usage_chunk]"
  by code_simp

lemma openai_answer_assembled_witness:
  "\<exists>r s'. real_attempt (sample_env (\<lambda>_. oa_stream_events sample_decode (sse_render True sample_sse) None))
      \<lparr>mcRequest = sample_request, mcView = []\<rparr> (init_lstate 0) =
      ((r, None), \<lparr>mcRequest = sample_request, mcView = []\<rparr>, s') \<and>
    map bThinking (mContent (mrAssistant r)) = [''why'', '''', ''''] \<and>
    map bText (mContent (mrAssistant r)) = ['''', ''hi'', ''''] \<and>
    mrCalls r = [\<lparr>cID = ''t1'', cName = ''ls'', cArgs = Some [], cArgsError = ''''\<rparr>] \<and>
    mrStop r = StopToolUse \<and> mrUsage r = Some (Usage 7 3 4 0 0)"
proof -
  let ?body = "sse_render True sample_sse"
  let ?e = "sample_env (\<lambda>_. oa_stream_events sample_decode ?body None)"
  let ?c = "\<lparr>mcRequest = sample_request, mcView = []\<rparr>"
  let ?chs = "chunk_choices (sample_body_chunks @ [sample_final])"
  let ?ps = "answer_pieces (all_reasoning ?chs) (all_content ?chs) (all_deltas ?chs)"
  have q: "quiet ?e" by (simp add: quiet_def sample_env_def)
  have st: "eStream ?e (sClock (init_lstate 0)) (mcRequest ?c) = Inr (oa_stream_events sample_decode ?body None)"
    by (simp add: sample_env_def)
  have d: "map seData sample_sse = [''a'', ''b'', ''c'', ''d''] @ [''[DONE]'']" by code_simp
  have m: "map sample_decode [''a'', ''b'', ''c'', ''d''] =
      map Inr (sample_body_chunks @ sample_final # [sample_usage_chunk])" by code_simp
  have n: "''[DONE]'' \<notin> set [''a'', ''b'', ''c'', ''d'']" by simp
  have p: "eParse ?e = (\<lambda>s. if s = ''{}'' then Inr (Some []) else Inl ''unexpected end of JSON input'')"
    by (simp add: sample_env_def)
  have v: "map bThinking (map (assemble (eParse ?e)) ?ps) = [''why'', '''', '''']"
    "map bText (map (assemble (eParse ?e)) ?ps) = ['''', ''hi'', '''']"
    "concat (map (piece_call (eParse ?e)) ?ps) =
      [\<lparr>cID = ''t1'', cName = ''ls'', cArgs = Some [], cArgsError = ''''\<rparr>]"
    "map_finish_reason (chFinishReason (hd (ckChoices sample_final))) = StopToolUse"
    "usage_total (sample_body_chunks @ sample_final # [sample_usage_chunk]) None = Some (Usage 7 3 4 0 0)"
    unfolding p by code_simp+
  from openai_answer_assembled [OF q st refl sample_sse_wf d m n sample_gateway] v show ?thesis
    unfolding Let_def by metis
qed

end
