(* ===== verification/Anthropic.thy ===== *)
theory Anthropic
  imports ProviderWire
begin

section \<open>The adapter for the Anthropic Messages API: the stream\<close>

text \<open>
  \<open>provider/anthropic/stream.go\<close>: the decoding of one payload (\<open>decodeEvent\<close>) and the stream it
  yields for a response body (\<open>adapter.go\<close>). A raw event is the decoded JSON payload; the decoder
  of payloads is a parameter. The API names its blocks itself, so the decoder keeps no state.
\<close>

subsection \<open>The code\<close>

record raw_usage =
  ruInputTokens :: int
  ruOutputTokens :: int
  ruCacheReadInputTokens :: int
  ruCacheCreationTokens :: int

record raw_block =
  rbType :: string
  rbText :: string
  rbThinking :: string
  rbSignature :: string
  rbID :: string
  rbName :: string

record raw_delta =
  rdType :: string
  rdText :: string
  rdThinking :: string
  rdPartialJSON :: string
  rdSignature :: string
  rdStopReason :: string

record raw_stream_error =
  rsType :: string
  rsMessage :: string

record raw_event =
  reType :: string
  reIndex :: int
  reBlock :: "raw_block option"
  reDelta :: "raw_delta option"
  reUsage :: "raw_usage option"
  reMsgUsage :: "raw_usage option" \<comment> \<open>\<open>message.usage\<close>\<close>
  reErr :: "raw_stream_error option"

definition convert_raw_block :: "raw_block \<Rightarrow> block" where
  "convert_raw_block rb =
     (if rbType rb = ''text'' then text_block (rbText rb)
      else if rbType rb = ''thinking'' then thinking_block (rbThinking rb) (rbSignature rb)
      else if rbType rb = ''tool_use'' then tool_use_block (rbID rb) (rbName rb) (Some []) ''''
      else text_block '''')"

definition delta_text :: "raw_delta \<Rightarrow> string" where
  "delta_text d =
     (if rdType d = ''text_delta'' then rdText d
      else if rdType d = ''thinking_delta'' then rdThinking d
      else if rdType d = ''input_json_delta'' then rdPartialJSON d
      else '''')"

definition signature_delta :: "raw_delta \<Rightarrow> string" where
  "signature_delta d = (if rdType d = ''signature_delta'' then rdSignature d else '''')"

definition convert_usage :: "raw_usage \<Rightarrow> usage" where
  "convert_usage u = Usage (ruInputTokens u) (ruOutputTokens u) (ruCacheReadInputTokens u)
     (ruCacheCreationTokens u) 0"

definition map_stop_reason :: "string \<Rightarrow> stop_reason" where
  "map_stop_reason s = stop_reason_of s"

definition raw_error :: "raw_stream_error option \<Rightarrow> lerr" where
  "raw_error e =
     (let (etype, msg) = (case e of None \<Rightarrow> ('''', '''') | Some x \<Rightarrow> (rsType x, rsMessage x))
      in case classify_stream_error msg of Some ov \<Rightarrow> ov
         | None \<Rightarrow> errorf (''anthropic stream error ('' @ etype @ ''): '' @ msg))"

definition raw_stop_event :: "raw_event \<Rightarrow> provider_event option" where
  "raw_stop_event se =
     (let stop = (case reDelta se of None \<Rightarrow> StopUnknown | Some d \<Rightarrow> map_stop_reason (rdStopReason d));
          u = map_option convert_usage (reUsage se)
      in if stop = StopUnknown \<and> u = None then None else Some (EvMessageStop stop u))"

definition raw_event_event :: "raw_event \<Rightarrow> provider_event option" where
  "raw_event_event se =
     (if reType se = ''message_start'' then Some EvMessageStart
      else if reType se = ''content_block_start'' then
        (case reBlock se of None \<Rightarrow> None
         | Some rb \<Rightarrow> Some (EvBlockStart (reIndex se) (Some (convert_raw_block rb))))
      else if reType se = ''content_block_delta'' then
        (case reDelta se of None \<Rightarrow> None
         | Some d \<Rightarrow> Some (EvBlockDelta (reIndex se) (delta_text d) (signature_delta d)))
      else if reType se = ''content_block_stop'' then Some (EvBlockStop (reIndex se))
      else if reType se = ''message_delta'' then raw_stop_event se
      else if reType se = ''message_stop'' then Some (EvMessageStop StopUnknown None)
      else if reType se = ''error'' then Some (EvError (raw_error (reErr se)))
      else None)"

definition decode_event :: "(string \<Rightarrow> string + raw_event) \<Rightarrow> string \<Rightarrow> provider_event option" where
  "decode_event dec data =
     (case dec data of Inl e \<Rightarrow> Some (EvError (errorf e)) | Inr se \<Rightarrow> raw_event_event se)"

definition an_stream_events :: "(string \<Rightarrow> string + raw_event) \<Rightarrow> string \<Rightarrow> lerr option \<Rightarrow> provider_event list" where
  "an_stream_events dec body rerr =
     (let (ps, err) = stream_body body rerr in List.map_filter (decode_event dec) ps @ err)"

subsection \<open>A response as the API documents it\<close>

text \<open>
  The blocks of a response in fragments, the events that carry them, and the blocks they stand
  for. A text block starts empty, a thinking block empty and unsigned, a tool use with its id and
  name.
\<close>

datatype api_block =
    ApiText "string list"
  | ApiThinking "string list" "string list"
  | ApiToolUse string string "string list"

definition no_block :: raw_block where
  "no_block = \<lparr>rbType = '''', rbText = '''', rbThinking = '''', rbSignature = '''', rbID = '''', rbName = ''''\<rparr>"

definition no_delta :: raw_delta where
  "no_delta = \<lparr>rdType = '''', rdText = '''', rdThinking = '''', rdPartialJSON = '''', rdSignature = '''',
     rdStopReason = ''''\<rparr>"

definition plain_event :: "string \<Rightarrow> int \<Rightarrow> raw_event" where
  "plain_event ty i = \<lparr>reType = ty, reIndex = i, reBlock = None, reDelta = None, reUsage = None,
     reMsgUsage = None, reErr = None\<rparr>"

definition start_event :: "int \<Rightarrow> raw_block \<Rightarrow> raw_event" where
  "start_event i rb = (plain_event ''content_block_start'' i)\<lparr>reBlock := Some rb\<rparr>"

definition delta_event :: "int \<Rightarrow> raw_delta \<Rightarrow> raw_event" where
  "delta_event i d = (plain_event ''content_block_delta'' i)\<lparr>reDelta := Some d\<rparr>"

fun block_start :: "api_block \<Rightarrow> raw_block" where
  "block_start (ApiText _) = no_block\<lparr>rbType := ''text''\<rparr>"
| "block_start (ApiThinking _ _) = no_block\<lparr>rbType := ''thinking''\<rparr>"
| "block_start (ApiToolUse i n _) = no_block\<lparr>rbType := ''tool_use'', rbID := i, rbName := n\<rparr>"

fun block_deltas :: "api_block \<Rightarrow> raw_delta list" where
  "block_deltas (ApiText fs) = map (\<lambda>f. no_delta\<lparr>rdType := ''text_delta'', rdText := f\<rparr>) fs"
| "block_deltas (ApiThinking fs sigs) = map (\<lambda>f. no_delta\<lparr>rdType := ''thinking_delta'', rdThinking := f\<rparr>) fs @
     map (\<lambda>g. no_delta\<lparr>rdType := ''signature_delta'', rdSignature := g\<rparr>) sigs"
| "block_deltas (ApiToolUse _ _ fs) = map (\<lambda>f. no_delta\<lparr>rdType := ''input_json_delta'', rdPartialJSON := f\<rparr>) fs"

definition block_events :: "int \<times> api_block \<Rightarrow> raw_event list" where
  "block_events ib =
     (case ib of (i, b) \<Rightarrow> start_event i (block_start b) # map (delta_event i) (block_deltas b) @
        [plain_event ''content_block_stop'' i])"

definition api_response :: "raw_usage option \<Rightarrow> (int \<times> api_block) list \<Rightarrow> string \<Rightarrow> raw_usage \<Rightarrow> raw_event list" where
  "api_response u0 bs stop u =
     (plain_event ''message_start'' 0)\<lparr>reMsgUsage := u0\<rparr> # concat (map block_events bs) @
     [(plain_event ''message_delta'' 0)\<lparr>reDelta := Some (no_delta\<lparr>rdStopReason := stop\<rparr>), reUsage := Some u\<rparr>,
      plain_event ''message_stop'' 0]"

fun api_answer :: "(string \<Rightarrow> string + jargs) \<Rightarrow> api_block \<Rightarrow> block" where
  "api_answer parse (ApiText fs) = text_block (concat fs)"
| "api_answer parse (ApiThinking fs sigs) = thinking_block (concat fs) (concat sigs)"
| "api_answer parse (ApiToolUse i n fs) =
     (if concat fs = '''' then tool_use_block i n (Some []) ''''
      else case parse (concat fs) of
             Inl e \<Rightarrow> tool_use_block i n (Some []) (''tool arguments are not valid JSON: '' @ e)
           | Inr a \<Rightarrow> tool_use_block i n a '''')"

fun api_call :: "(string \<Rightarrow> string + jargs) \<Rightarrow> api_block \<Rightarrow> call list" where
  "api_call parse (ApiToolUse i n fs) =
     (let b = api_answer parse (ApiToolUse i n fs)
      in [\<lparr>cID = i, cName = n, cArgs = bToolInput b, cArgsError = bArgsError b\<rparr>])"
| "api_call parse _ = []"

subsection \<open>From raw events to pieces\<close>

definition api_piece :: "int \<times> api_block \<Rightarrow> piece" where
  "api_piece ib = \<lparr>pcIndex = fst ib, pcBlock = convert_raw_block (block_start (snd ib)),
     pcDeltas = map (\<lambda>d. (delta_text d, signature_delta d)) (block_deltas (snd ib))\<rparr>"

lemma map_filter_append [simp]: "List.map_filter f (xs @ ys) = List.map_filter f xs @ List.map_filter f ys"
  by (simp add: List.map_filter_def)

lemma map_filter_Cons: "List.map_filter f (x # xs) = (case f x of None \<Rightarrow> [] | Some y \<Rightarrow> [y]) @ List.map_filter f xs"
  by (simp add: List.map_filter_def split: option.split)

lemma map_filter_empty [simp]: "List.map_filter f [] = []"
  by (simp add: List.map_filter_def)

lemma raw_events_simps [simp]:
  "raw_event_event (start_event i rb) = Some (EvBlockStart i (Some (convert_raw_block rb)))"
  "raw_event_event (delta_event i d) = Some (EvBlockDelta i (delta_text d) (signature_delta d))"
  "raw_event_event (plain_event ''content_block_stop'' i) = Some (EvBlockStop i)"
  by (simp_all add: raw_event_event_def start_event_def delta_event_def plain_event_def)

lemma block_events_piece: "List.map_filter raw_event_event (block_events ib) = piece_events (api_piece ib)"
proof -
  have "List.map_filter raw_event_event (map (delta_event i) ds) =
      delta_events i (map (\<lambda>d. (delta_text d, signature_delta d)) ds)" for i ds
    by (induction ds) (simp_all add: map_filter_Cons delta_events_def)
  then show ?thesis
    by (cases ib) (simp add: block_events_def piece_events_def api_piece_def map_filter_Cons)
qed

lemma blocks_pieces:
  "List.map_filter raw_event_event (concat (map block_events bs)) = concat (map piece_events (map api_piece bs))"
  by (induction bs) (simp_all add: block_events_piece)

lemma response_events:
  "List.map_filter raw_event_event (api_response u0 bs stop u) =
     EvMessageStart # concat (map piece_events (map api_piece bs)) @
     [EvMessageStop (map_stop_reason stop) (Some (convert_usage u)), EvMessageStop StopUnknown None]"
  by (simp add: api_response_def map_filter_Cons blocks_pieces raw_event_event_def raw_stop_event_def
      plain_event_def no_delta_def)

lemma concat_map_empty [simp]: "concat (map (\<lambda>x. '''') xs) = ''''"
  by (induction xs) auto

lemma delta_simps [simp]:
  "delta_text (no_delta\<lparr>rdType := ''text_delta'', rdText := f\<rparr>) = f"
  "delta_text (no_delta\<lparr>rdType := ''thinking_delta'', rdThinking := f\<rparr>) = f"
  "delta_text (no_delta\<lparr>rdType := ''input_json_delta'', rdPartialJSON := f\<rparr>) = f"
  "delta_text (no_delta\<lparr>rdType := ''signature_delta'', rdSignature := f\<rparr>) = ''''"
  "signature_delta (no_delta\<lparr>rdType := ''signature_delta'', rdSignature := f\<rparr>) = f"
  "signature_delta (no_delta\<lparr>rdType := ''text_delta'', rdText := f\<rparr>) = ''''"
  "signature_delta (no_delta\<lparr>rdType := ''thinking_delta'', rdThinking := f\<rparr>) = ''''"
  "signature_delta (no_delta\<lparr>rdType := ''input_json_delta'', rdPartialJSON := f\<rparr>) = ''''"
  by (simp_all add: delta_text_def signature_delta_def no_delta_def)

lemma api_piece_text: "piece_text (api_piece (i, b)) =
  concat (case b of ApiText fs \<Rightarrow> fs | ApiThinking fs _ \<Rightarrow> fs | ApiToolUse _ _ fs \<Rightarrow> fs)"
  by (cases b) (simp_all add: piece_text_def api_piece_def comp_def)

lemma api_piece_signature: "concat (map snd (pcDeltas (api_piece (i, b)))) =
  (case b of ApiThinking _ sigs \<Rightarrow> concat sigs | _ \<Rightarrow> '''')"
  by (cases b) (simp_all add: api_piece_def comp_def)

lemma api_piece_block: "pcBlock (api_piece (i, b)) =
  (case b of ApiText _ \<Rightarrow> text_block '''' | ApiThinking _ _ \<Rightarrow> thinking_block '''' ''''
   | ApiToolUse u n _ \<Rightarrow> tool_use_block u n (Some []) '''')"
  by (cases b) (simp_all add: api_piece_def convert_raw_block_def no_block_def)

lemma set_built:
  "set_text v (text_block t) = text_block v"
  "set_thinking v (thinking_block t g) = thinking_block v g"
  "set_signature h (thinking_block t g) = thinking_block t h"
  "set_args_error e (tool_use_block u n a x) = tool_use_block u n a e"
  "set_tool_input ai (tool_use_block u n a x) = tool_use_block u n ai x"
  by (simp_all add: text_block_def thinking_block_def tool_use_block_def)

lemma assemble_api: "assemble parse (api_piece ib) = api_answer parse (snd ib)"
proof (cases ib)
  case (Pair i b)
  show ?thesis
    unfolding Pair assemble_def api_piece_text api_piece_signature api_piece_block Let_def
    by (cases b) (simp_all add: set_built del: concat_eq_Nil_conv split: sum.split)
qed

lemma api_answer_tool:
  "bType (api_answer parse (ApiToolUse u n fs)) = BlockToolUse"
  "bToolUseID (api_answer parse (ApiToolUse u n fs)) = u"
  "bToolName (api_answer parse (ApiToolUse u n fs)) = n"
  by (simp_all split: sum.split)

lemma piece_call_api: "piece_call parse (api_piece ib) = api_call parse (snd ib)"
proof (cases ib)
  case (Pair i b)
  show ?thesis
  proof (cases b)
    case (ApiToolUse u n fs)
    have "(case piece_error parse (api_piece ib) of None \<Rightarrow> '''' | Some e \<Rightarrow> e) =
        bArgsError (api_answer parse (ApiToolUse u n fs))"
      unfolding Pair ApiToolUse piece_error_def api_piece_text api_piece_block by (simp split: sum.split)
    then show ?thesis
      unfolding piece_call_def assemble_api Let_def
      using api_answer_tool [of parse u n fs] by (simp add: Pair ApiToolUse Let_def del: api_answer.simps)
  qed (simp_all add: piece_call_def assemble_api Pair)
qed

subsection \<open>Properties\<close>

text \<open>Events the decoder passes over: the API's pings and any type it does not know.\<close>

definition ignored_event :: "raw_event \<Rightarrow> bool" where
  "ignored_event se = (reType se \<notin> {''message_start'', ''content_block_start'', ''content_block_delta'',
     ''content_block_stop'', ''message_delta'', ''message_stop'', ''error''})"

lemma ignored_none: "ignored_event e \<Longrightarrow> raw_event_event e = None"
  by (simp add: raw_event_event_def ignored_event_def)

lemma map_filter_ignored:
  "List.map_filter raw_event_event (filter (\<lambda>e. \<not> ignored_event e) es) = List.map_filter raw_event_event es"
  by (induction es) (simp_all add: map_filter_Cons ignored_none split: option.split)

lemma decode_ok: "dec p = Inr e \<Longrightarrow> decode_event dec p = raw_event_event e"
  by (simp add: decode_event_def)

lemma map_filter_decoded:
  "map dec ps = map Inr es \<Longrightarrow> List.map_filter (decode_event dec) ps = List.map_filter raw_event_event es"
proof (induction ps arbitrary: es)
  case (Cons p ps)
  then obtain e es' where "es = e # es'" by (cases es) auto
  with Cons show ?case by (auto simp: map_filter_Cons decode_ok split: option.split)
qed simp

text \<open>C14: a response of the Messages API, framed as server-sent events with any line ends and any
  fragment sizes and with pings anywhere, is answered by the loop with exactly its blocks in order:
  text and thinking with the concatenation of their fragments, thinking with its signature apart,
  each tool use with its arguments decoded or the decoding error recorded, and with the stop reason
  and the usage its message_delta event reports.\<close>
theorem anthropic_answer_assembled:
  assumes "quiet en" "eStream en (sClock s) (mcRequest c) = Inr (an_stream_events dec body None)"
    and "body = sse_render cr es" "list_all sse_wf es" "map dec (map seData es) = map Inr raws"
    and "filter (\<lambda>e. \<not> ignored_event e) raws = api_response u0 bs stop u"
  shows "\<exists>r s'. real_attempt en c s = ((r, None), c, s') \<and>
    mContent (mrAssistant r) = map (\<lambda>ib. api_answer (eParse en) (snd ib)) bs \<and>
    mrCalls r = concat (map (\<lambda>ib. api_call (eParse en) (snd ib)) bs) \<and>
    mrStop r = map_stop_reason stop \<and> mrUsage r = Some (convert_usage u)"
proof -
  let ?ps = "map api_piece bs"
  let ?t = "turn_start\<lparr>tuContent := map (assemble (eParse en)) ?ps,
      tuCalls := concat (map (piece_call (eParse en)) ?ps), tuStop := map_stop_reason stop,
      tuUsage := Some (convert_usage u)\<rparr>"
  have "an_stream_events dec body None = List.map_filter raw_event_event raws"
    using stream_body_rendered [OF assms(4), of cr None] map_filter_decoded [OF assms(5)]
    by (simp add: an_stream_events_def assms(3) scan_error_def)
  also have "\<dots> = EvMessageStart # concat (map piece_events ?ps) @
      [EvMessageStop (map_stop_reason stop) (Some (convert_usage u)), EvMessageStop StopUnknown None]"
    using map_filter_ignored [of raws] by (simp add: assms(6) response_events)
  finally have ev: "an_stream_events dec body None = \<dots>" .
  have "turn_events (eParse en) (an_stream_events dec body None) turn_start = Some ?t"
    using turn_pieces [of turn_start "eParse en" ?ps]
    by (simp add: ev turn_events_append turn_start_def merge_usage_def)
  from quiet_answer [OF assms(1,2) this] obtain s' where
    "real_attempt en c s = ((turn_result ?t, None), c, s')" by (auto simp: turn_start_def)
  then show ?thesis
    by (intro exI [of _ "turn_result ?t"] exI [of _ s'])
      (simp add: turn_result_def comp_def assemble_api piece_call_api)
qed

text \<open>
  Where the decoder loses what the API says: the usage of \<open>message_start\<close>, which carries the input
  and cache tokens of the call, is decoded and never read; the text a block starts with is
  overwritten by its fragments.
\<close>

lemma message_start_usage_unread:
  "raw_event_event ((plain_event ''message_start'' 0)\<lparr>reMsgUsage := Some u\<rparr>) = Some EvMessageStart"
  by (simp add: raw_event_event_def plain_event_def)

lemma start_text_overwritten:
  "assemble parse \<lparr>pcIndex = 0, pcBlock = convert_raw_block (no_block\<lparr>rbType := ''text'', rbText := ''Hello''\<rparr>),
     pcDeltas = [('' world'', '''')]\<rparr> = text_block '' world''"
  by (simp add: assemble_def convert_raw_block_def no_block_def piece_text_def set_built)

definition sample_blocks :: "(int \<times> api_block) list" where
  "sample_blocks = [(0, ApiThinking [''w'', ''hy''] [''sig'']), (1, ApiText [''h'', ''i'']), (2, ApiToolUse ''t1'' ''ls'' [''{'', ''}''])]"

definition sample_raw_usage :: raw_usage where
  "sample_raw_usage = \<lparr>ruInputTokens = 0, ruOutputTokens = 5, ruCacheReadInputTokens = 0, ruCacheCreationTokens = 0\<rparr>"

definition sample_raws :: "raw_event list" where
  "sample_raws = plain_event ''ping'' 0 # api_response None sample_blocks ''tool_use'' sample_raw_usage"

definition raw_payload :: "nat \<Rightarrow> string" where
  "raw_payload n = replicate (Suc n) CHR ''x''"

definition sample_raw_decode :: "string \<Rightarrow> string + raw_event" where
  "sample_raw_decode p = (if p \<noteq> '''' \<and> length p \<le> length sample_raws then Inr (sample_raws ! (length p - 1)) else Inl ''bad'')"

definition sample_raw_sse :: "sse_event list" where
  "sample_raw_sse = map (\<lambda>n. \<lparr>seHeads = [], seData = raw_payload n\<rparr>) [0..<length sample_raws]"

lemma sample_raw_facts:
  "map sample_raw_decode (map seData sample_raw_sse) = map Inr sample_raws"
  by (rule nth_equalityI) (simp_all add: sample_raw_sse_def sample_raw_decode_def raw_payload_def)

lemma sample_raws_length: "length sample_raws = 17"
  by code_simp

lemma sample_raw_sse_wf: "list_all sse_wf sample_raw_sse"
  by (auto simp: sample_raw_sse_def sample_raws_length list_all_iff sse_wf_def sse_lines_def plain_line_def
      raw_payload_def newline_def max_line_def char_of_eq_iff)

lemma anthropic_answer_assembled_witness:
  "\<exists>r s'. real_attempt (sample_env (\<lambda>_. an_stream_events sample_raw_decode (sse_render False sample_raw_sse) None))
      \<lparr>mcRequest = sample_request, mcView = []\<rparr> (init_lstate 0) =
      ((r, None), \<lparr>mcRequest = sample_request, mcView = []\<rparr>, s') \<and>
    mContent (mrAssistant r) = [thinking_block ''why'' ''sig'', text_block ''hi'', tool_use_block ''t1'' ''ls'' (Some []) ''''] \<and>
    mrStop r = StopToolUse"
proof -
  let ?e = "sample_env (\<lambda>_. an_stream_events sample_raw_decode (sse_render False sample_raw_sse) None)"
  let ?c = "\<lparr>mcRequest = sample_request, mcView = []\<rparr>"
  have q: "quiet ?e" by (simp add: quiet_def sample_env_def)
  have st: "eStream ?e (sClock (init_lstate 0)) (mcRequest ?c) =
      Inr (an_stream_events sample_raw_decode (sse_render False sample_raw_sse) None)"
    by (simp add: sample_env_def)
  have f: "filter (\<lambda>e. \<not> ignored_event e) sample_raws = api_response None sample_blocks ''tool_use'' sample_raw_usage"
    by code_simp
  have p: "eParse ?e = (\<lambda>s. if s = ''{}'' then Inr (Some []) else Inl ''unexpected end of JSON input'')"
    by (simp add: sample_env_def)
  have v: "map (\<lambda>ib. api_answer (eParse ?e) (snd ib)) sample_blocks =
      [thinking_block ''why'' ''sig'', text_block ''hi'', tool_use_block ''t1'' ''ls'' (Some []) '''']"
    "map_stop_reason ''tool_use'' = StopToolUse"
    unfolding p by (simp_all add: sample_blocks_def map_stop_reason_def stop_reason_of_def)
  from anthropic_answer_assembled [OF q st refl sample_raw_sse_wf sample_raw_facts f] v show ?thesis
    by metis
qed

end
