(* ===== verification/OpenAIRequest.thy ===== *)
theory OpenAIRequest
  imports OpenAI
begin

section \<open>The request an OpenAI-compatible gateway is sent\<close>

text \<open>
  \<open>provider/openai/request.go\<close>. A wire message keeps its content in the two forms of the API, a
  string or a list of parts, before \<open>json.Marshal\<close>; the arguments of a call are the marshalled
  object. Decoded JSON always marshals, so the error results of the code do not arise.
\<close>

subsection \<open>The code\<close>

datatype content_part = TextPart string | ImagePart string

datatype oa_content = TextContent string | PartsContent "content_part list"

record oa_call =
  ocID :: string
  ocName :: string
  ocArguments :: string

record oa_message =
  omRole :: string
  omContent :: oa_content
  omToolCalls :: "oa_call list"
  omToolCallID :: string

record oa_tool =
  otName :: string
  otDescription :: string
  otParameters :: jargs

record oa_request =
  orModel :: string
  orMessages :: "oa_message list"
  orTools :: "oa_tool list"
  orMaxTokens :: int
  orStream :: bool
  orIncludeUsage :: bool
  orTemperature :: "float64 option"
  orTopP :: "float64 option"
  orStop :: "string list"

text \<open>The four accumulators of \<open>convertMessage\<close>.\<close>

record conversion =
  cvText :: string
  cvCalls :: "oa_call list"
  cvResults :: "oa_message list"
  cvImages :: "content_part list"

definition arguments_json :: "jargs \<Rightarrow> string" where
  "arguments_json a = marshal (JObj (case a of None \<Rightarrow> [] | Some m \<Rightarrow> m))"

definition image_url :: "block \<Rightarrow> string" where
  "image_url b = ''data:'' @ (if bMediaType b = '''' then ''image/webp'' else bMediaType b) @
     '';base64,'' @ bImageData b"

definition oa_convert_block :: "bool \<Rightarrow> block \<Rightarrow> conversion \<Rightarrow> conversion" where
  "oa_convert_block imageInput b cv =
     (case bType b of
        BlockText \<Rightarrow> cv\<lparr>cvText := cvText cv @ bText b\<rparr>
      | BlockToolUse \<Rightarrow> cv\<lparr>cvCalls := cvCalls cv @
          [\<lparr>ocID = bToolUseID b, ocName = bToolName b, ocArguments = arguments_json (bToolInput b)\<rparr>]\<rparr>
      | BlockToolResult \<Rightarrow> cv\<lparr>cvResults := cvResults cv @
          [\<lparr>omRole = ''tool'', omContent = TextContent (bToolContent b), omToolCalls = [],
            omToolCallID = bToolResultID b\<rparr>]\<rparr>
      | BlockThinking \<Rightarrow> cv
      | BlockImage \<Rightarrow>
          if imageInput \<and> bImageData b \<noteq> '''' then cv\<lparr>cvImages := cvImages cv @ [ImagePart (image_url b)]\<rparr>
          else cv\<lparr>cvText := cvText cv @ ''[image: '' @ bImagePath b @ '']''\<rparr>)"

definition content_json :: "string \<Rightarrow> content_part list \<Rightarrow> oa_content" where
  "content_json text images =
     (if images = [] then TextContent text
      else PartsContent ((if text \<noteq> '''' then [TextPart text] else []) @ images))"

definition oa_convert_message :: "bool \<Rightarrow> message \<Rightarrow> oa_message list" where
  "oa_convert_message imageInput m =
     (let cv = fold (oa_convert_block imageInput) (mContent m)
                 \<lparr>cvText = '''', cvCalls = [], cvResults = [], cvImages = []\<rparr>;
          content = content_json (cvText cv) (cvImages cv)
      in if mRole m = RoleAssistant \<and> cvCalls cv \<noteq> [] then
           \<lparr>omRole = ''assistant'', omContent = content, omToolCalls = cvCalls cv, omToolCallID = ''''\<rparr> #
           cvResults cv
         else if cvResults cv \<noteq> [] \<and> cvImages cv = [] \<and> cvText cv = '''' then cvResults cv
         else \<lparr>omRole = role_text (mRole m), omContent = content, omToolCalls = [], omToolCallID = ''''\<rparr> #
           cvResults cv)"

definition oa_image_input :: "wire_request \<Rightarrow> bool" where
  "oa_image_input r =
     (case wqImageInput r of Some b \<Rightarrow> b
      | None \<Rightarrow> (case lookup_profile ''openai'' (rqModel r) of Some p \<Rightarrow> ImageInput p | None \<Rightarrow> False))"

definition oa_build_request :: "wire_request \<Rightarrow> oa_request" where
  "oa_build_request r =
     (let (tools, jr) = offered_tools ''openai'' r;
          sampling = sampling_allowed ''openai'' r
      in \<lparr>orModel = rqModel r,
          orMessages =
            (if rqSystem r \<noteq> ''''
             then [\<lparr>omRole = ''system'', omContent = TextContent (rqSystem r), omToolCalls = [], omToolCallID = ''''\<rparr>]
             else []) @ concat (map (oa_convert_message (oa_image_input r)) (rqMessages r)),
          orTools = map (\<lambda>t. \<lparr>otName = tdName t, otDescription = tdDescription t, otParameters = tdInputSchema t\<rparr>) tools @
            (case jr of None \<Rightarrow> [] | Some j \<Rightarrow> [\<lparr>otName = jrName j, otDescription = jrDescription j, otParameters = jrSchema j\<rparr>]),
          orMaxTokens = rqMaxTokens r, orStream = True, orIncludeUsage = True,
          orTemperature = (if sampling then rqTemperature r else None),
          orTopP = (if sampling then rqTopP r else None),
          orStop = (if sampling then rqStopSequences r else [])\<rparr>)"

subsection \<open>The order the API asks for\<close>

text \<open>
  A message with tool calls is followed at once by one tool message per call, in any order, and
  a tool message stands nowhere else.
\<close>

function (sequential) tool_order :: "oa_message list \<Rightarrow> bool" where
  "tool_order [] = True"
| "tool_order (m # ms) =
     (let n = length (omToolCalls m) in
      omRole m \<noteq> ''tool'' \<and> n \<le> length ms \<and>
      list_all (\<lambda>r. omRole r = ''tool'') (take n ms) \<and>
      distinct (map omToolCallID (take n ms)) \<and>
      set (map omToolCallID (take n ms)) = set (map ocID (omToolCalls m)) \<and>
      tool_order (drop n ms))"
  by pat_completeness auto
termination by (relation "measure length") simp_all

declare tool_order.simps(2) [simp del]

definition result_messages :: "block list \<Rightarrow> oa_message list" where
  "result_messages bs = map (\<lambda>b. \<lparr>omRole = ''tool'', omContent = TextContent (bToolContent b), omToolCalls = [],
     omToolCallID = bToolResultID b\<rparr>) (filter (\<lambda>b. bType b = BlockToolResult) bs)"

lemma convert_blocks_calls:
  "map ocID (cvCalls (fold (oa_convert_block im) bs cv)) = map ocID (cvCalls cv) @ use_ids bs"
  by (induction bs arbitrary: cv) (auto simp: oa_convert_block_def use_ids_def split: block_type.split)

lemma convert_blocks_results:
  "cvResults (fold (oa_convert_block im) bs cv) = cvResults cv @ result_messages bs"
  by (induction bs arbitrary: cv) (auto simp: oa_convert_block_def result_messages_def split: block_type.split)

lemma convert_results_only:
  "list_all (\<lambda>b. bType b = BlockToolResult) bs \<Longrightarrow>
     cvText (fold (oa_convert_block im) bs cv) = cvText cv \<and> cvImages (fold (oa_convert_block im) bs cv) = cvImages cv"
  by (induction bs arbitrary: cv) (auto simp: oa_convert_block_def)

lemma result_messages_ids:
  "map omToolCallID (result_messages bs) = result_ids bs"
  "list_all (\<lambda>r. omRole r = ''tool'') (result_messages bs)"
  "result_messages bs = [] \<longleftrightarrow> result_ids bs = []"
  by (auto simp: result_messages_def result_ids_def comp_def list_all_iff)

lemma convert_results_message:
  assumes "plain_message m" "\<not> is_assistant m" "result_ids (mContent m) \<noteq> []"
  shows "oa_convert_message im m = result_messages (mContent m)"
proof -
  have r: "mRole m = RoleUser" "list_all (\<lambda>b. bType b = BlockToolResult) (mContent m)"
    using assms by (auto simp: plain_message_def is_assistant_def)
  show ?thesis
    using r(1) assms(3) convert_results_only [OF r(2), of im] result_messages_ids(3)
    by (simp add: oa_convert_message_def convert_blocks_results Let_def)
qed

lemma convert_plain_message:
  assumes "plain_message m" "result_ids (mContent m) = []" "\<not> is_assistant m \<or> use_ids (mContent m) = []"
  shows "\<exists>w. oa_convert_message im m = [w] \<and> omToolCalls w = [] \<and> omRole w \<noteq> ''tool''"
proof -
  have "result_messages (mContent m) = []" using assms(2) result_messages_ids(3) by blast
  moreover have "mRole m \<in> {RoleUser, RoleAssistant}" using assms(1) by (auto simp: plain_message_def)
  moreover have "\<not> (mRole m = RoleAssistant \<and>
      cvCalls (fold (oa_convert_block im) (mContent m) \<lparr>cvText = '''', cvCalls = [], cvResults = [], cvImages = []\<rparr>) \<noteq> [])"
    using assms(3) convert_blocks_calls [of im "mContent m" "\<lparr>cvText = '''', cvCalls = [], cvResults = [], cvImages = []\<rparr>"]
    by (auto simp: is_assistant_def)
  ultimately show ?thesis
    by (auto simp: oa_convert_message_def convert_blocks_results Let_def)
qed

lemma convert_calls_message:
  assumes "plain_message m" "is_assistant m" "use_ids (mContent m) \<noteq> []"
  shows "\<exists>w. oa_convert_message im m = [w] \<and> map ocID (omToolCalls w) = use_ids (mContent m) \<and> omRole w = ''assistant''"
proof -
  let ?cv = "fold (oa_convert_block im) (mContent m) \<lparr>cvText = '''', cvCalls = [], cvResults = [], cvImages = []\<rparr>"
  have "result_messages (mContent m) = []" "mRole m = RoleAssistant"
    using assms result_messages_ids(3) by (auto simp: plain_message_def is_assistant_def)
  moreover have "map ocID (cvCalls ?cv) = use_ids (mContent m)"
    using convert_blocks_calls [of im "mContent m"] by simp
  moreover from this have "cvCalls ?cv \<noteq> []" using assms(3) by auto
  ultimately show ?thesis
    by (simp add: oa_convert_message_def convert_blocks_results Let_def)
qed

lemma converted_order:
  "settled su ms \<Longrightarrow> list_all plain_message ms \<Longrightarrow> tool_order (concat (map (oa_convert_message im) ms))"
proof (induction su ms rule: settled_cases)
  case (Plain su m ms)
  then show ?case
    using convert_plain_message [of m im] by (auto simp: tool_order.simps(2))
next
  case (Text su m ms)
  then have "result_ids (mContent m) = []" by (auto simp: plain_message_def is_assistant_def)
  with Text convert_plain_message [of m im] show ?case by (auto simp: tool_order.simps(2))
next
  case (Calls su m r ms)
  obtain w where w: "oa_convert_message im m = [w]" "map ocID (omToolCalls w) = use_ids (mContent m)" "omRole w = ''assistant''"
    using convert_calls_message [of m im] Calls by auto
  have ne: "result_ids (mContent r) \<noteq> []" using Calls by auto
  then have r: "oa_convert_message im r = result_messages (mContent r)"
    using convert_results_message [of r im] Calls by simp
  have "length (omToolCalls w) = length (use_ids (mContent m))" using w(2) by (metis length_map)
  also have "\<dots> = length (result_ids (mContent r))"
    using Calls by (metis distinct_card)
  also have "\<dots> = length (result_messages (mContent r))" by (metis result_messages_ids(1) length_map)
  finally have n: "length (omToolCalls w) = length (result_messages (mContent r))" .
  have ids: "set (map ocID (omToolCalls w)) = set (use_ids (mContent m))" using w(2) by simp
  have rids: "omToolCallID ` set (result_messages (mContent r)) = set (use_ids (mContent m))"
    using Calls result_messages_ids(1) [of "mContent r"] by (metis list.set_map)
  have dist: "distinct (map omToolCallID (result_messages (mContent r)))"
    using Calls by (simp only: result_messages_ids(1))
  show ?case
    using Calls w(3) n ids rids dist result_messages_ids(2) [of "mContent r"]
    by (simp add: w(1) r tool_order.simps(2))
qed simp

subsection \<open>Properties\<close>

text \<open>C15: on the wire of an OpenAI-compatible gateway, a settled conversation in which the assistant's
  messages bring no results and a message with results brings nothing else, as the loop and the fold
  write them, keeps the order the API asks for: every assistant message with tool calls is followed
  at once by exactly one tool message for each of its calls, and there is no tool message anywhere
  else. (With text beside the results the order is lost: mixed_answer_out_of_order.)\<close>
theorem openai_request_in_order:
  assumes "settled {} (rqMessages r)" "list_all plain_message (rqMessages r)"
  shows "tool_order (orMessages (oa_build_request r))"
  using converted_order [OF assms, of "oa_image_input r"]
  by (simp add: oa_build_request_def Let_def tool_order.simps(2) split: prod.split)

definition sample_wire_request :: "message list \<Rightarrow> wire_request" where
  "sample_wire_request ms = (loop_request sample_request)\<lparr>rqMessages := ms, rqSystem := ''be brief''\<rparr>"

definition wire_exchange :: "message list" where
  "wire_exchange =
     [text_message RoleUser ''list'',
      \<lparr>mRole = RoleAssistant, mContent = [tool_use_block ''a'' ''ls'' None '''', tool_use_block ''b'' ''ls'' None '''']\<rparr>,
      \<lparr>mRole = RoleUser, mContent = [tool_result_block ''b'' ''x'' False [] None, tool_result_block ''a'' ''y'' False [] None]\<rparr>]"

lemma openai_request_in_order_witness:
  "tool_order (orMessages (oa_build_request (sample_wire_request wire_exchange)))"
proof -
  have "rqMessages (sample_wire_request wire_exchange) = wire_exchange" by (simp add: sample_wire_request_def)
  moreover have "settled {} wire_exchange" by code_simp
  moreover have "list_all plain_message wire_exchange" by code_simp
  ultimately show ?thesis using openai_request_in_order [of "sample_wire_request wire_exchange"] by simp
qed

text \<open>
  Where it fails: an assistant message whose calls were never answered, because the process died
  before their results were stored, and the user's next turn. The repair answers the calls after the
  user's message, so on the wire the tool calls are followed by a user message, which the API
  rejects; and a message that carries results and text puts its text before its results.
\<close>

lemma repaired_history_out_of_order:
  "\<not> tool_order (orMessages (oa_build_request (sample_wire_request (ensure_pairing sample_unanswered))))"
proof -
  have m: "rqMessages (sample_wire_request (ensure_pairing sample_unanswered)) =
      sample_unanswered @ [\<lparr>mRole = RoleUser, mContent = [interrupted_block ''a'']\<rparr>]"
    unfolding repair_answers_after_user_text by (simp add: sample_wire_request_def)
  have "map omRole (concat (map (oa_convert_message im)
      (sample_unanswered @ [\<lparr>mRole = RoleUser, mContent = [interrupted_block ''a'']\<rparr>]))) =
      [''assistant'', ''user'', ''tool'']" for im
    by (simp add: sample_unanswered_def text_message_def oa_convert_message_def oa_convert_block_def
        interrupted_block_def)
  then show ?thesis
    unfolding oa_build_request_def Let_def m
    by (simp add: sample_wire_request_def sample_unanswered_def text_message_def oa_convert_message_def
        oa_convert_block_def interrupted_block_def tool_order.simps(2) split: prod.split)
qed

lemma mixed_answer_out_of_order:
  "settled {} [\<lparr>mRole = RoleAssistant, mContent = [tool_use_block ''a'' ''ls'' None '''']\<rparr>,
      \<lparr>mRole = RoleUser, mContent = [tool_result_block ''a'' ''x'' False [] None, text_block ''go on'']\<rparr>] \<and>
   \<not> tool_order (concat (map (oa_convert_message im)
     [\<lparr>mRole = RoleAssistant, mContent = [tool_use_block ''a'' ''ls'' None '''']\<rparr>,
      \<lparr>mRole = RoleUser, mContent = [tool_result_block ''a'' ''x'' False [] None, text_block ''go on'']\<rparr>]))"
  by (simp add: settled.simps(2) is_assistant_def oa_convert_message_def oa_convert_block_def tool_order.simps(2))

end
