(* ===== verification/AnthropicRequest.thy ===== *)
theory AnthropicRequest
  imports ProviderWire
begin

section \<open>The request the Anthropic Messages API is sent\<close>

text \<open>
  \<open>provider/anthropic/request.go\<close>. The hexadecimal digest of SHA-256, which replaces an id the API
  would reject, is a parameter. A cache mark (\<open>cache_control\<close>) is a flag.
\<close>

subsection \<open>The code\<close>

record image_source =
  isMediaType :: string
  isData :: string

record an_block =
  abType :: string
  abText :: string
  abThinking :: string
  abSignature :: string
  abID :: string
  abName :: string
  abInput :: jargs
  abToolUseID :: string
  abContent :: string
  abIsError :: bool
  abSource :: "image_source option"
  abCache :: bool

record an_message =
  amRole :: string
  amContent :: "an_block list"

record an_tool =
  atName :: string
  atDescription :: string
  atInputSchema :: jargs
  atCache :: bool

record an_request =
  arModel :: string
  arMaxTokens :: int
  arSystem :: "(string \<times> bool) option"
  arMessages :: "an_message list"
  arTools :: "an_tool list"
  arToolChoice :: "string option"
  arStream :: bool
  arTemperature :: "float64 option"
  arTopP :: "float64 option"
  arStopSequences :: "string list"
  arThinking :: "int option"

definition an_block0 :: "string \<Rightarrow> an_block" where
  "an_block0 ty = \<lparr>abType = ty, abText = '''', abThinking = '''', abSignature = '''', abID = '''',
     abName = '''', abInput = None, abToolUseID = '''', abContent = '''', abIsError = False,
     abSource = None, abCache = False\<rparr>"

definition id_char :: "char \<Rightarrow> bool" where
  "id_char c = (let n = (of_char c :: nat) in
     48 \<le> n \<and> n \<le> 57 \<or> 65 \<le> n \<and> n \<le> 90 \<or> 97 \<le> n \<and> n \<le> 122 \<or> n = 95 \<or> n = 45)"

definition legal_id :: "string \<Rightarrow> bool" where
  "legal_id s = (1 \<le> length s \<and> length s \<le> 64 \<and> list_all id_char s)"

definition normalize_id :: "(string \<Rightarrow> string) \<Rightarrow> string \<Rightarrow> string" where
  "normalize_id sha i = (if legal_id i then i else ''toolu_'' @ take 24 (sha i))"

fun an_convert_block :: "(string \<Rightarrow> string) \<Rightarrow> block \<Rightarrow> an_block" where
  "an_convert_block sha b =
     (case bType b of
        BlockText \<Rightarrow> (an_block0 ''text'')\<lparr>abText := bText b, abCache := bCachePoint b\<rparr>
      | BlockThinking \<Rightarrow> (an_block0 ''thinking'')\<lparr>abThinking := bThinking b, abSignature := bSignature b\<rparr>
      | BlockToolUse \<Rightarrow> (an_block0 ''tool_use'')\<lparr>abID := normalize_id sha (bToolUseID b), abName := bToolName b,
          abInput := bToolInput b\<rparr>
      | BlockToolResult \<Rightarrow> (an_block0 ''tool_result'')\<lparr>abToolUseID := normalize_id sha (bToolResultID b),
          abContent := bToolContent b, abIsError := bIsError b\<rparr>
      | BlockImage \<Rightarrow>
          if bImageData b \<noteq> '''' then (an_block0 ''image'')\<lparr>abSource := Some \<lparr>isMediaType = bMediaType b, isData = bImageData b\<rparr>\<rparr>
          else (an_block0 ''text'')\<lparr>abText := ''[image unavailable: '' @ bImagePath b @ '']''\<rparr>)"

definition convert_blocks :: "(string \<Rightarrow> string) \<Rightarrow> block list \<Rightarrow> an_block list" where
  "convert_blocks sha bs = map (an_convert_block sha) bs"

text \<open>Appending one message: a user message after a user message is merged into it.\<close>

definition add_message :: "(string \<Rightarrow> string) \<Rightarrow> message \<Rightarrow> an_message list \<Rightarrow> an_message list" where
  "add_message sha m out =
     (let role = role_text (mRole m); blocks = convert_blocks sha (mContent m) in
      if out \<noteq> [] \<and> role = ''user'' \<and> amRole (last out) = role
      then butlast out @ [(last out)\<lparr>amContent := amContent (last out) @ blocks\<rparr>]
      else out @ [\<lparr>amRole = role, amContent = blocks\<rparr>])"

definition an_messages :: "(string \<Rightarrow> string) \<Rightarrow> message list \<Rightarrow> an_message list" where
  "an_messages sha ms = fold (add_message sha) ms []"

definition mark_last :: "an_tool list \<Rightarrow> an_tool list" where
  "mark_last ts = (if ts = [] then [] else butlast ts @ [(last ts)\<lparr>atCache := True\<rparr>])"

definition an_tools :: "wire_request \<Rightarrow> an_tool list" where
  "an_tools r =
     (let (tools, jr) = offered_tools ''anthropic'' r;
          ts = map (\<lambda>t. \<lparr>atName = tdName t, atDescription = tdDescription t, atInputSchema = tdInputSchema t,
                         atCache = False\<rparr>) tools @
               (case jr of None \<Rightarrow> []
                | Some j \<Rightarrow> [\<lparr>atName = jrName j, atDescription = jrDescription j, atInputSchema = jrSchema j, atCache = False\<rparr>])
      in if rqCacheablePrefix r then mark_last ts else ts)"

definition thinking_budget :: "wire_request \<Rightarrow> int option" where
  "thinking_budget r = (case rqThinking r of Some b \<Rightarrow> if 0 < b then Some b else None | None \<Rightarrow> None)"

definition an_build_request :: "(string \<Rightarrow> string) \<Rightarrow> wire_request \<Rightarrow> an_request" where
  "an_build_request sha r =
     (let budget = thinking_budget r;
          sampling = (budget = None \<and> sampling_allowed ''anthropic'' r)
      in \<lparr>arModel = rqModel r,
          arMaxTokens = (case budget of Some b \<Rightarrow> if rqMaxTokens r \<le> b then b + 4096 else rqMaxTokens r
                         | None \<Rightarrow> rqMaxTokens r),
          arSystem = (if rqSystem r \<noteq> '''' then Some (rqSystem r, rqCacheablePrefix r) else None),
          arMessages = an_messages sha (rqMessages r),
          arTools = an_tools r,
          arToolChoice = map_option jrName (snd (offered_tools ''anthropic'' r)),
          arStream = True,
          arTemperature = (if sampling then rqTemperature r else None),
          arTopP = (if sampling then rqTopP r else None),
          arStopSequences = (if budget = None then rqStopSequences r else []),
          arThinking = budget\<rparr>)"

text \<open>The \<open>input\<close> field as it is written: omitted when the map is empty (\<open>omitempty\<close>).\<close>

definition wire_input :: "an_block \<Rightarrow> jobj option" where
  "wire_input b = (case abInput b of Some m \<Rightarrow> if m = [] then None else Some m | None \<Rightarrow> None)"

subsection \<open>Merging, from the left and from the right\<close>

fun merged :: "an_message list \<Rightarrow> an_message list" where
  "merged [] = []"
| "merged (m # ms) =
     (case merged ms of
        [] \<Rightarrow> [m]
      | n # ns \<Rightarrow> if amRole m = ''user'' \<and> amRole n = ''user''
                 then m\<lparr>amContent := amContent m @ amContent n\<rparr> # ns else m # n # ns)"

definition an_message_of :: "(string \<Rightarrow> string) \<Rightarrow> message \<Rightarrow> an_message" where
  "an_message_of sha m = \<lparr>amRole = role_text (mRole m), amContent = convert_blocks sha (mContent m)\<rparr>"

lemma an_message_of_sel [simp]:
  "amRole (an_message_of sha m) = role_text (mRole m)"
  "amContent (an_message_of sha m) = convert_blocks sha (mContent m)"
  by (simp_all add: an_message_of_def)

lemma merged_nonempty [simp]: "merged (m # ms) \<noteq> []"
  by (auto split: list.split)

lemma merged_absorb:
  "amRole m = ''user'' \<Longrightarrow> amRole n = ''user'' \<Longrightarrow>
     merged (m # n # ms) = merged (m\<lparr>amContent := amContent m @ amContent n\<rparr> # ms)"
  by (cases "merged ms") auto

lemma merged_split: "\<not> (amRole m = ''user'' \<and> amRole n = ''user'') \<Longrightarrow> merged (m # n # ms) = m # merged (n # ms)"
  by (cases "merged ms") auto

lemma fold_add_message:
  "fold (add_message sha) ms (acc @ [x]) = acc @ merged (x # map (an_message_of sha) ms)"
proof (induction ms arbitrary: acc x)
  case (Cons m ms)
  show ?case
  proof (cases "role_text (mRole m) = ''user'' \<and> amRole x = ''user''")
    case True
    then have "add_message sha m (acc @ [x]) = acc @ [x\<lparr>amContent := amContent x @ convert_blocks sha (mContent m)\<rparr>]"
      by (simp add: add_message_def Let_def)
    with Cons.IH True merged_absorb [of x "an_message_of sha m"] show ?thesis
      by (simp del: merged.simps)
  next
    case False
    then have "add_message sha m (acc @ [x]) = (acc @ [x]) @ [an_message_of sha m]"
      by (auto simp: add_message_def an_message_of_def Let_def)
    then have "fold (add_message sha) (m # ms) (acc @ [x]) =
        acc @ x # merged (an_message_of sha m # map (an_message_of sha) ms)"
      using Cons.IH [of "acc @ [x]" "an_message_of sha m"] by (simp del: merged.simps)
    moreover have "\<not> (amRole x = ''user'' \<and> amRole (an_message_of sha m) = ''user'')" using False by auto
    ultimately show ?thesis by (simp add: merged_split del: merged.simps)
  qed
qed simp

lemma an_messages_merged: "an_messages sha ms = merged (map (an_message_of sha) ms)"
proof (cases ms)
  case (Cons m ms')
  have "add_message sha m [] = [] @ [an_message_of sha m]" by (simp add: add_message_def an_message_of_def Let_def)
  with fold_add_message [of sha ms' "[]"] show ?thesis by (simp add: an_messages_def Cons)
qed (simp add: an_messages_def)

lemma merged_content: "concat (map amContent (merged ms)) = concat (map amContent ms)"
proof (induction ms)
  case (Cons m ms)
  then show ?case by (cases "merged ms") auto
qed simp

fun alternating :: "an_message list \<Rightarrow> bool" where
  "alternating (m # n # ms) = (\<not> (amRole m = ''user'' \<and> amRole n = ''user'') \<and> alternating (n # ms))"
| "alternating _ = True"

lemma alternating_merged: "alternating (merged ms)"
proof (induction ms)
  case (Cons m ms)
  show ?case
  proof (cases "merged ms")
    case (Cons n ns)
    with Cons.IH show ?thesis by (cases ns) auto
  qed simp
qed simp

subsection \<open>The order the API asks for\<close>

text \<open>
  A message that answers tool uses is the very next one, speaks for the user and opens with
  exactly one result per use; results stand nowhere else.
\<close>

definition an_uses :: "an_message \<Rightarrow> string list" where
  "an_uses m = (if amRole m = ''assistant'' then map abID (filter (\<lambda>b. abType b = ''tool_use'') (amContent m)) else [])"

definition is_result :: "an_block \<Rightarrow> bool" where
  "is_result b = (abType b = ''tool_result'')"

fun result_order :: "string list \<Rightarrow> an_message list \<Rightarrow> bool" where
  "result_order pend [] = (pend = [])"
| "result_order pend (m # ms) =
     (let k = length pend; lead = take k (amContent m) in
      (pend = [] \<or> amRole m = ''user'') \<and> k \<le> length (amContent m) \<and> list_all is_result lead \<and>
      distinct (map abToolUseID lead) \<and> set (map abToolUseID lead) = set pend \<and>
      list_all (\<lambda>b. \<not> is_result b) (drop k (amContent m)) \<and> result_order (an_uses m) ms)"

lemma convert_types:
  "abType (an_convert_block sha b) = ''tool_use'' \<longleftrightarrow> bType b = BlockToolUse"
  "is_result (an_convert_block sha b) \<longleftrightarrow> bType b = BlockToolResult"
  by (auto simp: an_block0_def is_result_def split: block_type.split)

lemma convert_ids:
  "bType b = BlockToolUse \<Longrightarrow> abID (an_convert_block sha b) = normalize_id sha (bToolUseID b)"
  "bType b = BlockToolResult \<Longrightarrow> abToolUseID (an_convert_block sha b) = normalize_id sha (bToolResultID b)"
  by simp_all

declare an_convert_block.simps [simp del]

lemma an_uses_of:
  "an_uses (an_message_of sha m) = (if mRole m = RoleAssistant then map (normalize_id sha) (use_ids (mContent m))
     else if role_text (mRole m) = ''assistant'' then map (normalize_id sha) (use_ids (mContent m)) else [])"
proof -
  have "map abID (filter (\<lambda>b. abType b = ''tool_use'') (convert_blocks sha bs)) = map (normalize_id sha) (use_ids bs)" for bs
    by (induction bs) (simp_all add: convert_blocks_def use_ids_def convert_types convert_ids)
  then show ?thesis by (simp add: an_uses_def an_message_of_def)
qed

lemma no_results: "result_ids bs = [] \<Longrightarrow> list_all (\<lambda>b. \<not> is_result b) (convert_blocks sha bs)"
  by (induction bs) (auto simp: convert_blocks_def result_ids_def convert_types split: if_splits)

lemma all_results:
  assumes "list_all (\<lambda>b. bType b = BlockToolResult) bs"
  shows "list_all is_result (convert_blocks sha bs)"
    "map abToolUseID (convert_blocks sha bs) = map (normalize_id sha) (result_ids bs)"
  using assms by (induction bs) (simp_all add: convert_blocks_def result_ids_def convert_types convert_ids)

lemma order_prepend_user:
  assumes "result_order [] (merged ws)" "amRole w = ''user''" "list_all (\<lambda>b. \<not> is_result b) (amContent w)"
  shows "result_order [] (merged (w # ws))"
proof (cases "merged ws")
  case Nil
  with assms show ?thesis by (simp add: an_uses_def)
next
  case (Cons n ns)
  with assms show ?thesis by (auto simp: an_uses_def)
qed

lemma order_prepend_results:
  assumes "result_order [] (merged ws)" "amRole w = ''user''" "list_all is_result (amContent w)"
    and "distinct (map abToolUseID (amContent w))" "set (map abToolUseID (amContent w)) = set pend"
    and "length (amContent w) = length pend"
  shows "result_order pend (merged (w # ws))"
proof (cases "merged ws")
  case Nil
  with assms show ?thesis by (simp add: an_uses_def)
next
  case (Cons n ns)
  with assms show ?thesis by (auto simp: an_uses_def)
qed

lemma merged_assistant: "amRole w \<noteq> ''user'' \<Longrightarrow> merged (w # ws) = w # merged ws"
  by (auto split: list.split)

lemma converted_result_order:
  "settled su ms \<Longrightarrow> list_all plain_message ms \<Longrightarrow> inj_on (normalize_id sha) (set (all_uses ms)) \<Longrightarrow>
     result_order [] (merged (map (an_message_of sha) ms))"
proof (induction su ms rule: settled_cases)
  case (Plain su m ms)
  then have "mRole m = RoleUser" by (auto simp: plain_message_def is_assistant_def)
  moreover have "all_uses (m # ms) = all_uses ms" using Plain by (simp add: all_uses_def)
  ultimately show ?case
    using Plain no_results [of "mContent m" sha]
    by (simp del: merged.simps, intro order_prepend_user) simp_all
next
  case (Text su m ms)
  then have r: "mRole m = RoleAssistant" "result_ids (mContent m) = []"
    by (auto simp: plain_message_def is_assistant_def)
  have "all_uses (m # ms) = all_uses ms" using Text by (simp add: all_uses_def)
  moreover have "an_uses (an_message_of sha m) = []" using Text r by (simp add: an_uses_of)
  ultimately show ?case
    using Text r no_results [of "mContent m" sha] merged_assistant [of "an_message_of sha m"]
    by (simp del: merged.simps)
next
  case (Calls su m r ms)
  let ?uses = "use_ids (mContent m)" and ?w = "an_message_of sha m" and ?v = "an_message_of sha r"
  have m: "mRole m = RoleAssistant" "result_ids (mContent m) = []"
    using Calls by (auto simp: plain_message_def is_assistant_def)
  have "result_ids (mContent r) \<noteq> []" using Calls by auto
  then have r: "mRole r = RoleUser" "list_all (\<lambda>b. bType b = BlockToolResult) (mContent r)"
    using Calls by (auto simp: plain_message_def is_assistant_def)
  have all: "all_uses (m # r # ms) = ?uses @ all_uses ms" using Calls by (simp add: all_uses_def)
  then have inj: "inj_on (normalize_id sha) (set ?uses)" "inj_on (normalize_id sha) (set (all_uses ms))"
    using Calls by (auto simp: inj_on_Un)
  have uses: "an_uses ?w = map (normalize_id sha) ?uses" using m by (simp add: an_uses_of)
  have ids: "map abToolUseID (amContent ?v) = map (normalize_id sha) (result_ids (mContent r))"
    using all_results(2) [OF r(2)] by simp
  have len: "length (result_ids (mContent r)) = length ?uses" using Calls by (metis distinct_card)
  have "length (amContent ?v) = length (an_uses ?w)"
    using ids len uses by (metis length_map)
  moreover have "distinct (map abToolUseID (amContent ?v))"
    unfolding ids using Calls inj(1) by (simp add: distinct_map)
  moreover have "set (map abToolUseID (amContent ?v)) = set (an_uses ?w)"
    unfolding ids uses using Calls by simp
  moreover have "list_all is_result (amContent ?v)" "amRole ?v = ''user''"
    using all_results(1) [OF r(2)] r(1) by (simp_all add: an_message_of_def)
  ultimately have "result_order (an_uses ?w) (merged (?v # map (an_message_of sha) ms))"
    using Calls inj(2) by (intro order_prepend_results) simp_all
  then show ?case
    using m no_results [OF m(2), of sha] merged_assistant [of ?w]
    by (simp del: merged.simps)
qed simp

subsection \<open>Ids\<close>

definition hex_digest :: "(string \<Rightarrow> string) \<Rightarrow> bool" where
  "hex_digest sha = (\<forall>s. length (sha s) = 64 \<and> set (sha s) \<subseteq> set ''0123456789abcdef'')"

lemma hex_id_char: "c \<in> set ''0123456789abcdef'' \<Longrightarrow> id_char c"
  by (auto simp: id_char_def)

lemma normalize_legal: "hex_digest sha \<Longrightarrow> legal_id (normalize_id sha i)"
proof -
  assume h: "hex_digest sha"
  have "id_char c" if "c \<in> set (take 24 (sha i))" for c
    using h that hex_id_char by (auto simp: hex_digest_def dest: in_set_takeD)
  moreover have "list_all id_char ''toolu_''" by code_simp
  ultimately show ?thesis
    using h by (auto simp: normalize_id_def legal_id_def hex_digest_def list_all_iff)
qed

definition legal_block :: "an_block \<Rightarrow> bool" where
  "legal_block b = ((abType b = ''tool_use'' \<longrightarrow> legal_id (abID b)) \<and>
     (abType b = ''tool_result'' \<longrightarrow> legal_id (abToolUseID b)))"

lemma convert_legal: "hex_digest sha \<Longrightarrow> legal_block (an_convert_block sha b)"
  by (simp add: legal_block_def an_convert_block.simps an_block0_def normalize_legal split: block_type.split)

lemma concat_all: "list_all P (concat xss) = list_all (list_all P) xss"
  by (induction xss) simp_all

subsection \<open>Properties\<close>

text \<open>C16: whatever the conversation, the messages sent carry its blocks, all of them and in order,
  no two user messages stand next to each other, and every id of a tool use or of a result has the
  shape the API accepts, so long as the hash is a hexadecimal digest of 64 digits.\<close>
theorem anthropic_request_wellformed:
  assumes "hex_digest sha"
  shows "concat (map amContent (arMessages (an_build_request sha r))) =
      concat (map (\<lambda>m. convert_blocks sha (mContent m)) (rqMessages r)) \<and>
    alternating (arMessages (an_build_request sha r)) \<and>
    list_all (\<lambda>m. list_all legal_block (amContent m)) (arMessages (an_build_request sha r))"
proof -
  have m: "arMessages (an_build_request sha r) = merged (map (an_message_of sha) (rqMessages r))"
    by (simp add: an_build_request_def an_messages_merged Let_def)
  have c: "concat (map amContent (arMessages (an_build_request sha r))) =
      concat (map (\<lambda>m. convert_blocks sha (mContent m)) (rqMessages r))"
    unfolding m merged_content by (simp add: comp_def)
  have "list_all (list_all legal_block) (map amContent (arMessages (an_build_request sha r)))"
    unfolding concat_all [symmetric] c
    by (simp add: concat_all list_all_iff convert_blocks_def convert_legal assms)
  with c alternating_merged show ?thesis by (simp add: m list_all_iff)
qed

text \<open>A settled conversation reaches the API in the order it asks for: each assistant message with
  tool uses is followed by a user message that opens with exactly one result per use, under the same
  id, and results stand nowhere else, although ids are replaced and user messages are merged; the
  hash must not confuse two ids of the conversation.\<close>
theorem anthropic_results_first:
  assumes "settled {} (rqMessages r)" "list_all plain_message (rqMessages r)"
    and "inj_on (normalize_id sha) (set (all_uses (rqMessages r)))"
  shows "result_order [] (arMessages (an_build_request sha r))"
  using converted_result_order [OF assms]
  by (simp add: an_build_request_def an_messages_merged Let_def)

text \<open>A thinking budget always leaves room for the reply, and no sampling control or stop sequence
  the API would reject goes with it; without a budget the caller's limit is sent as it is.\<close>
theorem anthropic_budget_leaves_room:
  shows "case arThinking (an_build_request sha r) of
      Some b \<Rightarrow> 0 < b \<and> b < arMaxTokens (an_build_request sha r) \<and> rqMaxTokens r \<le> arMaxTokens (an_build_request sha r) \<and>
        arTemperature (an_build_request sha r) = None \<and> arTopP (an_build_request sha r) = None \<and>
        arStopSequences (an_build_request sha r) = []
    | None \<Rightarrow> arMaxTokens (an_build_request sha r) = rqMaxTokens r"
  by (auto simp: an_build_request_def thinking_budget_def Let_def split: option.split)

text \<open>
  Where it fails: a call without arguments is sent without the \<open>input\<close> the API requires, and the
  repair of a conversation whose calls were never answered puts the user's text before the results.
\<close>

lemma argless_call_without_input:
  "bType b = BlockToolUse \<Longrightarrow> bToolInput b = Some [] \<Longrightarrow> wire_input (an_convert_block sha b) = None"
  by (simp add: wire_input_def an_convert_block.simps)

lemma repaired_history_text_first:
  "\<not> result_order [] (an_messages sha (ensure_pairing sample_unanswered))"
  unfolding repair_answers_after_user_text an_messages_merged
  by (simp add: sample_unanswered_def text_message_def interrupted_block_def convert_blocks_def
      an_convert_block.simps an_block0_def an_uses_def is_result_def)

subsection \<open>Witnesses\<close>

definition sample_sha :: "string \<Rightarrow> string" where
  "sample_sha s = replicate 64 CHR ''a''"

definition an_exchange :: "message list" where
  "an_exchange =
     [text_message RoleUser ''summary'', text_message RoleUser ''list'',
      \<lparr>mRole = RoleAssistant, mContent = [tool_use_block ''f:0'' ''ls'' None '''', tool_use_block ''b'' ''ls'' None '''']\<rparr>,
      \<lparr>mRole = RoleUser, mContent = [tool_result_block ''b'' ''x'' False [] None, tool_result_block ''f:0'' ''y'' False [] None]\<rparr>,
      text_message RoleUser ''go on'']"

definition an_sample_request :: wire_request where
  "an_sample_request = (loop_request sample_request)\<lparr>rqMessages := an_exchange\<rparr>"

lemma anthropic_request_wellformed_witness:
  "list_all (\<lambda>m. list_all legal_block (amContent m)) (arMessages (an_build_request sample_sha an_sample_request))"
proof -
  have "hex_digest sample_sha" by (simp add: hex_digest_def sample_sha_def)
  from anthropic_request_wellformed [OF this, of an_sample_request] show ?thesis by blast
qed

lemma anthropic_results_first_witness:
  "result_order [] (arMessages (an_build_request sample_sha an_sample_request))"
proof -
  have m: "rqMessages an_sample_request = an_exchange" by (simp add: an_sample_request_def)
  have "settled {} an_exchange" "list_all plain_message an_exchange" by code_simp+
  moreover have "set (all_uses an_exchange) = {''f:0'', ''b''}" by code_simp
  then have "inj_on (normalize_id sample_sha) (set (all_uses an_exchange))"
    by (simp add: inj_on_def normalize_id_def legal_id_def id_char_def sample_sha_def)
  ultimately show ?thesis using anthropic_results_first [of an_sample_request sample_sha] by (simp only: m)
qed

end
