(* ===== verification/Retry.thy ===== *)
theory Retry
  imports OpenAI Anthropic OpenAIRequest AnthropicRequest "HOL-Library.Word"
begin

section \<open>Retries and the call of a provider\<close>

text \<open>
  \<open>provider/retry.go\<close> and \<open>Adapter.Stream\<close> of both adapters. One call is an environment: what each
  attempt returns, whether the context ends the wait before an attempt, the random source, the
  HTTP date parser (the time left until the date). Durations are nanoseconds. The backoff is
  computed in \<open>float64\<close> by the code; for delays below \<open>2^53\<close> ns (104 days) every product and
  comparison there is exact, and the model computes it on integers. The product of a
  \<open>Retry-After\<close> in seconds wraps at 64 bits, as in the code.
\<close>

subsection \<open>Policy, statuses, Retry-After\<close>

record retry_policy =
  rpMaxAttempts :: int
  rpBaseDelay :: int
  rpMaxDelay :: int

definition second :: int where "second = 1000000000"
definition millisecond :: int where "millisecond = 1000000"

definition default_retry_policy :: retry_policy where
  "default_retry_policy = \<lparr>rpMaxAttempts = 3, rpBaseDelay = 500 * millisecond, rpMaxDelay = 8 * second\<rparr>"

definition normalized :: "retry_policy \<Rightarrow> retry_policy" where
  "normalized p = \<lparr>rpMaxAttempts = (if rpMaxAttempts p < 1 then 1 else rpMaxAttempts p),
     rpBaseDelay = (if rpBaseDelay p \<le> 0 then 500 * millisecond else rpBaseDelay p),
     rpMaxDelay = (if rpMaxDelay p \<le> 0 then 8 * second else rpMaxDelay p)\<rparr>"

definition retryable_status :: "int \<Rightarrow> bool" where
  "retryable_status code = (code \<in> set [429, 500, 502, 503, 504, 529])"

definition max_retry_after :: int where
  "max_retry_after = 120 * second"

text \<open>\<open>strconv.Atoi\<close>.\<close>

definition is_digit :: "char \<Rightarrow> bool" where
  "is_digit c = (48 \<le> (of_char c :: nat) \<and> (of_char c :: nat) \<le> 57)"

definition digits_value :: "string \<Rightarrow> int" where
  "digits_value s = fold (\<lambda>c v. 10 * v + (of_char c - 48)) s 0"

definition in_int64 :: "int \<Rightarrow> bool" where
  "in_int64 v = (- (2 ^ 63) \<le> v \<and> v < 2 ^ 63)"

definition atoi :: "string \<Rightarrow> int option" where
  "atoi s =
     (let (neg, ds) = (case s of [] \<Rightarrow> (False, [])
                       | c # cs \<Rightarrow> if c = CHR ''-'' then (True, cs) else if c = CHR ''+'' then (False, cs) else (False, s));
          v = (if neg then - digits_value ds else digits_value ds)
      in if ds \<noteq> [] \<and> list_all is_digit ds \<and> in_int64 v then Some v else None)"

text \<open>\<open>time.Duration(secs) * time.Second\<close>.\<close>

definition seconds_duration :: "int \<Rightarrow> int" where
  "seconds_duration secs = sint (word_of_int secs * word_of_int second :: 64 word)"

definition parse_retry_after :: "(string \<Rightarrow> int option) \<Rightarrow> string \<Rightarrow> int" where
  "parse_retry_after parse_date v0 =
     (let v = trim_space v0; cap = (\<lambda>d. if max_retry_after < d then max_retry_after else d) in
      if v = '''' then 0
      else case atoi v of
             Some secs \<Rightarrow> if secs \<le> 0 then 0 else cap (seconds_duration secs)
           | None \<Rightarrow> (case parse_date v of
                        Some d \<Rightarrow> if d \<le> 0 then 0 else cap d
                      | None \<Rightarrow> 0))"

subsection \<open>The loop\<close>

record http_response =
  hrStatus :: int
  hrRetryAfter :: string
  hrBody :: string
  hrReadError :: "lerr option" \<comment> \<open>what ends the reading of the body\<close>

record retry_env =
  rvAttempt :: "nat \<Rightarrow> string + http_response"
  rvCancelled :: "nat \<Rightarrow> string option"
    \<comment> \<open>the context ends the wait before this attempt, with this error\<close>
  rvRand :: "nat \<Rightarrow> int \<Rightarrow> int" \<comment> \<open>\<open>rand.Int63n\<close>\<close>
  rvParseDate :: "nat \<Rightarrow> string \<Rightarrow> int option"

datatype retry_act =
    Waited int
  | Attempted nat
  | Drained nat

definition backoff_ceiling :: "retry_policy \<Rightarrow> nat \<Rightarrow> int" where
  "backoff_ceiling p i = min (rpBaseDelay p * 2 ^ (i - 1)) (rpMaxDelay p)"

definition backoff_wait :: "retry_env \<Rightarrow> retry_policy \<Rightarrow> nat \<Rightarrow> int \<Rightarrow> int" where
  "backoff_wait rv p i retryAfter =
     (if 0 < retryAfter then retryAfter else rvRand rv i (backoff_ceiling p i + 1))"

text \<open>The last argument is the number of attempts left; \<open>i\<close> counts from 0.\<close>

fun retry_loop :: "retry_env \<Rightarrow> retry_policy \<Rightarrow> nat \<Rightarrow> string \<Rightarrow> int \<Rightarrow> nat \<Rightarrow>
    (string + http_response) \<times> retry_act list" where
  "retry_loop rv p i lastErr retryAfter 0 = (Inl lastErr, [])"
| "retry_loop rv p i lastErr retryAfter (Suc k) =
     (let waited = (if 0 < i then [Waited (backoff_wait rv p i retryAfter)] else []) in
      case (if 0 < i then rvCancelled rv i else None) of
        Some e \<Rightarrow> (Inl e, waited)
      | None \<Rightarrow>
          (case rvAttempt rv i of
             Inl e \<Rightarrow>
               let (r, acts) = retry_loop rv p (Suc i) e 0 k in (r, waited @ Attempted i # acts)
           | Inr resp \<Rightarrow>
               if retryable_status (hrStatus resp) \<and> k \<noteq> 0 then
                 let (r, acts) = retry_loop rv p (Suc i) (''provider status '' @ itoa (hrStatus resp))
                       (parse_retry_after (rvParseDate rv i) (hrRetryAfter resp)) k
                 in (r, waited @ Attempted i # Drained i # acts)
               else (Inr resp, waited @ [Attempted i])))"

definition do_with_retry :: "retry_env \<Rightarrow> retry_policy \<Rightarrow> (string + http_response) \<times> retry_act list" where
  "do_with_retry rv p0 = (let p = normalized p0 in retry_loop rv p 0 '''' 0 (nat (rpMaxAttempts p)))"

subsection \<open>What the retries promise\<close>

definition waits :: "retry_act list \<Rightarrow> int list" where
  "waits acts = concat (map (\<lambda>a. case a of Waited d \<Rightarrow> [d] | _ \<Rightarrow> []) acts)"

lemma waits_simps [simp]:
  "waits [] = []" "waits (Waited d # as) = d # waits as" "waits (Attempted i # as) = waits as"
  "waits (Drained i # as) = waits as" "waits (as @ bs) = waits as @ waits bs"
  by (simp_all add: waits_def)

text \<open>The attempt is worth another one: it failed or its status is transient.\<close>

definition transient :: "string + http_response \<Rightarrow> bool" where
  "transient a = (case a of Inl _ \<Rightarrow> True | Inr resp \<Rightarrow> retryable_status (hrStatus resp))"

definition responded :: "retry_env \<Rightarrow> nat \<Rightarrow> bool" where
  "responded rv i = (\<exists>resp. rvAttempt rv i = Inr resp)"

lemma responded_code [code]: "responded rv i = (case rvAttempt rv i of Inl _ \<Rightarrow> False | Inr _ \<Rightarrow> True)"
  by (auto simp: responded_def split: sum.split)

text \<open>
  What the server of the attempt before asked to wait, the wait before an attempt (none before the
  first), and all that is done for an attempt that is not the last.
\<close>

definition guidance :: "retry_env \<Rightarrow> nat \<Rightarrow> int" where
  "guidance rv j = (case rvAttempt rv (j - 1) of
     Inl _ \<Rightarrow> 0 | Inr resp \<Rightarrow> parse_retry_after (rvParseDate rv (j - 1)) (hrRetryAfter resp))"

definition waited_before :: "retry_env \<Rightarrow> retry_policy \<Rightarrow> nat \<Rightarrow> retry_act list" where
  "waited_before rv p j = (if j = 0 then [] else [Waited (backoff_wait rv p j (guidance rv j))])"

definition retried :: "retry_env \<Rightarrow> retry_policy \<Rightarrow> nat \<Rightarrow> retry_act list" where
  "retried rv p j = waited_before rv p j @ Attempted j # (if responded rv j then [Drained j] else [])"

text \<open>
  The outcome of a call whose attempts are numbered from \<open>i\<close> to below \<open>n\<close>, with everything it does:
  \<open>m\<close> attempts were made, all but the last retried; what is returned is the last one's answer, which
  needs no other or is the last one allowed, or the error of the context during the wait before \<open>m\<close>.
\<close>

definition retry_outcome :: "retry_env \<Rightarrow> retry_policy \<Rightarrow> nat \<Rightarrow> nat \<Rightarrow> (string + http_response) \<times> retry_act list \<Rightarrow> bool" where
  "retry_outcome rv p i n out =
     (\<exists>m. i \<le> m \<and> m \<le> n \<and> (\<forall>j. i \<le> j \<and> Suc j < m \<longrightarrow> transient (rvAttempt rv j)) \<and>
        (\<forall>j. i \<le> j \<and> 0 < j \<and> j < m \<longrightarrow> rvCancelled rv j = None) \<and>
        ((i < m \<and> fst out = rvAttempt rv (m - 1) \<and> (m = n \<or> \<not> transient (rvAttempt rv (m - 1))) \<and>
          snd out = concat (map (retried rv p) [i..<m - 1]) @ waited_before rv p (m - 1) @ [Attempted (m - 1)]) \<or>
         (\<exists>e. fst out = Inl e \<and> m < n \<and> rvCancelled rv m = Some e \<and> 0 < m \<and>
          (i < m \<longrightarrow> transient (rvAttempt rv (m - 1))) \<and>
          snd out = concat (map (retried rv p) [i..<m]) @ waited_before rv p m)))"

lemma outcome_cons:
  assumes "retry_outcome rv p (Suc i) n (r, acts)" "transient (rvAttempt rv i)" "0 < i \<Longrightarrow> rvCancelled rv i = None"
  shows "retry_outcome rv p i n (r, retried rv p i @ acts)"
proof -
  obtain m where m: "Suc i \<le> m" "m \<le> n" "\<forall>j. Suc i \<le> j \<and> Suc j < m \<longrightarrow> transient (rvAttempt rv j)"
    "\<forall>j. Suc i \<le> j \<and> 0 < j \<and> j < m \<longrightarrow> rvCancelled rv j = None"
    and c: "(Suc i < m \<and> r = rvAttempt rv (m - 1) \<and> (m = n \<or> \<not> transient (rvAttempt rv (m - 1))) \<and>
          acts = concat (map (retried rv p) [Suc i..<m - 1]) @ waited_before rv p (m - 1) @ [Attempted (m - 1)]) \<or>
         (\<exists>e. r = Inl e \<and> m < n \<and> rvCancelled rv m = Some e \<and> 0 < m \<and>
          (Suc i < m \<longrightarrow> transient (rvAttempt rv (m - 1))) \<and>
          acts = concat (map (retried rv p) [Suc i..<m]) @ waited_before rv p m)"
    using assms(1) unfolding retry_outcome_def fst_conv snd_conv by (elim exE conjE)
  have tr: "\<forall>j. i \<le> j \<and> Suc j < m \<longrightarrow> transient (rvAttempt rv j)"
    using m(3) assms(2) by (metis Suc_leI le_neq_implies_less)
  have nc: "\<forall>j. i \<le> j \<and> 0 < j \<and> j < m \<longrightarrow> rvCancelled rv j = None"
    using m(4) assms(3) by (metis Suc_leI le_neq_implies_less)
  show ?thesis
    using c
  proof (elim disjE exE)
    assume l: "Suc i < m \<and> r = rvAttempt rv (m - 1) \<and> (m = n \<or> \<not> transient (rvAttempt rv (m - 1))) \<and>
          acts = concat (map (retried rv p) [Suc i..<m - 1]) @ waited_before rv p (m - 1) @ [Attempted (m - 1)]"
    then have "[i..<m - 1] = i # [Suc i..<m - 1]" by (intro upt_conv_Cons) linarith
    with l tr nc m(2) show ?thesis unfolding retry_outcome_def by (intro exI [of _ m]) simp
  next
    fix e assume l: "r = Inl e \<and> m < n \<and> rvCancelled rv m = Some e \<and> 0 < m \<and>
          (Suc i < m \<longrightarrow> transient (rvAttempt rv (m - 1))) \<and>
          acts = concat (map (retried rv p) [Suc i..<m]) @ waited_before rv p m"
    have "[i..<m] = i # [Suc i..<m]" using m(1) by (intro upt_conv_Cons) simp
    moreover have "transient (rvAttempt rv (m - 1))" using l assms(2) m(1) by (cases "m = Suc i") auto
    ultimately show ?thesis using l tr nc m(1,2) unfolding retry_outcome_def by (intro exI [of _ m]) (simp del: upt_Suc)
  qed
qed

lemma outcome_last:
  assumes "i < n" "Suc i = n \<or> \<not> transient (rvAttempt rv i)" "0 < i \<Longrightarrow> rvCancelled rv i = None"
  shows "retry_outcome rv p i n (rvAttempt rv i, waited_before rv p i @ [Attempted i])"
proof -
  have "rvCancelled rv j = None" if "i \<le> j \<and> 0 < j \<and> j < Suc i" for j
  proof -
    from that have "j = i" by simp
    with that assms(3) show ?thesis by simp
  qed
  with assms(1,2) show ?thesis unfolding retry_outcome_def by (intro exI [of _ "Suc i"]) auto
qed

lemma outcome_cancelled:
  "0 < i \<Longrightarrow> i < n \<Longrightarrow> rvCancelled rv i = Some e \<Longrightarrow> retry_outcome rv p i n (Inl e, waited_before rv p i)"
  unfolding retry_outcome_def by (intro exI [of _ i]) auto

lemma retry_loop_outcome:
  "(0 < i \<Longrightarrow> ra = guidance rv i) \<Longrightarrow> retry_outcome rv p i (i + Suc k) (retry_loop rv p i lastErr ra (Suc k))"
proof (induction k arbitrary: i lastErr ra)
  case (0 i)
  then have w: "(if 0 < i then [Waited (backoff_wait rv p i ra)] else []) = waited_before rv p i" by (simp add: waited_before_def)
  show ?case
  proof (cases "if 0 < i then rvCancelled rv i else None")
    case None
    then have "retry_outcome rv p i (Suc i) (rvAttempt rv i, waited_before rv p i @ [Attempted i])"
      by (intro outcome_last) (auto split: if_splits)
    then show ?thesis using None w by (cases "rvAttempt rv i") (simp_all add: Let_def del: if_split)
  next
    case (Some e)
    then have "0 < i" "rvCancelled rv i = Some e" by (auto split: if_splits)
    with outcome_cancelled [of i "Suc i" rv e p] w show ?thesis by simp
  qed
next
  case (Suc k)
  then have w: "(if 0 < i then [Waited (backoff_wait rv p i ra)] else []) = waited_before rv p i" by (simp add: waited_before_def)
  note step = retry_loop.simps(2) [of rv p i lastErr ra "Suc k", unfolded w Let_def]
  show ?case
  proof (cases "if 0 < i then rvCancelled rv i else None")
    case (Some e)
    then have "0 < i" "rvCancelled rv i = Some e" by (auto split: if_splits)
    with outcome_cancelled [of i "i + Suc (Suc k)" rv e p] show ?thesis unfolding step by simp
  next
    case None
    then have nc: "0 < i \<Longrightarrow> rvCancelled rv i = None" by simp
    show ?thesis
    proof (cases "rvAttempt rv i")
      case (Inl e)
      obtain r acts where ra: "retry_loop rv p (Suc i) e 0 (Suc k) = (r, acts)" by force
      have "retry_outcome rv p (Suc i) (Suc i + Suc k) (r, acts)"
        using Suc.IH [of "Suc i" 0 e] Inl unfolding ra by (simp add: guidance_def)
      then have "retry_outcome rv p i (i + Suc (Suc k)) (r, retried rv p i @ acts)"
        using nc Inl by (intro outcome_cons) (simp_all add: transient_def)
      with None Inl ra show ?thesis unfolding step by (simp add: retried_def responded_def del: retry_loop.simps)
    next
      case (Inr resp)
      let ?e = "''provider status '' @ itoa (hrStatus resp)"
      let ?ra = "parse_retry_after (rvParseDate rv i) (hrRetryAfter resp)"
      obtain r acts where ra: "retry_loop rv p (Suc i) ?e ?ra (Suc k) = (r, acts)" by force
      show ?thesis
      proof (cases "retryable_status (hrStatus resp)")
        case True
        have "retry_outcome rv p (Suc i) (Suc i + Suc k) (r, acts)"
          using Suc.IH [of "Suc i" ?ra ?e] Inr unfolding ra by (simp add: guidance_def)
        then have "retry_outcome rv p i (i + Suc (Suc k)) (r, retried rv p i @ acts)"
          using nc Inr True by (intro outcome_cons) (simp_all add: transient_def)
        with None Inr True ra show ?thesis unfolding step by (simp add: retried_def responded_def del: retry_loop.simps)
      next
        case False
        then have "retry_outcome rv p i (i + Suc (Suc k)) (rvAttempt rv i, waited_before rv p i @ [Attempted i])"
          using nc Inr by (intro outcome_last) (simp_all add: transient_def)
        with None Inr False show ?thesis unfolding step by (simp del: retry_loop.simps)
      qed
    qed
  qed
qed

text \<open>Waits.\<close>

lemma retry_after_bound: "parse_retry_after pd v \<le> max_retry_after"
  by (auto simp: parse_retry_after_def Let_def max_retry_after_def second_def split: option.splits)

definition fair_random :: "retry_env \<Rightarrow> bool" where
  "fair_random rv = (\<forall>i n. 0 < n \<longrightarrow> 0 \<le> rvRand rv i n \<and> rvRand rv i n < n)"

lemma backoff_wait_bounds:
  assumes "fair_random rv" "0 < rpBaseDelay p" "0 < rpMaxDelay p" "ra \<le> max_retry_after"
  shows "0 \<le> backoff_wait rv p i ra \<and> backoff_wait rv p i ra \<le> max (rpMaxDelay p) max_retry_after"
proof (cases "0 < ra")
  case True
  with assms show ?thesis by (simp add: backoff_wait_def)
next
  case False
  have "0 < rpBaseDelay p * 2 ^ (i - 1)" using assms(2) by simp
  then have c: "0 < backoff_ceiling p i + 1" "backoff_ceiling p i \<le> rpMaxDelay p"
    using assms(3) by (auto simp: backoff_ceiling_def)
  then have "0 \<le> rvRand rv i (backoff_ceiling p i + 1) \<and> rvRand rv i (backoff_ceiling p i + 1) < backoff_ceiling p i + 1"
    using assms(1) unfolding fair_random_def by blast
  with c False show ?thesis by (simp add: backoff_wait_def max.coboundedI1)
qed

definition waits_within :: "int \<Rightarrow> retry_act list \<Rightarrow> bool" where
  "waits_within b acts = list_all (\<lambda>d. 0 \<le> d \<and> d \<le> b) (waits acts)"

lemma waits_within_simps [simp]:
  "waits_within b []" "waits_within b (Waited d # as) = (0 \<le> d \<and> d \<le> b \<and> waits_within b as)"
  "waits_within b (Attempted i # as) = waits_within b as" "waits_within b (Drained i # as) = waits_within b as"
  "waits_within b (xs @ ys) = (waits_within b xs \<and> waits_within b ys)"
  by (auto simp: waits_within_def)

lemma retry_loop_waits:
  assumes "fair_random rv" "0 < rpBaseDelay p" "0 < rpMaxDelay p"
  shows "ra \<le> max_retry_after \<Longrightarrow>
    waits_within (max (rpMaxDelay p) max_retry_after) (snd (retry_loop rv p i le ra k))"
proof (induction k arbitrary: i le ra)
  case (Suc k)
  let ?w = "if 0 < i then [Waited (backoff_wait rv p i ra)] else []"
  have z: "(0::int) \<le> max_retry_after" by (simp add: max_retry_after_def second_def)
  have w: "waits_within (max (rpMaxDelay p) max_retry_after) ?w"
    using backoff_wait_bounds [OF assms Suc.prems, of i] by simp
  show ?case
  proof (cases "if 0 < i then rvCancelled rv i else None")
    case None
    show ?thesis
    proof (cases "rvAttempt rv i")
      case (Inl e)
      with None w Suc.IH [OF z, of "Suc i" e] show ?thesis
        by (simp add: Let_def case_prod_unfold del: if_split)
    next
      case (Inr resp)
      with None w Suc.IH [OF retry_after_bound, of "Suc i" "''provider status '' @ itoa (hrStatus resp)"
        "rvParseDate rv i" "hrRetryAfter resp"]
      show ?thesis
        by (cases "retryable_status (hrStatus resp) \<and> k \<noteq> 0")
          (simp_all add: Let_def case_prod_unfold del: if_split)
    qed
  next
    case (Some e)
    with w show ?thesis by (simp add: Let_def del: if_split)
  qed
qed simp

subsection \<open>The call of an adapter\<close>

text \<open>
  \<open>Adapter.Stream\<close> after the request is built: the response of the retries is read as a stream when
  its status is 200; otherwise its status and the first 4096 bytes of its body tell an overflow
  from another rejection.
\<close>

definition adapter_call :: "string \<Rightarrow> retry_env \<Rightarrow> retry_policy \<Rightarrow>
    (string \<Rightarrow> lerr option \<Rightarrow> provider_event list) \<Rightarrow> lerr + provider_event list" where
  "adapter_call name rv p events =
     (case fst (do_with_retry rv p) of
        Inl e \<Rightarrow> Inl (errorf (''do request: '' @ e))
      | Inr resp \<Rightarrow>
          if hrStatus resp \<noteq> 200 then
            (let b = take 4096 (hrBody resp) in
             case classify_http_error (hrStatus resp) b of
               Some ov \<Rightarrow> Inl ov
             | None \<Rightarrow> Inl (errorf (name @ '' status '' @ itoa (hrStatus resp) @ '': '' @ b)))
          else Inr (events (hrBody resp) (hrReadError resp)))"

definition oa_stream :: "(string \<Rightarrow> string + chunk) \<Rightarrow> retry_policy \<Rightarrow> (oa_request \<Rightarrow> retry_env) \<Rightarrow>
    wire_request \<Rightarrow> lerr + provider_event list" where
  "oa_stream dec p net r = adapter_call ''openai'' (net (oa_build_request r)) p (oa_stream_events dec)"

definition an_stream :: "(string \<Rightarrow> string + raw_event) \<Rightarrow> (string \<Rightarrow> string) \<Rightarrow> retry_policy \<Rightarrow>
    (an_request \<Rightarrow> retry_env) \<Rightarrow> wire_request \<Rightarrow> lerr + provider_event list" where
  "an_stream dec sha p net r = adapter_call ''anthropic'' (net (an_build_request sha r)) p (an_stream_events dec)"

subsection \<open>Properties\<close>

text \<open>C17: whatever the network does, a call makes its attempts one after the other, at least one and at
  most as many as the policy allows, the first one at once and each other after one wait, which is
  what the answer before it asked for, or else the policy's backoff; every attempt that is retried failed or
  was answered with a transient status, and that answer, never the one returned, is drained and
  closed; the call returns the first answer that is not transient, what the last allowed attempt gave,
  or the error of the context that ended a wait; and provided the random source keeps to its range,
  no wait is negative or exceeds both the policy's cap and two minutes, whatever the server asks for.\<close>
theorem retries_exact:
  assumes "fair_random rv"
  shows "retry_outcome rv (normalized p) 0 (nat (max 1 (rpMaxAttempts p))) (do_with_retry rv p) \<and>
    waits_within (max (rpMaxDelay (normalized p)) max_retry_after) (snd (do_with_retry rv p))"
proof -
  let ?p = "normalized p"
  have n: "nat (rpMaxAttempts ?p) = nat (max 1 (rpMaxAttempts p))" by (simp add: normalized_def)
  obtain k where k: "nat (max 1 (rpMaxAttempts p)) = Suc k" by (cases "nat (max 1 (rpMaxAttempts p))") auto
  have "0 < rpBaseDelay ?p" "0 < rpMaxDelay ?p"
    by (simp_all add: normalized_def second_def millisecond_def)
  from retry_loop_waits [OF assms this, of 0 0 "''''" "Suc k"] retry_loop_outcome [of 0 0 rv ?p k "''''"]
  show ?thesis
    unfolding do_with_retry_def Let_def n k by (simp add: max_retry_after_def second_def del: retry_loop.simps)
qed

text \<open>C18: a rejection reaches the loop before anything was streamed, as an error it may retry; it is an
  overflow of the context, which the loop answers by shrinking its view, exactly when the status is
  413, or 400 or 422 with a body that names a limit.\<close>
theorem rejection_classified:
  assumes "eStream en (sClock s) (mcRequest c) = adapter_call name rv p events"
    and "fst (do_with_retry rv p) = Inr resp" "hrStatus resp \<noteq> 200"
  shows "\<exists>e. real_attempt en c s = ((empty_result, Some e), c, tick s) \<and> \<not> leMid e \<and>
    (leOverflow e \<longleftrightarrow> hrStatus resp = 413 \<or>
      (hrStatus resp \<in> {400, 422} \<and> match_overflow_marker (take 4096 (hrBody resp))))"
  using assms
  by (auto simp: real_attempt_def adapter_call_def Let_def classify_http_error_def context_overflow_error_def
      errorf_def wrap_text_def split: option.splits)

text \<open>
  Where the code falls short: a \<open>Retry-After\<close> large enough for its product with a second to leave
  64 bits is not capped at two minutes; it becomes a short wait, or a negative one, for which the
  computed backoff stands in.
\<close>

lemma retry_after_wraps:
  "parse_retry_after pd ''18446744074'' = 290448384"
  "parse_retry_after pd ''9223372037'' = - 9223372036709551616"
  by (simp_all add: parse_retry_after_def trim_space_def is_space_def atoi_def digits_value_def is_digit_def
      in_int64_def seconds_duration_def second_def max_retry_after_def Let_def)

definition sample_net :: retry_env where
  "sample_net = \<lparr>rvAttempt = (\<lambda>i. if i = 0 then Inr \<lparr>hrStatus = 529, hrRetryAfter = ''3'', hrBody = '''', hrReadError = None\<rparr>
      else if i = 1 then Inl ''connection reset''
      else Inr \<lparr>hrStatus = 400, hrRetryAfter = '''', hrBody = ''Prompt is too long'', hrReadError = None\<rparr>),
     rvCancelled = (\<lambda>_. None), rvRand = (\<lambda>_ n. n - 1), rvParseDate = (\<lambda>_ _. None)\<rparr>"

lemma sample_net_run:
  "do_with_retry sample_net default_retry_policy =
     (Inr \<lparr>hrStatus = 400, hrRetryAfter = '''', hrBody = ''Prompt is too long'', hrReadError = None\<rparr>,
      [Attempted 0, Drained 0, Waited 3000000000, Attempted 1, Waited 1000000000, Attempted 2])"
  by (simp add: do_with_retry_def normalized_def default_retry_policy_def sample_net_def eval_nat_numeral
      retryable_status_def backoff_wait_def backoff_ceiling_def parse_retry_after_def trim_space_def is_space_def
      atoi_def digits_value_def is_digit_def in_int64_def seconds_duration_def second_def millisecond_def
      max_retry_after_def Let_def)

lemma sample_net_fair: "fair_random sample_net"
  by (simp add: fair_random_def sample_net_def)

lemma retries_exact_witness:
  "retry_outcome sample_net (normalized default_retry_policy) 0 3 (do_with_retry sample_net default_retry_policy) \<and>
   waits_within (120 * second) (snd (do_with_retry sample_net default_retry_policy))"
  using retries_exact [OF sample_net_fair, of default_retry_policy]
  by (simp add: default_retry_policy_def normalized_def max_retry_after_def second_def millisecond_def)

lemma rejection_classified_witness:
  "\<exists>e. real_attempt ((sample_env (\<lambda>_. []))\<lparr>eStream := (\<lambda>_ r. oa_stream sample_decode default_retry_policy
        (\<lambda>_. sample_net) (loop_request r))\<rparr>) \<lparr>mcRequest = sample_request, mcView = []\<rparr> (init_lstate 0) =
      ((empty_result, Some e), \<lparr>mcRequest = sample_request, mcView = []\<rparr>, tick (init_lstate 0)) \<and>
    leOverflow e \<and> \<not> leMid e"
proof -
  let ?en = "(sample_env (\<lambda>_. []))\<lparr>eStream := (\<lambda>_ r. oa_stream sample_decode default_retry_policy
        (\<lambda>_. sample_net) (loop_request r))\<rparr>"
  let ?c = "\<lparr>mcRequest = sample_request, mcView = []\<rparr>"
  have a: "eStream ?en (sClock (init_lstate 0)) (mcRequest ?c) =
      adapter_call ''openai'' sample_net default_retry_policy (oa_stream_events sample_decode)"
    by (simp add: oa_stream_def)
  have f: "fst (do_with_retry sample_net default_retry_policy) =
      Inr \<lparr>hrStatus = 400, hrRetryAfter = '''', hrBody = ''Prompt is too long'', hrReadError = None\<rparr>"
    by (simp add: sample_net_run)
  have m: "match_overflow_marker (take 4096 ''Prompt is too long'')"
    by (simp add: match_overflow_marker_def overflow_markers_def to_lower_def lower_char_def has_prefix_def char_of_eq_iff)
  from rejection_classified [OF a f] m show ?thesis by auto
qed

end
