(* ===== verification/Stall.thy ===== *)
theory Stall
  imports Prelude
begin

section \<open>The stall detector of a provider stream\<close>

text \<open>
  \<open>provider/stall.go\<close>: a reader whose every read runs under a deadline, and the watchdog that closes
  the body when a deadline passes with the read still pending. The atomic steps are the critical
  sections of its mutex: the two halves of \<open>Read\<close>, the final check of the watchdog, \<open>Close\<close>; time
  passes between them. The watchdog's first look at the deadline and its timer only decide when it
  comes to its check, so a check may happen at any moment. \<open>None\<close> is the zero deadline. The ghost
  field \<open>srPending\<close> is the moment the pending read began, \<open>srResults\<close> what reads have returned.
\<close>

subsection \<open>The code\<close>

datatype read_result =
    BodyBytes string
  | BodyEOF
  | BodyError string
  | Stalled int

record stall_reader =
  srTimeout :: int
  srDeadline :: "time option"
  srFired :: bool
  srClosed :: bool
  srBodyClosed :: bool
  srNow :: time
  srPending :: "time option"
  srResults :: "(time \<times> time \<times> read_result) list"

definition new_stall_reader :: "int \<Rightarrow> time \<Rightarrow> stall_reader" where
  "new_stall_reader timeout now = \<lparr>srTimeout = timeout, srDeadline = None, srFired = False, srClosed = False,
     srBodyClosed = False, srNow = now, srPending = None, srResults = []\<rparr>"

text \<open>The first half of \<open>Read\<close>: a sticky stall, or the armed window.\<close>

definition read_begin :: "stall_reader \<Rightarrow> stall_reader" where
  "read_begin r =
     (if srFired r then r\<lparr>srResults := srResults r @ [(srNow r, srNow r, Stalled (srTimeout r))]\<rparr>
      else r\<lparr>srDeadline := Some (srNow r + srTimeout r), srPending := Some (srNow r)\<rparr>)"

text \<open>The second half, with what the body's own read returned.\<close>

definition read_end :: "time \<Rightarrow> read_result \<Rightarrow> stall_reader \<Rightarrow> stall_reader" where
  "read_end start res r =
     (let out = (if srFired r then Stalled (srTimeout r) else res)
      in r\<lparr>srClosed := srClosed r \<or> out = BodyEOF, srDeadline := None, srPending := None,
           srResults := srResults r @ [(start, srNow r, out)]\<rparr>)"

definition watchdog_fires :: "stall_reader \<Rightarrow> bool" where
  "watchdog_fires r = (\<not> srFired r \<and> \<not> srClosed r \<and>
     (case srDeadline r of None \<Rightarrow> False | Some dl \<Rightarrow> dl \<le> srNow r))"

definition watchdog_check :: "stall_reader \<Rightarrow> stall_reader" where
  "watchdog_check r = (if watchdog_fires r then r\<lparr>srFired := True, srBodyClosed := True\<rparr> else r)"

definition close_reader :: "stall_reader \<Rightarrow> stall_reader" where
  "close_reader r = r\<lparr>srClosed := True, srBodyClosed := True\<rparr>"

text \<open>
  One reader at a time, as \<open>io.Reader\<close> asks; what the body returns is its own affair, but it never
  returns a stall.
\<close>

inductive reader_step :: "stall_reader \<Rightarrow> stall_reader \<Rightarrow> bool" where
  ReadBegin: "srPending r = None \<Longrightarrow> reader_step r (read_begin r)"
| ReadEnd: "srPending r = Some start \<Longrightarrow> (\<forall>d. res \<noteq> Stalled d) \<Longrightarrow> reader_step r (read_end start res r)"
| Watchdog: "reader_step r (watchdog_check r)"
| CloseReader: "reader_step r (close_reader r)"
| Tick: "0 \<le> d \<Longrightarrow> reader_step r (r\<lparr>srNow := srNow r + d\<rparr>)"

inductive reader_run :: "stall_reader \<Rightarrow> stall_reader \<Rightarrow> bool" where
  Start: "reader_run r r"
| Step: "reader_run r s \<Longrightarrow> reader_step s t \<Longrightarrow> reader_run r t"

inductive_cases reader_stepE: "reader_step r s"

subsection \<open>The invariant\<close>

definition stalled :: "read_result \<Rightarrow> bool" where
  "stalled r = (case r of Stalled _ \<Rightarrow> True | _ \<Rightarrow> False)"

text \<open>
  What reads may have returned, each with the moments it began and ended: the first stalled one
  waited its whole window, and from then on every read is stalled.
\<close>

fun stall_history :: "int \<Rightarrow> bool \<Rightarrow> (time \<times> time \<times> read_result) list \<Rightarrow> bool" where
  "stall_history timeout already [] = True"
| "stall_history timeout already ((start, fin, res) # rs) =
     (if stalled res then (already \<or> start + timeout \<le> fin) \<and> stall_history timeout True rs
      else \<not> already \<and> stall_history timeout False rs)"

definition any_stall :: "(time \<times> time \<times> read_result) list \<Rightarrow> bool" where
  "any_stall rs = list_ex (\<lambda>x. stalled (snd (snd x))) rs"

definition any_eof :: "(time \<times> time \<times> read_result) list \<Rightarrow> bool" where
  "any_eof rs = list_ex (\<lambda>x. snd (snd x) = BodyEOF) rs"

lemma any_simps [simp]:
  "\<not> any_stall []" "any_stall (rs @ [(st, en, res)]) = (any_stall rs \<or> stalled res)"
  "\<not> any_eof []" "any_eof (rs @ [(st, en, res)]) = (any_eof rs \<or> res = BodyEOF)"
  "stalled (Stalled d)" "\<not> stalled BodyEOF"
  by (auto simp: any_stall_def any_eof_def stalled_def)

lemma not_stalled: "(\<forall>d. res \<noteq> Stalled d) \<Longrightarrow> \<not> stalled res"
  by (auto simp: stalled_def split: read_result.split)

lemma stall_history_snoc:
  "stall_history T b (rs @ [(st, en, res)]) =
     (stall_history T b rs \<and>
      (if stalled res then b \<or> any_stall rs \<or> st + T \<le> en else \<not> b \<and> \<not> any_stall rs))"
  by (induction T b rs rule: stall_history.induct) (auto simp: any_stall_def)

lemma stall_history_mono: "stall_history T True rs \<Longrightarrow> rs \<noteq> [] \<Longrightarrow> any_stall rs"
  by (cases rs) (auto simp: any_stall_def split: if_splits)

text \<open>
  The deadline is armed exactly while a read is pending, and ends its window; the detector has
  fired only if the window of a pending read has passed or a read has been told of the stall.
\<close>

definition window_passed :: "stall_reader \<Rightarrow> bool" where
  "window_passed r = (case srPending r of None \<Rightarrow> False | Some st \<Rightarrow> st + srTimeout r \<le> srNow r)"

definition reader_inv :: "stall_reader \<Rightarrow> bool" where
  "reader_inv r =
     (srDeadline r = map_option (\<lambda>st. st + srTimeout r) (srPending r) \<and>
      (srFired r \<longrightarrow> srBodyClosed r \<and> \<not> any_eof (srResults r) \<and> (window_passed r \<or> any_stall (srResults r))) \<and>
      (\<not> srFired r \<longrightarrow> \<not> any_stall (srResults r)) \<and> (any_eof (srResults r) \<longrightarrow> srClosed r) \<and>
      stall_history (srTimeout r) False (srResults r))"

lemma reader_inv_step: "reader_step r s \<Longrightarrow> reader_inv r \<Longrightarrow> reader_inv s"
proof (induction rule: reader_step.induct)
  case (ReadBegin r)
  then show ?case
    by (auto simp: reader_inv_def read_begin_def stall_history_snoc window_passed_def)
next
  case (ReadEnd r start res)
  then show ?case
    by (auto simp: reader_inv_def read_end_def Let_def stall_history_snoc window_passed_def not_stalled)
next
  case (Watchdog r)
  then show ?case
    by (auto simp: reader_inv_def watchdog_check_def watchdog_fires_def window_passed_def split: option.splits)
next
  case (CloseReader r)
  then show ?case by (auto simp: reader_inv_def close_reader_def window_passed_def split: option.splits)
next
  case (Tick d r)
  then show ?case by (auto simp: reader_inv_def window_passed_def split: option.splits)
qed

lemma reader_timeout_step: "reader_step r s \<Longrightarrow> srTimeout s = srTimeout r"
  by (induction rule: reader_step.induct)
    (simp_all add: read_begin_def read_end_def Let_def watchdog_check_def close_reader_def)

lemma reader_run_inv: "reader_run r s \<Longrightarrow> reader_inv r \<Longrightarrow> reader_inv s \<and> srTimeout s = srTimeout r"
  by (induction rule: reader_run.induct) (auto dest: reader_inv_step reader_timeout_step)

lemma new_reader_inv: "reader_inv (new_stall_reader T now)"
  by (simp add: reader_inv_def new_stall_reader_def)

subsection \<open>Properties\<close>

text \<open>C20: however reads, the watchdog, closing and the passing of time interleave, a read that ends
  within its window is never told of a stall unless an earlier one was, the first stalled read has
  waited its whole window, every read after it is stalled too, the body is closed when the detector
  fires, and a stream that has reached its end is never reported as stalled.\<close>
theorem stall_only_after_window:
  assumes "reader_run (new_stall_reader T now) r"
  shows "stall_history T False (srResults r) \<and> (srFired r \<longrightarrow> srBodyClosed r) \<and>
    (any_eof (srResults r) \<longrightarrow> \<not> any_stall (srResults r))"
  using reader_run_inv [OF assms new_reader_inv]
  by (auto simp: reader_inv_def new_stall_reader_def)

definition sample_reader :: stall_reader where
  "sample_reader = read_begin (read_end 0 (BodyBytes ''x'') (watchdog_check
     ((watchdog_check (read_begin (new_stall_reader 10 0)))\<lparr>srNow := 12\<rparr>)))"

lemma sample_reader_run: "reader_run (new_stall_reader 10 0) sample_reader"
proof -
  let ?r1 = "read_begin (new_stall_reader 10 0)"
  let ?r2 = "watchdog_check ?r1"
  let ?r3 = "?r2\<lparr>srNow := 12\<rparr>"
  let ?r4 = "watchdog_check ?r3"
  let ?r5 = "read_end 0 (BodyBytes ''x'') ?r4"
  have r3: "?r3 = ?r2\<lparr>srNow := srNow ?r2 + 12\<rparr>"
    by (simp add: watchdog_check_def watchdog_fires_def read_begin_def new_stall_reader_def)
  have "reader_run (new_stall_reader 10 0) ?r1"
    by (rule Step [OF Start ReadBegin]) (simp add: new_stall_reader_def)
  then have "reader_run (new_stall_reader 10 0) ?r2" by (rule Step) (rule Watchdog)
  then have "reader_run (new_stall_reader 10 0) ?r3" unfolding r3 by (rule Step) (rule Tick, simp)
  then have "reader_run (new_stall_reader 10 0) ?r4" by (rule Step) (rule Watchdog)
  then have "reader_run (new_stall_reader 10 0) ?r5"
    by (rule Step, intro ReadEnd)
      (simp_all add: watchdog_check_def watchdog_fires_def read_begin_def new_stall_reader_def)
  then have "reader_run (new_stall_reader 10 0) (read_begin ?r5)"
    by (rule Step, intro ReadBegin) (simp add: read_end_def Let_def)
  then show ?thesis by (simp add: sample_reader_def)
qed

lemma stall_only_after_window_witness:
  "srResults sample_reader = [(0, 12, Stalled 10), (12, 12, Stalled 10)] \<and> stall_history 10 False (srResults sample_reader)"
  using stall_only_after_window [OF sample_reader_run]
  by (simp add: sample_reader_def read_begin_def read_end_def watchdog_check_def watchdog_fires_def
      new_stall_reader_def Let_def)

end
