(* ===== verification/Throttle.thy ===== *)
theory Throttle
  imports Prelude
begin

section \<open>Login and verification-code throttling\<close>

text \<open>
  \<open>identity/throttle.go\<close> and \<open>identity/otpthrottle.go\<close>. Both keep, per key, the moments of recent
  failures and the moment a lock ends; the login throttle keeps them twice, for the pair of email
  and address and for the email alone; the code throttle also counts the codes sent. Every
  operation runs under one mutex, so it is one step; the clock is read once per operation. The
  lockout equals the window (15 minutes) in both.
\<close>

subsection \<open>What both files write alike\<close>

type_synonym times = "(string, time list) gomap"
type_synonym locks = "(string, time) gomap"

definition minute :: int where "minute = 60000000000"

definition loginMaxFailures :: nat where "loginMaxFailures = 5"
definition loginFailWindow :: int where "loginFailWindow = 15 * minute"
definition loginLockout :: int where "loginLockout = 15 * minute"
definition throttleMaxKeys :: nat where "throttleMaxKeys = 100000"

definition otpMaxVerifyFailures :: nat where "otpMaxVerifyFailures = 5"
definition otpVerifyWindow :: int where "otpVerifyWindow = 15 * minute"
definition otpVerifyLockout :: int where "otpVerifyLockout = 15 * minute"
definition otpDailyPerPhone :: nat where "otpDailyPerPhone = 10"
definition otpDailyPerIP :: nat where "otpDailyPerIP = 30"
definition otpDay :: int where "otpDay = 24 * 60 * minute"

definition prune_map :: "int \<Rightarrow> string \<Rightarrow> time \<Rightarrow> times \<Rightarrow> times" where
  "prune_map window k now m =
     (let kept = filter (\<lambda>at. now - window < at) (mlist m k)
      in if kept = [] then mdel k m else mput k kept m)"

text \<open>A lock that holds refuses; one that has expired is cleared with its failures.\<close>

definition lock_gate :: "string \<Rightarrow> time \<Rightarrow> times \<Rightarrow> locks \<Rightarrow> int option \<times> times \<times> locks" where
  "lock_gate k now f l =
     (case mget l k of
        None \<Rightarrow> (None, f, l)
      | Some until \<Rightarrow> if now < until then (Some (until - now), f, l) else (None, mdel k f, mdel k l))"

text \<open>Recording a failure in a pruned map, locking at the limit.\<close>

definition record_failure :: "nat \<Rightarrow> int \<Rightarrow> string \<Rightarrow> time \<Rightarrow> times \<Rightarrow> locks \<Rightarrow> times \<times> locks" where
  "record_failure limit lockout k now f l =
     (let xs = mlist f k @ [now]
      in (mput k xs f, if limit \<le> length xs then mput k (now + lockout) l else l))"

text \<open>\<open>sweepAll\<close> on one table of failures and on one table of locks.\<close>

definition sweep_times :: "int \<Rightarrow> time \<Rightarrow> times \<Rightarrow> times" where
  "sweep_times window now m = fold (\<lambda>k m. prune_map window k now m) (mkeys m) m"

definition sweep_locks :: "time \<Rightarrow> times \<Rightarrow> locks \<Rightarrow> times \<times> locks" where
  "sweep_locks now f l =
     fold (\<lambda>(k, until) (f, l). if now < until then (f, l) else (mdel k f, mdel k l)) l (f, l)"

subsection \<open>The login throttle\<close>

record login_throttler =
  ltFailures :: times
  ltLocked :: locks
  ltEmailFailures :: times
  ltEmailLocked :: locks

definition new_login_throttler :: login_throttler where
  "new_login_throttler = \<lparr>ltFailures = [], ltLocked = [], ltEmailFailures = [], ltEmailLocked = []\<rparr>"

definition email_key :: "string \<Rightarrow> string" where
  "email_key email = to_lower (trim_space email)"

definition login_key :: "string \<Rightarrow> string \<Rightarrow> string" where
  "login_key email ip = email_key email @ ''|'' @ ip"

definition login_sweep :: "time \<Rightarrow> login_throttler \<Rightarrow> login_throttler" where
  "login_sweep now t =
     (let (f, l) = sweep_locks now (sweep_times loginFailWindow now (ltFailures t)) (ltLocked t);
          (ef, el) = sweep_locks now (sweep_times loginFailWindow now (ltEmailFailures t)) (ltEmailLocked t)
      in \<lparr>ltFailures = f, ltLocked = l, ltEmailFailures = ef, ltEmailLocked = el\<rparr>)"

definition login_admit :: "(login_throttler \<Rightarrow> times) \<Rightarrow> string \<Rightarrow> time \<Rightarrow> login_throttler \<Rightarrow> bool \<times> login_throttler" where
  "login_admit m k now t =
     (if length (m t) < throttleMaxKeys then (True, t)
      else let t' = login_sweep now t in (mget (m t') k \<noteq> None \<or> length (m t') < throttleMaxKeys, t'))"

definition login_check :: "string \<Rightarrow> string \<Rightarrow> time \<Rightarrow> login_throttler \<Rightarrow> (bool \<times> int) \<times> login_throttler" where
  "login_check email ip now t =
     (let k = login_key email ip; ek = email_key email;
          (r, f, l) = lock_gate k now (ltFailures t) (ltLocked t);
          t1 = t\<lparr>ltFailures := f, ltLocked := l\<rparr>
      in case r of
           Some d \<Rightarrow> ((False, d), t1)
         | None \<Rightarrow>
             let (er, ef, el) = lock_gate ek now (ltEmailFailures t1) (ltEmailLocked t1);
                 t2 = t1\<lparr>ltEmailFailures := ef, ltEmailLocked := el\<rparr>
             in case er of
                  Some d \<Rightarrow> ((False, d), t2)
                | None \<Rightarrow>
                    let t3 = t2\<lparr>ltFailures := prune_map loginFailWindow k now (ltFailures t2),
                                ltEmailFailures := prune_map loginFailWindow ek now (ltEmailFailures t2)\<rparr>
                    in (if loginMaxFailures \<le> length (mlist (ltFailures t3) k) \<or>
                           loginMaxFailures \<le> length (mlist (ltEmailFailures t3) ek)
                        then (False, loginLockout) else (True, 0), t3))"

definition login_fail :: "string \<Rightarrow> string \<Rightarrow> time \<Rightarrow> login_throttler \<Rightarrow> login_throttler" where
  "login_fail email ip now t =
     (let k = login_key email ip; ek = email_key email;
          t1 = t\<lparr>ltFailures := prune_map loginFailWindow k now (ltFailures t)\<rparr>;
          (ok, t2) = login_admit ltFailures k now t1;
          t3 = (if ok then
                  let (f, l) = record_failure loginMaxFailures loginLockout k now (ltFailures t2) (ltLocked t2)
                  in t2\<lparr>ltFailures := f, ltLocked := l\<rparr>
                else t2);
          t4 = t3\<lparr>ltEmailFailures := prune_map loginFailWindow ek now (ltEmailFailures t3)\<rparr>;
          (eok, t5) = login_admit ltEmailFailures ek now t4
      in if eok then
           let (ef, el) = record_failure loginMaxFailures loginLockout ek now (ltEmailFailures t5) (ltEmailLocked t5)
           in t5\<lparr>ltEmailFailures := ef, ltEmailLocked := el\<rparr>
         else t5)"

definition login_success :: "string \<Rightarrow> string \<Rightarrow> login_throttler \<Rightarrow> login_throttler" where
  "login_success email ip t =
     (let k = login_key email ip; ek = email_key email
      in t\<lparr>ltFailures := mdel k (ltFailures t), ltLocked := mdel k (ltLocked t),
           ltEmailFailures := mdel ek (ltEmailFailures t), ltEmailLocked := mdel ek (ltEmailLocked t)\<rparr>)"

subsection \<open>The code throttle\<close>

record otp_throttler =
  otVerify :: times
  otLocked :: locks
  otSentPhone :: times
  otSentIP :: times

definition new_otp_throttler :: otp_throttler where
  "new_otp_throttler = \<lparr>otVerify = [], otLocked = [], otSentPhone = [], otSentIP = []\<rparr>"

definition otp_key :: "string \<Rightarrow> string \<Rightarrow> string" where
  "otp_key phone ip = trim_space phone @ ''|'' @ ip"

definition otp_sweep :: "time \<Rightarrow> otp_throttler \<Rightarrow> otp_throttler" where
  "otp_sweep now t =
     (let (f, l) = sweep_locks now (sweep_times otpVerifyWindow now (otVerify t)) (otLocked t)
      in \<lparr>otVerify = f, otLocked = l, otSentPhone = sweep_times otpDay now (otSentPhone t),
          otSentIP = sweep_times otpDay now (otSentIP t)\<rparr>)"

definition otp_admit :: "(otp_throttler \<Rightarrow> times) \<Rightarrow> string \<Rightarrow> time \<Rightarrow> otp_throttler \<Rightarrow> bool \<times> otp_throttler" where
  "otp_admit m k now t =
     (if length (m t) < throttleMaxKeys then (True, t)
      else let t' = otp_sweep now t in (mget (m t') k \<noteq> None \<or> length (m t') < throttleMaxKeys, t'))"

definition check_verify :: "string \<Rightarrow> string \<Rightarrow> time \<Rightarrow> otp_throttler \<Rightarrow> (bool \<times> int) \<times> otp_throttler" where
  "check_verify phone ip now t =
     (let k = otp_key phone ip;
          (r, f, l) = lock_gate k now (otVerify t) (otLocked t);
          t1 = t\<lparr>otVerify := f, otLocked := l\<rparr>
      in case r of
           Some d \<Rightarrow> ((False, d), t1)
         | None \<Rightarrow>
             let t2 = t1\<lparr>otVerify := prune_map otpVerifyWindow k now (otVerify t1)\<rparr>
             in (if otpMaxVerifyFailures \<le> length (mlist (otVerify t2) k) then (False, otpVerifyLockout) else (True, 0), t2))"

definition fail_verify :: "string \<Rightarrow> string \<Rightarrow> time \<Rightarrow> otp_throttler \<Rightarrow> otp_throttler" where
  "fail_verify phone ip now t =
     (let k = otp_key phone ip;
          (ok, t1) = otp_admit otVerify k now (t\<lparr>otVerify := prune_map otpVerifyWindow k now (otVerify t)\<rparr>)
      in if ok then
           let (f, l) = record_failure otpMaxVerifyFailures otpVerifyLockout k now (otVerify t1) (otLocked t1)
           in t1\<lparr>otVerify := f, otLocked := l\<rparr>
         else t1)"

definition success_verify :: "string \<Rightarrow> string \<Rightarrow> otp_throttler \<Rightarrow> otp_throttler" where
  "success_verify phone ip t =
     (let k = otp_key phone ip in t\<lparr>otVerify := mdel k (otVerify t), otLocked := mdel k (otLocked t)\<rparr>)"

definition allow_send :: "string \<Rightarrow> string \<Rightarrow> time \<Rightarrow> otp_throttler \<Rightarrow> bool \<times> otp_throttler" where
  "allow_send phone ip now t =
     (let t1 = t\<lparr>otSentPhone := prune_map otpDay phone now (otSentPhone t),
                 otSentIP := prune_map otpDay ip now (otSentIP t)\<rparr>
      in (\<not> otpDailyPerPhone \<le> length (mlist (otSentPhone t1) phone) \<and>
          \<not> otpDailyPerIP \<le> length (mlist (otSentIP t1) ip), t1))"

definition record_send :: "string \<Rightarrow> string \<Rightarrow> time \<Rightarrow> otp_throttler \<Rightarrow> otp_throttler" where
  "record_send phone ip now t =
     (let (ok, t1) = otp_admit otSentPhone phone now t;
          t2 = (if ok then t1\<lparr>otSentPhone := mput phone (mlist (otSentPhone t1) phone @ [now]) (otSentPhone t1)\<rparr> else t1);
          (iok, t3) = otp_admit otSentIP ip now t2
      in if iok then t3\<lparr>otSentIP := mput ip (mlist (otSentIP t3) ip @ [now]) (otSentIP t3)\<rparr> else t3)"

subsection \<open>Tables\<close>

text \<open>A table of moments lists no key without a moment.\<close>

definition live :: "times \<Rightarrow> bool" where
  "live m = (mok m \<and> (\<forall>k. mget m k \<noteq> Some []))"

lemma live_empty [simp]: "live []"
  by (simp add: live_def)

lemma live_mok: "live m \<Longrightarrow> mok m"
  by (simp add: live_def)

lemma live_get: "live m \<Longrightarrow> mget m k = None \<longleftrightarrow> mlist m k = []"
  by (auto simp: live_def mlist_def split: option.split)

lemma live_put: "live m \<Longrightarrow> xs \<noteq> [] \<Longrightarrow> live (mput k xs m)"
  by (auto simp: live_def)

lemma live_del: "live m \<Longrightarrow> live (mdel k m)"
  by (auto simp: live_def)

lemma mlist_prune: "mlist (prune_map W k now m) j = (if j = k then filter (\<lambda>at. now - W < at) (mlist m k) else mlist m j)"
  by (simp add: prune_map_def Let_def)

lemma live_prune: "live m \<Longrightarrow> live (prune_map W k now m)"
  by (simp add: prune_map_def Let_def live_put live_del)

lemma length_mdel: "length (mdel k m) \<le> length m"
  by (simp add: mdel_def)

lemma length_prune: "length (prune_map W k now m) \<le> length m"
proof (cases "filter (\<lambda>at. now - W < at) (mlist m k) = []")
  case True
  then show ?thesis by (simp add: prune_map_def length_mdel)
next
  case False
  then have "mlist m k \<noteq> []" by auto
  then have "mget m k \<noteq> None" by (auto simp: mlist_def split: option.splits)
  with False show ?thesis by (simp add: prune_map_def length_mput)
qed

lemma sweep_fold:
  "mlist (fold (\<lambda>k m. prune_map W k now m) ks m) j =
     (if j \<in> set ks then filter (\<lambda>at. now - W < at) (mlist m j) else mlist m j)"
  "live m \<Longrightarrow> live (fold (\<lambda>k m. prune_map W k now m) ks m)"
  by (induction ks arbitrary: m) (auto simp: mlist_prune live_prune)

lemma sweep_fold_length: "length (fold (\<lambda>k m. prune_map W k now m) ks m) \<le> length m"
proof (induction ks arbitrary: m)
  case (Cons k ks)
  from order_trans [OF Cons.IH length_prune] show ?case by simp
qed simp

lemma sweep_times_facts:
  "mlist (sweep_times W now m) j = filter (\<lambda>at. now - W < at) (mlist m j)"
  "live m \<Longrightarrow> live (sweep_times W now m)"
  "length (sweep_times W now m) \<le> length m"
proof -
  have "mlist m j = []" if "j \<notin> set (mkeys m)"
    using that by (auto simp: set_mkeys mlist_def)
  then show "mlist (sweep_times W now m) j = filter (\<lambda>at. now - W < at) (mlist m j)"
    by (auto simp: sweep_times_def sweep_fold)
qed (simp_all add: sweep_times_def sweep_fold sweep_fold_length)

definition expired :: "time \<Rightarrow> locks \<Rightarrow> string \<Rightarrow> bool" where
  "expired now l k = (case mget l k of None \<Rightarrow> False | Some until \<Rightarrow> until \<le> now)"

lemma sweep_locks_fold:
  fixes now :: time
  assumes "mok ls"
  defines "r \<equiv> \<lambda>f l. fold (\<lambda>(k, until) (f, l). if now < until then (f, l) else (mdel k f, mdel k l)) ls (f, l)"
  shows "mlist (fst (r f l)) k = (if expired now ls k then [] else mlist f k)"
    and "mget (snd (r f l)) k = (if expired now ls k then None else mget l k)"
    and "live f \<Longrightarrow> live (fst (r f l))" "mok l \<Longrightarrow> mok (snd (r f l))"
    and "length (fst (r f l)) \<le> length f"
proof -
  have "mlist (fst (r f l)) k = (if expired now ls k then [] else mlist f k) \<and>
    mget (snd (r f l)) k = (if expired now ls k then None else mget l k) \<and>
    (live f \<longrightarrow> live (fst (r f l))) \<and> (mok l \<longrightarrow> mok (snd (r f l))) \<and> length (fst (r f l)) \<le> length f"
    using assms(1) unfolding r_def
  proof (induction ls arbitrary: f l)
    case Nil
    then show ?case by (simp add: expired_def)
  next
    case (Cons x ls)
    obtain j u where x: "x = (j, u)" by force
    have ok: "mok ls" "mget ls j = None"
      using Cons.prems by (auto simp: mok_def x mget_def map_of_eq_None_iff)
    have e: "expired now (x # ls) k = (if k = j then u \<le> now else expired now ls k)"
      by (simp add: expired_def mget_def x)
    have j: "\<not> expired now ls j" using ok(2) by (simp add: expired_def)
    show ?case
    proof (cases "now < u")
      case True
      then show ?thesis using Cons.IH [OF ok(1), of f l] e j by (auto simp: x)
    next
      case False
      then show ?thesis
        using Cons.IH [OF ok(1), of "mdel j f" "mdel j l"] e j length_mdel [of j f]
        by (auto simp: x live_del intro: order_trans)
    qed
  qed
  then show "mlist (fst (r f l)) k = (if expired now ls k then [] else mlist f k)"
    "mget (snd (r f l)) k = (if expired now ls k then None else mget l k)"
    "live f \<Longrightarrow> live (fst (r f l))" "mok l \<Longrightarrow> mok (snd (r f l))" "length (fst (r f l)) \<le> length f"
    by simp_all
qed

lemma sweep_locks_facts:
  assumes "sweep_locks now f l = (f', l')" "mok l"
  shows "mlist f' k = (if expired now l k then [] else mlist f k)"
    "mget l' k = (if expired now l k then None else mget l k)"
    "live f \<Longrightarrow> live f'" "mok l'" "length f' \<le> length f"
  using sweep_locks_fold [OF assms(2), where now = now and f = f and l = l] assms
  by (simp_all add: sweep_locks_def)

subsection \<open>What a lockout means\<close>

text \<open>
  The abstract throttle of one key: the moments of its failures since the last success. A moment
  is a strike when the limit was reached within the window that ends at it; a key is locked out
  until a window has passed since its last strike.
\<close>

definition strike :: "nat \<Rightarrow> int \<Rightarrow> time list \<Rightarrow> time \<Rightarrow> bool" where
  "strike limit W h t = (limit \<le> length (filter (\<lambda>u. t - W < u \<and> u \<le> t) h))"

definition locked_out :: "nat \<Rightarrow> int \<Rightarrow> time list \<Rightarrow> time \<Rightarrow> bool" where
  "locked_out limit W h now = list_ex (\<lambda>t. now < t + W \<and> strike limit W h t) h"

text \<open>
  A table of failures and one of locks stand for the histories \<open>h\<close>: what is listed of a key is the
  recent part of its history, a lock ends a window after the last failure, which was a strike, and
  without a lock no strike is recent.
\<close>

definition key_rel :: "nat \<Rightarrow> int \<Rightarrow> time list \<Rightarrow> time \<Rightarrow> time list \<Rightarrow> time option \<Rightarrow> bool" where
  "key_rel limit W hk now listed lock =
     ((\<forall>u \<in> set hk. u \<le> now) \<and> (\<exists>c \<le> now - W. listed = filter (\<lambda>u. c < u) hk) \<and>
      (case lock of
         None \<Rightarrow> \<not> locked_out limit W hk now
       | Some until \<Rightarrow> until - W \<in> set hk \<and> strike limit W hk (until - W) \<and> (\<forall>u \<in> set hk. u \<le> until - W)))"

definition table_rel :: "nat \<Rightarrow> int \<Rightarrow> (string \<Rightarrow> time list) \<Rightarrow> time \<Rightarrow> times \<Rightarrow> locks \<Rightarrow> bool" where
  "table_rel limit W h now f l =
     (live f \<and> mok l \<and> (\<forall>k. key_rel limit W (h k) now (mlist f k) (mget l k)))"

lemma table_relD:
  assumes "table_rel limit W h now f l"
  shows "live f" "mok l" "u \<in> set (h k) \<Longrightarrow> u \<le> now"
    "\<exists>c \<le> now - W. mlist f k = filter (\<lambda>u. c < u) (h k)"
    "mget l k = None \<Longrightarrow> \<not> locked_out limit W (h k) now"
    "mget l k = Some until \<Longrightarrow> until - W \<in> set (h k) \<and> strike limit W (h k) (until - W)"
    "mget l k = Some until \<Longrightarrow> u \<in> set (h k) \<Longrightarrow> u \<le> until - W"
proof -
  have k: "key_rel limit W (h k) now (mlist f k) (mget l k)" for k
    using assms by (simp add: table_rel_def)
  show "live f" "mok l" using assms by (simp_all add: table_rel_def)
  show "u \<in> set (h k) \<Longrightarrow> u \<le> now" "\<exists>c \<le> now - W. mlist f k = filter (\<lambda>u. c < u) (h k)"
    "mget l k = None \<Longrightarrow> \<not> locked_out limit W (h k) now"
    "mget l k = Some until \<Longrightarrow> until - W \<in> set (h k) \<and> strike limit W (h k) (until - W)"
    "mget l k = Some until \<Longrightarrow> u \<in> set (h k) \<Longrightarrow> u \<le> until - W"
    using k [of k] by (simp_all add: key_rel_def)
qed

lemma locked_out_later: "\<not> locked_out limit W h now \<Longrightarrow> now \<le> now' \<Longrightarrow> \<not> locked_out limit W h now'"
  by (auto simp: locked_out_def list_ex_iff)

lemma table_relI:
  assumes "live f" "mok l"
    and "\<And>k u. u \<in> set (h k) \<Longrightarrow> u \<le> now"
    and "\<And>k. \<exists>c \<le> now - W. mlist f k = filter (\<lambda>u. c < u) (h k)"
    and "\<And>k. mget l k = None \<Longrightarrow> \<not> locked_out limit W (h k) now"
    and "\<And>k until. mget l k = Some until \<Longrightarrow> until - W \<in> set (h k) \<and> strike limit W (h k) (until - W) \<and>
             (\<forall>u \<in> set (h k). u \<le> until - W)"
  shows "table_rel limit W h now f l"
  unfolding table_rel_def key_rel_def using assms by (auto split: option.split)

lemma table_rel_later:
  assumes "table_rel limit W h now f l" "now \<le> now'"
  shows "table_rel limit W h now' f l"
proof -
  note rel = table_relD [OF assms(1)]
  have "\<exists>c \<le> now' - W. mlist f k = filter (\<lambda>u. c < u) (h k)" for k
  proof -
    obtain c where "c \<le> now - W" "mlist f k = filter (\<lambda>u. c < u) (h k)" using rel(4) by blast
    with assms(2) show ?thesis by (intro exI [of _ c]) auto
  qed
  then show ?thesis
    using rel locked_out_later [OF _ assms(2)] assms(2) by (intro table_relI) (auto intro: order_trans)
qed

lemma table_rel_start: "table_rel limit W (\<lambda>_. []) now [] []"
  by (auto simp: table_rel_def key_rel_def locked_out_def intro: exI [of _ "now - W"])

lemma lock_gate_rel:
  assumes "table_rel limit W h now f l" "lock_gate k now f l = (r, f', l')"
  shows "table_rel limit W h now f' l'" "r \<noteq> None \<longleftrightarrow> locked_out limit W (h k) now"
    "r = None \<Longrightarrow> mget l' k = None" "r = Some d \<Longrightarrow> 0 < d \<and> d \<le> W"
proof -
  note rel = table_relD [OF assms(1)]
  have lo: "locked_out limit W (h k) now \<longleftrightarrow> now < until" if "mget l k = Some until" for until
    using rel(6,7) [OF that] by (force simp: locked_out_def list_ex_iff)
  have "table_rel limit W h now f' l' \<and> (r \<noteq> None \<longleftrightarrow> locked_out limit W (h k) now) \<and>
    (r = None \<longrightarrow> mget l' k = None) \<and> (\<forall>d. r = Some d \<longrightarrow> 0 < d \<and> d \<le> W)"
  proof (cases "mget l k")
    case None
    with assms rel(5) show ?thesis by (auto simp: lock_gate_def)
  next
    case (Some until)
    show ?thesis
    proof (cases "now < until")
      case True
      moreover have "until - W \<le> now" using rel(3,6) Some by blast
      ultimately show ?thesis using assms Some lo by (auto simp: lock_gate_def)
    next
      case False
      then have r: "r = None" "f' = mdel k f" "l' = mdel k l" using assms(2) Some by (auto simp: lock_gate_def)
      have "filter (\<lambda>u. now - W < u) (h k) = []"
        using rel(7) [OF Some] False by (fastforce simp: filter_empty_conv)
      then have "\<exists>c \<le> now - W. mlist f' j = filter (\<lambda>u. c < u) (h j)" for j
        using rel(4) [of j] by (cases "j = k") (auto simp: r intro!: exI [of _ "now - W"])
      then have "table_rel limit W h now f' l'"
        using rel lo [OF Some] False by (intro table_relI) (auto simp: r live_del split: if_splits)
      with r lo [OF Some] False show ?thesis by simp
    qed
  qed
  then show "table_rel limit W h now f' l'" "r \<noteq> None \<longleftrightarrow> locked_out limit W (h k) now"
    "r = None \<Longrightarrow> mget l' k = None" "r = Some d \<Longrightarrow> 0 < d \<and> d \<le> W" by auto
qed

lemma filter_later: "c \<le> d \<Longrightarrow> filter (\<lambda>u. (d::int) < u) (filter (\<lambda>u. c < u) xs) = filter (\<lambda>u. d < u) xs"
  by (induction xs) auto

lemma table_rel_filtered:
  assumes "table_rel limit W h now f l" "live f'"
    and "\<And>k. mlist f' k = mlist f k \<or> mlist f' k = filter (\<lambda>u. now - W < u) (mlist f k)"
  shows "table_rel limit W h now f' l"
proof -
  note rel = table_relD [OF assms(1)]
  have "\<exists>c \<le> now - W. mlist f' k = filter (\<lambda>u. c < u) (h k)" for k
  proof -
    obtain c where c: "c \<le> now - W" "mlist f k = filter (\<lambda>u. c < u) (h k)" using rel(4) by blast
    with assms(3) [of k] filter_later [OF c(1)] show ?thesis by auto
  qed
  then show ?thesis using rel assms(2) by (intro table_relI) auto
qed

lemma prune_rel: "table_rel limit W h now f l \<Longrightarrow> table_rel limit W h now (prune_map W k now f) l"
  by (rule table_rel_filtered) (auto simp: mlist_prune live_prune dest: table_relD(1))

lemma prune_recent:
  assumes "table_rel limit W h now f l"
  shows "mlist (prune_map W k now f) k = filter (\<lambda>u. now - W < u) (h k)"
proof -
  obtain c where "c \<le> now - W" "mlist f k = filter (\<lambda>u. c < u) (h k)"
    using table_relD(4) [OF assms] by blast
  then show ?thesis by (simp only: mlist_prune filter_later simp_thms if_True)
qed

lemma length_filter_le: "(\<And>x. x \<in> set xs \<Longrightarrow> P x \<Longrightarrow> Q x) \<Longrightarrow> length (filter P xs) \<le> length (filter Q xs)"
  by (induction xs) (auto simp: le_SucI)

text \<open>The length test of the check never decides: whoever passes the lock has few failures.\<close>

lemma few_recent:
  assumes "\<not> locked_out limit W h now" "0 < limit" "\<And>u. u \<in> set h \<Longrightarrow> u \<le> now"
  shows "length (filter (\<lambda>u. now - W < u) h) < limit"
proof (rule ccontr)
  let ?xs = "filter (\<lambda>u. now - W < u) h"
  assume n: "\<not> length ?xs < limit"
  then have "?xs \<noteq> []" using assms(2) by (metis list.size(3))
  then have ne: "set ?xs \<noteq> {}" by (metis set_empty)
  let ?t = "Max (set ?xs)"
  have t: "?t \<in> set ?xs" using ne by (intro Max_in) auto
  have "length ?xs \<le> length (filter (\<lambda>u. ?t - W < u \<and> u \<le> ?t) h)"
  proof (rule length_filter_le)
    fix u assume u: "u \<in> set h" "now - W < u"
    have "?t \<le> now" using t assms(3) by auto
    moreover have "u \<le> ?t" using u by (intro Max_ge) auto
    ultimately show "?t - W < u \<and> u \<le> ?t" using u by auto
  qed
  then have "strike limit W h ?t" using n by (simp add: strike_def)
  with t assms(1) show False by (auto simp: locked_out_def list_ex_iff)
qed

lemma record_rel:
  assumes "table_rel limit W h now f l" "mget l k = None" "0 < W"
    and "mlist f k = filter (\<lambda>u. now - W < u) (h k)"
    and "record_failure limit W k now f l = (f', l')"
  shows "table_rel limit W (h(k := h k @ [now])) now f' l'"
proof -
  note rel = table_relD [OF assms(1)]
  let ?h = "h k @ [now]"
  have f': "f' = mput k (mlist f k @ [now]) f"
    and l': "l' = (if limit \<le> Suc (length (mlist f k)) then mput k (now + W) l else l)"
    using assms(5) by (auto simp: record_failure_def Let_def)
  have same: "filter (\<lambda>u. now - W < u \<and> u \<le> now) (h k) = filter (\<lambda>u. now - W < u) (h k)"
    using rel(3) by (auto intro!: filter_cong)
  have s: "strike limit W ?h now \<longleftrightarrow> limit \<le> Suc (length (mlist f k))"
    unfolding strike_def using same assms(3) by (simp add: assms(4))
  have old: "strike limit W ?h t = strike limit W (h k) t" if "t < now" for t
    using that by (simp add: strike_def)
  have free: "\<not> locked_out limit W (h k) now" using rel(5) assms(2) .
  show ?thesis
  proof (rule table_relI)
    show "live f'" using rel(1) by (simp add: f' live_put)
    show "mok l'" using rel(2) by (simp add: l')
    show "u \<le> now" if "u \<in> set ((h(k := ?h)) j)" for j u using that rel(3) by (auto split: if_splits)
    show "\<exists>c \<le> now - W. mlist f' j = filter (\<lambda>u. c < u) ((h(k := ?h)) j)" for j
      using rel(4) [of j] assms(3,4) by (cases "j = k") (auto simp: f' intro!: exI [of _ "now - W"])
    show "\<not> locked_out limit W ((h(k := ?h)) j) now" if "mget l' j = None" for j
    proof (cases "j = k")
      case True
      then have "\<not> strike limit W ?h now" using that s by (auto simp: l' split: if_splits)
      moreover have "\<not> (now < t + W \<and> strike limit W ?h t)" if "t \<in> set (h k)" "t \<noteq> now" for t
        using free that old [of t] rel(3) [of t k] by (force simp: locked_out_def list_ex_iff)
      ultimately show ?thesis using True by (auto simp: locked_out_def list_ex_iff)
    next
      case False
      with that rel(5) show ?thesis by (auto simp: l' split: if_splits)
    qed
    show "until - W \<in> set ((h(k := ?h)) j) \<and> strike limit W ((h(k := ?h)) j) (until - W) \<and>
        (\<forall>u \<in> set ((h(k := ?h)) j). u \<le> until - W)" if "mget l' j = Some until" for j until
    proof (cases "j = k")
      case True
      then have "until = now + W" "limit \<le> Suc (length (mlist f k))"
        using that assms(2) by (auto simp: l' split: if_splits)
      with True s rel(3) show ?thesis by auto
    next
      case False
      with that rel(6,7) show ?thesis by (auto simp: l' split: if_splits)
    qed
  qed
qed

lemma forget_rel:
  assumes "table_rel limit W h now f l"
  shows "table_rel limit W (h(k := [])) now (mdel k f) (mdel k l)"
proof -
  note rel = table_relD [OF assms]
  have "\<exists>c \<le> now - W. mlist (mdel k f) j = filter (\<lambda>u. c < u) ((h(k := [])) j)" for j
    using rel(4) [of j] by (cases "j = k") (auto intro!: exI [of _ "now - W"])
  then show ?thesis
    using rel by (intro table_relI) (auto simp: live_del locked_out_def split: if_splits)
qed

lemma sweep_rel:
  assumes "table_rel limit W h now f l" "sweep_locks now (sweep_times W now f) l = (f', l')"
  shows "table_rel limit W h now f' l'"
proof -
  have r: "table_rel limit W h now (sweep_times W now f) l"
    by (rule table_rel_filtered [OF assms(1)])
      (use table_relD(1) [OF assms(1)] in \<open>auto simp: sweep_times_facts\<close>)
  note rel = table_relD [OF r]
  note sw = sweep_locks_facts [OF assms(2) rel(2)]
  have gone: "filter (\<lambda>u. now - W < u) (h k) = [] \<and> \<not> locked_out limit W (h k) now" if e: "expired now l k" for k
  proof -
    obtain until where u: "mget l k = Some until" "until \<le> now"
      using e by (auto simp: expired_def split: option.splits)
    from rel(7) [OF u(1)] u(2) show ?thesis
      by (fastforce simp: filter_empty_conv locked_out_def list_ex_iff)
  qed
  have "\<exists>c \<le> now - W. mlist f' j = filter (\<lambda>u. c < u) (h j)" for j
    using rel(4) [of j] gone [of j] by (cases "expired now l j") (auto simp: sw(1) intro!: exI [of _ "now - W"])
  then show ?thesis
    using rel gone sw by (intro table_relI) (auto split: if_splits)
qed


subsection \<open>The interface: a limiter that refines its histories\<close>

text \<open>One attempt as the handlers make it: check, and if allowed, the outcome is recorded.\<close>

definition guarded_attempt :: "('k \<Rightarrow> time \<Rightarrow> 's \<Rightarrow> (bool \<times> int) \<times> 's) \<Rightarrow> ('k \<Rightarrow> time \<Rightarrow> 's \<Rightarrow> 's) \<Rightarrow> ('k \<Rightarrow> 's \<Rightarrow> 's) \<Rightarrow>
    'k \<times> time \<times> bool \<Rightarrow> 's \<Rightarrow> bool \<times> 's" where
  "guarded_attempt check fails succeeds a s =
     (case a of (k, now, good) \<Rightarrow>
        let ((ok, _), s1) = check k now s
        in if ok then (True, if good then succeeds k s1 else fails k now s1) else (False, s1))"

fun attempt_run :: "('a \<Rightarrow> 's \<Rightarrow> bool \<times> 's) \<Rightarrow> 'a list \<Rightarrow> 's \<Rightarrow> bool list" where
  "attempt_run step [] s = []"
| "attempt_run step (a # as) s = (let (ok, s1) = step a s in ok # attempt_run step as s1)"

text \<open>The same on histories: an attempt is allowed unless its key is locked out.\<close>

definition spec_attempt :: "('k \<Rightarrow> time \<Rightarrow> 'h \<Rightarrow> bool) \<Rightarrow> ('k \<Rightarrow> time \<Rightarrow> 'h \<Rightarrow> 'h) \<Rightarrow> ('k \<Rightarrow> 'h \<Rightarrow> 'h) \<Rightarrow>
    'k \<times> time \<times> bool \<Rightarrow> 'h \<Rightarrow> bool \<times> 'h" where
  "spec_attempt blocked enter forget a h =
     (case a of (k, now, good) \<Rightarrow>
        if blocked k now h then (False, h) else (True, if good then forget k h else enter k now h))"

fun clock_ok :: "time \<Rightarrow> ('k \<times> time \<times> bool) list \<Rightarrow> bool" where
  "clock_ok now [] = True"
| "clock_ok now ((k, t, good) # as) = (now \<le> t \<and> clock_ok t as)"

locale limiter =
  fixes check :: "'k \<Rightarrow> time \<Rightarrow> 's \<Rightarrow> (bool \<times> int) \<times> 's"
    and fails :: "'k \<Rightarrow> time \<Rightarrow> 's \<Rightarrow> 's"
    and succeeds :: "'k \<Rightarrow> 's \<Rightarrow> 's"
    and blocked :: "'k \<Rightarrow> time \<Rightarrow> 'h \<Rightarrow> bool"
    and enter :: "'k \<Rightarrow> time \<Rightarrow> 'h \<Rightarrow> 'h"
    and forget :: "'k \<Rightarrow> 'h \<Rightarrow> 'h"
    and rel :: "'h \<Rightarrow> time \<Rightarrow> 's \<Rightarrow> bool"
    and unlocked :: "'k \<Rightarrow> 's \<Rightarrow> bool"
    and tracked :: "'k \<Rightarrow> bool"
  assumes rel_later: "rel h now s \<Longrightarrow> now \<le> now' \<Longrightarrow> rel h now' s"
    and check_rel: "rel h now s \<Longrightarrow> check k now s = ((ok, d), s') \<Longrightarrow>
      rel h now s' \<and> (ok \<longleftrightarrow> \<not> blocked k now h) \<and> (ok \<longrightarrow> unlocked k s')"
    and fails_rel: "rel h now s \<Longrightarrow> unlocked k s \<Longrightarrow> tracked k \<Longrightarrow> rel (enter k now h) now (fails k now s)"
    and succeeds_rel: "rel h now s \<Longrightarrow> rel (forget k h) now (succeeds k s)"
begin

lemma attempt_refines:
  assumes "rel h now s" "tracked k" "guarded_attempt check fails succeeds (k, now, good) s = (ok, s')"
  shows "\<exists>h'. spec_attempt blocked enter forget (k, now, good) h = (ok, h') \<and> rel h' now s'"
proof -
  obtain a d s1 where c: "check k now s = ((a, d), s1)" by (metis surj_pair)
  from check_rel [OF assms(1) c] have r: "rel h now s1" "a \<longleftrightarrow> \<not> blocked k now h" "a \<longrightarrow> unlocked k s1" by auto
  show ?thesis
    using assms(2,3) r fails_rel [OF r(1), of k] succeeds_rel [OF r(1), of k]
    by (auto simp: guarded_attempt_def spec_attempt_def c)
qed

lemma run_refines:
  "rel h now s \<Longrightarrow> clock_ok now as \<Longrightarrow> list_all (\<lambda>(k, t, good). tracked k) as \<Longrightarrow>
     attempt_run (guarded_attempt check fails succeeds) as s = attempt_run (spec_attempt blocked enter forget) as h"
proof (induction as arbitrary: h now s)
  case (Cons a as)
  obtain k t good where a: "a = (k, t, good)" by (metis surj_pair)
  obtain ok s1 where 1: "guarded_attempt check fails succeeds a s = (ok, s1)" by force
  have "rel h t s" using Cons.prems rel_later by (simp add: a)
  then obtain h1 where h1: "spec_attempt blocked enter forget a h = (ok, h1)" "rel h1 t s1"
    using attempt_refines [of h t s k good ok s1] 1 Cons.prems by (auto simp: a)
  from Cons.IH [OF h1(2)] Cons.prems show ?case using 1 h1(1) by (simp add: a)
qed simp

end

subsection \<open>Both throttles are limiters\<close>

text \<open>The keys an execution uses fit the cap.\<close>

definition universe :: "string set \<Rightarrow> (string \<Rightarrow> time list) \<Rightarrow> bool" where
  "universe K h = (finite K \<and> card K \<le> throttleMaxKeys \<and> (\<forall>k. h k \<noteq> [] \<longrightarrow> k \<in> K))"

lemma table_keys:
  assumes "table_rel limit W h now f l" "universe K h"
  shows "set (mkeys f) \<subseteq> K"
proof
  fix k assume "k \<in> set (mkeys f)"
  then have "mlist f k \<noteq> []"
    using live_get [OF table_relD(1) [OF assms(1)]] by (auto simp: set_mkeys)
  moreover obtain c where "mlist f k = filter (\<lambda>u. c < u) (h k)" using table_relD(4) [OF assms(1)] by blast
  ultimately have "h k \<noteq> []" by auto
  then show "k \<in> K" using assms(2) by (simp add: universe_def)
qed

lemma room_for_key:
  assumes "table_rel limit W h now f l" "universe K h" "k \<in> K" "mget f k = None"
  shows "length f < throttleMaxKeys"
proof -
  have "set (mkeys f) \<subseteq> K - {k}"
    using table_keys [OF assms(1,2)] assms(4) by (auto simp: set_mkeys)
  then have "card (set (mkeys f)) \<le> card (K - {k})" using assms(2) by (intro card_mono) (auto simp: universe_def)
  moreover have "card (K - {k}) < card K" using assms(2,3) by (intro card_Diff1_less) (auto simp: universe_def)
  moreover have "card (set (mkeys f)) = length f"
    using distinct_card [of "mkeys f"] live_mok [OF table_relD(1) [OF assms(1)]]
    by (simp add: mok_def mkeys_def)
  ultimately show ?thesis using assms(2) by (simp add: universe_def)
qed

type_synonym histories = "string \<Rightarrow> time list"

definition otp_rel :: "string set \<Rightarrow> histories \<Rightarrow> time \<Rightarrow> otp_throttler \<Rightarrow> bool" where
  "otp_rel K h now t = (table_rel otpMaxVerifyFailures otpVerifyWindow h now (otVerify t) (otLocked t) \<and> universe K h)"

definition otp_blocked :: "string \<times> string \<Rightarrow> time \<Rightarrow> histories \<Rightarrow> bool" where
  "otp_blocked k now h = locked_out otpMaxVerifyFailures otpVerifyWindow (h (otp_key (fst k) (snd k))) now"

definition otp_enter :: "string \<times> string \<Rightarrow> time \<Rightarrow> histories \<Rightarrow> histories" where
  "otp_enter k now h = (let j = otp_key (fst k) (snd k) in h(j := h j @ [now]))"

definition otp_forget :: "string \<times> string \<Rightarrow> histories \<Rightarrow> histories" where
  "otp_forget k h = h(otp_key (fst k) (snd k) := [])"

lemma otp_windows: "otpVerifyLockout = otpVerifyWindow" "0 < otpVerifyWindow" "0 < otpMaxVerifyFailures"
  by (simp_all add: otpVerifyLockout_def otpVerifyWindow_def otpMaxVerifyFailures_def minute_def)

lemma otp_sweep_rel:
  "otp_rel K h now t \<Longrightarrow> otp_rel K h now (otp_sweep now t)"
  by (auto simp: otp_rel_def otp_sweep_def split: prod.split intro: sweep_rel)

lemma locks_only_expire:
  "mok l \<Longrightarrow> sweep_locks now f l = (f', l') \<Longrightarrow> mget l k = None \<Longrightarrow> mget l' k = None"
  using sweep_locks_facts(2) by metis

lemma otp_admit_ok:
  assumes "otp_rel K h now t" "k \<in> K" "otp_admit otVerify k now t = (ok, t')"
    and "mget (otLocked t) k = None" "mlist (otVerify t) k = filter (\<lambda>u. now - otpVerifyWindow < u) (h k)"
  shows "ok" "otp_rel K h now t'" "mget (otLocked t') k = None"
    "mlist (otVerify t') k = filter (\<lambda>u. now - otpVerifyWindow < u) (h k)"
proof -
  let ?s = "otp_sweep now t"
  have r: "otp_rel K h now ?s" by (rule otp_sweep_rel [OF assms(1)])
  obtain f l where fl: "sweep_locks now (sweep_times otpVerifyWindow now (otVerify t)) (otLocked t) = (f, l)" by force
  have ok: "mok (otLocked t)" using table_relD(2) assms(1) by (auto simp: otp_rel_def)
  note sw = sweep_locks_facts [OF fl ok]
  have s: "otVerify ?s = f" "otLocked ?s = l" using fl by (simp_all add: otp_sweep_def)
  have "mget (otVerify ?s) k \<noteq> None \<or> length (otVerify ?s) < throttleMaxKeys"
    using r room_for_key [OF _ _ assms(2), of _ _ h now "otVerify ?s" "otLocked ?s"]
    by (auto simp: otp_rel_def)
  moreover have "mget (otLocked ?s) k = None" using sw(2) assms(4) by (simp add: s)
  moreover have "\<not> expired now (otLocked t) k" using assms(4) by (simp add: expired_def)
  then have "mlist (otVerify ?s) k = filter (\<lambda>u. now - otpVerifyWindow < u) (h k)"
    using sw(1) assms(5) by (simp add: s sweep_times_facts)
  ultimately show "ok" "otp_rel K h now t'" "mget (otLocked t') k = None"
    "mlist (otVerify t') k = filter (\<lambda>u. now - otpVerifyWindow < u) (h k)"
    using assms r by (auto simp: otp_admit_def Let_def split: if_splits)
qed

lemma otp_check_rel:
  assumes "otp_rel K h now t" "check_verify (fst k) (snd k) now t = ((ok, d), t')"
  shows "otp_rel K h now t' \<and> (ok \<longleftrightarrow> \<not> otp_blocked k now h) \<and>
    (ok \<longrightarrow> mget (otLocked t') (otp_key (fst k) (snd k)) = None)"
proof -
  let ?k = "otp_key (fst k) (snd k)"
  have rel: "table_rel otpMaxVerifyFailures otpVerifyWindow h now (otVerify t) (otLocked t)" "universe K h"
    using assms(1) by (simp_all add: otp_rel_def)
  obtain r f l where g: "lock_gate ?k now (otVerify t) (otLocked t) = (r, f, l)" by (metis prod_cases3)
  note gate = lock_gate_rel [OF rel(1) g]
  show ?thesis
  proof (cases r)
    case (Some w)
    then show ?thesis
      using assms(2) g gate rel by (auto simp: check_verify_def otp_rel_def otp_blocked_def)
  next
    case None
    then have free: "\<not> locked_out otpMaxVerifyFailures otpVerifyWindow (h ?k) now" using gate(2) by simp
    have "length (mlist (prune_map otpVerifyWindow ?k now f) ?k) < otpMaxVerifyFailures"
      unfolding prune_recent [OF gate(1)]
      using few_recent [OF free otp_windows(3)] table_relD(3) [OF rel(1)] by blast
    then show ?thesis
      using assms(2) g gate None free rel prune_rel [OF gate(1)]
      by (auto simp: check_verify_def otp_rel_def otp_blocked_def)
  qed
qed

lemma otp_fail_rel:
  assumes "otp_rel K h now t" "mget (otLocked t) (otp_key (fst k) (snd k)) = None" "otp_key (fst k) (snd k) \<in> K"
  shows "otp_rel K (otp_enter k now h) now (fail_verify (fst k) (snd k) now t)"
proof -
  let ?k = "otp_key (fst k) (snd k)"
  let ?t = "t\<lparr>otVerify := prune_map otpVerifyWindow ?k now (otVerify t)\<rparr>"
  have rel: "table_rel otpMaxVerifyFailures otpVerifyWindow h now (otVerify t) (otLocked t)" "universe K h"
    using assms(1) by (simp_all add: otp_rel_def)
  have t: "otp_rel K h now ?t" using prune_rel [OF rel(1)] rel(2) by (simp add: otp_rel_def)
  obtain ok t1 where a: "otp_admit otVerify ?k now ?t = (ok, t1)" by force
  obtain f l where r: "record_failure otpMaxVerifyFailures otpVerifyWindow ?k now (otVerify t1) (otLocked t1) = (f, l)"
    by force
  have adm: "ok" "otp_rel K h now t1" "mget (otLocked t1) ?k = None"
    "mlist (otVerify t1) ?k = filter (\<lambda>u. now - otpVerifyWindow < u) (h ?k)"
    using otp_admit_ok [OF t assms(3) a] assms(2) prune_recent [OF rel(1)] by simp_all
  have "table_rel otpMaxVerifyFailures otpVerifyWindow (otp_enter k now h) now f l"
    using record_rel [where h = h, OF _ adm(3) otp_windows(2) adm(4) r] adm(2)
    by (simp add: otp_rel_def otp_enter_def Let_def)
  moreover have "universe K (otp_enter k now h)"
    using rel(2) assms(3) by (auto simp: universe_def otp_enter_def Let_def)
  ultimately show ?thesis
    using a r adm(1) by (simp add: fail_verify_def otp_rel_def otp_windows(1) Let_def)
qed

interpretation otp: limiter "\<lambda>k. check_verify (fst k) (snd k)" "\<lambda>k. fail_verify (fst k) (snd k)"
  "\<lambda>k. success_verify (fst k) (snd k)" otp_blocked otp_enter otp_forget "otp_rel K"
  "\<lambda>k t. mget (otLocked t) (otp_key (fst k) (snd k)) = None" "\<lambda>k. otp_key (fst k) (snd k) \<in> K"
proof unfold_locales
  show "otp_rel K h now' s" if "otp_rel K h now s" "now \<le> now'" for h now s now'
    using that table_rel_later by (auto simp: otp_rel_def)
  show "otp_rel K (otp_forget k h) now (success_verify (fst k) (snd k) s)" if "otp_rel K h now s" for h now s k
    using that forget_rel by (auto simp: otp_rel_def otp_forget_def success_verify_def universe_def Let_def)
qed (blast intro: otp_fail_rel dest: otp_check_rel)+


type_synonym login_histories = "histories \<times> histories"

definition login_rel :: "string set \<Rightarrow> string set \<Rightarrow> login_histories \<Rightarrow> time \<Rightarrow> login_throttler \<Rightarrow> bool" where
  "login_rel K E h now t =
     (table_rel loginMaxFailures loginFailWindow (fst h) now (ltFailures t) (ltLocked t) \<and> universe K (fst h) \<and>
      table_rel loginMaxFailures loginFailWindow (snd h) now (ltEmailFailures t) (ltEmailLocked t) \<and> universe E (snd h))"

definition login_blocked :: "string \<times> string \<Rightarrow> time \<Rightarrow> login_histories \<Rightarrow> bool" where
  "login_blocked k now h =
     (locked_out loginMaxFailures loginFailWindow (fst h (login_key (fst k) (snd k))) now \<or>
      locked_out loginMaxFailures loginFailWindow (snd h (email_key (fst k))) now)"

definition login_enter :: "string \<times> string \<Rightarrow> time \<Rightarrow> login_histories \<Rightarrow> login_histories" where
  "login_enter k now h =
     (let j = login_key (fst k) (snd k); e = email_key (fst k)
      in ((fst h)(j := fst h j @ [now]), (snd h)(e := snd h e @ [now])))"

definition login_forget :: "string \<times> string \<Rightarrow> login_histories \<Rightarrow> login_histories" where
  "login_forget k h = ((fst h)(login_key (fst k) (snd k) := []), (snd h)(email_key (fst k) := []))"

lemma login_windows: "loginLockout = loginFailWindow" "0 < loginFailWindow" "0 < loginMaxFailures"
  by (simp_all add: loginLockout_def loginFailWindow_def loginMaxFailures_def minute_def)

lemma universe_enter: "universe K h \<Longrightarrow> k \<in> K \<Longrightarrow> universe K (h(k := xs))"
  by (auto simp: universe_def)

lemma universe_forget: "universe K h \<Longrightarrow> universe K (h(k := []))"
  by (auto simp: universe_def)

lemma sweep_keeps:
  assumes "sweep_locks now (sweep_times W now f) l = (f', l')" "mok l" "mget l k = None"
    and "mlist f k = filter (\<lambda>u. now - W < u) (h k)"
  shows "mget l' k = None" "mlist f' k = filter (\<lambda>u. now - W < u) (h k)"
  using sweep_locks_facts(1,2) [OF assms(1,2), of k] assms(3,4) by (simp_all add: expired_def sweep_times_facts)

text \<open>The pair key \<open>k\<close> and the email key \<open>e\<close> of an allowed attempt: unlocked, and their failures pruned.\<close>

definition pair_ready :: "string \<Rightarrow> time \<Rightarrow> histories \<Rightarrow> login_throttler \<Rightarrow> bool" where
  "pair_ready k now h t = (mget (ltLocked t) k = None \<and>
     mlist (ltFailures t) k = filter (\<lambda>u. now - loginFailWindow < u) (h k))"

definition email_ready :: "string \<Rightarrow> time \<Rightarrow> histories \<Rightarrow> login_throttler \<Rightarrow> bool" where
  "email_ready e now h t = (mget (ltEmailLocked t) e = None \<and>
     mlist (ltEmailFailures t) e = filter (\<lambda>u. now - loginFailWindow < u) (h e))"

lemma login_sweep_rel:
  assumes "login_rel K E h now t"
  shows "login_rel K E h now (login_sweep now t)"
    "pair_ready k now (fst h) t \<Longrightarrow> pair_ready k now (fst h) (login_sweep now t)"
    "email_ready e now (snd h) t \<Longrightarrow> email_ready e now (snd h) (login_sweep now t)"
    "mget (ltEmailLocked t) e = None \<Longrightarrow> mget (ltEmailLocked (login_sweep now t)) e = None"
proof -
  obtain f l where p: "sweep_locks now (sweep_times loginFailWindow now (ltFailures t)) (ltLocked t) = (f, l)" by force
  obtain ef el where q: "sweep_locks now (sweep_times loginFailWindow now (ltEmailFailures t)) (ltEmailLocked t) = (ef, el)"
    by force
  have s: "login_sweep now t = \<lparr>ltFailures = f, ltLocked = l, ltEmailFailures = ef, ltEmailLocked = el\<rparr>"
    using p q by (simp add: login_sweep_def)
  have ok: "mok (ltLocked t)" "mok (ltEmailLocked t)"
    using assms table_relD(2) by (auto simp: login_rel_def)
  show "login_rel K E h now (login_sweep now t)"
    using assms sweep_rel p q by (auto simp: login_rel_def s)
  show "pair_ready k now (fst h) t \<Longrightarrow> pair_ready k now (fst h) (login_sweep now t)"
    using sweep_keeps [OF p ok(1), of k "fst h"] by (simp add: pair_ready_def s)
  show "email_ready e now (snd h) t \<Longrightarrow> email_ready e now (snd h) (login_sweep now t)"
    using sweep_keeps [OF q ok(2), of e "snd h"] by (simp add: email_ready_def s)
  show "mget (ltEmailLocked t) e = None \<Longrightarrow> mget (ltEmailLocked (login_sweep now t)) e = None"
    using sweep_locks_facts(2) [OF q ok(2), of e] by (simp add: s)
qed

lemma login_admit_cases:
  assumes "login_admit m k now t = (ok, t')"
  shows "t' = t \<or> t' = login_sweep now t" "ok \<or> (mget (m t') k = None \<and> \<not> length (m t') < throttleMaxKeys)"
  using assms by (auto simp: login_admit_def Let_def split: if_splits)

lemma login_admit_pair:
  assumes "login_rel K E h now t" "k \<in> K" "login_admit ltFailures k now t = (ok, t')" "pair_ready k now (fst h) t"
    and "mget (ltEmailLocked t) e = None"
  shows "ok" "login_rel K E h now t'" "pair_ready k now (fst h) t'" "mget (ltEmailLocked t') e = None"
proof -
  note c = login_admit_cases [OF assms(3)]
  show r: "login_rel K E h now t'" using c(1) login_sweep_rel(1) [OF assms(1)] assms(1) by auto
  show "pair_ready k now (fst h) t'" "mget (ltEmailLocked t') e = None"
    using c(1) login_sweep_rel(2,4) [OF assms(1)] assms(4,5) by auto
  show ok using c(2) room_for_key [OF _ _ assms(2), of loginMaxFailures loginFailWindow "fst h" now "ltFailures t'" "ltLocked t'"] r
    by (auto simp: login_rel_def)
qed

lemma login_admit_email:
  assumes "login_rel K E h now t" "e \<in> E" "login_admit ltEmailFailures e now t = (ok, t')" "email_ready e now (snd h) t"
  shows "ok" "login_rel K E h now t'" "email_ready e now (snd h) t'"
proof -
  note c = login_admit_cases [OF assms(3)]
  show r: "login_rel K E h now t'" using c(1) login_sweep_rel(1) [OF assms(1)] assms(1) by auto
  show "email_ready e now (snd h) t'" using c(1) login_sweep_rel(3) [OF assms(1)] assms(4) by auto
  show ok using c(2) room_for_key [OF _ _ assms(2), of loginMaxFailures loginFailWindow "snd h" now "ltEmailFailures t'" "ltEmailLocked t'"] r
    by (auto simp: login_rel_def)
qed

lemma login_fail_rel:
  assumes "login_rel K E h now t" "login_key (fst k) (snd k) \<in> K" "email_key (fst k) \<in> E"
    and "mget (ltLocked t) (login_key (fst k) (snd k)) = None" "mget (ltEmailLocked t) (email_key (fst k)) = None"
  shows "login_rel K E (login_enter k now h) now (login_fail (fst k) (snd k) now t)"
proof -
  let ?k = "login_key (fst k) (snd k)" and ?e = "email_key (fst k)"
  let ?t1 = "t\<lparr>ltFailures := prune_map loginFailWindow ?k now (ltFailures t)\<rparr>"
  have r0: "table_rel loginMaxFailures loginFailWindow (fst h) now (ltFailures t) (ltLocked t)" "universe K (fst h)"
    "table_rel loginMaxFailures loginFailWindow (snd h) now (ltEmailFailures t) (ltEmailLocked t)" "universe E (snd h)"
    using assms(1) by (simp_all add: login_rel_def)
  have r1: "login_rel K E h now ?t1" using r0 prune_rel by (simp add: login_rel_def)
  have p1: "pair_ready ?k now (fst h) ?t1" using assms(4) prune_recent [OF r0(1)] by (simp add: pair_ready_def)
  obtain ok t2 where a2: "login_admit ltFailures ?k now ?t1 = (ok, t2)" by force
  have "mget (ltEmailLocked ?t1) ?e = None" using assms(5) by simp
  note t2 = login_admit_pair [OF r1 assms(2) a2 p1 this]
  obtain f l where f: "record_failure loginMaxFailures loginFailWindow ?k now (ltFailures t2) (ltLocked t2) = (f, l)" by force
  let ?h1 = "((fst h)(?k := fst h ?k @ [now]), snd h)"
  let ?t3 = "t2\<lparr>ltFailures := f, ltLocked := l\<rparr>"
  have r2: "table_rel loginMaxFailures loginFailWindow (fst h) now (ltFailures t2) (ltLocked t2)"
    "table_rel loginMaxFailures loginFailWindow (snd h) now (ltEmailFailures t2) (ltEmailLocked t2)"
    using t2(2) by (simp_all add: login_rel_def)
  have "table_rel loginMaxFailures loginFailWindow (fst ?h1) now f l"
    using record_rel [OF r2(1) _ login_windows(2) _ f] t2(3) by (simp add: pair_ready_def)
  then have r3: "login_rel K E ?h1 now ?t3"
    using r2(2) r0(2,4) assms(2) universe_enter by (simp add: login_rel_def)
  let ?t4 = "?t3\<lparr>ltEmailFailures := prune_map loginFailWindow ?e now (ltEmailFailures ?t3)\<rparr>"
  have r4: "login_rel K E ?h1 now ?t4" using r3 prune_rel by (simp add: login_rel_def)
  have p4: "email_ready ?e now (snd ?h1) ?t4" using t2(4) prune_recent [OF r2(2)] by (simp add: email_ready_def)
  obtain eok t5 where a5: "login_admit ltEmailFailures ?e now ?t4 = (eok, t5)" by force
  note t5 = login_admit_email [OF r4 assms(3) a5 p4]
  obtain ef el where ef: "record_failure loginMaxFailures loginFailWindow ?e now (ltEmailFailures t5) (ltEmailLocked t5) = (ef, el)"
    by force
  have r5: "table_rel loginMaxFailures loginFailWindow (snd ?h1) now (ltEmailFailures t5) (ltEmailLocked t5)"
    using t5(2) by (simp add: login_rel_def)
  have "table_rel loginMaxFailures loginFailWindow ((snd h)(?e := snd h ?e @ [now])) now ef el"
    using record_rel [OF r5 _ login_windows(2) _ ef] t5(3) by (simp add: email_ready_def)
  then have r6: "login_rel K E (login_enter k now h) now (t5\<lparr>ltEmailFailures := ef, ltEmailLocked := el\<rparr>)"
    using t5(2) r0(4) assms(3) universe_enter by (simp add: login_rel_def login_enter_def Let_def)
  have "login_fail (fst k) (snd k) now t = t5\<lparr>ltEmailFailures := ef, ltEmailLocked := el\<rparr>"
    unfolding login_fail_def Let_def login_windows(1) using a2 f a5 ef t2(1) t5(1) by simp
  with r6 show ?thesis by simp
qed

lemma login_check_rel:
  assumes "login_rel K E h now t" "login_check (fst k) (snd k) now t = ((ok, d), t')"
  shows "login_rel K E h now t' \<and> (ok \<longleftrightarrow> \<not> login_blocked k now h) \<and>
    (ok \<longrightarrow> mget (ltLocked t') (login_key (fst k) (snd k)) = None \<and> mget (ltEmailLocked t') (email_key (fst k)) = None)"
proof -
  let ?k = "login_key (fst k) (snd k)" and ?e = "email_key (fst k)"
  have rel: "table_rel loginMaxFailures loginFailWindow (fst h) now (ltFailures t) (ltLocked t)" "universe K (fst h)"
    "table_rel loginMaxFailures loginFailWindow (snd h) now (ltEmailFailures t) (ltEmailLocked t)" "universe E (snd h)"
    using assms(1) by (simp_all add: login_rel_def)
  obtain r f l where g: "lock_gate ?k now (ltFailures t) (ltLocked t) = (r, f, l)" by (metis prod_cases3)
  obtain er ef el where eg: "lock_gate ?e now (ltEmailFailures t) (ltEmailLocked t) = (er, ef, el)" by (metis prod_cases3)
  note gate = lock_gate_rel [OF rel(1) g] and egate = lock_gate_rel [OF rel(3) eg]
  consider (Pair) w where "r = Some w" | (Email) w where "r = None" "er = Some w" | (Free) "r = None" "er = None"
    by (cases r; cases er) auto
  then show ?thesis
  proof cases
    case (Pair w)
    then show ?thesis
      using assms(2) g gate rel by (auto simp: login_check_def login_rel_def login_blocked_def)
  next
    case (Email w)
    then show ?thesis
      using assms(2) g eg gate egate rel by (auto simp: login_check_def login_rel_def login_blocked_def)
  next
    case Free
    then have free: "\<not> locked_out loginMaxFailures loginFailWindow (fst h ?k) now"
      "\<not> locked_out loginMaxFailures loginFailWindow (snd h ?e) now" using gate(2) egate(2) by simp_all
    have "length (mlist (prune_map loginFailWindow ?k now f) ?k) < loginMaxFailures"
      unfolding prune_recent [OF gate(1)]
      using few_recent [OF free(1) login_windows(3)] table_relD(3) [OF rel(1)] by blast
    moreover have "length (mlist (prune_map loginFailWindow ?e now ef) ?e) < loginMaxFailures"
      unfolding prune_recent [OF egate(1)]
      using few_recent [OF free(2) login_windows(3)] table_relD(3) [OF rel(3)] by blast
    ultimately show ?thesis
      using assms(2) g eg gate egate Free free rel prune_rel [OF gate(1)] prune_rel [OF egate(1)]
      by (auto simp: login_check_def login_rel_def login_blocked_def)
  qed
qed

interpretation login: limiter "\<lambda>k. login_check (fst k) (snd k)" "\<lambda>k. login_fail (fst k) (snd k)"
  "\<lambda>k. login_success (fst k) (snd k)" login_blocked login_enter login_forget "login_rel K E"
  "\<lambda>k t. mget (ltLocked t) (login_key (fst k) (snd k)) = None \<and> mget (ltEmailLocked t) (email_key (fst k)) = None"
  "\<lambda>k. login_key (fst k) (snd k) \<in> K \<and> email_key (fst k) \<in> E"
proof unfold_locales
  show "login_rel K E h now' s" if "login_rel K E h now s" "now \<le> now'" for h now s now'
    using that table_rel_later by (auto simp: login_rel_def)
  show "login_rel K E (login_forget k h) now (login_success (fst k) (snd k) s)" if "login_rel K E h now s" for h now s k
    using that forget_rel universe_forget by (auto simp: login_rel_def login_forget_def login_success_def Let_def)
qed (blast intro: login_fail_rel dest: login_check_rel)+


subsection \<open>What a caller of the throttles observes\<close>

definition login_runs :: "((string \<times> string) \<times> time \<times> bool) list \<Rightarrow> login_throttler \<Rightarrow> bool list" where
  "login_runs = attempt_run (guarded_attempt (\<lambda>k. login_check (fst k) (snd k)) (\<lambda>k. login_fail (fst k) (snd k))
     (\<lambda>k. login_success (fst k) (snd k)))"

definition verify_runs :: "((string \<times> string) \<times> time \<times> bool) list \<Rightarrow> otp_throttler \<Rightarrow> bool list" where
  "verify_runs = attempt_run (guarded_attempt (\<lambda>k. check_verify (fst k) (snd k)) (\<lambda>k. fail_verify (fst k) (snd k))
     (\<lambda>k. success_verify (fst k) (snd k)))"

lemma login_rel_start:
  "finite K \<Longrightarrow> card K \<le> throttleMaxKeys \<Longrightarrow> finite E \<Longrightarrow> card E \<le> throttleMaxKeys \<Longrightarrow>
     login_rel K E (\<lambda>_. [], \<lambda>_. []) now new_login_throttler"
  by (simp add: login_rel_def new_login_throttler_def table_rel_start universe_def)

lemma otp_rel_start: "finite K \<Longrightarrow> card K \<le> throttleMaxKeys \<Longrightarrow> otp_rel K (\<lambda>_. []) now new_otp_throttler"
  by (simp add: otp_rel_def new_otp_throttler_def table_rel_start universe_def)

text \<open>C19: As long as the pairs and the emails seen fit the cap, and time does not run backwards, the login
  throttle decides every attempt as the plain histories do: it is refused exactly when, within a
  window before it, the pair or the email was at five failures in a window since the last success.
  Pruning, sweeping and expiring locks are not observable.
\<close>

theorem login_throttle_refines:
  assumes "clock_ok start as"
    and "card ((\<lambda>(k, _). login_key (fst k) (snd k)) ` set as) \<le> throttleMaxKeys"
    and "card ((\<lambda>(k, _). email_key (fst k)) ` set as) \<le> throttleMaxKeys"
  shows "login_runs as new_login_throttler =
    attempt_run (spec_attempt login_blocked login_enter login_forget) as (\<lambda>_. [], \<lambda>_. [])"
  unfolding login_runs_def
proof (rule login.run_refines)
  let ?K = "(\<lambda>(k, _). login_key (fst k) (snd k)) ` set as" and ?E = "(\<lambda>(k, _). email_key (fst k)) ` set as"
  show "login_rel ?K ?E (\<lambda>_. [], \<lambda>_. []) start new_login_throttler"
    by (rule login_rel_start) (use assms in auto)
  show "list_all (\<lambda>(k, t, good). login_key (fst k) (snd k) \<in> ?K \<and> email_key (fst k) \<in> ?E) as"
    by (force simp: list_all_iff)
qed (rule assms)

text \<open>The verification throttle of the one-time codes does the same per pair of phone (or email) and address.
\<close>

theorem verify_throttle_refines:
  assumes "clock_ok start as"
    and "card ((\<lambda>(k, _). otp_key (fst k) (snd k)) ` set as) \<le> throttleMaxKeys"
  shows "verify_runs as new_otp_throttler =
    attempt_run (spec_attempt otp_blocked otp_enter otp_forget) as (\<lambda>_. [])"
  unfolding verify_runs_def
proof (rule otp.run_refines)
  let ?K = "(\<lambda>(k, _). otp_key (fst k) (snd k)) ` set as"
  show "otp_rel ?K (\<lambda>_. []) start new_otp_throttler" by (rule otp_rel_start) (use assms in auto)
  show "list_all (\<lambda>(k, t, good). otp_key (fst k) (snd k) \<in> ?K) as" by (force simp: list_all_iff)
qed (rule assms)

definition guesses :: "string \<Rightarrow> int list \<Rightarrow> ((string \<times> string) \<times> time \<times> bool) list" where
  "guesses email ms = map (\<lambda>m. ((email, ''1.1.1.1''), m * minute, False)) ms"

text \<open>Five wrong passwords lock the email for every address until fifteen minutes after the fifth.\<close>

lemma few_keys:
  fixes g :: "'a \<Rightarrow> string"
  assumes "length as \<le> throttleMaxKeys"
  shows "card (g ` set as) \<le> throttleMaxKeys"
  by (metis assms card_image_le card_length finite_set order_trans)

lemma login_throttle_refines_witness:
  "login_runs (guesses ''Ann@x.org'' [1, 2, 3, 4, 5] @ [((''ann@x.org '', ''2.2.2.2''), 19 * minute, True),
        ((''ann@x.org'', ''2.2.2.2''), 20 * minute, True)]) new_login_throttler
   = [True, True, True, True, True, False, True]"
proof -
  let ?as = "guesses ''Ann@x.org'' [1, 2, 3, 4, 5] @ [((''ann@x.org '', ''2.2.2.2''), 19 * minute, True),
        ((''ann@x.org'', ''2.2.2.2''), 20 * minute, True)]"
  have small: "length ?as \<le> throttleMaxKeys" by (simp add: guesses_def throttleMaxKeys_def)
  have "clock_ok 0 ?as" by (simp add: guesses_def minute_def)
  from login_throttle_refines [OF this few_keys [OF small] few_keys [OF small]]
  have "login_runs ?as new_login_throttler =
    attempt_run (spec_attempt login_blocked login_enter login_forget) ?as (\<lambda>_. [], \<lambda>_. [])" .
  also have "\<dots> = [True, True, True, True, True, False, True]" by code_simp
  finally show ?thesis .
qed

lemma verify_throttle_refines_witness:
  "verify_runs (guesses ''+491'' [1, 2, 3, 4, 5] @ [((''+491'', ''2.2.2.2''), 6 * minute, False),
        ((''+491'', ''1.1.1.1''), 19 * minute, True), ((''+491'', ''1.1.1.1''), 20 * minute, True)]) new_otp_throttler
   = [True, True, True, True, True, True, False, True]"
proof -
  let ?as = "guesses ''+491'' [1, 2, 3, 4, 5] @ [((''+491'', ''2.2.2.2''), 6 * minute, False),
        ((''+491'', ''1.1.1.1''), 19 * minute, True), ((''+491'', ''1.1.1.1''), 20 * minute, True)]"
  have small: "length ?as \<le> throttleMaxKeys" by (simp add: guesses_def throttleMaxKeys_def)
  have "clock_ok 0 ?as" by (simp add: guesses_def minute_def)
  from verify_throttle_refines [OF this few_keys [OF small]]
  have "verify_runs ?as new_otp_throttler = attempt_run (spec_attempt otp_blocked otp_enter otp_forget) ?as (\<lambda>_. [])" .
  also have "\<dots> = [True, True, True, True, True, True, False, True]" by code_simp
  finally show ?thesis .
qed

end
