(* ===== verification/ThrottleBounds.thy ===== *)
theory ThrottleBounds
  imports Throttle
begin

section \<open>Bounds of the throttles\<close>

text \<open>
  Two bounds on \<open>identity/throttle.go\<close> and \<open>identity/otpthrottle.go\<close> that hold over every sequence
  of operations: no map outgrows \<open>throttleMaxKeys\<close>, and the daily quotas of codes.
\<close>

subsection \<open>The maps never outgrow the cap\<close>

text \<open>A lock ends at most a window after a listed failure of its key; \<open>x\<close> is a key excused up to \<open>now\<close>.\<close>

definition covered :: "int \<Rightarrow> times \<Rightarrow> locks \<Rightarrow> string \<Rightarrow> bool" where
  "covered W f l k = (case mget l k of None \<Rightarrow> True | Some until \<Rightarrow> list_ex (\<lambda>u. until \<le> u + W) (mlist f k))"

definition bounded_table :: "int \<Rightarrow> times \<Rightarrow> locks \<Rightarrow> bool" where
  "bounded_table W f l = (live f \<and> mok l \<and> length f \<le> throttleMaxKeys \<and> (\<forall>k. covered W f l k))"

definition bounded_but :: "int \<Rightarrow> string \<Rightarrow> time \<Rightarrow> times \<Rightarrow> locks \<Rightarrow> bool" where
  "bounded_but W x now f l = (live f \<and> mok l \<and> length f \<le> throttleMaxKeys \<and>
     (\<forall>k. covered W f l k \<or> (k = x \<and> expired now l k)))"

lemma covered_iff: "covered W f l k \<longleftrightarrow> (\<forall>until. mget l k = Some until \<longrightarrow> (\<exists>u \<in> set (mlist f k). until \<le> u + W))"
  by (auto simp: covered_def list_ex_iff split: option.split)

lemma expired_iff: "expired now l k \<longleftrightarrow> (\<exists>until. mget l k = Some until \<and> until \<le> now)"
  by (simp add: expired_def split: option.split)

lemma bounded_butI: "bounded_table W f l \<Longrightarrow> bounded_but W x now f l"
  by (simp add: bounded_table_def bounded_but_def)

lemma bounded_prune:
  assumes "bounded_table W f l"
  shows "bounded_but W k now (prune_map W k now f) l"
proof -
  have "covered W (prune_map W k now f) l j \<or> (j = k \<and> expired now l j)" for j
  proof -
    have c: "covered W f l j" using assms by (simp add: bounded_table_def)
    show ?thesis
    proof (cases "expired now l j")
      case True
      with c show ?thesis by (cases "j = k") (auto simp: covered_iff mlist_prune)
    next
      case False
      show ?thesis
      proof (cases "mget l j")
        case (Some until)
        with False c obtain u where u: "u \<in> set (mlist f j)" "until \<le> u + W" "now < until"
          by (auto simp: covered_iff expired_iff)
        then have "u \<in> set (mlist (prune_map W k now f) j)" by (auto simp: mlist_prune)
        with u(2) Some show ?thesis by (auto simp: covered_iff)
      qed (simp add: covered_iff)
    qed
  qed
  then show ?thesis
    using assms order_trans [OF length_prune] by (simp add: bounded_table_def bounded_but_def live_prune)
qed

lemma bounded_prune_free: "bounded_table W f l \<Longrightarrow> mget l k = None \<Longrightarrow> bounded_table W (prune_map W k now f) l"
  by (auto simp: bounded_table_def covered_iff mlist_prune live_prune intro: order_trans [OF length_prune])

lemma bounded_del: "bounded_table W f l \<Longrightarrow> bounded_table W (mdel k f) (mdel k l)"
  by (auto simp: bounded_table_def covered_iff live_del intro: order_trans [OF length_mdel])

lemma bounded_gate:
  "bounded_table W f l \<Longrightarrow> lock_gate k now f l = (r, f', l') \<Longrightarrow> bounded_table W f' l' \<and> (r = None \<longrightarrow> mget l' k = None)"
  by (auto simp: lock_gate_def bounded_del split: option.splits if_splits)

lemma bounded_sweep:
  assumes "bounded_but W x now f l" "sweep_locks now (sweep_times W now f) l = (f', l')"
  shows "bounded_table W f' l'"
proof -
  have b: "live f" "mok l" "length f \<le> throttleMaxKeys"
    and c: "covered W f l k \<or> (k = x \<and> expired now l k)" for k
    using assms(1) by (auto simp: bounded_but_def)
  note sw = sweep_locks_facts [OF assms(2) b(2)]
  have "covered W f' l' k" for k
    using c [of k] by (fastforce simp: covered_iff expired_iff sw(1,2) sweep_times_facts split: if_splits)
  moreover have "live f'" by (rule sw(3) [OF sweep_times_facts(2) [OF b(1)]])
  ultimately show ?thesis
    using sw(4,5) sweep_times_facts(3) [of W now f] b(3) by (auto simp: bounded_table_def)
qed

lemma bounded_record:
  assumes "bounded_but W k now f l" "mget f k \<noteq> None \<or> length f < throttleMaxKeys" "0 \<le> W"
    and "record_failure limit W k now f l = (f', l')"
  shows "bounded_table W f' l'"
proof -
  have "covered W f' l' j" for j
    using assms(1,3,4)
    by (cases "j = k") (fastforce simp: bounded_but_def covered_iff expired_iff record_failure_def Let_def split: if_splits)+
  moreover have "length f' \<le> throttleMaxKeys"
    using assms by (auto simp: bounded_but_def record_failure_def Let_def length_mput)
  ultimately show ?thesis
    using assms(1,4) by (auto simp: bounded_table_def bounded_but_def record_failure_def Let_def live_put split: if_splits)
qed

lemma bounded_locks: "bounded_table W f l \<Longrightarrow> length f \<le> throttleMaxKeys \<and> length l \<le> throttleMaxKeys"
proof -
  assume b: "bounded_table W f l"
  have "set (mkeys l) \<subseteq> set (mkeys f)"
  proof
    fix k assume "k \<in> set (mkeys l)"
    then have "mlist f k \<noteq> []"
      using b by (fastforce simp: bounded_table_def covered_iff set_mkeys)
    then show "k \<in> set (mkeys f)" by (auto simp: set_mkeys mlist_def split: option.splits)
  qed
  then have "card (set (mkeys l)) \<le> card (set (mkeys f))" by (intro card_mono) auto
  moreover have "card (set (mkeys l)) = length l" "card (set (mkeys f)) = length f"
    using b distinct_card [of "mkeys l"] distinct_card [of "mkeys f"]
    by (simp_all add: bounded_table_def mok_def mkeys_def live_def)
  ultimately show ?thesis using b by (simp add: bounded_table_def)
qed


datatype throttle_op =
    OpCheck string string time
  | OpFail string string time
  | OpSuccess string string
  | OpAllow string string time
  | OpRecord string string time

fun login_op :: "throttle_op \<Rightarrow> login_throttler \<Rightarrow> login_throttler" where
  "login_op (OpCheck email ip now) t = snd (login_check email ip now t)"
| "login_op (OpFail email ip now) t = login_fail email ip now t"
| "login_op (OpSuccess email ip) t = login_success email ip t"
| "login_op _ t = t"

fun otp_op :: "throttle_op \<Rightarrow> otp_throttler \<Rightarrow> otp_throttler" where
  "otp_op (OpCheck phone ip now) t = snd (check_verify phone ip now t)"
| "otp_op (OpFail phone ip now) t = fail_verify phone ip now t"
| "otp_op (OpSuccess phone ip) t = success_verify phone ip t"
| "otp_op (OpAllow phone ip now) t = snd (allow_send phone ip now t)"
| "otp_op (OpRecord phone ip now) t = record_send phone ip now t"

definition login_bounded :: "login_throttler \<Rightarrow> bool" where
  "login_bounded t = (bounded_table loginFailWindow (ltFailures t) (ltLocked t) \<and>
     bounded_table loginFailWindow (ltEmailFailures t) (ltEmailLocked t))"

definition sent_bounded :: "times \<Rightarrow> bool" where
  "sent_bounded m = (length m \<le> throttleMaxKeys)"

definition otp_bounded :: "otp_throttler \<Rightarrow> bool" where
  "otp_bounded t = (bounded_table otpVerifyWindow (otVerify t) (otLocked t) \<and>
     sent_bounded (otSentPhone t) \<and> sent_bounded (otSentIP t))"

lemma login_sweep_pair:
  assumes "bounded_but loginFailWindow x now (ltFailures t) (ltLocked t)"
    and "bounded_but loginFailWindow y now (ltEmailFailures t) (ltEmailLocked t)"
  shows "login_bounded (login_sweep now t)"
  using assms by (auto simp: login_bounded_def login_sweep_def split: prod.split intro: bounded_sweep)

lemma login_check_bounded:
  assumes "login_bounded t"
  shows "login_bounded (snd (login_check email ip now t))"
proof -
  let ?k = "login_key email ip" and ?e = "email_key email"
  obtain r f l where g: "lock_gate ?k now (ltFailures t) (ltLocked t) = (r, f, l)" by (metis prod_cases3)
  obtain er ef el where eg: "lock_gate ?e now (ltEmailFailures t) (ltEmailLocked t) = (er, ef, el)" by (metis prod_cases3)
  have b: "bounded_table loginFailWindow f l \<and> (r = None \<longrightarrow> mget l ?k = None)"
    "bounded_table loginFailWindow ef el \<and> (er = None \<longrightarrow> mget el ?e = None)"
    using assms bounded_gate [OF _ g, of loginFailWindow] bounded_gate [OF _ eg, of loginFailWindow]
    by (simp_all add: login_bounded_def)
  then show ?thesis
    using assms bounded_prune_free [of loginFailWindow f l ?k now] bounded_prune_free [of loginFailWindow ef el ?e now]
    by (auto simp: login_check_def login_bounded_def g eg Let_def split: option.split)
qed

lemma login_fail_bounded:
  assumes "login_bounded t"
  shows "login_bounded (login_fail email ip now t)"
proof -
  let ?W = loginFailWindow and ?k = "login_key email ip" and ?e = "email_key email"
  let ?t1 = "t\<lparr>ltFailures := prune_map ?W ?k now (ltFailures t)\<rparr>"
  have b0: "bounded_but ?W ?k now (ltFailures ?t1) (ltLocked ?t1)" "bounded_table ?W (ltEmailFailures ?t1) (ltEmailLocked ?t1)"
    using assms bounded_prune by (simp_all add: login_bounded_def)
  obtain ok t2 where a: "login_admit ltFailures ?k now ?t1 = (ok, t2)" by force
  have b2: "bounded_table ?W (ltEmailFailures t2) (ltEmailLocked t2)"
    "bounded_but ?W ?k now (ltFailures t2) (ltLocked t2)"
    "ok \<Longrightarrow> mget (ltFailures t2) ?k \<noteq> None \<or> length (ltFailures t2) < throttleMaxKeys"
    "\<not> ok \<Longrightarrow> bounded_table ?W (ltFailures t2) (ltLocked t2)"
    using a b0 login_sweep_pair [OF b0(1) bounded_butI [OF b0(2)]]
    by (auto simp: login_admit_def Let_def login_bounded_def bounded_butI split: if_splits)
  obtain f l where f: "record_failure loginMaxFailures loginLockout ?k now (ltFailures t2) (ltLocked t2) = (f, l)" by force
  let ?t3 = "if ok then t2\<lparr>ltFailures := f, ltLocked := l\<rparr> else t2"
  let ?t4 = "?t3\<lparr>ltEmailFailures := prune_map ?W ?e now (ltEmailFailures ?t3)\<rparr>"
  have b4: "bounded_table ?W (ltFailures ?t4) (ltLocked ?t4)" "bounded_but ?W ?e now (ltEmailFailures ?t4) (ltEmailLocked ?t4)"
    using b2 bounded_record [OF b2(2) _ _ f [unfolded login_windows(1)]] login_windows(2) bounded_prune [OF b2(1)]
    by auto
  obtain eok t5 where e: "login_admit ltEmailFailures ?e now ?t4 = (eok, t5)" by force
  have b5: "bounded_table ?W (ltFailures t5) (ltLocked t5)"
    "bounded_but ?W ?e now (ltEmailFailures t5) (ltEmailLocked t5)"
    "eok \<Longrightarrow> mget (ltEmailFailures t5) ?e \<noteq> None \<or> length (ltEmailFailures t5) < throttleMaxKeys"
    "\<not> eok \<Longrightarrow> bounded_table ?W (ltEmailFailures t5) (ltEmailLocked t5)"
    using e b4 login_sweep_pair [OF bounded_butI [OF b4(1)] b4(2)]
    by (auto simp: login_admit_def Let_def login_bounded_def bounded_butI split: if_splits)
  obtain ef el where ef: "record_failure loginMaxFailures loginLockout ?e now (ltEmailFailures t5) (ltEmailLocked t5) = (ef, el)"
    by force
  have "bounded_table ?W ef el" if eok
    using bounded_record [OF b5(2) b5(3) [OF that] _ ef [unfolded login_windows(1)]] login_windows(2) by simp
  then show ?thesis
    using b5 a f e ef unfolding login_fail_def by (simp add: Let_def login_bounded_def split del: if_split) auto
qed


lemma login_op_bounded: "login_bounded t \<Longrightarrow> login_bounded (login_op op t)"
  by (cases op) (simp_all add: login_check_bounded login_fail_bounded, simp add: login_success_def Let_def login_bounded_def bounded_del)

lemma otp_admit_bounded:
  assumes "otp_admit m k now t = (ok, t')" "m = otVerify \<or> m = otSentPhone \<or> m = otSentIP"
    and "bounded_but otpVerifyWindow x now (otVerify t) (otLocked t)" "sent_bounded (otSentPhone t)" "sent_bounded (otSentIP t)"
  shows "sent_bounded (otSentPhone t')" "sent_bounded (otSentIP t')"
    "bounded_but otpVerifyWindow x now (otVerify t') (otLocked t')"
    "ok \<Longrightarrow> mget (m t') k \<noteq> None \<or> length (m t') < throttleMaxKeys"
    "\<not> ok \<or> bounded_table otpVerifyWindow (otVerify t) (otLocked t) \<Longrightarrow> bounded_table otpVerifyWindow (otVerify t') (otLocked t')"
proof -
  have "otp_bounded (otp_sweep now t)"
    using assms(3-5) order_trans [OF sweep_times_facts(3)]
    by (auto simp: otp_bounded_def otp_sweep_def sent_bounded_def split: prod.split intro: bounded_sweep)
  then show "sent_bounded (otSentPhone t')" "sent_bounded (otSentIP t')"
    "bounded_but otpVerifyWindow x now (otVerify t') (otLocked t')"
    "ok \<Longrightarrow> mget (m t') k \<noteq> None \<or> length (m t') < throttleMaxKeys"
    "\<not> ok \<or> bounded_table otpVerifyWindow (otVerify t) (otLocked t) \<Longrightarrow> bounded_table otpVerifyWindow (otVerify t') (otLocked t')"
    using assms by (auto simp: otp_admit_def Let_def otp_bounded_def bounded_butI split: if_splits)
qed

lemma check_verify_bounded:
  assumes "otp_bounded t"
  shows "otp_bounded (snd (check_verify phone ip now t))"
proof -
  let ?k = "otp_key phone ip"
  obtain r f l where g: "lock_gate ?k now (otVerify t) (otLocked t) = (r, f, l)" by (metis prod_cases3)
  have b: "bounded_table otpVerifyWindow f l \<and> (r = None \<longrightarrow> mget l ?k = None)"
    using assms bounded_gate [OF _ g, of otpVerifyWindow] by (simp add: otp_bounded_def)
  then show ?thesis
    using assms bounded_prune_free [of otpVerifyWindow f l ?k now]
    by (auto simp: check_verify_def otp_bounded_def g Let_def split: option.split)
qed

lemma fail_verify_bounded:
  assumes "otp_bounded t"
  shows "otp_bounded (fail_verify phone ip now t)"
proof -
  let ?W = otpVerifyWindow and ?k = "otp_key phone ip"
  let ?t1 = "t\<lparr>otVerify := prune_map ?W ?k now (otVerify t)\<rparr>"
  obtain ok t2 where a: "otp_admit otVerify ?k now ?t1 = (ok, t2)" by force
  have b1: "bounded_but ?W ?k now (otVerify ?t1) (otLocked ?t1)" "sent_bounded (otSentPhone ?t1)" "sent_bounded (otSentIP ?t1)"
    using assms bounded_prune by (simp_all add: otp_bounded_def)
  have m: "otVerify = otVerify \<or> otVerify = otSentPhone \<or> otVerify = otSentIP" by simp
  note b2 = otp_admit_bounded [OF a m b1]
  obtain f l where f: "record_failure otpMaxVerifyFailures otpVerifyLockout ?k now (otVerify t2) (otLocked t2) = (f, l)" by force
  have "bounded_table ?W f l" if ok
    using bounded_record [OF b2(3) b2(4) [OF that] _ f [unfolded otp_windows(1)]] otp_windows(2) by simp
  then show ?thesis using b2 a f by (auto simp: fail_verify_def Let_def otp_bounded_def)
qed

lemma allow_send_bounded: "otp_bounded t \<Longrightarrow> otp_bounded (snd (allow_send phone ip now t))"
  by (auto simp: allow_send_def Let_def otp_bounded_def sent_bounded_def intro: order_trans [OF length_prune])

lemma record_send_bounded:
  assumes "otp_bounded t"
  shows "otp_bounded (record_send phone ip now t)"
proof -
  have b0: "bounded_but otpVerifyWindow phone now (otVerify t) (otLocked t)" "sent_bounded (otSentPhone t)" "sent_bounded (otSentIP t)"
    "bounded_table otpVerifyWindow (otVerify t) (otLocked t)"
    using assms by (simp_all add: otp_bounded_def bounded_butI)
  obtain ok t1 where a: "otp_admit otSentPhone phone now t = (ok, t1)" by force
  note b1 = otp_admit_bounded [OF a _ b0(1-3), simplified]
  let ?t2 = "if ok then t1\<lparr>otSentPhone := mput phone (mlist (otSentPhone t1) phone @ [now]) (otSentPhone t1)\<rparr> else t1"
  obtain iok t3 where e: "otp_admit otSentIP ip now ?t2 = (iok, t3)" by force
  have b2: "bounded_but otpVerifyWindow phone now (otVerify ?t2) (otLocked ?t2)" "sent_bounded (otSentPhone ?t2)"
    "sent_bounded (otSentIP ?t2)" "bounded_table otpVerifyWindow (otVerify ?t2) (otLocked ?t2)"
    using b1 b0(4) by (auto simp: sent_bounded_def length_mput)
  note b3 = otp_admit_bounded [OF e _ b2(1-3), simplified]
  show ?thesis using b3 b2(4) a e by (auto simp: record_send_def otp_bounded_def sent_bounded_def length_mput)
qed

lemma otp_op_bounded: "otp_bounded t \<Longrightarrow> otp_bounded (otp_op op t)"
proof (cases op)
  case (OpSuccess phone ip)
  then show "otp_bounded t \<Longrightarrow> otp_bounded (otp_op op t)"
    by (simp add: success_verify_def Let_def otp_bounded_def bounded_del)
qed (simp_all add: check_verify_bounded fail_verify_bounded allow_send_bounded record_send_bounded)

lemma ops_keep: "(\<And>op t. I t \<Longrightarrow> I (f op t)) \<Longrightarrow> I t \<Longrightarrow> I (fold f ops t)"
  by (induction ops arbitrary: t) auto

text \<open>Whatever is asked of the throttles and in whatever order, clock jumps and unbounded numbers of
  addresses and emails included, none of their eight maps ever holds more than the cap of keys: a
  flood of distinct keys cannot exhaust the memory.
\<close>

theorem throttle_memory_bounded:
  "let t = fold login_op ops new_login_throttler; u = fold otp_op ops new_otp_throttler
   in list_all (\<lambda>n. n \<le> throttleMaxKeys)
        [length (ltFailures t), length (ltLocked t), length (ltEmailFailures t), length (ltEmailLocked t),
         length (otVerify u), length (otLocked u), length (otSentPhone u), length (otSentIP u)]"
proof -
  have "login_bounded new_login_throttler" "otp_bounded new_otp_throttler"
    by (simp_all add: login_bounded_def otp_bounded_def new_login_throttler_def new_otp_throttler_def
        bounded_table_def covered_def sent_bounded_def)
  then have "login_bounded (fold login_op ops new_login_throttler)" "otp_bounded (fold otp_op ops new_otp_throttler)"
    by (auto intro: ops_keep login_op_bounded otp_op_bounded)
  then show ?thesis
    by (auto simp: Let_def login_bounded_def otp_bounded_def sent_bounded_def dest: bounded_locks)
qed


subsection \<open>The daily quota of codes\<close>

text \<open>\<open>serveRequestCode\<close>: ask, send, and record what the provider accepted.\<close>

definition request_code :: "string \<times> string \<times> time \<times> bool \<Rightarrow> otp_throttler \<Rightarrow> bool \<times> otp_throttler" where
  "request_code r t =
     (case r of (phone, ip, now, delivered) \<Rightarrow>
        let (ok, t1) = allow_send phone ip now t
        in if ok \<and> delivered then (True, record_send phone ip now t1) else (False, t1))"

text \<open>The codes sent, latest last: phone, address and moment.\<close>

fun codes_sent :: "(string \<times> string \<times> time \<times> bool) list \<Rightarrow> otp_throttler \<Rightarrow> (string \<times> string \<times> time) list" where
  "codes_sent [] t = []"
| "codes_sent (r # rs) t =
     (case r of (phone, ip, now, delivered) \<Rightarrow>
        let (sent, t1) = request_code r t
        in (if sent then [(phone, ip, now)] else []) @ codes_sent rs t1)"

fun request_clock :: "time \<Rightarrow> (string \<times> string \<times> time \<times> bool) list \<Rightarrow> bool" where
  "request_clock now [] = True"
| "request_clock now ((_, _, t, _) # rs) = (now \<le> t \<and> request_clock t rs)"

text \<open>A table of sends stands for the moments sent so far.\<close>

definition sent_rel :: "string set \<Rightarrow> histories \<Rightarrow> time \<Rightarrow> times \<Rightarrow> bool" where
  "sent_rel K h now m = (universe K h \<and> live m \<and>
     (\<forall>k. (\<forall>u \<in> set (h k). u \<le> now) \<and> (\<exists>c \<le> now - otpDay. mlist m k = filter (\<lambda>u. c < u) (h k))))"

text \<open>No day ends with more than \<open>limit\<close> sends of a key.\<close>

definition within_quota :: "nat \<Rightarrow> time list \<Rightarrow> bool" where
  "within_quota limit xs = list_all (\<lambda>t. length (filter (\<lambda>u. t - otpDay < u \<and> u \<le> t) xs) \<le> limit) xs"

lemma within_quota_snoc:
  assumes "within_quota limit xs" "length (filter (\<lambda>u. now - otpDay < u) xs) < limit" "\<And>u. u \<in> set xs \<Longrightarrow> u \<le> now"
  shows "within_quota limit (xs @ [now])"
proof -
  have "length (filter (\<lambda>u. now - otpDay < u \<and> u \<le> now) xs) \<le> length (filter (\<lambda>u. now - otpDay < u) xs)"
    by (rule length_filter_le) simp
  then have top: "length (filter (\<lambda>u. now - otpDay < u \<and> u \<le> now) (xs @ [now])) \<le> limit"
    using assms(2) by simp
  have "length (filter (\<lambda>u. t - otpDay < u \<and> u \<le> t) (xs @ [now])) \<le> limit" if "t \<in> set xs" for t
  proof (cases "t = now")
    case False
    with that assms(1,3) show ?thesis by (force simp: within_quota_def list_all_iff)
  qed (use top in simp)
  with top show ?thesis by (simp add: within_quota_def list_all_iff)
qed

lemma sent_rel_filtered:
  assumes "sent_rel K h now m" "live m'"
    and "\<And>k. mlist m' k = mlist m k \<or> mlist m' k = filter (\<lambda>u. now - otpDay < u) (mlist m k)"
  shows "sent_rel K h now m'"
proof -
  have "\<exists>c \<le> now - otpDay. mlist m' k = filter (\<lambda>u. c < u) (h k)" for k
  proof -
    obtain c where c: "c \<le> now - otpDay" "mlist m k = filter (\<lambda>u. c < u) (h k)" using assms(1) by (auto simp: sent_rel_def)
    with assms(3) [of k] filter_later [OF c(1)] show ?thesis by auto
  qed
  then show ?thesis using assms(1,2) by (simp add: sent_rel_def)
qed

lemma sent_prune:
  assumes "sent_rel K h now m"
  shows "sent_rel K h now (prune_map otpDay k now m)"
    "mlist (prune_map otpDay k now m) k = filter (\<lambda>u. now - otpDay < u) (h k)"
proof -
  show "sent_rel K h now (prune_map otpDay k now m)"
    by (rule sent_rel_filtered [OF assms]) (use assms in \<open>auto simp: sent_rel_def live_prune mlist_prune\<close>)
  obtain c where "c \<le> now - otpDay" "mlist m k = filter (\<lambda>u. c < u) (h k)" using assms by (auto simp: sent_rel_def)
  then show "mlist (prune_map otpDay k now m) k = filter (\<lambda>u. now - otpDay < u) (h k)"
    by (simp only: mlist_prune filter_later simp_thms if_True)
qed

lemma sent_sweep: "sent_rel K h now m \<Longrightarrow> sent_rel K h now (sweep_times otpDay now m)"
  by (rule sent_rel_filtered) (auto simp: sent_rel_def sweep_times_facts)

lemma sent_room:
  assumes "sent_rel K h now m" "k \<in> K" "mget m k = None"
  shows "length m < throttleMaxKeys"
proof -
  have "set (mkeys m) \<subseteq> K - {k}"
  proof
    fix j assume j: "j \<in> set (mkeys m)"
    obtain c where "mlist m j = filter (\<lambda>u. c < u) (h j)" using assms(1) by (auto simp: sent_rel_def)
    moreover have "mlist m j \<noteq> []" using j assms(1) live_get [of m j] by (auto simp: set_mkeys sent_rel_def)
    ultimately have "h j \<noteq> []" by auto
    then show "j \<in> K - {k}" using j assms(1,3) by (auto simp: sent_rel_def universe_def set_mkeys)
  qed
  moreover have "finite K" "card K \<le> throttleMaxKeys" using assms(1) by (auto simp: sent_rel_def universe_def)
  ultimately have "card (set (mkeys m)) < throttleMaxKeys"
    using assms(2) by (meson card_Diff1_less card_mono finite_Diff le_less_trans less_le_trans)
  moreover have "card (set (mkeys m)) = length m"
    using assms(1) distinct_card [of "mkeys m"] by (simp add: sent_rel_def live_def mok_def mkeys_def)
  ultimately show ?thesis by simp
qed

lemma sent_later:
  assumes "sent_rel K h now m" "now \<le> now'"
  shows "sent_rel K h now' m"
  using assms unfolding sent_rel_def by (meson diff_right_mono order_trans)

lemma sent_enter:
  assumes "sent_rel K h now m" "k \<in> K"
  shows "sent_rel K (h(k := h k @ [now])) now (mput k (mlist m k @ [now]) m)"
proof -
  have "\<exists>c \<le> now - otpDay. mlist (mput k (mlist m k @ [now]) m) j = filter (\<lambda>u. c < u) ((h(k := h k @ [now])) j)" for j
  proof -
    obtain c where "c \<le> now - otpDay" "mlist m j = filter (\<lambda>u. c < u) (h j)" using assms(1) by (auto simp: sent_rel_def)
    moreover have "0 < otpDay" by (simp add: otpDay_def minute_def)
    ultimately show ?thesis by (intro exI [of _ c]) auto
  qed
  moreover have "universe K (h(k := h k @ [now]))" using assms by (auto simp: sent_rel_def intro: universe_enter)
  ultimately show ?thesis using assms(1) by (auto simp: sent_rel_def live_put)
qed


definition phone_times :: "(string \<times> string \<times> time) list \<Rightarrow> histories" where
  "phone_times done p = map (\<lambda>(q, i, u). u) (filter (\<lambda>(q, i, u). q = p) done)"

definition ip_times :: "(string \<times> string \<times> time) list \<Rightarrow> histories" where
  "ip_times done i = map (\<lambda>(q, j, u). u) (filter (\<lambda>(q, j, u). j = i) done)"


definition quota_rel :: "string set \<Rightarrow> string set \<Rightarrow> (string \<times> string \<times> time) list \<Rightarrow> time \<Rightarrow> otp_throttler \<Rightarrow> bool" where
  "quota_rel P I sent now t = (sent_rel P (phone_times sent) now (otSentPhone t) \<and> sent_rel I (ip_times sent) now (otSentIP t))"

definition quota_held :: "(string \<times> string \<times> time) list \<Rightarrow> bool" where
  "quota_held sent = list_all (\<lambda>(p, i, u). within_quota otpDailyPerPhone (phone_times sent p) \<and>
     within_quota otpDailyPerIP (ip_times sent i)) sent"

lemma times_snoc:
  "phone_times (sent @ [(p, i, u)]) = (phone_times sent)(p := phone_times sent p @ [u])"
  "ip_times (sent @ [(p, i, u)]) = (ip_times sent)(i := ip_times sent i @ [u])"
  by (auto simp: phone_times_def ip_times_def)

lemma quota_held_all:
  "quota_held sent \<longleftrightarrow> (\<forall>k. within_quota otpDailyPerPhone (phone_times sent k) \<and> within_quota otpDailyPerIP (ip_times sent k))"
proof
  assume q: "quota_held sent"
  have "within_quota otpDailyPerPhone (phone_times sent k)" for k
  proof (cases "phone_times sent k = []")
    case False
    then obtain i u where "(k, i, u) \<in> set sent" by (auto simp: phone_times_def filter_empty_conv)
    with q show ?thesis by (force simp: quota_held_def list_all_iff)
  qed (simp add: within_quota_def)
  moreover have "within_quota otpDailyPerIP (ip_times sent k)" for k
  proof (cases "ip_times sent k = []")
    case False
    then obtain p u where "(p, k, u) \<in> set sent" by (auto simp: ip_times_def filter_empty_conv)
    with q show ?thesis by (force simp: quota_held_def list_all_iff)
  qed (simp add: within_quota_def)
  ultimately show "\<forall>k. within_quota otpDailyPerPhone (phone_times sent k) \<and> within_quota otpDailyPerIP (ip_times sent k)" by simp
qed (auto simp: quota_held_def list_all_iff)

lemma quota_later: "quota_rel P I sent now t \<Longrightarrow> now \<le> u \<Longrightarrow> quota_rel P I sent u t"
  by (auto simp: quota_rel_def intro: sent_later)

lemma admit_sends:
  assumes "quota_rel P I sent now t" "otp_admit m k now t = (ok, t')" "(m = otSentPhone \<and> k \<in> P) \<or> (m = otSentIP \<and> k \<in> I)"
  shows "ok \<and> quota_rel P I sent now t'"
proof -
  have "quota_rel P I sent now (otp_sweep now t)"
    using assms(1) sent_sweep by (auto simp: quota_rel_def otp_sweep_def split: prod.split)
  then show ?thesis
    using assms sent_room by (auto simp: otp_admit_def Let_def quota_rel_def split: if_splits)
qed

lemma request_code_rel:
  assumes "quota_rel P I sent now t" "quota_held sent" "p \<in> P" "i \<in> I" "request_code (p, i, now, delivered) t = (ok, t')"
  shows "quota_rel P I (sent @ (if ok then [(p, i, now)] else [])) now t' \<and>
    quota_held (sent @ (if ok then [(p, i, now)] else []))"
proof -
  obtain a t1 where al: "allow_send p i now t = (a, t1)" by force
  have s: "sent_rel P (phone_times sent) now (otSentPhone t)" "sent_rel I (ip_times sent) now (otSentIP t)"
    using assms(1) by (simp_all add: quota_rel_def)
  have q1: "quota_rel P I sent now t1"
    using al sent_prune(1) [OF s(1)] sent_prune(1) [OF s(2)] by (auto simp: allow_send_def quota_rel_def Let_def)
  have few: "length (filter (\<lambda>u. now - otpDay < u) (phone_times sent p)) < otpDailyPerPhone"
    "length (filter (\<lambda>u. now - otpDay < u) (ip_times sent i)) < otpDailyPerIP" if a
    using al that sent_prune(2) [OF s(1)] sent_prune(2) [OF s(2)] by (auto simp: allow_send_def Let_def)
  show ?thesis
  proof (cases ok)
    case False
    then show ?thesis using assms(2,5) al q1 by (auto simp: request_code_def split: if_splits)
  next
    case True
    then have a: a delivered "t' = record_send p i now t1" using assms(5) al by (auto simp: request_code_def split: if_splits)
    obtain ok2 t2 where a2: "otp_admit otSentPhone p now t1 = (ok2, t2)" by force
    have 2: ok2 "quota_rel P I sent now t2" using admit_sends [OF q1 a2] assms(3) by auto
    let ?t2 = "t2\<lparr>otSentPhone := mput p (mlist (otSentPhone t2) p @ [now]) (otSentPhone t2)\<rparr>"
    obtain ok3 t3 where a3: "otp_admit otSentIP i now ?t2 = (ok3, t3)" by force
    have ph: "sent_rel P ((phone_times sent)(p := phone_times sent p @ [now])) now (otSentPhone ?t2)"
      "sent_rel I (ip_times sent) now (otSentIP ?t2)"
      using 2 sent_enter assms(3) by (auto simp: quota_rel_def)
    have "ok3 \<and> sent_rel P ((phone_times sent)(p := phone_times sent p @ [now])) now (otSentPhone t3) \<and>
        sent_rel I (ip_times sent) now (otSentIP t3)"
      using a3 ph sent_sweep [OF ph(1)] sent_sweep [OF ph(2)] sent_room [OF ph(2) assms(4)]
        sent_room [OF sent_sweep [OF ph(2)] assms(4)]
      by (auto simp: otp_admit_def otp_sweep_def Let_def split: if_splits prod.splits)
    then have "quota_rel P I (sent @ [(p, i, now)]) now t'"
      using a(3) a2 a3 2(1) sent_enter [OF _ assms(4)] by (auto simp: record_send_def quota_rel_def times_snoc)
    moreover have "quota_held (sent @ [(p, i, now)])"
      using assms(2) few [OF a(1)] s unfolding quota_held_all times_snoc
      by (auto intro!: within_quota_snoc simp: sent_rel_def)
    ultimately show ?thesis using True by simp
  qed
qed

lemma codes_sent_quota:
  "quota_rel P I sent now t \<Longrightarrow> quota_held sent \<Longrightarrow> request_clock now qs \<Longrightarrow>
     (\<And>p i u d. (p, i, u, d) \<in> set qs \<Longrightarrow> p \<in> P \<and> i \<in> I) \<Longrightarrow> quota_held (sent @ codes_sent qs t)"
proof (induction qs arbitrary: sent now t)
  case (Cons q qs)
  obtain p i u d where q: "q = (p, i, u, d)" by (metis prod_cases4)
  obtain ok t1 where r: "request_code q t = (ok, t1)" by force
  have later: "quota_rel P I sent u t" by (rule quota_later [OF Cons.prems(1)]) (use Cons.prems(3) in \<open>simp add: q\<close>)
  have "p \<in> P" "i \<in> I" using Cons.prems(4) [of p i u d] by (simp_all add: q)
  note step = request_code_rel [OF later Cons.prems(2) this r [unfolded q]]
  have "quota_held ((sent @ (if ok then [(p, i, u)] else [])) @ codes_sent qs t1)"
  proof (rule Cons.IH)
    show "p' \<in> P \<and> i' \<in> I" if "(p', i', u', d') \<in> set qs" for p' i' u' d'
      using that Cons.prems(4) [of p' i' u' d'] by simp
  qed (use step Cons.prems(3) in \<open>auto simp: q\<close>)
  then show ?case by (auto simp: q r [unfolded q] split: if_splits)
qed simp

text \<open>A provider is never asked for more than ten codes to a phone, or thirty from an address, in
  any day: while the phones and addresses in use fit the cap and time does not run backwards, every
  sequence of requests keeps both quotas over every day that ends with a send.
\<close>

theorem daily_quota_held:
  assumes "request_clock start rs"
    and "card ((\<lambda>(p, i, now, delivered). p) ` set rs) \<le> throttleMaxKeys"
    and "card ((\<lambda>(p, i, now, delivered). i) ` set rs) \<le> throttleMaxKeys"
  shows "quota_held (codes_sent rs new_otp_throttler)"
proof -
  define P I where PI: "P = (\<lambda>(p, i, now, delivered). p) ` set rs" "I = (\<lambda>(p, i, now, delivered). i) ` set rs"
  have "finite P" "finite I" "card P \<le> throttleMaxKeys" "card I \<le> throttleMaxKeys"
    using assms(2,3) by (simp_all add: PI)
  then have "quota_rel P I [] start new_otp_throttler" "quota_held []"
    by (auto simp: quota_rel_def sent_rel_def quota_held_def new_otp_throttler_def universe_def
        phone_times_def ip_times_def intro: exI [of _ "start - otpDay"])
  moreover have "p \<in> P \<and> i \<in> I" if "(p, i, u, d) \<in> set rs" for p i u d
    using that by (force simp: PI)
  ultimately show ?thesis using codes_sent_quota [OF _ _ assms(1), of P I "[]" new_otp_throttler] by simp
qed

lemma daily_quota_held_witness:
  "map (\<lambda>(p, i, u). u) (codes_sent (map (\<lambda>m. (''p'', ''i'', m, True)) [1, 2]) new_otp_throttler) =
     [1, 2] \<and>
   quota_held (codes_sent (map (\<lambda>m. (''p'', ''i'', m, True)) [1, 2]) new_otp_throttler)"
proof
  let ?rs = "map (\<lambda>m. (''p'', ''i'', m, True)) [1, 2] :: (string \<times> string \<times> time \<times> bool) list"
  show "map (\<lambda>(p, i, u). u) (codes_sent ?rs new_otp_throttler) = [1, 2]"
    by (simp add: request_code_def allow_send_def record_send_def otp_admit_def new_otp_throttler_def prune_map_def
        Let_def mget_def mput_def mlist_def mdel_def otpDailyPerPhone_def otpDailyPerIP_def throttleMaxKeys_def otpDay_def minute_def)
  have small: "length ?rs \<le> throttleMaxKeys" by (simp add: throttleMaxKeys_def)
  show "quota_held (codes_sent ?rs new_otp_throttler)"
    by (rule daily_quota_held [OF _ few_keys [OF small] few_keys [OF small], of 0]) simp
qed

text \<open>
  Asking and recording are two critical sections: requests that ask before any of them records all
  pass, however many they are.
\<close>

lemma quota_race:
  "fst (allow_send phone ip now (((snd \<circ> allow_send phone ip now) ^^ n) new_otp_throttler))"
proof -
  have 1: "snd (allow_send phone ip now new_otp_throttler) = new_otp_throttler"
    by (simp add: allow_send_def new_otp_throttler_def prune_map_def mlist_def mget_def mdel_def Let_def)
  have "((snd \<circ> allow_send phone ip now) ^^ n) new_otp_throttler = new_otp_throttler"
    by (induction n) (simp_all add: 1)
  then show ?thesis
    by (simp only:) (simp add: allow_send_def new_otp_throttler_def prune_map_def mlist_def mget_def mdel_def Let_def
        otpDailyPerPhone_def otpDailyPerIP_def)
qed

end
