(* ===== verification/NetAddr.thy ===== *)
theory NetAddr
  imports Prelude "HOL-Library.Word"
begin

section \<open>Network addresses\<close>

text \<open>
  Addresses as Go's package \<open>net\<close> keeps them, lists of four or sixteen bytes, the predicates of
  \<open>net.IP\<close> that the program asks, and \<open>netutil/netutil.go\<close>, which reads the IPv4 addresses that
  translation schemes embed in an IPv6 address.
\<close>

unbundle bit_operations_syntax

type_synonym byte = "8 word"
type_synonym ip = "byte list"

subsection \<open>Go's \<open>net.IP\<close>\<close>

definition ipv4 :: "byte \<Rightarrow> byte \<Rightarrow> byte \<Rightarrow> byte \<Rightarrow> ip" where
  "ipv4 a b c d = replicate 10 0 @ [0xff, 0xff, a, b, c, d]"

definition to4 :: "ip \<Rightarrow> ip option" where
  "to4 ip = (if length ip = 4 then Some ip
     else if length ip = 16 \<and> take 10 ip = replicate 10 0 \<and> ip ! 10 = 0xff \<and> ip ! 11 = 0xff then Some (drop 12 ip)
     else None)"

definition to16 :: "ip \<Rightarrow> ip option" where
  "to16 ip = (if length ip = 4 then Some (ipv4 (ip ! 0) (ip ! 1) (ip ! 2) (ip ! 3))
     else if length ip = 16 then Some ip else None)"

definition ip_equal :: "ip \<Rightarrow> ip \<Rightarrow> bool" where
  "ip_equal x y = (if length x = length y then x = y else to4 x \<noteq> None \<and> to4 x = to4 y)"

definition is_unspecified :: "ip \<Rightarrow> bool" where
  "is_unspecified ip = (ip_equal ip (ipv4 0 0 0 0) \<or> ip_equal ip (replicate 16 0))"

definition is_loopback :: "ip \<Rightarrow> bool" where
  "is_loopback ip = (case to4 ip of Some v \<Rightarrow> v ! 0 = 127 | None \<Rightarrow> ip_equal ip (replicate 15 0 @ [1]))"

definition is_private :: "ip \<Rightarrow> bool" where
  "is_private ip = (case to4 ip of
      Some v \<Rightarrow> v ! 0 = 10 \<or> (v ! 0 = 172 \<and> (v ! 1) AND 0xf0 = 16) \<or> (v ! 0 = 192 \<and> v ! 1 = 168)
    | None \<Rightarrow> length ip = 16 \<and> (ip ! 0) AND 0xfe = 0xfc)"

definition is_multicast :: "ip \<Rightarrow> bool" where
  "is_multicast ip = (case to4 ip of
      Some v \<Rightarrow> (v ! 0) AND 0xf0 = 0xe0
    | None \<Rightarrow> length ip = 16 \<and> ip ! 0 = 0xff)"

definition is_link_local_multicast :: "ip \<Rightarrow> bool" where
  "is_link_local_multicast ip = (case to4 ip of
      Some v \<Rightarrow> v ! 0 = 224 \<and> v ! 1 = 0 \<and> v ! 2 = 0
    | None \<Rightarrow> length ip = 16 \<and> ip ! 0 = 0xff \<and> (ip ! 1) AND 0x0f = 0x02)"

definition is_link_local_unicast :: "ip \<Rightarrow> bool" where
  "is_link_local_unicast ip = (case to4 ip of
      Some v \<Rightarrow> v ! 0 = 169 \<and> v ! 1 = 254
    | None \<Rightarrow> length ip = 16 \<and> ip ! 0 = 0xfe \<and> (ip ! 1) AND 0xc0 = 0x80)"

text \<open>A network: its base address and its mask, each of four or sixteen bytes.\<close>

record ip_net =
  inIP :: ip
  inMask :: "byte list"

definition network_and_mask :: "ip_net \<Rightarrow> (ip \<times> byte list) option" where
  "network_and_mask n =
     (let base = (case to4 (inIP n) of Some v \<Rightarrow> v | None \<Rightarrow> inIP n)
      in if to4 (inIP n) = None \<and> length base \<noteq> 16 then None
         else if length (inMask n) = 4 then (if length base = 4 then Some (base, inMask n) else None)
         else if length (inMask n) = 16 then Some (base, if length base = 4 then drop 12 (inMask n) else inMask n)
         else None)"

definition net_contains :: "ip_net \<Rightarrow> ip \<Rightarrow> bool" where
  "net_contains n ip =
     (let x = (case to4 ip of Some v \<Rightarrow> v | None \<Rightarrow> ip)
      in case network_and_mask n of
           None \<Rightarrow> x = []
         | Some (base, msk) \<Rightarrow>
             length x = length base \<and>
             list_all (\<lambda>(b, m, y). b AND m = y AND m) (zip base (zip msk x)))"

subsection \<open>Embedded addresses\<close>

definition ipv4_at :: "ip \<Rightarrow> nat \<Rightarrow> nat \<Rightarrow> nat \<Rightarrow> nat \<Rightarrow> ip" where
  "ipv4_at ip a b c d = ipv4 (ip ! a) (ip ! b) (ip ! c) (ip ! d)"

definition isatap_marker :: "ip \<Rightarrow> bool" where
  "isatap_marker v6 = (v6 ! 10 = 0x5e \<and> v6 ! 11 = 0xfe)"

definition nat64_candidates :: "ip \<Rightarrow> ip list" where
  "nat64_candidates v6 =
     (let a = ipv4_at v6 6 7 9 10; b = ipv4_at v6 9 10 11 12;
          cands = (if ip_equal a b then [a] else [a, b])
      in if isatap_marker v6 then
           let c = ipv4_at v6 12 13 14 15
           in if list_ex (\<lambda>x. ip_equal x c) cands then cands else cands @ [c]
         else cands)"

definition after_nat64 :: "ip \<Rightarrow> ip list" where
  "after_nat64 v6 =
     (if v6 ! 0 = 0x20 \<and> v6 ! 1 = 0x02 then [ipv4_at v6 2 3 4 5]
      else if list_all (\<lambda>b. b = 0) (take 12 v6) then [ipv4_at v6 12 13 14 15]
      else if isatap_marker v6 then [ipv4_at v6 12 13 14 15]
      else [])"

definition embedded_ipv4s :: "ip \<Rightarrow> ip list" where
  "embedded_ipv4s ip =
     (case to16 ip of
        None \<Rightarrow> []
      | Some v6 \<Rightarrow>
          if v6 ! 0 = 0 \<and> v6 ! 1 = 0x64 \<and> v6 ! 2 = 0xff \<and> v6 ! 3 = 0x9b then
            if list_all (\<lambda>b. b = 0) (take 8 (drop 4 v6)) then [ipv4_at v6 12 13 14 15]
            else if v6 ! 4 = 0 \<and> v6 ! 5 = 1 then nat64_candidates v6
            else if \<not> isatap_marker v6 then []
            else after_nat64 v6
          else after_nat64 v6)"

definition embedded_ipv4 :: "ip \<Rightarrow> ip option" where
  "embedded_ipv4 ip = (case embedded_ipv4s ip of [] \<Rightarrow> None | v # _ \<Rightarrow> Some v)"


subsection \<open>The layouts of the schemes\<close>

text \<open>
  What the standards say, from the side of the encoder: the sixteen bytes through which a translator
  reaches the four bytes of an IPv4 address. The octet \<open>u\<close> and the suffix are free.
\<close>

inductive embeds :: "ip \<Rightarrow> byte list \<Rightarrow> bool" where
  Nat64WellKnown: "embeds ([0, 0x64, 0xff, 0x9b, 0, 0, 0, 0, 0, 0, 0, 0, a, b, c, d]) [a, b, c, d]"
| Nat64Local48: "length s = 5 \<Longrightarrow> embeds ([0, 0x64, 0xff, 0x9b, 0, 1, a, b, u, c, d] @ s) [a, b, c, d]"
| Nat64Local64: "length s = 3 \<Longrightarrow> embeds ([0, 0x64, 0xff, 0x9b, 0, 1, p, q, u, a, b, c, d] @ s) [a, b, c, d]"
| SixToFour: "length s = 10 \<Longrightarrow> embeds ([0x20, 0x02, a, b, c, d] @ s) [a, b, c, d]"
| Compatible: "embeds ([0, 0, 0, 0, 0, 0, 0, 0, 0, 0, 0, 0, a, b, c, d]) [a, b, c, d]"
| Isatap: "length p = 10 \<Longrightarrow> embeds (p @ [0x5e, 0xfe, a, b, c, d]) [a, b, c, d]"

inductive_simps embeds_iff: "embeds ip v"

lemma to4_ipv4 [simp]: "to4 (ipv4 a b c d) = Some [a, b, c, d]"
  by (simp add: to4_def ipv4_def nth_append)

lemma ip_equal_ipv4 [simp]: "ip_equal (ipv4 a b c d) (ipv4 a' b' c' d') \<longleftrightarrow> [a, b, c, d] = [a', b', c', d']"
  by (simp add: ip_equal_def ipv4_def)

lemma length_Suc_list: "length xs = numeral n \<Longrightarrow> \<exists>y ys. xs = y # ys \<and> length ys = pred_numeral n"
  by (cases xs) (auto simp: numeral_eq_Suc)

lemma sixteen_bytes:
  assumes "length (ip :: ip) = 16"
  obtains x0 x1 x2 x3 x4 x5 x6 x7 x8 x9 x10 x11 x12 x13 x14 x15
  where "ip = [x0, x1, x2, x3, x4, x5, x6, x7, x8, x9, x10, x11, x12, x13, x14, x15]"
proof -
  have "ip = map (nth ip) [0..<16]" using map_nth [of ip] assms by simp
  then show thesis by (intro that) (simp add: upt_rec)
qed

text \<open>Two addresses read the same, whether of four or of sixteen bytes.\<close>

definition readings :: "ip \<Rightarrow> byte list set" where
  "readings ip = {v. \<exists>x \<in> set (embedded_ipv4s ip). to4 x = Some v}"


text \<open>The layouts as tests of the bytes.\<close>

definition byte_test :: "ip \<Rightarrow> byte list \<Rightarrow> bool" where
  "byte_test ip v =
     ((take 12 ip = [0, 0x64, 0xff, 0x9b, 0, 0, 0, 0, 0, 0, 0, 0] \<and> v = drop 12 ip) \<or>
      (take 6 ip = [0, 0x64, 0xff, 0x9b, 0, 1] \<and>
         (v = [ip ! 6, ip ! 7, ip ! 9, ip ! 10] \<or> v = [ip ! 9, ip ! 10, ip ! 11, ip ! 12])) \<or>
      (take 2 ip = [0x20, 0x02] \<and> v = take 4 (drop 2 ip)) \<or>
      (take 12 ip = replicate 12 0 \<and> v = drop 12 ip) \<or>
      (isatap_marker ip \<and> v = drop 12 ip))"

lemma embeds_byte_test: "embeds ip v \<Longrightarrow> byte_test ip v"
  by (induction rule: embeds.induct) (simp_all add: byte_test_def isatap_marker_def nth_append numeral_eq_Suc)

lemma byte_test_embeds:
  assumes "length ip = 16" "byte_test ip v"
  shows "embeds ip v"
proof -
  obtain x0 x1 x2 x3 x4 x5 x6 x7 x8 x9 x10 x11 x12 x13 x14 x15
    where ip: "ip = [x0, x1, x2, x3, x4, x5, x6, x7, x8, x9, x10, x11, x12, x13, x14, x15]"
    by (rule sixteen_bytes [OF assms(1)])
  show ?thesis
    using assms(2) unfolding byte_test_def
  proof (elim disjE conjE)
    assume "take 12 ip = [0, 0x64, 0xff, 0x9b, 0, 0, 0, 0, 0, 0, 0, 0]" "v = drop 12 ip"
    then show ?thesis using Nat64WellKnown [of x12 x13 x14 x15] by (simp add: ip)
  next
    assume "take 6 ip = [0, 0x64, 0xff, 0x9b, 0, 1]" "v = [ip ! 6, ip ! 7, ip ! 9, ip ! 10]"
    then show ?thesis using Nat64Local48 [of "[x11, x12, x13, x14, x15]" x6 x7 x8 x9 x10] by (simp add: ip)
  next
    assume "take 6 ip = [0, 0x64, 0xff, 0x9b, 0, 1]" "v = [ip ! 9, ip ! 10, ip ! 11, ip ! 12]"
    then show ?thesis using Nat64Local64 [of "[x13, x14, x15]" x6 x7 x8 x9 x10 x11 x12] by (simp add: ip)
  next
    assume "take 2 ip = [0x20, 0x02]" "v = take 4 (drop 2 ip)"
    then show ?thesis using SixToFour [of "[x6, x7, x8, x9, x10, x11, x12, x13, x14, x15]" x2 x3 x4 x5] by (simp add: ip)
  next
    assume "take 12 ip = replicate 12 0" "v = drop 12 ip"
    then show ?thesis using Compatible [of x12 x13 x14 x15] by (simp add: ip numeral_eq_Suc)
  next
    assume "isatap_marker ip" "v = drop 12 ip"
    then show ?thesis
      using Isatap [of "[x0, x1, x2, x3, x4, x5, x6, x7, x8, x9]" x12 x13 x14 x15] by (simp add: ip isatap_marker_def)
  qed
qed


lemma readings_byte_test:
  assumes "length ip = 16" "\<not> (ip ! 0 = 0x20 \<and> ip ! 1 = 0x02 \<and> isatap_marker ip)"
  shows "v \<in> readings ip \<longleftrightarrow> byte_test ip v"
proof -
  obtain x0 x1 x2 x3 x4 x5 x6 x7 x8 x9 x10 x11 x12 x13 x14 x15
    where ip: "ip = [x0, x1, x2, x3, x4, x5, x6, x7, x8, x9, x10, x11, x12, x13, x14, x15]"
    by (rule sixteen_bytes [OF assms(1)])
  have to16: "to16 ip = Some ip" by (simp add: to16_def ip)
  have twelve: "replicate 12 (0 :: byte) = [0, 0, 0, 0, 0, 0, 0, 0, 0, 0, 0, 0]" by (simp add: numeral_eq_Suc)
  have cand: "(\<exists>x \<in> set (nat64_candidates ip). to4 x = Some v) \<longleftrightarrow>
      v = [x6, x7, x9, x10] \<or> v = [x9, x10, x11, x12] \<or> (isatap_marker ip \<and> v = [x12, x13, x14, x15])"
  proof -
    define A B C where abc: "A = [x6, x7, x9, x10]" "B = [x9, x10, x11, x12]" "C = [x12, x13, x14, x15]"
    have "to4 (ipv4_at ip 6 7 9 10) = Some A" "to4 (ipv4_at ip 9 10 11 12) = Some B" "to4 (ipv4_at ip 12 13 14 15) = Some C"
      "ip_equal (ipv4_at ip 6 7 9 10) (ipv4_at ip 9 10 11 12) \<longleftrightarrow> A = B"
      "ip_equal (ipv4_at ip 6 7 9 10) (ipv4_at ip 12 13 14 15) \<longleftrightarrow> A = C"
      "ip_equal (ipv4_at ip 9 10 11 12) (ipv4_at ip 12 13 14 15) \<longleftrightarrow> B = C"
      by (simp_all add: ipv4_at_def ip abc)
    then show ?thesis unfolding abc [symmetric] nat64_candidates_def Let_def by auto
  qed
  have rest: "(\<exists>x \<in> set (after_nat64 ip). to4 x = Some v) \<longleftrightarrow>
      (if x0 = 0x20 \<and> x1 = 0x02 then v = [x2, x3, x4, x5]
       else (take 12 ip = replicate 12 0 \<or> isatap_marker ip) \<and> v = [x12, x13, x14, x15])"
    by (simp add: after_nat64_def ipv4_at_def ip twelve) auto
  have ne: "(0 :: byte) \<noteq> 0x20" "(0 :: byte) \<noteq> 0x64" "(0x64 :: byte) \<noteq> 2" by simp_all
  consider (wk) "take 12 ip = [0, 0x64, 0xff, 0x9b, 0, 0, 0, 0, 0, 0, 0, 0]"
    | (loc) "take 6 ip = [0, 0x64, 0xff, 0x9b, 0, 1]"
    | (other) "take 4 ip = [0, 0x64, 0xff, 0x9b]" "take 12 ip \<noteq> [0, 0x64, 0xff, 0x9b, 0, 0, 0, 0, 0, 0, 0, 0]"
        "take 6 ip \<noteq> [0, 0x64, 0xff, 0x9b, 0, 1]"
    | (out) "take 4 ip \<noteq> [0, 0x64, 0xff, 0x9b]"
    by (auto simp: ip)
  then show ?thesis
  proof cases
    case wk
    then have x: "x0 = 0" "x1 = 0x64" "x2 = 0xff" "x3 = 0x9b" "x4 = 0" "x5 = 0" "x6 = 0" "x7 = 0" "x8 = 0" "x9 = 0" "x10 = 0" "x11 = 0"
      by (simp_all add: ip)
    show ?thesis
      unfolding readings_def embedded_ipv4s_def to16 by (auto simp: ip x ipv4_at_def byte_test_def isatap_marker_def)
  next
    case loc
    then have x: "x0 = 0" "x1 = 0x64" "x2 = 0xff" "x3 = 0x9b" "x4 = 0" "x5 = 1" by (simp_all add: ip)
    have "v \<in> readings ip \<longleftrightarrow> (\<exists>x \<in> set (nat64_candidates ip). to4 x = Some v)"
      unfolding readings_def embedded_ipv4s_def to16 by (simp add: ip x)
    also note cand
    finally show ?thesis by (simp add: byte_test_def ip x twelve) 
  next
    case other
    then have x: "x0 = 0" "x1 = 0x64" "x2 = 0xff" "x3 = 0x9b" by (simp_all add: ip)
    have "v \<in> readings ip \<longleftrightarrow> isatap_marker ip \<and> (\<exists>x \<in> set (after_nat64 ip). to4 x = Some v)"
      using other(2,3) unfolding readings_def embedded_ipv4s_def to16 by (auto simp: ip x)
    also note rest
    finally show ?thesis using other(2,3) by (auto simp: byte_test_def ip x twelve)
  next
    case out
    then have "v \<in> readings ip \<longleftrightarrow> (\<exists>x \<in> set (after_nat64 ip). to4 x = Some v)"
      unfolding readings_def embedded_ipv4s_def to16 by (auto simp: ip)
    also note rest
    finally have r: "v \<in> readings ip \<longleftrightarrow> (if x0 = 0x20 \<and> x1 = 0x02 then v = [x2, x3, x4, x5]
       else (take 12 ip = replicate 12 0 \<or> isatap_marker ip) \<and> v = [x12, x13, x14, x15])" .
    have no: "take 12 ip \<noteq> [0, 0x64, 0xff, 0x9b, 0, 0, 0, 0, 0, 0, 0, 0]" "take 6 ip \<noteq> [0, 0x64, 0xff, 0x9b, 0, 1]"
      using out by (auto simp: ip)
    show ?thesis
    proof (cases "x0 = 0x20 \<and> x1 = 0x02")
      case True
      then have "\<not> isatap_marker ip" using assms(2) by (simp add: ip)
      moreover have "take 12 ip \<noteq> replicate 12 0" using True by (simp add: ip twelve)
      ultimately show ?thesis using r no True by (simp add: byte_test_def ip)
    next
      case False
      then have "take 2 ip \<noteq> [0x20, 0x02]" by (simp add: ip)
      moreover have "drop 12 ip = [x12, x13, x14, x15]" by (simp add: ip)
      ultimately show ?thesis using r no False unfolding byte_test_def by auto
    qed
  qed
qed

text \<open>EmbeddedIPv4s finds exactly the addresses that some translation scheme reaches through
  an IPv6 address, whatever the octets the standards leave free, except that the ISATAP reading of a
  6to4 address is not looked for.\<close>

theorem embedded_readings_complete:
  assumes "length ip = 16" "\<not> (ip ! 0 = 0x20 \<and> ip ! 1 = 0x02 \<and> isatap_marker ip)"
  shows "v \<in> readings ip \<longleftrightarrow> embeds ip v"
  using readings_byte_test [OF assms] byte_test_embeds [OF assms(1)] embeds_byte_test by blast

lemma embedded_readings_complete_witness:
  "readings [0, 0x64, 0xff, 0x9b, 0, 1, 0, 0, 0, 10, 0, 0, 1, 0, 0, 0] = {[0, 0, 10, 0], [10, 0, 0, 1]} \<and>
   embeds [0, 0x64, 0xff, 0x9b, 0, 1, 0, 0, 0, 10, 0, 0, 1, 0, 0, 0] [10, 0, 0, 1]"
proof
  show r: "readings [0, 0x64, 0xff, 0x9b, 0, 1, 0, 0, 0, 10, 0, 0, 1, 0, 0, 0] = {[0, 0, 10, 0], [10, 0, 0, 1]}"
    by (auto simp: readings_def embedded_ipv4s_def to16_def nat64_candidates_def ipv4_at_def isatap_marker_def Let_def)
  show "embeds [0, 0x64, 0xff, 0x9b, 0, 1, 0, 0, 0, 10, 0, 0, 1, 0, 0, 0] [10, 0, 0, 1]"
    by (rule embedded_readings_complete [THEN iffD1]) (simp_all add: r)
qed

text \<open>The exception: through this address an ISATAP router reaches 10.0.0.1, and only 8.8.8.8 is found.\<close>

lemma isatap_under_6to4_missed:
  "embeds [0x20, 0x02, 8, 8, 8, 8, 0, 0, 0, 0, 0x5e, 0xfe, 10, 0, 0, 1] [10, 0, 0, 1]"
  "readings [0x20, 0x02, 8, 8, 8, 8, 0, 0, 0, 0, 0x5e, 0xfe, 10, 0, 0, 1] = {[8, 8, 8, 8]}"
  using Isatap [of "[0x20, 0x02, 8, 8, 8, 8, 0, 0, 0, 0]" 10 0 0 1]
  by (simp, auto simp: readings_def embedded_ipv4s_def to16_def after_nat64_def ipv4_at_def)

end
