(* ===== verification/NetGuard.thy ===== *)
theory NetGuard
  imports NetAddr
begin

section \<open>The guard of outgoing requests\<close>

text \<open>
  \<open>webhook/ssrf.go\<close>: which addresses a delivery may connect to. \<open>url.Parse\<close>, \<open>net.ParseIP\<close> and
  \<open>net.ParseCIDR\<close> are fields of an environment, the resolver is an argument of each use, for it may
  answer differently each time. A connection attempt is an address or a name given to the dialer.
\<close>

record url =
  uScheme :: string
  uHost :: string
  uHostname :: string

record guard_env =
  geURL :: "string \<Rightarrow> url option"
  geIP :: "string \<Rightarrow> ip option"
  geCIDR :: "string \<Rightarrow> ip_net option"

record guard =
  gAllowNets :: "ip_net list"
  gAllowHosts :: "(string, unit) gomap"

type_synonym resolver = "string \<Rightarrow> string + ip list"

definition ErrBlocked :: string where
  "ErrBlocked = ''webhook: delivery target blocked by SSRF guard''"

definition add_allow_host :: "string \<Rightarrow> (string, unit) gomap \<Rightarrow> (string, unit) gomap" where
  "add_allow_host h m = (let t = trim_space h in if t \<noteq> '''' then mput (to_lower t) () m else m)"

fun allow_nets :: "guard_env \<Rightarrow> string list \<Rightarrow> string + ip_net list" where
  "allow_nets e [] = Inr []"
| "allow_nets e (c # cs) =
     (let t = trim_space c
      in if t = '''' then allow_nets e cs
         else case geCIDR e t of
                None \<Rightarrow> Inl (''webhook SSRF allowlist: bad CIDR '' @ t)
              | Some n \<Rightarrow> (case allow_nets e cs of Inl err \<Rightarrow> Inl err | Inr ns \<Rightarrow> Inr (n # ns)))"

definition new_guard :: "guard_env \<Rightarrow> string list \<Rightarrow> string list \<Rightarrow> string + guard" where
  "new_guard e cidrs hosts =
     (case allow_nets e cidrs of
        Inl err \<Rightarrow> Inl err
      | Inr ns \<Rightarrow> Inr \<lparr>gAllowNets = ns, gAllowHosts = fold add_allow_host hosts []\<rparr>)"

subsection \<open>Which addresses are public\<close>

definition public4 :: "ip \<Rightarrow> bool" where
  "public4 ip0 =
     (let ip = (case to4 ip0 of Some v \<Rightarrow> v | None \<Rightarrow> ip0)
      in if is_loopback ip \<or> is_private ip \<or> is_link_local_unicast ip \<or> is_link_local_multicast ip \<or>
            is_multicast ip \<or> is_unspecified ip \<or> ip ! 0 = 0 then False
         else if ip ! 0 = 100 \<and> (ip ! 1) AND 0xC0 = 64 then False
         else if ip ! 0 = 192 \<and> ip ! 1 = 0 then False
         else True)"

definition public6 :: "ip \<Rightarrow> bool" where
  "public6 ip =
     (if is_loopback ip \<or> is_private ip \<or> is_link_local_unicast ip \<or> is_link_local_multicast ip \<or>
         is_multicast ip \<or> is_unspecified ip then False
      else list_all public4 (embedded_ipv4s ip))"

definition is_blocked_ip :: "ip option \<Rightarrow> bool" where
  "is_blocked_ip x =
     (case x of
        None \<Rightarrow> True
      | Some ip \<Rightarrow> (case to4 ip of Some v \<Rightarrow> \<not> public4 v | None \<Rightarrow> \<not> public6 ip))"

definition allowed_ip :: "guard \<Rightarrow> ip \<Rightarrow> string \<Rightarrow> bool" where
  "allowed_ip g ip host =
     (if \<not> is_blocked_ip (Some ip) then True
      else if gAllowNets g = [] then False
      else if list_ex (\<lambda>n. net_contains n ip) (gAllowNets g) then True
      else if list_ex (\<lambda>v. list_ex (\<lambda>n. net_contains n v) (gAllowNets g)) (embedded_ipv4s ip) then True
      else mget (gAllowHosts g) (to_lower host) \<noteq> None)"

subsection \<open>Hosts and ports\<close>

definition index_byte :: "char \<Rightarrow> string \<Rightarrow> nat option" where
  "index_byte c s = (if c \<in> set s then Some (length (takeWhile (\<lambda>x. x \<noteq> c) s)) else None)"

definition last_byte :: "char \<Rightarrow> string \<Rightarrow> nat option" where
  "last_byte c s = (case index_byte c (rev s) of None \<Rightarrow> None | Some k \<Rightarrow> Some (length s - 1 - k))"

text \<open>\<open>net.SplitHostPort\<close>, its errors as \<open>None\<close>.\<close>

definition split_host_port :: "string \<Rightarrow> (string \<times> string) option" where
  "split_host_port hp =
     (case last_byte CHR '':'' hp of
        None \<Rightarrow> None
      | Some i \<Rightarrow>
          if hp ! 0 = CHR ''['' then
            (case index_byte CHR '']'' hp of
               None \<Rightarrow> None
             | Some k \<Rightarrow>
                 if k + 1 = i \<and> CHR ''['' \<notin> set (drop 1 hp) \<and> CHR '']'' \<notin> set (drop (k + 1) hp)
                 then Some (take (k - 1) (drop 1 hp), drop (i + 1) hp) else None)
          else if CHR '':'' \<in> set (take i hp) \<or> CHR ''['' \<in> set hp \<or> CHR '']'' \<in> set hp then None
          else Some (take i hp, drop (i + 1) hp))"

definition trim_set :: "char set \<Rightarrow> string \<Rightarrow> string" where
  "trim_set cs s = rev (dropWhile (\<lambda>c. c \<in> cs) (rev (dropWhile (\<lambda>c. c \<in> cs) s)))"

definition hostname_only :: "string \<Rightarrow> string" where
  "hostname_only host = (case split_host_port host of Some (h, p) \<Rightarrow> h | None \<Rightarrow> trim_set {CHR ''['', CHR '']''} host)"

subsection \<open>Checking a target\<close>

definition validate_url :: "guard_env \<Rightarrow> guard \<Rightarrow> string \<Rightarrow> string option" where
  "validate_url e g raw =
     (case geURL e raw of
        None \<Rightarrow> Some ErrBlocked
      | Some u \<Rightarrow>
          if (uScheme u \<noteq> ''http'' \<and> uScheme u \<noteq> ''https'') \<or> uHost u = '''' then Some ErrBlocked
          else case geIP e (hostname_only (uHost u)) of
                 Some ip \<Rightarrow> if allowed_ip g ip '''' then None else Some ErrBlocked
               | None \<Rightarrow> None)"

definition resolve_url :: "guard_env \<Rightarrow> guard \<Rightarrow> resolver \<Rightarrow> string \<Rightarrow> string + ip list" where
  "resolve_url e g dns raw =
     (case validate_url e g raw of
        Some err \<Rightarrow> Inl err
      | None \<Rightarrow>
          let host = hostname_only (case geURL e raw of Some u \<Rightarrow> uHost u | None \<Rightarrow> '''') in
          case geIP e host of
            Some ip \<Rightarrow> if allowed_ip g ip '''' then Inr [ip] else Inl ErrBlocked
          | None \<Rightarrow>
              if mget (gAllowHosts g) (to_lower host) \<noteq> None then Inr []
              else case dns host of
                     Inl err \<Rightarrow> Inl (ErrBlocked @ '': '' @ err)
                   | Inr addrs \<Rightarrow>
                       if addrs = [] then Inl (ErrBlocked @ '': no addresses'')
                       else if list_all (\<lambda>a. allowed_ip g a host) addrs then Inr addrs
                       else Inl (ErrBlocked @ '': '' @ host))"

definition check_url :: "guard_env \<Rightarrow> guard \<Rightarrow> resolver \<Rightarrow> string \<Rightarrow> string option" where
  "check_url e g dns raw = (case resolve_url e g dns raw of Inl err \<Rightarrow> Some err | Inr _ \<Rightarrow> None)"

record pinned_dial =
  pnHost :: string
  pnIPs :: "ip list"

text \<open>What a request carries: a pin, or nothing. A target without vetted addresses leaves it as it is.\<close>

definition pin_request :: "guard_env \<Rightarrow> guard \<Rightarrow> resolver \<Rightarrow> string \<Rightarrow> pinned_dial option \<Rightarrow> string + pinned_dial option" where
  "pin_request e g dns raw carried =
     (case resolve_url e g dns raw of
        Inl err \<Rightarrow> Inl err
      | Inr ips \<Rightarrow>
          if ips = [] then Inr carried
          else Inr (Some \<lparr>pnHost = to_lower (case geURL e raw of Some u \<Rightarrow> uHostname u | None \<Rightarrow> ''''), pnIPs = ips\<rparr>))"

definition check_redirect :: "guard_env \<Rightarrow> guard \<Rightarrow> resolver \<Rightarrow> nat \<Rightarrow> string \<Rightarrow> pinned_dial option \<Rightarrow> string + pinned_dial option" where
  "check_redirect e g dns hops raw carried =
     (if 10 \<le> hops then Inl ''webhook: too many redirects'' else pin_request e g dns raw carried)"

datatype dial = DialIP ip string | DialName string

text \<open>\<open>up\<close> tells whether an attempt connects. The attempts made, and whether the last one connected.\<close>

fun dial_pinned :: "(dial \<Rightarrow> bool) \<Rightarrow> ip list \<Rightarrow> string \<Rightarrow> dial list \<times> bool" where
  "dial_pinned up [] port = ([], False)"
| "dial_pinned up (ip # ips) port =
     (if up (DialIP ip port) then ([DialIP ip port], True)
      else let (ds, ok) = dial_pinned up ips port in (DialIP ip port # ds, ok))"

definition dial_plain :: "(dial \<Rightarrow> bool) \<Rightarrow> string \<Rightarrow> dial list \<times> bool" where
  "dial_plain up addr = ([DialName addr], up (DialName addr))"

definition dial_context :: "(dial \<Rightarrow> bool) \<Rightarrow> pinned_dial option \<Rightarrow> string \<Rightarrow> dial list \<times> bool" where
  "dial_context up pin addr =
     (case pin of
        None \<Rightarrow> dial_plain up addr
      | Some p \<Rightarrow>
          (case split_host_port addr of
             None \<Rightarrow> dial_plain up addr
           | Some (host, port) \<Rightarrow>
               if to_lower host \<noteq> to_lower (pnHost p) then dial_plain up addr
               else if pnIPs p = [] then ([], False)
               else dial_pinned up (pnIPs p) port))"

subsection \<open>What a delivery can reach\<close>

text \<open>The operator's exceptions: an address in an allowed network, directly or through a translator.\<close>

definition excepted :: "guard \<Rightarrow> ip \<Rightarrow> bool" where
  "excepted g ip = list_ex (\<lambda>n. net_contains n ip \<or> list_ex (net_contains n) (embedded_ipv4s ip)) (gAllowNets g)"

definition host_trusted :: "guard \<Rightarrow> string \<Rightarrow> bool" where
  "host_trusted g host = (mget (gAllowHosts g) (to_lower host) \<noteq> None)"

lemma host_trusted_Some: "mget (gAllowHosts g) (to_lower host) = Some x \<longleftrightarrow> host_trusted g host"
  by (cases "mget (gAllowHosts g) (to_lower host)") (auto simp: host_trusted_def)

definition fit_address :: "guard \<Rightarrow> ip \<Rightarrow> bool" where
  "fit_address g ip = (\<not> is_blocked_ip (Some ip) \<or> excepted g ip)"

lemma allowed_ip_fit: "\<not> host_trusted g host \<Longrightarrow> allowed_ip g ip host \<longleftrightarrow> fit_address g ip"
  by (auto simp: allowed_ip_def excepted_def host_trusted_def fit_address_def list_ex_iff)

definition host_of :: "guard_env \<Rightarrow> string \<Rightarrow> string" where
  "host_of e raw = hostname_only (case geURL e raw of Some u \<Rightarrow> uHost u | None \<Rightarrow> '''')"

lemma resolve_url_fit:
  assumes "resolve_url e g dns raw = Inr ips" "\<not> host_trusted g ''''"
  shows "if ips = [] then host_trusted g (host_of e raw) else list_all (fit_address g) ips"
  using assms
  by (auto simp: resolve_url_def host_of_def [symmetric] Let_def host_trusted_Some list_all_iff allowed_ip_fit
      split: option.splits sum.splits if_splits)

text \<open>A trusted host never has the empty name: \<open>NewGuard\<close> stores no blank entry.\<close>

lemma fold_add_allow_host: "mget m '''' = None \<Longrightarrow> mget (fold add_allow_host hosts m) '''' = None"
proof (induction hosts arbitrary: m)
  case (Cons h hosts)
  have "mget (add_allow_host h m) '''' = None" using Cons.prems by (simp add: add_allow_host_def Let_def to_lower_def)
  then show ?case using Cons.IH by simp
qed simp

lemma new_guard_no_blank: "new_guard e cidrs hosts = Inr g \<Longrightarrow> \<not> host_trusted g ''''"
  using fold_add_allow_host [of "[]" hosts]
  by (auto simp: new_guard_def host_trusted_def to_lower_def split: sum.splits)

text \<open>
  A delivery and the redirects it follows. Hop \<open>i\<close> asks the resolver \<open>dns i\<close>; \<open>addr\<close> is the address
  the transport dials for a target, its host and port; a redirect carries the pin of the first request.
\<close>

fun follow_hops :: "guard_env \<Rightarrow> guard \<Rightarrow> (nat \<Rightarrow> resolver) \<Rightarrow> (dial \<Rightarrow> bool) \<Rightarrow> (string \<Rightarrow> string) \<Rightarrow>
    pinned_dial option \<Rightarrow> nat \<Rightarrow> string list \<Rightarrow> (string \<times> dial list) list" where
  "follow_hops e g dns up addr p0 i [] = []"
| "follow_hops e g dns up addr p0 i (raw # raws) =
     (case check_redirect e g (dns i) i raw p0 of
        Inl err \<Rightarrow> []
      | Inr pin \<Rightarrow>
          let (ds, ok) = dial_context up pin (addr raw)
          in (raw, ds) # (if ok then follow_hops e g dns up addr p0 (Suc i) raws else []))"

definition request_hops :: "guard_env \<Rightarrow> guard \<Rightarrow> (nat \<Rightarrow> resolver) \<Rightarrow> (dial \<Rightarrow> bool) \<Rightarrow> (string \<Rightarrow> string) \<Rightarrow>
    string \<Rightarrow> string list \<Rightarrow> (string \<times> dial list) list" where
  "request_hops e g dns up addr raw raws =
     (case pin_request e g (dns 0) raw None of
        Inl err \<Rightarrow> []
      | Inr pin \<Rightarrow>
          let (ds, ok) = dial_context up pin (addr raw)
          in (raw, ds) # (if ok then follow_hops e g dns up addr pin (Suc 0) raws else []))"

text \<open>
  The address the transport dials for a target need not name the target's host: it is the proxy's
  when the environment configures one, and the ASCII form of an internationalised name.
\<close>

definition own_host :: "guard_env \<Rightarrow> string \<Rightarrow> string \<Rightarrow> bool" where
  "own_host e target name =
     (case (geURL e target, split_host_port name) of
        (Some u, Some (host, port)) \<Rightarrow> to_lower host = to_lower (uHostname u)
      | _ \<Rightarrow> False)"

definition vetted_dial :: "guard_env \<Rightarrow> guard \<Rightarrow> (string \<Rightarrow> string) \<Rightarrow> string \<Rightarrow> dial \<Rightarrow> bool" where
  "vetted_dial e g addr raw d =
     (case d of
        DialIP ip port \<Rightarrow> fit_address g ip
      | DialName name \<Rightarrow> name = addr raw \<and> (host_trusted g (host_of e raw) \<or> \<not> own_host e raw name))"

definition good_pin :: "guard \<Rightarrow> pinned_dial option \<Rightarrow> bool" where
  "good_pin g pin = (\<forall>p. pin = Some p \<longrightarrow> list_all (fit_address g) (pnIPs p))"

lemma dial_pinned_set: "set (fst (dial_pinned up ips port)) \<subseteq> (\<lambda>ip. DialIP ip port) ` set ips"
  by (induction ips) (auto split: prod.splits)

lemma dial_context_vetted:
  assumes "pin_request e g dns raw carried = Inr pin" "\<not> host_trusted g ''''" "good_pin g carried"
  shows "good_pin g pin" "list_all (vetted_dial e g addr raw) (fst (dial_context up pin (addr raw)))"
proof -
  obtain ips where r: "resolve_url e g dns raw = Inr ips"
    and pin: "pin = (if ips = [] then carried else Some \<lparr>pnHost = to_lower (case geURL e raw of Some u \<Rightarrow> uHostname u | None \<Rightarrow> ''''), pnIPs = ips\<rparr>)"
    using assms(1) by (auto simp: pin_request_def split: sum.splits if_splits)
  note fit = resolve_url_fit [OF r assms(2)]
  show good: "good_pin g pin" using fit assms(3) by (auto simp: pin good_pin_def split: if_splits)
  obtain u where u: "geURL e raw = Some u" using r by (auto simp: resolve_url_def validate_url_def split: option.splits)
  have ipset: "list_all (vetted_dial e g addr raw) (fst (dial_pinned up (pnIPs p) q))" if "pin = Some p" for p q
    using good that dial_pinned_set [of up "pnIPs p" q] by (fastforce simp: good_pin_def list_all_iff vetted_dial_def)
  show "list_all (vetted_dial e g addr raw) (fst (dial_context up pin (addr raw)))"
  proof (cases "ips = []")
    case True
    then have "vetted_dial e g addr raw (DialName (addr raw))" using fit by (simp add: vetted_dial_def)
    then show ?thesis using ipset by (auto simp: dial_context_def dial_plain_def split: option.split)
  next
    case False
    have "to_lower (to_lower h) = to_lower h" for h
      by (simp add: to_lower_def lower_char_def of_char_of)
    moreover have "list_all (vetted_dial e g addr raw) (fst (dial_pinned up ips q))" for q
      using ipset [of "\<lparr>pnHost = to_lower (uHostname u), pnIPs = ips\<rparr>" q] False by (simp add: pin u)
    ultimately show ?thesis using False
      by (auto simp: dial_context_def dial_plain_def pin u vetted_dial_def own_host_def split: option.split)
  qed
qed

lemma follow_hops_vetted:
  assumes "\<not> host_trusted g ''''" "good_pin g p0" "(raw, ds) \<in> set (follow_hops e g dns up addr p0 i raws)"
  shows "list_all (vetted_dial e g addr raw) ds"
  using assms(3)
proof (induction raws arbitrary: i)
  case (Cons r raws)
  obtain pin where c: "check_redirect e g (dns i) i r p0 = Inr pin"
    using Cons.prems by (cases "check_redirect e g (dns i) i r p0") auto
  obtain es ok where d: "dial_context up pin (addr r) = (es, ok)" by force
  have "pin_request e g (dns i) r p0 = Inr pin" using c by (simp add: check_redirect_def split: if_splits)
  then have "list_all (vetted_dial e g addr r) es"
    using dial_context_vetted(2) [OF _ assms(1,2), where up = up and addr = addr] d by fastforce
  with Cons c d show ?case by (auto split: if_splits)
qed simp

lemma follow_hops_length: "length (follow_hops e g dns up addr p0 i raws) \<le> 10 - i"
proof (induction raws arbitrary: i)
  case (Cons r raws)
  show ?case
    using Cons.IH [of "Suc i"] by (auto simp: check_redirect_def split: sum.split prod.split)
qed simp

text \<open>C28: under a guard built by NewGuard, a delivery and the redirects it follows attempt connections
  only to addresses that isBlockedIP does not block or that the operator has excepted, and by name
  only to the address the transport asks for, and only when the operator has named the target's host
  or that address is not the target's host (a forward proxy, or the ASCII form of an
  internationalised name, which the pin does not cover). So a host dialed as it is written in the
  target is never resolved again, however the resolver changes its answers between the check and the
  dial or between hops, whatever the redirects ask for, and whichever attempts fail; and at most nine
  redirects are followed.\<close>

theorem guard_confines_delivery:
  assumes "new_guard e cidrs hosts = Inr g"
    and "(target, ds) \<in> set (request_hops e g dns up addr raw raws)" "d \<in> set ds"
  shows "(case d of DialIP ip port \<Rightarrow> \<not> is_blocked_ip (Some ip) \<or> excepted g ip
                  | DialName name \<Rightarrow> name = addr target \<and>
                      (host_trusted g (host_of e target) \<or> \<not> own_host e target name)) \<and>
    length (request_hops e g dns up addr raw raws) \<le> 10"
proof -
  note blank = new_guard_no_blank [OF assms(1)]
  have start: "good_pin g None" by (simp add: good_pin_def)
  obtain pin where p: "pin_request e g (dns 0) raw None = Inr pin"
    using assms(2) by (cases "pin_request e g (dns 0) raw None") (auto simp: request_hops_def)
  obtain es ok where d: "dial_context up pin (addr raw) = (es, ok)" by force
  note first = dial_context_vetted(1) [OF p blank start] dial_context_vetted(2) [OF p blank start, where up = up and addr = addr]
  have "list_all (vetted_dial e g addr target) ds"
    using assms(2) p d first follow_hops_vetted [OF blank first(1), of target ds e dns up addr 1 raws]
    by (auto simp: request_hops_def split: if_splits)
  then have "vetted_dial e g addr target d" using assms(3) by (simp add: list_all_iff)
  moreover have "length (request_hops e g dns up addr raw raws) \<le> 10"
    using follow_hops_length [of e g dns up addr pin 1 raws] p d by (simp add: request_hops_def)
  ultimately show ?thesis by (simp add: vetted_dial_def fit_address_def split: dial.splits)
qed

text \<open>A name that resolves to a public address at the check is dialed there, without asking again.\<close>

definition demo_env :: guard_env where
  "demo_env = \<lparr>geURL = (\<lambda>_. Some \<lparr>uScheme = ''http'', uHost = ''a'', uHostname = ''a''\<rparr>),
     geIP = (\<lambda>_. None), geCIDR = (\<lambda>_. None)\<rparr>"

lemma guard_confines_delivery_witness:
  "request_hops demo_env \<lparr>gAllowNets = [], gAllowHosts = []\<rparr> (\<lambda>i h. Inr [[8, 8, 8, 8]]) (\<lambda>d. True)
     (\<lambda>raw. ''a:80'') ''http://a'' [] = [(''http://a'', [DialIP [8, 8, 8, 8] ''80''])] \<and>
   \<not> is_blocked_ip (Some [8, 8, 8, 8])"
proof
  let ?g = "\<lparr>gAllowNets = [], gAllowHosts = []\<rparr>" and ?dns = "\<lambda>i h. Inr [[8, 8, 8, 8]]"
  show h: "request_hops demo_env ?g ?dns (\<lambda>d. True) (\<lambda>raw. ''a:80'') ''http://a'' [] =
      [(''http://a'', [DialIP [8, 8, 8, 8] ''80''])]"
    by code_simp
  have g: "new_guard demo_env [] [] = Inr ?g" by (simp add: new_guard_def)
  have "(''http://a'', [DialIP [8, 8, 8, 8] ''80'']) \<in> set (request_hops demo_env ?g ?dns (\<lambda>d. True) (\<lambda>raw. ''a:80'') ''http://a'' [])"
    by (simp add: h)
  from guard_confines_delivery [OF g this] show "\<not> is_blocked_ip (Some [8, 8, 8, 8])"
    by (simp add: excepted_def)
qed

text \<open>
  Where the transport dials another name than the target's, the pin is passed over: the vetted
  addresses are not used, and the name is resolved again by the plain dialer.
\<close>

lemma renamed_host_not_pinned:
  assumes "split_host_port addr = Some (host, port)" "to_lower host \<noteq> to_lower (pnHost p)"
  shows "dial_context up (Some p) addr = ([DialName addr], up (DialName addr))"
  using assms by (simp add: dial_context_def dial_plain_def)

lemma ascii_host_not_pinned:
  "request_hops (demo_env\<lparr>geURL := \<lambda>_. Some \<lparr>uScheme = ''http'', uHost = [CHR 0xC3, CHR 0xBC], uHostname = [CHR 0xC3, CHR 0xBC]\<rparr>\<rparr>)
     \<lparr>gAllowNets = [], gAllowHosts = []\<rparr> (\<lambda>i h. Inr [[8, 8, 8, 8]]) (\<lambda>d. True) (\<lambda>raw. ''xn--tda:80'') ''u'' [] =
   [(''u'', [DialName ''xn--tda:80''])]"
  by code_simp

text \<open>
  Two limits of the guard. An exception for one reading of an address lets every reading through:
  with 10.0.0.0/8 excepted, this address is allowed although the other translation reaches
  127.0.0.1. And some addresses that are not public are in no blocked range.
\<close>

lemma exception_covers_other_reading:
  "allowed_ip \<lparr>gAllowNets = [\<lparr>inIP = [10, 0, 0, 0], inMask = [255, 0, 0, 0]\<rparr>], gAllowHosts = []\<rparr>
     [0, 0x64, 0xff, 0x9b, 0, 1, 10, 0, 0, 127, 0, 0, 1, 0, 0, 0] ''''"
  "[127, 0, 0, 1] \<in> readings [0, 0x64, 0xff, 0x9b, 0, 1, 10, 0, 0, 127, 0, 0, 1, 0, 0, 0]"
  by (code_simp, simp add: readings_def embedded_ipv4s_def to16_def nat64_candidates_def ipv4_at_def isatap_marker_def Let_def)

lemma broadcast_not_blocked:
  "\<not> is_blocked_ip (Some [255, 255, 255, 255])" "\<not> is_blocked_ip (Some [240, 0, 0, 1])" "\<not> is_blocked_ip (Some [198, 18, 0, 1])"
  by code_simp+

end
