(* ===== verification/Outbox.thy ===== *)
theory Outbox
  imports Prelude
begin

section \<open>The outbox of run notifications\<close>

text \<open>
  \<open>webhook/delivery.go\<close>, the table of deliveries, one definition per SQL statement, each one atomic
  step as a statement is; \<open>webhook/webhook.go\<close>, one delivery with its retries; \<open>webhook/sweep.go\<close>,
  the pass that empties the queue. A statement that asks the database for \<open>now()\<close> takes the
  database's clock, which need not agree with the clock of the gateway.
\<close>

datatype delivery_status = DeliveryPending | DeliveryDelivered | DeliveryFailed

record delivery =
  dvID :: id
  dvRunID :: id
  dvSessionID :: id
  dvUserID :: id
  dvTargetURL :: string
  dvPayload :: string
  dvStatus :: delivery_status
  dvAttempts :: nat
  dvNextAttemptAt :: time
  dvLastError :: string
  dvCreatedAt :: time
  dvDeliveredAt :: "time option"

type_synonym outbox = "delivery list"

definition second :: int where "second = 1000000000"
definition minutes :: "int \<Rightarrow> int" where "minutes n = n * 60 * second"
definition hours :: "int \<Rightarrow> int" where "hours n = n * 60 * 60 * second"

definition claimLease :: int where "claimLease = minutes 5"
definition DeadLetterRetention :: int where "DeadLetterRetention = hours (30 * 24)"
definition DeliveredRetention :: int where "DeliveredRetention = hours (90 * 24)"

definition outboxBackoffs :: "int list" where
  "outboxBackoffs = [minutes 1, minutes 5, minutes 15, hours 1, hours 4, hours 12, hours 24]"

subsection \<open>The statements\<close>

definition enqueue :: "id \<Rightarrow> time \<Rightarrow> id \<Rightarrow> id \<Rightarrow> string \<Rightarrow> id \<Rightarrow> string \<Rightarrow> outbox \<Rightarrow> delivery \<times> outbox" where
  "enqueue fresh dbNow runID sessionID target userID payload rows =
     (let d = \<lparr>dvID = fresh, dvRunID = runID, dvSessionID = sessionID, dvUserID = userID, dvTargetURL = target,
               dvPayload = payload, dvStatus = DeliveryPending, dvAttempts = 0, dvNextAttemptAt = dbNow,
               dvLastError = '''', dvCreatedAt = dbNow, dvDeliveredAt = None\<rparr>
      in (d, rows @ [d]))"

definition update_rows :: "(delivery \<Rightarrow> bool) \<Rightarrow> (delivery \<Rightarrow> delivery) \<Rightarrow> outbox \<Rightarrow> outbox" where
  "update_rows P f rows = map (\<lambda>d. if P d then f d else d) rows"

definition due :: "time \<Rightarrow> delivery \<Rightarrow> bool" where
  "due now d = (dvStatus d = DeliveryPending \<and> dvNextAttemptAt d \<le> now)"

definition claimed :: "time \<Rightarrow> delivery \<Rightarrow> delivery" where
  "claimed now d = d\<lparr>dvAttempts := dvAttempts d + 1, dvNextAttemptAt := now + claimLease\<rparr>"

definition claim_row :: "id \<Rightarrow> time \<Rightarrow> outbox \<Rightarrow> delivery option \<times> outbox" where
  "claim_row i now rows =
     (case find (\<lambda>d. dvID d = i \<and> due now d) rows of
        None \<Rightarrow> (None, rows)
      | Some d \<Rightarrow> (Some (claimed now d), update_rows (\<lambda>d. dvID d = i) (claimed now) rows))"

definition claim_by_id :: "id \<Rightarrow> time \<Rightarrow> outbox \<Rightarrow> delivery option \<times> outbox" where
  "claim_by_id i now rows = claim_row i now rows"

definition claim_next :: "time \<Rightarrow> outbox \<Rightarrow> delivery option \<times> outbox" where
  "claim_next now rows =
     (case sort_key dvNextAttemptAt (filter (due now) rows) of
        [] \<Rightarrow> (None, rows)
      | d # _ \<Rightarrow> claim_row (dvID d) now rows)"

definition mark_delivered :: "id \<Rightarrow> time \<Rightarrow> outbox \<Rightarrow> outbox" where
  "mark_delivered i now rows =
     update_rows (\<lambda>d. dvID d = i) (\<lambda>d. d\<lparr>dvStatus := DeliveryDelivered, dvDeliveredAt := Some now, dvLastError := ''''\<rparr>) rows"

definition mark_failed :: "id \<Rightarrow> time \<Rightarrow> string \<Rightarrow> time \<Rightarrow> outbox \<Rightarrow> outbox" where
  "mark_failed i nextAt errMsg dbNow rows =
     update_rows (\<lambda>d. dvID d = i)
       (\<lambda>d. d\<lparr>dvLastError := errMsg, dvNextAttemptAt := nextAt,
              dvStatus := (if dbNow < nextAt then DeliveryPending else DeliveryFailed)\<rparr>) rows"

definition requeue_delivery :: "id \<Rightarrow> time \<Rightarrow> outbox \<Rightarrow> outbox" where
  "requeue_delivery i dbNow rows =
     update_rows (\<lambda>d. dvID d = i \<and> dvStatus d = DeliveryFailed)
       (\<lambda>d. d\<lparr>dvStatus := DeliveryPending, dvAttempts := 0, dvLastError := '''', dvNextAttemptAt := dbNow\<rparr>) rows"

definition stale :: "time \<Rightarrow> delivery \<Rightarrow> bool" where
  "stale now d =
     ((dvStatus d = DeliveryFailed \<and> dvCreatedAt d < now - DeadLetterRetention) \<or>
      (dvStatus d = DeliveryDelivered \<and> dvCreatedAt d < now - DeliveredRetention))"

definition purge_expired :: "time \<Rightarrow> outbox \<Rightarrow> nat \<times> outbox" where
  "purge_expired now rows = (length (filter (stale now) rows), filter (\<lambda>d. \<not> stale now d) rows)"

definition list_deliveries :: "delivery_status option \<Rightarrow> int \<Rightarrow> nat \<Rightarrow> outbox \<Rightarrow> delivery list \<times> nat" where
  "list_deliveries st limit offset rows =
     (let n = (if limit \<le> 0 \<or> 200 < limit then 100 else nat limit);
          hits = filter (\<lambda>d. st = None \<or> st = Some (dvStatus d)) rows
      in (take n (drop offset (sort_key (\<lambda>d. - dvCreatedAt d) hits)), length hits))"

subsection \<open>One delivery\<close>

datatype post_outcome =
    Malformed string
  | Refused string
  | NetError string
  | Status int

datatype delivery_error =
    Cancelled string
  | OtherError string
  | StatusError int

definition is_rejected :: "delivery_error \<Rightarrow> bool" where
  "is_rejected e = (case e of StatusError c \<Rightarrow> 400 \<le> c \<and> c < 500 | _ \<Rightarrow> False)"

definition error_text :: "delivery_error \<Rightarrow> string" where
  "error_text e =
     (case e of Cancelled m \<Rightarrow> m | OtherError m \<Rightarrow> m | StatusError c \<Rightarrow> ''webhook: unexpected status '' @ itoa c)"

record notifier_env =
  noPost :: "nat \<Rightarrow> post_outcome"
  noCancelled :: "nat \<Rightarrow> string option"

text \<open>
  The loop of \<open>Deliver\<close>: \<open>k\<close> attempts are left, the result comes with the waits between attempts.
  What an attempt brings, the guard's refusal included, is the environment's; the targets of chat
  bots, which \<open>im.go\<close> posts to in one attempt, do not come here.
\<close>

fun deliver_loop :: "notifier_env \<Rightarrow> nat \<Rightarrow> int \<Rightarrow> delivery_error option \<Rightarrow> nat \<Rightarrow> delivery_error option \<times> int list" where
  "deliver_loop e attempt backoff lastErr 0 = (lastErr, [])"
| "deliver_loop e attempt backoff lastErr (Suc k) =
     (let waits = (if 0 < attempt then [backoff] else []);
          backoff' = (if 0 < attempt then 2 * backoff else backoff)
      in case (if 0 < attempt then noCancelled e attempt else None) of
           Some c \<Rightarrow> (Some (Cancelled c), [])
         | None \<Rightarrow>
             (case noPost e attempt of
                Malformed m \<Rightarrow> (Some (OtherError m), waits)
              | Refused m \<Rightarrow> (Some (OtherError m), waits)
              | NetError m \<Rightarrow>
                  (let (r, ws) = deliver_loop e (Suc attempt) backoff' (Some (OtherError m)) k in (r, waits @ ws))
              | Status c \<Rightarrow>
                  if 200 \<le> c \<and> c < 300 then (None, waits)
                  else if c < 500 then (Some (StatusError c), waits)
                  else (let (r, ws) = deliver_loop e (Suc attempt) backoff' (Some (StatusError c)) k in (r, waits @ ws))))"

definition policy_retries :: "int \<Rightarrow> nat" where
  "policy_retries r = (if r \<le> 0 then 3 else nat r)"

definition deliver :: "notifier_env \<Rightarrow> int \<Rightarrow> string \<Rightarrow> delivery_error option \<times> int list" where
  "deliver e retries target =
     (if target = '''' then (None, []) else deliver_loop e 0 (second div 2) None (policy_retries retries + 1))"

subsection \<open>The sweep\<close>

text \<open>
  At iteration \<open>k\<close> of a pass: the gateway's clock at the claim and when the outcome is recorded, the
  database's clock at that moment, the decoding error of a payload if any, and what delivering gives.
\<close>

record sweep_env =
  swNow :: "nat \<Rightarrow> time"
  swLater :: "nat \<Rightarrow> time"
  swDB :: "nat \<Rightarrow> time"
  swDecode :: "string \<Rightarrow> string option"
  swDeliver :: "nat \<Rightarrow> string \<Rightarrow> delivery_error option"

definition settle_claim :: "sweep_env \<Rightarrow> nat \<Rightarrow> delivery \<Rightarrow> outbox \<Rightarrow> outbox" where
  "settle_claim e k d rows =
     (let dead = swLater e k - minutes 1 in
      case swDecode e (dvPayload d) of
        Some err \<Rightarrow> mark_failed (dvID d) dead (''unreadable payload: '' @ err) (swDB e k) rows
      | None \<Rightarrow>
          (case swDeliver e k (dvTargetURL d) of
             None \<Rightarrow> mark_delivered (dvID d) (swLater e k) rows
           | Some err \<Rightarrow>
               if is_rejected err \<or> length outboxBackoffs < dvAttempts d
               then mark_failed (dvID d) dead (error_text err) (swDB e k) rows
               else mark_failed (dvID d) (swLater e k + outboxBackoffs ! (dvAttempts d - 1)) (error_text err) (swDB e k) rows))"

text \<open>One iteration: \<open>None\<close> when nothing is due.\<close>

definition sweep_step :: "sweep_env \<Rightarrow> nat \<Rightarrow> outbox \<Rightarrow> outbox option" where
  "sweep_step e k rows =
     (case claim_next (swNow e k) rows of
        (None, _) \<Rightarrow> None
      | (Some d, rows') \<Rightarrow> Some (settle_claim e k d rows'))"

text \<open>The loop has no bound in the code: not returning is \<open>None\<close>. The result counts the iterations.\<close>

partial_function (option) sweep_loop :: "sweep_env \<Rightarrow> nat \<Rightarrow> outbox \<Rightarrow> (nat \<times> outbox) option" where
  "sweep_loop e k rows =
     (case sweep_step e k rows of
        None \<Rightarrow> Some (k, rows)
      | Some rows' \<Rightarrow> sweep_loop e (Suc k) rows')"

definition sweep :: "sweep_env \<Rightarrow> time \<Rightarrow> outbox \<Rightarrow> (nat \<times> outbox) option" where
  "sweep e now rows = sweep_loop e 0 (snd (purge_expired now rows))"


subsection \<open>A pass ends\<close>

text \<open>How often a row can still be claimed in one pass.\<close>

definition claims_left :: "delivery \<Rightarrow> nat" where
  "claims_left d = (if dvStatus d = DeliveryPending then (if dvAttempts d < 7 then 8 - dvAttempts d else 1) else 0)"

definition total_claims :: "outbox \<Rightarrow> nat" where
  "total_claims rows = sum_list (map claims_left rows)"

lemma update_rows_ids [simp]: "(\<And>d. dvID (f d) = dvID d) \<Longrightarrow> map dvID (update_rows P f rows) = map dvID rows"
  by (induction rows) (auto simp: update_rows_def)

lemma update_rows_comp:
  "(\<And>d. dvID (f d) = dvID d) \<Longrightarrow>
     update_rows (\<lambda>d. dvID d = i) g (update_rows (\<lambda>d. dvID d = i) f rows) = update_rows (\<lambda>d. dvID d = i) (g \<circ> f) rows"
  by (simp add: update_rows_def)

lemma total_claims_update:
  "distinct (map dvID rows) \<Longrightarrow> d \<in> set rows \<Longrightarrow>
     total_claims (update_rows (\<lambda>r. dvID r = dvID d) f rows) + claims_left d = total_claims rows + claims_left (f d)"
proof (induction rows)
  case (Cons r rows)
  have other: "update_rows (\<lambda>r. dvID r = dvID d) f rows = rows" if "dvID d \<notin> set (map dvID rows)"
    using that unfolding update_rows_def by (intro map_idI) (metis imageI list.set_map)
  show ?case
  proof (cases "r = d")
    case True
    then show ?thesis using Cons.prems(1) other by (simp add: total_claims_def update_rows_def)
  next
    case False
    then have "d \<in> set rows" "dvID r \<noteq> dvID d" using Cons.prems by auto
    then show ?thesis using Cons.IH Cons.prems(1) by (simp add: total_claims_def update_rows_def)
  qed
qed simp

lemma claim_row_cases:
  assumes "claim_row i now rows = (Some d', rows')"
  obtains d where "d \<in> set rows" "dvID d = i" "due now d" "d' = claimed now d"
    "rows' = update_rows (\<lambda>r. dvID r = dvID d) (claimed now) rows"
  using assms by (auto simp: claim_row_def split: option.splits dest!: find_Some_iff2)

lemma claim_next_cases:
  assumes "claim_next now rows = (Some d', rows')"
  obtains d where "d \<in> set rows" "due now d" "d' = claimed now d"
    "rows' = update_rows (\<lambda>r. dvID r = dvID d) (claimed now) rows"
  using assms by (auto simp: claim_next_def split: list.splits elim!: claim_row_cases)

lemma claim_row_due: "d \<in> set rows \<Longrightarrow> due now d \<Longrightarrow> claim_row (dvID d) now rows \<noteq> (None, rows')"
  by (auto simp: claim_row_def find_None_iff split: option.split)

lemma claim_next_None: "claim_next now rows = (None, rows') \<Longrightarrow> d \<in> set rows \<Longrightarrow> \<not> due now d"
proof
  assume a: "claim_next now rows = (None, rows')" "d \<in> set rows" "due now d"
  then obtain x xs where x: "sort_key dvNextAttemptAt (filter (due now) rows) = x # xs"
    by (metis filter_empty_conv list.exhaust set_empty sort_key_set)
  then have "x \<in> set (filter (due now) rows)" by (metis list.set_intros(1) sort_key_set)
  then show False using a(1) x claim_row_due [of x rows now] by (auto simp: claim_next_def)
qed

definition clocks_agree :: "sweep_env \<Rightarrow> bool" where
  "clocks_agree e = (\<forall>k. swLater e k - minutes 1 \<le> swDB e k)"

text \<open>What an iteration does to the row it claims.\<close>

lemma settle_claim_update:
  assumes "clocks_agree e" "dvStatus d = DeliveryPending"
  obtains g where "settle_claim e k (claimed now d) rows = update_rows (\<lambda>r. dvID r = dvID d) g rows"
    "\<And>r. dvID (g r) = dvID r" "claims_left (g (claimed now d)) < claims_left d"
proof -
  have dead_left: "claims_left ((claimed now d)\<lparr>dvLastError := m, dvNextAttemptAt := swLater e k - minutes 1,
      dvStatus := (if swDB e k < swLater e k - minutes 1 then DeliveryPending else DeliveryFailed)\<rparr>) < claims_left d" for m
  proof -
    have "\<not> swDB e k < swLater e k - minutes 1" using assms(1) by (simp add: clocks_agree_def not_less)
    then show ?thesis using assms(2) by (simp add: claims_left_def)
  qed
  have retry_left: "claims_left ((claimed now d)\<lparr>dvLastError := m, dvNextAttemptAt := t, dvStatus := s\<rparr>) < claims_left d"
    if "dvAttempts (claimed now d) \<le> 7" for m t s
    using assms(2) that by (auto simp: claims_left_def claimed_def)
  have sent_left: "claims_left ((claimed now d)\<lparr>dvStatus := DeliveryDelivered, dvDeliveredAt := t, dvLastError := m\<rparr>) < claims_left d" for t m
    using assms(2) by (auto simp: claims_left_def)
  have i: "dvID (claimed now d) = dvID d" by (simp add: claimed_def)
  have len: "length outboxBackoffs = 7" by (simp add: outboxBackoffs_def)
  consider (dead) m where "settle_claim e k (claimed now d) rows = mark_failed (dvID d) (swLater e k - minutes 1) m (swDB e k) rows"
    | (sent) "settle_claim e k (claimed now d) rows = mark_delivered (dvID d) (swLater e k) rows"
    | (retry) m t where "settle_claim e k (claimed now d) rows = mark_failed (dvID d) t m (swDB e k) rows"
        "dvAttempts (claimed now d) \<le> 7"
  proof (cases "swDecode e (dvPayload (claimed now d))")
    case (Some m)
    then show thesis by (intro dead) (simp add: settle_claim_def i)
  next
    case None
    show thesis
    proof (cases "swDeliver e k (dvTargetURL (claimed now d))")
      case (Some err)
      show thesis
      proof (cases "is_rejected err \<or> 7 < dvAttempts (claimed now d)")
        case True
        then show thesis using None Some by (intro dead) (simp add: settle_claim_def i len)
      next
        case False
        then show thesis using None Some by (intro retry) (simp_all add: settle_claim_def i len)
      qed
    qed (use None in \<open>intro sent, simp add: settle_claim_def i\<close>)
  qed
  then show thesis
  proof cases
    case (dead m)
    show ?thesis by (rule that [OF dead [unfolded mark_failed_def]]) (simp_all add: dead_left)
  next
    case sent
    show ?thesis by (rule that [OF sent [unfolded mark_delivered_def]]) (simp_all add: sent_left)
  next
    case (retry m t)
    show ?thesis by (rule that [OF retry(1) [unfolded mark_failed_def]]) (simp_all add: retry_left [OF retry(2)])
  qed
qed


lemma sweep_step_claims:
  assumes "sweep_step e k rows = Some rows'" "distinct (map dvID rows)" "clocks_agree e"
  shows "total_claims rows' < total_claims rows" "map dvID rows' = map dvID rows"
proof -
  obtain d' rows1 where c: "claim_next (swNow e k) rows = (Some d', rows1)" "rows' = settle_claim e k d' rows1"
    using assms(1) by (auto simp: sweep_step_def split: prod.splits option.splits)
  obtain d where d: "d \<in> set rows" "due (swNow e k) d" "d' = claimed (swNow e k) d"
    "rows1 = update_rows (\<lambda>r. dvID r = dvID d) (claimed (swNow e k)) rows"
    by (rule claim_next_cases [OF c(1)])
  obtain g where g: "rows' = update_rows (\<lambda>r. dvID r = dvID d) g rows1" "\<And>r. dvID (g r) = dvID r"
    "claims_left (g (claimed (swNow e k) d)) < claims_left d"
    using settle_claim_update [OF assms(3)] d(2,3) c(2) by (metis due_def)
  have ids: "dvID (claimed (swNow e k) r) = dvID r" for r by (simp add: claimed_def)
  have r: "rows' = update_rows (\<lambda>r. dvID r = dvID d) (g \<circ> claimed (swNow e k)) rows"
    unfolding g(1) d(4) by (rule update_rows_comp) (rule ids)
  show "map dvID rows' = map dvID rows" by (simp add: r ids g(2))
  show "total_claims rows' < total_claims rows"
    using total_claims_update [OF assms(2) d(1), of "g \<circ> claimed (swNow e k)"] g(3) by (simp add: r)
qed

lemma sweep_loop_ends:
  assumes "distinct (map dvID rows)" "clocks_agree e"
  shows "\<exists>n rows'. sweep_loop e k rows = Some (n, rows') \<and> n \<le> k + total_claims rows \<and>
    (\<forall>d \<in> set rows'. \<not> due (swNow e n) d)"
  using assms(1)
proof (induction "total_claims rows" arbitrary: rows k rule: less_induct)
  case less
  show ?case
  proof (cases "sweep_step e k rows")
    case None
    then have "\<exists>r. claim_next (swNow e k) rows = (None, r)" by (auto simp: sweep_step_def split: prod.splits option.splits)
    then show ?thesis using None claim_next_None [of "swNow e k" rows] by (subst sweep_loop.simps) auto
  next
    case (Some rows1)
    note s = sweep_step_claims [OF Some less.prems assms(2)]
    obtain n rows' where "sweep_loop e (Suc k) rows1 = Some (n, rows')" "n \<le> Suc k + total_claims rows1"
      "\<forall>d \<in> set rows'. \<not> due (swNow e n) d"
      using less.hyps [OF s(1), of "Suc k"] less.prems s(2) by auto
    then show ?thesis using Some s(1) by (subst sweep_loop.simps) auto
  qed
qed

lemma total_claims_bound: "total_claims rows \<le> 8 * length (filter (\<lambda>d. dvStatus d = DeliveryPending) rows)"
proof -
  have one: "claims_left d \<le> (if dvStatus d = DeliveryPending then 8 else 0)" for d by (simp add: claims_left_def)
  show ?thesis
  proof (induction rows)
    case (Cons d rows)
    then show ?case using one [of d] by (simp add: total_claims_def split: if_splits)
  qed (simp add: total_claims_def)
qed

text \<open>C29: a pass of the sweeper ends whatever the consumers answer and however time passes meanwhile,
  after at most eight claims of each pending row, and nothing is due when it ends; so long as the
  database's clock is no more than a minute behind the gateway's.\<close>

theorem sweep_ends:
  assumes "distinct (map dvID rows)" "\<And>k. swLater e k - minutes 1 \<le> swDB e k"
  shows "\<exists>n rows'. sweep e now rows = Some (n, rows') \<and>
    n \<le> 8 * length (filter (\<lambda>d. dvStatus d = DeliveryPending) rows) \<and>
    (\<forall>d \<in> set rows'. \<not> due (swNow e n) d)"
proof -
  let ?rows = "filter (\<lambda>d. \<not> stale now d) rows"
  have "distinct (map dvID ?rows)" by (rule distinct_map_filter [OF assms(1)])
  moreover have "clocks_agree e" using assms(2) by (simp add: clocks_agree_def)
  ultimately obtain n rows' where s: "sweep_loop e 0 ?rows = Some (n, rows')" "n \<le> 0 + total_claims ?rows"
    "\<forall>d \<in> set rows'. \<not> due (swNow e n) d"
    using sweep_loop_ends by blast
  have "filter (\<lambda>d. dvStatus d = DeliveryPending) ?rows = filter (\<lambda>d. dvStatus d = DeliveryPending) rows"
    by (auto simp: stale_def intro: filter_cong)
  then have "n \<le> 8 * length (filter (\<lambda>d. dvStatus d = DeliveryPending) rows)"
    using s(2) total_claims_bound [of ?rows] by simp
  then show ?thesis using s by (simp add: sweep_def purge_expired_def)
qed

definition lost_row :: delivery where
  "lost_row = \<lparr>dvID = ''d'', dvRunID = ''r'', dvSessionID = ''s'', dvUserID = '''', dvTargetURL = ''http://x'', dvPayload = '''',
     dvStatus = DeliveryPending, dvAttempts = 7, dvNextAttemptAt = 0, dvLastError = '''', dvCreatedAt = 0, dvDeliveredAt = None\<rparr>"

definition failing_env :: "int \<Rightarrow> sweep_env" where
  "failing_env skew = \<lparr>swNow = (\<lambda>_. hours 1), swLater = (\<lambda>_. hours 1), swDB = (\<lambda>_. hours 1 - skew), swDecode = (\<lambda>_. None),
     swDeliver = (\<lambda>_ _. Some (StatusError 503))\<rparr>"

lemma sweep_ends_witness:
  "\<exists>n rows'. sweep (failing_env 0) 0 [lost_row] = Some (n, rows') \<and> n \<le> 8 \<and>
     (\<forall>d \<in> set rows'. \<not> due (hours 1) d)"
  using sweep_ends [of "[lost_row]" "failing_env 0" 0]
  by (simp add: failing_env_def lost_row_def minutes_def second_def)

text \<open>
  With a database whose clock is two minutes behind, the row that should have been given up stays
  pending and due at once, and the pass does not return.
\<close>

lemma sweep_diverges_under_skew: "sweep (failing_env (minutes 2)) 0 [lost_row] = None"
proof -
  have step: "\<exists>d'. sweep_step (failing_env (minutes 2)) k [d] = Some [d'] \<and> dvStatus d' = DeliveryPending \<and>
      7 \<le> dvAttempts d' \<and> dvNextAttemptAt d' \<le> hours 1"
    if "dvStatus d = DeliveryPending" "7 \<le> dvAttempts d" "dvNextAttemptAt d \<le> hours 1" for d k
    using that by (simp add: sweep_step_def claim_next_def claim_row_def due_def failing_env_def settle_claim_def mark_failed_def
        update_rows_def claimed_def is_rejected_def outboxBackoffs_def minutes_def second_def Let_def)
  define bad :: "sweep_env \<Rightarrow> outbox \<Rightarrow> bool" where "bad = (\<lambda>e rows. e = failing_env (minutes 2) \<and>
    (\<exists>d. rows = [d] \<and> dvStatus d = DeliveryPending \<and> 7 \<le> dvAttempts d \<and> dvNextAttemptAt d \<le> hours 1))"
  have "\<not> bad e rows" if "sweep_loop e k rows = Some r" for e k rows r
  proof (rule sweep_loop.raw_induct [where P = "\<lambda>e k rows r. \<not> bad e rows", OF _ that])
    fix loop e k rows r
    assume ih: "\<And>e k rows r. loop e k rows = Some r \<Longrightarrow> \<not> bad e rows"
      and body: "(case sweep_step e k rows of None \<Rightarrow> Some (k, rows) | Some rows' \<Rightarrow> loop e (Suc k) rows') = Some r"
    show "\<not> bad e rows"
    proof
      assume "bad e rows"
      then obtain d where e: "e = failing_env (minutes 2)" and d: "rows = [d]" "dvStatus d = DeliveryPending"
        "7 \<le> dvAttempts d" "dvNextAttemptAt d \<le> hours 1" by (auto simp: bad_def)
      obtain d' where d': "sweep_step e k rows = Some [d']" "dvStatus d' = DeliveryPending" "7 \<le> dvAttempts d'"
        "dvNextAttemptAt d' \<le> hours 1" using step [OF d(2-4), of k] unfolding e d(1) by blast
      then have "loop e (Suc k) [d'] = Some r" using body by simp
      from ih [OF this] show False using e d' by (auto simp: bad_def)
    qed
  qed
  moreover have "bad (failing_env (minutes 2)) [lost_row]" by (simp add: bad_def lost_row_def hours_def second_def)
  ultimately have "sweep_loop (failing_env (minutes 2)) 0 [lost_row] = None" by (metis not_None_eq)
  then show ?thesis by (simp add: sweep_def purge_expired_def stale_def lost_row_def)
qed


subsection \<open>Several gateways over one table\<close>

text \<open>
  Sweepers and run hooks of any number of processes, each statement atomic, one clock. A flight is
  a claimed row with the moment of its claim; a worker that dies leaves the table as it is. A
  delivery is bounded by its timeout, which is shorter than the lease: who settles a flight does so
  within the lease.
\<close>

record outbox_world =
  owRows :: outbox
  owClock :: time
  owFlights :: "(id \<times> time) set"

inductive outbox_step :: "outbox_world \<Rightarrow> outbox_world \<Rightarrow> bool" where
  Tick: "owClock w \<le> t \<Longrightarrow> outbox_step w (w\<lparr>owClock := t\<rparr>)"
| Enqueue: "fresh \<notin> dvID ` set (owRows w) \<Longrightarrow>
    outbox_step w (w\<lparr>owRows := snd (enqueue fresh (owClock w) runID sessionID target userID payload (owRows w))\<rparr>)"
| ClaimNext: "claim_next (owClock w) (owRows w) = (Some d, rows) \<Longrightarrow>
    outbox_step w (w\<lparr>owRows := rows, owFlights := insert (dvID d, owClock w) (owFlights w)\<rparr>)"
| ClaimByID: "claim_by_id i (owClock w) (owRows w) = (Some d, rows) \<Longrightarrow>
    outbox_step w (w\<lparr>owRows := rows, owFlights := insert (dvID d, owClock w) (owFlights w)\<rparr>)"
| Delivered: "(i, c) \<in> owFlights w \<Longrightarrow> owClock w < c + claimLease \<Longrightarrow>
    outbox_step w (w\<lparr>owRows := mark_delivered i (owClock w) (owRows w), owFlights := owFlights w - {(i, c)}\<rparr>)"
| Failed: "(i, c) \<in> owFlights w \<Longrightarrow> owClock w < c + claimLease \<Longrightarrow>
    outbox_step w (w\<lparr>owRows := mark_failed i nextAt err (owClock w) (owRows w), owFlights := owFlights w - {(i, c)}\<rparr>)"
| Abandoned: "outbox_step w (w\<lparr>owFlights := owFlights w - {f}\<rparr>)"
| Requeued: "outbox_step w (w\<lparr>owRows := requeue_delivery i (owClock w) (owRows w)\<rparr>)"
| Purged: "outbox_step w (w\<lparr>owRows := snd (purge_expired (owClock w) (owRows w))\<rparr>)"

inductive outbox_reach :: "time \<Rightarrow> outbox_world \<Rightarrow> bool" for start where
  Start: "outbox_reach start \<lparr>owRows = [], owClock = start, owFlights = {}\<rparr>"
| Step: "outbox_reach start w \<Longrightarrow> outbox_step w w' \<Longrightarrow> outbox_reach start w'"

text \<open>A flight within its lease holds its row: pending, and due only when the lease ends.\<close>

definition held :: "outbox_world \<Rightarrow> id \<Rightarrow> time \<Rightarrow> bool" where
  "held w i c = (\<exists>d \<in> set (owRows w). dvID d = i \<and> dvStatus d = DeliveryPending \<and> dvNextAttemptAt d = c + claimLease)"

definition leased :: "outbox_world \<Rightarrow> bool" where
  "leased w =
     (distinct (map dvID (owRows w)) \<and>
      (\<forall>(i, c) \<in> owFlights w. c \<le> owClock w \<and> (owClock w < c + claimLease \<longrightarrow> held w i c)) \<and>
      (\<forall>(i, c) \<in> owFlights w. \<forall>(j, c') \<in> owFlights w. i = j \<longrightarrow> c < c' \<longrightarrow> c + claimLease \<le> c'))"

lemma leasedD:
  assumes "leased w"
  shows "distinct (map dvID (owRows w))" "(i, c) \<in> owFlights w \<Longrightarrow> c \<le> owClock w"
    "(i, c) \<in> owFlights w \<Longrightarrow> owClock w < c + claimLease \<Longrightarrow> held w i c"
    "(i, c) \<in> owFlights w \<Longrightarrow> (i, c') \<in> owFlights w \<Longrightarrow> c < c' \<Longrightarrow> c + claimLease \<le> c'"
  using assms by (auto simp: leased_def)

lemma leasedI:
  assumes "distinct (map dvID (owRows w))" "\<And>i c. (i, c) \<in> owFlights w \<Longrightarrow> c \<le> owClock w"
    "\<And>i c. (i, c) \<in> owFlights w \<Longrightarrow> owClock w < c + claimLease \<Longrightarrow> held w i c"
    "\<And>i c c'. (i, c) \<in> owFlights w \<Longrightarrow> (i, c') \<in> owFlights w \<Longrightarrow> c < c' \<Longrightarrow> c + claimLease \<le> c'"
  shows "leased w"
  using assms by (auto simp: leased_def)

lemma same_row: "distinct (map dvID rows) \<Longrightarrow> d \<in> set rows \<Longrightarrow> r \<in> set rows \<Longrightarrow> dvID d = dvID r \<Longrightarrow> d = r"
  by (auto simp: distinct_map inj_on_def)

lemma in_update_rows: "d \<in> set (update_rows P f rows) \<longleftrightarrow> (\<exists>r \<in> set rows. d = (if P r then f r else r))"
  by (auto simp: update_rows_def)

lemma held_update:
  "held w i c \<Longrightarrow> (\<And>d. dvID d = i \<Longrightarrow> dvStatus d = DeliveryPending \<Longrightarrow> \<not> P d) \<Longrightarrow> owRows w' = update_rows P f (owRows w) \<Longrightarrow> held w' i c"
  by (force simp: held_def in_update_rows)

text \<open>A claim at \<open>now\<close> finds the row of no flight that is within its lease.\<close>

lemma claim_leased:
  assumes "leased w" "d \<in> set (owRows w)" "due (owClock w) d"
  shows "leased (w\<lparr>owRows := update_rows (\<lambda>r. dvID r = dvID d) (claimed (owClock w)) (owRows w),
    owFlights := insert (dvID d, owClock w) (owFlights w)\<rparr>)"
proof -
  note l = leasedD [OF assms(1)]
  have expired: "c + claimLease \<le> owClock w" if f: "(dvID d, c) \<in> owFlights w" for c
  proof (rule ccontr)
    assume "\<not> c + claimLease \<le> owClock w"
    then have "held w (dvID d) c" using l(3) [OF f] by simp
    then obtain r where r: "r \<in> set (owRows w)" "dvID r = dvID d" "dvNextAttemptAt r = c + claimLease" by (auto simp: held_def)
    have "d = r" by (rule same_row [OF l(1) assms(2) r(1)]) (simp add: r(2))
    then show False using r(3) assms(3) \<open>\<not> c + claimLease \<le> owClock w\<close> by (auto simp: due_def)
  qed
  show ?thesis
  proof (rule leasedI)
    show "distinct (map dvID (owRows (w\<lparr>owRows := update_rows (\<lambda>r. dvID r = dvID d) (claimed (owClock w)) (owRows w),
        owFlights := insert (dvID d, owClock w) (owFlights w)\<rparr>)))"
      using l(1) by (simp add: claimed_def)
    fix i c
    assume f: "(i, c) \<in> owFlights (w\<lparr>owRows := update_rows (\<lambda>r. dvID r = dvID d) (claimed (owClock w)) (owRows w),
        owFlights := insert (dvID d, owClock w) (owFlights w)\<rparr>)"
    then show "c \<le> owClock (w\<lparr>owRows := update_rows (\<lambda>r. dvID r = dvID d) (claimed (owClock w)) (owRows w),
        owFlights := insert (dvID d, owClock w) (owFlights w)\<rparr>)" using l(2) by auto
    show "held (w\<lparr>owRows := update_rows (\<lambda>r. dvID r = dvID d) (claimed (owClock w)) (owRows w),
        owFlights := insert (dvID d, owClock w) (owFlights w)\<rparr>) i c"
      if "owClock (w\<lparr>owRows := update_rows (\<lambda>r. dvID r = dvID d) (claimed (owClock w)) (owRows w),
        owFlights := insert (dvID d, owClock w) (owFlights w)\<rparr>) < c + claimLease"
    proof (cases "i = dvID d")
      case True
      then have "c = owClock w" using f that expired by fastforce
      with True assms(2,3) show ?thesis
        unfolding held_def by (intro bexI [of _ "claimed (owClock w) d"]) (auto simp: in_update_rows claimed_def due_def)
    next
      case False
      then have "held w i c" using f that l(3) by auto
      then show ?thesis by (rule held_update [where P = "\<lambda>r. dvID r = dvID d"]) (use False in auto)
    qed
    fix c'
    assume "(i, c') \<in> owFlights (w\<lparr>owRows := update_rows (\<lambda>r. dvID r = dvID d) (claimed (owClock w)) (owRows w),
        owFlights := insert (dvID d, owClock w) (owFlights w)\<rparr>)" "c < c'"
    then show "c + claimLease \<le> c'" using f l(2,4) expired by fastforce
  qed
qed


text \<open>A change of rows that no flight still in its lease holds, and flights only taken away.\<close>

lemma leased_update:
  assumes "leased w" "owRows w' = update_rows P f (owRows w)" "\<And>d. dvID (f d) = dvID d" "owFlights w' \<subseteq> owFlights w"
    and "owClock w' = owClock w"
    and "\<And>i c d. (i, c) \<in> owFlights w' \<Longrightarrow> owClock w < c + claimLease \<Longrightarrow> dvID d = i \<Longrightarrow> dvStatus d = DeliveryPending \<Longrightarrow> \<not> P d"
  shows "leased w'"
proof (rule leasedI)
  note l = leasedD [OF assms(1)]
  show "distinct (map dvID (owRows w'))" using l(1) assms(2,3) by simp
  fix i c assume f: "(i, c) \<in> owFlights w'"
  then have f': "(i, c) \<in> owFlights w" using assms(4) by auto
  then show "c \<le> owClock w'" using l(2) assms(5) by simp
  show "held w' i c" if "owClock w' < c + claimLease"
    by (rule held_update [OF l(3) [OF f'] _ assms(2)]) (use that assms(5,6) f in auto)
  fix c' assume "(i, c') \<in> owFlights w'" "c < c'"
  then show "c + claimLease \<le> c'" using l(4) [OF f'] assms(4) by auto
qed

lemma settle_leased:
  assumes "leased w" "(i, c) \<in> owFlights w" "owClock w < c + claimLease" "\<And>d. dvID (f d) = dvID d"
  shows "leased (w\<lparr>owRows := update_rows (\<lambda>d. dvID d = i) f (owRows w), owFlights := owFlights w - {(i, c)}\<rparr>)"
proof (rule leased_update [OF assms(1), where P = "\<lambda>d. dvID d = i" and f = f])
  note l = leasedD [OF assms(1)]
  fix j c' d
  assume "(j, c') \<in> owFlights (w\<lparr>owRows := update_rows (\<lambda>d. dvID d = i) f (owRows w), owFlights := owFlights w - {(i, c)}\<rparr>)"
    and c': "owClock w < c' + claimLease" and "dvID d = j"
  then have f: "(j, c') \<in> owFlights w" "(j, c') \<noteq> (i, c)" by auto
  show "\<not> dvID d = i"
  proof
    assume "dvID d = i"
    then have "j = i" using \<open>dvID d = j\<close> by simp
    then have "c < c' \<or> c' < c" using f(2) by auto
    then show False
      using l(4) [OF assms(2), of c'] l(4) [of i c' c] f(1) assms(2,3) c' l(2) \<open>j = i\<close> by fastforce
  qed
qed (use assms(4) in auto)

lemma outbox_step_leased: "outbox_step w w' \<Longrightarrow> leased w \<Longrightarrow> leased w'"
proof (induction rule: outbox_step.induct)
  case (Tick w t)
  then show ?case by (force simp: leased_def held_def)
next
  case (Enqueue fresh w runID sessionID target userID payload)
  then show ?case by (auto simp: leased_def held_def enqueue_def Let_def)
next
  case (ClaimNext w d rows)
  from ClaimNext(1) obtain r where r: "r \<in> set (owRows w)" "due (owClock w) r" "d = claimed (owClock w) r"
    "rows = update_rows (\<lambda>x. dvID x = dvID r) (claimed (owClock w)) (owRows w)" by (rule claim_next_cases)
  then show ?case using claim_leased [OF ClaimNext(2) r(1,2)] by (simp add: claimed_def)
next
  case (ClaimByID i w d rows)
  from ClaimByID(1) [unfolded claim_by_id_def] obtain r where r: "r \<in> set (owRows w)" "due (owClock w) r" "d = claimed (owClock w) r"
    "rows = update_rows (\<lambda>x. dvID x = dvID r) (claimed (owClock w)) (owRows w)" by (rule claim_row_cases)
  then show ?case using claim_leased [OF ClaimByID(2) r(1,2)] by (simp add: claimed_def)
next
  case (Delivered i c w)
  then show ?case unfolding mark_delivered_def by (intro settle_leased) auto
next
  case (Failed i c w nextAt err)
  then show ?case unfolding mark_failed_def by (intro settle_leased) auto
next
  case (Abandoned w f)
  then show ?case by (auto simp: leased_def held_def)
next
  case (Requeued w i)
  show ?case
    by (rule leased_update [OF Requeued, where P = "\<lambda>d. dvID d = i \<and> dvStatus d = DeliveryFailed"
        and f = "\<lambda>d. d\<lparr>dvStatus := DeliveryPending, dvAttempts := 0, dvLastError := '''', dvNextAttemptAt := owClock w\<rparr>"])
      (auto simp: requeue_delivery_def)
next
  case (Purged w)
  note l = leasedD [OF Purged]
  have "held (w\<lparr>owRows := snd (purge_expired (owClock w) (owRows w))\<rparr>) i c" if "held w i c" for i c
    using that by (force simp: held_def purge_expired_def stale_def)
  then show ?case using l by (intro leasedI) (auto simp: purge_expired_def distinct_map_filter)
qed

lemma outbox_reach_leased: "outbox_reach start w \<Longrightarrow> leased w"
proof (induction rule: outbox_reach.induct)
  case Start
  then show ?case by (simp add: leased_def)
qed (rule outbox_step_leased)

lemma settle_keeps_delivered:
  assumes "leased w" "(i, c) \<in> owFlights w" "owClock w < c + claimLease"
    and "d \<in> set (owRows w)" "dvStatus d = DeliveryDelivered"
  shows "d \<in> set (update_rows (\<lambda>d. dvID d = i) f (owRows w))"
proof -
  obtain r where "r \<in> set (owRows w)" "dvID r = i" "dvStatus r = DeliveryPending"
    using leasedD(3) [OF assms(1-3)] by (auto simp: held_def)
  then have "dvID d \<noteq> i" using same_row [OF leasedD(1) [OF assms(1)] assms(4)] assms(5) by fastforce
  then show ?thesis using assms(4) by (auto simp: in_update_rows)
qed

lemma claim_keeps_delivered:
  assumes "leased w" "r \<in> set (owRows w)" "due now r" "d \<in> set (owRows w)" "dvStatus d = DeliveryDelivered"
  shows "d \<in> set (update_rows (\<lambda>x. dvID x = dvID r) f (owRows w))"
proof -
  have "dvID d \<noteq> dvID r" using same_row [OF leasedD(1) [OF assms(1)] assms(4,2)] assms(3,5) by (auto simp: due_def)
  then show ?thesis using assms(4) by (auto simp: in_update_rows)
qed

text \<open>C30: sweepers and run hooks of any number of processes, on one clock, each settling its claim
  within the lease or dying: while a claim is unsettled and within its lease, its row is pending and
  not due, and it is the only such claim of its delivery, so nobody else can take the delivery up
  meanwhile (once a failure is recorded it may be claimed again, before the lease would have ended);
  and what has been delivered stays delivered until it is purged.\<close>

theorem outbox_single_sender:
  assumes "outbox_reach start w"
  shows "(\<forall>i c. (i, c) \<in> owFlights w \<longrightarrow> owClock w < c + claimLease \<longrightarrow>
       (\<forall>d \<in> set (owRows w). dvID d = i \<longrightarrow> dvStatus d = DeliveryPending \<and> \<not> due (owClock w) d) \<and>
       (\<forall>c'. (i, c') \<in> owFlights w \<longrightarrow> owClock w < c' + claimLease \<longrightarrow> c' = c)) \<and>
    (\<forall>w' d. outbox_step w w' \<longrightarrow> d \<in> set (owRows w) \<longrightarrow> dvStatus d = DeliveryDelivered \<longrightarrow>
       d \<in> set (owRows w') \<or> stale (owClock w) d)"
proof (intro conjI allI impI)
  note l = outbox_reach_leased [OF assms]
  fix i c
  assume f: "(i, c) \<in> owFlights w" and live: "owClock w < c + claimLease"
  obtain r where r: "r \<in> set (owRows w)" "dvID r = i" "dvStatus r = DeliveryPending" "dvNextAttemptAt r = c + claimLease"
    using leasedD(3) [OF l f live] by (auto simp: held_def)
  show "\<forall>d \<in> set (owRows w). dvID d = i \<longrightarrow> dvStatus d = DeliveryPending \<and> \<not> due (owClock w) d"
    using same_row [OF leasedD(1) [OF l] _ r(1)] r live by (fastforce simp: due_def)
  fix c' assume f': "(i, c') \<in> owFlights w" and live': "owClock w < c' + claimLease"
  show "c' = c"
    using leasedD(4) [OF l f f'] leasedD(4) [OF l f' f] leasedD(2) [OF l f] leasedD(2) [OF l f'] live live' by linarith
next
  note l = outbox_reach_leased [OF assms]
  fix w' d
  assume "outbox_step w w'" "d \<in> set (owRows w)" "dvStatus d = DeliveryDelivered"
  then show "d \<in> set (owRows w') \<or> stale (owClock w) d"
    using l
  proof (induction rule: outbox_step.induct)
    case (ClaimNext w x rows)
    from ClaimNext(1) obtain r where "r \<in> set (owRows w)" "due (owClock w) r"
      "rows = update_rows (\<lambda>x. dvID x = dvID r) (claimed (owClock w)) (owRows w)" by (rule claim_next_cases)
    then show ?case using ClaimNext claim_keeps_delivered by simp
  next
    case (ClaimByID i w x rows)
    from ClaimByID(1) [unfolded claim_by_id_def] obtain r where "r \<in> set (owRows w)" "due (owClock w) r"
      "rows = update_rows (\<lambda>x. dvID x = dvID r) (claimed (owClock w)) (owRows w)" by (rule claim_row_cases)
    then show ?case using ClaimByID claim_keeps_delivered by simp
  next
    case (Delivered i c w)
    then show ?case using settle_keeps_delivered by (simp add: mark_delivered_def)
  next
    case (Failed i c w nextAt err)
    then show ?case using settle_keeps_delivered by (simp add: mark_failed_def)
  next
    case (Requeued w i)
    then show ?case by (force simp: requeue_delivery_def in_update_rows)
  qed (auto simp: enqueue_def purge_expired_def Let_def)
qed

text \<open>
  Two deaths and a second sweeper: the row claimed at 0 is claimed again when its lease has ended.
\<close>

lemma outbox_single_sender_witness:
  "\<exists>w. outbox_reach 0 w \<and> owFlights w = {(''d'', 0), (''d'', claimLease)} \<and>
     (\<forall>d \<in> set (owRows w). dvID d = ''d'' \<longrightarrow> \<not> due claimLease d)"
proof -
  let ?w0 = "\<lparr>owRows = [], owClock = 0, owFlights = {}\<rparr>"
  let ?w1 = "?w0\<lparr>owRows := snd (enqueue ''d'' 0 ''r'' ''s'' ''t'' '''' '''' [])\<rparr>"
  obtain d1 rows1 where c1: "claim_next 0 (owRows ?w1) = (Some d1, rows1)" "dvID d1 = ''d''"
    "rows1 = [d1]" "dvStatus d1 = DeliveryPending" "dvNextAttemptAt d1 = claimLease"
    by (simp add: claim_next_def claim_row_def enqueue_def due_def claimed_def update_rows_def Let_def)
  let ?w2 = "?w1\<lparr>owRows := rows1, owFlights := {(''d'', 0)}\<rparr>"
  let ?w3 = "?w2\<lparr>owClock := claimLease\<rparr>"
  obtain d2 rows2 where c2: "claim_next claimLease (owRows ?w3) = (Some d2, rows2)" "dvID d2 = ''d''"
    by (simp add: claim_next_def claim_row_def due_def claimed_def update_rows_def c1)
  let ?w4 = "?w3\<lparr>owRows := rows2, owFlights := {(''d'', claimLease), (''d'', 0)}\<rparr>"
  have "outbox_reach 0 ?w1"
    using outbox_reach.Step [OF outbox_reach.Start outbox_step.Enqueue [of "''d''" ?w0 "''r''" "''s''" "''t''" "''''" "''''"]] by simp
  from outbox_reach.Step [OF this outbox_step.ClaimNext [of ?w1 d1 rows1]] have "outbox_reach 0 ?w2"
    using c1 by simp
  from outbox_reach.Step [OF this outbox_step.Tick [of ?w2 claimLease]] have "outbox_reach 0 ?w3"
    by (simp add: claimLease_def minutes_def second_def)
  from outbox_reach.Step [OF this outbox_step.ClaimNext [of ?w3 d2 rows2]] have "outbox_reach 0 ?w4"
    using c2 by simp
  with outbox_single_sender [OF this] show ?thesis by (intro exI [of _ ?w4]) (simp add: claimLease_def minutes_def second_def insert_commute)
qed


text \<open>
  The bound by the lease is needed: settling is not conditional on the claim, so a worker that
  records a failure late puts a delivered row back into the queue.
\<close>

lemma late_failure_resurrects:
  "d \<in> set rows \<Longrightarrow> dvStatus d = DeliveryDelivered \<Longrightarrow> dbNow < nextAt \<Longrightarrow>
     \<exists>d' \<in> set (mark_failed (dvID d) nextAt err dbNow rows). dvID d' = dvID d \<and> dvStatus d' = DeliveryPending"
  unfolding mark_failed_def
  by (rule bexI [of _ "d\<lparr>dvLastError := err, dvNextAttemptAt := nextAt, dvStatus := DeliveryPending\<rparr>"])
    (auto simp: update_rows_def intro!: image_eqI [of _ _ d])

subsection \<open>One delivery, attempt by attempt\<close>

text \<open>An attempt after which the loop goes on.\<close>

definition goes_on :: "post_outcome \<Rightarrow> bool" where
  "goes_on p = (case p of NetError _ \<Rightarrow> True | Status c \<Rightarrow> 500 \<le> c | _ \<Rightarrow> False)"

definition accepted :: "post_outcome \<Rightarrow> bool" where
  "accepted p = (case p of Status c \<Rightarrow> 200 \<le> c \<and> c < 300 | _ \<Rightarrow> False)"

lemma deliver_loop_success:
  "(\<And>i. noCancelled e i = None) \<Longrightarrow> lastErr \<noteq> None \<or> 0 < k \<Longrightarrow>
     fst (deliver_loop e a backoff lastErr k) = None \<longleftrightarrow>
       (\<exists>j < k. accepted (noPost e (a + j)) \<and> (\<forall>i < j. goes_on (noPost e (a + i))))"
proof (induction k arbitrary: a backoff lastErr)
  case (Suc k)
  have ex: "(\<exists>j < Suc k. accepted (noPost e (a + j)) \<and> (\<forall>i < j. goes_on (noPost e (a + i)))) \<longleftrightarrow>
      accepted (noPost e a) \<or> (goes_on (noPost e a) \<and>
        (\<exists>j < k. accepted (noPost e (Suc a + j)) \<and> (\<forall>i < j. goes_on (noPost e (Suc a + i)))))"
    (is "?L \<longleftrightarrow> ?R")
  proof
    assume ?L
    then obtain j where j: "j < Suc k" "accepted (noPost e (a + j))" "\<And>i. i < j \<Longrightarrow> goes_on (noPost e (a + i))" by blast
    show ?R
    proof (cases j)
      case (Suc m)
      then show ?thesis using j j(3) [of 0] j(3) [of "Suc _"] by (intro disjI2 conjI exI [of _ m]) auto
    qed (use j in simp)
  next
    assume ?R
    then show ?L
    proof (elim disjE conjE exE)
      fix j assume j: "goes_on (noPost e a)" "j < k" "accepted (noPost e (Suc a + j))" "\<forall>i < j. goes_on (noPost e (Suc a + i))"
      then have "goes_on (noPost e (a + i))" if "i < Suc j" for i using that by (cases i) auto
      then show ?L using j by (intro exI [of _ "Suc j"]) auto
    qed auto
  qed
  have IH: "(fst (deliver_loop e (Suc a) b (Some err) k) = None) =
      (\<exists>j < k. accepted (noPost e (Suc a + j)) \<and> (\<forall>i < j. goes_on (noPost e (Suc a + i))))" for b err
    by (rule Suc.IH) (use Suc.prems in simp_all)
  have step: "(fst (deliver_loop e a backoff lastErr (Suc k)) = None) =
      (case noPost e a of Malformed m \<Rightarrow> False | Refused m \<Rightarrow> False
       | NetError m \<Rightarrow> fst (deliver_loop e (Suc a) (if 0 < a then 2 * backoff else backoff) (Some (OtherError m)) k) = None
       | Status c \<Rightarrow> 200 \<le> c \<and> c < 300 \<or>
           500 \<le> c \<and> fst (deliver_loop e (Suc a) (if 0 < a then 2 * backoff else backoff) (Some (StatusError c)) k) = None)"
    by (cases "a = 0"; cases "noPost e a") (auto simp: Suc.prems(1) Let_def case_prod_unfold)
  show ?case
  proof (cases "noPost e a")
    case (Status c)
    then have "accepted (noPost e a) = (200 \<le> c \<and> c < 300)" "goes_on (noPost e a) = (500 \<le> c)"
      by (simp_all add: accepted_def goes_on_def)
    then show ?thesis unfolding ex step using Status by (simp add: IH del: add_Suc)
  next
    case (NetError m)
    then have "\<not> accepted (noPost e a)" "goes_on (noPost e a)" by (simp_all add: accepted_def goes_on_def)
    then show ?thesis unfolding ex step using NetError by (simp add: IH del: add_Suc)
  qed (simp_all only: ex step, simp_all add: accepted_def goes_on_def)
qed simp

end
