(* ===== verification/Schedule.thy ===== *)
theory Schedule
  imports GoJson
begin

section \<open>Scheduled tasks\<close>

text \<open>
  \<open>schedule/task.go\<close>, the definition of a task, and \<open>schedule/store.go\<close>, its two stores. A store is
  a map from ids to tasks with the sessions each task produced; the store in memory is one function
  per method, the one on Postgres one function per SQL statement, each of them one step. \<open>Claim\<close> on
  Postgres is two statements with the computation of the next occurrence between them: the
  interleaving of several triggers is the step relation \<open>claim_step\<close>. The cron parser, the time-zone
  database and the URL parser are parameters. An instant is its nanoseconds since 1970; the zero
  \<open>Time\<close> a schedule without an occurrence gives is \<open>None\<close>.
\<close>

definition MultitaskReject :: string where "MultitaskReject = ''reject''"
definition MultitaskInterrupt :: string where "MultitaskInterrupt = ''interrupt''"
definition MultitaskEnqueue :: string where "MultitaskEnqueue = ''enqueue''"
definition OnRunKeep :: string where "OnRunKeep = ''keep''"
definition OnRunDelete :: string where "OnRunDelete = ''delete''"

record task =
  tkID :: id
  tkUserID :: id
  tkTeamID :: id
  tkAgentDefName :: string
  tkPrompt :: string
  tkToolWhitelist :: "string list"
  tkCron :: string
  tkTimezone :: string
  tkTargetSessionID :: id
  tkOnRunCompleted :: string
  tkMultitask :: string
  tkWebhookURL :: string
  tkEndTime :: "time option"
  tkEnabled :: bool
  tkNextRunAt :: time
  tkLastRunAt :: "time option"
  tkMetadata :: jobj
  tkCreatedAt :: time
  tkUpdatedAt :: time

datatype prompt_origin = SourcePrompt | SourceAgentDef

definition prompt_source :: "task \<Rightarrow> prompt_origin" where
  "prompt_source t = (if tkAgentDefName t \<noteq> '''' then SourceAgentDef else SourcePrompt)"

text \<open>What \<open>ErrInvalid\<close> is wrapped with: one constructor per message, with the values it is formatted from.\<close>

datatype invalid_reason =
    NoPromptSource
  | BadTimezone string string
  | BadCron string string
  | UnknownMultitask string
  | UnknownOnRunCompleted string
  | BadWebhookURL
  | EndTimePassed
  | NeverOccurs string

datatype sched_error = ErrInvalid invalid_reason | ErrNotFound

text \<open>
  The libraries: the error of a time zone and of a cron expression, if any, the first occurrence
  strictly after an instant, and the scheme and host of a URL.
\<close>

record cron_env =
  ceZone :: "string \<Rightarrow> string option"
  ceParse :: "string \<Rightarrow> string option"
  ceNext :: "string \<Rightarrow> string \<Rightarrow> time \<Rightarrow> time option"
  ceURL :: "string \<Rightarrow> (string \<times> string) option"

subsection \<open>A task\<close>

definition zone_of :: "task \<Rightarrow> string" where
  "zone_of t = (if tkTimezone t = '''' then ''UTC'' else tkTimezone t)"

definition location_error :: "cron_env \<Rightarrow> task \<Rightarrow> sched_error option" where
  "location_error e t = map_option (\<lambda>m. ErrInvalid (BadTimezone (tkTimezone t) m)) (ceZone e (zone_of t))"

text \<open>\<open>Schedule\<close>: its error, or the function that gives the next occurrence.\<close>

definition schedule :: "cron_env \<Rightarrow> task \<Rightarrow> sched_error + (time \<Rightarrow> time option)" where
  "schedule e t =
     (case location_error e t of
        Some err \<Rightarrow> Inl err
      | None \<Rightarrow>
          (case ceParse e (tkCron t) of
             Some m \<Rightarrow> Inl (ErrInvalid (BadCron (tkCron t) m))
           | None \<Rightarrow> Inr (ceNext e (tkCron t) (zone_of t))))"

definition valid_webhook_url :: "cron_env \<Rightarrow> string \<Rightarrow> bool" where
  "valid_webhook_url e u =
     (case ceURL e u of
        None \<Rightarrow> False
      | Some (scheme, host) \<Rightarrow> (scheme = ''http'' \<or> scheme = ''https'') \<and> host \<noteq> '''')"

definition validate_task :: "cron_env \<Rightarrow> task \<Rightarrow> sched_error option" where
  "validate_task e t =
     (if tkPrompt t = '''' \<and> tkAgentDefName t = ''''
      then Some (ErrInvalid NoPromptSource)
      else case schedule e t of
        Inl err \<Rightarrow> Some err
      | Inr _ \<Rightarrow>
          if tkMultitask t \<notin> {MultitaskReject, MultitaskInterrupt, MultitaskEnqueue}
          then Some (ErrInvalid (UnknownMultitask (tkMultitask t)))
          else if tkOnRunCompleted t \<notin> {OnRunKeep, OnRunDelete}
          then Some (ErrInvalid (UnknownOnRunCompleted (tkOnRunCompleted t)))
          else if tkWebhookURL t \<noteq> '''' \<and> \<not> valid_webhook_url e (tkWebhookURL t)
          then Some (ErrInvalid BadWebhookURL)
          else None)"

definition validate_create :: "cron_env \<Rightarrow> time \<Rightarrow> task \<Rightarrow> sched_error option" where
  "validate_create e now t =
     (case validate_task e t of
        Some err \<Rightarrow> Some err
      | None \<Rightarrow>
          (case tkEndTime t of
             Some f \<Rightarrow> if now < f then None else Some (ErrInvalid EndTimePassed)
           | None \<Rightarrow> None))"

definition next_after :: "cron_env \<Rightarrow> task \<Rightarrow> time \<Rightarrow> sched_error + time" where
  "next_after e t from =
     (case schedule e t of
        Inl err \<Rightarrow> Inl err
      | Inr next \<Rightarrow>
          (case next from of
             None \<Rightarrow> Inl (ErrInvalid (NeverOccurs (tkCron t)))
           | Some n \<Rightarrow> Inr n))"

definition epochStart :: time where "epochStart = 0"

definition task_due :: "time \<Rightarrow> task \<Rightarrow> bool" where
  "task_due now t =
     (tkEnabled t \<and> \<not> (case tkEndTime t of Some f \<Rightarrow> f < now | None \<Rightarrow> False) \<and>
      epochStart < tkNextRunAt t \<and> tkNextRunAt t \<le> now)"

subsection \<open>The store in memory\<close>

type_synonym task_table = "(id, task) gomap"

record task_store =
  tsTasks :: task_table
  tsSessions :: "(id, id list) gomap"

definition new_task_store :: task_store where
  "new_task_store = \<lparr>tsTasks = [], tsSessions = []\<rparr>"

text \<open>The three readings of the clock \<open>Create\<close> makes are \<open>n1\<close>, \<open>n2\<close> and \<open>n3\<close>.\<close>

definition create_task :: "cron_env \<Rightarrow> id \<Rightarrow> time \<Rightarrow> time \<Rightarrow> time \<Rightarrow> task \<Rightarrow> task_store \<Rightarrow> (sched_error + task) \<times> task_store" where
  "create_task e fresh n1 n2 n3 t m =
     (case validate_create e n1 t of
        Some err \<Rightarrow> (Inl err, m)
      | None \<Rightarrow>
          (case next_after e t n2 of
             Inl err \<Rightarrow> (Inl err, m)
           | Inr next \<Rightarrow>
               let t' = t\<lparr>tkID := fresh, tkNextRunAt := next, tkCreatedAt := n3, tkUpdatedAt := n3,
                          tkOnRunCompleted := (if tkOnRunCompleted t = '''' then OnRunKeep else tkOnRunCompleted t),
                          tkMultitask := (if tkMultitask t = '''' then MultitaskReject else tkMultitask t),
                          tkTimezone := zone_of t\<rparr>
               in (Inr t', m\<lparr>tsTasks := mput fresh t' (tsTasks m)\<rparr>)))"

definition get_task :: "id \<Rightarrow> task_table \<Rightarrow> sched_error + task" where
  "get_task i tab = (case mget tab i of None \<Rightarrow> Inl ErrNotFound | Some t \<Rightarrow> Inr t)"

definition update_task :: "cron_env \<Rightarrow> time \<Rightarrow> time \<Rightarrow> task \<Rightarrow> task_store \<Rightarrow> (sched_error + task) \<times> task_store" where
  "update_task e n1 n2 t m =
     (case mget (tsTasks m) (tkID t) of
        None \<Rightarrow> (Inl ErrNotFound, m)
      | Some cur \<Rightarrow>
          (case validate_task e t of
             Some err \<Rightarrow> (Inl err, m)
           | None \<Rightarrow>
               (case next_after e t n1 of
                  Inl err \<Rightarrow> (Inl err, m)
                | Inr next \<Rightarrow>
                    let t' = t\<lparr>tkNextRunAt := next, tkCreatedAt := tkCreatedAt cur, tkUpdatedAt := n2\<rparr>
                    in (Inr t', m\<lparr>tsTasks := mput (tkID t) t' (tsTasks m)\<rparr>))))"

definition delete_task :: "id \<Rightarrow> task_store \<Rightarrow> sched_error option \<times> task_store" where
  "delete_task i m =
     (case mget (tsTasks m) i of
        None \<Rightarrow> (Some ErrNotFound, m)
      | Some _ \<Rightarrow> (None, m\<lparr>tsTasks := mdel i (tsTasks m), tsSessions := mdel i (tsSessions m)\<rparr>))"

definition set_enabled :: "id \<Rightarrow> bool \<Rightarrow> time \<Rightarrow> task_store \<Rightarrow> sched_error option \<times> task_store" where
  "set_enabled i b now m =
     (case mget (tsTasks m) i of
        None \<Rightarrow> (Some ErrNotFound, m)
      | Some t \<Rightarrow> (None, m\<lparr>tsTasks := mput i (t\<lparr>tkEnabled := b, tkUpdatedAt := now\<rparr>) (tsTasks m)\<rparr>))"

definition tasks_for_user :: "id \<Rightarrow> task_store \<Rightarrow> task list" where
  "tasks_for_user u m = filter (\<lambda>t. tkUserID t = u) (mvals (tsTasks m))"

definition list_due :: "time \<Rightarrow> task_store \<Rightarrow> task list" where
  "list_due now m = filter (task_due now) (mvals (tsTasks m))"

definition claim_task :: "cron_env \<Rightarrow> id \<Rightarrow> time \<Rightarrow> task_store \<Rightarrow> (sched_error + task) \<times> task_store" where
  "claim_task e i now m =
     (case mget (tsTasks m) i of
        None \<Rightarrow> (Inl ErrNotFound, m)
      | Some t \<Rightarrow>
          if \<not> task_due now t then (Inl ErrNotFound, m)
          else case next_after e t now of
            Inl err \<Rightarrow> (Inl err, m)
          | Inr next \<Rightarrow>
              let t' = t\<lparr>tkLastRunAt := Some now, tkNextRunAt := next, tkUpdatedAt := now\<rparr>
              in (Inr t', m\<lparr>tsTasks := mput i t' (tsTasks m)\<rparr>))"

definition requeue_due_at :: "task \<Rightarrow> time \<Rightarrow> task_store \<Rightarrow> sched_error option \<times> task_store" where
  "requeue_due_at t at m =
     (case mget (tsTasks m) (tkID t) of
        None \<Rightarrow> (Some ErrNotFound, m)
      | Some cur \<Rightarrow>
          if \<not> tkEnabled cur \<or> tkNextRunAt cur \<noteq> tkNextRunAt t then (Some ErrNotFound, m)
          else if (case tkEndTime cur of Some f \<Rightarrow> \<not> at < f | None \<Rightarrow> False) then (Some ErrNotFound, m)
          else (None, m\<lparr>tsTasks := mput (tkID t) (cur\<lparr>tkNextRunAt := at, tkUpdatedAt := at\<rparr>) (tsTasks m)\<rparr>))"

definition requeue_due :: "task \<Rightarrow> time \<Rightarrow> task_store \<Rightarrow> sched_error option \<times> task_store" where
  "requeue_due t now m = requeue_due_at t now m"

definition task_sessions :: "id \<Rightarrow> task_store \<Rightarrow> id list" where
  "task_sessions i m = mlist (tsSessions m) i"

definition end_sessions :: "id \<Rightarrow> task_store \<Rightarrow> nat \<times> task_store" where
  "end_sessions i m = (length (mlist (tsSessions m) i), m\<lparr>tsSessions := mdel i (tsSessions m)\<rparr>)"

definition record_session :: "id \<Rightarrow> id \<Rightarrow> task_store \<Rightarrow> task_store" where
  "record_session i s m = m\<lparr>tsSessions := mput i (s # mlist (tsSessions m) i) (tsSessions m)\<rparr>"

subsection \<open>The statements of the store on Postgres\<close>

definition or_default :: "string \<Rightarrow> string \<Rightarrow> string" where
  "or_default v def = (if v = '''' then def else v)"

text \<open>\<open>n1\<close>, \<open>n2\<close> are readings of the gateway's clock, \<open>dbNow\<close> is the database's.\<close>

definition pg_create_task :: "cron_env \<Rightarrow> id \<Rightarrow> time \<Rightarrow> time \<Rightarrow> time \<Rightarrow> task \<Rightarrow> task_table \<Rightarrow> (sched_error + task) \<times> task_table" where
  "pg_create_task e fresh n1 n2 dbNow t tab =
     (case validate_create e n1 t of
        Some err \<Rightarrow> (Inl err, tab)
      | None \<Rightarrow>
          (case next_after e t n2 of
             Inl err \<Rightarrow> (Inl err, tab)
           | Inr next \<Rightarrow>
               let t' = t\<lparr>tkID := fresh, tkTimezone := zone_of t,
                          tkOnRunCompleted := or_default (tkOnRunCompleted t) OnRunKeep,
                          tkMultitask := or_default (tkMultitask t) MultitaskReject,
                          tkNextRunAt := next, tkLastRunAt := None, tkCreatedAt := dbNow, tkUpdatedAt := dbNow\<rparr>
               in (Inr t', mput fresh t' tab)))"

definition pg_update_task :: "cron_env \<Rightarrow> time \<Rightarrow> time \<Rightarrow> task \<Rightarrow> task_table \<Rightarrow> (sched_error + task) \<times> task_table" where
  "pg_update_task e n1 dbNow t tab =
     (case validate_task e t of
        Some err \<Rightarrow> (Inl err, tab)
      | None \<Rightarrow>
          (case next_after e t n1 of
             Inl err \<Rightarrow> (Inl err, tab)
           | Inr next \<Rightarrow>
               (case mget tab (tkID t) of
                  None \<Rightarrow> (Inl ErrNotFound, tab)
                | Some cur \<Rightarrow>
                    let t' = cur\<lparr>tkAgentDefName := tkAgentDefName t, tkPrompt := tkPrompt t,
                          tkToolWhitelist := tkToolWhitelist t, tkCron := tkCron t, tkTimezone := zone_of t,
                          tkTargetSessionID := tkTargetSessionID t,
                          tkOnRunCompleted := or_default (tkOnRunCompleted t) OnRunKeep,
                          tkMultitask := or_default (tkMultitask t) MultitaskReject,
                          tkWebhookURL := tkWebhookURL t, tkEndTime := tkEndTime t, tkEnabled := tkEnabled t,
                          tkNextRunAt := next, tkMetadata := tkMetadata t, tkUpdatedAt := dbNow\<rparr>
                    in (Inr t', mput (tkID t) t' tab))))"

definition pg_delete_task :: "id \<Rightarrow> task_table \<Rightarrow> sched_error option \<times> task_table" where
  "pg_delete_task i tab = (if mget tab i = None then (Some ErrNotFound, tab) else (None, mdel i tab))"

definition pg_set_enabled :: "id \<Rightarrow> bool \<Rightarrow> time \<Rightarrow> task_table \<Rightarrow> sched_error option \<times> task_table" where
  "pg_set_enabled i b dbNow tab =
     (case mget tab i of
        None \<Rightarrow> (Some ErrNotFound, tab)
      | Some t \<Rightarrow> (None, mput i (t\<lparr>tkEnabled := b, tkUpdatedAt := dbNow\<rparr>) tab))"

definition pg_tasks_for_user :: "(id \<Rightarrow> id \<Rightarrow> bool) \<Rightarrow> id \<Rightarrow> task_table \<Rightarrow> task list" where
  "pg_tasks_for_user member u tab =
     sort_key (\<lambda>t. - tkCreatedAt t)
       (filter (\<lambda>t. tkUserID t = u \<or> tkTeamID t \<noteq> '''' \<and> member u (tkTeamID t)) (mvals tab))"

definition unexpired :: "time \<Rightarrow> task \<Rightarrow> bool" where
  "unexpired at t = (case tkEndTime t of Some f \<Rightarrow> at < f | None \<Rightarrow> True)"

definition pg_list_due :: "time \<Rightarrow> task_table \<Rightarrow> task list" where
  "pg_list_due now tab =
     sort_key tkNextRunAt
       (filter (\<lambda>t. tkEnabled t \<and> tkNextRunAt t \<le> now \<and> epochStart < tkNextRunAt t \<and> unexpired now t) (mvals tab))"

text \<open>
  \<open>Claim\<close>: the row is read and the next occurrence computed, then the row is updated if it is still
  due and its \<open>next_run_at\<close> is the one that was read. A claim under way remembers the task, the
  instant of the claim, the occurrence computed and the slot read.
\<close>

record pending_claim =
  pcTask :: id
  pcNow :: time
  pcNext :: time
  pcSlot :: time

definition pg_claim_read :: "cron_env \<Rightarrow> id \<Rightarrow> time \<Rightarrow> task_table \<Rightarrow> sched_error + pending_claim" where
  "pg_claim_read e i now tab =
     (case get_task i tab of
        Inl err \<Rightarrow> Inl err
      | Inr cur \<Rightarrow>
          (case next_after e cur now of
             Inl err \<Rightarrow> Inl err
           | Inr next \<Rightarrow> Inr \<lparr>pcTask = i, pcNow = now, pcNext = next, pcSlot = tkNextRunAt cur\<rparr>))"

definition pg_claim_write :: "pending_claim \<Rightarrow> time \<Rightarrow> task_table \<Rightarrow> (sched_error + task) \<times> task_table" where
  "pg_claim_write p dbNow tab =
     (case mget tab (pcTask p) of
        None \<Rightarrow> (Inl ErrNotFound, tab)
      | Some t \<Rightarrow>
          if tkEnabled t \<and> tkNextRunAt t \<le> pcNow p \<and> unexpired (pcNow p) t \<and> tkNextRunAt t = pcSlot p
          then let t' = t\<lparr>tkLastRunAt := Some (pcNow p), tkNextRunAt := pcNext p, tkUpdatedAt := dbNow\<rparr>
               in (Inr t', mput (pcTask p) t' tab)
          else (Inl ErrNotFound, tab))"

definition pg_claim_task :: "cron_env \<Rightarrow> id \<Rightarrow> time \<Rightarrow> time \<Rightarrow> task_table \<Rightarrow> (sched_error + task) \<times> task_table" where
  "pg_claim_task e i now dbNow tab =
     (case pg_claim_read e i now tab of
        Inl err \<Rightarrow> (Inl err, tab)
      | Inr p \<Rightarrow> pg_claim_write p dbNow tab)"

definition pg_requeue_due_at :: "task \<Rightarrow> time \<Rightarrow> time \<Rightarrow> task_table \<Rightarrow> sched_error option \<times> task_table" where
  "pg_requeue_due_at t at dbNow tab =
     (case mget tab (tkID t) of
        None \<Rightarrow> (Some ErrNotFound, tab)
      | Some cur \<Rightarrow>
          if tkEnabled cur \<and> tkNextRunAt cur = tkNextRunAt t \<and> unexpired at cur
          then (None, mput (tkID t) (cur\<lparr>tkNextRunAt := at, tkUpdatedAt := dbNow\<rparr>) tab)
          else (Some ErrNotFound, tab))"

subsection \<open>Postgres text arrays\<close>

definition escape_element :: "string \<Rightarrow> string" where
  "escape_element s = concat (map (\<lambda>c. if c = CHR 0x5C \<or> c = CHR 0x22 then [CHR 0x5C, c] else [c]) s)"

definition quote_element :: "string \<Rightarrow> string" where
  "quote_element s = CHR 0x22 # escape_element s @ [CHR 0x22]"

definition format_text_array :: "string list \<Rightarrow> string" where
  "format_text_array items =
     (if items = [] then ''{}'' else ''{'' @ join '','' (map quote_element items) @ ''}'')"

definition trim_prefix :: "string \<Rightarrow> string \<Rightarrow> string" where
  "trim_prefix p s = (if has_prefix s p then drop (length p) s else s)"

definition trim_suffix :: "string \<Rightarrow> string \<Rightarrow> string" where
  "trim_suffix p s = rev (trim_prefix (rev p) (rev s))"

text \<open>The loop of \<open>parseTextArray\<close>: inside quotes, the element being read, the rest.\<close>

fun parse_elements :: "bool \<Rightarrow> string \<Rightarrow> string \<Rightarrow> string list" where
  "parse_elements q cur [] = (if cur = [] then [] else [cur])"
| "parse_elements q cur (c # rest) =
     (if c = CHR 0x5C \<and> q \<and> rest \<noteq> [] then parse_elements q (cur @ [hd rest]) (tl rest)
      else if c = CHR 0x22 then parse_elements (\<not> q) cur rest
      else if c = CHR '','' \<and> \<not> q then cur # parse_elements q [] rest
      else parse_elements q (cur @ [c]) rest)"

definition parse_text_array :: "string \<Rightarrow> string list" where
  "parse_text_array s =
     (let lit = trim_space s in
      if lit = '''' \<or> lit = ''{}'' then []
      else parse_elements False [] (trim_suffix ''}'' (trim_prefix ''{'' lit)))"

subsection \<open>Reading arrays back\<close>

text \<open>
  What Postgres gives back for an array: it quotes an element when it must and is free to when it
  need not. An element it may leave bare is not empty and has no character of the array syntax.
\<close>

definition bare :: "string \<Rightarrow> bool" where
  "bare s = (s \<noteq> [] \<and> (\<forall>c \<in> set s. c \<noteq> CHR 0x5C \<and> c \<noteq> CHR 0x22 \<and> c \<noteq> CHR '',''))"

definition render_element :: "bool \<times> string \<Rightarrow> string" where
  "render_element x = (if fst x then quote_element (snd x) else snd x)"

definition render_array :: "(bool \<times> string) list \<Rightarrow> string" where
  "render_array xs = ''{'' @ join '','' (map render_element xs) @ ''}''"

lemma parse_escaped:
  "parse_elements True cur (escape_element s @ CHR 0x22 # rest) = parse_elements False (cur @ s) rest"
  by (induction s arbitrary: cur) (auto simp: escape_element_def)

lemma parse_bare:
  "\<forall>c \<in> set s. c \<noteq> CHR 0x5C \<and> c \<noteq> CHR 0x22 \<and> c \<noteq> CHR '','' \<Longrightarrow>
     parse_elements False cur (s @ rest) = parse_elements False (cur @ s) rest"
  by (induction s arbitrary: cur) auto

lemma parse_element:
  "fst x \<or> bare (snd x) \<Longrightarrow>
     parse_elements False [] (render_element x @ rest) = parse_elements False (snd x) rest"
proof (cases "fst x")
  case True
  then show ?thesis using parse_escaped [of "[]" "snd x" rest] by (simp add: render_element_def quote_element_def)
next
  case False
  moreover assume "fst x \<or> bare (snd x)"
  ultimately show ?thesis using parse_bare [of "snd x" "[]" rest] by (simp add: render_element_def bare_def)
qed

lemma parse_joined:
  "\<forall>x \<in> set xs. fst x \<or> bare (snd x) \<Longrightarrow> xs \<noteq> [] \<Longrightarrow> snd (last xs) \<noteq> [] \<Longrightarrow>
     parse_elements False [] (join '','' (map render_element xs)) = map snd xs"
proof (induction xs)
  case (Cons x xs)
  show ?case
  proof (cases xs)
    case Nil
    then show ?thesis using parse_element [of x "[]"] Cons.prems by simp
  next
    case (Cons y ys)
    then show ?thesis
      using Cons.IH Cons.prems parse_element [of x "CHR '','' # join '','' (map render_element xs)"] by simp
  qed
qed simp

lemma trim_space_braced [simp]: "trim_space (CHR ''{'' # s @ ''}'') = CHR ''{'' # s @ ''}''"
  by (simp add: trim_space_def is_space_def)

lemma unbraced [simp]: "trim_suffix ''}'' (trim_prefix ''{'' (CHR ''{'' # s @ ''}'')) = s"
  by (simp add: trim_suffix_def trim_prefix_def has_prefix_def)

lemma format_is_rendered: "format_text_array items = render_array (map (Pair True) items)"
  by (simp add: format_text_array_def render_array_def render_element_def comp_def)

text \<open>A list of tool names that is written to the array column is read back as it was, whichever
  elements the database chose to quote when it printed the array, as long as the last name is not
  empty.\<close>

theorem text_array_round_trip:
  assumes "\<forall>x \<in> set xs. fst x \<or> bare (snd x)" "xs \<noteq> [] \<longrightarrow> snd (last xs) \<noteq> []"
  shows "parse_text_array (render_array xs) = map snd xs"
    and "format_text_array (map snd xs) = render_array (map (\<lambda>x. (True, snd x)) xs)"
proof -
  show "parse_text_array (render_array xs) = map snd xs"
  proof (cases "xs = []")
    case True
    then show ?thesis by (simp add: parse_text_array_def render_array_def trim_space_def is_space_def)
  next
    case False
    have "join '','' (map render_element xs) \<noteq> []"
      using parse_joined [of xs] assms False by fastforce
    then show ?thesis using parse_joined [of xs] assms False by (simp add: parse_text_array_def render_array_def)
  qed
  show "format_text_array (map snd xs) = render_array (map (\<lambda>x. (True, snd x)) xs)"
    by (simp add: format_is_rendered comp_def)
qed

lemma text_array_round_trip_witness:
  "parse_text_array (render_array [(False, ''read''), (True, []), (True, ''a,b'')]) = [''read'', [], ''a,b'']"
  by (subst text_array_round_trip(1)) (auto simp: bare_def)

text \<open>An empty name at the end is lost.\<close>

lemma trailing_empty_element_lost: "parse_text_array (format_text_array [''read'', []]) = [''read'']"
  by code_simp

subsection \<open>Claims of several triggers\<close>

text \<open>
  One table, any number of gateways, each with its own clock. The log tells in which order slots
  were fired and when the time of a task was moved by something else than a claim.
\<close>

datatype sched_event = Fired id time | Moved id

record sched_state =
  ssTable :: task_table
  ssClaims :: "pending_claim set"
  ssLog :: "sched_event list"

inductive claim_step :: "cron_env \<Rightarrow> sched_state \<Rightarrow> sched_state \<Rightarrow> bool" for e where
  Create: "mget (ssTable w) fresh = None \<Longrightarrow> pg_create_task e fresh n1 n2 d t (ssTable w) = (Inr t', tab) \<Longrightarrow>
    claim_step e w (w\<lparr>ssTable := tab\<rparr>)"
| Update: "pg_update_task e n1 d t (ssTable w) = (Inr t', tab) \<Longrightarrow>
    claim_step e w (w\<lparr>ssTable := tab, ssLog := ssLog w @ [Moved (tkID t)]\<rparr>)"
| Delete: "pg_delete_task i (ssTable w) = (None, tab) \<Longrightarrow>
    claim_step e w (w\<lparr>ssTable := tab, ssLog := ssLog w @ [Moved i]\<rparr>)"
| Enable: "pg_set_enabled i b d (ssTable w) = (None, tab) \<Longrightarrow> claim_step e w (w\<lparr>ssTable := tab\<rparr>)"
| Requeue: "pg_requeue_due_at t at d (ssTable w) = (None, tab) \<Longrightarrow>
    claim_step e w (w\<lparr>ssTable := tab, ssLog := ssLog w @ [Moved (tkID t)]\<rparr>)"
| Read: "pg_claim_read e i now (ssTable w) = Inr p \<Longrightarrow>
    claim_step e w (w\<lparr>ssClaims := insert p (ssClaims w)\<rparr>)"
| Write: "p \<in> ssClaims w \<Longrightarrow> pg_claim_write p d (ssTable w) = (Inr t, tab) \<Longrightarrow>
    claim_step e w (w\<lparr>ssTable := tab, ssClaims := ssClaims w - {p}, ssLog := ssLog w @ [Fired (pcTask p) (pcSlot p)]\<rparr>)"
| Lost: "p \<in> ssClaims w \<Longrightarrow> pg_claim_write p d (ssTable w) = (Inl err, tab) \<Longrightarrow>
    claim_step e w (w\<lparr>ssClaims := ssClaims w - {p}\<rparr>)"

inductive claim_reach :: "cron_env \<Rightarrow> sched_state \<Rightarrow> bool" for e where
  Start: "claim_reach e \<lparr>ssTable = [], ssClaims = {}, ssLog = []\<rparr>"
| Step: "claim_reach e w \<Longrightarrow> claim_step e w w' \<Longrightarrow> claim_reach e w'"

text \<open>The slots of a task fired since its time was last moved, and the law of the cron library.\<close>

definition slots_step :: "id \<Rightarrow> sched_event \<Rightarrow> time list \<Rightarrow> time list" where
  "slots_step i ev s =
     (case ev of Fired j t \<Rightarrow> if j = i then s @ [t] else s | Moved j \<Rightarrow> if j = i then [] else s)"

definition slots_since :: "id \<Rightarrow> sched_event list \<Rightarrow> time list" where
  "slots_since i log = fold (slots_step i) log []"

definition cron_forward :: "cron_env \<Rightarrow> bool" where
  "cron_forward e = (\<forall>c z t n. ceNext e c z t = Some n \<longrightarrow> t < n)"

lemma slots_since_snoc [simp]: "slots_since i (log @ [ev]) = slots_step i ev (slots_since i log)"
  by (simp add: slots_since_def)

definition slots_ok :: "sched_state \<Rightarrow> bool" where
  "slots_ok w =
     ((\<forall>i. sorted_wrt (<) (slots_since i (ssLog w)) \<and>
        (slots_since i (ssLog w) \<noteq> [] \<longrightarrow>
           (\<exists>t. mget (ssTable w) i = Some t \<and> (\<forall>s \<in> set (slots_since i (ssLog w)). s < tkNextRunAt t)))) \<and>
      (\<forall>p \<in> ssClaims w. pcNow p < pcNext p))"

lemma next_after_forward: "cron_forward e \<Longrightarrow> next_after e t now = Inr n \<Longrightarrow> now < n"
  by (auto simp: next_after_def schedule_def cron_forward_def split: option.splits sum.splits)

lemma slots_ok_row:
  "slots_ok w \<Longrightarrow> s \<in> set (slots_since i (ssLog w)) \<Longrightarrow> \<exists>t. mget (ssTable w) i = Some t \<and> s < tkNextRunAt t"
  by (force simp: slots_ok_def)

lemma claim_step_slots_ok: "claim_step e w w' \<Longrightarrow> cron_forward e \<Longrightarrow> slots_ok w \<Longrightarrow> slots_ok w'"
proof (induction rule: claim_step.induct)
  case (Create w fresh n1 n2 d t t' tab)
  then have "slots_since fresh (ssLog w) = []" by (auto simp: slots_ok_def)
  with Create show ?case
    by (auto simp: slots_ok_def pg_create_task_def Let_def split: option.splits sum.splits)
next
  case (Update n1 d t w t' tab)
  then show ?case
    by (auto simp: slots_ok_def pg_update_task_def slots_step_def Let_def split: option.splits sum.splits)
next
  case (Write p w d t tab)
  then obtain c where c: "mget (ssTable w) (pcTask p) = Some c" "tkNextRunAt c \<le> pcNow p" "tkNextRunAt c = pcSlot p"
    "tab = mput (pcTask p) (c\<lparr>tkLastRunAt := Some (pcNow p), tkNextRunAt := pcNext p, tkUpdatedAt := d\<rparr>) (ssTable w)"
    by (auto simp: pg_claim_write_def Let_def split: option.splits if_splits)
  have n: "pcSlot p < pcNext p" using Write.prems(2) Write.hyps(1) c(2,3) by (auto simp: slots_ok_def)
  have old: "s < pcSlot p" if "s \<in> set (slots_since (pcTask p) (ssLog w))" for s
    using slots_ok_row [OF Write.prems(2) that] c(1,3) by auto
  show ?case
    using Write.prems(2) n old unfolding slots_ok_def
    by (auto simp: c(4) slots_step_def sorted_wrt_append intro: order.strict_trans)
next
  case (Enable i b d w tab)
  then show ?case
    using slots_ok_row [OF Enable.prems(2), of _ i]
    by (auto simp: slots_ok_def pg_set_enabled_def split: option.splits)
qed (auto simp: slots_ok_def pg_delete_task_def pg_set_enabled_def pg_requeue_due_at_def pg_claim_read_def
       slots_step_def next_after_forward split: option.splits sum.splits if_splits)

lemma claim_reach_slots_ok: "claim_reach e w \<Longrightarrow> cron_forward e \<Longrightarrow> slots_ok w"
proof (induction rule: claim_reach.induct)
  case Start
  then show ?case by (simp add: slots_ok_def slots_since_def)
qed (rule claim_step_slots_ok)

text \<open>C24: whatever gateways scan the table at once, with whatever clocks, and however their reads and
  updates interleave with edits, the slots of a task that are fired between two changes of its time
  by something else than a claim are fired in order and each of them once, and the time the row
  shows is a later one.\<close>

theorem slot_fired_once:
  assumes "cron_forward e" "claim_reach e w"
  shows "sorted_wrt (<) (slots_since i (ssLog w)) \<and> distinct (slots_since i (ssLog w)) \<and>
    (slots_since i (ssLog w) \<noteq> [] \<longrightarrow>
       (\<exists>t. mget (ssTable w) i = Some t \<and> (\<forall>s \<in> set (slots_since i (ssLog w)). s < tkNextRunAt t)))"
  using claim_reach_slots_ok [OF assms(2,1)] by (simp_all add: slots_ok_def strict_sorted_iff)

text \<open>Two gateways read the same due row; one of them fires it.\<close>

definition demo_cron :: cron_env where
  "demo_cron = \<lparr>ceZone = \<lambda>_. None, ceParse = \<lambda>_. None, ceNext = \<lambda>_ _ t. Some (t - t mod 60 + 60), ceURL = \<lambda>_. None\<rparr>"

definition demo_task :: task where
  "demo_task = \<lparr>tkID = ''t'', tkUserID = ''u'', tkTeamID = '''', tkAgentDefName = '''', tkPrompt = ''go'',
     tkToolWhitelist = [], tkCron = ''* * * * *'', tkTimezone = '''', tkTargetSessionID = '''',
     tkOnRunCompleted = ''keep'', tkMultitask = ''reject'', tkWebhookURL = '''', tkEndTime = None,
     tkEnabled = True, tkNextRunAt = 60, tkLastRunAt = None, tkMetadata = [], tkCreatedAt = 0, tkUpdatedAt = 0\<rparr>"

lemma demo_cron_forward: "cron_forward demo_cron"
  by (simp add: cron_forward_def demo_cron_def)

lemma slot_fired_once_witness:
  "\<exists>w. claim_reach demo_cron w \<and> ssLog w = [Fired ''t'' 60] \<and> ssClaims w = {} \<and>
     distinct (slots_since ''t'' (ssLog w))"
proof -
  let ?t = "demo_task\<lparr>tkTimezone := ''UTC''\<rparr>"
  let ?t' = "?t\<lparr>tkNextRunAt := 120, tkLastRunAt := Some 61, tkUpdatedAt := 61\<rparr>"
  let ?p = "\<lparr>pcTask = ''t'', pcNow = 61, pcNext = 120, pcSlot = 60\<rparr>" and ?q = "\<lparr>pcTask = ''t'', pcNow = 62, pcNext = 120, pcSlot = 60\<rparr>"
  let ?w0 = "\<lparr>ssTable = [], ssClaims = {}, ssLog = []\<rparr>" and ?w1 = "\<lparr>ssTable = [(''t'', ?t)], ssClaims = {}, ssLog = []\<rparr>"
  let ?w3 = "?w1\<lparr>ssClaims := {?p, ?q}\<rparr>"
  let ?w5 = "\<lparr>ssTable = [(''t'', ?t')], ssClaims = {}, ssLog = [Fired ''t'' 60]\<rparr>"
  note ev = pg_create_task_def validate_create_def validate_task_def schedule_def location_error_def next_after_def
    demo_cron_def demo_task_def zone_of_def or_default_def MultitaskReject_def OnRunKeep_def mput_def mget_def Let_def
    pg_claim_read_def get_task_def pg_claim_write_def unexpired_def
  have "claim_reach demo_cron ?w1"
    using claim_reach.Step [OF claim_reach.Start claim_step.Create [of ?w0 "''t''" demo_cron 0 0 0 demo_task ?t "[(''t'', ?t)]"]]
    by (simp add: ev)
  from claim_reach.Step [OF this claim_step.Read [of demo_cron "''t''" 62 ?w1 ?q]]
  have "claim_reach demo_cron (?w1\<lparr>ssClaims := {?q}\<rparr>)" by (simp add: ev)
  from claim_reach.Step [OF this claim_step.Read [of demo_cron "''t''" 61 "?w1\<lparr>ssClaims := {?q}\<rparr>" ?p]]
  have "claim_reach demo_cron ?w3" by (simp add: ev)
  from claim_reach.Step [OF this claim_step.Write [of ?p ?w3 61 ?t' "[(''t'', ?t')]"]]
  have "claim_reach demo_cron (?w5\<lparr>ssClaims := {?q}\<rparr>)" by (simp add: ev)
  from claim_reach.Step [OF this claim_step.Lost [of ?q "?w5\<lparr>ssClaims := {?q}\<rparr>" 62 ErrNotFound "[(''t'', ?t')]"]]
  have "claim_reach demo_cron ?w5" by (simp add: ev)
  then show ?thesis using slot_fired_once [OF demo_cron_forward, of ?w5 "''t''"] by (intro exI [of _ ?w5]) simp
qed

subsection \<open>The two stores\<close>

text \<open>
  Alone, a claim on Postgres does what a claim in memory does, except at the instant a task ends:
  the store in memory still fires it then, Postgres does not.
\<close>

lemma claims_agree:
  assumes "mget (tsTasks m) i = Some t" "epochStart < tkNextRunAt t" "tkEndTime t \<noteq> Some now"
  shows "snd (pg_claim_task e i now now (tsTasks m)) = tsTasks (snd (claim_task e i now m))"
    "task_due now t \<Longrightarrow> fst (pg_claim_task e i now now (tsTasks m)) = fst (claim_task e i now m)"
    "\<not> task_due now t \<Longrightarrow> isl (fst (pg_claim_task e i now now (tsTasks m)))"
  using assms
  by (auto simp: pg_claim_task_def pg_claim_read_def pg_claim_write_def claim_task_def get_task_def task_due_def
      unexpired_def Let_def split: sum.splits option.splits)

lemma end_instant_differs:
  "tkEnabled t \<Longrightarrow> 0 < tkNextRunAt t \<Longrightarrow> tkNextRunAt t \<le> now \<Longrightarrow> tkEndTime t = Some now \<Longrightarrow>
     task_due now t \<and> pg_list_due now [(i, t)] = []"
  by (simp add: task_due_def pg_list_due_def unexpired_def epochStart_def mvals_def)

end
