(* ===== verification/Trigger.thy ===== *)
theory Trigger
  imports Schedule
begin

section \<open>Firing scheduled tasks\<close>

text \<open>
  \<open>schedule/trigger.go\<close>: a sweep claims each due task and submits a run for it. The state is the task
  table, the rows of the sessions table, the sessions to delete when their run ends, and the calls
  made to the run registry, in order. What the other components answer during one fire is an
  environment; the store is the one on Postgres of \<open>Schedule\<close>, a statement being one step.
\<close>

datatype scope_ref = UserScope id | TeamScope id | SystemScope

record session_row =
  srID :: id
  srUserID :: id
  srTitle :: string
  srTaskID :: id
  srMetadata :: jobj

datatype registry_call =
    Submitted id string "string list" id string
  | Interrupted id

record trigger =
  trTasks :: task_table
  trSessions :: "session_row list"
  trDeleteOnDone :: "(id, id) gomap"
  trCalls :: "registry_call list"

datatype budget_verdict = WithinBudget | BudgetExceeded | BudgetFailed string

datatype submit_answer = RunStarted id | RunActive | SubmitFailed string

datatype fire_error = ClaimError sched_error | FireError string

text \<open>
  \<open>teClaimAt\<close> is the instant of the claim, \<open>teLater\<close> the instant of a requeue, \<open>teDBNow\<close> the
  database's clock. \<open>teInsertError\<close> is the error of the insertion of a session, \<open>teModel\<close> the model of
  the loop built, \<open>teDeleteFails\<close> tells whether the deletion of a session fails (it is then logged only); a
  budget gate and an attributor may be absent, and so may the database handle.
\<close>

record trigger_env =
  teCron :: cron_env
  teClaimAt :: time
  teLater :: time
  teDBNow :: time
  teHasDB :: bool
  teDeleteFails :: bool
  teScopes :: "id \<Rightarrow> scope_ref list option"
  teResolveDef :: "string \<Rightarrow> scope_ref list \<Rightarrow> string + string \<times> string"
  teAttributor :: "(id \<Rightarrow> id) option"
  teBudget :: "(id \<Rightarrow> id \<Rightarrow> budget_verdict) option"
  teFresh :: id
  teInsertError :: "string option"
  teActive :: "id \<Rightarrow> string + bool"
  tePending :: "id \<Rightarrow> string + nat"
  teBuildError :: "task \<Rightarrow> string \<Rightarrow> string \<Rightarrow> string option"
  teBindTools :: bool
  teModel :: "task \<Rightarrow> string \<Rightarrow> string \<Rightarrow> string"
  teSubmit :: "id \<Rightarrow> submit_answer"

definition enqueueBackoff :: int where "enqueueBackoff = 10 * 60 * 1000000000"

subsection \<open>Prompt, title and session\<close>

definition resolve_prompt :: "trigger_env \<Rightarrow> task \<Rightarrow> string + string \<times> string \<times> string" where
  "resolve_prompt e t =
     (case prompt_source t of
        SourcePrompt \<Rightarrow> Inr ('''', '''', tkPrompt t)
      | SourceAgentDef \<Rightarrow>
          (let scopes = (case teScopes e (tkUserID t) of
                 Some ss \<Rightarrow> ss
               | None \<Rightarrow> [UserScope (tkUserID t), SystemScope])
           in case teResolveDef e (tkAgentDefName t) scopes of
                Inl err \<Rightarrow> Inl err
              | Inr (system, model) \<Rightarrow>
                  Inr (system, model, if tkPrompt t = '''' then ''Begin the scheduled task now.'' else tkPrompt t)))"

text \<open>The runes of a string, each as the bytes it is written with; a stray byte is written U+FFFD.\<close>

function runes_of :: "string \<Rightarrow> string list" where
  "runes_of s =
     (case s of [] \<Rightarrow> []
      | c # _ \<Rightarrow>
          (let w = rune_width (bytes_of s)
           in (if w = 1 \<and> 128 \<le> (of_char c :: nat) then [CHR 0xEF, CHR 0xBF, CHR 0xBD] else take w s) # runes_of (drop w s)))"
  by pat_completeness auto
termination
proof (relation "measure length", goal_cases)
  case 1
  show ?case by simp
next
  case (2 s c cs w)
  then show ?case using rune_width_pos [of "bytes_of s"] by (simp add: bytes_of_def)
qed

declare runes_of.simps [simp del]

definition truncate_title :: "string \<Rightarrow> nat \<Rightarrow> string" where
  "truncate_title s n =
     (let r = runes_of s in if length r \<le> n then s else concat (take n r) @ [CHR 0xE2, CHR 0x80, CHR 0xA6])"

definition find_session :: "id \<Rightarrow> session_row list \<Rightarrow> session_row option" where
  "find_session i rows = find (\<lambda>r. srID r = i) rows"

definition delete_session_row :: "id \<Rightarrow> session_row list \<Rightarrow> session_row list" where
  "delete_session_row i rows = filter (\<lambda>r. srID r \<noteq> i) rows"

text \<open>The metadata of a session: the task's over the trigger's, then the task id again.\<close>

definition session_metadata :: "task \<Rightarrow> jobj" where
  "session_metadata t =
     mput ''task_id'' (JStr (tkID t))
       (fold (\<lambda>kv m. mput (fst kv) (snd kv) m) (tkMetadata t)
          [(''trigger'', JStr ''scheduled''), (''task_id'', JStr (tkID t))])"

definition create_tagged_session :: "trigger_env \<Rightarrow> task \<Rightarrow> string \<Rightarrow> trigger \<Rightarrow> (fire_error + id \<times> bool) \<times> trigger" where
  "create_tagged_session e t title w =
     (case teInsertError e of
        Some err \<Rightarrow> (Inl (FireError err), w)
      | None \<Rightarrow>
          (Inr (teFresh e, True),
           w\<lparr>trSessions := trSessions w @
               [\<lparr>srID = teFresh e, srUserID = tkUserID t, srTitle = title, srTaskID = tkID t, srMetadata = session_metadata t\<rparr>]\<rparr>))"

definition resolve_session :: "trigger_env \<Rightarrow> task \<Rightarrow> string \<Rightarrow> trigger \<Rightarrow> (fire_error + id \<times> bool) \<times> trigger" where
  "resolve_session e t kickoff w =
     (if tkTargetSessionID t \<noteq> '''' then
        (case find_session (tkTargetSessionID t) (trSessions w) of
           None \<Rightarrow> (Inl (FireError ''session: not found''), w)
         | Some r \<Rightarrow>
             if srUserID r \<noteq> tkUserID t
             then (Inl (FireError (''target session '' @ tkTargetSessionID t @ '' belongs to user '' @ srUserID r @
                '', not task owner '' @ tkUserID t)), w)
             else (Inr (tkTargetSessionID t, False), w))
      else if \<not> teHasDB e then
        (case teInsertError e of
           Some err \<Rightarrow> (Inl (FireError err), w)
         | None \<Rightarrow>
             (Inr (teFresh e, True),
              w\<lparr>trSessions := trSessions w @
                  [\<lparr>srID = teFresh e, srUserID = tkUserID t, srTitle = truncate_title kickoff 60, srTaskID = '''', srMetadata = []\<rparr>]\<rparr>))
      else create_tagged_session e t (truncate_title kickoff 60) w)"

definition cleanup_fresh_session :: "trigger_env \<Rightarrow> task \<Rightarrow> id \<Rightarrow> trigger \<Rightarrow> trigger" where
  "cleanup_fresh_session e t sess w =
     (if tkTargetSessionID t \<noteq> '''' \<or> \<not> teHasDB e \<or> teDeleteFails e then w
      else w\<lparr>trSessions := delete_session_row sess (trSessions w)\<rparr>)"

subsection \<open>The gates\<close>

definition requeue_at :: "trigger_env \<Rightarrow> task \<Rightarrow> time \<Rightarrow> trigger \<Rightarrow> trigger" where
  "requeue_at e t at w = w\<lparr>trTasks := snd (pg_requeue_due_at t at (teDBNow e) (trTasks w))\<rparr>"

definition requeue :: "trigger_env \<Rightarrow> task \<Rightarrow> trigger \<Rightarrow> trigger" where
  "requeue e t w = requeue_at e t (teLater e) w"

text \<open>Whether to proceed, and whether an active run was interrupted for it.\<close>

definition gate_multitask :: "trigger_env \<Rightarrow> task \<Rightarrow> id \<Rightarrow> bool \<Rightarrow> trigger \<Rightarrow> (fire_error + bool \<times> bool) \<times> trigger" where
  "gate_multitask e t sess claimed w =
     (case teActive e sess of
        Inl err \<Rightarrow> (Inl (FireError err), w)
      | Inr active \<Rightarrow>
          if \<not> active then (Inr (True, False), w)
          else if tkMultitask t = MultitaskInterrupt
          then (Inr (True, True), w\<lparr>trCalls := trCalls w @ [Interrupted sess]\<rparr>)
          else if tkMultitask t = MultitaskEnqueue
          then (Inr (False, False), if claimed then requeue_at e t (teLater e + enqueueBackoff) w else w)
          else (Inr (False, False), w))"

definition watch_run_delete :: "id \<Rightarrow> id \<Rightarrow> trigger \<Rightarrow> trigger" where
  "watch_run_delete run sess w = w\<lparr>trDeleteOnDone := mput run sess (trDeleteOnDone w)\<rparr>"

subsection \<open>Submit\<close>

text \<open>From the built loop on.\<close>

definition hand_over :: "trigger_env \<Rightarrow> task \<Rightarrow> bool \<Rightarrow> id \<Rightarrow> bool \<Rightarrow> bool \<Rightarrow> id \<Rightarrow> string \<times> string \<times> string \<Rightarrow> trigger \<Rightarrow> fire_error option \<times> trigger" where
  "hand_over e t claimed sess fresh interrupted team = (\<lambda>(system, model, kickoff) w.
     (case teSubmit e sess of
        RunActive \<Rightarrow>
          (None, cleanup_fresh_session e t sess (if interrupted \<and> claimed then requeue e t w else w))
      | SubmitFailed err \<Rightarrow> (Some (FireError err), cleanup_fresh_session e t sess w)
      | RunStarted run \<Rightarrow>
          (let w1 = w\<lparr>trCalls := trCalls w @ [Submitted sess kickoff (if teBindTools e then tkToolWhitelist t else []) team (teModel e t system model)]\<rparr>
           in (None, if fresh \<and> tkOnRunCompleted t = OnRunDelete then watch_run_delete run sess w1 else w1))))"

text \<open>From the session on.\<close>

definition fire_into :: "trigger_env \<Rightarrow> task \<Rightarrow> bool \<Rightarrow> id \<Rightarrow> bool \<Rightarrow> id \<Rightarrow> string \<times> string \<times> string \<Rightarrow> trigger \<Rightarrow> fire_error option \<times> trigger" where
  "fire_into e t claimed sess fresh team = (\<lambda>(system, model, kickoff) w.
     (let drop_fresh = (\<lambda>w. if fresh then cleanup_fresh_session e t sess w else w) in
      case gate_multitask e t sess claimed w of
        (Inl err, w1) \<Rightarrow> (Some err, drop_fresh w1)
      | (Inr (False, _), w1) \<Rightarrow> (None, drop_fresh w1)
      | (Inr (True, interrupted), w1) \<Rightarrow>
          if (case tePending e sess of Inr n \<Rightarrow> 0 < n | Inl _ \<Rightarrow> False)
          then (None, requeue e t (cleanup_fresh_session e t sess w1))
          else case teBuildError e t system model of
            Some err \<Rightarrow> (Some (FireError err), drop_fresh w1)
          | None \<Rightarrow> hand_over e t claimed sess fresh interrupted team (system, model, kickoff) w1))"

definition submit_task :: "trigger_env \<Rightarrow> task \<Rightarrow> bool \<Rightarrow> trigger \<Rightarrow> fire_error option \<times> trigger" where
  "submit_task e t claimed w =
     (case resolve_prompt e t of
        Inl err \<Rightarrow> (Some (FireError err), w)
      | Inr (system, model, kickoff) \<Rightarrow>
          (let team = (case teAttributor e of None \<Rightarrow> '''' | Some f \<Rightarrow> f (tkUserID t)) in
           case (case teBudget e of None \<Rightarrow> WithinBudget | Some f \<Rightarrow> f (tkUserID t) team) of
             BudgetExceeded \<Rightarrow> (None, if claimed then requeue e t w else w)
           | BudgetFailed err \<Rightarrow> (Some (FireError err), w)
           | WithinBudget \<Rightarrow>
               (case resolve_session e t kickoff w of
                  (Inl err, w1) \<Rightarrow> (Some err, w1)
                | (Inr (sess, fresh), w1) \<Rightarrow> fire_into e t claimed sess fresh team (system, model, kickoff) w1)))"

definition fire_once :: "trigger_env \<Rightarrow> task \<Rightarrow> trigger \<Rightarrow> fire_error option \<times> trigger" where
  "fire_once e t w =
     (case pg_claim_task (teCron e) (tkID t) (teClaimAt e) (teDBNow e) (trTasks w) of
        (Inl err, tab) \<Rightarrow> (Some (ClaimError err), w\<lparr>trTasks := tab\<rparr>)
      | (Inr claimed, tab) \<Rightarrow> submit_task e claimed True (w\<lparr>trTasks := tab\<rparr>))"

definition fire_now :: "trigger_env \<Rightarrow> task \<Rightarrow> trigger \<Rightarrow> fire_error option \<times> trigger" where
  "fire_now e t w = submit_task e t False w"

text \<open>
  A sweep: the due tasks, fired in some order by the pool of four; \<open>envs\<close> gives what each fire meets.
\<close>

definition sweep_due :: "bool option \<Rightarrow> time \<Rightarrow> (task list \<Rightarrow> task list) \<Rightarrow> (task \<Rightarrow> trigger_env) \<Rightarrow> trigger \<Rightarrow> trigger" where
  "sweep_due switch now order envs w =
     (if switch = Some False then w
      else fold (\<lambda>t w. snd (fire_once (envs t) t w)) (order (pg_list_due now (trTasks w))) w)"

text \<open>
  The hook of the run registry: \<open>terminal\<close> tells whether the status is done, failed or cancelled,
  \<open>deletes\<close> whether there is a database and the deletion succeeds.
\<close>

definition on_run_done :: "bool \<Rightarrow> id \<Rightarrow> bool \<Rightarrow> trigger \<Rightarrow> trigger" where
  "on_run_done deletes run terminal w =
     (if \<not> terminal then w
      else case mget (trDeleteOnDone w) run of
        None \<Rightarrow> w
      | Some sess \<Rightarrow>
          (let w1 = w\<lparr>trDeleteOnDone := mdel run (trDeleteOnDone w)\<rparr>
           in if deletes then w1\<lparr>trSessions := delete_session_row sess (trSessions w1)\<rparr> else w1))"

subsection \<open>What a fire may touch\<close>

fun call_session :: "registry_call \<Rightarrow> id" where
  "call_session (Submitted s k tools tm m) = s"
| "call_session (Interrupted s) = s"

fun is_submitted :: "registry_call \<Rightarrow> bool" where
  "is_submitted (Submitted s k tools tm m) = True"
| "is_submitted (Interrupted s) = False"

text \<open>The sessions a task may fire into: its owner's, and the one created for the fire.\<close>

definition owned :: "trigger_env \<Rightarrow> task \<Rightarrow> trigger \<Rightarrow> id \<Rightarrow> bool" where
  "owned e t w s =
     ((\<exists>r. find_session s (trSessions w) = Some r \<and> srUserID r = tkUserID t) \<or>
      tkTargetSessionID t = '''' \<and> s = teFresh e)"

definition row_for :: "trigger_env \<Rightarrow> task \<Rightarrow> session_row \<Rightarrow> bool" where
  "row_for e t r = (srID r = teFresh e \<and> srUserID r = tkUserID t)"

lemma requeue_at_other [simp]:
  "trSessions (requeue_at e t at w) = trSessions w" "trDeleteOnDone (requeue_at e t at w) = trDeleteOnDone w"
  "trCalls (requeue_at e t at w) = trCalls w"
  by (simp_all add: requeue_at_def)

lemma requeue_other [simp]:
  "trSessions (requeue e t w) = trSessions w" "trDeleteOnDone (requeue e t w) = trDeleteOnDone w"
  "trCalls (requeue e t w) = trCalls w"
  by (simp_all add: requeue_def)

lemma cleanup_other [simp]:
  "trTasks (cleanup_fresh_session e t s w) = trTasks w"
  "trDeleteOnDone (cleanup_fresh_session e t s w) = trDeleteOnDone w"
  "trCalls (cleanup_fresh_session e t s w) = trCalls w"
  by (simp_all add: cleanup_fresh_session_def)

lemma watch_other [simp]:
  "trTasks (watch_run_delete r s w) = trTasks w" "trSessions (watch_run_delete r s w) = trSessions w"
  "trCalls (watch_run_delete r s w) = trCalls w"
  by (simp_all add: watch_run_delete_def)

lemma find_session_id: "find_session i rows = Some r \<Longrightarrow> srID r = i"
  by (auto simp: find_session_def dest: find_Some_iff2)

lemma delete_absent: "i \<notin> set (map srID rows) \<Longrightarrow> delete_session_row i rows = rows"
  by (auto simp: delete_session_row_def filter_id_conv)

lemma delete_appended: "i \<notin> set (map srID rows) \<Longrightarrow> srID r = i \<Longrightarrow> delete_session_row i (rows @ [r]) = rows"
  using delete_absent by (simp add: delete_session_row_def)

text \<open>The session a fire goes to.\<close>

lemma resolve_session_cases:
  assumes "resolve_session e t k w = (Inr (sess, fresh), w1)"
  obtains (target) r where "tkTargetSessionID t \<noteq> ''''" "\<not> fresh" "sess = tkTargetSessionID t" "w1 = w"
      "find_session sess (trSessions w) = Some r" "srUserID r = tkUserID t"
    | (new) r where "tkTargetSessionID t = ''''" "fresh" "sess = teFresh e" "row_for e t r"
      "w1 = w\<lparr>trSessions := trSessions w @ [r]\<rparr>"
proof (cases "tkTargetSessionID t = ''''")
  case True
  let ?row = "\<lambda>i m. \<lparr>srID = teFresh e, srUserID = tkUserID t, srTitle = truncate_title k 60, srTaskID = i, srMetadata = m\<rparr>"
  obtain i m where a: "sess = teFresh e" "fresh" "w1 = w\<lparr>trSessions := trSessions w @ [?row i m]\<rparr>"
    using assms True by (auto simp: resolve_session_def create_tagged_session_def split: if_splits option.splits)
  show ?thesis by (rule new [OF True a(2,1) _ a(3)]) (simp add: row_for_def)
next
  case False
  then show ?thesis using assms target by (auto simp: resolve_session_def split: if_splits option.splits)
qed

lemma resolve_session_fails: "resolve_session e t k w = (Inl err, w1) \<Longrightarrow> w1 = w"
  by (auto simp: resolve_session_def create_tagged_session_def split: if_splits option.splits)

text \<open>The gate.\<close>

lemma gate_cases:
  assumes "gate_multitask e t sess claimed w = (r, w1)"
  obtains (failed) err where "r = Inl err" "w1 = w"
    | (idle) "r = Inr (True, False)" "w1 = w" "teActive e sess = Inr False"
    | (cut) "r = Inr (True, True)" "w1 = w\<lparr>trCalls := trCalls w @ [Interrupted sess]\<rparr>"
        "teActive e sess = Inr True" "tkMultitask t = MultitaskInterrupt"
    | (queued) "r = Inr (False, False)" "w1 = (if claimed then requeue_at e t (teLater e + enqueueBackoff) w else w)"
        "teActive e sess = Inr True" "tkMultitask t = MultitaskEnqueue"
    | (busy) "r = Inr (False, False)" "w1 = w" "teActive e sess = Inr True"
        "tkMultitask t \<noteq> MultitaskInterrupt" "tkMultitask t \<noteq> MultitaskEnqueue"
  using assms by (auto simp: gate_multitask_def split: sum.splits if_splits)

text \<open>Every end of a fire into a session.\<close>

definition has_pending :: "trigger_env \<Rightarrow> id \<Rightarrow> bool" where
  "has_pending e sess = (case tePending e sess of Inr n \<Rightarrow> 0 < n | Inl _ \<Rightarrow> False)"

definition over_budget :: "trigger_env \<Rightarrow> task \<Rightarrow> bool" where
  "over_budget e t =
     (case teBudget e of
        None \<Rightarrow> False
      | Some f \<Rightarrow> f (tkUserID t) (case teAttributor e of None \<Rightarrow> '''' | Some g \<Rightarrow> g (tkUserID t)) = BudgetExceeded)"

text \<open>The session a fire is meant for.\<close>

definition fire_session :: "trigger_env \<Rightarrow> task \<Rightarrow> id" where
  "fire_session e t = (if tkTargetSessionID t = '''' then teFresh e else tkTargetSessionID t)"

datatype fire_end = Started id | Skipped | Queued | Retried | Broken

definition fire_ended :: "trigger_env \<Rightarrow> task \<Rightarrow> bool \<Rightarrow> id \<Rightarrow> bool \<Rightarrow> trigger \<Rightarrow> fire_end \<Rightarrow> fire_error option \<Rightarrow> trigger \<Rightarrow> bool" where
  "fire_ended e t claimed sess fresh w f r w' =
     ((r \<noteq> None \<longleftrightarrow> f = Broken) \<and>
      (\<exists>cs. trCalls w' = trCalls w @ cs \<and> (\<forall>c \<in> set cs. call_session c = sess) \<and>
         ((\<exists>c \<in> set cs. is_submitted c) \<longleftrightarrow> (\<exists>run. f = Started run))) \<and>
      trTasks w' = trTasks (case f of
         Queued \<Rightarrow> requeue_at e t (teLater e + enqueueBackoff) w
       | Retried \<Rightarrow> requeue e t w
       | _ \<Rightarrow> w) \<and>
      trSessions w' = (case f of
         Started run \<Rightarrow> trSessions w
       | _ \<Rightarrow> if tkTargetSessionID t = '''' \<and> teHasDB e \<and> \<not> teDeleteFails e then delete_session_row sess (trSessions w) else trSessions w) \<and>
      trDeleteOnDone w' = (case f of
         Started run \<Rightarrow> if fresh \<and> tkOnRunCompleted t = OnRunDelete then mput run sess (trDeleteOnDone w) else trDeleteOnDone w
       | _ \<Rightarrow> trDeleteOnDone w) \<and>
      (case f of
         Started run \<Rightarrow> teSubmit e sess = RunStarted run
       | Queued \<Rightarrow> claimed \<and> teActive e sess = Inr True \<and> tkMultitask t = MultitaskEnqueue
       | Retried \<Rightarrow>
           (teActive e sess = Inr False \<or> teActive e sess = Inr True \<and> tkMultitask t = MultitaskInterrupt) \<and>
           (has_pending e sess \<or> claimed \<and> teActive e sess = Inr True \<and> teSubmit e sess = RunActive)
       | Skipped \<Rightarrow>
           claimed \<longrightarrow>
             teActive e sess = Inr True \<and> tkMultitask t \<noteq> MultitaskInterrupt \<and> tkMultitask t \<noteq> MultitaskEnqueue \<or>
             teActive e sess = Inr False \<and> \<not> has_pending e sess \<and> teSubmit e sess = RunActive
       | Broken \<Rightarrow> True))"

lemma requeue_tasks:
  "trTasks v = trTasks w \<Longrightarrow> trTasks (requeue_at e t at v) = trTasks (requeue_at e t at w)"
  "trTasks v = trTasks w \<Longrightarrow> trTasks (requeue e t v) = trTasks (requeue e t w)"
  by (simp_all add: requeue_def requeue_at_def)

lemma not_interrupt_enqueue [simp]: "MultitaskInterrupt \<noteq> MultitaskEnqueue" "MultitaskEnqueue \<noteq> MultitaskInterrupt"
  by (simp_all add: MultitaskInterrupt_def MultitaskEnqueue_def)

lemma hand_over_ended:
  assumes "fresh \<longleftrightarrow> tkTargetSessionID t = ''''" "teActive e sess = Inr interrupted"
    "interrupted \<Longrightarrow> tkMultitask t = MultitaskInterrupt"
    "w1 = (if interrupted then w\<lparr>trCalls := trCalls w @ [Interrupted sess]\<rparr> else w)" "\<not> has_pending e sess"
  shows "\<exists>f. fire_ended e t claimed sess fresh w f (fst (hand_over e t claimed sess fresh interrupted team pr w1))
     (snd (hand_over e t claimed sess fresh interrupted team pr w1))"
proof (cases "teSubmit e sess")
  case (RunStarted run)
  then show ?thesis using assms
    by (intro exI [of _ "Started run"]) (auto simp: fire_ended_def hand_over_def Let_def watch_run_delete_def split: prod.split)
next
  case RunActive
  then show ?thesis using assms
    by (intro exI [of _ "if interrupted \<and> claimed then Retried else Skipped"])
      (auto simp: fire_ended_def hand_over_def cleanup_fresh_session_def requeue_def requeue_at_def split: prod.split)
next
  case (SubmitFailed err)
  then show ?thesis using assms
    by (intro exI [of _ Broken]) (auto simp: fire_ended_def hand_over_def cleanup_fresh_session_def split: prod.split)
qed

lemma proceed_ended:
  assumes "fresh \<longleftrightarrow> tkTargetSessionID t = ''''" "teActive e sess = Inr interrupted"
    "interrupted \<Longrightarrow> tkMultitask t = MultitaskInterrupt"
    "w1 = (if interrupted then w\<lparr>trCalls := trCalls w @ [Interrupted sess]\<rparr> else w)"
    "gate_multitask e t sess claimed w = (Inr (True, interrupted), w1)"
  shows "\<exists>f. fire_ended e t claimed sess fresh w f (fst (fire_into e t claimed sess fresh team pr w))
     (snd (fire_into e t claimed sess fresh team pr w))"
proof -
  obtain system model kickoff where pr: "pr = (system, model, kickoff)" by (cases pr)
  have p: "(case tePending e sess of Inr n \<Rightarrow> 0 < n | Inl _ \<Rightarrow> False) = has_pending e sess"
    by (simp add: has_pending_def)
  show ?thesis
  proof (cases "has_pending e sess")
    case True
    then show ?thesis using assms
      by (intro exI [of _ Retried])
        (auto simp: pr fire_ended_def fire_into_def p cleanup_fresh_session_def requeue_def requeue_at_def)
  next
    case False
    show ?thesis
    proof (cases "teBuildError e t system model")
      case (Some err)
      then show ?thesis using assms False
        by (intro exI [of _ Broken]) (auto simp: pr fire_ended_def fire_into_def p cleanup_fresh_session_def)
    next
      case None
      then have "fire_into e t claimed sess fresh team pr w = hand_over e t claimed sess fresh interrupted team pr w1"
        using assms False by (simp add: pr fire_into_def p)
      then show ?thesis using hand_over_ended [OF assms(1-4) False] by simp
    qed
  qed
qed

lemma fire_into_ended:
  assumes "fresh \<longleftrightarrow> tkTargetSessionID t = ''''"
  shows "\<exists>f. fire_ended e t claimed sess fresh w f (fst (fire_into e t claimed sess fresh team pr w))
     (snd (fire_into e t claimed sess fresh team pr w))"
proof -
  obtain system model kickoff where pr: "pr = (system, model, kickoff)" by (cases pr)
  obtain g w1 where g: "gate_multitask e t sess claimed w = (g, w1)" by force
  then show ?thesis
  proof (cases rule: gate_cases)
    case (failed err)
    then show ?thesis using g assms
      by (intro exI [of _ Broken]) (auto simp: pr fire_ended_def fire_into_def cleanup_fresh_session_def)
  next
    case queued
    then show ?thesis using g assms
      by (intro exI [of _ "if claimed then Queued else Skipped"])
        (auto simp: pr fire_ended_def fire_into_def cleanup_fresh_session_def)
  next
    case busy
    then show ?thesis using g assms
      by (intro exI [of _ Skipped]) (auto simp: pr fire_ended_def fire_into_def cleanup_fresh_session_def)
  next
    case idle
    then show ?thesis using proceed_ended [OF assms idle(3)] g by simp
  next
    case cut
    then show ?thesis using proceed_ended [OF assms cut(3)] g by simp
  qed
qed

text \<open>Every end of a submission: before a session is touched, or in a session.\<close>

lemma submit_ends:
  obtains (broken) "fst (submit_task e t claimed w) \<noteq> None" "snd (submit_task e t claimed w) = w"
    | (over) "over_budget e t" "fst (submit_task e t claimed w) = None" "snd (submit_task e t claimed w) = (if claimed then requeue e t w else w)"
    | (target) f sess where "tkTargetSessionID t \<noteq> ''''" "\<not> over_budget e t" "owned e t w sess" "sess = fire_session e t"
        "fire_ended e t claimed sess False w f (fst (submit_task e t claimed w)) (snd (submit_task e t claimed w))"
    | (new) f r where "tkTargetSessionID t = ''''" "\<not> over_budget e t" "row_for e t r"
        "fire_ended e t claimed (teFresh e) True (w\<lparr>trSessions := trSessions w @ [r]\<rparr>) f
           (fst (submit_task e t claimed w)) (snd (submit_task e t claimed w))"
proof (cases "resolve_prompt e t")
  case (Inl err)
  then show ?thesis using broken by (simp add: submit_task_def)
next
  case (Inr pr)
  obtain system model kickoff where pr: "pr = (system, model, kickoff)" by (cases pr)
  define team where "team = (case teAttributor e of None \<Rightarrow> '''' | Some f \<Rightarrow> f (tkUserID t))"
  define v where "v = (case teBudget e of None \<Rightarrow> WithinBudget | Some f \<Rightarrow> f (tkUserID t) team)"
  have ob: "over_budget e t \<longleftrightarrow> v = BudgetExceeded"
    by (simp add: over_budget_def v_def team_def split: option.split)
  have s: "submit_task e t claimed w =
      (case v of BudgetExceeded \<Rightarrow> (None, if claimed then requeue e t w else w)
       | BudgetFailed err \<Rightarrow> (Some (FireError err), w)
       | WithinBudget \<Rightarrow>
           (case resolve_session e t kickoff w of
              (Inl err, w1) \<Rightarrow> (Some err, w1)
            | (Inr (sess, fresh), w1) \<Rightarrow> fire_into e t claimed sess fresh team (system, model, kickoff) w1))"
    unfolding submit_task_def Inr pr team_def v_def by (simp add: Let_def)
  show ?thesis
  proof (cases v)
    case WithinBudget
    obtain rs w1 where rs: "resolve_session e t kickoff w = (rs, w1)" by force
    show ?thesis
    proof (cases rs)
      case (Inl err)
      then show ?thesis using broken rs resolve_session_fails [of e t kickoff w err w1] by (simp add: s WithinBudget)
    next
      case (Inr sf)
      obtain sess fresh where sf: "sf = (sess, fresh)" by force
      have eq: "submit_task e t claimed w = fire_into e t claimed sess fresh team (system, model, kickoff) w1"
        using rs Inr sf by (simp add: s WithinBudget)
      from rs [unfolded Inr sf] show ?thesis
      proof (cases rule: resolve_session_cases)
        case (target r)
        then have "owned e t w sess" "sess = fire_session e t" by (auto simp: owned_def fire_session_def)
        then show ?thesis using target fire_into_ended [of fresh t e claimed sess w1 team "(system, model, kickoff)"] that(3) ob WithinBudget
          unfolding eq by auto
      next
        case (new r)
        then show ?thesis using fire_into_ended [of fresh t e claimed sess w1 team "(system, model, kickoff)"] that(4) ob WithinBudget
          unfolding eq by auto
      qed
    qed
  qed (use broken over ob in \<open>simp_all add: s\<close>)
qed

text \<open>C26: whatever a task names, a fire starts or interrupts a run only in a session of the task's owner
  or in the one it has just created for him.\<close>

theorem fires_into_own_sessions:
  "\<exists>cs. trCalls (snd (submit_task e t claimed w)) = trCalls w @ cs \<and> (\<forall>c \<in> set cs. owned e t w (call_session c))"
proof (rule submit_ends [of e t claimed w])
  fix f r assume "tkTargetSessionID t = ''''"
    "fire_ended e t claimed (teFresh e) True (w\<lparr>trSessions := trSessions w @ [r]\<rparr>) f
       (fst (submit_task e t claimed w)) (snd (submit_task e t claimed w))"
  then show ?thesis by (auto simp: fire_ended_def owned_def)
qed (auto simp: fire_ended_def)

text \<open>C27: with a database whose deletions succeed and a session id that is new, a fire that starts no
  run leaves the sessions and the deletions to come as they were; one that starts a run adds no
  session when the task names a target, and else exactly the one created for it; if the task says so,
  exactly that session is registered for deletion under the run that was started, and the completion
  hook deletes it when that run ends after the registration.\<close>

theorem unstarted_fire_leaves_no_session:
  assumes "teHasDB e" "\<not> teDeleteFails e" "teFresh e \<notin> set (map srID (trSessions w))"
    and "submit_task e t claimed w = (r, w')" "trCalls w' = trCalls w @ cs"
  shows "if \<exists>c \<in> set cs. is_submitted c
    then \<exists>run. teSubmit e (fire_session e t) = RunStarted run \<and>
      (if tkTargetSessionID t \<noteq> '''' then trSessions w' = trSessions w \<and> trDeleteOnDone w' = trDeleteOnDone w
       else (\<exists>row. row_for e t row \<and> trSessions w' = trSessions w @ [row]) \<and>
         (if tkOnRunCompleted t = OnRunDelete
          then trDeleteOnDone w' = mput run (teFresh e) (trDeleteOnDone w) \<and>
            trSessions (on_run_done True run True w') = trSessions w
          else trDeleteOnDone w' = trDeleteOnDone w))
    else trSessions w' = trSessions w \<and> trDeleteOnDone w' = trDeleteOnDone w"
proof -
  have res: "fst (submit_task e t claimed w) = r" "snd (submit_task e t claimed w) = w'" using assms(4) by simp_all
  show ?thesis
  proof (cases rule: submit_ends [of e t claimed w, unfolded res, case_names broken over target new])
    case over
    then show ?thesis using assms(5) by (auto split: if_splits)
  next
    case (target f sess)
    then show ?thesis using assms(5) by (cases f) (auto simp: fire_ended_def)
  next
    case (new f row)
    have id: "srID row = teFresh e" using new(3) by (simp add: row_for_def)
    note del = delete_appended [OF assms(3) id]
    show ?thesis
    proof (cases f)
      case (Started run)
      have s: "fire_session e t = teFresh e" using new(1) by (simp add: fire_session_def)
      show ?thesis using Started new(1,3,4) assms(5) del
        by (auto simp: fire_ended_def s on_run_done_def Let_def)
    qed (use new assms(1,2,5) del in \<open>auto simp: fire_ended_def\<close>)
  qed (use assms(5) in auto)
qed

text \<open>The table once a task is due again at an instant, unless it has ended by then.\<close>

definition due_again :: "trigger_env \<Rightarrow> task \<Rightarrow> time \<Rightarrow> trigger \<Rightarrow> task_table" where
  "due_again e t at w =
     (if unexpired at t then mput (tkID t) (t\<lparr>tkNextRunAt := at, tkUpdatedAt := teDBNow e\<rparr>) (trTasks w) else trTasks w)"

text \<open>C25: what becomes of the claimed slot of an enabled task that is still in the table as it was
  claimed. With a run
  started or an error it stays spent. A fire without either is due again at once over budget, after
  the backoff when its session is busy under enqueue, and at once when its session waits for a
  decision or has a run that outlives its interruption (unless the task has ended by that instant);
  it is dropped when its session is busy under reject, or, under any strategy, when a run entered
  the idle session between the gate and the submission.\<close>

theorem claimed_slot_settled:
  assumes "mget (trTasks w) (tkID t) = Some t" "tkEnabled t"
    and "submit_task e t True w = (r, w')" "trCalls w' = trCalls w @ cs"
  shows "if r \<noteq> None \<or> (\<exists>c \<in> set cs. is_submitted c)
    then trTasks w' = trTasks w \<and> (r \<noteq> None \<longleftrightarrow> \<not> (\<exists>c \<in> set cs. is_submitted c))
    else if over_budget e t then trTasks w' = due_again e t (teLater e) w
    else if teActive e (fire_session e t) = Inr True \<and> tkMultitask t = MultitaskEnqueue
    then trTasks w' = due_again e t (teLater e + enqueueBackoff) w
    else if teActive e (fire_session e t) = Inr True \<and> tkMultitask t \<noteq> MultitaskInterrupt
    then trTasks w' = trTasks w
    else if has_pending e (fire_session e t) \<or> teActive e (fire_session e t) = Inr True
    then trTasks w' = due_again e t (teLater e) w
    else trTasks w' = trTasks w \<and> teActive e (fire_session e t) = Inr False \<and>
      teSubmit e (fire_session e t) = RunActive"
proof -
  have res: "fst (submit_task e t True w) = r" "snd (submit_task e t True w) = w'" using assms(3) by simp_all
  have rq: "trTasks (requeue_at e t at v) = due_again e t at w" "trTasks (requeue e t v) = due_again e t (teLater e) w"
    if "trTasks v = trTasks w" for at v
    using assms(1,2) that by (simp_all add: requeue_def requeue_at_def pg_requeue_due_at_def due_again_def)
  have fired: ?thesis if "fire_ended e t True sess fresh v f r w'" "trTasks v = trTasks w" "trCalls v = trCalls w"
      "sess = fire_session e t" "\<not> over_budget e t" for sess fresh v f
    using that(1) assms(4) rq [OF that(2)] that(2-5)
    by (cases f) (auto simp: fire_ended_def)
  show ?thesis
  proof (cases rule: submit_ends [of e t True w, unfolded res, case_names broken over target new])
    case over
    then show ?thesis using assms(4) rq [of w] by auto
  next
    case (target f sess)
    show ?thesis by (rule fired [OF target(5)]) (use target in simp_all)
  next
    case (new f row)
    show ?thesis by (rule fired [OF new(4)]) (use new in \<open>simp_all add: fire_session_def\<close>)
  qed (use assms(4) in simp)
qed

subsection \<open>Examples and limits\<close>

definition demo_trigger :: trigger_env where
  "demo_trigger = \<lparr>teCron = demo_cron, teClaimAt = 61, teLater = 62, teDBNow = 61, teHasDB = True, teDeleteFails = False,
     teScopes = \<lambda>_. None, teResolveDef = \<lambda>_ _. Inl ''no such agent'', teAttributor = None, teBudget = None,
     teFresh = ''s'', teInsertError = None, teActive = \<lambda>_. Inr False, tePending = \<lambda>_. Inr 0,
     teBuildError = \<lambda>_ _ _. None, teBindTools = True, teModel = \<lambda>_ _ _. ''m'', teSubmit = \<lambda>_. RunStarted ''r''\<rparr>"

definition demo_state :: trigger where
  "demo_state = \<lparr>trTasks = [(''t'', demo_task)], trSessions = [], trDeleteOnDone = [], trCalls = []\<rparr>"

lemma fires_into_own_sessions_witness:
  "\<exists>c. trCalls (snd (submit_task demo_trigger demo_task True demo_state)) = [c] \<and>
     owned demo_trigger demo_task demo_state (call_session c)"
proof -
  have "\<exists>c. trCalls (snd (submit_task demo_trigger demo_task True demo_state)) = [c]"
    by (simp add: submit_task_def resolve_prompt_def prompt_source_def demo_task_def demo_trigger_def demo_state_def
        resolve_session_def create_tagged_session_def fire_into_def gate_multitask_def hand_over_def Let_def)
  then show ?thesis using fires_into_own_sessions [of demo_trigger demo_task True demo_state]
    by (auto simp: demo_state_def)
qed

lemma unstarted_fire_leaves_no_session_witness:
  "trSessions (snd (submit_task (demo_trigger\<lparr>teSubmit := \<lambda>_. RunActive\<rparr>) demo_task True demo_state)) = []"
proof -
  let ?e = "demo_trigger\<lparr>teSubmit := \<lambda>_. RunActive\<rparr>"
  obtain r w' where s: "submit_task ?e demo_task True demo_state = (r, w')" by force
  have "trCalls w' = trCalls demo_state @ []"
    using arg_cong [OF s, of "\<lambda>x. trCalls (snd x)"]
    by (simp add: submit_task_def resolve_prompt_def prompt_source_def demo_task_def demo_trigger_def demo_state_def
        resolve_session_def create_tagged_session_def fire_into_def gate_multitask_def hand_over_def)
  from unstarted_fire_leaves_no_session [OF _ _ _ s this] show ?thesis
    using s by (simp add: demo_trigger_def demo_state_def)
qed

lemma claimed_slot_settled_witness:
  "trTasks (snd (submit_task (demo_trigger\<lparr>teActive := \<lambda>_. Inr True\<rparr>) (demo_task\<lparr>tkMultitask := MultitaskEnqueue\<rparr>) True
      (demo_state\<lparr>trTasks := [(''t'', demo_task\<lparr>tkMultitask := MultitaskEnqueue\<rparr>)]\<rparr>))) =
     [(''t'', demo_task\<lparr>tkMultitask := MultitaskEnqueue, tkNextRunAt := 62 + enqueueBackoff, tkUpdatedAt := 61\<rparr>)]"
proof -
  let ?e = "demo_trigger\<lparr>teActive := \<lambda>_. Inr True\<rparr>"
  let ?t = "demo_task\<lparr>tkMultitask := MultitaskEnqueue\<rparr>"
  let ?w = "demo_state\<lparr>trTasks := [(''t'', ?t)]\<rparr>"
  obtain r w' where s: "submit_task ?e ?t True ?w = (r, w')" by force
  have "trCalls (snd (submit_task ?e ?t True ?w)) = trCalls ?w @ []" "fst (submit_task ?e ?t True ?w) = None"
    by (simp_all add: submit_task_def resolve_prompt_def prompt_source_def demo_task_def demo_trigger_def demo_state_def
        resolve_session_def create_tagged_session_def fire_into_def gate_multitask_def)
  then have "trCalls w' = trCalls ?w @ []" "r = None" by (simp_all add: s)
  from claimed_slot_settled [OF _ _ s this(1)] this(2) s show ?thesis
    by (simp add: demo_task_def demo_trigger_def demo_state_def mget_def mput_def over_budget_def due_again_def unexpired_def)
qed

text \<open>
  A fire by hand is not to touch the schedule; it does when the session waits for a decision: the
  task's next occurrence is moved to the present.
\<close>

lemma manual_fire_keeps_schedule:
  assumes "\<And>sess. \<not> has_pending e sess"
  shows "trTasks (snd (fire_now e t w)) = trTasks w"
proof (cases rule: submit_ends [of e t False w])
  case (target f sess)
  then show ?thesis using assms by (cases f) (auto simp: fire_ended_def fire_now_def)
next
  case (new f r)
  then show ?thesis using assms by (cases f) (auto simp: fire_ended_def fire_now_def)
qed (simp_all add: fire_now_def)

lemma manual_fire_rewrites_schedule:
  "map_option tkNextRunAt (mget (trTasks (snd (fire_now (demo_trigger\<lparr>tePending := \<lambda>_. Inr 1\<rparr>)
     (demo_task\<lparr>tkNextRunAt := 86400\<rparr>) (demo_state\<lparr>trTasks := [(''t'', demo_task\<lparr>tkNextRunAt := 86400\<rparr>)]\<rparr>)))) ''t'') = Some 62"
  by (simp add: fire_now_def submit_task_def resolve_prompt_def prompt_source_def demo_task_def demo_trigger_def demo_state_def
      resolve_session_def create_tagged_session_def fire_into_def gate_multitask_def requeue_def requeue_at_def
      pg_requeue_due_at_def unexpired_def cleanup_fresh_session_def mget_def mput_def)

text \<open>
  The deletion is registered after the run has been started: a run that ends before is not found by
  the hook, and its session stays.
\<close>

lemma early_end_keeps_session:
  assumes "mget (trDeleteOnDone w) run = None"
  shows "trSessions (watch_run_delete run sess (on_run_done True run True w)) = trSessions w"
  using assms by (simp add: on_run_done_def)

text \<open>The metadata of a task overrides the provenance the trigger writes, except for the task id.\<close>

lemma trigger_key_overridden:
  "tkMetadata t = [(''trigger'', v)] \<Longrightarrow> mget (session_metadata t) ''trigger'' = Some v"
  "mget (session_metadata t) ''task_id'' = Some (JStr (tkID t))"
  by (simp_all add: session_metadata_def)

end
