(* ===== verification/Subagent.thy ===== *)
theory Subagent
  imports AgentLoop
begin

section \<open>Subagents\<close>

text \<open>
  \<open>subagent/tool.go\<close>, \<open>depth.go\<close>, \<open>collapse.go\<close>, \<open>skillmap.go\<close> and \<open>activity.go\<close>: the tool that runs
  a child loop for a delegated task. First one call, from its arguments to its result, what the child
  does being a record; then what the child's frames become on the run panel; then the calls of a whole
  run tree over the shared slots and budget, as a step relation. The definitions an agent type
  resolves to and the factory of child loops are parameters.
\<close>

definition ToolName :: string where "ToolName = ''spawn_agent''"
definition RunSkillScriptName :: string where "RunSkillScriptName = ''run_skill_script''"
definition GeneralPurpose :: string where "GeneralPurpose = ''general-purpose''"
definition defaultMaxDepth :: int where "defaultMaxDepth = 3"
definition defaultMaxTotal :: int where "defaultMaxTotal = 32"
definition defaultSpawnConcurrent :: int where "defaultSpawnConcurrent = 8"

record agent_def =
  adName :: string
  adTools :: "string list"
  adDisallowedTools :: "string list"
  adModel :: string
  adSkills :: "string list"
  adSystem :: string

definition wildcard :: "agent_def \<Rightarrow> bool" where
  "wildcard d = (adTools d = [] \<or> adTools d = [''*''])"

text \<open>\<open>stSpawned\<close> and \<open>stHeld\<close> are the atomic counter and the tokens in the semaphore.\<close>

record spawn_tool =
  stParent :: registry
  stMaxDepth :: int
  stMaxTotal :: int
  stSlots :: int
  stSpawned :: int
  stHeld :: int

definition new_spawn_tool :: "registry \<Rightarrow> int \<Rightarrow> spawn_tool" where
  "new_spawn_tool parent maxDepth =
     \<lparr>stParent = parent, stMaxDepth = (if maxDepth \<le> 0 then defaultMaxDepth else maxDepth),
      stMaxTotal = defaultMaxTotal, stSlots = defaultSpawnConcurrent, stSpawned = 0, stHeld = 0\<rparr>"

definition with_budget :: "int \<Rightarrow> int \<Rightarrow> spawn_tool \<Rightarrow> spawn_tool" where
  "with_budget maxTotal maxConcurrent t =
     (let t1 = (if 0 < maxTotal then t\<lparr>stMaxTotal := maxTotal\<rparr> else t)
      in if 0 < maxConcurrent then t1\<lparr>stSlots := maxConcurrent, stHeld := 0\<rparr> else t1)"

definition with_parent :: "registry \<Rightarrow> spawn_tool \<Rightarrow> spawn_tool" where
  "with_parent r t = t\<lparr>stParent := r\<rparr>"

subsection \<open>The child's pool\<close>

definition string_arg :: "jargs \<Rightarrow> string \<Rightarrow> string" where
  "string_arg args k = (case args of None \<Rightarrow> '''' | Some m \<Rightarrow> (case mget m k of Some (JStr s) \<Rightarrow> s | _ \<Rightarrow> ''''))"

definition skill_tool_names :: "registry \<Rightarrow> string list \<Rightarrow> string list" where
  "skill_tool_names r skills =
     (if skills = [] then [] else if reg_get r RunSkillScriptName = None then [] else [RunSkillScriptName])"

definition child_allow :: "registry \<Rightarrow> agent_def \<Rightarrow> string list" where
  "child_allow r d = (if wildcard d then adTools d else adTools d @ skill_tool_names r (adSkills d))"

definition child_pool :: "spawn_tool \<Rightarrow> agent_def \<Rightarrow> int \<Rightarrow> registry" where
  "child_pool t d childDepth =
     scoped (stParent t) (child_allow (stParent t) d) (adDisallowedTools d)
       (if stMaxDepth t \<le> childDepth then [ToolName] else [])"

text \<open>What a call needs from its surroundings: the resolver and the loop factory.\<close>

record spawn_env =
  seResolve :: "string \<Rightarrow> string + agent_def"
  seFactory :: "agent_def \<Rightarrow> int \<Rightarrow> string option"

record child_plan =
  cpDef :: agent_def
  cpDepth :: int
  cpTools :: registry
  cpHistory :: "message list"

text \<open>The part of \<open>Call\<close> before a slot is asked for: an error result, or the child to run.\<close>

definition plan_child :: "spawn_env \<Rightarrow> spawn_tool \<Rightarrow> int \<Rightarrow> jargs \<Rightarrow> tool_result + child_plan" where
  "plan_child e t depth args =
     (if stMaxDepth t \<le> depth
      then Inl (error_result (''subagent nesting limit reached (max depth '' @ itoa (stMaxDepth t) @
        '') '' @ [CHR 0xE2, CHR 0x80, CHR 0x94] @ '' complete the task directly instead of spawning another agent''))
      else let prompt = string_arg args ''prompt'' in
        if trim_space prompt = '''' then Inl (error_result ''prompt is required'')
        else let typ0 = string_arg args ''subagent_type'';
                 typ = (if trim_space typ0 = '''' then GeneralPurpose else typ0)
          in case seResolve e typ of
               Inl err \<Rightarrow> Inl (error_result err)
             | Inr d \<Rightarrow>
                 (case seFactory e d (depth + 1) of
                    Some err \<Rightarrow> Inl (error_result (''subagent '' @ adName d @ '' could not be started: '' @ err))
                  | None \<Rightarrow> Inr \<lparr>cpDef = d, cpDepth = depth + 1, cpTools = child_pool t d (depth + 1),
                                cpHistory = [text_message RoleUser prompt]\<rparr>))"

subsection \<open>The slot and the budget\<close>

definition no_slot_result :: "int \<Rightarrow> tool_result" where
  "no_slot_result depth =
     (if depth = 0 then error_result ''cancelled while waiting for a subagent slot''
      else error_result (''subagent concurrency saturated '' @ [CHR 0xE2, CHR 0x80, CHR 0x94] @
        '' retry later or reduce parallel spawns''))"

definition budget_result :: "spawn_tool \<Rightarrow> tool_result" where
  "budget_result t = error_result (''subagent budget exhausted (at most '' @ itoa (stMaxTotal t) @
     '' subagent runs per request) '' @ [CHR 0xE2, CHR 0x80, CHR 0x94] @ '' complete the task with fewer agents'')"

definition take_slot :: "spawn_tool \<Rightarrow> spawn_tool option" where
  "take_slot t = (if stHeld t < stSlots t then Some (t\<lparr>stHeld := stHeld t + 1\<rparr>) else None)"

definition free_slot :: "spawn_tool \<Rightarrow> spawn_tool" where
  "free_slot t = t\<lparr>stHeld := stHeld t - 1\<rparr>"

definition count_spawn :: "spawn_tool \<Rightarrow> bool \<times> spawn_tool" where
  "count_spawn t = (let n = stSpawned t + 1 in (stMaxTotal t < n, t\<lparr>stSpawned := n\<rparr>))"

subsection \<open>The result\<close>

definition noOutput :: string where "noOutput = ''(subagent produced no output)''"

definition content_blocks :: "message list \<Rightarrow> block list" where
  "content_blocks ms =
     concat (map (\<lambda>m. if mRole m \<noteq> RoleAssistant then filter (\<lambda>b. bType b = BlockToolResult) (mContent m)
                      else filter (\<lambda>b. bType b \<in> {BlockThinking, BlockText, BlockToolUse}) (mContent m)) ms)"

definition joined_text :: "message \<Rightarrow> string" where
  "joined_text m =
     fold (\<lambda>b s. if bType b = BlockText \<and> bText b \<noteq> '''' then (if s = '''' then bText b else s @ [CHR 0x0A] @ bText b) else s)
       (mContent m) ''''"

fun text_newest_first :: "message list \<Rightarrow> string" where
  "text_newest_first [] = ''''"
| "text_newest_first (m # ms) =
     (if mRole m \<noteq> RoleAssistant then text_newest_first ms
      else let s = joined_text m in if s \<noteq> '''' then s else text_newest_first ms)"

definition newest_assistant_text :: "message list \<Rightarrow> string" where
  "newest_assistant_text ms = text_newest_first (rev ms)"

definition collapse :: "message list \<Rightarrow> tool_result" where
  "collapse ms =
     (let txt = newest_assistant_text ms
      in \<lparr>trContent = (if txt \<noteq> '''' then txt else noOutput), trIsError = False,
          trNested = content_blocks ms, trGenerativeUI = None\<rparr>)"

definition describe_interactions :: "loop_interaction list \<Rightarrow> string" where
  "describe_interactions pending =
     join ''; '' (map (\<lambda>g. if iKind g = '''' \<or> iKind g = ''approval''
        then ''an approval for tool '' @ fmt_q (iToolName g)
        else ''a '' @ iKind g @ '' interaction via tool '' @ fmt_q (iToolName g)) pending)"

text \<open>How a child ended: what it produced, the error of its run, the interactions it waits for.\<close>

record child_end =
  ceMsgs :: "message list"
  ceError :: "string option"
  cePending :: "loop_interaction list"

definition partial_output :: string where
  "partial_output = [CHR 0x0A, CHR 0x0A] @ ''partial output:'' @ [CHR 0x0A]"

definition child_result :: "child_end \<Rightarrow> tool_result" where
  "child_result c =
     (let res = collapse (ceMsgs c) in
      case ceError c of
        Some err \<Rightarrow>
          res\<lparr>trIsError := True,
              trContent := (if trContent res = noOutput then ''subagent failed: '' @ err
                            else ''subagent failed: '' @ err @ partial_output @ trContent res)\<rparr>
      | None \<Rightarrow>
          if cePending c \<noteq> [] then
            let part = newest_assistant_text (ceMsgs c);
                base = ''subagent stopped: it requires '' @ describe_interactions (cePending c) @
                  '', which cannot be delivered inside a subagent. Perform that step yourself (your own approval flow will ask the user), or finish the task without it.''
            in res\<lparr>trIsError := True, trContent := (if part \<noteq> '''' then base @ partial_output @ part else base)\<rparr>
          else res)"

text \<open>
  One call on its own: \<open>slot\<close> tells whether a slot is had (at the root after waiting, below at once),
  \<open>child\<close> how the child ends.
\<close>

definition spawn_call :: "spawn_env \<Rightarrow> bool \<Rightarrow> (child_plan \<Rightarrow> child_end) \<Rightarrow> int \<Rightarrow> jargs \<Rightarrow> spawn_tool \<Rightarrow> tool_result \<times> spawn_tool" where
  "spawn_call e slot child depth args t =
     (case plan_child e t depth args of
        Inl res \<Rightarrow> (res, t)
      | Inr p \<Rightarrow>
          (case (if slot then take_slot t else None) of
             None \<Rightarrow> (no_slot_result depth, t)
           | Some t1 \<Rightarrow>
               (case count_spawn t1 of
                  (True, t2) \<Rightarrow> (budget_result t2, free_slot t2)
                | (False, t2) \<Rightarrow> (child_result (child p), free_slot t2))))"

text \<open>A child that is a run of the loop.\<close>

definition end_of_run :: "lerr option \<times> lstate \<Rightarrow> child_end" where
  "end_of_run = (\<lambda>(err, s). \<lparr>ceMsgs = sProduced s, ceError = map_option leText err, cePending = sPending s\<rparr>)"

subsection \<open>The run panel\<close>

record activity =
  avAgentType :: string
  avDepth :: int
  avPhase :: string
  avTool :: string
  avToolCallID :: string
  avKind :: string
  avText :: string
  avSubToolCallID :: string
  avArgs :: jargs
  avResult :: string
  avIsError :: bool

record activity_emitter =
  aeAgentType :: string
  aeDepth :: int
  aeToolCallID :: string
  aeInterrupted :: bool

definition activity_base :: "activity_emitter \<Rightarrow> activity" where
  "activity_base e = \<lparr>avAgentType = aeAgentType e, avDepth = aeDepth e, avPhase = '''', avTool = '''',
     avToolCallID = aeToolCallID e, avKind = '''', avText = '''', avSubToolCallID = '''', avArgs = None,
     avResult = '''', avIsError = False\<rparr>"

fun activity_emit :: "frame \<Rightarrow> activity_emitter \<Rightarrow> activity_emitter \<times> activity list" where
  "activity_emit (FText s) e =
     (e, if s \<noteq> '''' then [(activity_base e)\<lparr>avPhase := ''stream'', avKind := ''text'', avText := s\<rparr>] else [])"
| "activity_emit (FThinking s) e =
     (e, if s \<noteq> '''' then [(activity_base e)\<lparr>avPhase := ''stream'', avKind := ''thinking'', avText := s\<rparr>] else [])"
| "activity_emit (FToolUse uid name input) e =
     (e, [(activity_base e)\<lparr>avPhase := ''tool'', avTool := name, avSubToolCallID := uid, avArgs := input\<rparr>])"
| "activity_emit (FToolResult uid name content err) e =
     (e, [(activity_base e)\<lparr>avPhase := ''result'', avTool := name, avSubToolCallID := uid, avResult := content, avIsError := err\<rparr>])"
| "activity_emit (FInterrupt g) e =
     (e\<lparr>aeInterrupted := True\<rparr>,
      [(activity_base e)\<lparr>avPhase := ''interrupted'', avTool := iToolName g, avSubToolCallID := iToolCallID g, avKind := iKind g\<rparr>])"
| "activity_emit FDone e = (e, if aeInterrupted e then [] else [(activity_base e)\<lparr>avPhase := ''done''\<rparr>])"
| "activity_emit (FError m) e = (e, [(activity_base e)\<lparr>avPhase := ''error''\<rparr>])"
| "activity_emit _ e = (e, [])"

text \<open>The signals of a child, the first one sent before it runs.\<close>

fun activities :: "activity_emitter \<Rightarrow> frame list \<Rightarrow> activity list" where
  "activities e [] = []"
| "activities e (f # fs) = snd (activity_emit f e) @ activities (fst (activity_emit f e)) fs"

definition child_activities :: "agent_def \<Rightarrow> int \<Rightarrow> string \<Rightarrow> frame list \<Rightarrow> activity list" where
  "child_activities d depth callID fs =
     (let e = \<lparr>aeAgentType = adName d, aeDepth = depth, aeToolCallID = callID, aeInterrupted = False\<rparr>
      in (activity_base e)\<lparr>avPhase := ''start''\<rparr> # activities e fs)"

lemma activities_append: "activities e (fs @ gs) = activities e fs @ activities (fold (\<lambda>f e. fst (activity_emit f e)) fs e) gs"
  by (induction fs arbitrary: e) auto

lemma interrupted_silent: "aeInterrupted e \<Longrightarrow> avPhase a = ''done'' \<Longrightarrow> a \<notin> set (activities e fs)"
proof (induction fs arbitrary: e)
  case (Cons f fs)
  then show ?case by (cases f) auto
qed simp

lemma interrupt_kept: "aeInterrupted e \<Longrightarrow> aeInterrupted (fst (activity_emit f e))"
  by (cases f) auto

text \<open>A child that has met a gate is never shown as done, whatever its loop goes on to send.\<close>

lemma gated_child_not_done:
  assumes "FDone \<notin> set fs"
  shows "\<forall>a \<in> set (child_activities d depth callID (fs @ FInterrupt g # gs)). avPhase a \<noteq> ''done''"
proof -
  have quiet: "a \<in> set (activities e fs) \<Longrightarrow> avPhase a \<noteq> ''done''" if "FDone \<notin> set fs" for a e fs
    using that
  proof (induction fs arbitrary: e)
    case (Cons f fs)
    then show ?case by (cases f) (auto split: if_splits)
  qed simp
  show ?thesis
    using assms quiet interrupted_silent
    by (fastforce simp: child_activities_def activities_append Let_def)
qed

subsection \<open>Usage of the run tree\<close>

text \<open>\<open>usageCapture\<close>: the child's usage report goes into the scope its context carries.\<close>

definition usage_capture :: "frame \<Rightarrow> usage_scope \<Rightarrow> usage_scope" where
  "usage_capture f sc = (case f of FUsage u \<Rightarrow> scope_add u sc | _ \<Rightarrow> sc)"

text \<open>
  A child that has used \<open>u\<close> and runs under the scope it inherits: the hook of its loop reports, the
  capture folds the report in.
\<close>

definition child_usage :: "env \<Rightarrow> usage \<Rightarrow> usage_scope \<Rightarrow> usage_scope" where
  "child_usage en u sc =
     fold usage_capture (frames (snd (usage_report en (\<lambda>_. Some sc) True ((init_lstate 0)\<lparr>sUsage := u\<rparr>)))) sc"

lemma child_usage_total:
  "usRoot (child_usage en u sc) = usRoot sc"
  "scope_total (child_usage en u sc) = scope_total sc + (u + (if usRoot sc then scope_total sc else 0))"
  by (simp_all add: child_usage_def usage_report_def Let_def usage_capture_def scope_add_def scope_total_def
      frames_def init_lstate_def emit_ignored_def emit_def)

definition times_usage :: "nat \<Rightarrow> usage \<Rightarrow> usage" where
  "times_usage n u = sum_list (replicate n u)"

lemma times_usage_double: "times_usage (2 * n) u = times_usage n u + times_usage n u"
  by (simp add: times_usage_def mult_2 replicate_add)

definition tree_usage :: "env \<Rightarrow> bool \<Rightarrow> usage list \<Rightarrow> usage" where
  "tree_usage en root us = scope_total (fold (child_usage en) us \<lparr>usChild = 0, usRoot = root\<rparr>)"

lemma fold_child_usage_root: "usRoot (fold (child_usage en) us sc) = usRoot sc"
  by (induction us arbitrary: sc) (simp_all add: child_usage_total)

lemma tree_usage_snoc:
  "tree_usage en root (us @ [u]) = tree_usage en root us + (u + (if root then tree_usage en root us else 0))"
  by (simp add: tree_usage_def child_usage_total fold_child_usage_root)

lemma tree_usage_Nil [simp]: "tree_usage en root [] = 0"
  by (simp add: tree_usage_def scope_total_def)

text \<open>Under a scope that is not marked as the root's, the usage of the children is counted once.\<close>

lemma inherited_usage_exact: "tree_usage en False us = sum_list us"
  by (induction us rule: rev_induct) (simp_all add: tree_usage_snoc)

text \<open>C23: the children of a run inherit the scope that marks the root, so each of them reports what its
  earlier siblings used again: of n children that finish one after another, the usage of the i-th is
  counted 2 to the n - i times.\<close>

theorem descendant_usage_weighted:
  "tree_usage en True us = sum_list (map (\<lambda>i. times_usage (2 ^ (length us - Suc i)) (us ! i)) [0..<length us])"
proof (induction us rule: rev_induct)
  case (snoc u us)
  let ?n = "length us"
  have dbl: "times_usage (2 ^ (Suc ?n - Suc i)) (us ! i) =
      times_usage (2 ^ (?n - Suc i)) (us ! i) + times_usage (2 ^ (?n - Suc i)) (us ! i)" if "i < ?n" for i
    using times_usage_double [of "2 ^ (?n - Suc i)"] that by (simp flip: power_Suc add: Suc_diff_Suc)
  have ev: "map (\<lambda>i. times_usage (2 ^ (length (us @ [u]) - Suc i)) ((us @ [u]) ! i)) [0..<?n] =
      map (\<lambda>i. times_usage (2 ^ (?n - Suc i)) (us ! i) + times_usage (2 ^ (?n - Suc i)) (us ! i)) [0..<?n]"
    using dbl by (intro map_cong refl) (simp add: nth_append)
  have one: "times_usage (2 ^ (length (us @ [u]) - Suc ?n)) ((us @ [u]) ! ?n) = u" by (simp add: times_usage_def)
  have "sum_list (map (\<lambda>i. times_usage (2 ^ (length (us @ [u]) - Suc i)) ((us @ [u]) ! i)) [0..<Suc ?n]) =
      sum_list (map (\<lambda>i. times_usage (2 ^ (length (us @ [u]) - Suc i)) ((us @ [u]) ! i)) [0..<?n]) + u"
    using one by simp
  also have "\<dots> = tree_usage en True us + tree_usage en True us + u"
    unfolding ev by (simp add: sum_list_addf snoc.IH)
  finally have "sum_list (map (\<lambda>i. times_usage (2 ^ (length (us @ [u]) - Suc i)) ((us @ [u]) ! i)) [0..<Suc ?n]) =
      tree_usage en True us + tree_usage en True us + u" .
  then show ?case by (simp add: tree_usage_snoc algebra_simps)
qed simp

lemma two_children_overcounted: "tree_usage en True [Usage 10 5 0 0 0, Usage 1 1 0 0 0] = Usage 21 11 0 0 0"
  using tree_usage_snoc [of en True "[Usage 10 5 0 0 0]" "Usage 1 1 0 0 0"] tree_usage_snoc [of en True "[]" "Usage 10 5 0 0 0"]
  by (simp add: plus_usage_def zero_usage_def)

subsection \<open>What a parent is told\<close>

text \<open>A result that is not an error comes from a child that finished, waiting for nothing.\<close>

lemma child_result_error: "trIsError (child_result c) \<longleftrightarrow> ceError c \<noteq> None \<or> cePending c \<noteq> []"
  by (auto simp: child_result_def collapse_def Let_def split: option.splits)

lemma spawn_call_success:
  "\<not> trIsError (fst (spawn_call e slot child depth args t)) \<Longrightarrow>
     \<exists>p. plan_child e t depth args = Inr p \<and> ceError (child p) = None \<and> cePending (child p) = [] \<and>
       fst (spawn_call e slot child depth args t) = collapse (ceMsgs (child p))"
proof (cases "plan_child e t depth args")
  case (Inl res)
  have "trIsError res" using Inl
    by (auto simp: plan_child_def Let_def error_result_def split: if_splits sum.splits option.splits)
  moreover assume "\<not> trIsError (fst (spawn_call e slot child depth args t))"
  ultimately show ?thesis using Inl by (simp add: spawn_call_def)
next
  case (Inr p)
  assume ok: "\<not> trIsError (fst (spawn_call e slot child depth args t))"
  have "fst (spawn_call e slot child depth args t) = child_result (child p)"
    using ok Inr by (auto simp: spawn_call_def error_result_def no_slot_result_def budget_result_def
        split: option.splits prod.splits bool.splits if_splits)
  moreover from this ok have "ceError (child p) = None" "cePending (child p) = []" by (auto simp: child_result_error)
  ultimately show ?thesis using Inr by (simp add: child_result_def Let_def)
qed

text \<open>The pool of a child: tools of the parent's, and no spawn tool at the maximal depth.\<close>

lemma child_pool_sub: "set (rTools (child_pool t d n)) \<subseteq> set (rTools (stParent t))"
  by (auto simp: child_pool_def scoped_def new_registry_def Let_def)

lemma child_pool_at_limit:
  assumes "stMaxDepth t \<le> n"
  shows "reg_get (child_pool t d n) ToolName = None"
  using assms
  by (auto simp: child_pool_def scoped_def new_registry_def reg_get_def mget_def Let_def map_of_eq_None_iff)

end
