(* ===== verification/SpawnTree.thy ===== *)
theory SpawnTree
  imports Subagent
begin

section \<open>The spawn calls of a run tree\<close>

text \<open>
  One spawn tool serves a whole run tree: the calls of the root loop and of every child ask for the
  same slots and the same budget, each on its own goroutine. A call is screened, takes a slot, is
  counted, runs its child and returns; what a child does between is to make further calls and wait
  for them. \<open>settle_step\<close> is a step a call makes by itself, \<open>spawn_step\<close> adds new calls and the
  cancellation of a call that waits.
\<close>

datatype spawn_phase = Asking | Holding | Running | Returned bool

record spawned_call =
  scParent :: "nat option"
  scDepth :: int
  scValid :: bool
  scPhase :: spawn_phase

record spawn_world =
  swTool :: spawn_tool
  swCalls :: "spawned_call list"

definition set_phase :: "nat \<Rightarrow> spawn_phase \<Rightarrow> spawned_call list \<Rightarrow> spawned_call list" where
  "set_phase i ph cs = cs[i := (cs ! i)\<lparr>scPhase := ph\<rparr>]"

definition nested_returned :: "nat \<Rightarrow> spawned_call list \<Rightarrow> bool" where
  "nested_returned i cs = list_all (\<lambda>c. scParent c = Some i \<longrightarrow> (\<exists>b. scPhase c = Returned b)) cs"

text \<open>The call \<open>i\<close> is in phase \<open>ph\<close>.\<close>

definition at :: "spawn_world \<Rightarrow> nat \<Rightarrow> spawn_phase \<Rightarrow> bool" where
  "at w i ph = (i < length (swCalls w) \<and> scPhase (swCalls w ! i) = ph)"

inductive settle_step :: "spawn_world \<Rightarrow> spawn_world \<Rightarrow> bool" where
  Screen: "at w i Asking \<Longrightarrow> \<not> scValid (swCalls w ! i) \<Longrightarrow>
    settle_step w (w\<lparr>swCalls := set_phase i (Returned False) (swCalls w)\<rparr>)"
| Take: "at w i Asking \<Longrightarrow> scValid (swCalls w ! i) \<Longrightarrow> take_slot (swTool w) = Some t \<Longrightarrow>
    settle_step w (w\<lparr>swTool := t, swCalls := set_phase i Holding (swCalls w)\<rparr>)"
| Saturated: "at w i Asking \<Longrightarrow> scValid (swCalls w ! i) \<Longrightarrow> scDepth (swCalls w ! i) \<noteq> 0 \<Longrightarrow> take_slot (swTool w) = None \<Longrightarrow>
    settle_step w (w\<lparr>swCalls := set_phase i (Returned False) (swCalls w)\<rparr>)"
| Over: "at w i Holding \<Longrightarrow> count_spawn (swTool w) = (True, t) \<Longrightarrow>
    settle_step w (w\<lparr>swTool := free_slot t, swCalls := set_phase i (Returned False) (swCalls w)\<rparr>)"
| Run: "at w i Holding \<Longrightarrow> count_spawn (swTool w) = (False, t) \<Longrightarrow>
    settle_step w (w\<lparr>swTool := t, swCalls := set_phase i Running (swCalls w)\<rparr>)"
| Return: "at w i Running \<Longrightarrow> nested_returned i (swCalls w) \<Longrightarrow>
    settle_step w (w\<lparr>swTool := free_slot (swTool w), swCalls := set_phase i (Returned True) (swCalls w)\<rparr>)"

definition new_call :: "spawn_env \<Rightarrow> spawn_tool \<Rightarrow> nat option \<Rightarrow> int \<Rightarrow> jargs \<Rightarrow> spawned_call" where
  "new_call e t parent depth args =
     \<lparr>scParent = parent, scDepth = depth,
      scValid = (case plan_child e t depth args of Inl _ \<Rightarrow> False | Inr _ \<Rightarrow> True), scPhase = Asking\<rparr>"

inductive spawn_step :: "spawn_world \<Rightarrow> spawn_world \<Rightarrow> bool" where
  Settle: "settle_step w w' \<Longrightarrow> spawn_step w w'"
| RootCall: "spawn_step w (w\<lparr>swCalls := swCalls w @ [new_call e (swTool w) None 0 args]\<rparr>)"
| NestedCall: "at w p Running \<Longrightarrow>
    spawn_step w (w\<lparr>swCalls := swCalls w @ [new_call e (swTool w) (Some p) (scDepth (swCalls w ! p) + 1) args]\<rparr>)"
| Cancel: "at w i Asking \<Longrightarrow> scDepth (swCalls w ! i) = 0 \<Longrightarrow>
    spawn_step w (w\<lparr>swCalls := set_phase i (Returned False) (swCalls w)\<rparr>)"

inductive spawn_reach :: "spawn_tool \<Rightarrow> spawn_world \<Rightarrow> bool" for t where
  Start: "spawn_reach t \<lparr>swTool = t, swCalls = []\<rparr>"
| Step: "spawn_reach t w \<Longrightarrow> spawn_step w w' \<Longrightarrow> spawn_reach t w'"

subsection \<open>The invariant\<close>

definition holds_slot :: "spawned_call \<Rightarrow> bool" where
  "holds_slot c = (scPhase c = Holding \<or> scPhase c = Running)"

definition has_run :: "spawned_call \<Rightarrow> bool" where
  "has_run c = (scPhase c = Running \<or> scPhase c = Returned True)"

definition count_calls :: "(spawned_call \<Rightarrow> bool) \<Rightarrow> spawn_world \<Rightarrow> int" where
  "count_calls P w = int (length (filter P (swCalls w)))"

definition call_ok :: "spawn_tool \<Rightarrow> spawned_call list \<Rightarrow> nat \<Rightarrow> bool" where
  "call_ok t cs i =
     ((case scParent (cs ! i) of None \<Rightarrow> scDepth (cs ! i) = 0 | Some p \<Rightarrow> p < i \<and> 0 < scDepth (cs ! i)) \<and>
      (scValid (cs ! i) \<longrightarrow> scDepth (cs ! i) < stMaxDepth t) \<and>
      (holds_slot (cs ! i) \<or> has_run (cs ! i) \<longrightarrow> scValid (cs ! i)))"

definition spawn_inv :: "spawn_world \<Rightarrow> bool" where
  "spawn_inv w =
     (stHeld (swTool w) = count_calls holds_slot w \<and> stHeld (swTool w) \<le> stSlots (swTool w) \<and>
      count_calls has_run w \<le> stSpawned (swTool w) \<and> count_calls has_run w \<le> stMaxTotal (swTool w) \<and>
      0 < stSlots (swTool w) \<and> (\<forall>i < length (swCalls w). call_ok (swTool w) (swCalls w) i))"

lemma length_filter_update:
  "i < length xs \<Longrightarrow>
     int (length (filter P (xs[i := y]))) = int (length (filter P xs)) - (if P (xs ! i) then 1 else 0) + (if P y then 1 else 0)"
proof (induction xs arbitrary: i)
  case (Cons x xs)
  show ?case
  proof (cases i)
    case (Suc j)
    then show ?thesis using Cons.IH [of j] Cons.prems by (auto split: if_splits)
  qed simp
qed simp

lemma count_calls_phase:
  "i < length (swCalls w) \<Longrightarrow> swCalls w' = set_phase i ph (swCalls w) \<Longrightarrow>
     count_calls P w' = count_calls P w - (if P (swCalls w ! i) then 1 else 0)
       + (if P ((swCalls w ! i)\<lparr>scPhase := ph\<rparr>) then 1 else 0)"
  by (simp add: count_calls_def set_phase_def length_filter_update)

lemma phase_flags [simp]:
  "holds_slot (c\<lparr>scPhase := ph\<rparr>) = (ph = Holding \<or> ph = Running)"
  "has_run (c\<lparr>scPhase := ph\<rparr>) = (ph = Running \<or> ph = Returned True)"
  by (simp_all add: holds_slot_def has_run_def)

lemma set_phase_simps [simp]:
  "length (set_phase i ph cs) = length cs"
  "i < length cs \<Longrightarrow> j < length cs \<Longrightarrow> set_phase i ph cs ! j = (if j = i then (cs ! i)\<lparr>scPhase := ph\<rparr> else cs ! j)"
  by (auto simp: set_phase_def)

lemma call_ok_phase:
  "i < length cs \<Longrightarrow> j < length cs \<Longrightarrow> call_ok t cs j \<Longrightarrow> stMaxDepth t' = stMaxDepth t \<Longrightarrow>
     (ph \<noteq> Asking \<and> ph \<noteq> Returned False \<longrightarrow> scValid (cs ! i)) \<Longrightarrow> call_ok t' (set_phase i ph cs) j"
  by (cases ph) (auto simp: call_ok_def split: option.splits)

lemma tool_ops [simp]:
  "stHeld (free_slot t) = stHeld t - 1" "stSlots (free_slot t) = stSlots t" "stSpawned (free_slot t) = stSpawned t"
  "stMaxTotal (free_slot t) = stMaxTotal t" "stMaxDepth (free_slot t) = stMaxDepth t"
  by (simp_all add: free_slot_def)

lemma take_slot_Some:
  "take_slot t = Some t' \<Longrightarrow> stHeld t < stSlots t \<and> t' = t\<lparr>stHeld := stHeld t + 1\<rparr>"
  by (simp add: take_slot_def split: if_splits)

lemma count_spawn_cases:
  "count_spawn t = (over, t') \<Longrightarrow> over = (stMaxTotal t < stSpawned t + 1) \<and> t' = t\<lparr>stSpawned := stSpawned t + 1\<rparr>"
  by (auto simp: count_spawn_def Let_def)

lemma settle_step_inv: "settle_step w w' \<Longrightarrow> spawn_inv w \<Longrightarrow> spawn_inv w'"
proof (induction rule: settle_step.induct)
  case (Screen w i)
  then show ?case
    by (auto simp: spawn_inv_def at_def count_calls_phase [of i w] holds_slot_def has_run_def intro!: call_ok_phase)
next
  case (Take w i t)
  then show ?case
    by (auto simp: spawn_inv_def at_def count_calls_phase [of i w] holds_slot_def has_run_def
        dest!: take_slot_Some intro!: call_ok_phase)
next
  case (Saturated w i)
  then show ?case
    by (auto simp: spawn_inv_def at_def count_calls_phase [of i w] holds_slot_def has_run_def intro!: call_ok_phase)
next
  case (Over w i t)
  then show ?case
    by (auto simp: spawn_inv_def at_def count_calls_phase [of i w] holds_slot_def has_run_def
        dest!: count_spawn_cases intro!: call_ok_phase)
next
  case (Run w i t)
  then have "scValid (swCalls w ! i)" by (auto simp: spawn_inv_def at_def call_ok_def holds_slot_def)
  with Run show ?case
    by (auto simp: spawn_inv_def at_def count_calls_phase [of i w] holds_slot_def has_run_def
        dest!: count_spawn_cases intro!: call_ok_phase)
next
  case (Return w i)
  then have "scValid (swCalls w ! i)" by (auto simp: spawn_inv_def at_def call_ok_def holds_slot_def)
  with Return show ?case
    by (auto simp: spawn_inv_def at_def count_calls_phase [of i w] holds_slot_def has_run_def intro!: call_ok_phase)
qed

lemma new_call_valid: "scValid (new_call e t p d args) \<Longrightarrow> d < stMaxDepth t"
  by (auto simp: new_call_def plan_child_def split: if_splits)

lemma new_call_fields [simp]:
  "scParent (new_call e t p d args) = p" "scDepth (new_call e t p d args) = d" "scPhase (new_call e t p d args) = Asking"
  by (simp_all add: new_call_def)

lemma spawn_inv_new:
  assumes "spawn_inv w" "case p of None \<Rightarrow> d = 0 | Some q \<Rightarrow> q < length (swCalls w) \<and> 0 < d"
  shows "spawn_inv (w\<lparr>swCalls := swCalls w @ [new_call e (swTool w) p d args]\<rparr>)"
  using assms
  by (auto simp: spawn_inv_def count_calls_def call_ok_def nth_append holds_slot_def has_run_def less_Suc_eq
      dest: new_call_valid split: option.splits)

lemma spawn_step_inv: "spawn_step w w' \<Longrightarrow> spawn_inv w \<Longrightarrow> spawn_inv w'"
proof (induction rule: spawn_step.induct)
  case (Settle w w')
  then show ?case by (rule settle_step_inv)
next
  case (RootCall w e args)
  then show ?case by (intro spawn_inv_new) simp_all
next
  case (NestedCall w p e args)
  then have "0 \<le> scDepth (swCalls w ! p)" by (auto simp: spawn_inv_def at_def call_ok_def split: option.splits)
  with NestedCall show ?case by (intro spawn_inv_new) (simp_all add: at_def)
next
  case (Cancel w i)
  then show ?case
    by (auto simp: spawn_inv_def at_def count_calls_phase [of i w] holds_slot_def has_run_def intro!: call_ok_phase)
qed

lemma fresh_tool_inv:
  "0 < stSlots t \<Longrightarrow> stHeld t = 0 \<Longrightarrow> 0 \<le> stSpawned t \<Longrightarrow> 0 \<le> stMaxTotal t \<Longrightarrow> spawn_inv \<lparr>swTool = t, swCalls = []\<rparr>"
  by (simp add: spawn_inv_def count_calls_def)

lemma spawn_reach_inv: "spawn_reach t w \<Longrightarrow> spawn_inv \<lparr>swTool = t, swCalls = []\<rparr> \<Longrightarrow> spawn_inv w"
  by (induction rule: spawn_reach.induct) (auto intro: spawn_step_inv)

text \<open>The limits of a tool are those it was made with.\<close>

definition limits :: "spawn_tool \<Rightarrow> int \<times> int \<times> int" where
  "limits t = (stMaxDepth t, stMaxTotal t, stSlots t)"

lemma settle_step_limits: "settle_step w w' \<Longrightarrow> limits (swTool w') = limits (swTool w)"
  by (induction rule: settle_step.induct) (auto simp: limits_def dest: take_slot_Some count_spawn_cases)

lemma spawn_step_limits: "spawn_step w w' \<Longrightarrow> limits (swTool w') = limits (swTool w)"
  by (induction rule: spawn_step.induct) (auto dest: settle_step_limits)

lemma spawn_reach_limits: "spawn_reach t w \<Longrightarrow> limits (swTool w) = limits t"
  by (induction rule: spawn_reach.induct) (auto dest: spawn_step_limits)

lemma made_tool:
  "0 < stSlots (with_budget a b (new_spawn_tool r d))" "stHeld (with_budget a b (new_spawn_tool r d)) = 0"
  "stSpawned (with_budget a b (new_spawn_tool r d)) = 0" "0 < stMaxTotal (with_budget a b (new_spawn_tool r d))"
  "0 < stMaxDepth (with_budget a b (new_spawn_tool r d))"
  by (auto simp: with_budget_def new_spawn_tool_def defaultMaxTotal_def defaultSpawnConcurrent_def
      defaultMaxDepth_def Let_def)

lemma made_tool_inv: "spawn_reach (with_budget a b (new_spawn_tool r d)) w \<Longrightarrow> spawn_inv w"
  by (erule spawn_reach_inv, rule fresh_tool_inv) (use made_tool [of a b r d] in auto)

text \<open>C21: however the calls of a run tree interleave, no more children run at once than the tool has
  slots, no more are ever run than the budget of the request, and each runs within the maximal
  depth.\<close>

theorem spawn_tree_bounded:
  assumes "spawn_reach t w" "t = with_budget a b (new_spawn_tool r d)"
  shows "count_calls (\<lambda>c. scPhase c = Running) w \<le> stSlots t \<and> count_calls has_run w \<le> stMaxTotal t \<and>
    (\<forall>c \<in> set (swCalls w). has_run c \<longrightarrow> scDepth c + 1 \<le> stMaxDepth t)"
proof -
  have inv: "spawn_inv w" using assms(1) unfolding assms(2) by (rule made_tool_inv)
  have lim: "stMaxDepth (swTool w) = stMaxDepth t" "stMaxTotal (swTool w) = stMaxTotal t" "stSlots (swTool w) = stSlots t"
    using spawn_reach_limits [OF assms(1)] unfolding limits_def by blast+
  have "length (filter (\<lambda>c. scPhase c = Running) cs) \<le> length (filter holds_slot cs)" for cs
    by (induction cs) (auto simp: holds_slot_def)
  then have "count_calls (\<lambda>c. scPhase c = Running) w \<le> count_calls holds_slot w" by (simp add: count_calls_def)
  then have "count_calls (\<lambda>c. scPhase c = Running) w \<le> stSlots t" "count_calls has_run w \<le> stMaxTotal t"
    using inv unfolding spawn_inv_def lim by linarith+
  moreover have "\<forall>c \<in> set (swCalls w). has_run c \<longrightarrow> scDepth c + 1 \<le> stMaxDepth t"
  proof
    fix c assume "c \<in> set (swCalls w)"
    then obtain i where i: "i < length (swCalls w)" "c = swCalls w ! i" by (auto simp: in_set_conv_nth)
    with inv have "call_ok (swTool w) (swCalls w) i" by (simp add: spawn_inv_def)
    then show "has_run c \<longrightarrow> scDepth c + 1 \<le> stMaxDepth t" using i lim by (auto simp: call_ok_def)
  qed
  ultimately show ?thesis by blast
qed

subsection \<open>A tree always drains\<close>

fun phase_weight :: "spawn_phase \<Rightarrow> nat" where
  "phase_weight Asking = 3"
| "phase_weight Holding = 2"
| "phase_weight Running = 1"
| "phase_weight (Returned b) = 0"

definition to_do :: "spawn_world \<Rightarrow> nat" where
  "to_do w = sum_list (map (\<lambda>c. phase_weight (scPhase c)) (swCalls w))"

definition all_returned :: "spawn_world \<Rightarrow> bool" where
  "all_returned w = list_all (\<lambda>c. \<exists>b. scPhase c = Returned b) (swCalls w)"

lemma sum_list_phase:
  "i < length cs \<Longrightarrow> phase_weight ph < phase_weight (scPhase (cs ! i)) \<Longrightarrow>
     sum_list (map (\<lambda>c. phase_weight (scPhase c)) (set_phase i ph cs)) < sum_list (map (\<lambda>c. phase_weight (scPhase c)) cs)"
  unfolding set_phase_def
proof (induction cs arbitrary: i)
  case (Cons c cs)
  then show ?case by (cases i) auto
qed simp

lemma settle_step_weight: "settle_step w w' \<Longrightarrow> to_do w' < to_do w"
  by (induction rule: settle_step.induct) (auto simp: to_do_def at_def intro!: sum_list_phase)

lemma settle_steps_weight: "(settle_step ^^ n) w w' \<Longrightarrow> n + to_do w' \<le> to_do w"
proof (induction n arbitrary: w')
  case (Suc n)
  then obtain v where "(settle_step ^^ n) w v" "settle_step v w'" by auto
  then show ?case using Suc.IH [of v] settle_step_weight [of v w'] by simp
qed simp

lemma to_do_bound: "to_do w \<le> 3 * length (swCalls w)"
proof -
  have "sum_list (map (\<lambda>c. phase_weight (scPhase c)) cs) \<le> 3 * length cs" for cs
  proof (induction cs)
    case (Cons c cs)
    then show ?case by (cases "scPhase c") simp_all
  qed simp
  then show ?thesis by (simp add: to_do_def)
qed

lemma stuckD:
  assumes "\<nexists>w'. settle_step w w'" "i < length (swCalls w)"
  shows "scPhase (swCalls w ! i) \<noteq> Holding"
    "scPhase (swCalls w ! i) = Asking \<Longrightarrow> scDepth (swCalls w ! i) = 0 \<and> take_slot (swTool w) = None"
    "scPhase (swCalls w ! i) = Running \<Longrightarrow> \<not> nested_returned i (swCalls w)"
proof -
  show "scPhase (swCalls w ! i) \<noteq> Holding"
  proof
    assume h: "scPhase (swCalls w ! i) = Holding"
    obtain over t where "count_spawn (swTool w) = (over, t)" by force
    then show False using h assms settle_step.Over [of w i t] settle_step.Run [of w i t]
      by (cases over) (auto simp: at_def)
  qed
  show "scPhase (swCalls w ! i) = Asking \<Longrightarrow> scDepth (swCalls w ! i) = 0 \<and> take_slot (swTool w) = None"
    using assms settle_step.Screen [of w i] settle_step.Take [of w i] settle_step.Saturated [of w i]
    by (cases "take_slot (swTool w)") (auto simp: at_def)
  show "scPhase (swCalls w ! i) = Running \<Longrightarrow> \<not> nested_returned i (swCalls w)"
    using assms settle_step.Return [of w i] by (auto simp: at_def)
qed

lemma stuck_returned:
  assumes "spawn_inv w" "\<nexists>w'. settle_step w w'"
  shows "all_returned w"
proof -
  let ?cs = "swCalls w"
  note ok = assms(1) [unfolded spawn_inv_def]
  have not_running: "scPhase (?cs ! i) \<noteq> Running" if "i < length ?cs" for i
    using that
  proof (induction "length ?cs - i" arbitrary: i rule: less_induct)
    case less
    show ?case
    proof
      assume r: "scPhase (?cs ! i) = Running"
      from stuckD(3) [OF assms(2) less.prems r] obtain j where j: "j < length ?cs" "scParent (?cs ! j) = Some i"
        "\<not> (\<exists>b. scPhase (?cs ! j) = Returned b)"
        by (auto simp: nested_returned_def list_all_length)
      have "i < j" "0 < scDepth (?cs ! j)" using ok j(1,2) by (force simp: call_ok_def)+
      moreover have "scPhase (?cs ! j) \<noteq> Running" using less.hyps [of j] j(1) \<open>i < j\<close> by simp
      ultimately show False
        using stuckD [OF assms(2) j(1)] j(3) by (cases "scPhase (?cs ! j)") auto
    qed
  qed
  have no_holder: "filter holds_slot ?cs = []"
    using not_running stuckD(1) [OF assms(2)] by (auto simp: filter_empty_conv holds_slot_def in_set_conv_nth)
  have free: "take_slot (swTool w) \<noteq> None"
    using ok no_holder by (simp add: count_calls_def take_slot_def)
  have "\<exists>b. scPhase (?cs ! i) = Returned b" if "i < length ?cs" for i
    using not_running [OF that] stuckD [OF assms(2) that] free by (cases "scPhase (?cs ! i)") auto
  then show ?thesis by (simp add: all_returned_def list_all_length)
qed

text \<open>C22: the spawn calls of a run tree never block one another: left to themselves, they make at most
  three steps each, and the only state in which none can step is the one where all have returned.\<close>

theorem spawn_tree_drains:
  assumes "spawn_reach (with_budget a b (new_spawn_tool r d)) w" "(settle_step ^^ n) w w'"
  shows "n \<le> 3 * length (swCalls w) \<and> (all_returned w' \<or> (\<exists>w''. settle_step w' w''))"
proof
  show "n \<le> 3 * length (swCalls w)" using settle_steps_weight [OF assms(2)] to_do_bound [of w] by simp
  have "spawn_inv w'" using assms(2)
  proof (induction n arbitrary: w')
    case 0
    then show ?case using made_tool_inv [OF assms(1)] by simp
  next
    case (Suc n)
    then show ?case by (auto intro: settle_step_inv)
  qed
  then show "all_returned w' \<or> (\<exists>w''. settle_step w' w'')" using stuck_returned by blast
qed

subsection \<open>An example\<close>

text \<open>
  One slot: the root's child spawns a child of its own, which is refused, and both calls return.
\<close>

definition demo_spawn :: spawn_env where
  "demo_spawn = \<lparr>seResolve = \<lambda>_. Inr \<lparr>adName = ''general-purpose'', adTools = [], adDisallowedTools = [],
       adModel = '''', adSkills = [], adSystem = ''''\<rparr>, seFactory = \<lambda>_ _. None\<rparr>"

definition demo_spawn_tool :: spawn_tool where
  "demo_spawn_tool = with_budget 0 1 (new_spawn_tool new_registry 0)"

definition demo_args :: jargs where "demo_args = Some [(''prompt'', JStr ''go'')]"

definition demo_world :: "spawn_phase \<Rightarrow> spawn_phase \<Rightarrow> spawn_world" where
  "demo_world p q = \<lparr>swTool = demo_spawn_tool\<lparr>stSpawned := 1, stHeld := 1\<rparr>,
     swCalls = [\<lparr>scParent = None, scDepth = 0, scValid = True, scPhase = p\<rparr>,
                \<lparr>scParent = Some 0, scDepth = 1, scValid = True, scPhase = q\<rparr>]\<rparr>"

lemma demo_reached: "spawn_reach demo_spawn_tool (demo_world Running Asking)"
proof -
  have tool: "demo_spawn_tool = \<lparr>stParent = new_registry, stMaxDepth = 3, stMaxTotal = 32, stSlots = 1, stSpawned = 0, stHeld = 0\<rparr>"
    by (simp add: demo_spawn_tool_def with_budget_def new_spawn_tool_def defaultMaxDepth_def defaultMaxTotal_def)
  have trim: "trim_space ''go'' \<noteq> ''''" by (simp add: trim_space_def is_space_def)
  have call: "new_call demo_spawn t p d demo_args = \<lparr>scParent = p, scDepth = d, scValid = True, scPhase = Asking\<rparr>"
    if "d < stMaxDepth t" for t p d
    using that trim by (simp add: new_call_def plan_child_def demo_spawn_def demo_args_def string_arg_def mget_def Let_def)
  let ?t = demo_spawn_tool
  let ?c = "\<lambda>ph. \<lparr>scParent = None, scDepth = 0, scValid = True, scPhase = ph\<rparr>"
  let ?w = "\<lambda>n h ph. \<lparr>swTool = ?t\<lparr>stSpawned := n, stHeld := h\<rparr>, swCalls = [?c ph]\<rparr>"
  have "spawn_reach ?t (?w 0 0 Asking)"
    using spawn_reach.Step [OF spawn_reach.Start spawn_step.RootCall [of "\<lparr>swTool = ?t, swCalls = []\<rparr>" demo_spawn demo_args]]
      call [of 0 ?t None] by (simp add: tool)
  moreover have "settle_step (?w 0 0 Asking) (?w 0 1 Holding)"
    using settle_step.Take [of "?w 0 0 Asking" 0] by (simp add: at_def take_slot_def tool set_phase_def)
  moreover have "settle_step (?w 0 1 Holding) (?w 1 1 Running)"
    using settle_step.Run [of "?w 0 1 Holding" 0] by (simp add: at_def count_spawn_def tool set_phase_def)
  ultimately have r: "spawn_reach ?t (?w 1 1 Running)" by (blast intro: spawn_reach.Step spawn_step.Settle)
  show ?thesis
    using spawn_reach.Step [OF r spawn_step.NestedCall [of _ 0 demo_spawn demo_args]]
      call [of 1 "?t\<lparr>stSpawned := 1, stHeld := 1\<rparr>" "Some 0"]
    by (simp add: at_def demo_world_def tool)
qed

lemma spawn_tree_bounded_witness: "count_calls (\<lambda>c. scPhase c = Running) (demo_world Running Asking) \<le> 1"
  using spawn_tree_bounded [OF demo_reached demo_spawn_tool_def]
  by (simp add: demo_spawn_tool_def with_budget_def new_spawn_tool_def Let_def)

lemma spawn_tree_drains_witness:
  "(\<exists>w'. settle_step (demo_world Running Asking) w')"
  using spawn_tree_drains [OF demo_reached [unfolded demo_spawn_tool_def], of 0 "demo_world Running Asking"]
  by (simp add: all_returned_def demo_world_def)

end
