(* ===== verification/Jobs.thy ===== *)
theory Jobs
  imports Prelude
begin

section \<open>The periodic scheduler\<close>

text \<open>
  \<open>scheduler/scheduler.go\<close>: named jobs on intervals. The mutex makes the selection of the due jobs one
  step; each due job then runs on a goroutine of its own until it returns or panics. \<open>jbRunning\<close> is
  the goroutines, \<open>jbLog\<close> the dispatches with the instant and the interval then in force.
\<close>

record job =
  jName :: string
  jInterval :: int
  jHasRun :: bool

record scheduler =
  jbJobs :: "(string, job) gomap"
  jbLastRun :: "(string, time) gomap"
  jbInflight :: "(string, unit) gomap"
  jbRunning :: "string list"
  jbLog :: "(string \<times> time \<times> int) list"

datatype scheduler_error = NonPositiveInterval string int | NoRunFunc string

fun add_jobs :: "job list \<Rightarrow> scheduler \<Rightarrow> scheduler_error + scheduler" where
  "add_jobs [] s = Inr s"
| "add_jobs (j # js) s =
     (if jInterval j \<le> 0 then Inl (NonPositiveInterval (jName j) (jInterval j))
      else if \<not> jHasRun j then Inl (NoRunFunc (jName j))
      else add_jobs js (s\<lparr>jbJobs := mput (jName j) j (jbJobs s)\<rparr>))"

definition new_scheduler :: "job list \<Rightarrow> scheduler_error + scheduler" where
  "new_scheduler js = add_jobs js \<lparr>jbJobs = [], jbLastRun = [], jbInflight = [], jbRunning = [], jbLog = []\<rparr>"

definition set_interval :: "string \<Rightarrow> int \<Rightarrow> scheduler \<Rightarrow> scheduler" where
  "set_interval n d s =
     (if d \<le> 0 then s
      else case mget (jbJobs s) n of
        None \<Rightarrow> s
      | Some j \<Rightarrow> s\<lparr>jbJobs := mput n (j\<lparr>jInterval := d\<rparr>) (jbJobs s)\<rparr>)"

definition job_due :: "time \<Rightarrow> bool \<Rightarrow> scheduler \<Rightarrow> string \<times> job \<Rightarrow> bool" where
  "job_due now firstRunOK s = (\<lambda>(n, j).
     (case mget (jbLastRun s) n of
        None \<Rightarrow> firstRunOK
      | Some prev \<Rightarrow> jInterval j \<le> now - prev) \<and>
     mget (jbInflight s) n = None)"

text \<open>\<open>markDueLocked\<close>, one job of the map after the other.\<close>

fun mark_due :: "time \<Rightarrow> bool \<Rightarrow> (string, job) gomap \<Rightarrow> scheduler \<Rightarrow> (string \<times> job) list \<times> scheduler" where
  "mark_due now firstRunOK [] s = ([], s)"
| "mark_due now firstRunOK ((n, j) # js) s =
     (if job_due now firstRunOK s (n, j) then
        let (due, s') = mark_due now firstRunOK js
              (s\<lparr>jbLastRun := mput n now (jbLastRun s), jbInflight := mput n () (jbInflight s)\<rparr>)
        in ((n, j) # due, s')
      else mark_due now firstRunOK js s)"

definition dispatch_jobs :: "time \<Rightarrow> (string \<times> job) list \<times> scheduler \<Rightarrow> scheduler" where
  "dispatch_jobs now = (\<lambda>(due, s). s\<lparr>jbRunning := jbRunning s @ map fst due,
     jbLog := jbLog s @ map (\<lambda>(n, j). (n, now, jInterval j)) due\<rparr>)"

definition catch_up :: "time \<Rightarrow> scheduler \<Rightarrow> scheduler" where
  "catch_up now s = dispatch_jobs now (mark_due now True (jbJobs s) s)"

definition run_due :: "time \<Rightarrow> scheduler \<Rightarrow> scheduler" where
  "run_due now s = dispatch_jobs now (mark_due now False (jbJobs s) s)"

text \<open>The end of a run, by return, error or panic: the deferred deletion of the mark.\<close>

definition job_done :: "string \<Rightarrow> scheduler \<Rightarrow> scheduler" where
  "job_done n s = s\<lparr>jbInflight := mdel n (jbInflight s), jbRunning := remove1 n (jbRunning s)\<rparr>"

definition last_run :: "string \<Rightarrow> scheduler \<Rightarrow> time option" where
  "last_run n s = mget (jbLastRun s) n"

inductive job_step :: "scheduler \<Rightarrow> scheduler \<Rightarrow> bool" where
  CatchUp: "job_step s (catch_up now s)"
| Tick: "job_step s (run_due now s)"
| Retune: "job_step s (set_interval n d s)"
| Finish: "n \<in> set (jbRunning s) \<Longrightarrow> job_step s (job_done n s)"

inductive job_reach :: "job list \<Rightarrow> scheduler \<Rightarrow> bool" for js where
  Start: "new_scheduler js = Inr s \<Longrightarrow> job_reach js s"
| Step: "job_reach js s \<Longrightarrow> job_step s s' \<Longrightarrow> job_reach js s'"

subsection \<open>No overlap, and the interval between dispatches\<close>

text \<open>Between two dispatches of a job in the log at least the interval of the later one has passed.\<close>

definition runs_of :: "string \<Rightarrow> (string \<times> time \<times> int) list \<Rightarrow> (time \<times> int) list" where
  "runs_of n log = map snd (filter (\<lambda>x. fst x = n) log)"

fun spaced :: "(time \<times> int) list \<Rightarrow> bool" where
  "spaced (a # b # xs) = (fst a + snd b \<le> fst b \<and> spaced (b # xs))"
| "spaced xs = True"

lemma spaced_snoc: "spaced (xs @ [b]) \<longleftrightarrow> spaced xs \<and> (xs \<noteq> [] \<longrightarrow> fst (last xs) + snd b \<le> fst b)"
  by (induction xs rule: spaced.induct) auto

definition jobs_ok :: "scheduler \<Rightarrow> bool" where
  "jobs_ok s =
     (mok (jbJobs s) \<and> (\<forall>n j. mget (jbJobs s) n = Some j \<longrightarrow> 0 < jInterval j) \<and>
      distinct (jbRunning s) \<and> (\<forall>n. n \<in> set (jbRunning s) \<longleftrightarrow> mget (jbInflight s) n \<noteq> None) \<and>
      (\<forall>n. spaced (runs_of n (jbLog s))) \<and>
      (\<forall>n. mget (jbLastRun s) n = (if runs_of n (jbLog s) = [] then None else Some (fst (last (runs_of n (jbLog s)))))))"

lemma runs_of_append [simp]: "runs_of n (xs @ ys) = runs_of n xs @ runs_of n ys"
  by (simp add: runs_of_def)

text \<open>What a selection does: each due job once, stamped and marked.\<close>

lemma mark_due_jobs [simp]:
  "jbJobs (snd (mark_due now f js s)) = jbJobs s" "jbRunning (snd (mark_due now f js s)) = jbRunning s"
  "jbLog (snd (mark_due now f js s)) = jbLog s"
  by (induction now f js s rule: mark_due.induct) (auto simp: Let_def split: prod.split)

lemma mark_due_exact:
  "mok js \<Longrightarrow> fst (mark_due now f js s) = filter (job_due now f s) js \<and>
     (\<forall>n. mget (jbLastRun (snd (mark_due now f js s))) n =
        (if n \<in> fst ` set (filter (job_due now f s) js) then Some now else mget (jbLastRun s) n)) \<and>
     (\<forall>n. mget (jbInflight (snd (mark_due now f js s))) n =
        (if n \<in> fst ` set (filter (job_due now f s) js) then Some () else mget (jbInflight s) n))"
proof (induction now f js s rule: mark_due.induct)
  case (2 now f n j js s)
  let ?s = "s\<lparr>jbLastRun := mput n now (jbLastRun s), jbInflight := mput n () (jbInflight s)\<rparr>"
  have fresh: "n \<notin> fst ` set js" and ok: "mok js" using 2(3) by (auto simp: mok_def)
  show ?case
  proof (cases "job_due now f s (n, j)")
    case True
    have same: "filter (job_due now f ?s) js = filter (job_due now f s) js"
    proof (rule filter_cong [OF refl])
      fix x assume "x \<in> set js"
      then have "fst x \<noteq> n" using fresh by auto
      then show "job_due now f ?s x = job_due now f s x" by (cases x) (simp add: job_due_def)
    qed
    show ?thesis using 2(1) [OF True ok] True same by (auto simp: Let_def case_prod_unfold)
  next
    case False
    then show ?thesis using 2(2) [OF False ok] by auto
  qed
qed simp

lemma add_jobs_ok:
  "add_jobs js s = Inr s' \<Longrightarrow> jobs_ok s \<Longrightarrow> jobs_ok s'"
proof (induction js arbitrary: s)
  case (Cons j js)
  then have "jobs_ok (s\<lparr>jbJobs := mput (jName j) j (jbJobs s)\<rparr>)" by (auto simp: jobs_ok_def split: if_splits)
  with Cons show ?case by (auto split: if_splits)
qed simp

lemma new_scheduler_ok: "new_scheduler js = Inr s \<Longrightarrow> jobs_ok s"
  unfolding new_scheduler_def by (erule add_jobs_ok) (simp add: jobs_ok_def runs_of_def)

lemma set_interval_ok: "jobs_ok s \<Longrightarrow> jobs_ok (set_interval n d s)"
  by (auto simp: jobs_ok_def set_interval_def split: option.split)

lemma job_done_ok: "jobs_ok s \<Longrightarrow> jobs_ok (job_done n s)"
  by (auto simp: jobs_ok_def job_done_def)

lemma runs_of_dispatched:
  "mok js \<Longrightarrow> runs_of n (map (\<lambda>(n, j). (n, now, jInterval j)) (filter P js)) =
     (case mget js n of None \<Rightarrow> [] | Some j \<Rightarrow> if P (n, j) then [(now, jInterval j)] else [])"
proof (induction js)
  case (Cons x js)
  obtain m j where x: "x = (m, j)" by force
  have "mget js m = None" "mok js" using Cons.prems by (auto simp: x mok_def mget_def map_of_eq_None_iff)
  then show ?case using Cons.IH by (auto simp: x runs_of_def mget_def)
qed (simp add: runs_of_def)

lemma dispatch_ok:
  assumes "jobs_ok s"
  shows "jobs_ok (dispatch_jobs now (mark_due now first (jbJobs s) s))"
proof -
  let ?due = "filter (job_due now first s) (jbJobs s)"
  obtain due s1 where m: "mark_due now first (jbJobs s) s = (due, s1)" by force
  have ok: "mok (jbJobs s)" using assms by (simp add: jobs_ok_def)
  note ex = mark_due_exact [OF ok, of now first s, unfolded m, simplified]
  have keep: "jbJobs s1 = jbJobs s" "jbRunning s1 = jbRunning s" "jbLog s1 = jbLog s"
    using mark_due_jobs [of now first "jbJobs s" s] by (simp_all add: m)
  have idle: "mget (jbInflight s) n = None" if "(n, j) \<in> set ?due" for n j
    using that by (auto simp: job_due_def)
  have dist: "distinct (map fst ?due)" using ok by (simp add: mok_def distinct_map_filter)
  have run: "distinct (jbRunning s @ map fst ?due)"
    using assms dist idle by (auto simp: jobs_ok_def)
  have new: "runs_of n (map (\<lambda>(n, j). (n, now, jInterval j)) ?due) =
      (case mget (jbJobs s) n of None \<Rightarrow> [] | Some j \<Rightarrow> if job_due now first s (n, j) then [(now, jInterval j)] else [])" for n
    by (rule runs_of_dispatched [OF ok])
  have member: "n \<in> fst ` set ?due \<longleftrightarrow> (\<exists>j. mget (jbJobs s) n = Some j \<and> job_due now first s (n, j))" for n
    using ok by (force simp: in_set_mget dest: mget_in_set)
  have sp: "spaced (runs_of n (jbLog s @ map (\<lambda>(n, j). (n, now, jInterval j)) ?due))" for n
  proof (cases "mget (jbJobs s) n")
    case (Some j)
    show ?thesis
    proof (cases "job_due now first s (n, j)")
      case True
      then have "runs_of n (jbLog s) \<noteq> [] \<longrightarrow> fst (last (runs_of n (jbLog s))) + jInterval j \<le> now"
        using assms by (auto simp: jobs_ok_def job_due_def)
      then show ?thesis using assms Some True by (simp add: new spaced_snoc jobs_ok_def)
    qed (use assms Some in \<open>simp add: new jobs_ok_def\<close>)
  qed (use assms in \<open>simp add: new jobs_ok_def\<close>)
  show ?thesis
    using assms run sp ex member
    by (auto simp: jobs_ok_def dispatch_jobs_def m keep new split: option.splits)
qed

lemma job_reach_ok: "job_reach js s \<Longrightarrow> jobs_ok s"
proof (induction rule: job_reach.induct)
  case (Step s s')
  from Step(2,3) show ?case
    by (induction rule: job_step.induct)
      (auto simp: catch_up_def run_due_def intro: dispatch_ok set_interval_ok job_done_ok)
qed (rule new_scheduler_ok)

text \<open>Whatever the cadence is retuned to and however long the runs take, no job ever runs twice at
  the same time, and between two dispatches of a job at least the interval in force at the later one
  has passed.\<close>

theorem jobs_never_overlap:
  assumes "job_reach js s"
  shows "distinct (jbRunning s)" "spaced (runs_of n (jbLog s))"
  using job_reach_ok [OF assms] by (simp_all add: jobs_ok_def)

lemma jobs_never_overlap_witness:
  "\<exists>s. job_reach [\<lparr>jName = ''a'', jInterval = 5, jHasRun = True\<rparr>] s \<and> jbLog s = [(''a'', 0, 5), (''a'', 7, 5)] \<and>
     spaced (runs_of ''a'' (jbLog s))"
proof -
  let ?js = "[\<lparr>jName = ''a'', jInterval = 5, jHasRun = True\<rparr>]"
  obtain s0 where s0: "new_scheduler ?js = Inr s0" by (simp add: new_scheduler_def)
  let ?s = "run_due 7 (job_done ''a'' (run_due 3 (catch_up 0 s0)))"
  have "job_reach ?js (run_due 3 (catch_up 0 s0))"
    by (intro job_reach.Step [OF job_reach.Step [OF job_reach.Start [OF s0] job_step.CatchUp] job_step.Tick])
  moreover have "''a'' \<in> set (jbRunning (run_due 3 (catch_up 0 s0)))"
    using s0 by (auto simp: new_scheduler_def catch_up_def run_due_def dispatch_jobs_def job_due_def mput_def mget_def)
  ultimately have r: "job_reach ?js ?s" by (blast intro: job_reach.Step job_step.intros)
  have "jbLog ?s = [(''a'', 0, 5), (''a'', 7, 5)]"
    using s0 by (auto simp: new_scheduler_def catch_up_def run_due_def dispatch_jobs_def job_due_def job_done_def mput_def mget_def mdel_def)
  with jobs_never_overlap(2) [OF r] r show ?thesis by blast
qed

text \<open>A job that is due and not running is dispatched by the tick.\<close>

lemma due_job_dispatched:
  "mok (jbJobs s) \<Longrightarrow> mget (jbJobs s) n = Some j \<Longrightarrow> job_due now False s (n, j) \<Longrightarrow> n \<in> set (jbRunning (run_due now s))"
  using mark_due_exact [of "jbJobs s" now False s]
  by (force simp: run_due_def dispatch_jobs_def case_prod_unfold dest: mget_in_set)

end
