(* ===== verification/ChatStream.thy ===== *)
theory ChatStream
  imports AgentState Broker
begin

section \<open>The message stream sent to a client\<close>

text \<open>
  \<open>chatapi/emitter.go\<close>, \<open>chatapi/uimsg.go\<close> and the frame helpers of \<open>chatapi/resume.go\<close>: run events become
  the frames of the ui-message-stream protocol. A frame is a constructor of \<open>ui_chunk\<close>, its wire form is
  \<open>sse_frame\<close>. The emitter keeps what it has written; whether a write succeeds is asked of the
  connection by the number of the write, and the first failure is latched. A write to a nil Go map
  panics: \<open>None\<close>.
\<close>

datatype ui_chunk =
    CStart string
  | CReasoningStart string
  | CReasoningDelta string
  | CReasoningEnd
  | CTextStart string
  | CTextDelta string string
  | CTextEnd string
  | CStartStep
  | CFinishStep string int int bool
  | CToolCallStart string string
  | CToolCallDelta string string
  | CToolCallEnd string
  | CToolResult string json bool
  | CSubagent jargs
  | CInteraction string string string string json
  | CGenerativeUI json
  | CRunStatus string
  | CUsage int int int int
  | CError string
  | CSessionState jargs
  | CSession string
  | CFinish string int int
  | CDone
  | CPing

definition go_map :: "jargs \<Rightarrow> json" where
  "go_map m = (case m of None \<Rightarrow> JNull | Some o1 \<Rightarrow> JObj o1)"

primrec chunk_obj :: "ui_chunk \<Rightarrow> jobj" where
  "chunk_obj (CStart m) = [(''type'', JStr ''start''), (''messageId'', JStr m)]"
| "chunk_obj (CReasoningStart i) = [(''type'', JStr ''reasoning-start''), (''id'', JStr i)]"
| "chunk_obj (CReasoningDelta s) = [(''type'', JStr ''reasoning-delta''), (''delta'', JStr s)]"
| "chunk_obj CReasoningEnd = [(''type'', JStr ''reasoning-end'')]"
| "chunk_obj (CTextStart i) = [(''type'', JStr ''text-start''), (''id'', JStr i)]"
| "chunk_obj (CTextDelta i s) = [(''type'', JStr ''text-delta''), (''id'', JStr i), (''textDelta'', JStr s)]"
| "chunk_obj (CTextEnd i) = [(''type'', JStr ''text-end''), (''id'', JStr i)]"
| "chunk_obj CStartStep = [(''type'', JStr ''start-step'')]"
| "chunk_obj (CFinishStep r i j c) = [(''type'', JStr ''finish-step''), (''finishReason'', JStr r),
     (''usage'', JObj [(''inputTokens'', jint i), (''outputTokens'', jint j)]), (''isContinued'', JBool c)]"
| "chunk_obj (CToolCallStart i n) = [(''type'', JStr ''tool-call-start''), (''id'', JStr i), (''toolCallId'', JStr i), (''toolName'', JStr n)]"
| "chunk_obj (CToolCallDelta i a) = [(''type'', JStr ''tool-call-delta''), (''toolCallId'', JStr i), (''argsText'', JStr a)]"
| "chunk_obj (CToolCallEnd i) = [(''type'', JStr ''tool-call-end''), (''toolCallId'', JStr i)]"
| "chunk_obj (CToolResult i r e) = [(''type'', JStr ''tool-result''), (''toolCallId'', JStr i), (''result'', r), (''isError'', JBool e)]"
| "chunk_obj (CSubagent m) = [(''type'', JStr ''data-subagent''), (''data'', go_map m), (''transient'', JBool True)]"
| "chunk_obj (CInteraction i k c n a) = [(''type'', JStr ''data-interaction''),
     (''data'', JObj [(''interactionId'', JStr i), (''approvalId'', JStr i), (''kind'', JStr k), (''toolCallId'', JStr c),
        (''toolName'', JStr n), (''args'', a)]), (''transient'', JBool True)]"
| "chunk_obj (CGenerativeUI s) = [(''type'', JStr ''data-generative-ui''), (''data'', JObj [(''spec'', s)])]"
| "chunk_obj (CRunStatus s) = [(''type'', JStr ''data-run''), (''data'', JObj [(''status'', JStr s)]), (''transient'', JBool True)]"
| "chunk_obj (CUsage i j r w) = [(''type'', JStr ''data-usage''), (''data'', JObj [(''inputTokens'', jint i),
     (''outputTokens'', jint j), (''cacheReadTokens'', jint r), (''cacheWriteTokens'', jint w)])]"
| "chunk_obj (CError s) = [(''type'', JStr ''error''), (''errorText'', JStr s)]"
| "chunk_obj (CSessionState m) = [(''type'', JStr ''data-session-state''), (''data'', go_map m)]"
| "chunk_obj (CSession i) = [(''type'', JStr ''data-session''), (''data'', JObj [(''id'', JStr i)]), (''transient'', JBool True)]"
| "chunk_obj (CFinish r i j) = [(''type'', JStr ''finish''), (''finishReason'', JStr r),
     (''usage'', JObj [(''inputTokens'', jint i), (''outputTokens'', jint j)])]"
| "chunk_obj CDone = []"
| "chunk_obj CPing = []"

definition blank_line :: string where "blank_line = [CHR 0x0A, CHR 0x0A]"

definition sse_frame :: "ui_chunk \<Rightarrow> string" where
  "sse_frame c =
     (case c of
        CDone \<Rightarrow> ''data: [DONE]'' @ blank_line
      | CPing \<Rightarrow> '': ping'' @ blank_line
      | _ \<Rightarrow> ''data: '' @ marshal (JObj (chunk_obj c)) @ blank_line)"

subsection \<open>Payloads\<close>

text \<open>A payload is a Go value of the loop or a JSON object read back from the broker.\<close>

record step_info =
  siReason :: string
  siUsage :: "(int \<times> int) option"
  siContinued :: bool

datatype payload =
    PNone
  | PString string
  | PMap jargs
  | PUsage usage
  | PStep step_info
  | PGate loop_interaction

definition jlook :: "jargs \<Rightarrow> string \<Rightarrow> json option" where
  "jlook m k = (case m of None \<Rightarrow> None | Some o1 \<Rightarrow> mget o1 k)"

definition map_str :: "jargs \<Rightarrow> string \<Rightarrow> string" where
  "map_str m k = (case jlook m k of Some (JStr s) \<Rightarrow> s | _ \<Rightarrow> '''')"

definition map_bool :: "jargs \<Rightarrow> string \<Rightarrow> bool" where
  "map_bool m k = (case jlook m k of Some (JBool b) \<Rightarrow> b | _ \<Rightarrow> False)"

definition int_from_any :: "json option \<Rightarrow> int \<times> bool" where
  "int_from_any x =
     (case x of
        Some (JNum m e) \<Rightarrow> (if 0 \<le> e then m * 10 ^ nat e else go_div m (10 ^ nat (- e)), True)
      | _ \<Rightarrow> (0, False))"

definition usage_tokens :: "payload \<Rightarrow> (int \<times> int \<times> int \<times> int) option" where
  "usage_tokens p =
     (case p of
        PUsage u \<Rightarrow> Some (InputTokens u, OutputTokens u, CacheReadTokens u, CacheWriteTokens u)
      | PMap m \<Rightarrow>
          (let (i, iok) = int_from_any (jlook m ''input_tokens''); (j, jok) = int_from_any (jlook m ''output_tokens'');
               (r, _) = int_from_any (jlook m ''cache_read_tokens''); (w, _) = int_from_any (jlook m ''cache_write_tokens'')
           in if iok \<or> jok then Some (i, j, r, w) else None)
      | _ \<Rightarrow> None)"

definition prefer_int :: "int \<times> bool \<Rightarrow> int \<Rightarrow> int" where
  "prefer_int n d = (if snd n then fst n else d)"

definition step_event :: "payload \<Rightarrow> step_info option" where
  "step_event p =
     (case p of
        PStep s \<Rightarrow> Some s
      | PMap m \<Rightarrow>
          (let reason = (if map_str m ''finish_reason'' = '''' then map_str m ''finishReason'' else map_str m ''finish_reason'');
               cont = (if jlook m ''isContinued'' \<noteq> None then map_bool m ''isContinued'' else map_bool m ''is_continued'');
               u = (case jlook m ''usage'' of
                      Some (JObj um) \<Rightarrow>
                        Some (prefer_int (int_from_any (mget um ''inputTokens'')) (fst (int_from_any (mget um ''input_tokens''))),
                              prefer_int (int_from_any (mget um ''outputTokens'')) (fst (int_from_any (mget um ''output_tokens''))))
                    | _ \<Rightarrow> None)
           in if reason = '''' then None else Some \<lparr>siReason = reason, siUsage = u, siContinued = cont\<rparr>)
      | _ \<Rightarrow> None)"

definition either_str :: "jargs \<Rightarrow> string \<Rightarrow> string \<Rightarrow> string" where
  "either_str m k1 k2 = (if map_str m k1 = '''' then map_str m k2 else map_str m k1)"

definition map_obj :: "jargs \<Rightarrow> string \<Rightarrow> jargs" where
  "map_obj m k = (case jlook m k of Some (JObj o1) \<Rightarrow> Some o1 | _ \<Rightarrow> None)"

definition interaction_payload :: "payload \<Rightarrow> loop_interaction option" where
  "interaction_payload p =
     (case p of
        PGate g \<Rightarrow> Some g
      | PMap m \<Rightarrow>
          Some \<lparr>iID = either_str m ''ID'' ''id'', iKind = either_str m ''Kind'' ''kind'',
                iToolCallID = either_str m ''ToolCallID'' ''toolCallID'', iToolName = either_str m ''ToolName'' ''toolName'',
                iInput = (case map_obj m ''Input'' of Some o1 \<Rightarrow> Some o1 | None \<Rightarrow> map_obj m ''input''), iBatch = []\<rparr>
      | _ \<Rightarrow> None)"

subsection \<open>The emitter\<close>

text \<open>\<open>swTools\<close> is \<open>None\<close> until the tracking maps are made: the ids started and those whose arguments streamed.\<close>

record sse =
  swOut :: "ui_chunk list"
  swWrites :: nat
  swErr :: bool
  swMsgID :: string
  swTextID :: string
  swTextStarted :: bool
  swThinkID :: string
  swThinkOpen :: bool
  swUsage :: "int \<times> int \<times> int \<times> int"
  swTools :: "((string, unit) gomap \<times> (string, unit) gomap) option"
  swFinishReason :: string
  swLastReason :: string
  swLastContinued :: bool

definition new_sse :: "string \<Rightarrow> string \<Rightarrow> string \<Rightarrow> sse" where
  "new_sse msg text think = \<lparr>swOut = [], swWrites = 0, swErr = False, swMsgID = msg, swTextID = text,
     swTextStarted = False, swThinkID = think, swThinkOpen = False, swUsage = (0, 0, 0, 0), swTools = None,
     swFinishReason = '''', swLastReason = '''', swLastContinued = False\<rparr>"

text \<open>
  The connection: whether the write of that number succeeds, and whether the request's context is
  cancelled once that many writes were made.
\<close>

record connection =
  cnAccepts :: "nat \<Rightarrow> bool"
  cnGone :: "nat \<Rightarrow> bool"

definition sse_write :: "connection \<Rightarrow> ui_chunk \<Rightarrow> sse \<Rightarrow> sse" where
  "sse_write conn c e =
     (if swErr e then e
      else if cnAccepts conn (swWrites e) then e\<lparr>swOut := swOut e @ [c], swWrites := Suc (swWrites e)\<rparr>
      else e\<lparr>swErr := True, swWrites := Suc (swWrites e)\<rparr>)"

definition tool_started :: "string \<Rightarrow> sse \<Rightarrow> bool" where
  "tool_started i e = (case swTools e of None \<Rightarrow> False | Some (st, _) \<Rightarrow> mget st i \<noteq> None)"

definition args_streamed :: "string \<Rightarrow> sse \<Rightarrow> bool" where
  "args_streamed i e = (case swTools e of None \<Rightarrow> False | Some (_, ar) \<Rightarrow> mget ar i \<noteq> None)"

definition write_tool_call_start :: "connection \<Rightarrow> string \<Rightarrow> string \<Rightarrow> sse \<Rightarrow> sse" where
  "write_tool_call_start conn i name e =
     (if i = '''' then e
      else let (st, ar) = (case swTools e of None \<Rightarrow> ([], []) | Some m \<Rightarrow> m);
               e1 = e\<lparr>swTools := Some (st, ar)\<rparr>
        in if mget st i \<noteq> None then e1
           else sse_write conn (CToolCallStart i name) (e1\<lparr>swTools := Some (mput i () st, ar)\<rparr>))"

definition mark_streamed :: "string \<Rightarrow> sse \<Rightarrow> sse option" where
  "mark_streamed i e =
     (case swTools e of None \<Rightarrow> None | Some (st, ar) \<Rightarrow> Some (e\<lparr>swTools := Some (st, mput i () ar)\<rparr>))"

definition close_reasoning :: "connection \<Rightarrow> sse \<Rightarrow> sse" where
  "close_reasoning conn e = (if swThinkOpen e then (sse_write conn CReasoningEnd e)\<lparr>swThinkOpen := False\<rparr> else e)"

definition write_run_status :: "connection \<Rightarrow> string \<Rightarrow> sse \<Rightarrow> sse" where
  "write_run_status conn s e = sse_write conn (CRunStatus s) e"

definition emit_thinking :: "connection \<Rightarrow> payload \<Rightarrow> sse \<Rightarrow> sse" where
  "emit_thinking conn p e =
     (let e1 = (if swThinkOpen e then e else (sse_write conn (CReasoningStart (swThinkID e)) e)\<lparr>swThinkOpen := True\<rparr>)
      in case p of PString s \<Rightarrow> sse_write conn (CReasoningDelta s) e1 | _ \<Rightarrow> e1)"

definition emit_text :: "connection \<Rightarrow> payload \<Rightarrow> sse \<Rightarrow> sse" where
  "emit_text conn p e =
     (let e1 = close_reasoning conn e;
          e2 = (if swTextStarted e1 then e1 else (sse_write conn (CTextStart (swTextID e1)) e1)\<lparr>swTextStarted := True\<rparr>)
      in case p of PString s \<Rightarrow> sse_write conn (CTextDelta (swTextID e2) s) e2 | _ \<Rightarrow> e2)"

definition emit_finish_step :: "connection \<Rightarrow> payload \<Rightarrow> sse \<Rightarrow> sse" where
  "emit_finish_step conn p e =
     (case step_event p of
        None \<Rightarrow> e
      | Some s \<Rightarrow>
          (let (i, j) = (case siUsage s of None \<Rightarrow> (0, 0) | Some u \<Rightarrow> u)
           in sse_write conn (CFinishStep (siReason s) i j (siContinued s))
                (e\<lparr>swLastReason := siReason s, swLastContinued := siContinued s\<rparr>)))"

definition emit_tool_args :: "connection \<Rightarrow> payload \<Rightarrow> sse \<Rightarrow> sse option" where
  "emit_tool_args conn p e =
     (case p of
        PMap m \<Rightarrow>
          (let i = map_str m ''id''; e1 = write_tool_call_start conn i (map_str m ''name'') e; d = map_str m ''delta''
           in if d = '''' then Some e1 else mark_streamed i (sse_write conn (CToolCallDelta i d) e1))
      | _ \<Rightarrow> Some e)"

definition emit_tool_use :: "connection \<Rightarrow> payload \<Rightarrow> sse \<Rightarrow> sse" where
  "emit_tool_use conn p e =
     (case p of
        PMap m \<Rightarrow>
          (let i = map_str m ''id''; e1 = write_tool_call_start conn i (map_str m ''name'') e;
               e2 = (if args_streamed i e1 then e1
                     else case jlook m ''input'' of
                       None \<Rightarrow> e1
                     | Some JNull \<Rightarrow> e1
                     | Some v \<Rightarrow> sse_write conn (CToolCallDelta i (marshal v)) e1)
           in sse_write conn (CToolCallEnd i) e2)
      | _ \<Rightarrow> e)"

definition emit_tool_result :: "connection \<Rightarrow> payload \<Rightarrow> sse \<Rightarrow> sse" where
  "emit_tool_result conn p e =
     (case p of
        PMap m \<Rightarrow> sse_write conn (CToolResult (map_str m ''tool_use_id'')
          (case jlook m ''content'' of None \<Rightarrow> JNull | Some v \<Rightarrow> v) (map_bool m ''is_error'')) e
      | _ \<Rightarrow> e)"

definition emit_interrupt :: "connection \<Rightarrow> payload \<Rightarrow> sse \<Rightarrow> sse" where
  "emit_interrupt conn p e =
     (case interaction_payload p of
        None \<Rightarrow> e
      | Some g \<Rightarrow>
          sse_write conn (CInteraction (iID g) (if iKind g = '''' then ''approval'' else iKind g) (iToolCallID g) (iToolName g)
            (JObj (case iInput g of None \<Rightarrow> [] | Some m \<Rightarrow> m))) e)"

definition emit_usage :: "connection \<Rightarrow> payload \<Rightarrow> sse \<Rightarrow> sse" where
  "emit_usage conn p e =
     (case usage_tokens p of
        None \<Rightarrow> e
      | Some (i, j, r, w) \<Rightarrow> sse_write conn (CUsage i j r w) (e\<lparr>swUsage := (i, j, r, w)\<rparr>))"

definition emit_error :: "connection \<Rightarrow> payload \<Rightarrow> sse \<Rightarrow> sse" where
  "emit_error conn p e =
     (let e1 = (case p of PString s \<Rightarrow> sse_write conn (CError s) e | _ \<Rightarrow> e);
          e2 = e1\<lparr>swFinishReason := (if swLastReason e1 = ''length'' \<and> \<not> swLastContinued e1 then ''length'' else ''error'')\<rparr>
      in write_run_status conn ''failed'' e2)"

definition emit_cancel :: "connection \<Rightarrow> sse \<Rightarrow> sse" where
  "emit_cancel conn e =
     (let e1 = close_reasoning conn e;
          e2 = (if swTextStarted e1 then (sse_write conn (CTextEnd (swTextID e1)) e1)\<lparr>swTextStarted := False\<rparr> else e1)
      in write_run_status conn ''cancelled'' (e2\<lparr>swFinishReason := ''other''\<rparr>))"

text \<open>\<open>Emit\<close> behind its two guards.\<close>

definition emit_kind :: "connection \<Rightarrow> event_kind \<Rightarrow> payload \<Rightarrow> sse \<Rightarrow> sse option" where
  "emit_kind conn k p e =
     (case k of
        KindRunning \<Rightarrow> Some (write_run_status conn ''running'' e)
      | KindThinking \<Rightarrow> Some (emit_thinking conn p e)
      | KindText \<Rightarrow> Some (emit_text conn p e)
      | KindStepStart \<Rightarrow> Some (sse_write conn CStartStep e)
      | KindStepFinish \<Rightarrow> Some (emit_finish_step conn p e)
      | KindToolArgs \<Rightarrow> emit_tool_args conn p e
      | KindToolUse \<Rightarrow> Some (emit_tool_use conn p e)
      | KindToolResult \<Rightarrow> Some (emit_tool_result conn p e)
      | KindSubagent \<Rightarrow> Some (case p of PMap m \<Rightarrow> sse_write conn (CSubagent m) e | _ \<Rightarrow> e)
      | KindInterrupt \<Rightarrow> Some (emit_interrupt conn p e)
      | KindGenerativeUI \<Rightarrow> Some (case p of
            PMap m \<Rightarrow> (case jlook m ''spec'' of None \<Rightarrow> e | Some v \<Rightarrow> sse_write conn (CGenerativeUI v) e) | _ \<Rightarrow> e)
      | KindDone \<Rightarrow> Some (write_run_status conn ''done'' e)
      | KindUsage \<Rightarrow> Some (emit_usage conn p e)
      | KindError \<Rightarrow> Some (emit_error conn p e)
      | KindCancelled \<Rightarrow> Some (emit_cancel conn e)
      | _ \<Rightarrow> Some e)"

definition emit_event :: "connection \<Rightarrow> event_kind \<Rightarrow> payload \<Rightarrow> sse \<Rightarrow> sse option" where
  "emit_event conn k p e = (if cnGone conn (swWrites e) \<or> swErr e then Some e else emit_kind conn k p e)"

definition finish_with_reason :: "connection \<Rightarrow> string \<Rightarrow> sse \<Rightarrow> sse" where
  "finish_with_reason conn reason e =
     (let e1 = close_reasoning conn e;
          e2 = (if swTextStarted e1 then sse_write conn (CTextEnd (swTextID e1)) e1 else e1);
          r1 = (if reason = '''' then swFinishReason e2 else reason);
          r2 = (if r1 = '''' then ''stop'' else r1)
      in sse_write conn CDone (sse_write conn (CFinish r2 (fst (swUsage e2)) (fst (snd (swUsage e2)))) e2))"

definition finish :: "connection \<Rightarrow> sse \<Rightarrow> sse" where
  "finish conn e = finish_with_reason conn '''' e"

definition ping :: "connection \<Rightarrow> sse \<Rightarrow> sse" where
  "ping conn e = sse_write conn CPing e"

text \<open>
  The helpers of \<open>resume.go\<close>: a stored frame is decoded and emitted. \<open>dec_text\<close> and \<open>dec_map\<close> are
  \<open>decodeTextPayload\<close> and \<open>decodeMapPayload\<close>, over JSON decoding.
\<close>

record decoders =
  dcText :: "string \<Rightarrow> string"
  dcMap :: "string \<Rightarrow> jargs option"

definition is_session_state :: "event_kind \<Rightarrow> bool" where
  "is_session_state k = (k = KindOther ''session_state'')"

definition emit_stream_event :: "connection \<Rightarrow> decoders \<Rightarrow> stream_event \<Rightarrow> sse \<Rightarrow> sse option" where
  "emit_stream_event conn dc ev e =
     (let k = seKind ev in
      if is_session_state k then
        Some (case dcMap dc (sePayload ev) of None \<Rightarrow> e | Some m \<Rightarrow> sse_write conn (CSessionState m) e)
      else if k \<in> {KindThinking, KindText, KindError} then
        emit_event conn k (PString (dcText dc (sePayload ev))) e
      else if k \<in> {KindToolUse, KindToolArgs, KindToolResult, KindUsage, KindSubagent, KindInterrupt, KindStepFinish, KindGenerativeUI} then
        (case dcMap dc (sePayload ev) of None \<Rightarrow> Some e | Some m \<Rightarrow> emit_event conn k (PMap m) e)
      else if k = KindStepStart then emit_event conn KindStepStart PNone e
      else Some e)"

definition emit_lifecycle_event :: "connection \<Rightarrow> decoders \<Rightarrow> event \<Rightarrow> sse \<Rightarrow> sse option" where
  "emit_lifecycle_event conn dc ev e =
     (if evKind ev \<in> {KindRunning, KindDone, KindCancelled} then emit_event conn (evKind ev) PNone e
      else if evKind ev = KindError then emit_event conn KindError (PString (dcText dc (evPayload ev))) e
      else Some e)"

text \<open>\<open>writeSSEError\<close>: one error, then the end.\<close>

definition write_sse_error :: "connection \<Rightarrow> string \<Rightarrow> string \<Rightarrow> sse option" where
  "write_sse_error conn msg_id msg =
     (case emit_event conn KindError (PString msg) (sse_write conn (CStart msg_id) (new_sse msg_id ''text-1'' ''reasoning-1'')) of
        None \<Rightarrow> None
      | Some e \<Rightarrow> Some (finish conn e))"

subsection \<open>What a client reads\<close>

text \<open>
  The protocol as the client follows it: one start first; reasoning and text bracketed, no text while
  reasoning is open; a tool call started at most once and before its arguments; one finish, with
  nothing open, and \<open>[DONE]\<close> behind it.
\<close>

datatype stage = Before | Open | Finished | Over

record view =
  vwStage :: stage
  vwThink :: bool
  vwText :: bool
  vwCalls :: "string set"

definition follow_open :: "ui_chunk \<Rightarrow> view \<Rightarrow> view option" where
  "follow_open c v =
     (case c of
        CStart m \<Rightarrow> None
      | CDone \<Rightarrow> None
      | CReasoningStart i \<Rightarrow> (if vwThink v then None else Some (v\<lparr>vwThink := True\<rparr>))
      | CReasoningDelta s \<Rightarrow> (if vwThink v then Some v else None)
      | CReasoningEnd \<Rightarrow> (if vwThink v then Some (v\<lparr>vwThink := False\<rparr>) else None)
      | CTextStart i \<Rightarrow> (if vwText v \<or> vwThink v then None else Some (v\<lparr>vwText := True\<rparr>))
      | CTextDelta i s \<Rightarrow> (if vwText v \<and> \<not> vwThink v then Some v else None)
      | CTextEnd i \<Rightarrow> (if vwText v \<and> \<not> vwThink v then Some (v\<lparr>vwText := False\<rparr>) else None)
      | CToolCallStart i n \<Rightarrow> (if i = '''' \<or> i \<in> vwCalls v then None else Some (v\<lparr>vwCalls := insert i (vwCalls v)\<rparr>))
      | CToolCallDelta i a \<Rightarrow> (if i = '''' \<or> i \<in> vwCalls v then Some v else None)
      | CToolCallEnd i \<Rightarrow> (if i = '''' \<or> i \<in> vwCalls v then Some v else None)
      | CFinish r i j \<Rightarrow> (if vwThink v \<or> vwText v then None else Some (v\<lparr>vwStage := Finished\<rparr>))
      | _ \<Rightarrow> Some v)"

definition follow :: "ui_chunk \<Rightarrow> view \<Rightarrow> view option" where
  "follow c v =
     (case vwStage v of
        Before \<Rightarrow> (case c of CStart m \<Rightarrow> Some (v\<lparr>vwStage := Open\<rparr>) | _ \<Rightarrow> None)
      | Open \<Rightarrow> follow_open c v
      | Finished \<Rightarrow> (case c of CDone \<Rightarrow> Some (v\<lparr>vwStage := Over\<rparr>) | _ \<Rightarrow> None)
      | Over \<Rightarrow> None)"

definition reads :: "ui_chunk list \<Rightarrow> view option" where
  "reads cs = fold (\<lambda>c r. Option.bind r (follow c)) cs
     (Some \<lparr>vwStage = Before, vwThink = False, vwText = False, vwCalls = {}\<rparr>)"

lemma reads_snoc: "reads (cs @ [c]) = Option.bind (reads cs) (follow c)"
  by (simp add: reads_def)

definition sse_view :: "sse \<Rightarrow> view" where
  "sse_view e = \<lparr>vwStage = Open, vwThink = swThinkOpen e, vwText = swTextStarted e, vwCalls = {i. tool_started i e}\<rparr>"

definition sse_inv :: "sse \<Rightarrow> bool" where
  "sse_inv e = (reads (swOut e) \<noteq> None \<and> (\<not> swErr e \<longrightarrow> reads (swOut e) = Some (sse_view e)) \<and> \<not> tool_started '''' e)"

lemma sse_write_sel [simp]:
  "swMsgID (sse_write conn c e) = swMsgID e" "swTextID (sse_write conn c e) = swTextID e"
  "swTextStarted (sse_write conn c e) = swTextStarted e" "swThinkID (sse_write conn c e) = swThinkID e"
  "swThinkOpen (sse_write conn c e) = swThinkOpen e" "swUsage (sse_write conn c e) = swUsage e"
  "swTools (sse_write conn c e) = swTools e" "swFinishReason (sse_write conn c e) = swFinishReason e"
  "swLastReason (sse_write conn c e) = swLastReason e" "swLastContinued (sse_write conn c e) = swLastContinued e"
  by (simp_all add: sse_write_def)

lemma tool_started_write [simp]: "tool_started i (sse_write conn c e) = tool_started i e"
  by (simp add: tool_started_def)

lemma args_streamed_write [simp]: "args_streamed i (sse_write conn c e) = args_streamed i e"
  by (simp add: args_streamed_def)

lemma write_inv:
  assumes "sse_inv e" "follow_open c (sse_view e) = Some (sse_view e')" "\<not> tool_started '''' e'"
    "swOut e' = swOut (sse_write conn c e)" "swErr e' = swErr (sse_write conn c e)"
  shows "sse_inv e'"
proof (cases "swErr e")
  case True
  with assms show ?thesis by (auto simp: sse_inv_def sse_write_def)
next
  case False
  with assms have "reads (swOut e @ [c]) = Some (sse_view e')" "reads (swOut e) \<noteq> None"
    by (auto simp: sse_inv_def reads_snoc follow_def sse_view_def)
  with assms(3-5) False show ?thesis by (auto simp: sse_inv_def sse_write_def)
qed

lemma sse_inv_not_started [simp]: "sse_inv e \<Longrightarrow> \<not> tool_started '''' e"
  by (simp add: sse_inv_def)

lemma sse_inv_cong:
  "swOut e' = swOut e \<Longrightarrow> swErr e' = swErr e \<Longrightarrow> swThinkOpen e' = swThinkOpen e \<Longrightarrow>
     swTextStarted e' = swTextStarted e \<Longrightarrow> (\<And>i. tool_started i e' = tool_started i e) \<Longrightarrow> sse_inv e' = sse_inv e"
  by (simp add: sse_inv_def sse_view_def)

text \<open>A frame that opens and closes nothing.\<close>

definition plain :: "ui_chunk \<Rightarrow> bool" where
  "plain c = (\<forall>v. follow_open c v = Some v)"

lemma write_plain: "plain c \<Longrightarrow> sse_inv e \<Longrightarrow> sse_inv (sse_write conn c e)"
  by (rule write_inv [of e c _ conn]) (auto simp: plain_def sse_view_def)

lemma plain_simps [simp]:
  "plain CStartStep" "plain (CFinishStep r n1 n2 b)" "plain (CToolResult i j' b)" "plain (CSubagent m)"
  "plain (CInteraction i k t n a)" "plain (CGenerativeUI j')" "plain (CRunStatus s)" "plain (CUsage i2 j2 k2 l2)"
  "plain (CError s)" "plain (CSessionState m)" "plain (CSession i)" "plain CPing"
  by (simp_all add: plain_def follow_open_def)

lemma tool_started_upd [simp]:
  "tool_started i (e\<lparr>swThinkOpen := b\<rparr>) = tool_started i e" "tool_started i (e\<lparr>swTextStarted := b\<rparr>) = tool_started i e"
  "tool_started i (e\<lparr>swFinishReason := r\<rparr>) = tool_started i e" "tool_started i (e\<lparr>swUsage := u\<rparr>) = tool_started i e"
  "tool_started i (e\<lparr>swLastReason := r\<rparr>) = tool_started i e" "tool_started i (e\<lparr>swLastContinued := b\<rparr>) = tool_started i e"
  by (simp_all add: tool_started_def)

lemma sse_inv_upd [simp]:
  "sse_inv (e\<lparr>swFinishReason := r\<rparr>) = sse_inv e" "sse_inv (e\<lparr>swUsage := u\<rparr>) = sse_inv e"
  "sse_inv (e\<lparr>swLastReason := r, swLastContinued := b\<rparr>) = sse_inv e"
  by (rule sse_inv_cong; simp)+

subsection \<open>Every emit keeps to the protocol\<close>

lemma close_reasoning_inv: "sse_inv e \<Longrightarrow> sse_inv (close_reasoning conn e)"
  unfolding close_reasoning_def
  by (auto intro!: write_inv [of e CReasoningEnd _ conn] simp: follow_open_def sse_view_def)

lemma close_reasoning_sel [simp]:
  "\<not> swThinkOpen (close_reasoning conn e)" "swTextStarted (close_reasoning conn e) = swTextStarted e"
  "swUsage (close_reasoning conn e) = swUsage e" "swFinishReason (close_reasoning conn e) = swFinishReason e"
  "swTextID (close_reasoning conn e) = swTextID e" "swTools (close_reasoning conn e) = swTools e"
  by (simp_all add: close_reasoning_def)

lemma tool_start_sel [simp]:
  "swThinkOpen (write_tool_call_start conn i n e) = swThinkOpen e"
  "swTextStarted (write_tool_call_start conn i n e) = swTextStarted e"
  "swFinishReason (write_tool_call_start conn i n e) = swFinishReason e"
  by (simp_all add: write_tool_call_start_def Let_def split: option.split)

lemma tool_started_after: "tool_started j (write_tool_call_start conn i n e) \<longleftrightarrow> tool_started j e \<or> i \<noteq> '''' \<and> j = i"
  by (auto simp: write_tool_call_start_def tool_started_def Let_def mget_mput split: option.splits)

lemma tool_start_inv:
  assumes "sse_inv e"
  shows "sse_inv (write_tool_call_start conn i n e)"
proof (cases "i = '''' \<or> tool_started i e")
  case True
  have "sse_inv (write_tool_call_start conn i n e) = sse_inv e"
  proof (rule sse_inv_cong)
    show "\<And>j. tool_started j (write_tool_call_start conn i n e) = tool_started j e" using True by (auto simp: tool_started_after)
  qed (use True in \<open>auto simp: write_tool_call_start_def tool_started_def Let_def split: option.splits\<close>)
  with assms show ?thesis by simp
next
  case False
  show ?thesis
  proof (rule write_inv [OF assms, of "CToolCallStart i n" _ conn])
    show "follow_open (CToolCallStart i n) (sse_view e) = Some (sse_view (write_tool_call_start conn i n e))"
      using False by (auto simp: follow_open_def sse_view_def tool_started_after)
    show "\<not> tool_started '''' (write_tool_call_start conn i n e)" using False assms by (auto simp: tool_started_after)
  qed (use False in \<open>auto simp: write_tool_call_start_def tool_started_def sse_write_def Let_def split: option.splits\<close>)
qed

lemma reasoning_delta_inv: "sse_inv e \<Longrightarrow> swThinkOpen e \<Longrightarrow> sse_inv (sse_write conn (CReasoningDelta s) e)"
  by (rule write_inv [of e "CReasoningDelta s" _ conn]) (auto simp: follow_open_def sse_view_def)

lemma reasoning_start_inv:
  "sse_inv e \<Longrightarrow> \<not> swThinkOpen e \<Longrightarrow> sse_inv ((sse_write conn (CReasoningStart i) e)\<lparr>swThinkOpen := True\<rparr>)"
  by (rule write_inv [of e "CReasoningStart i" _ conn]) (auto simp: follow_open_def sse_view_def)

lemma text_delta_inv:
  "sse_inv e \<Longrightarrow> swTextStarted e \<Longrightarrow> \<not> swThinkOpen e \<Longrightarrow> sse_inv (sse_write conn (CTextDelta i s) e)"
  by (rule write_inv [of e "CTextDelta i s" _ conn]) (auto simp: follow_open_def sse_view_def)

lemma text_start_inv:
  "sse_inv e \<Longrightarrow> \<not> swTextStarted e \<Longrightarrow> \<not> swThinkOpen e \<Longrightarrow>
     sse_inv ((sse_write conn (CTextStart i) e)\<lparr>swTextStarted := True\<rparr>)"
  by (rule write_inv [of e "CTextStart i" _ conn]) (auto simp: follow_open_def sse_view_def)

lemma text_end_inv:
  "sse_inv e \<Longrightarrow> swTextStarted e \<Longrightarrow> \<not> swThinkOpen e \<Longrightarrow>
     sse_inv ((sse_write conn (CTextEnd i) e)\<lparr>swTextStarted := False\<rparr>)"
  by (rule write_inv [of e "CTextEnd i" _ conn]) (auto simp: follow_open_def sse_view_def)

lemma thinking_inv: "sse_inv e \<Longrightarrow> sse_inv (emit_thinking conn p e)"
  unfolding emit_thinking_def Let_def
  by (cases p; cases "swThinkOpen e") (simp_all add: reasoning_start_inv reasoning_delta_inv)

lemma text_inv: "sse_inv e \<Longrightarrow> sse_inv (emit_text conn p e)"
  unfolding emit_text_def Let_def
  by (cases p; cases "swTextStarted e") (simp_all add: close_reasoning_inv text_start_inv text_delta_inv)

lemma delta_inv: "sse_inv e \<Longrightarrow> i = '''' \<or> tool_started i e \<Longrightarrow> sse_inv (sse_write conn (CToolCallDelta i a) e)"
  by (rule write_inv [of e "CToolCallDelta i a" _ conn]) (auto simp: follow_open_def sse_view_def)

lemma end_inv: "sse_inv e \<Longrightarrow> i = '''' \<or> tool_started i e \<Longrightarrow> sse_inv (sse_write conn (CToolCallEnd i) e)"
  by (rule write_inv [of e "CToolCallEnd i" _ conn]) (auto simp: follow_open_def sse_view_def)

lemma mark_streamed_inv: "mark_streamed i e = Some e' \<Longrightarrow> sse_inv e' = sse_inv e"
  by (rule sse_inv_cong) (auto simp: mark_streamed_def tool_started_def split: option.splits)

lemma tool_args_inv: "emit_tool_args conn p e = Some e' \<Longrightarrow> sse_inv e \<Longrightarrow> sse_inv e'"
  unfolding emit_tool_args_def
  by (auto simp: Let_def tool_started_after mark_streamed_inv intro!: tool_start_inv delta_inv split: payload.splits if_splits)

lemma tool_use_inv: "sse_inv e \<Longrightarrow> sse_inv (emit_tool_use conn p e)"
  unfolding emit_tool_use_def
  by (auto simp: Let_def tool_started_after intro!: tool_start_inv delta_inv end_inv split: payload.split option.split json.split)

lemma cancelled_inv: "sse_inv e \<Longrightarrow> sse_inv (emit_cancel conn e)"
  unfolding emit_cancel_def write_run_status_def Let_def
  by (intro write_plain) (simp_all add: close_reasoning_inv text_end_inv)

lemma error_inv: "sse_inv e \<Longrightarrow> sse_inv (emit_error conn p e)"
  unfolding emit_error_def write_run_status_def Let_def
  by (intro write_plain) (simp_all add: write_plain split: payload.split)

lemma step_finish_inv: "sse_inv e \<Longrightarrow> sse_inv (emit_finish_step conn p e)"
  unfolding emit_finish_step_def by (auto intro!: write_plain split: option.split prod.split)

lemma interrupt_inv: "sse_inv e \<Longrightarrow> sse_inv (emit_interrupt conn p e)"
  unfolding emit_interrupt_def by (auto intro!: write_plain split: option.split)

lemma usage_inv: "sse_inv e \<Longrightarrow> sse_inv (emit_usage conn p e)"
  unfolding emit_usage_def by (auto intro!: write_plain split: option.split prod.split)

lemma emit_event_inv: "emit_event conn k p e = Some e' \<Longrightarrow> sse_inv e \<Longrightarrow> sse_inv e'"
  unfolding emit_event_def emit_kind_def write_run_status_def
  by (cases k) (auto intro: write_plain thinking_inv text_inv step_finish_inv tool_args_inv tool_use_inv interrupt_inv
      usage_inv error_inv cancelled_inv simp: emit_tool_result_def split: if_splits payload.splits option.splits)

lemma emit_stream_event_inv: "emit_stream_event conn dc ev e = Some e' \<Longrightarrow> sse_inv e \<Longrightarrow> sse_inv e'"
  unfolding emit_stream_event_def Let_def
  by (auto intro: emit_event_inv write_plain split: if_splits option.splits)

lemma emit_lifecycle_event_inv: "emit_lifecycle_event conn dc ev e = Some e' \<Longrightarrow> sse_inv e \<Longrightarrow> sse_inv e'"
  unfolding emit_lifecycle_event_def by (auto intro: emit_event_inv split: if_splits)

lemma ping_inv: "sse_inv e \<Longrightarrow> sse_inv (ping conn e)"
  unfolding ping_def by (rule write_plain) simp

subsection \<open>The end of a stream\<close>

definition end_reason :: "string \<Rightarrow> sse \<Rightarrow> string" where
  "end_reason reason e =
     (if reason \<noteq> '''' then reason else if swFinishReason e \<noteq> '''' then swFinishReason e else ''stop'')"

text \<open>The frames that end a stream, as one list: an open block is closed first.\<close>

definition end_frames :: "string \<Rightarrow> sse \<Rightarrow> ui_chunk list" where
  "end_frames reason e =
     (if swThinkOpen e then [CReasoningEnd] else []) @ (if swTextStarted e then [CTextEnd (swTextID e)] else []) @
     [CFinish (end_reason reason e) (fst (swUsage e)) (fst (snd (swUsage e))), CDone]"

lemma finish_writes:
  "swOut (finish_with_reason conn reason e) = swOut (fold (sse_write conn) (end_frames reason e) e)"
  "swErr (finish_with_reason conn reason e) = swErr (fold (sse_write conn) (end_frames reason e) e)"
  by (simp_all add: finish_with_reason_def end_frames_def end_reason_def close_reasoning_def Let_def sse_write_def)

text \<open>What is written is a beginning of what was to be written, and all of it if no write failed.\<close>

lemma write_done: "\<not> swErr (sse_write conn c e) \<Longrightarrow> swOut (sse_write conn c e) = swOut e @ [c] \<and> \<not> swErr e"
  by (auto simp: sse_write_def split: if_splits)

lemma writes_prefix:
  "\<exists>n \<le> length cs. swOut (fold (sse_write conn) cs e) = swOut e @ take n cs \<and>
     (\<not> swErr (fold (sse_write conn) cs e) \<longrightarrow> n = length cs \<and> \<not> swErr e)"
proof (induction cs arbitrary: e)
  case Nil
  then show ?case by simp
next
  case (Cons c cs)
  from Cons.IH [of "sse_write conn c e"] obtain n where n: "n \<le> length cs"
    "swOut (fold (sse_write conn) cs (sse_write conn c e)) = swOut (sse_write conn c e) @ take n cs"
    "\<not> swErr (fold (sse_write conn) cs (sse_write conn c e)) \<longrightarrow> n = length cs \<and> \<not> swErr (sse_write conn c e)" by blast
  have stuck: "swErr x \<Longrightarrow> swOut (fold (sse_write conn) cs x) = swOut x" for x
    by (induction cs arbitrary: x) (simp_all add: sse_write_def)
  show ?case
  proof (cases "swErr (sse_write conn c e)")
    case True
    with n stuck [OF True] have "swOut (fold (sse_write conn) (c # cs) e) = swOut e @ take 0 (c # cs)"
      "swErr (fold (sse_write conn) (c # cs) e)" by (auto simp: sse_write_def split: if_splits)
    then show ?thesis by (intro exI [of _ 0]) simp
  next
    case False
    with write_done [OF this] n show ?thesis by (intro exI [of _ "Suc n"]) auto
  qed
qed

lemma reads_append: "reads (xs @ ys) = fold (\<lambda>c r. Option.bind r (follow c)) ys (reads xs)"
  by (simp add: reads_def)

lemma reads_take: "reads cs \<noteq> None \<Longrightarrow> reads (take n cs) \<noteq> None"
proof -
  have none: "fold (\<lambda>c r. Option.bind r (follow c)) xs None = None" for xs by (induction xs) simp_all
  have "reads cs = fold (\<lambda>c r. Option.bind r (follow c)) (drop n cs) (reads (take n cs))"
    by (metis append_take_drop_id reads_append)
  then show "reads cs \<noteq> None \<Longrightarrow> reads (take n cs) \<noteq> None" using none by metis
qed

lemma reads_end:
  assumes "reads out = Some (sse_view e)"
  shows "\<exists>v. reads (out @ end_frames reason e) = Some v \<and> vwStage v = Over"
  unfolding end_frames_def reads_append assms
  by (cases "swThinkOpen e"; cases "swTextStarted e") (simp_all add: follow_def follow_open_def sse_view_def)

lemma finish_reads:
  assumes "sse_inv e"
  shows "reads (swOut (finish_with_reason conn reason e)) \<noteq> None \<and>
    (\<not> swErr (finish_with_reason conn reason e) \<longrightarrow>
       (\<exists>v. reads (swOut (finish_with_reason conn reason e)) = Some v \<and> vwStage v = Over) \<and>
       (\<exists>pre i j. swOut (finish_with_reason conn reason e) = pre @ [CFinish (end_reason reason e) i j, CDone]))"
proof -
  obtain n where n: "swOut (finish_with_reason conn reason e) = swOut e @ take n (end_frames reason e)"
    "\<not> swErr (finish_with_reason conn reason e) \<longrightarrow> n = length (end_frames reason e) \<and> \<not> swErr e"
    using writes_prefix [of "end_frames reason e" conn e] unfolding finish_writes by blast
  show ?thesis
  proof (cases "swErr e")
    case True
    have "swErr x \<Longrightarrow> fold (sse_write conn) cs x = x" for x cs by (induction cs) (simp_all add: sse_write_def)
    with True assms n(2) show ?thesis by (simp add: finish_writes sse_inv_def)
  next
    case False
    with assms have r: "reads (swOut e) = Some (sse_view e)" by (simp add: sse_inv_def)
    from reads_end [OF this, of reason] have "reads (swOut e @ end_frames reason e) \<noteq> None" by auto
    from reads_take [OF this, of "length (swOut e) + n"] have "reads (swOut e @ take n (end_frames reason e)) \<noteq> None" by simp
    moreover have "\<exists>pre i j. swOut e @ end_frames reason e = pre @ [CFinish (end_reason reason e) i j, CDone]"
      unfolding end_frames_def by (metis append.assoc)
    ultimately show ?thesis using n reads_end [OF r, of reason] by auto
  qed
qed

text \<open>An emitter has latched no reason, or one that says the run did not complete.\<close>

definition latch_ok :: "sse \<Rightarrow> bool" where
  "latch_ok e = (swFinishReason e \<in> {'''', ''error'', ''length'', ''other''})"

lemma latch_write [simp]: "latch_ok (sse_write conn c e) = latch_ok e" "latch_ok (close_reasoning conn e) = latch_ok e"
  by (simp_all add: latch_ok_def)

lemma emit_event_latch:
  "emit_event conn k p e = Some e' \<Longrightarrow>
     swFinishReason e' = (if cnGone conn (swWrites e) \<or> swErr e then swFinishReason e
       else case k of KindError \<Rightarrow> (if swLastReason e = ''length'' \<and> \<not> swLastContinued e then ''length'' else ''error'')
         | KindCancelled \<Rightarrow> ''other'' | _ \<Rightarrow> swFinishReason e)"
  unfolding emit_event_def emit_kind_def write_run_status_def
  by (cases k) (auto simp: emit_thinking_def emit_text_def emit_finish_step_def emit_tool_args_def emit_tool_use_def
      emit_tool_result_def emit_interrupt_def emit_usage_def emit_error_def emit_cancel_def mark_streamed_def Let_def
      write_run_status_def split: if_splits payload.splits option.splits prod.splits json.splits)

lemma emit_event_latch_ok: "emit_event conn k p e = Some e' \<Longrightarrow> latch_ok e \<Longrightarrow> latch_ok e'"
  using emit_event_latch [of conn k p e e'] by (auto simp: latch_ok_def split: if_splits event_kind.splits)

lemma emit_stream_event_latch_ok: "emit_stream_event conn dc ev e = Some e' \<Longrightarrow> latch_ok e \<Longrightarrow> latch_ok e'"
  unfolding emit_stream_event_def Let_def by (auto intro: emit_event_latch_ok split: if_splits option.splits)

lemma emit_lifecycle_event_latch_ok: "emit_lifecycle_event conn dc ev e = Some e' \<Longrightarrow> latch_ok e \<Longrightarrow> latch_ok e'"
  unfolding emit_lifecycle_event_def by (auto intro: emit_event_latch_ok split: if_splits)

text \<open>The one panic: argument text for a call without an id, before any call of the stream was opened.\<close>

lemma emit_panics_iff:
  "emit_event conn k p e = None \<longleftrightarrow>
     \<not> cnGone conn (swWrites e) \<and> \<not> swErr e \<and> k = KindToolArgs \<and> swTools e = None \<and>
     (\<exists>m. p = PMap m \<and> map_str m ''id'' = '''' \<and> map_str m ''delta'' \<noteq> '''')"
  unfolding emit_event_def emit_kind_def
  by (cases k) (auto simp: emit_tool_args_def write_tool_call_start_def mark_streamed_def Let_def split: payload.splits option.splits)

end
