(* ===== verification/Attach.thy ===== *)
theory Attach
  imports ChatStream
begin

section \<open>Attaching a client to a run\<close>

text \<open>
  \<open>chatapi/attach.go\<close> and the choice of the run in \<open>chatapi/resume.go\<close>. A client is attached by a catch-up
  and a loop over what its \<open>select\<close> picks; an \<open>instant\<close> is one pick with the answers the broker, the
  channels and the run store would give at that moment. Times are nanoseconds. The frames handed to
  the emitter are kept in order (\<open>atSent\<close>).
\<close>

subsection \<open>What the loop is told\<close>

datatype pick =
    ClientGone
  | HeartbeatTick
  | SettleTick
  | LifecycleFrame event
  | LifecycleClosed
  | ContentFrame stream_event
  | ContentClosed

record instant =
  inPick :: pick
  inNow :: int
  inActive :: bool
  inRead :: "int \<Rightarrow> stream_event list option"
  inQueued :: "stream_event list"
  inQueueClosed :: bool
  inLifecycle :: "event list"
  inRuns :: "run list option"

record attached =
  atSse :: sse
  atMax :: int
  atSent :: "stream_event list"
  atTerminal :: bool
  atLastFrame :: int
  atBackoff :: int
  atLastCheck :: int
  atEnded :: bool

definition heartbeatInterval :: int where "heartbeatInterval = 20000000000"
definition settlePollSilence :: int where "settlePollSilence = 5000000000"
definition settleCheckInitial :: int where "settleCheckInitial = 1000000000"
definition settleCheckMax :: int where "settleCheckMax = 5000000000"

definition run_scoped :: "id \<Rightarrow> id \<Rightarrow> bool" where
  "run_scoped frame_run run = (frame_run = run \<or> frame_run = '''')"

definition terminal_lifecycle :: "event_kind \<Rightarrow> bool" where
  "terminal_lifecycle k = (k \<in> {KindDone, KindError, KindCancelled})"

subsection \<open>Frames and events, in order\<close>

text \<open>A panic of the emitter ends the request: \<open>None\<close>.\<close>

fun send_frames :: "connection \<Rightarrow> decoders \<Rightarrow> (stream_event \<Rightarrow> bool) \<Rightarrow> stream_event list \<Rightarrow> attached \<Rightarrow> attached option" where
  "send_frames conn dc keep [] a = Some a"
| "send_frames conn dc keep (ev # evs) a =
     (if \<not> keep ev \<or> seOffset ev \<le> atMax a then send_frames conn dc keep evs a
      else case emit_stream_event conn dc ev (atSse a) of
             None \<Rightarrow> None
           | Some s \<Rightarrow> send_frames conn dc keep evs (a\<lparr>atMax := seOffset ev, atSent := atSent a @ [ev], atSse := s\<rparr>))"

fun send_lifecycle :: "connection \<Rightarrow> decoders \<Rightarrow> (event \<Rightarrow> bool) \<Rightarrow> event list \<Rightarrow> sse \<Rightarrow> sse option" where
  "send_lifecycle conn dc keep [] s = Some s"
| "send_lifecycle conn dc keep (ev # evs) s =
     (if \<not> keep ev then send_lifecycle conn dc keep evs s
      else case emit_lifecycle_event conn dc ev s of None \<Rightarrow> None | Some s' \<Rightarrow> send_lifecycle conn dc keep evs s')"

definition read_frames :: "connection \<Rightarrow> decoders \<Rightarrow> (stream_event \<Rightarrow> bool) \<Rightarrow> (int \<Rightarrow> stream_event list option) \<Rightarrow> int \<Rightarrow> attached \<Rightarrow> attached option" where
  "read_frames conn dc keep rd after a = (case rd after of None \<Rightarrow> Some a | Some evs \<Rightarrow> send_frames conn dc keep evs a)"

definition fill_gap :: "connection \<Rightarrow> decoders \<Rightarrow> id \<Rightarrow> int \<Rightarrow> instant \<Rightarrow> attached \<Rightarrow> attached option" where
  "fill_gap conn dc run nxt i a =
     read_frames conn dc (\<lambda>ev. run_scoped (seRunID ev) run \<and> seOffset ev < nxt) (inRead i) (atMax a) a"

definition drain_content :: "connection \<Rightarrow> decoders \<Rightarrow> id \<Rightarrow> instant \<Rightarrow> attached \<Rightarrow> attached option" where
  "drain_content conn dc run i a =
     (case send_frames conn dc (\<lambda>ev. run_scoped (seRunID ev) run) (inQueued i) a of
        None \<Rightarrow> None
      | Some a1 \<Rightarrow> if inQueueClosed i then Some a1
                   else read_frames conn dc (\<lambda>ev. run_scoped (seRunID ev) run) (inRead i) (atMax a1) a1)"

definition drain_lifecycle :: "connection \<Rightarrow> decoders \<Rightarrow> id \<Rightarrow> instant \<Rightarrow> attached \<Rightarrow> attached option" where
  "drain_lifecycle conn dc run i a =
     map_option (\<lambda>s. a\<lparr>atSse := s\<rparr>) (send_lifecycle conn dc (\<lambda>ev. evRunID ev = run) (inLifecycle i) (atSse a))"

subsection \<open>The end of the stream\<close>

text \<open>\<open>settleFinish\<close>; \<open>runs\<close> is what \<open>RunsForSession\<close> answers.\<close>

definition settle_status :: "run list option \<Rightarrow> id \<Rightarrow> run_status option \<Rightarrow> run_status option" where
  "settle_status runs run status =
     (if case status of None \<Rightarrow> False | Some st \<Rightarrow> status_terminal st then status
      else case runs of
             None \<Rightarrow> status
           | Some rs \<Rightarrow> (case find (\<lambda>r. runID r = run) rs of None \<Rightarrow> status | Some r \<Rightarrow> Some (runStatus r)))"

definition settle_finish :: "connection \<Rightarrow> run list option \<Rightarrow> id \<Rightarrow> run_status option \<Rightarrow> sse \<Rightarrow> sse" where
  "settle_finish conn runs run status s =
     (if swFinishReason s \<noteq> '''' then finish conn s
      else finish_with_reason conn
        (case settle_status runs run status of
           Some RunFailed \<Rightarrow> ''error'' | Some RunCancelled \<Rightarrow> ''other'' | _ \<Rightarrow> ''stop'') s)"

definition end_stream :: "connection \<Rightarrow> decoders \<Rightarrow> id \<Rightarrow> instant \<Rightarrow> attached \<Rightarrow> attached option" where
  "end_stream conn dc run i a =
     (case drain_content conn dc run i a of
        None \<Rightarrow> None
      | Some a1 \<Rightarrow>
          (case drain_lifecycle conn dc run i a1 of
             None \<Rightarrow> None
           | Some a2 \<Rightarrow> Some (a2\<lparr>atSse := settle_finish conn (inRuns i) run None (atSse a2), atEnded := True\<rparr>)))"

subsection \<open>The loop\<close>

definition settle_tick :: "connection \<Rightarrow> decoders \<Rightarrow> id \<Rightarrow> instant \<Rightarrow> attached \<Rightarrow> attached option" where
  "settle_tick conn dc run i a =
     (if \<not> atTerminal a \<and> inNow i - atLastFrame a \<le> settlePollSilence then Some a
      else if \<not> atTerminal a \<and> inNow i - atLastCheck a < atBackoff a then Some a
      else if \<not> atTerminal a \<and> inActive i then
        Some (a\<lparr>atLastCheck := inNow i, atBackoff := min (atBackoff a * 2) settleCheckMax\<rparr>)
      else end_stream conn dc run i (if atTerminal a then a else a\<lparr>atLastCheck := inNow i\<rparr>))"

definition receive_lifecycle :: "connection \<Rightarrow> decoders \<Rightarrow> id \<Rightarrow> instant \<Rightarrow> event \<Rightarrow> attached \<Rightarrow> attached option" where
  "receive_lifecycle conn dc run i ev a =
     (if evRunID ev \<noteq> run then Some a
      else map_option (\<lambda>s. a\<lparr>atSse := s, atLastFrame := inNow i, atBackoff := settleCheckInitial,
                            atTerminal := atTerminal a \<or> terminal_lifecycle (evKind ev)\<rparr>)
             (emit_lifecycle_event conn dc ev (atSse a)))"

definition receive_content :: "connection \<Rightarrow> decoders \<Rightarrow> id \<Rightarrow> instant \<Rightarrow> stream_event \<Rightarrow> attached \<Rightarrow> attached option" where
  "receive_content conn dc run i ev a =
     (if \<not> run_scoped (seRunID ev) run \<or> seOffset ev \<le> atMax a then Some a
      else case (if atMax a + 1 < seOffset ev then fill_gap conn dc run (seOffset ev) i a else Some a) of
             None \<Rightarrow> None
           | Some a1 \<Rightarrow>
               map_option (\<lambda>s. a1\<lparr>atMax := seOffset ev, atSent := atSent a1 @ [ev], atSse := s,
                                 atLastFrame := inNow i, atBackoff := settleCheckInitial\<rparr>)
                 (emit_stream_event conn dc ev (atSse a1)))"

definition attach_step :: "connection \<Rightarrow> decoders \<Rightarrow> id \<Rightarrow> instant \<Rightarrow> attached \<Rightarrow> attached option" where
  "attach_step conn dc run i a =
     (if atEnded a then Some a
      else case inPick i of
        ClientGone \<Rightarrow> Some (a\<lparr>atEnded := True\<rparr>)
      | HeartbeatTick \<Rightarrow>
          Some (if \<not> atTerminal a \<and> heartbeatInterval \<le> inNow i - atLastFrame a
                then a\<lparr>atSse := ping conn (atSse a)\<rparr> else a)
      | SettleTick \<Rightarrow> settle_tick conn dc run i a
      | LifecycleFrame ev \<Rightarrow> receive_lifecycle conn dc run i ev a
      | LifecycleClosed \<Rightarrow> Some a
      | ContentFrame ev \<Rightarrow> receive_content conn dc run i ev a
      | ContentClosed \<Rightarrow> end_stream conn dc run i a)"

fun attach_loop :: "connection \<Rightarrow> decoders \<Rightarrow> id \<Rightarrow> instant list \<Rightarrow> attached \<Rightarrow> attached option" where
  "attach_loop conn dc run [] a = Some a"
| "attach_loop conn dc run (i # ins) a =
     (case attach_step conn dc run i a of None \<Rightarrow> None | Some a' \<Rightarrow> attach_loop conn dc run ins a')"

text \<open>
  \<open>attach\<close>. \<open>replayed\<close> is the answer of the durable replay, \<open>i0\<close> the moment of the catch-up and of the
  one check before the loop (only its \<open>inRead\<close> is asked for the catch-up).
\<close>

definition attach :: "connection \<Rightarrow> decoders \<Rightarrow> string \<Rightarrow> run \<Rightarrow> int \<Rightarrow> ui_chunk list \<Rightarrow> event list option \<Rightarrow> instant \<Rightarrow> instant list \<Rightarrow> attached option" where
  "attach conn dc msg_id run after pre replayed i0 ins =
     (let s0 = fold (sse_write conn) (CStart msg_id # pre) (new_sse msg_id ''text-1'' ''reasoning-1'');
          a0 = \<lparr>atSse = s0, atMax = after, atSent = [], atTerminal = False, atLastFrame = inNow i0,
                atBackoff = settleCheckInitial, atLastCheck = inNow i0, atEnded = False\<rparr>
      in if status_terminal (runStatus run) then
           Some (a0\<lparr>atSse := settle_finish conn (inRuns i0) (runID run) (Some (runStatus run)) s0, atEnded := True\<rparr>)
         else case send_lifecycle conn dc (\<lambda>ev. evKind ev \<noteq> KindUser) (case replayed of None \<Rightarrow> [] | Some evs \<Rightarrow> evs) s0 of
             None \<Rightarrow> None
           | Some s1 \<Rightarrow>
               (case read_frames conn dc (\<lambda>ev. run_scoped (seRunID ev) (runID run)) (inRead i0) after (a0\<lparr>atSse := s1\<rparr>) of
                  None \<Rightarrow> None
                | Some a1 \<Rightarrow>
                    if \<not> inActive i0 then end_stream conn dc (runID run) i0 a1
                    else attach_loop conn dc (runID run) ins a1))"

text \<open>The run a client resumes and where it starts: an active run is streamed from its start.\<close>

fun latest_run :: "run list \<Rightarrow> run option" where
  "latest_run [] = None"
| "latest_run (r # rs) = Some (fold (\<lambda>x l. if runSeq l < runSeq x then x else l) rs r)"

definition resume_run :: "run option \<Rightarrow> run list option \<Rightarrow> run option" where
  "resume_run active runs =
     (case active of Some r \<Rightarrow> Some r | None \<Rightarrow> (case runs of None \<Rightarrow> None | Some rs \<Rightarrow> latest_run rs))"

definition resume_after :: "run \<Rightarrow> int \<Rightarrow> int" where
  "resume_after r after = (if status_terminal (runStatus r) then after else 0)"

subsection \<open>What every step keeps\<close>

text \<open>The stream reads well so far, and the frames sent are the run's, each once and in order.\<close>

definition good :: "id \<Rightarrow> int \<Rightarrow> attached \<Rightarrow> bool" where
  "good run after a =
     (sorted_wrt (<) (after # map seOffset (atSent a)) \<and> last (after # map seOffset (atSent a)) = atMax a \<and>
      (\<forall>f \<in> set (atSent a). run_scoped (seRunID f) run))"

definition readable :: "attached \<Rightarrow> bool" where
  "readable a = (sse_inv (atSse a) \<and> latch_ok (atSse a))"

lemma good_last: "good run after a \<Longrightarrow> x \<in> set (after # map seOffset (atSent a)) \<Longrightarrow> x \<le> atMax a"
proof -
  have "sorted_wrt (<) (xs :: int list) \<Longrightarrow> y \<in> set xs \<Longrightarrow> y \<le> last xs" for xs y
    by (induction xs) (auto intro: less_imp_le)
  then show "good run after a \<Longrightarrow> x \<in> set (after # map seOffset (atSent a)) \<Longrightarrow> x \<le> atMax a"
    unfolding good_def by metis
qed

lemma good_send:
  assumes "good run after a" "run_scoped (seRunID ev) run" "atMax a < seOffset ev"
  shows "good run after (a\<lparr>atMax := seOffset ev, atSent := atSent a @ [ev], atSse := s\<rparr>)"
proof -
  have "\<forall>x \<in> set (after # map seOffset (atSent a)). x < seOffset ev" using good_last [OF assms(1)] assms(3) by fastforce
  with assms show ?thesis by (auto simp: good_def sorted_wrt_append)
qed

lemma send_frames_good:
  assumes "send_frames conn dc keep evs a = Some a'" "good run after a" "\<And>ev. keep ev \<Longrightarrow> run_scoped (seRunID ev) run"
  shows "good run after a'"
  using assms
proof (induction evs arbitrary: a)
  case (Cons ev evs)
  then show ?case by (auto split: if_splits option.splits intro!: Cons.IH good_send)
qed simp

lemma readable_send:
  "readable a \<Longrightarrow> emit_stream_event conn dc ev (atSse a) = Some s \<Longrightarrow>
     readable (a\<lparr>atMax := m, atSent := fs, atSse := s\<rparr>)"
  by (auto simp: readable_def dest: emit_stream_event_inv emit_stream_event_latch_ok)

lemma send_frames_readable: "send_frames conn dc keep evs a = Some a' \<Longrightarrow> readable a \<Longrightarrow> readable a'"
proof (induction evs arbitrary: a)
  case (Cons ev evs)
  then show ?case by (auto split: if_splits option.splits intro!: Cons.IH readable_send)
qed simp

lemma send_frames_ended: "send_frames conn dc keep evs a = Some a' \<Longrightarrow> atEnded a' = atEnded a \<and> atTerminal a' = atTerminal a"
  by (induction evs arbitrary: a) (force split: if_splits option.splits)+

lemma send_lifecycle_readable:
  "send_lifecycle conn dc keep evs s = Some s' \<Longrightarrow> sse_inv s \<and> latch_ok s \<Longrightarrow> sse_inv s' \<and> latch_ok s'"
  by (induction evs arbitrary: s)
    (auto split: if_splits option.splits dest: emit_lifecycle_event_inv emit_lifecycle_event_latch_ok)

lemma read_frames_keep:
  assumes "read_frames conn dc keep rd k a = Some a'"
  shows "readable a \<Longrightarrow> readable a'"
    and "good run after a \<Longrightarrow> (\<And>ev. keep ev \<Longrightarrow> run_scoped (seRunID ev) run) \<Longrightarrow> good run after a'"
    and "atEnded a' = atEnded a \<and> atTerminal a' = atTerminal a"
proof -
  show "readable a \<Longrightarrow> readable a'" using assms by (auto simp: read_frames_def intro: send_frames_readable split: option.splits)
  show "good run after a \<Longrightarrow> (\<And>ev. keep ev \<Longrightarrow> run_scoped (seRunID ev) run) \<Longrightarrow> good run after a'"
    using assms by (auto simp: read_frames_def intro: send_frames_good split: option.splits)
  show "atEnded a' = atEnded a \<and> atTerminal a' = atTerminal a"
    using assms by (auto simp: read_frames_def dest: send_frames_ended split: option.splits)
qed

lemma fill_gap_keep:
  assumes "fill_gap conn dc run nxt i a = Some a'"
  shows "readable a \<Longrightarrow> readable a'" "good run after a \<Longrightarrow> good run after a'"
    "atEnded a' = atEnded a \<and> atTerminal a' = atTerminal a"
  using read_frames_keep(1,2) [OF assms [unfolded fill_gap_def]] read_frames_keep(3) [OF assms [unfolded fill_gap_def]]
  by blast+

lemma drain_content_keep:
  assumes "drain_content conn dc run i a = Some a'"
  shows "readable a \<Longrightarrow> readable a'" and "good run after a \<Longrightarrow> good run after a'"
proof -
  from assms obtain a1 where 1: "send_frames conn dc (\<lambda>ev. run_scoped (seRunID ev) run) (inQueued i) a = Some a1"
    "a1 = a' \<or> read_frames conn dc (\<lambda>ev. run_scoped (seRunID ev) run) (inRead i) (atMax a1) a1 = Some a'"
    by (auto simp: drain_content_def split: option.splits if_splits)
  show "readable a \<Longrightarrow> readable a'" using send_frames_readable [OF 1(1)] 1(2) read_frames_keep(1) by blast
  show "good run after a \<Longrightarrow> good run after a'" using send_frames_good [OF 1(1)] 1(2) read_frames_keep(2) by blast
qed

lemma good_cong:
  "atMax a' = atMax a \<Longrightarrow> atSent a' = atSent a \<Longrightarrow> good run after a' = good run after a"
  by (simp add: good_def)

lemma drain_lifecycle_keep:
  assumes "drain_lifecycle conn dc run i a = Some a'"
  shows "readable a \<Longrightarrow> readable a'" "good run after a' = good run after a"
  using assms by (auto simp: drain_lifecycle_def readable_def good_def dest: send_lifecycle_readable)

text \<open>How a stream that was ended looks to the client: the write that failed, or the whole protocol.\<close>

definition closed_with :: "string set \<Rightarrow> attached \<Rightarrow> bool" where
  "closed_with rs a =
     (reads (swOut (atSse a)) \<noteq> None \<and>
      (\<not> swErr (atSse a) \<longrightarrow>
         (\<exists>v. reads (swOut (atSse a)) = Some v \<and> vwStage v = Over) \<and>
         (\<exists>pre r i j. r \<in> rs \<and> swOut (atSse a) = pre @ [CFinish r i j, CDone])))"

definition reasons_for :: "run list option \<Rightarrow> id \<Rightarrow> run_status option \<Rightarrow> string set" where
  "reasons_for runs run status =
     (case settle_status runs run status of
        Some RunFailed \<Rightarrow> {''error'', ''length'', ''other''}
      | Some RunCancelled \<Rightarrow> {''error'', ''length'', ''other''}
      | _ \<Rightarrow> {''stop'', ''error'', ''length'', ''other''})"

lemma settle_finish_closed:
  assumes "readable a"
  shows "closed_with (reasons_for runs run status) (a\<lparr>atSse := settle_finish conn runs run status (atSse a), atEnded := e\<rparr>)"
proof -
  let ?s = "atSse a"
  let ?r = "if swFinishReason ?s \<noteq> [] then [] else (case settle_status runs run status of
      Some RunFailed \<Rightarrow> ''error'' | Some RunCancelled \<Rightarrow> ''other'' | _ \<Rightarrow> ''stop'')"
  have eq: "settle_finish conn runs run status ?s = finish_with_reason conn ?r ?s"
    by (simp add: settle_finish_def finish_def)
  have mem: "end_reason ?r ?s \<in> reasons_for runs run status"
    using assms by (auto simp: end_reason_def reasons_for_def readable_def latch_ok_def split: option.splits run_status.splits)
  show ?thesis using finish_reads [of ?s conn ?r] assms mem unfolding closed_with_def readable_def eq by auto
qed

lemma end_stream_closed:
  assumes "end_stream conn dc run i a = Some a'" "readable a"
  shows "closed_with (reasons_for (inRuns i) run None) a' \<and> atEnded a' \<and> (good run after a \<longrightarrow> good run after a')"
proof -
  from assms(1) obtain a1 a2 where 12: "drain_content conn dc run i a = Some a1" "drain_lifecycle conn dc run i a1 = Some a2"
    "a' = a2\<lparr>atSse := settle_finish conn (inRuns i) run None (atSse a2), atEnded := True\<rparr>"
    by (auto simp: end_stream_def split: option.splits)
  have "readable a2" using 12 assms(2) drain_content_keep(1) drain_lifecycle_keep(1) by blast
  from settle_finish_closed [OF this, where conn = conn and runs = "inRuns i" and run = run and status = None and e = True] have "closed_with (reasons_for (inRuns i) run None) a'"
    unfolding 12(3) .
  moreover have "good run after a' = good run after a2" unfolding 12(3) by (rule good_cong) simp_all
  ultimately show ?thesis using 12 drain_content_keep(2) drain_lifecycle_keep(2) by auto
qed

subsection \<open>The whole stream\<close>

lemma receive_lifecycle_keep:
  assumes "receive_lifecycle conn dc run i ev a = Some a'"
  shows "readable a \<Longrightarrow> readable a'" "good run after a' = good run after a" "atEnded a' = atEnded a"
    "atTerminal a' \<longleftrightarrow> atTerminal a \<or> evRunID ev = run \<and> terminal_lifecycle (evKind ev)"
  using assms
  by (auto simp: receive_lifecycle_def readable_def good_def split: if_splits
      dest: emit_lifecycle_event_inv emit_lifecycle_event_latch_ok)

lemma fill_gap_max: "fill_gap conn dc run nxt i a = Some a' \<Longrightarrow> atMax a < nxt \<Longrightarrow> atMax a' < nxt"
proof -
  have "send_frames conn dc keep evs b = Some b' \<Longrightarrow> (\<And>ev. keep ev \<Longrightarrow> seOffset ev < nxt) \<Longrightarrow> atMax b < nxt \<Longrightarrow> atMax b' < nxt"
    for keep evs b b'
  proof (induction evs arbitrary: b)
    case (Cons ev evs)
    then show ?case by (auto split: if_splits option.splits intro: Cons.IH)
  qed simp
  then show "fill_gap conn dc run nxt i a = Some a' \<Longrightarrow> atMax a < nxt \<Longrightarrow> atMax a' < nxt"
    by (fastforce simp: fill_gap_def read_frames_def split: option.splits)
qed

lemma receive_content_cases:
  assumes "receive_content conn dc run i ev a = Some a'"
  obtains (skipped) "\<not> run_scoped (seRunID ev) run \<or> seOffset ev \<le> atMax a" "a' = a"
  | (sent) a1 s where "run_scoped (seRunID ev) run" "atMax a < seOffset ev" "atMax a1 < seOffset ev"
      "if atMax a + 1 < seOffset ev then fill_gap conn dc run (seOffset ev) i a = Some a1 else a1 = a"
      "emit_stream_event conn dc ev (atSse a1) = Some s"
      "a' = a1\<lparr>atMax := seOffset ev, atSent := atSent a1 @ [ev], atSse := s, atLastFrame := inNow i, atBackoff := settleCheckInitial\<rparr>"
proof (cases "\<not> run_scoped (seRunID ev) run \<or> seOffset ev \<le> atMax a")
  case True
  with assms show ?thesis by (intro skipped) (auto simp: receive_content_def)
next
  case False
  with assms obtain a1 s where "(if atMax a + 1 < seOffset ev then fill_gap conn dc run (seOffset ev) i a else Some a) = Some a1"
    "emit_stream_event conn dc ev (atSse a1) = Some s"
    "a' = a1\<lparr>atMax := seOffset ev, atSent := atSent a1 @ [ev], atSse := s, atLastFrame := inNow i, atBackoff := settleCheckInitial\<rparr>"
    by (auto simp: receive_content_def split: option.splits)
  with False show ?thesis by (intro sent [of a1 s]) (auto dest: fill_gap_max split: if_splits)
qed

lemma receive_content_readable:
  assumes "receive_content conn dc run i ev a = Some a'" "readable a"
  shows "readable a'"
  using assms(1)
proof (cases rule: receive_content_cases)
  case (sent a1 s)
  then have "readable a1" using assms(2) fill_gap_keep(1) by (auto split: if_splits)
  from readable_send [OF this sent(5), where m = "seOffset ev" and fs = "atSent a1 @ [ev]"] show ?thesis by (simp add: sent(6) readable_def)
qed (use assms in simp)

lemma receive_content_good:
  assumes "receive_content conn dc run i ev a = Some a'" "good run after a"
  shows "good run after a'"
  using assms(1)
proof (cases rule: receive_content_cases)
  case (sent a1 s)
  then have "good run after a1" using assms(2) fill_gap_keep(2) by (auto split: if_splits)
  from good_send [OF this sent(1,3), of s] show ?thesis by (simp add: sent(6) good_def)
qed (use assms in simp)

lemma receive_content_flags:
  "receive_content conn dc run i ev a = Some a' \<Longrightarrow> atEnded a' = atEnded a \<and> atTerminal a' = atTerminal a"
  by (cases rule: receive_content_cases) (auto dest: fill_gap_keep(3) split: if_splits)

lemmas attach_step_defs = attach_step_def settle_tick_def

text \<open>A step ends the stream or keeps it readable; ended by anything but the client's leaving, it is closed.\<close>

definition stage_after :: "id \<Rightarrow> int \<Rightarrow> instant \<Rightarrow> attached \<Rightarrow> bool" where
  "stage_after run after i a =
     (good run after a \<and>
      (if atEnded a then (if inPick i = ClientGone then readable a else closed_with (reasons_for (inRuns i) run None) a)
       else readable a))"

lemma attach_step_keeps:
  assumes "attach_step conn dc run i a = Some a'" "\<not> atEnded a" "readable a" "good run after a"
  shows "stage_after run after i a'"
proof (cases "inPick i")
  case ClientGone
  with assms show ?thesis by (auto simp: attach_step_def stage_after_def readable_def good_def)
next
  case HeartbeatTick
  with assms show ?thesis
    by (auto simp: attach_step_def stage_after_def readable_def good_def ping_def write_plain split: if_splits)
next
  case SettleTick
  let ?b = "if atTerminal a then a else a\<lparr>atLastCheck := inNow i\<rparr>"
  have "readable ?b" "good run after ?b" using assms by (auto simp: readable_def good_def)
  with SettleTick assms show ?thesis using end_stream_closed [of conn dc run i ?b a' after]
    by (auto simp: attach_step_defs stage_after_def readable_def good_def split: if_splits)
next
  case (LifecycleFrame ev)
  with assms show ?thesis using receive_lifecycle_keep [of conn dc run i ev a a']
    by (auto simp: attach_step_def stage_after_def)
next
  case LifecycleClosed
  with assms show ?thesis by (auto simp: attach_step_def stage_after_def)
next
  case (ContentFrame ev)
  with assms have c: "receive_content conn dc run i ev a = Some a'" by (simp add: attach_step_def)
  from receive_content_readable [OF c assms(3)] receive_content_good [OF c assms(4)] receive_content_flags [OF c] assms(2)
  show ?thesis by (simp add: stage_after_def)
next
  case ContentClosed
  with assms show ?thesis using end_stream_closed [of conn dc run i a a' after] by (auto simp: attach_step_def stage_after_def)
qed

lemma attach_loop_ended: "atEnded a \<Longrightarrow> attach_loop conn dc run ins a = Some a"
  by (induction ins) (simp_all add: attach_step_def)

lemma attach_loop_keeps:
  assumes "attach_loop conn dc run ins a = Some a'" "\<not> atEnded a" "readable a" "good run after a"
  shows "(\<exists>i \<in> set ins. atEnded a' \<and> stage_after run after i a') \<or> \<not> atEnded a' \<and> readable a' \<and> good run after a'"
  using assms
proof (induction ins arbitrary: a)
  case (Cons i ins)
  then obtain b where b: "attach_step conn dc run i a = Some b" "attach_loop conn dc run ins b = Some a'"
    by (auto split: option.splits)
  from attach_step_keeps [OF b(1) Cons.prems(2-4)] have st: "stage_after run after i b" .
  show ?case
  proof (cases "atEnded b")
    case True
    with attach_loop_ended b(2) have "a' = b" by force
    with st True show ?thesis by auto
  next
    case False
    with st have "readable b" "good run after b" by (auto simp: stage_after_def)
    from Cons.IH [OF b(2) False this] show ?thesis by auto
  qed
qed simp

lemma start_readable:
  assumes "list_all plain pre"
  shows "sse_inv (fold (sse_write conn) (CStart m # pre) (new_sse m txt th)) \<and>
    latch_ok (fold (sse_write conn) (CStart m # pre) (new_sse m txt th))"
proof -
  have "sse_inv (sse_write conn (CStart m) (new_sse m txt th))"
    by (simp add: new_sse_def sse_write_def sse_inv_def reads_def follow_def sse_view_def tool_started_def)
  moreover have "latch_ok (sse_write conn (CStart m) (new_sse m txt th))" by (simp add: new_sse_def latch_ok_def)
  moreover have "list_all plain cs \<Longrightarrow> sse_inv e \<Longrightarrow> latch_ok e \<Longrightarrow>
      sse_inv (fold (sse_write conn) cs e) \<and> latch_ok (fold (sse_write conn) cs e)" for cs e
    by (induction cs arbitrary: e) (simp_all add: write_plain)
  ultimately show ?thesis using assms by simp
qed

text \<open>The ends of an attach: the run had settled, nobody was active any more, or the loop.\<close>

definition attach_start :: "connection \<Rightarrow> string \<Rightarrow> int \<Rightarrow> ui_chunk list \<Rightarrow> instant \<Rightarrow> attached" where
  "attach_start conn msg_id after pre i0 =
     \<lparr>atSse = fold (sse_write conn) (CStart msg_id # pre) (new_sse msg_id ''text-1'' ''reasoning-1''), atMax = after,
      atSent = [], atTerminal = False, atLastFrame = inNow i0, atBackoff = settleCheckInitial, atLastCheck = inNow i0,
      atEnded = False\<rparr>"

lemma attach_start_keeps:
  assumes "list_all plain pre"
  shows "readable (attach_start conn m after pre i0)" "good run after (attach_start conn m after pre i0)"
    "\<not> atEnded (attach_start conn m after pre i0)"
  using start_readable [OF assms] by (simp_all add: attach_start_def readable_def good_def)

lemma attach_cases:
  assumes "attach conn dc m run after pre rep i0 ins = Some a"
  obtains (settled) "status_terminal (runStatus run)"
      "a = (attach_start conn m after pre i0)\<lparr>atSse := settle_finish conn (inRuns i0) (runID run) (Some (runStatus run))
             (atSse (attach_start conn m after pre i0)), atEnded := True\<rparr>"
  | (follow) s1 a1 where "\<not> status_terminal (runStatus run)"
      "send_lifecycle conn dc (\<lambda>ev. evKind ev \<noteq> KindUser) (case rep of None \<Rightarrow> [] | Some evs \<Rightarrow> evs)
         (atSse (attach_start conn m after pre i0)) = Some s1"
      "read_frames conn dc (\<lambda>ev. run_scoped (seRunID ev) (runID run)) (inRead i0) after
         ((attach_start conn m after pre i0)\<lparr>atSse := s1\<rparr>) = Some a1"
      "if inActive i0 then attach_loop conn dc (runID run) ins a1 = Some a else end_stream conn dc (runID run) i0 a1 = Some a"
  using assms unfolding attach_def Let_def attach_start_def [symmetric]
  by (auto split: if_splits option.splits simp: attach_start_def)

lemma caught_up_keeps:
  assumes "list_all plain pre"
    and "send_lifecycle conn dc keep evs (atSse (attach_start conn m after pre i0)) = Some s1"
    and "read_frames conn dc (\<lambda>ev. run_scoped (seRunID ev) run) rd after ((attach_start conn m after pre i0)\<lparr>atSse := s1\<rparr>) = Some a1"
  shows "readable a1" "good run after a1" "\<not> atEnded a1"
proof -
  let ?b = "(attach_start conn m after pre i0)\<lparr>atSse := s1\<rparr>"
  have "readable ?b" using attach_start_keeps(1) [OF assms(1)] send_lifecycle_readable [OF assms(2)] by (simp add: readable_def)
  moreover have "good run after ?b" using attach_start_keeps(2) [OF assms(1)] by (simp add: good_def)
  moreover have "\<not> atEnded ?b" by (simp add: attach_start_def)
  ultimately show "readable a1" "good run after a1" "\<not> atEnded a1" using read_frames_keep [OF assms(3)] by auto
qed

text \<open>How an attach leaves the stream; \<open>reasons\<close> are those a finish may give.\<close>

lemma attach_outcome:
  assumes "attach conn dc m run after pre rep i0 ins = Some a" "list_all plain pre"
  shows "good (runID run) after a \<and>
    (readable a \<and> (atEnded a \<longrightarrow> (\<exists>i \<in> set ins. inPick i = ClientGone)) \<or>
     atEnded a \<and> (\<exists>i \<in> set (i0 # ins). closed_with (reasons_for (inRuns i) (runID run)
        (if status_terminal (runStatus run) then Some (runStatus run) else None)) a))"
  using assms(1)
proof (cases rule: attach_cases)
  case settled
  let ?b = "attach_start conn m after pre i0"
  have b: "readable ?b" "good (runID run) after ?b" using attach_start_keeps [OF assms(2)] by blast+
  from settle_finish_closed [OF b(1), where conn = conn and runs = "inRuns i0" and run = "runID run" and
      status = "Some (runStatus run)" and e = True] b(2)
  show ?thesis using settled by (simp add: good_def)
next
  case (follow s1 a1)
  note a1 = caught_up_keeps [OF assms(2) follow(2,3)]
  show ?thesis
  proof (cases "inActive i0")
    case True
    with follow(4) have "attach_loop conn dc (runID run) ins a1 = Some a" by simp
    from attach_loop_keeps [OF this a1(3,1,2)] follow(1) show ?thesis by (auto simp: stage_after_def split: if_splits)
  next
    case False
    with follow(4) have "end_stream conn dc (runID run) i0 a1 = Some a" by simp
    from end_stream_closed [OF this a1(1), of after] a1(2) follow(1) show ?thesis by auto
  qed
qed

subsection \<open>No frame is lost while the stream is followed\<close>

text \<open>
  \<open>L\<close> is what the session's broker publishes, in offset order. A broker that has evicted nothing
  answers a read with what was published by then; a frame received has been published.
\<close>

definition in_order :: "stream_event list \<Rightarrow> bool" where
  "in_order L = sorted_wrt (<) (map seOffset L)"

definition serves :: "stream_event list \<Rightarrow> instant \<Rightarrow> bool" where
  "serves L i = (\<exists>n. (\<forall>k. inRead i k = Some (filter (\<lambda>f. k < seOffset f) (take n L))) \<and>
     (\<forall>ev. inPick i = ContentFrame ev \<longrightarrow> ev \<in> set (take n L)))"

definition delivered :: "id \<Rightarrow> int \<Rightarrow> int \<Rightarrow> stream_event list \<Rightarrow> stream_event list" where
  "delivered run after m L = filter (\<lambda>f. run_scoped (seRunID f) run \<and> after < seOffset f \<and> seOffset f \<le> m) L"

lemma in_order_tl: "in_order (f # L) \<longleftrightarrow> (\<forall>g \<in> set L. seOffset f < seOffset g) \<and> in_order L"
  by (simp add: in_order_def)

lemma in_order_filter: "in_order L \<Longrightarrow> in_order (filter P L)"
  by (simp add: in_order_def sorted_wrt_map sorted_wrt_filter)

lemma in_order_take: "in_order L \<Longrightarrow> in_order (take n L)"
  by (simp add: in_order_def sorted_wrt_take flip: take_map)

lemma in_order_parts:
  assumes "in_order L" "f \<in> set (take n L)" "g \<in> set (drop n L)"
  shows "seOffset f < seOffset g"
proof -
  have "sorted_wrt (<) (map seOffset (take n L) @ map seOffset (drop n L))"
    using assms(1) unfolding in_order_def map_append [symmetric] append_take_drop_id .
  with assms(2,3) show ?thesis by (auto simp: sorted_wrt_append)
qed

lemma in_order_eqI: "in_order xs \<Longrightarrow> in_order ys \<Longrightarrow> set xs = set ys \<Longrightarrow> xs = ys"
proof (induction xs arbitrary: ys)
  case (Cons x xs)
  then obtain y ys' where ys: "ys = y # ys'" by (cases ys) auto
  have "x = y"
  proof (rule ccontr)
    assume "x \<noteq> y"
    with Cons.prems(3) ys have "y \<in> set xs" "x \<in> set ys'" by auto
    with Cons.prems(1,2) ys show False by (force simp: in_order_tl)
  qed
  moreover have "x \<notin> set xs" "y \<notin> set ys'" using Cons.prems(1,2) ys by (auto simp: in_order_tl)
  ultimately have "set xs = set ys'" using Cons.prems(3) ys by auto
  with Cons.IH [of ys'] Cons.prems(1,2) ys \<open>x = y\<close> show ?case by (simp add: in_order_tl)
qed simp

lemma delivered_split:
  assumes "in_order L" "m \<le> m'" "after \<le> m"
  shows "delivered run after m' L = delivered run after m L @ filter (\<lambda>f. run_scoped (seRunID f) run \<and> m < seOffset f \<and> seOffset f \<le> m') L"
  using assms
proof (induction L)
  case (Cons f L)
  show ?case
  proof (cases "seOffset f \<le> m")
    case True
    with Cons show ?thesis by (auto simp: delivered_def in_order_tl)
  next
    case False
    with Cons.prems have "\<forall>g \<in> set (f # L). m < seOffset g" by (auto simp: in_order_tl)
    then have "delivered run after m (f # L) = []" by (auto simp: delivered_def filter_empty_conv)
    moreover have "delivered run after m' (f # L) = filter (\<lambda>f. run_scoped (seRunID f) run \<and> m < seOffset f \<and> seOffset f \<le> m') (f # L)"
      unfolding delivered_def using \<open>\<forall>g \<in> set (f # L). m < seOffset g\<close> Cons.prems(3) by (intro filter_cong refl) auto
    ultimately show ?thesis by simp
  qed
qed (simp add: delivered_def)

lemma send_frames_exact:
  assumes "send_frames conn dc keep evs a = Some a'" "in_order evs"
  shows "atSent a' = atSent a @ filter (\<lambda>f. keep f \<and> atMax a < seOffset f) evs \<and> atMax a \<le> atMax a' \<and>
    (atMax a' = atMax a \<or> (\<exists>f \<in> set evs. atMax a' = seOffset f)) \<and>
    (\<forall>f \<in> set evs. keep f \<longrightarrow> seOffset f \<le> atMax a')"
  using assms
proof (induction evs arbitrary: a)
  case (Cons ev evs)
  show ?case
  proof (cases "keep ev \<and> atMax a < seOffset ev")
    case True
    with Cons.prems(1) obtain s where s: "send_frames conn dc keep evs (a\<lparr>atMax := seOffset ev, atSent := atSent a @ [ev], atSse := s\<rparr>) = Some a'"
      by (auto split: option.splits)
    have "filter (\<lambda>f. keep f \<and> seOffset ev < seOffset f) evs = filter (\<lambda>f. keep f \<and> atMax a < seOffset f) evs"
      using Cons.prems(2) True by (intro filter_cong refl) (auto simp: in_order_tl)
    with Cons.IH [OF s] Cons.prems(2) True show ?thesis by (auto simp: in_order_tl)
  next
    case False
    with Cons.prems(1) have "send_frames conn dc keep evs a = Some a'" by (auto split: if_splits)
    with Cons.IH [OF this] Cons.prems(2) False show ?thesis by (auto simp: in_order_tl)
  qed
qed simp

text \<open>The broker in memory answers so until the session is settled or more is published than its ring holds.\<close>

lemma fresh_stream:
  assumes "\<forall>x \<in> set xs. streaming s x" "length (published s xs) \<le> mbCapacity (new_mem_broker c)"
  shows "lsNext (stream_of s (fold broker_do xs (new_mem_broker c))) = int (length (published s xs)) \<and>
    lsFrames (stream_of s (fold broker_do xs (new_mem_broker c))) = numbered 0 (published s xs)"
  using assms
proof (induction xs rule: rev_induct)
  case Nil
  then show ?case by (simp add: new_mem_broker_def stream_of_def empty_stream_def numbered_def)
next
  case (snoc x xs)
  let ?b = "fold broker_do xs (new_mem_broker c)"
  have IH: "lsNext (stream_of s ?b) = int (length (published s xs))" "lsFrames (stream_of s ?b) = numbered 0 (published s xs)"
    using snoc by (simp_all add: published_snoc)
  show ?case
  proof (cases "op_session x = s")
    case False
    then have "published s [x] = []" by (cases x) auto
    with IH False show ?thesis by (simp add: published_snoc stream_other)
  next
    case True
    then show ?thesis
    proof (cases x)
      case (BPublish s' ev)
      with True snoc.prems(2) IH show ?thesis
        by (simp add: published_snoc numbered_snoc push_frame_def Let_def)
    next
      case (BSubscribe ch s' n)
      with True IH show ?thesis by (simp add: published_snoc broker_subscribe_def Let_def)
    next
      case (BUnsubscribe ch s')
      have "published s xs = [] \<longleftrightarrow> lsFrames (stream_of s ?b) = []" using arg_cong [OF IH(2), of length] by auto
      with BUnsubscribe True IH show ?thesis
        by (auto simp: published_snoc broker_unsubscribe_def empty_stream_def Let_def dest: stream_of_Some split: option.split)
    next
      case (BSettle s')
      with True snoc.prems(1) show ?thesis by simp
    qed
  qed
qed

lemma published_append: "published s (xs @ ys) = published s xs @ published s ys"
  by (induction xs rule: published.induct) auto

lemma numbered_take: "take (length evs) (numbered k (evs @ rest)) = numbered k evs"
  by (induction rest rule: rev_induct) (simp_all add: numbered_snoc flip: append_assoc)

lemma numbered_in_order: "in_order (numbered 0 evs)"
  by (induction evs rule: rev_induct) (auto simp: numbered_snoc in_order_def sorted_wrt_append numbered_def in_set_zip enumerate_eq_zip)

lemma memory_broker_serves:
  assumes "\<forall>x \<in> set xs. streaming s x" "length (published s xs) \<le> mbCapacity (new_mem_broker c)"
    and "\<And>k. inRead i k = Some (broker_read s k (fold broker_do xs (new_mem_broker c)))"
    and "\<And>ev. inPick i = ContentFrame ev \<Longrightarrow> ev \<in> set (numbered 0 (published s xs))"
  shows "serves (numbered 0 (published s (xs @ ys))) i"
  unfolding serves_def
  by (rule exI [of _ "length (published s xs)"])
    (use assms(3,4) fresh_stream [OF assms(1,2)] in \<open>auto simp: published_append numbered_take read_stream\<close>)

text \<open>While a stream is followed, it has sent exactly the run's frames up to its offset.\<close>

definition up_to_date :: "stream_event list \<Rightarrow> id \<Rightarrow> int \<Rightarrow> attached \<Rightarrow> bool" where
  "up_to_date L run after a = (after \<le> atMax a \<and> atSent a = delivered run after (atMax a) L)"

lemma caught_up_exact:
  assumes "in_order L" "serves L i"
    and "read_frames conn dc (\<lambda>ev. run_scoped (seRunID ev) run) (inRead i) after a = Some a'"
    and "atMax a = after" "atSent a = []"
  shows "up_to_date L run after a'"
proof -
  from assms(2) obtain n where n: "inRead i after = Some (filter (\<lambda>f. after < seOffset f) (take n L))" by (auto simp: serves_def)
  let ?R = "filter (\<lambda>f. after < seOffset f) (take n L)"
  have ord: "in_order ?R" using assms(1) by (intro in_order_filter in_order_take)
  from assms(3) n have "send_frames conn dc (\<lambda>ev. run_scoped (seRunID ev) run) ?R a = Some a'" by (simp add: read_frames_def)
  note sf = send_frames_exact [OF this ord, unfolded assms(4,5) append_Nil]
  have sent: "atSent a' = filter (\<lambda>f. run_scoped (seRunID f) run \<and> after < seOffset f) ?R" "after \<le> atMax a'"
    "atMax a' = after \<or> (\<exists>f \<in> set ?R. atMax a' = seOffset f)" "\<forall>f \<in> set ?R. run_scoped (seRunID f) run \<longrightarrow> seOffset f \<le> atMax a'"
    by (rule sf [THEN conjunct1], rule sf [THEN conjunct2, THEN conjunct1],
        rule sf [THEN conjunct2, THEN conjunct2, THEN conjunct1], rule sf [THEN conjunct2, THEN conjunct2, THEN conjunct2])
  have before: "f \<in> set (take n L)" if "f \<in> set L" "g \<in> set (take n L)" "seOffset f \<le> seOffset g" for f g
  proof (rule ccontr)
    assume "f \<notin> set (take n L)"
    with that(1) have "f \<in> set (drop n L)" by (metis (no_types) Un_iff append_take_drop_id set_append)
    from in_order_parts [OF assms(1) that(2) this] that(3) show False by simp
  qed
  have "atSent a' = delivered run after (atMax a') L"
  proof (rule in_order_eqI)
    show "in_order (atSent a')" unfolding sent(1) by (rule in_order_filter [OF ord])
    show "in_order (delivered run after (atMax a') L)" unfolding delivered_def by (rule in_order_filter [OF assms(1)])
    show "set (atSent a') = set (delivered run after (atMax a') L)"
    proof (intro set_eqI iffI)
      fix f assume "f \<in> set (atSent a')"
      then have f: "f \<in> set (take n L)" "run_scoped (seRunID f) run" "after < seOffset f" "f \<in> set ?R" by (auto simp: sent(1))
      with sent(4) in_set_takeD [OF f(1)] show "f \<in> set (delivered run after (atMax a') L)" by (simp add: delivered_def)
    next
      fix f assume "f \<in> set (delivered run after (atMax a') L)"
      then have f: "f \<in> set L" "run_scoped (seRunID f) run" "after < seOffset f" "seOffset f \<le> atMax a'" by (auto simp: delivered_def)
      with sent(3) obtain g where "g \<in> set (take n L)" "atMax a' = seOffset g" by auto
      with before [OF f(1), of g] f(4) have "f \<in> set (take n L)" by simp
      with f show "f \<in> set (atSent a')" by (simp add: sent(1))
    qed
  qed
  with sent(2) show ?thesis by (simp add: up_to_date_def)
qed

lemma fill_gap_exact:
  assumes "in_order L" "serves L i" "inPick i = ContentFrame ev" "fill_gap conn dc run (seOffset ev) i a = Some a1"
  shows "atSent a1 = atSent a @ filter (\<lambda>f. run_scoped (seRunID f) run \<and> atMax a < seOffset f \<and> seOffset f < seOffset ev) L"
proof -
  from assms(2,3) obtain n where n: "inRead i (atMax a) = Some (filter (\<lambda>f. atMax a < seOffset f) (take n L))"
    "ev \<in> set (take n L)" by (auto simp: serves_def)
  let ?R = "filter (\<lambda>f. atMax a < seOffset f) (take n L)"
  have "in_order ?R" using assms(1) by (intro in_order_filter in_order_take)
  from send_frames_exact [OF _ this] assms(4) n(1) have
    "atSent a1 = atSent a @ filter (\<lambda>f. (run_scoped (seRunID f) run \<and> seOffset f < seOffset ev) \<and> atMax a < seOffset f) ?R"
    by (fastforce simp: read_frames_def fill_gap_def)
  also have "filter (\<lambda>f. (run_scoped (seRunID f) run \<and> seOffset f < seOffset ev) \<and> atMax a < seOffset f) ?R =
      filter (\<lambda>f. run_scoped (seRunID f) run \<and> atMax a < seOffset f \<and> seOffset f < seOffset ev) (take n L)"
    by (auto intro: filter_cong)
  also have "\<dots> = filter (\<lambda>f. run_scoped (seRunID f) run \<and> atMax a < seOffset f \<and> seOffset f < seOffset ev) (take n L @ drop n L)"
  proof -
    have "\<forall>f \<in> set (drop n L). \<not> seOffset f < seOffset ev" using in_order_parts [OF assms(1) n(2)] by fastforce
    then have "filter (\<lambda>f. run_scoped (seRunID f) run \<and> atMax a < seOffset f \<and> seOffset f < seOffset ev) (drop n L) = []"
      by (simp add: filter_empty_conv)
    then show ?thesis by (simp only: filter_append append_Nil2)
  qed
  finally show ?thesis by simp
qed

lemma served_frame: "serves L i \<Longrightarrow> inPick i = ContentFrame ev \<Longrightarrow> ev \<in> set L"
  by (auto simp: serves_def dest: in_set_takeD)

lemma only_frame:
  assumes "in_order L" "ev \<in> set L"
  shows "filter (\<lambda>f. P f \<and> seOffset f = seOffset ev) L = (if P ev then [ev] else [])"
proof (rule in_order_eqI)
  have "\<And>f g. f \<in> set L \<Longrightarrow> g \<in> set L \<Longrightarrow> seOffset f = seOffset g \<Longrightarrow> f = g"
    using assms(1) by (induction L) (auto simp: in_order_tl)
  with assms(2) show "set (filter (\<lambda>f. P f \<and> seOffset f = seOffset ev) L) = set (if P ev then [ev] else [])" by auto
  show "in_order (filter (\<lambda>f. P f \<and> seOffset f = seOffset ev) L)" by (rule in_order_filter [OF assms(1)])
qed (simp add: in_order_def)

lemma receive_content_exact:
  assumes "in_order L" "serves L i" "inPick i = ContentFrame ev"
    and "receive_content conn dc run i ev a = Some a'" "up_to_date L run after a"
  shows "up_to_date L run after a'"
  using assms(4)
proof (cases rule: receive_content_cases)
  case (sent a1 s)
  let ?n = "seOffset ev" and ?Q = "\<lambda>f. run_scoped (seRunID f) run"
  have gap: "atSent a1 = atSent a @ filter (\<lambda>f. ?Q f \<and> atMax a < seOffset f \<and> seOffset f < ?n) L"
  proof (cases "atMax a + 1 < ?n")
    case True
    with sent(4) show ?thesis using fill_gap_exact [OF assms(1-3)] by simp
  next
    case False
    then have "filter (\<lambda>f. ?Q f \<and> atMax a < seOffset f \<and> seOffset f < ?n) L = []" by (auto simp: filter_empty_conv)
    with sent(4) False show ?thesis by simp
  qed
  have "delivered run after ?n L = delivered run after (?n - 1) L @ filter (\<lambda>f. ?Q f \<and> ?n - 1 < seOffset f \<and> seOffset f \<le> ?n) L"
    using assms(5) sent(2) by (intro delivered_split [OF assms(1)]) (auto simp: up_to_date_def)
  also have "delivered run after (?n - 1) L =
      delivered run after (atMax a) L @ filter (\<lambda>f. ?Q f \<and> atMax a < seOffset f \<and> seOffset f \<le> ?n - 1) L"
    using assms(5) sent(2) by (intro delivered_split [OF assms(1)]) (auto simp: up_to_date_def)
  also have "filter (\<lambda>f. ?Q f \<and> ?n - 1 < seOffset f \<and> seOffset f \<le> ?n) L = filter (\<lambda>f. ?Q f \<and> seOffset f = ?n) L"
    by (intro filter_cong refl) auto
  also have "\<dots> = [ev]" using only_frame [OF assms(1) served_frame [OF assms(2,3)], of ?Q] sent(1) by simp
  finally have "delivered run after ?n L = atSent a1 @ [ev]" using assms(5) unfolding gap by (simp add: up_to_date_def)
  with sent(2,6) assms(5) show ?thesis by (simp add: up_to_date_def)
qed (use assms in simp)

lemma up_to_date_cong: "atMax a' = atMax a \<Longrightarrow> atSent a' = atSent a \<Longrightarrow> up_to_date L run after a' = up_to_date L run after a"
  by (simp add: up_to_date_def)

lemma attach_step_exact:
  assumes "in_order L" "serves L i" "attach_step conn dc run i a = Some a'" "\<not> atEnded a'" "up_to_date L run after a"
  shows "up_to_date L run after a'"
proof (cases "\<exists>ev. inPick i = ContentFrame ev \<and> \<not> atEnded a")
  case True
  with assms(3) receive_content_exact [OF assms(1,2) _ _ assms(5)] show ?thesis by (auto simp: attach_step_def)
next
  case False
  have "end_stream conn dc run i b = Some a' \<Longrightarrow> atEnded a'" for b by (auto simp: end_stream_def split: option.splits)
  with False assms(3-5) show ?thesis
    by (auto simp: attach_step_defs receive_lifecycle_def up_to_date_def split: if_splits pick.splits)
qed

lemma attach_loop_exact:
  assumes "in_order L" "\<forall>i \<in> set ins. serves L i" "attach_loop conn dc run ins a = Some a'" "\<not> atEnded a'" "up_to_date L run after a"
  shows "up_to_date L run after a'"
  using assms
proof (induction ins arbitrary: a)
  case (Cons i ins)
  then obtain b where b: "attach_step conn dc run i a = Some b" "attach_loop conn dc run ins b = Some a'"
    by (auto split: option.splits)
  have "\<not> atEnded b" using attach_loop_ended [of b conn dc run ins] b(2) Cons.prems(4) by auto
  with attach_step_exact [OF Cons.prems(1) _ b(1) _ Cons.prems(5)] Cons.prems(2) have "up_to_date L run after b" by simp
  with Cons.IH b(2) Cons.prems show ?case by simp
qed simp

subsection \<open>The end of a run reaches the client\<close>

text \<open>No argument text for a call without an id: the only frame the emitter cannot take.\<close>

definition sound_frame :: "decoders \<Rightarrow> stream_event \<Rightarrow> bool" where
  "sound_frame dc ev =
     (seKind ev = KindToolArgs \<longrightarrow> (case dcMap dc (sePayload ev) of None \<Rightarrow> True | Some m \<Rightarrow> map_str m ''id'' \<noteq> ''''))"

definition sound_instant :: "decoders \<Rightarrow> instant \<Rightarrow> bool" where
  "sound_instant dc i =
     ((\<forall>k evs. inRead i k = Some evs \<longrightarrow> list_all (sound_frame dc) evs) \<and> list_all (sound_frame dc) (inQueued i) \<and>
      (case inPick i of ContentFrame ev \<Rightarrow> sound_frame dc ev | _ \<Rightarrow> True))"

lemma emit_stream_total: "sound_frame dc ev \<Longrightarrow> \<exists>s. emit_stream_event conn dc ev e = Some s"
proof (cases "emit_stream_event conn dc ev e")
  case None
  assume s: "sound_frame dc ev"
  from None obtain m where "emit_event conn (seKind ev) (PMap m) e = None" "dcMap dc (sePayload ev) = Some m"
    by (auto simp: emit_stream_event_def Let_def emit_panics_iff split: if_splits option.splits)
  with s show ?thesis by (auto simp: emit_panics_iff sound_frame_def)
qed simp

lemma emit_lifecycle_total: "\<exists>s. emit_lifecycle_event conn dc ev e = Some s"
proof (cases "emit_lifecycle_event conn dc ev e")
  case None
  then show ?thesis by (auto simp: emit_lifecycle_event_def emit_panics_iff split: if_splits)
qed simp

lemma send_frames_total: "list_all (sound_frame dc) evs \<Longrightarrow> \<exists>a'. send_frames conn dc keep evs a = Some a'"
proof (induction evs arbitrary: a)
  case (Cons ev evs)
  then obtain s where "emit_stream_event conn dc ev (atSse a) = Some s" using emit_stream_total [of dc ev conn "atSse a"] by auto
  with Cons show ?case by simp
qed simp

lemma send_lifecycle_total: "\<exists>s'. send_lifecycle conn dc keep evs s = Some s'"
proof (induction evs arbitrary: s)
  case (Cons ev evs)
  obtain s' where "emit_lifecycle_event conn dc ev s = Some s'" using emit_lifecycle_total by blast
  with Cons show ?case by simp
qed simp

lemma read_frames_total:
  "sound_instant dc i \<Longrightarrow> \<exists>a'. read_frames conn dc keep (inRead i) k a = Some a'"
  using send_frames_total by (fastforce simp: read_frames_def sound_instant_def split: option.split)

lemma end_stream_total:
  assumes "sound_instant dc i"
  shows "\<exists>a'. end_stream conn dc run i a = Some a' \<and> atEnded a'"
proof -
  let ?q = "\<lambda>ev. run_scoped (seRunID ev) run"
  obtain a1 where a1: "send_frames conn dc ?q (inQueued i) a = Some a1"
    using send_frames_total assms unfolding sound_instant_def by blast
  obtain a2 where "read_frames conn dc ?q (inRead i) (atMax a1) a1 = Some a2" using read_frames_total [OF assms] by blast
  with a1 obtain b where b: "drain_content conn dc run i a = Some b" by (cases "inQueueClosed i") (auto simp: drain_content_def)
  obtain s where "send_lifecycle conn dc (\<lambda>ev. evRunID ev = run) (inLifecycle i) (atSse b) = Some s"
    using send_lifecycle_total by blast
  with b show ?thesis by (simp add: end_stream_def drain_lifecycle_def)
qed

lemma receive_content_total:
  assumes "sound_instant dc i" "inPick i = ContentFrame ev"
  shows "\<exists>a'. receive_content conn dc run i ev a = Some a'"
proof -
  obtain a1 where "(if atMax a + 1 < seOffset ev then fill_gap conn dc run (seOffset ev) i a else Some a) = Some a1"
    using read_frames_total [OF assms(1)] unfolding fill_gap_def by fastforce
  moreover have "sound_frame dc ev" using assms by (simp add: sound_instant_def)
  then obtain s where "emit_stream_event conn dc ev (atSse a1) = Some s" using emit_stream_total by blast
  ultimately show ?thesis by (simp add: receive_content_def)
qed

text \<open>A step returns; a stream that has seen the end of its run keeps knowing it, and ends at a tick.\<close>

lemma attach_step_total:
  assumes "sound_instant dc i"
  shows "\<exists>a'. attach_step conn dc run i a = Some a' \<and> (atEnded a \<longrightarrow> atEnded a') \<and>
    (atTerminal a \<longrightarrow> atEnded a' \<or> atTerminal a' \<and> inPick i \<noteq> SettleTick) \<and>
    (\<forall>ev. inPick i = LifecycleFrame ev \<and> evRunID ev = run \<and> terminal_lifecycle (evKind ev) \<longrightarrow> atEnded a' \<or> atTerminal a')"
proof (cases "atEnded a")
  case True
  then show ?thesis by (simp add: attach_step_def)
next
  case False
  show ?thesis
  proof (cases "inPick i")
    case SettleTick
    with False end_stream_total [OF assms, of conn run a] end_stream_total [OF assms, of conn run "a\<lparr>atLastCheck := inNow i\<rparr>"]
    show ?thesis by (auto simp: attach_step_defs)
  next
    case (LifecycleFrame ev)
    obtain s where "emit_lifecycle_event conn dc ev (atSse a) = Some s" using emit_lifecycle_total by blast
    with False LifecycleFrame show ?thesis by (simp add: attach_step_def receive_lifecycle_def)
  next
    case (ContentFrame ev)
    with False receive_content_total [OF assms this, of conn run a] show ?thesis
      by (auto simp: attach_step_def dest: receive_content_flags)
  next
    case ContentClosed
    with False end_stream_total [OF assms, of conn run] show ?thesis by (auto simp: attach_step_def)
  qed (use False in \<open>simp_all add: attach_step_def\<close>)
qed

lemma attach_loop_total:
  assumes "\<forall>i \<in> set ins. sound_instant dc i"
  shows "\<exists>a'. attach_loop conn dc run ins a = Some a' \<and> (atEnded a \<longrightarrow> atEnded a') \<and>
    (atTerminal a \<longrightarrow> atEnded a' \<or> atTerminal a' \<and> SettleTick \<notin> inPick ` set ins)"
  using assms
proof (induction ins arbitrary: a)
  case (Cons i ins)
  then have "sound_instant dc i" by simp
  from attach_step_total [OF this, of conn run a] obtain b where b: "attach_step conn dc run i a = Some b"
    "atEnded a \<longrightarrow> atEnded b" "atTerminal a \<longrightarrow> atEnded b \<or> atTerminal b \<and> inPick i \<noteq> SettleTick" by blast
  from Cons.IH [of b] Cons.prems obtain a' where "attach_loop conn dc run ins b = Some a'" "atEnded b \<longrightarrow> atEnded a'"
    "atTerminal b \<longrightarrow> atEnded a' \<or> atTerminal a' \<and> SettleTick \<notin> inPick ` set ins" by auto
  with b show ?case by auto
qed simp

lemma attach_loop_append:
  "attach_loop conn dc run (xs @ ys) a =
     (case attach_loop conn dc run xs a of None \<Rightarrow> None | Some a' \<Rightarrow> attach_loop conn dc run ys a')"
  by (induction xs arbitrary: a) (simp_all split: option.split)

lemma attach_loop_ends:
  assumes "\<forall>i \<in> set (xs @ i # ys). sound_instant dc i"
    and "inPick i = LifecycleFrame ev" "evRunID ev = run" "terminal_lifecycle (evKind ev)" "SettleTick \<in> inPick ` set ys"
  shows "\<exists>a'. attach_loop conn dc run (xs @ i # ys) a = Some a' \<and> atEnded a'"
proof -
  from attach_loop_total [of xs dc conn run a] assms(1) obtain b where b: "attach_loop conn dc run xs a = Some b" by auto
  have "sound_instant dc i" using assms(1) by simp
  from attach_step_total [OF this, of conn run b] assms(2-4) obtain c where c: "attach_step conn dc run i b = Some c"
    "atEnded c \<or> atTerminal c" by auto
  from attach_loop_total [of ys dc conn run c] assms(1) obtain d where "attach_loop conn dc run ys c = Some d"
    "atEnded c \<longrightarrow> atEnded d" "atTerminal c \<longrightarrow> atEnded d \<or> SettleTick \<notin> inPick ` set ys" by auto
  with b c assms(5) show ?thesis by (auto simp: attach_loop_append)
qed

subsection \<open>The properties of an attached stream\<close>

text \<open>C40: the frames a client of a run is sent: whatever the broker, the run's events, its settle checks
  and the connection do, and short of a panic (argument text without a call id), they are the
  beginning of a message as the protocol has it: one start; no text while reasoning is open, and
  neither opened twice; a call with an id started once and before its arguments; one finish with
  nothing open, then the closing mark. A stream that ended without a failed write or the client
  leaving is a whole message. (The frames the handler puts behind the start open and close nothing.)\<close>

theorem attach_stream_readable:
  assumes "list_all plain pre" "attach conn dc m run after pre rep i0 ins = Some a"
  shows "reads (swOut (atSse a)) \<noteq> None \<and>
    (atEnded a \<and> \<not> swErr (atSse a) \<and> (\<forall>i \<in> set ins. inPick i \<noteq> ClientGone) \<longrightarrow>
       (\<exists>v. reads (swOut (atSse a)) = Some v \<and> vwStage v = Over))"
  using attach_outcome [OF assms(2,1)] by (auto simp: closed_with_def readable_def sse_inv_def)

text \<open>Where the run store says failed or cancelled whenever it is asked, the stream does not finish as
  complete: the reason given is an error, a truncation or another stop.\<close>

theorem unfinished_run_not_complete:
  assumes "list_all plain pre" "attach conn dc m run after pre rep i0 ins = Some a"
    and "atEnded a" "\<not> swErr (atSse a)" "\<forall>i \<in> set ins. inPick i \<noteq> ClientGone"
    and "\<forall>i \<in> set (i0 # ins). settle_status (inRuns i) (runID run)
           (if status_terminal (runStatus run) then Some (runStatus run) else None) \<in> {Some RunFailed, Some RunCancelled}"
  shows "\<exists>cs r x y. swOut (atSse a) = cs @ [CFinish r x y, CDone] \<and> r \<in> {''error'', ''length'', ''other''}"
proof -
  let ?st = "if status_terminal (runStatus run) then Some (runStatus run) else None"
  from attach_outcome [OF assms(2,1)] assms(3,5) obtain i where i: "i \<in> set (i0 # ins)"
    "closed_with (reasons_for (inRuns i) (runID run) ?st) a" by blast
  with assms(6) have "reasons_for (inRuns i) (runID run) ?st = {''error'', ''length'', ''other''}"
    by (auto simp: reasons_for_def)
  with i(2) assms(4) show ?thesis unfolding closed_with_def by fastforce
qed

text \<open>C39: let L be what a session's broker publishes, in the order of its offsets, and let the broker
  answer every read with all it has published by then past the given offset (nothing evicted, the
  session not settled). As long as the stream of an attached client has not ended, the frames handed
  to its emitter are exactly those of its run, and of no run, past the offset it asked for and up to
  the last it got, in order and each once, whichever live frames were dropped on the way to it. (At
  the end of a run this can fail: drain_skips_dropped_frames.)\<close>

theorem attach_frames_exact:
  assumes "in_order L" "\<forall>i \<in> set (i0 # ins). serves L i"
    and "attach conn dc m run after pre rep i0 ins = Some a" "\<not> atEnded a"
  shows "atSent a = delivered (runID run) after (atMax a) L"
  using assms(3)
proof (cases rule: attach_cases)
  case settled
  with assms(4) show ?thesis by simp
next
  case (follow s1 a1)
  have "inActive i0"
  proof (rule ccontr)
    assume "\<not> inActive i0"
    with follow(4) have "end_stream conn dc (runID run) i0 a1 = Some a" by simp
    then have "atEnded a" by (auto simp: end_stream_def split: option.splits)
    with assms(4) show False by simp
  qed
  with follow(4) have loop: "attach_loop conn dc (runID run) ins a1 = Some a" by simp
  have "up_to_date L (runID run) after a1"
    using assms(2) by (intro caught_up_exact [OF assms(1) _ follow(3)]) (simp_all add: attach_start_def)
  with attach_loop_exact [OF assms(1) _ loop assms(4)] assms(2) show ?thesis by (simp add: up_to_date_def)
qed

text \<open>Once the end of the run has been announced to an attached client, a tick of its clock ends the
  stream; nothing the broker sends can stop it, short of argument text without a call id.\<close>

theorem announced_end_closes_stream:
  assumes "\<forall>i \<in> set (i0 # xs @ i1 # ys). sound_instant dc i"
    and "inPick i1 = LifecycleFrame ev" "evRunID ev = runID run" "terminal_lifecycle (evKind ev)"
    and "SettleTick \<in> inPick ` set ys"
  shows "\<exists>a. attach conn dc m run after pre rep i0 (xs @ i1 # ys) = Some a \<and> atEnded a"
proof (cases "status_terminal (runStatus run)")
  case True
  then show ?thesis by (simp add: attach_def Let_def)
next
  case False
  let ?b = "attach_start conn m after pre i0"
  obtain s1 where s1: "send_lifecycle conn dc (\<lambda>ev. evKind ev \<noteq> KindUser) (case rep of None \<Rightarrow> [] | Some evs \<Rightarrow> evs) (atSse ?b) = Some s1"
    using send_lifecycle_total by blast
  have i0: "sound_instant dc i0" using assms(1) by simp
  obtain a1 where a1: "read_frames conn dc (\<lambda>ev. run_scoped (seRunID ev) (runID run)) (inRead i0) after (?b\<lparr>atSse := s1\<rparr>) = Some a1"
    using read_frames_total [OF i0] by blast
  obtain b where "attach_loop conn dc (runID run) (xs @ i1 # ys) a1 = Some b" "atEnded b"
    using attach_loop_ends [of xs i1 ys dc ev "runID run" conn a1] assms by auto
  moreover obtain c where "end_stream conn dc (runID run) i0 a1 = Some c" "atEnded c"
    using end_stream_total [OF i0] by blast
  ultimately obtain a where "(if inActive i0 then attach_loop conn dc (runID run) (xs @ i1 # ys) a1 else end_stream conn dc (runID run) i0 a1) = Some a"
    "atEnded a"
    by (cases "inActive i0") auto
  with False s1 a1 show ?thesis by (cases "inActive i0") (simp_all add: attach_def Let_def attach_start_def)
qed

subsection \<open>An example\<close>

text \<open>Two frames are published; the first is dropped on its way and read back when the second arrives.\<close>

definition demo_conn :: connection where
  "demo_conn = \<lparr>cnAccepts = \<lambda>_. True, cnGone = \<lambda>_. False\<rparr>"

definition demo_dec :: decoders where
  "demo_dec = \<lparr>dcText = \<lambda>s. s, dcMap = \<lambda>_. None\<rparr>"

definition demo_run :: "run_status \<Rightarrow> run" where
  "demo_run st = \<lparr>runID = ''r'', runSessionID = ''s'', runSeq = 1, runStatus = st, runCreatedAt = 0, runFinishedAt = None,
     runTeamID = '''', runModel = ''m'', runUsage = None\<rparr>"

definition demo_frame :: "int \<Rightarrow> string \<Rightarrow> stream_event" where
  "demo_frame n s = \<lparr>seOffset = n, seRunID = ''r'', seKind = KindText, sePayload = s\<rparr>"

definition demo_log :: "stream_event list" where
  "demo_log = [demo_frame 1 ''a'', demo_frame 2 ''b'', demo_frame 3 ''c'']"

definition demo_end :: event where
  "demo_end = \<lparr>evRunID = ''r'', evSessionID = ''s'', evOffset = 2, evKind = KindError, evPayload = ''boom'', evCreatedAt = 0\<rparr>"

text \<open>A moment at which \<open>n\<close> frames of the log are published.\<close>

definition demo_instant :: "nat \<Rightarrow> pick \<Rightarrow> instant" where
  "demo_instant n p = \<lparr>inPick = p, inNow = 0, inActive = True,
     inRead = \<lambda>k. Some (filter (\<lambda>f. k < seOffset f) (take n demo_log)), inQueued = [], inQueueClosed = False,
     inLifecycle = [], inRuns = Some [demo_run RunFailed]\<rparr>"

lemmas demo_defs = demo_conn_def demo_dec_def demo_run_def demo_frame_def demo_log_def demo_end_def demo_instant_def

lemmas attach_eval = attach_def attach_step_defs receive_content_def receive_lifecycle_def fill_gap_def read_frames_def
  end_stream_def drain_content_def drain_lifecycle_def settle_finish_def settle_status_def run_scoped_def terminal_lifecycle_def
  emit_stream_event_def emit_lifecycle_event_def is_session_state_def emit_event_def emit_kind_def emit_text_def emit_error_def
  write_run_status_def close_reasoning_def finish_def finish_with_reason_def sse_write_def new_sse_def Let_def

definition demo_missed :: "instant list" where
  "demo_missed = [demo_instant 2 (ContentFrame (demo_frame 2 ''b''))]"

definition demo_failed :: "instant list" where
  "demo_failed = [demo_instant 1 (ContentFrame (demo_frame 1 ''a'')), demo_instant 1 (LifecycleFrame demo_end), demo_instant 1 SettleTick]"

lemma demo_missed_result:
  "\<exists>a. attach demo_conn demo_dec ''m'' (demo_run RunRunning) 0 [] None (demo_instant 0 SettleTick) demo_missed = Some a \<and>
     \<not> atEnded a \<and> atMax a = 2"
  by (simp add: attach_eval demo_defs demo_missed_def)

lemma demo_failed_result:
  "\<exists>a. attach demo_conn demo_dec ''m'' (demo_run RunRunning) 0 [CSession ''s''] None (demo_instant 0 SettleTick) demo_failed = Some a \<and>
     atEnded a \<and> \<not> swErr (atSse a)"
  by (simp add: attach_eval demo_defs demo_failed_def)

lemma attach_stream_readable_witness:
  "\<exists>a v. attach demo_conn demo_dec ''m'' (demo_run RunRunning) 0 [CSession ''s''] None (demo_instant 0 SettleTick) demo_failed = Some a \<and>
     reads (swOut (atSse a)) = Some v \<and> vwStage v = Over"
proof -
  obtain a where a: "attach demo_conn demo_dec ''m'' (demo_run RunRunning) 0 [CSession ''s''] None (demo_instant 0 SettleTick)
    demo_failed = Some a" "atEnded a" "\<not> swErr (atSse a)" using demo_failed_result by blast
  have "list_all plain [CSession ''s'']" "\<forall>i \<in> set demo_failed. inPick i \<noteq> ClientGone" by (simp_all add: demo_failed_def demo_instant_def)
  with attach_stream_readable [OF this(1) a(1)] a show ?thesis by auto
qed

lemma unfinished_run_not_complete_witness:
  "\<exists>a cs r x y. attach demo_conn demo_dec ''m'' (demo_run RunRunning) 0 [CSession ''s''] None (demo_instant 0 SettleTick) demo_failed = Some a \<and>
     swOut (atSse a) = cs @ [CFinish r x y, CDone] \<and> r \<in> {''error'', ''length'', ''other''}"
proof -
  obtain a where a: "attach demo_conn demo_dec ''m'' (demo_run RunRunning) 0 [CSession ''s''] None (demo_instant 0 SettleTick)
    demo_failed = Some a" "atEnded a" "\<not> swErr (atSse a)" using demo_failed_result by blast
  have "list_all plain [CSession ''s'']" by simp
  from unfinished_run_not_complete [OF this a] have "\<exists>cs r x y. swOut (atSse a) = cs @ [CFinish r x y, CDone] \<and> r \<in> {''error'', ''length'', ''other''}"
    by (simp add: demo_failed_def demo_instant_def settle_status_def demo_run_def)
  with a show ?thesis by blast
qed

lemma demo_serves: "serves demo_log (demo_instant n SettleTick)" "serves demo_log (demo_instant 2 (ContentFrame (demo_frame 2 ''b'')))"
  unfolding serves_def demo_instant_def
  by (auto intro: exI [of _ n]) (auto intro!: exI [of _ 2] simp: demo_log_def)

lemma attach_frames_exact_witness:
  "\<exists>a. attach demo_conn demo_dec ''m'' (demo_run RunRunning) 0 [] None (demo_instant 0 SettleTick) demo_missed = Some a \<and>
     atSent a = [demo_frame 1 ''a'', demo_frame 2 ''b'']"
proof -
  obtain a where a: "attach demo_conn demo_dec ''m'' (demo_run RunRunning) 0 [] None (demo_instant 0 SettleTick) demo_missed = Some a"
    "\<not> atEnded a" "atMax a = 2" using demo_missed_result by blast
  have "in_order demo_log" by (simp add: in_order_def demo_log_def demo_frame_def)
  moreover have "\<forall>i \<in> set (demo_instant 0 SettleTick # demo_missed). serves demo_log i"
    using demo_serves by (simp add: demo_missed_def)
  ultimately have "atSent a = delivered (runID (demo_run RunRunning)) 0 (atMax a) demo_log"
    using a(1,2) by (rule attach_frames_exact)
  with a(1,3) show ?thesis by (simp add: delivered_def demo_log_def demo_frame_def demo_run_def run_scoped_def)
qed

lemma announced_end_closes_stream_witness:
  "\<exists>a. attach demo_conn demo_dec ''m'' (demo_run RunRunning) 0 [] None (demo_instant 0 SettleTick)
     ([] @ demo_instant 1 (LifecycleFrame demo_end) # [demo_instant 1 SettleTick]) = Some a \<and> atEnded a"
proof (rule announced_end_closes_stream [where ev = demo_end])
  have "sound_frame demo_dec ev" for ev by (simp add: sound_frame_def demo_dec_def)
  then show "\<forall>i \<in> set (demo_instant 0 SettleTick # [] @ demo_instant 1 (LifecycleFrame demo_end) # [demo_instant 1 SettleTick]).
      sound_instant demo_dec i"
    by (simp add: sound_instant_def demo_instant_def list_all_iff)
qed (simp_all add: demo_instant_def demo_end_def demo_run_def terminal_lifecycle_def)

text \<open>
  At the end of a run the frames queued for the client are sent before the broker is read, from the
  last of them on: a frame that was dropped below a queued one is not recovered, though the broker
  still holds it.
\<close>

lemma drain_skips_dropped_frames:
  "map_option atSent (attach demo_conn demo_dec ''m'' (demo_run RunRunning) 0 [] None (demo_instant 0 SettleTick)
     [demo_instant 3 (LifecycleFrame demo_end), (demo_instant 3 SettleTick)\<lparr>inQueued := [demo_frame 3 ''c'']\<rparr>]) =
   Some [demo_frame 3 ''c'']"
  by (simp add: attach_eval demo_defs)

text \<open>
  A run store that cannot answer is read as one without an active run: the stream of a run in progress
  is finished as complete.
\<close>

lemma failed_check_finishes_running_run:
  "map_option (\<lambda>a. last (butlast (swOut (atSse a)))) (attach demo_conn demo_dec ''m'' (demo_run RunRunning) 0 [] None
     ((demo_instant 1 SettleTick)\<lparr>inActive := False, inRuns := Some [demo_run RunRunning]\<rparr>) []) = Some (CFinish ''stop'' 0 0)"
  by (simp add: attach_eval demo_defs)

end
