(* ===== verification/Spec2Isabelle.thy ===== *)
theory Spec2Isabelle
  imports Compress Messages RuntimeSteps Registry Retry Stall ThrottleBounds NetGuard Outbox
    Trigger SpawnTree Jobs Attach
begin

text \<open>
  A verification development of the core of nowhere-agent, a multi-user gateway that runs
  language-model agents. The program is written in Go; every path below is under
  \<open>src/internal\<close>.

  \<^bold>\<open>The program.\<close> A client posts a turn to a session. The runtime (\<open>session/runtime.go\<close>) opens a
  run, taking the session's run lock; the run registry (\<open>session/registry.go\<close>) starts a worker
  for it, which reads the history back (\<open>session/messages.go\<close>), first folds a suspended batch of
  tool calls the client has decided since (\<open>session/fold.go\<close>, \<open>session/interaction.go\<close>), and
  executes the agent loop (\<open>agent/loop.go\<close>). The loop repairs the pairing of tool uses and
  results (\<open>contextmgmt/pairing.go\<close>), calls the model through a chain of middleware
  (\<open>agent/middleware.go\<close>: compression, overflow fallback, vision gate, memory injection, usage),
  assembles the provider's event stream, screens the tool calls of the answer against their
  schemas (\<open>toolruntime/schema.go\<close>), holds those that need the client and dispatches the rest
  (\<open>toolruntime/registry.go\<close>), until an answer has no calls or a bound or failure ends the run.
  Everything it produces leaves as frames through the run emitter (\<open>session/emitter.go\<close>), which
  stores messages, interactions and lifecycle events and publishes the rest to the live broker
  (\<open>session/streambroker.go\<close>), from which clients reconnect: a client is attached to a run
  (\<open>chatapi/attach.go\<close>) and sent its frames as a message stream (\<open>chatapi/emitter.go\<close>). The end of the worker settles the
  run, voids what is still undecided and releases the lock. The model's vendor is behind an adapter
  (\<open>provider/openai\<close>, \<open>provider/anthropic\<close>) that converts the neutral request, sends it with retries
  (\<open>provider/retry.go\<close>), decodes the stream of server-sent events and watches it for stalls
  (\<open>provider/stall.go\<close>). Log-ins and one-time codes are throttled in \<open>identity\<close>; the end of a run is
  reported to a webhook through an outbox (\<open>webhook\<close>), whose connections a guard confines. A task
  can also be fired on a cron schedule (\<open>schedule\<close>), and a run can hand work to child loops through a
  spawn tool (\<open>subagent\<close>).

  \<^bold>\<open>Conventions.\<close> The embedding is shallow: one HOL function per Go function or per stage of a long
  one, named after it. A struct is a record (\<open>Block\<close> and \<open>Usage\<close>, which the code copies field by
  field, are datatypes with selectors), a Go map an association list with distinct keys
  (\<open>Prelude\<close>), a nilable value an option, an error a value, a panic a constructor of the
  result where the code recovers from it. Strings are byte lists. Times are integers, a clock
  reading, a fresh identifier, the state of a context, what a model streams and what a tool
  returns are arguments or fields of an environment; an environment is asked at a growing moment
  (\<open>sClock\<close>), so that two consultations may be answered differently. \<open>int\<close> stands for Go's 64-bit
  integers where the values counted (tokens, messages, iterations) cannot reach the bound; where
  wrap-around is reachable it is written out.

  \<^bold>\<open>Theories.\<close>
  \<^item> \<open>Prelude\<close>: Go maps (locale \<open>go_map\<close>, interpreted on the association lists), strings, UTF-8,
    lists. \<open>GoJson\<close>: decoded JSON, its printing and comparison.
  \<^item> \<open>Provider\<close>: \<open>provider/types.go\<close>, the neutral message model. \<open>Profiles\<close>: the capability table
    of \<open>provider/profiles.go\<close>.
  \<^item> \<open>Pairing\<close>, \<open>Rounds\<close>, \<open>Compress\<close>: \<open>contextmgmt\<close>. The contract of a conversation
    (\<open>pairing_contract\<close>, \<open>settled\<close>) is stated in \<open>Pairing\<close> and used by every later theory.
  \<^item> \<open>Schema\<close>, \<open>Toolruntime\<close>: \<open>toolruntime\<close>; the concurrency cap of a batch is a step relation
    (\<open>pool_step\<close>).
  \<^item> \<open>Events\<close>, \<open>AgentState\<close>, \<open>AgentStream\<close>, \<open>LoopTools\<close>, \<open>Middleware\<close>, \<open>AgentLoop\<close>: \<open>agent\<close>. The state
    of the loop is \<open>lstate\<close>; \<open>consume\<close> assembles a stream; \<open>dispatch\<close> and \<open>interaction_gate\<close> treat a
    batch; \<open>loop_run\<close> is \<open>Loop.Run\<close> with every exit. What a stage may touch is the relation \<open>extends\<close>.
  \<^item> \<open>SessionStore\<close>, \<open>Messages\<close>, \<open>Broker\<close>: the in-memory stores, the interaction queue, the live
    broker and the bus of \<open>session\<close>.
  \<^item> \<open>ChatStream\<close>, \<open>Attach\<close>: \<open>chatapi/emitter.go\<close>, \<open>chatapi/uimsg.go\<close>, \<open>chatapi/resume.go\<close> and
    \<open>chatapi/attach.go\<close>. The emitter is the record \<open>sse\<close>, the attach loop the function \<open>attach\<close> over the
    moments at which its select picks; what a client can make of the frames is \<open>reads\<close>.
  \<^item> \<open>Runtime\<close>, \<open>RuntimeSteps\<close>: \<open>session/runtime.go\<close>, sequentially, and the start and completion of
    runs as atomic steps of several processes over one store (\<open>start_step\<close>).
  \<^item> \<open>Fold\<close>, \<open>Emitter\<close>, \<open>RunRecord\<close>, \<open>Registry\<close>: the fold of a suspended batch, the run emitter with
    the step intents, their composition with the loop, and the worker of the registry.
  \<^item> \<open>ProviderWire\<close>: what the adapters share, error classification and the framing of events;
    \<open>OpenAI\<close>, \<open>Anthropic\<close>: the stream decoders; \<open>OpenAIRequest\<close>, \<open>AnthropicRequest\<close>: the request
    builders; \<open>Retry\<close>: \<open>DoWithRetry\<close> and \<open>Adapter.Stream\<close> over a scripted network; \<open>Stall\<close>: the stall
    detector as a step relation of reader, watchdog and clock. Each connects to the loop through the
    field \<open>eStream\<close> of its environment.
  \<^item> \<open>Throttle\<close>, \<open>ThrottleBounds\<close>: \<open>identity/throttle.go\<close> and \<open>identity/otpthrottle.go\<close>. Both are
    interpretations of the locale \<open>limiter\<close>, whose abstract side is the history of failures per key.
  \<^item> \<open>NetAddr\<close>, \<open>NetGuard\<close>: \<open>netutil/netutil.go\<close> and \<open>webhook/ssrf.go\<close>, addresses as the octets of a
    Go \<open>net.IP\<close>, and what a delivery may connect to. \<open>Outbox\<close>: \<open>webhook/delivery.go\<close>,
    \<open>webhook/webhook.go\<close> and \<open>webhook/sweep.go\<close>, a SQL statement being one step; the senders of a
    delivery are the step relation \<open>outbox_step\<close>.
  \<^item> \<open>Schedule\<close>, \<open>Trigger\<close>: \<open>schedule/task.go\<close>, \<open>schedule/store.go\<close> and \<open>schedule/trigger.go\<close>. The claims
    of several gateways over one table are the step relation \<open>claim_step\<close>; a fire is the function
    \<open>submit_task\<close> over an environment of answers. \<open>Jobs\<close>: \<open>scheduler/scheduler.go\<close>.
  \<^item> \<open>Subagent\<close>, \<open>SpawnTree\<close>: \<open>subagent\<close>, one spawn call with what the child's frames and usage become,
    and the calls of a run tree over the shared slots and budget (\<open>settle_step\<close>, \<open>spawn_step\<close>).

  \<^bold>\<open>What the lemmas show.\<close> The conversation is the thread: the repair establishes the pairing
  contract and leaves a settled history alone; compression and the overflow drops cut settled
  histories only at safe points; a run of the loop appends a tail that is paired by construction,
  on every exit; the emitter stores that tail; and a suspended batch, once decided and folded,
  completes it again. Around it: a run sends one end frame, is bounded, executes no batch that
  arrived on a truncated or unexplained response and no call that fails its schema or was not
  authorised; a submitted run settles whatever happens; one run is active per session; the
  interaction queue, the replay of events and the reconnection of clients are exact. On the wire, a
  settled history becomes a request each vendor accepts, a well-formed response is assembled by the
  loop to what it says, retries and stall detection do what they promise and no more. The throttles
  decide as the plain history of failures would, whatever their pruning and sweeping, within a fixed
  memory. A webhook whose transport dials the host of its URL connects to no blocked address unless
  excepted, under any change of the name resolution (a proxy, or the ASCII form of a name, is dialed as
  it is); a sweep of the outbox ends, and one sender at a time holds a delivery while its lease lasts.
  What an attached client is sent is always the beginning of a well-formed message, and holds every
  frame of its run up to the last it got. A slot of a
  schedule is fired once however many gateways claim it, a fire touches its owner's sessions only and
  leaves nothing behind unless it starts a run; the spawn calls of a run tree stay within slots,
  budget and depth and never block one another. Each property's text states the conditions it holds
  under; the lemmas named in brackets there show what happens outside them.

  \<^bold>\<open>Bounds and recursion.\<close> \<open>run_loop\<close> recurses on the remaining iterations (\<open>MaxIterations\<close>), so it is
  total; a recovered truncation uses one of them, as in the code. The overflow fallback recurses
  on the rounds left to drop (at most its retry bound). \<open>shrink_loop\<close> recurses on the tail that it
  shortens. A retried call recurses on the attempts left. The throttles hold at most \<open>throttleMaxKeys\<close>
  = 100000 keys a map; their refinement is stated for executions whose keys fit. The sweep of the
  outbox has no bound in the code: it is a partial function, proved to end. The fold reads at most \<open>foldHistoryLimit\<close> = 2000 messages, as the code does. No other
  fuel is used.

  \<^bold>\<open>Not modelled.\<close> The Postgres and Redis implementations of the stores (SQL and service calls; the
  one law relied on, the unique index on active runs, is a flag of \<open>RuntimeSteps\<close>); HTTP routing,
  request decoding and the other handlers of \<open>chatapi\<close>; the built-in tools and sandboxes, which are parameters of the tool runtime;
  accounts, tokens and identity providers, memory extraction, export and reports;
  logging, metrics and tracing. JSON coding, regular expressions, hashes, randomness, the parsing of
  HTTP dates and the HTTP exchange are parameters. Go's scheduler is modelled
  where the code's safety depends on it: the select against cancellation before each stream
  event, the tool pool and the start of runs; per-session step locks make the remaining
  operations atomic.
\<close>

end
